(* ===== verification/Prelude.thy ===== *)
theory Prelude
  imports Main "HOL-Library.Word" "HOL-Library.Char_ord" "HOL-Library.List_Lexorder"
begin

text \<open>
  Shared vocabulary of the holofs development.

  \<^item> Machine integers are words of the source's width (\<open>u8\<close> .. \<open>u64\<close>); \<open>usize\<close> values are
    lengths and indices, modelled as \<open>nat\<close>.
  \<^item> A Rust \<open>String\<close> is a HOL \<open>string\<close> whose characters are its UTF-8 bytes; a \<open>Vec<u8>\<close> is a
    \<open>bytes\<close> value. \<open>as_bytes\<close> and \<open>from_utf8\<close> translate between the two.
  \<^item> A function that can panic or return an error has type \<open>('e, 'a) res\<close>: \<open>Inl Panic\<close> for a
    panic (index out of range, failed \<open>assert!\<close>, \<open>unwrap\<close> on \<open>None\<close>), \<open>Inl (Err e)\<close> for
    \<open>Err(e)\<close> and \<open>Inr x\<close> for a normal return. \<open>rbind\<close> is the \<open>?\<close> operator.
  \<^item> Big-endian integer encodings (\<open>to_be_bytes\<close> / \<open>from_be_bytes\<close>) and the byte cursor
    shared by the binary formats.
\<close>

unbundle bit_operations_syntax

named_theorems codec_simps "decoders applied to encodings"

section \<open>Types\<close>

type_synonym u8 = "8 word"
type_synonym u16 = "16 word"
type_synonym u32 = "32 word"
type_synonym u64 = "64 word"
type_synonym bytes = "u8 list"

section \<open>Panics, errors and the error-propagation operator\<close>

datatype 'e fault = Panic | Err (err_of: 'e)

type_synonym ('e, 'a) res = "'e fault + 'a"

text \<open>\<open>std::io::ErrorKind\<close>, as far as the sources construct or inspect it. The message text of
  an \<open>io::Error\<close> is not modelled.\<close>

datatype io_error =
    UnexpectedEof | InvalidData | InvalidInput | NotFound | ConnectionRefused | ConnectionAborted

definition rbind :: "('e, 'a) res \<Rightarrow> ('a \<Rightarrow> ('e, 'b) res) \<Rightarrow> ('e, 'b) res" where
  "rbind m f = (case m of Inl e \<Rightarrow> Inl e | Inr x \<Rightarrow> f x)"

lemma rbind_Inr [simp]: "rbind (Inr x) f = f x"
  by (simp add: rbind_def)

lemma rbind_Inl [simp]: "rbind (Inl e) f = Inl e"
  by (simp add: rbind_def)

lemma rbind_eq_Inr: "rbind m f = Inr y \<longleftrightarrow> (\<exists>x. m = Inr x \<and> f x = Inr y)"
  by (cases m) auto

lemma rbind_assoc: "rbind (rbind m f) g = rbind m (\<lambda>x. rbind (f x) g)"
  by (cases m) auto

lemma rbind_cong [fundef_cong]:
  "m = m' \<Longrightarrow> (\<And>x. m' = Inr x \<Longrightarrow> f x = g x) \<Longrightarrow> rbind m f = rbind m' g"
  by (cases m') auto

text \<open>\<open>Result::map_err\<close>: a panic stays a panic.\<close>

definition map_err :: "('e \<Rightarrow> 'f) \<Rightarrow> ('e, 'a) res \<Rightarrow> ('f, 'a) res" where
  "map_err g m = (case m of Inl Panic \<Rightarrow> Inl Panic | Inl (Err e) \<Rightarrow> Inl (Err (g e)) | Inr x \<Rightarrow> Inr x)"

lemma map_err_simps [simp]:
  "map_err g (Inr x) = Inr x"
  "map_err g (Inl (Err e)) = Inl (Err (g e))"
  "map_err g (Inl Panic) = Inl Panic"
  by (simp_all add: map_err_def)

text \<open>A \<open>for\<close> loop whose body may stop early, and the loop that collects its results.\<close>

fun rfold :: "('s \<Rightarrow> 'x \<Rightarrow> ('e, 's) res) \<Rightarrow> 's \<Rightarrow> 'x list \<Rightarrow> ('e, 's) res" where
  "rfold f s [] = Inr s"
| "rfold f s (x # xs) = rbind (f s x) (\<lambda>s'. rfold f s' xs)"

fun rmap :: "('x \<Rightarrow> ('e, 'y) res) \<Rightarrow> 'x list \<Rightarrow> ('e, 'y list) res" where
  "rmap f [] = Inr []"
| "rmap f (x # xs) = rbind (f x) (\<lambda>y. rbind (rmap f xs) (\<lambda>ys. Inr (y # ys)))"

lemma rmap_Inr: "(\<And>x. x \<in> set xs \<Longrightarrow> f x = Inr (g x)) \<Longrightarrow> rmap f xs = Inr (map g xs)"
  by (induction xs) auto

lemma rfold_Inr:
  "(\<And>s x. x \<in> set xs \<Longrightarrow> f s x = Inr (g x s)) \<Longrightarrow> rfold f s xs = Inr (fold g xs s)"
  by (induction xs arbitrary: s) auto

lemma rfold_append: "rfold f s (xs @ ys) = rbind (rfold f s xs) (\<lambda>s'. rfold f s' ys)"
  by (induction xs arbitrary: s) (auto simp: rbind_def split: sum.splits)

lemma rfold_invariant:
  assumes "rfold f s xs = Inr t" and "P s"
    and "\<And>s x t. x \<in> set xs \<Longrightarrow> P s \<Longrightarrow> f s x = Inr t \<Longrightarrow> P t"
  shows "P t"
  using assms
proof (induction xs arbitrary: s)
  case Nil
  then show ?case by simp
next
  case (Cons x xs)
  then obtain s' where s': "f s x = Inr s'" "rfold f s' xs = Inr t"
    by (auto simp: rbind_eq_Inr)
  have "P s'" using Cons.prems(2) s'(1) Cons.prems(3)[of x s s'] by simp
  with s'(2) show ?case
    using Cons.prems(3) by (intro Cons.IH[of s']) auto
qed

section \<open>Indexing and slicing: out of range panics\<close>

definition at_idx :: "'a list \<Rightarrow> nat \<Rightarrow> ('e, 'a) res" where
  "at_idx xs i = (if i < length xs then Inr (xs ! i) else Inl Panic)"

lemma at_Inr [simp]: "i < length xs \<Longrightarrow> at_idx xs i = Inr (xs ! i)"
  by (simp add: at_idx_def)

definition slice :: "'a list \<Rightarrow> nat \<Rightarrow> nat \<Rightarrow> 'a list" where
  "slice xs a b = take (b - a) (drop a xs)"

lemma length_slice [simp]: "b \<le> length xs \<Longrightarrow> length (slice xs a b) = b - a"
  by (simp add: slice_def)

lemma nth_slice: "a + i < b \<Longrightarrow> b \<le> length xs \<Longrightarrow> slice xs a b ! i = xs ! (a + i)"
  by (simp add: slice_def)

text \<open>\<open>assert!\<close>.\<close>

definition rassert :: "bool \<Rightarrow> ('e, unit) res" where
  "rassert b = (if b then Inr () else Inl Panic)"

lemma rassert_simps [simp]: "rassert True = Inr ()" "rassert False = Inl Panic"
  by (simp_all add: rassert_def)

section \<open>Big-endian integers\<close>

text \<open>\<open>be_bytes n x\<close> is \<open>to_be_bytes\<close> of the \<open>n\<close>-byte integer that a cast of \<open>x\<close> to that width
  gives: the cast keeps the low \<open>8 * n\<close> bits.\<close>

fun be_bytes :: "nat \<Rightarrow> nat \<Rightarrow> bytes" where
  "be_bytes 0 x = []"
| "be_bytes (Suc n) x = be_bytes n (x div 256) @ [word_of_nat (x mod 256)]"

definition be_val :: "bytes \<Rightarrow> nat" where
  "be_val bs = foldl (\<lambda>a b. a * 256 + unat b) 0 bs"

lemma be_val_Nil [simp]: "be_val [] = 0"
  by (simp add: be_val_def)

lemma be_val_snoc [simp]: "be_val (bs @ [b]) = be_val bs * 256 + unat b"
  by (simp add: be_val_def)

lemma length_be_bytes [simp]: "length (be_bytes n x) = n"
  by (induction n arbitrary: x) auto

lemma unat_byte_less: "unat (b :: u8) < 256"
  using unsigned_less[of b, where ?'a = nat] by simp

lemma unat_byte_mod: "unat (word_of_nat (x mod 256) :: u8) = x mod 256"
  by (simp add: unat_of_nat take_bit_eq_mod)

lemma be_val_be_bytes: "be_val (be_bytes n x) = x mod 256 ^ n"
proof (induction n arbitrary: x)
  case 0
  then show ?case by simp
next
  case (Suc n)
  have "be_val (be_bytes (Suc n) x) = ((x div 256) mod 256 ^ n) * 256 + x mod 256"
    by (simp add: Suc.IH unat_byte_mod)
  also have "\<dots> = x mod (256 * 256 ^ n)"
    by (simp add: mod_mult2_eq mult.commute)
  finally show ?case by simp
qed

lemma be_val_small [simp]: "x < 256 ^ n \<Longrightarrow> be_val (be_bytes n x) = x"
  by (simp add: be_val_be_bytes)

lemma digit_less: "a < m \<Longrightarrow> d < k \<Longrightarrow> a * k + d < m * (k::nat)"
proof -
  assume "a < m" "d < k"
  then have "a * k + d < Suc a * k" by simp
  also have "\<dots> \<le> m * k" using \<open>a < m\<close> by (intro mult_le_mono1) simp
  finally show ?thesis .
qed

lemma be_val_less: "be_val bs < 256 ^ length bs"
proof (induction bs rule: rev_induct)
  case Nil
  then show ?case by simp
next
  case (snoc b bs)
  then have "be_val bs * 256 + unat b < 256 ^ length bs * 256"
    by (rule digit_less) (rule unat_byte_less)
  then show ?case by (simp add: mult.commute)
qed

lemma be_bytes_be_val: "be_bytes (length bs) (be_val bs) = bs"
proof (induction bs rule: rev_induct)
  case Nil
  then show ?case by simp
next
  case (snoc b bs)
  have "unat b < 256" by (rule unat_byte_less)
  then have "(be_val bs * 256 + unat b) div 256 = be_val bs"
    and "(be_val bs * 256 + unat b) mod 256 = unat b" by auto
  with snoc show ?case by simp
qed

lemma word_of_be_bytes:
  assumes "LENGTH('l) = 8 * n"
  shows "(word_of_nat (be_val (be_bytes n (unat w))) :: 'l::len word) = w"
proof -
  have "unat w < 2 ^ LENGTH('l)" by (rule unsigned_less)
  also have "(2::nat) ^ LENGTH('l) = 256 ^ n"
    by (simp add: assms power_mult)
  finally show ?thesis by simp
qed

section \<open>Strings and UTF-8\<close>

definition as_bytes :: "string \<Rightarrow> bytes" where
  "as_bytes s = map (\<lambda>c. word_of_nat (of_char c)) s"

definition of_bytes :: "bytes \<Rightarrow> string" where
  "of_bytes bs = map (\<lambda>b. char_of (unat b)) bs"

lemma length_as_bytes [simp]: "length (as_bytes s) = length s"
  by (simp add: as_bytes_def)

lemma as_bytes_append [simp]: "as_bytes (s @ t) = as_bytes s @ as_bytes t"
  by (simp add: as_bytes_def)

lemma of_char_byte: "unat (word_of_nat (of_char c) :: u8) = (of_char c :: nat)"
proof -
  have "(of_char c :: nat) < 256" by simp
  then show ?thesis by (simp add: unat_of_nat take_bit_eq_mod)
qed

lemma of_bytes_as_bytes [simp]: "of_bytes (as_bytes s) = s"
  by (induction s) (auto simp: of_bytes_def as_bytes_def of_char_byte)

lemma as_bytes_of_bytes [simp]: "as_bytes (of_bytes bs) = bs"
proof (induction bs)
  case Nil
  then show ?case by (simp add: of_bytes_def as_bytes_def)
next
  case (Cons b bs)
  have "unat b < 256" by (rule unat_byte_less)
  then have "(of_char (char_of (unat b) :: char) :: nat) = unat b" by simp
  with Cons show ?case by (simp add: of_bytes_def as_bytes_def)
qed

lemma as_bytes_inject: "as_bytes s = as_bytes t \<longleftrightarrow> s = t"
  by (metis of_bytes_as_bytes)

text \<open>The number of bytes of the first encoded character, after the table that
  \<open>String::from_utf8\<close> implements; \<open>None\<close> when no character starts here.\<close>

definition cont_byte :: "u8 \<Rightarrow> bool" where
  "cont_byte b \<longleftrightarrow> 0x80 \<le> b \<and> b \<le> 0xBF"

definition utf8_width :: "bytes \<Rightarrow> nat option" where
  "utf8_width bs = (case bs of [] \<Rightarrow> None | b0 # r \<Rightarrow>
     if b0 < 0x80 then Some 1
     else if 0xC2 \<le> b0 \<and> b0 \<le> 0xDF then
       (case r of b1 # _ \<Rightarrow> if cont_byte b1 then Some 2 else None | _ \<Rightarrow> None)
     else if 0xE0 \<le> b0 \<and> b0 \<le> 0xEF then
       (case r of b1 # b2 # _ \<Rightarrow>
          if cont_byte b1 \<and> cont_byte b2 \<and> (b0 = 0xE0 \<longrightarrow> 0xA0 \<le> b1) \<and> (b0 = 0xED \<longrightarrow> b1 \<le> 0x9F)
          then Some 3 else None
        | _ \<Rightarrow> None)
     else if 0xF0 \<le> b0 \<and> b0 \<le> 0xF4 then
       (case r of b1 # b2 # b3 # _ \<Rightarrow>
          if cont_byte b1 \<and> cont_byte b2 \<and> cont_byte b3 \<and>
             (b0 = 0xF0 \<longrightarrow> 0x90 \<le> b1) \<and> (b0 = 0xF4 \<longrightarrow> b1 \<le> 0x8F)
          then Some 4 else None
        | _ \<Rightarrow> None)
     else None)"

lemma utf8_width_pos: "utf8_width bs = Some n \<Longrightarrow> 0 < n"
  by (auto simp: utf8_width_def split: list.splits if_splits)

lemma utf8_width_le: "utf8_width bs = Some n \<Longrightarrow> n \<le> length bs"
  by (auto simp: utf8_width_def split: list.splits if_splits)

function utf8_valid :: "bytes \<Rightarrow> bool" where
  "utf8_valid bs = (if bs = [] then True
     else case utf8_width bs of None \<Rightarrow> False | Some n \<Rightarrow> utf8_valid (drop n bs))"
  by pat_completeness auto
termination
  by (relation "measure length") (auto dest: utf8_width_pos utf8_width_le)

declare utf8_valid.simps [simp del]

lemma utf8_valid_Nil [simp]: "utf8_valid []"
  by (simp add: utf8_valid.simps)

lemma utf8_valid_ascii [simp]: "b < 0x80 \<Longrightarrow> utf8_valid (b # bs) = utf8_valid bs"
  by (subst utf8_valid.simps) (simp add: utf8_width_def)

text \<open>A Rust \<open>String\<close> always holds valid UTF-8.\<close>

definition str_ok :: "string \<Rightarrow> bool" where
  "str_ok s \<longleftrightarrow> utf8_valid (as_bytes s)"

lemma str_ok_Nil [simp]: "str_ok []"
  by (simp add: str_ok_def as_bytes_def)

definition from_utf8 :: "bytes \<Rightarrow> (io_error, string) res" where
  "from_utf8 bs = (if utf8_valid bs then Inr (of_bytes bs) else Inl (Err InvalidData))"

lemma from_utf8_as_bytes [simp]: "str_ok s \<Longrightarrow> from_utf8 (as_bytes s) = Inr s"
  by (simp add: from_utf8_def str_ok_def)

lemma from_utf8_str_ok: "from_utf8 bs = Inr s \<Longrightarrow> str_ok s \<and> as_bytes s = bs"
  by (auto simp: from_utf8_def str_ok_def split: if_splits)

end
