(* ===== verification/Gf.thy ===== *)
theory Gf
  imports Prelude
begin

text \<open>
  \<open>holofs-core/src/gf.rs\<close>: arithmetic of GF(256) through log / exp tables.

  \<open>gf_new\<close> builds the two tables with the loops of \<open>Gf::new\<close>; \<open>gf_mul\<close> and \<open>gf_inv\<close> are the
  table lookups. The interface the network-coding components rely on is the locale \<open>byte_field\<close>:
  a multiplication on bytes that makes \<open>(u8, XOR, mul)\<close> a field. It is interpreted on the tables;
  the proof goes through the doubling map \<open>xt\<close> (multiplication by the generator 2), which is linear,
  and the fact that its 255 iterates from 1 are exactly the non-zero bytes.
\<close>

section \<open>Tables and operations\<close>

record gf =
  exp_t :: "u8 list"
  log_t :: "u8 list"

text \<open>One turn of the first loop: \<open>x\<close> is the \<open>u16\<close> accumulator.\<close>

definition gf_step :: "nat \<Rightarrow> u8 list \<times> u8 list \<times> u16 \<Rightarrow> u8 list \<times> u8 list \<times> u16" where
  "gf_step i s = (case s of (e, l, x) \<Rightarrow>
     (let e = e[i := ucast x];
          l = l[unat x := word_of_nat i];
          x = push_bit 1 x;
          x = (if x AND 0x100 \<noteq> 0 then x XOR 0x11d else x)
      in (e, l, x)))"

definition gf_new :: gf where
  "gf_new =
     (let (e, l, _) = fold gf_step [0..<255] (replicate 512 0, replicate 256 0, 1);
          e = fold (\<lambda>i e. e[i := e ! (i - 255)]) [255..<512] e
      in \<lparr>exp_t = e, log_t = l\<rparr>)"

definition gf_mul :: "gf \<Rightarrow> u8 \<Rightarrow> u8 \<Rightarrow> u8" where
  "gf_mul g a b = (if a = 0 \<or> b = 0 then 0
     else exp_t g ! (unat (log_t g ! unat a) + unat (log_t g ! unat b)))"

definition gf_inv :: "gf \<Rightarrow> u8 \<Rightarrow> u8" where
  "gf_inv g a = exp_t g ! (255 - unat (log_t g ! unat a))"

section \<open>The byte-field interface\<close>

locale byte_field =
  fixes mul :: "u8 \<Rightarrow> u8 \<Rightarrow> u8" and inv :: "u8 \<Rightarrow> u8"
  assumes mul_comm: "mul a b = mul b a"
    and mul_assoc: "mul (mul a b) c = mul a (mul b c)"
    and mul_xor: "mul a (b XOR c) = mul a b XOR mul a c"
    and mul_one: "mul 1 a = a"
    and mul_inv: "a \<noteq> 0 \<Longrightarrow> mul a (inv a) = 1"
begin

lemma mul_zero [simp]: "mul a 0 = 0" "mul 0 a = 0"
proof -
  show "mul a 0 = 0" using mul_xor[of a 0 0] by simp
  then show "mul 0 a = 0" by (simp add: mul_comm)
qed

lemma mul_one_right [simp]: "mul a 1 = a"
  by (simp add: mul_comm[of a] mul_one)

lemma xor_mul: "mul (a XOR b) c = mul a c XOR mul b c"
  by (simp add: mul_comm[of _ c] mul_xor)

lemma mul_eq_0: "mul a b = 0 \<longleftrightarrow> a = 0 \<or> b = 0"
proof
  assume "mul a b = 0"
  show "a = 0 \<or> b = 0"
  proof (rule disjCI)
    assume "b \<noteq> 0"
    have "a = mul a (mul b (inv b))" using mul_inv[OF \<open>b \<noteq> 0\<close>] by simp
    also have "\<dots> = mul (mul a b) (inv b)" by (simp add: mul_assoc)
    also have "\<dots> = 0" using \<open>mul a b = 0\<close> by simp
    finally show "a = 0" .
  qed
qed auto

lemma mul_left_cancel: "a \<noteq> 0 \<Longrightarrow> mul a b = mul a c \<longleftrightarrow> b = c"
proof
  assume "a \<noteq> 0" "mul a b = mul a c"
  then have "mul (inv a) (mul a b) = mul (inv a) (mul a c)" by simp
  then show "b = c"
    using mul_inv[OF \<open>a \<noteq> 0\<close>] by (simp add: mul_assoc[symmetric] mul_comm[of "inv a" a] mul_one)
qed simp

lemma inv_nonzero: "a \<noteq> 0 \<Longrightarrow> inv a \<noteq> 0"
  using mul_inv by force

lemma inv_inv: "a \<noteq> 0 \<Longrightarrow> inv (inv a) = a"
  using mul_left_cancel[of "inv a" "inv (inv a)" a] mul_inv[of a] mul_inv[of "inv a"] inv_nonzero[of a]
  by (simp add: mul_comm)

end

section \<open>The tables hold the powers of the generator\<close>

text \<open>Multiplication by 2 on bytes, and its iterates.\<close>

definition xt :: "u8 \<Rightarrow> u8" where
  "xt b = push_bit 1 b XOR (if bit b 7 then 0x1d else 0)"

lemma xt_xor: "xt (a XOR b) = xt a XOR xt b"
  by (auto simp: xt_def push_bit_xor bit_xor_iff ac_simps)

lemma xt_pow_xor: "(xt ^^ n) (a XOR b) = (xt ^^ n) a XOR (xt ^^ n) b"
  by (induction n) (auto simp: xt_xor)

lemma xt_zero [simp]: "xt 0 = 0"
  by (simp add: xt_def)

lemma xt_pow_zero [simp]: "(xt ^^ n) 0 = 0"
  by (induction n) auto

fun xt_powers :: "nat \<Rightarrow> u8 \<Rightarrow> u8 list" where
  "xt_powers 0 b = []"
| "xt_powers (Suc n) b = b # xt_powers n (xt b)"

lemma length_xt_powers [simp]: "length (xt_powers n b) = n"
  by (induction n arbitrary: b) auto

lemma xt_powers_nth: "i < n \<Longrightarrow> xt_powers n b ! i = (xt ^^ i) b"
proof (induction n arbitrary: b i)
  case 0
  then show ?case by simp
next
  case (Suc n)
  then show ?case by (cases i) (auto simp: funpow_swap1)
qed



lemma xt_powers_numeral: "xt_powers (numeral k) b = b # xt_powers (pred_numeral k) (xt b)"
  by (simp add: numeral_eq_Suc)

lemma xt_order: "(xt ^^ 255) 1 = 1"
proof -
  have "xt_powers 256 1 ! 255 = 1" by (simp add: xt_powers_numeral xt_def)
  then show ?thesis by (simp add: xt_powers_nth)
qed

lemma xt_not_one:
  assumes "0 < i" and "i < 255" shows "(xt ^^ i) 1 \<noteq> 1"
proof
  assume "(xt ^^ i) 1 = 1"
  moreover have "(xt ^^ i) 1 = xt_powers 254 (xt 1) ! (i - 1)"
    using assms by (cases i) (simp_all add: xt_powers_nth funpow_swap1)
  ultimately have "1 \<in> set (xt_powers 254 (xt 1))"
    using assms nth_mem[of "i - 1" "xt_powers 254 (xt 1)"] by simp
  then show False by (simp add: xt_powers_numeral xt_def)
qed

lemma xor_eq_0_word: "a XOR b = 0 \<longleftrightarrow> (a :: 'l::len word) = b"
  by (auto simp: bit_eq_iff bit_xor_iff)

lemma bit_times2: "bit (w * 2 :: 'l::len word) n \<longleftrightarrow> 0 < n \<and> n < LENGTH('l) \<and> bit w (n - 1)"
  using bit_double_iff[of w n] by (auto simp: mult.commute)

lemma u8_bit: "\<not> bit (b :: u8) 7 \<Longrightarrow> bit b n \<Longrightarrow> n < 7"
proof -
  assume "\<not> bit b 7" and n: "bit b n"
  then have "n \<noteq> 7" by auto
  with bit_imp_le_length[OF n] show ?thesis by simp
qed

lemma xt_eq_0: "xt b = 0 \<longleftrightarrow> b = 0"
proof
  assume z: "xt b = 0"
  then have "bit (xt b) 0 = False" by simp
  then have b7: "\<not> bit b 7" by (auto simp: xt_def bit_0 even_xor_iff split: if_splits)
  have "bit b n = False" for n
  proof -
    have "bit (xt b) (Suc n) = False" using z by simp
    with b7 show ?thesis
      by (cases "n < 7") (auto simp: xt_def bit_times2 dest: u8_bit)
  qed
  then show "b = 0" by (intro bit_eqI) simp
qed simp

lemma xt_inject: "xt a = xt b \<longleftrightarrow> a = b"
  using xt_eq_0[of "a XOR b"] by (simp add: xt_xor xor_eq_0_word)

lemma xt_pow_inject: "(xt ^^ n) a = (xt ^^ n) b \<longleftrightarrow> a = b"
  by (induction n) (auto simp: xt_inject)

lemma xt_pow_eq_0: "(xt ^^ n) a = 0 \<longleftrightarrow> a = 0"
  by (induction n) (auto simp: xt_eq_0)

lemma xt_powers_inj: "inj_on (\<lambda>i. (xt ^^ i) 1) {..<255}"
proof (rule linorder_inj_onI')
  fix i j :: nat
  assume ij: "i \<in> {..<255}" "j \<in> {..<255}" "i < j"
  show "(xt ^^ i) 1 \<noteq> (xt ^^ j) 1"
  proof
    assume "(xt ^^ i) 1 = (xt ^^ j) 1"
    also have "(xt ^^ j) 1 = (xt ^^ i) ((xt ^^ (j - i)) 1)"
      using ij by (simp flip: funpow_add comp_apply[of "xt ^^ i"])
    finally have "(xt ^^ (j - i)) 1 = 1" by (simp add: xt_pow_inject)
    moreover have "0 < j - i" "j - i < 255" using ij by auto
    ultimately show False using xt_not_one by blast
  qed
qed

lemma xt_powers_surj: "b \<noteq> 0 \<Longrightarrow> \<exists>i<255. b = (xt ^^ i) 1"
proof -
  let ?f = "\<lambda>i. (xt ^^ i) 1"
  have sub: "?f ` {..<255} \<subseteq> UNIV - {0}" by (auto simp: xt_pow_eq_0)
  have "card (?f ` {..<255}) = 255" by (simp add: card_image[OF xt_powers_inj])
  moreover have "card (UNIV - {0 :: u8}) = 255" by (simp add: card_Diff_subset card_word)
  ultimately have "?f ` {..<255} = UNIV - {0}"
    using sub by (intro card_subset_eq) auto
  moreover assume "b \<noteq> 0"
  ultimately have "b \<in> ?f ` {..<255}" by simp
  then show ?thesis by auto
qed

lemma xt_wide:
  "(let x = push_bit 1 (ucast b :: u16) in if x AND 0x100 \<noteq> 0 then x XOR 0x11d else x) = ucast (xt b)"
proof -
  have m: "push_bit 1 (ucast b :: u16) AND 0x100 = (if bit b 7 then 0x100 else 0)"
  proof (rule bit_eqI)
    fix n
    have "bit (0x100 :: u16) n \<longleftrightarrow> n = 8"
      using bit_exp_iff[where 'a = u16, of 8 n] by auto
    then show "bit (push_bit 1 (ucast b :: u16) AND 0x100) n = bit (if bit b 7 then 0x100 else (0 :: u16)) n"
      by (auto simp: bit_and_iff bit_times2 bit_ucast_iff)
  qed
  show ?thesis
  proof (cases "bit b 7")
    case False
    then have "push_bit 1 (ucast b :: u16) = ucast (push_bit 1 b)"
      by (intro bit_eqI) (auto simp: bit_times2 bit_ucast_iff dest: u8_bit)
    with False m show ?thesis by (simp add: Let_def xt_def)
  next
    case True
    have "push_bit 1 (ucast b :: u16) = ucast (push_bit 1 b) XOR 0x100"
    proof (rule bit_eqI)
      fix n
      have "bit (0x100 :: u16) n \<longleftrightarrow> n = 8"
        using bit_exp_iff[where 'a = u16, of 8 n] by auto
      then show "bit (push_bit 1 (ucast b :: u16)) n = bit (ucast (push_bit 1 b) XOR (0x100 :: u16)) n"
        using True by (auto simp: bit_xor_iff bit_times2 bit_ucast_iff dest: bit_imp_le_length)
    qed
    moreover have "ucast (push_bit 1 b XOR 0x1d) = (ucast (push_bit 1 b) XOR ucast (0x1d :: u8) :: u16)"
      by (rule unsigned_xor_eq)
    ultimately show ?thesis using True m
      by (simp add: Let_def xt_def xor.assoc)
  qed
qed

lemma byte_widen [simp]:
  "ucast (ucast (b :: u8) :: u16) = b" "unat (ucast b :: u16) = unat b"
proof -
  show "ucast (ucast b :: u16) = b"
    by (rule bit_eqI) (auto simp: bit_ucast_iff dest: bit_imp_le_length)
  show "unat (ucast b :: u16) = unat b"
    by (simp add: unsigned_ucast_eq take_bit_nat_eq_self_iff less_trans[OF unat_byte_less])
qed

definition gf_loop_inv :: "nat \<Rightarrow> u8 list \<times> u8 list \<times> u16 \<Rightarrow> bool" where
  "gf_loop_inv n s = (case s of (e, l, x) \<Rightarrow> length e = 512 \<and> length l = 256 \<and>
     (\<forall>i<n. e ! i = (xt ^^ i) 1) \<and> (\<forall>i<n. l ! unat ((xt ^^ i) 1) = word_of_nat i) \<and>
     x = ucast ((xt ^^ n) 1))"

lemma gf_step_inv:
  assumes "gf_loop_inv n s" and "n < 255"
  shows "gf_loop_inv (Suc n) (gf_step n s)"
proof -
  obtain e l x where s: "s = (e, l, x)" by (cases s) auto
  have x: "x = ucast ((xt ^^ n) 1)" and len: "length e = 512" "length l = 256"
    using assms(1) by (auto simp: gf_loop_inv_def s)
  have neq: "unat ((xt ^^ i) 1) \<noteq> unat ((xt ^^ n) 1)" if "i < n" for i
    using inj_onD[OF xt_powers_inj, of i n] that assms(2) by (auto simp: word_unat_eq_iff)
  have "\<forall>i<n. l[unat ((xt ^^ n) 1) := word_of_nat n] ! unat ((xt ^^ i) 1) = word_of_nat i"
    using assms(1) neq by (auto simp: gf_loop_inv_def s nth_list_update_neq neq[symmetric])
  moreover have "unat ((xt ^^ n) 1) < 256" by (rule unat_byte_less)
  ultimately show ?thesis
    using assms xt_wide[of "(xt ^^ n) 1"] len
    by (auto simp: gf_loop_inv_def gf_step_def s x Let_def less_Suc_eq nth_list_update)
qed

lemma gf_loop: "n \<le> 255 \<Longrightarrow> gf_loop_inv n (fold gf_step [0..<n] (replicate 512 0, replicate 256 0, 1))"
proof (induction n)
  case 0
  then show ?case by (simp add: gf_loop_inv_def)
next
  case (Suc n)
  then show ?case by (simp add: gf_step_inv)
qed

lemma double_loop:
  assumes "length e = 512" and "\<forall>i<255. e ! i = f i" and "\<And>i. f (i + 255) = f i"
    and "255 \<le> n" and "n \<le> 512"
  shows "length (fold (\<lambda>i e. e[i := e ! (i - 255)]) [255..<n] e) = 512 \<and>
    (\<forall>i<n. fold (\<lambda>i e. e[i := e ! (i - 255)]) [255..<n] e ! i = f i)"
  using assms(4,5)
proof (induction n rule: dec_induct)
  case base
  with assms show ?case by simp
next
  case (step n)
  have "f (n - 255) = f n" using assms(3)[of "n - 255"] step.hyps by simp
  with step show ?case by (auto simp: less_Suc_eq nth_list_update)
qed

lemma gf_tables:
  shows exp_nth: "n < 512 \<Longrightarrow> exp_t gf_new ! n = (xt ^^ n) 1"
    and log_nth: "i < 255 \<Longrightarrow> log_t gf_new ! unat ((xt ^^ i) 1) = word_of_nat i"
    and length_exp: "length (exp_t gf_new) = 512"
    and length_log: "length (log_t gf_new) = 256"
proof -
  obtain e l x where s: "fold gf_step [0..<255] (replicate 512 0, replicate 256 0, 1) = (e, l, x)"
    by (metis prod_cases3)
  have inv: "gf_loop_inv 255 (e, l, x)" using gf_loop[of 255] s by simp
  have per: "(xt ^^ (i + 255)) 1 = (xt ^^ i) 1" for i
    by (simp only: funpow_add comp_apply xt_order)
  have d: "length (fold (\<lambda>i e. e[i := e ! (i - 255)]) [255..<512] e) = 512 \<and>
    (\<forall>i<512. fold (\<lambda>i e. e[i := e ! (i - 255)]) [255..<512] e ! i = (xt ^^ i) 1)"
    using inv per by (intro double_loop) (auto simp: gf_loop_inv_def)
  have g: "gf_new = \<lparr>exp_t = fold (\<lambda>i e. e[i := e ! (i - 255)]) [255..<512] e, log_t = l\<rparr>"
    by (simp only: gf_new_def s case_prod_conv Let_def)
  show "n < 512 \<Longrightarrow> exp_t gf_new ! n = (xt ^^ n) 1" "length (exp_t gf_new) = 512"
    using d by (simp_all only: g gf.simps)
  show "i < 255 \<Longrightarrow> log_t gf_new ! unat ((xt ^^ i) 1) = word_of_nat i" "length (log_t gf_new) = 256"
    using inv by (simp_all only: g gf.simps gf_loop_inv_def case_prod_conv)
qed

lemma log_power: "i < 255 \<Longrightarrow> unat (log_t gf_new ! unat ((xt ^^ i) 1)) = i"
  by (simp add: log_nth unat_of_nat take_bit_eq_mod)

section \<open>The tables are a field\<close>

lemma gf_mul_power:
  assumes "i < 255"
  shows "gf_mul gf_new ((xt ^^ i) 1) b = (xt ^^ i) b"
proof (cases "b = 0")
  case True
  then show ?thesis by (simp add: gf_mul_def)
next
  case False
  then obtain j where j: "j < 255" "b = (xt ^^ j) 1" using xt_powers_surj by blast
  with assms have "gf_mul gf_new ((xt ^^ i) 1) b = (xt ^^ (i + j)) 1"
    by (simp add: gf_mul_def log_power exp_nth xt_pow_eq_0)
  with j show ?thesis by (simp add: funpow_add)
qed

lemma gf_inv_power:
  assumes "i < 255"
  shows "gf_inv gf_new ((xt ^^ i) 1) = (xt ^^ (255 - i)) 1"
  using assms by (simp add: gf_inv_def log_power exp_nth)

interpretation gf: byte_field "gf_mul gf_new" "gf_inv gf_new"
proof unfold_locales
  fix a b c :: u8
  show comm: "gf_mul gf_new a b = gf_mul gf_new b a" for a b
    by (auto simp: gf_mul_def add.commute)
  show "gf_mul gf_new (gf_mul gf_new a b) c = gf_mul gf_new a (gf_mul gf_new b c)"
  proof (cases "a = 0 \<or> c = 0")
    case True
    then show ?thesis by (auto simp: gf_mul_def)
  next
    case False
    then obtain i j where i: "i < 255" "a = (xt ^^ i) 1" and j: "j < 255" "c = (xt ^^ j) 1"
      using xt_powers_surj by blast
    have "gf_mul gf_new (gf_mul gf_new a b) c = (xt ^^ j) ((xt ^^ i) b)"
      using i j by (simp only: comm[of _ "(xt ^^ j) 1"] gf_mul_power)
    also have "\<dots> = (xt ^^ i) ((xt ^^ j) b)"
      by (metis funpow_add comp_apply add.commute)
    also have "(xt ^^ j) b = gf_mul gf_new b c"
      using j by (simp only: comm[of b] gf_mul_power)
    finally show ?thesis using i by (simp only: gf_mul_power)
  qed
  show "gf_mul gf_new a (b XOR c) = gf_mul gf_new a b XOR gf_mul gf_new a c"
  proof (cases "a = 0")
    case True
    then show ?thesis by (simp add: gf_mul_def)
  next
    case False
    then obtain i where i: "i < 255" "a = (xt ^^ i) 1" using xt_powers_surj by blast
    then show ?thesis by (simp add: gf_mul_power xt_pow_xor)
  qed
  show "gf_mul gf_new 1 a = a" using gf_mul_power[of 0] by simp
  show "gf_mul gf_new a (gf_inv gf_new a) = 1" if nz: "a \<noteq> 0"
  proof -
    obtain i where i: "i < 255" "a = (xt ^^ i) 1" using xt_powers_surj[OF nz] by blast
    then have "gf_mul gf_new a (gf_inv gf_new a) = (xt ^^ (i + (255 - i))) 1"
      by (simp only: gf_inv_power gf_mul_power funpow_add comp_apply)
    with i xt_order show ?thesis by simp
  qed
qed

section \<open>Properties\<close>

text \<open>C4: the tables built by \<open>Gf::new\<close> make \<open>mul\<close> and \<open>inv\<close>, with XOR as addition, the operations of
  a field on all 256 bytes: commutative and associative multiplication, distributive over XOR, with
  unit 1, absorbing 0, and \<open>inv\<close> a two-sided inverse of every non-zero byte.\<close>

theorem gf_mul_field:
  "gf_mul gf_new a b = gf_mul gf_new b a \<and>
   gf_mul gf_new (gf_mul gf_new a b) c = gf_mul gf_new a (gf_mul gf_new b c) \<and>
   gf_mul gf_new a (b XOR c) = gf_mul gf_new a b XOR gf_mul gf_new a c \<and>
   gf_mul gf_new 1 a = a \<and>
   (gf_mul gf_new a b = 0) = (a = 0 \<or> b = 0) \<and>
   (if a = 0 then True else gf_mul gf_new a (gf_inv gf_new a) = 1 \<and> gf_inv gf_new (gf_inv gf_new a) = a)"
proof (intro conjI)
  show "gf_mul gf_new a b = gf_mul gf_new b a" by (rule gf.mul_comm)
qed (simp_all add: gf.mul_assoc gf.mul_xor gf.mul_one gf.mul_eq_0 gf.mul_inv gf.inv_inv)

text \<open>The textbook product: shift-and-add multiplication of polynomials over GF(2), reduced by
  \<open>x^8 + x^4 + x^3 + x^2 + 1\<close> (0x11d) at every doubling.\<close>

definition poly_mul :: "u8 \<Rightarrow> u8 \<Rightarrow> u8" where
  "poly_mul a b = foldr (\<lambda>i acc. (if bit a i then (xt ^^ i) b else 0) XOR acc) [0..<8] 0"

lemma upt_8: "[0..<8] = [0, 1, 2, 3, 4, 5, 6, 7 :: nat]"
  by (simp add: upt_rec)

lemma less_8: "(n :: nat) < 8 \<longleftrightarrow> n \<in> {0, 1, 2, 3, 4, 5, 6, 7}"
  by auto

lemma xt_pow_small: "xt_powers 8 1 = [1, 2, 4, 8, 16, 32, 64, 128]"
  by (simp add: xt_powers_numeral xt_def)

lemma xt_pow_bit: "i < 8 \<Longrightarrow> bit ((xt ^^ i) 1) n = (n = i)"
proof -
  assume "i < 8"
  then have "(xt ^^ i) 1 = [1, 2, 4, 8, 16, 32, 64, 128] ! i"
    using xt_powers_nth[of i 8 1] xt_pow_small by simp
  also have "\<dots> = 2 ^ i" using \<open>i < 8\<close> by (auto simp: less_8)
  finally show ?thesis using \<open>i < 8\<close> by (auto simp: bit_exp_iff)
qed

lemma bit_xor_sum:
  "bit (foldr (\<lambda>i acc. (if bit a i then (xt ^^ i) 1 else 0) XOR acc) xs 0) n
     \<longleftrightarrow> n \<in> set xs \<and> bit a n" if "distinct xs" "set xs \<subseteq> {..<8}"
  using that by (induction xs) (auto simp: bit_xor_iff xt_pow_bit)

lemma byte_bits:
  "a = foldr (\<lambda>i acc. (if bit a i then (xt ^^ i) 1 else 0) XOR acc) [0..<8] 0"
proof (rule bit_eqI)
  fix n
  show "bit a n = bit (foldr (\<lambda>i acc. (if bit a i then (xt ^^ i) 1 else 0) XOR acc) [0..<8] 0) n"
    by (subst bit_xor_sum) (auto dest: bit_imp_le_length)
qed

text \<open>multiplication through the log / exp tables is multiplication of polynomials modulo 0x11d.\<close>

theorem gf_mul_poly: "gf_mul gf_new a b = poly_mul a b"
proof -
  have p: "gf_mul gf_new ((xt ^^ i) 1) b = (xt ^^ i) b" if "i \<in> set [0..<8]" for i
    using that by (intro gf_mul_power) auto
  have "gf_mul gf_new (foldr (\<lambda>i acc. (if bit a i then (xt ^^ i) 1 else 0) XOR acc) xs 0) b =
        foldr (\<lambda>i acc. (if bit a i then (xt ^^ i) b else 0) XOR acc) xs 0"
    if "set xs \<subseteq> set [0..<8]" for xs
    using that by (induction xs) (auto simp: gf.xor_mul p)
  from this[of "[0..<8]"] show ?thesis using byte_bits[of a] by (simp add: poly_mul_def)
qed

end
