(* ===== verification/Rng.thy ===== *)
theory Rng
  imports Prelude
begin

text \<open>
  \<open>holofs-core/src/rng.rs\<close>: the xorshift64 generator. The struct \<open>Rng(u64)\<close> is its state word;
  \<open>rng_next\<close> and \<open>rng_byte\<close> return the drawn value and the new state. The lemmas show that a step
  is injective, so the \<open>seed | 1\<close> of \<open>Rng::new\<close> keeps the generator away from the dead state 0.
\<close>

definition rng_new :: "u64 \<Rightarrow> u64" where
  "rng_new seed = seed OR 1"

definition rng_next :: "u64 \<Rightarrow> u64 \<times> u64" where
  "rng_next s =
     (let x = s;
          x = x XOR push_bit 13 x;
          x = x XOR drop_bit 7 x;
          x = x XOR push_bit 17 x
      in (x, x))"

definition rng_byte :: "u64 \<Rightarrow> u8 \<times> u64" where
  "rng_byte s = (let (x, s') = rng_next s in (ucast (drop_bit 33 x), s'))"

text \<open>\<open>n\<close> successive bytes, as the loops \<open>for c in coeffs.iter_mut() { *c = rng.byte() }\<close> draw them.\<close>

fun rng_bytes :: "nat \<Rightarrow> u64 \<Rightarrow> u8 list \<times> u64" where
  "rng_bytes 0 s = ([], s)"
| "rng_bytes (Suc n) s = (let (b, s) = rng_byte s; (bs, s) = rng_bytes n s in (b # bs, s))"

fun rng_run :: "nat \<Rightarrow> u64 \<Rightarrow> u64" where
  "rng_run 0 s = s"
| "rng_run (Suc n) s = rng_run n (snd (rng_next s))"

lemma length_rng_bytes [simp]: "length (fst (rng_bytes n s)) = n"
proof (induction n arbitrary: s)
  case (Suc n)
  then show ?case by (metis (no_types, lifting) fst_conv length_Cons rng_bytes.simps(2) split_def)
qed simp

lemma xorshift_left_zero:
  assumes "0 < k" and "x XOR push_bit k x = 0" shows "(x :: u64) = 0"
proof (rule bit_eqI)
  fix n
  have "bit x n = (k \<le> n \<and> n < 64 \<and> bit x (n - k))" for n
  proof -
    have "bit (x XOR push_bit k x) n = False" by (simp only: assms(2) bit_0_eq) simp
    then show ?thesis by (auto simp: bit_xor_iff bit_push_bit_iff dest: bit_imp_le_length)
  qed
  then have "\<not> bit x n" using assms(1)
  proof (induction n rule: less_induct)
    case (less n)
    from less.prems(1)[of n] less.IH[of "n - k"] less.prems show ?case
      by (metis diff_less le_zero_eq less_le_trans not_gr_zero)
  qed
  then show "bit x n = bit 0 n" by simp
qed

lemma xorshift_right_zero:
  assumes "0 < k" and "x XOR drop_bit k x = 0" shows "(x :: u64) = 0"
proof (rule bit_eqI)
  fix n
  have *: "bit x n = bit x (n + k)" for n
  proof -
    have "bit (x XOR drop_bit k x) n = False" by (simp only: assms(2) bit_0_eq) simp
    then show ?thesis by (auto simp: bit_xor_iff bit_drop_bit_eq add.commute)
  qed
  have "\<not> bit x n" if "64 \<le> n + m" for m n
    using that
  proof (induction m arbitrary: n)
    case 0
    then show ?case by (auto dest: bit_imp_le_length)
  next
    case (Suc m)
    then show ?case using *[of n] Suc.IH[of "n + k"] assms(1) by simp
  qed
  from this[of n 64] show "bit x n = bit 0 n" by simp
qed

lemma rng_next_zero: "snd (rng_next s) = 0 \<Longrightarrow> s = 0"
  unfolding rng_next_def Let_def snd_conv
  by (drule xorshift_left_zero[rotated], simp)
    (drule xorshift_right_zero[rotated], simp, drule xorshift_left_zero[rotated], simp, assumption)

lemma rng_run_nonzero: "s \<noteq> 0 \<Longrightarrow> rng_run n s \<noteq> 0"
  by (induction n arbitrary: s) (auto dest: rng_next_zero)

text \<open>\<open>Rng::new\<close> rules out the dead state for good: whatever the seed (0 included), every state
  the generator ever reaches, and so every 64-bit value \<open>next\<close> ever returns, is non-zero.\<close>

theorem rng_never_dead: "rng_run n (rng_new seed) \<noteq> 0 \<and> fst (rng_next (rng_run n (rng_new seed))) \<noteq> 0"
proof -
  have "bit (rng_new seed) 0" by (simp add: rng_new_def bit_or_iff)
  then have "rng_new seed \<noteq> 0" by auto
  then have nz: "rng_run n (rng_new seed) \<noteq> 0" by (rule rng_run_nonzero)
  moreover have "fst (rng_next s) = snd (rng_next s)" for s by (simp add: rng_next_def Let_def)
  ultimately show ?thesis using rng_next_zero by metis
qed

end
