(* ===== verification/Rlnc.thy ===== *)
theory Rlnc
  imports Gf Rng
begin

text \<open>
  \<open>holofs-core/src/rlnc.rs\<close>, encoding half: shards, the identity test and the two encoders.

  A \<open>shard\<close> is a coefficient vector and a payload. \<open>consistent mul k sl chunks s\<close> is the abstract
  meaning of a shard: its payload is the linear combination of the \<open>k\<close> source chunks (each \<open>sl\<close> bytes
  long) that its coefficients describe. The encoders only ever produce consistent shards; the
  decoders (theory \<open>Decode\<close>) and repair (theory \<open>Repair\<close>) are specified against the same predicate.
\<close>

section \<open>Constants of \<open>holofs-core/src/lib.rs\<close>\<close>

definition K :: nat where "K = 16"
definition LEVELS :: nat where "LEVELS = 3"
definition NLAYERS :: nat where "NLAYERS = LEVELS + 1"

section \<open>Shards\<close>

record shard =
  coeffs :: "u8 list"
  payload :: "u8 list"

text \<open>The scan of \<open>identity_index\<close>: position, remaining coefficients, index of the 1 seen so far.\<close>

fun identity_from :: "nat \<Rightarrow> u8 list \<Rightarrow> nat option \<Rightarrow> nat option" where
  "identity_from i [] idx = idx"
| "identity_from i (c # cs) idx =
     (if c = 1 then (if idx \<noteq> None then None else identity_from (Suc i) cs (Some i))
      else if c \<noteq> 0 then None
      else identity_from (Suc i) cs idx)"

definition identity_index :: "u8 list \<Rightarrow> nat option" where
  "identity_index cs = identity_from 0 cs None"

section \<open>Encoding\<close>

text \<open>The \<open>i\<close>-th of the \<open>sl\<close>-byte chunks of the padded data.\<close>

definition chunk :: "bytes \<Rightarrow> nat \<Rightarrow> nat \<Rightarrow> bytes" where
  "chunk padded sl i = slice padded (i * sl) (Suc i * sl)"

definition symbol_len_of :: "nat \<Rightarrow> nat \<Rightarrow> nat" where
  "symbol_len_of k len = (len + k - 1) div k"

definition pad_to :: "nat \<Rightarrow> bytes \<Rightarrow> bytes" where
  "pad_to n data = take n data @ replicate (n - length data) 0"

definition unit_vec :: "nat \<Rightarrow> nat \<Rightarrow> u8 list" where
  "unit_vec k i = (replicate k 0)[i := 1]"

definition systematic :: "bytes \<Rightarrow> nat \<Rightarrow> nat \<Rightarrow> nat \<Rightarrow> shard" where
  "systematic padded k sl i = \<lparr>coeffs = unit_vec k i, payload = chunk padded sl i\<rparr>"

text \<open>The payload of a coded shard: \<open>payload[j] ^= gf.mul(ci, src[j])\<close> for every chunk whose
  coefficient is not 0.\<close>

definition axpy :: "(u8 \<Rightarrow> u8 \<Rightarrow> u8) \<Rightarrow> u8 \<Rightarrow> bytes \<Rightarrow> bytes \<Rightarrow> bytes" where
  "axpy mul c src acc = map2 (\<lambda>a b. a XOR mul c b) acc src"

definition rlnc_payload :: "gf \<Rightarrow> u8 list \<Rightarrow> bytes \<Rightarrow> nat \<Rightarrow> nat \<Rightarrow> bytes" where
  "rlnc_payload g cs padded k sl =
     fold (\<lambda>i p. if cs ! i = 0 then p else axpy (gf_mul g) (cs ! i) (chunk padded sl i) p)
       [0..<k] (replicate sl 0)"

text \<open>The guard against degenerate coefficient vectors (with the \<open>k > 1\<close> test of
  \<open>encode_layer_with_k\<close>).\<close>

definition guard_coeffs :: "nat \<Rightarrow> u8 list \<Rightarrow> u8 list" where
  "guard_coeffs k cs =
     (if length (filter (\<lambda>b. b \<noteq> 0) cs) < 2
      then (let cs = cs[0 := cs ! 0 XOR 0x80]
            in if k > 1 then cs[1 := cs ! 1 XOR 0x40] else cs)
      else cs)"

fun coded_shards :: "gf \<Rightarrow> bytes \<Rightarrow> nat \<Rightarrow> nat \<Rightarrow> nat \<Rightarrow> u64 \<Rightarrow> shard list \<times> u64" where
  "coded_shards g padded k sl 0 rng = ([], rng)"
| "coded_shards g padded k sl (Suc m) rng =
     (let (cs, rng) = rng_bytes k rng;
          cs = guard_coeffs k cs;
          s = \<lparr>coeffs = cs, payload = rlnc_payload g cs padded k sl\<rparr>;
          (ss, rng) = coded_shards g padded k sl m rng
      in (s # ss, rng))"

text \<open>\<open>k = 0\<close> makes the symbol length computation panic (division by zero).\<close>

definition encode_layer_with_k ::
  "gf \<Rightarrow> bytes \<Rightarrow> nat \<Rightarrow> nat \<Rightarrow> u64 \<Rightarrow> ('e, (nat \<times> shard list) \<times> u64) res" where
  "encode_layer_with_k g data k n rng =
     (if k = 0 then Inl Panic else
      let sl = symbol_len_of k (length data);
          padded = pad_to (k * sl) data;
          n_systematic = min n k;
          sys = map (systematic padded k sl) [0..<n_systematic];
          (coded, rng) = coded_shards g padded k sl (n - n_systematic) rng
      in Inr ((sl, sys @ coded), rng))"

text \<open>\<open>encode_layer\<close> is the same loop at the constant \<open>K = 16\<close>, where the guard always flips two
  coefficients.\<close>

definition guard_coeffs_K :: "u8 list \<Rightarrow> u8 list" where
  "guard_coeffs_K cs =
     (if length (filter (\<lambda>b. b \<noteq> 0) cs) < 2
      then (let cs = cs[0 := cs ! 0 XOR 0x80] in cs[1 := cs ! 1 XOR 0x40])
      else cs)"

fun coded_shards_K :: "gf \<Rightarrow> bytes \<Rightarrow> nat \<Rightarrow> nat \<Rightarrow> u64 \<Rightarrow> shard list \<times> u64" where
  "coded_shards_K g padded sl 0 rng = ([], rng)"
| "coded_shards_K g padded sl (Suc m) rng =
     (let (cs, rng) = rng_bytes K rng;
          cs = guard_coeffs_K cs;
          s = \<lparr>coeffs = cs, payload = rlnc_payload g cs padded K sl\<rparr>;
          (ss, rng) = coded_shards_K g padded sl m rng
      in (s # ss, rng))"

definition encode_layer :: "gf \<Rightarrow> bytes \<Rightarrow> nat \<Rightarrow> u64 \<Rightarrow> (nat \<times> shard list) \<times> u64" where
  "encode_layer g data n rng =
     (let sl = symbol_len_of K (length data);
          padded = pad_to (K * sl) data;
          n_systematic = min n K;
          sys = map (systematic padded K sl) [0..<n_systematic];
          (coded, rng) = coded_shards_K g padded sl (n - n_systematic) rng
      in ((sl, sys @ coded), rng))"

section \<open>The identity test\<close>

lemma identity_from_Some:
  "identity_from i cs (Some m) = Some n \<longleftrightarrow> n = m \<and> (\<forall>c \<in> set cs. c = 0)"
  by (induction cs arbitrary: i) auto

lemma identity_from_None:
  "identity_from i cs None = Some n \<longleftrightarrow>
     (\<exists>pre post. cs = pre @ 1 # post \<and> (\<forall>c \<in> set pre. c = 0) \<and> (\<forall>c \<in> set post. c = 0) \<and> n = i + length pre)"
    (is "_ \<longleftrightarrow> ?R i cs")
proof (induction cs arbitrary: i)
  case Nil
  then show ?case by simp
next
  case (Cons c cs)
  consider "c = 1" | "c = 0" | "c \<noteq> 0" "c \<noteq> 1" by blast
  then show ?case
  proof cases
    case 1
    then show ?thesis by (auto simp: identity_from_Some Cons_eq_append_conv)
  next
    case 2
    have "?R i (c # cs) \<longleftrightarrow> ?R (Suc i) cs"
    proof
      assume "?R (Suc i) cs"
      then obtain pre post where p: "cs = pre @ 1 # post" "\<forall>c \<in> set pre. c = 0"
        "\<forall>c \<in> set post. c = 0" "n = Suc i + length pre" by blast
      with 2 show "?R i (c # cs)"
        by (intro exI[of _ "0 # pre"] exI[of _ post]) auto
    next
      assume "?R i (c # cs)"
      with 2 show "?R (Suc i) cs" by (fastforce simp: Cons_eq_append_conv)
    qed
    with 2 Cons[of "Suc i"] show ?thesis by simp
  next
    case 3
    then show ?thesis by (auto simp: Cons_eq_append_conv)
  qed
qed

lemma zeros_replicate: "(\<forall>c \<in> set cs. c = 0) \<longleftrightarrow> cs = replicate (length cs) 0"
  by (metis in_set_replicate replicate_length_same)

lemma unit_vec_split: "i < k \<Longrightarrow> unit_vec k i = replicate i 0 @ 1 # replicate (k - Suc i) 0"
  by (simp add: unit_vec_def upd_conv_take_nth_drop)

lemma length_unit_vec [simp]: "length (unit_vec k i) = k"
  by (simp add: unit_vec_def)

lemma nth_unit_vec: "j < k \<Longrightarrow> unit_vec k i ! j = (if j = i then 1 else 0)"
  by (simp add: unit_vec_def nth_list_update)

lemma identity_index_Some:
  "identity_index cs = Some i \<longleftrightarrow> i < length cs \<and> cs = unit_vec (length cs) i"
proof
  assume "identity_index cs = Some i"
  then obtain pre post where c: "cs = pre @ 1 # post" "pre = replicate (length pre) 0"
      "post = replicate (length post) 0" "i = length pre"
    unfolding identity_index_def identity_from_None zeros_replicate by auto
  then show "i < length cs \<and> cs = unit_vec (length cs) i"
    by (simp add: unit_vec_split)
next
  assume "i < length cs \<and> cs = unit_vec (length cs) i"
  then have "i < length cs" and "cs = replicate i 0 @ 1 # replicate (length cs - Suc i) 0"
    using unit_vec_split[of i "length cs"] by auto
  then show "identity_index cs = Some i"
    unfolding identity_index_def identity_from_None
    by (intro exI[of _ "replicate i 0"] exI[of _ "replicate (length cs - Suc i) 0"]) auto
qed

lemma identity_index_unit [simp]: "i < k \<Longrightarrow> identity_index (unit_vec k i) = Some i"
  by (simp add: identity_index_Some)

lemma identity_index_two:
  assumes "length (filter (\<lambda>b. b \<noteq> 0) cs) \<noteq> 1" shows "identity_index cs = None"
proof (rule ccontr)
  assume "identity_index cs \<noteq> None"
  then obtain i where "i < length cs" "cs = replicate i 0 @ 1 # replicate (length cs - Suc i) 0"
    by (auto simp: identity_index_Some unit_vec_split)
  then have "filter (\<lambda>b. b \<noteq> 0) cs = [1]"
    by (metis (mono_tags, lifting) append_Nil filter.simps filter_append filter_replicate one_neq_zero)
  with assms show False by simp
qed

section \<open>Linear combinations of bytes\<close>

text \<open>XOR-sums over a list of indices, the inner product of the field \<open>(u8, XOR, mul)\<close>.\<close>

definition xsum :: "('i \<Rightarrow> u8) \<Rightarrow> 'i list \<Rightarrow> u8" where
  "xsum f xs = foldr (\<lambda>i acc. f i XOR acc) xs 0"

lemma xsum_Nil [simp]: "xsum f [] = 0"
  by (simp add: xsum_def)

lemma xsum_Cons [simp]: "xsum f (x # xs) = f x XOR xsum f xs"
  by (simp add: xsum_def)

lemma xsum_append [simp]: "xsum f (xs @ ys) = xsum f xs XOR xsum f ys"
  by (induction xs) (auto simp: xor.assoc)

lemma xsum_cong: "(\<And>x. x \<in> set xs \<Longrightarrow> f x = g x) \<Longrightarrow> xsum f xs = xsum g xs"
  by (induction xs) auto

lemma xsum_0 [simp]: "xsum (\<lambda>_. 0) xs = 0"
  by (induction xs) auto

lemma xsum_xor: "xsum (\<lambda>i. f i XOR g i) xs = xsum f xs XOR xsum g xs"
  by (induction xs) (auto simp: xor.assoc xor.left_commute)

lemma xsum_map: "xsum f (map h xs) = xsum (\<lambda>x. f (h x)) xs"
  by (induction xs) auto

lemma xsum_partition: "xsum f xs = xsum f (filter P xs) XOR xsum f (filter (\<lambda>x. \<not> P x) xs)"
  by (induction xs) (auto simp: xor.assoc xor.left_commute)

lemma xsum_single: "distinct xs \<Longrightarrow> xsum (\<lambda>i. if i = m then a else 0) xs = (if m \<in> set xs then a else 0)"
  by (induction xs) auto

context byte_field begin

lemma mul_xsum: "mul a (xsum f xs) = xsum (\<lambda>i. mul a (f i)) xs"
  by (induction xs) (auto simp: mul_xor)

lemma xsum_unit:
  assumes "m < n" and "\<And>i. i < n \<Longrightarrow> c i = (if i = m then 1 else 0)"
  shows "xsum (\<lambda>i. mul (c i) (x i)) [0..<n] = x m"
proof -
  have "xsum (\<lambda>i. mul (c i) (x i)) [0..<n] = xsum (\<lambda>i. if i = m then x m else 0) [0..<n]"
    using assms(2) by (intro xsum_cong) (auto simp: mul_one)
  with assms(1) show ?thesis by (simp add: xsum_single)
qed

end

section \<open>What a shard means\<close>

definition combination :: "(u8 \<Rightarrow> u8 \<Rightarrow> u8) \<Rightarrow> u8 list \<Rightarrow> bytes list \<Rightarrow> nat \<Rightarrow> u8" where
  "combination mul cs chunks j = xsum (\<lambda>i. mul (cs ! i) (chunks ! i ! j)) [0..<length chunks]"

definition consistent :: "(u8 \<Rightarrow> u8 \<Rightarrow> u8) \<Rightarrow> nat \<Rightarrow> bytes list \<Rightarrow> shard \<Rightarrow> bool" where
  "consistent mul sl chunks s \<longleftrightarrow>
     length (coeffs s) = length chunks \<and> length (payload s) = sl \<and>
     (\<forall>j < sl. payload s ! j = combination mul (coeffs s) chunks j)"

definition source_ok :: "nat \<Rightarrow> nat \<Rightarrow> bytes list \<Rightarrow> bool" where
  "source_ok k sl chunks \<longleftrightarrow> length chunks = k \<and> (\<forall>c \<in> set chunks. length c = sl)"

text \<open>The source chunks an encoder works on.\<close>

definition chunks_of :: "nat \<Rightarrow> nat \<Rightarrow> bytes \<Rightarrow> bytes list" where
  "chunks_of k sl padded = map (chunk padded sl) [0..<k]"

lemma length_axpy [simp]: "length src = length acc \<Longrightarrow> length (axpy mul c src acc) = length acc"
  by (simp add: axpy_def)

lemma nth_axpy [simp]:
  "j < length acc \<Longrightarrow> length src = length acc \<Longrightarrow> axpy mul c src acc ! j = acc ! j XOR mul c (src ! j)"
  by (simp add: axpy_def)

lemma chunk_bound: "i < k \<Longrightarrow> Suc i * sl \<le> k * (sl::nat)"
  by (intro mult_le_mono1) simp

lemma length_chunk: "i < k \<Longrightarrow> length padded = k * sl \<Longrightarrow> length (chunk padded sl i) = sl"
  using chunk_bound[of i k sl] by (simp add: chunk_def)

lemma source_ok_chunks_of: "length padded = k * sl \<Longrightarrow> source_ok k sl (chunks_of k sl padded)"
  by (auto simp: source_ok_def chunks_of_def intro: length_chunk)

lemma concat_chunks_of: "length padded = k * sl \<Longrightarrow> concat (chunks_of k sl padded) = padded"
proof (induction k arbitrary: padded)
  case 0
  then show ?case by (simp add: chunks_of_def)
next
  case (Suc k)
  let ?p = "take (k * sl) padded"
  have "chunk padded sl i = chunk ?p sl i" if "i < k" for i
    using chunk_bound[OF that, of sl]
    by (simp add: chunk_def slice_def drop_take min_absorb1)
  then have "chunks_of (Suc k) sl padded = chunks_of k sl ?p @ [chunk padded sl k]"
    by (simp add: chunks_of_def)
  moreover have "chunk padded sl k = drop (k * sl) padded"
    using Suc.prems by (simp add: chunk_def slice_def)
  moreover have "concat (chunks_of k sl ?p) = ?p" using Suc.prems by (intro Suc.IH) simp
  ultimately show ?case by simp
qed

lemma length_pad_to [simp]: "length (pad_to n data) = n"
  by (simp add: pad_to_def)

lemma symbol_len_covers: "0 < k \<Longrightarrow> n \<le> k * symbol_len_of k n"
proof -
  assume "0 < k"
  have "(n + k - 1) = k * symbol_len_of k n + (n + k - 1) mod k"
    by (simp add: symbol_len_of_def)
  moreover have "(n + k - 1) mod k < k" using \<open>0 < k\<close> by simp
  ultimately show ?thesis using \<open>0 < k\<close> by linarith
qed

lemma take_pad_to: "length data \<le> n \<Longrightarrow> take (length data) (pad_to n data) = data"
  by (simp add: pad_to_def)

section \<open>The encoders only produce consistent shards\<close>

lemma rlnc_fold:
  assumes "length acc = sl" and "\<And>i. i \<in> set xs \<Longrightarrow> length (ch i) = sl"
  shows "length (fold (\<lambda>i p. if cs ! i = 0 then p else axpy (gf_mul g) (cs ! i) (ch i) p) xs acc) = sl \<and>
    (\<forall>j < sl. fold (\<lambda>i p. if cs ! i = 0 then p else axpy (gf_mul g) (cs ! i) (ch i) p) xs acc ! j =
       acc ! j XOR xsum (\<lambda>i. gf_mul g (cs ! i) (ch i ! j)) xs)"
  using assms
proof (induction xs arbitrary: acc)
  case Nil
  then show ?case by simp
next
  case (Cons x xs)
  let ?acc = "if cs ! x = 0 then acc else axpy (gf_mul g) (cs ! x) (ch x) acc"
  have "length ?acc = sl" using Cons.prems by simp
  moreover have "?acc ! j = acc ! j XOR gf_mul g (cs ! x) (ch x ! j)" if "j < sl" for j
    using Cons.prems that by (simp add: gf_mul_def)
  ultimately show ?case
    using Cons.IH[of ?acc] Cons.prems(2) by (simp add: xor.assoc)
qed

lemma coded_consistent:
  assumes "length cs = k" and "length padded = k * sl"
  shows "consistent (gf_mul g) sl (chunks_of k sl padded)
           \<lparr>coeffs = cs, payload = rlnc_payload g cs padded k sl\<rparr>"
proof -
  have "length (chunk padded sl i) = sl" if "i \<in> set [0..<k]" for i
    using that assms(2) by (intro length_chunk) auto
  from rlnc_fold[where acc = "replicate sl 0" and xs = "[0..<k]" and ch = "chunk padded sl", OF _ this]
  show ?thesis using assms(1)
    by (auto simp: consistent_def combination_def rlnc_payload_def chunks_of_def intro!: xsum_cong)
qed

lemma systematic_consistent:
  assumes "i < k" and "length padded = k * sl"
  shows "consistent (gf_mul gf_new) sl (chunks_of k sl padded) (systematic padded k sl i)"
proof -
  have "xsum (\<lambda>m. gf_mul gf_new (unit_vec k i ! m) (chunks_of k sl padded ! m ! j)) [0..<k] =
        chunks_of k sl padded ! i ! j" for j
    using assms(1) by (intro gf.xsum_unit) (auto simp: nth_unit_vec)
  with assms show ?thesis
    by (simp add: consistent_def combination_def systematic_def length_chunk) (simp add: chunks_of_def)
qed

lemma length_guard [simp]: "length (guard_coeffs k cs) = length cs"
  by (simp add: guard_coeffs_def Let_def)

lemma guard_K: "1 < k \<Longrightarrow> guard_coeffs k cs = guard_coeffs_K cs"
  by (simp add: guard_coeffs_def guard_coeffs_K_def)

lemma coded_shards_K: "coded_shards_K g padded sl m rng = coded_shards g padded K sl m rng"
  by (induction m arbitrary: rng) (simp_all add: guard_K K_def split_def Let_def)

lemma encode_layer_is_with_k: "encode_layer_with_k g data K n rng = Inr (encode_layer g data n rng)"
  by (simp add: encode_layer_with_k_def encode_layer_def coded_shards_K Let_def split_def K_def)

lemma two_nonzero:
  assumes "1 < length cs" and "cs ! 0 \<noteq> 0" and "cs ! 1 \<noteq> (0 :: u8)"
  shows "2 \<le> length (filter (\<lambda>b. b \<noteq> 0) cs)"
proof -
  obtain a b r where "cs = a # b # r"
    using assms(1) by (cases cs; cases "tl cs") auto
  with assms show ?thesis by simp
qed

lemma guard_not_identity:
  assumes "1 < k" and "length cs = k" shows "identity_index (guard_coeffs k cs) = None"
proof (cases "length (filter (\<lambda>b. b \<noteq> 0) cs) < 2")
  case False
  then show ?thesis by (intro identity_index_two) (simp add: guard_coeffs_def)
next
  case True
  show ?thesis
  proof (rule ccontr)
    let ?g = "cs[0 := cs ! 0 XOR 0x80, 1 := cs ! 1 XOR 0x40]"
    assume "identity_index (guard_coeffs k cs) \<noteq> None"
    with True assms(1) obtain i where i: "identity_index ?g = Some i"
      by (auto simp: guard_coeffs_def Let_def)
    then have "?g ! m = (if m = i then 1 else 0)" if "m < k" for m
      using nth_unit_vec[OF that, of i] assms(2) unfolding identity_index_Some by simp
    from this[of 0] this[of 1] have "cs ! 0 XOR 0x80 \<in> {0, 1}" "cs ! 1 XOR 0x40 \<in> {0, 1}"
      using assms by auto
    then have "cs ! 0 \<noteq> 0" "cs ! 1 \<noteq> 0" by (auto simp: xor_eq_0_word)
    with two_nonzero[of cs] assms True show False by simp
  qed
qed

lemma coded_shards_props:
  assumes "length padded = k * sl"
  shows "length (fst (coded_shards g padded k sl m rng)) = m \<and>
    (\<forall>s \<in> set (fst (coded_shards g padded k sl m rng)).
       consistent (gf_mul g) sl (chunks_of k sl padded) s \<and> (1 < k \<longrightarrow> identity_index (coeffs s) = None))"
proof (induction m arbitrary: rng)
  case 0
  then show ?case by simp
next
  case (Suc m)
  obtain cs r1 where r1: "rng_bytes k rng = (cs, r1)" by force
  then have "length cs = k" by (metis fst_conv length_rng_bytes)
  then have "length (guard_coeffs k cs) = k" by simp
  with Suc[of r1] coded_consistent[OF this assms] guard_not_identity[of k cs] \<open>length cs = k\<close> r1
  show ?case by (simp add: split_def Let_def)
qed

lemma encode_with_k_props:
  assumes "encode_layer_with_k gf_new data k n rng = Inr ((sl, ss), rng')"
  shows "0 < k" and "sl = symbol_len_of k (length data)" and "length ss = n"
    and "\<And>s. s \<in> set ss \<Longrightarrow> consistent (gf_mul gf_new) sl (chunks_of k sl (pad_to (k * sl) data)) s"
    and "\<And>i. i < min n k \<Longrightarrow> ss ! i = systematic (pad_to (k * sl) data) k sl i"
    and "1 < k \<Longrightarrow> list_all (\<lambda>s. identity_index (coeffs s) = None) (drop k ss)"
proof -
  let ?p = "pad_to (k * sl) data"
  show k: "0 < k" using assms by (cases k) (auto simp: encode_layer_with_k_def)
  show sl: "sl = symbol_len_of k (length data)"
    using assms k by (auto simp: encode_layer_with_k_def Let_def split_def)
  define c where "c = fst (coded_shards gf_new ?p k sl (n - min n k) rng)"
  have ss: "ss = map (systematic ?p k sl) [0..<min n k] @ c"
    using assms k sl by (auto simp: encode_layer_with_k_def Let_def split_def c_def)
  note props = coded_shards_props[of ?p k sl gf_new "n - min n k" rng, folded c_def]
  show "length ss = n" using ss props by simp
  show "consistent (gf_mul gf_new) sl (chunks_of k sl ?p) s" if "s \<in> set ss" for s
    using that props by (auto simp: ss intro!: systematic_consistent)
  show "ss ! i = systematic ?p k sl i" if "i < min n k" for i
    using that by (simp add: ss nth_append)
  show "list_all (\<lambda>s. identity_index (coeffs s) = None) (drop k ss)" if "1 < k"
    using that props by (cases "n \<le> k") (auto simp: ss list_all_iff dest: in_set_dropD)
qed

section \<open>Properties\<close>

text \<open>both encoders. \<open>encode_layer_with_k\<close> panics exactly for \<open>k = 0\<close>; otherwise it returns the
  symbol length \<open>ceil(len / k)\<close> and exactly \<open>n\<close> shards, every one of them consistent with the \<open>k\<close>
  zero-padded source chunks, the first \<open>min n k\<close> of them the raw chunks; and \<open>encode_layer\<close> is the
  same function at \<open>k = K = 16\<close>.\<close>

theorem encode_layer_consistent:
  "(case encode_layer_with_k gf_new data k n rng of
      Inl e \<Rightarrow> e = Panic \<and> k = 0
    | Inr ((sl, ss), _) \<Rightarrow> 0 < k \<and> sl = symbol_len_of k (length data) \<and> length ss = n \<and>
        list_all (consistent (gf_mul gf_new) sl (chunks_of k sl (pad_to (k * sl) data))) ss \<and>
        take k ss = map (systematic (pad_to (k * sl) data) k sl) [0..<min n k]) \<and>
   encode_layer_with_k gf_new data K n rng = Inr (encode_layer gf_new data n rng)"
    (is "(case ?enc of Inl e \<Rightarrow> _ | Inr r \<Rightarrow> _) \<and> ?eq")
proof
  show ?eq by (rule encode_layer_is_with_k)
  show "case ?enc of
      Inl e \<Rightarrow> e = Panic \<and> k = 0
    | Inr ((sl, ss), _) \<Rightarrow> 0 < k \<and> sl = symbol_len_of k (length data) \<and> length ss = n \<and>
        list_all (consistent (gf_mul gf_new) sl (chunks_of k sl (pad_to (k * sl) data))) ss \<and>
        take k ss = map (systematic (pad_to (k * sl) data) k sl) [0..<min n k]"
  proof (cases ?enc)
    case (Inl e)
    then show ?thesis
      by (auto simp: encode_layer_with_k_def Let_def split_def split: if_splits)
  next
    case (Inr r)
    obtain sl ss rng' where r: "r = ((sl, ss), rng')" by (metis prod.exhaust)
    note p = encode_with_k_props[OF Inr[unfolded r]]
    have "take k ss = map (systematic (pad_to (k * sl) data) k sl) [0..<min n k]"
      using p(3,5) by (intro nth_equalityI) auto
    with p(1-4) Inr r show ?thesis by (simp add: list_all_iff)
  qed
qed

text \<open>the degenerate-coefficients guard of \<open>encode_layer\<close> does its job for \<open>K = 16\<close>: whatever bytes
  the generator yields, no coded shard is mistaken for a systematic one. (The stronger claim of the
  comment, two non-zero positions, does not hold: see \<open>guard_leaves_one\<close>.)\<close>

theorem coded_never_systematic:
  "list_all (\<lambda>s. identity_index (coeffs s) = None) (drop K (snd (fst (encode_layer gf_new data n rng))))"
proof -
  obtain sl ss rng' where "encode_layer gf_new data n rng = ((sl, ss), rng')" by (metis prod.exhaust)
  moreover have "1 < K" by (simp add: K_def)
  ultimately show ?thesis
    using encode_with_k_props(6)[of data K n rng sl ss rng'] by (simp add: encode_layer_is_with_k)
qed

text \<open>The guard's corner cases: one non-zero coefficient can be left (contrary to the comment), and
  with \<open>k = 1\<close> (escrow) the guard can produce the zero vector.\<close>

lemma guard_leaves_one:
  "length (filter (\<lambda>b. b \<noteq> 0) (guard_coeffs_K (0x80 # replicate 15 0))) = 1"
proof -
  have "replicate 15 (0 :: u8) = [0,0,0,0,0,0,0,0,0,0,0,0,0,0,0]"
    by (simp only: numeral_eq_Suc pred_numeral_simps BitM.simps replicate_Suc replicate_0)
  then show ?thesis by (simp add: guard_coeffs_K_def)
qed

lemma guard_makes_zero: "guard_coeffs 1 [0x80] = [0]"
  by (simp add: guard_coeffs_def)

end
