(* ===== verification/Gauss.thy ===== *)
theory Gauss
  imports Rlnc
begin

text \<open>
  The Gauss-Jordan elimination shared by the three decoders of \<open>holofs-core/src/rlnc.rs\<close>. A row is
  \<open>n\<close> coefficients followed by the payload bytes. \<open>gauss\<close> is the loop of \<open>decode_layer\<close> and
  \<open>decode_layer_with_k\<close> (it gives up at the first column without a pivot), \<open>gauss_holes\<close> the one of
  \<open>decode_layer_with_holes\<close> (it skips such a column and records the pivot row of every other).

  Both are stated over the two field operations, and analysed inside the locale \<open>byte_field\<close>:
  a pivot step keeps the solutions of the system, the loop ends in reduced row echelon form, and in
  that form an unknown is determined exactly when its pivot row is clean.
\<close>

section \<open>The loops\<close>

definition find_sel :: "bytes list \<Rightarrow> nat \<Rightarrow> nat \<Rightarrow> nat option" where
  "find_sel rows pr col = List.find (\<lambda>r. rows ! r ! col \<noteq> 0) [pr..<length rows]"

definition elim_row :: "(u8 \<Rightarrow> u8 \<Rightarrow> u8) \<Rightarrow> u8 \<Rightarrow> bytes \<Rightarrow> bytes \<Rightarrow> bytes" where
  "elim_row mul f prow row = map2 (\<lambda>x p. x XOR mul f p) row prow"

definition gauss_pivot ::
  "(u8 \<Rightarrow> u8 \<Rightarrow> u8) \<Rightarrow> (u8 \<Rightarrow> u8) \<Rightarrow> bytes list \<Rightarrow> nat \<Rightarrow> nat \<Rightarrow> nat \<Rightarrow> bytes list" where
  "gauss_pivot mul rcp rows pr col sel =
     (let rows = rows[pr := rows ! sel, sel := rows ! pr];
          iv = rcp (rows ! pr ! col);
          prow = map (\<lambda>x. mul x iv) (rows ! pr)
      in map (\<lambda>r. if r = pr then prow
                  else let f = rows ! r ! col
                       in if f = 0 then rows ! r else elim_row mul f prow (rows ! r))
           [0..<length rows])"

fun gauss :: "(u8 \<Rightarrow> u8 \<Rightarrow> u8) \<Rightarrow> (u8 \<Rightarrow> u8) \<Rightarrow> nat list \<Rightarrow> bytes list \<Rightarrow> nat \<Rightarrow> bytes list option" where
  "gauss mul rcp [] rows pr = Some rows"
| "gauss mul rcp (col # cols) rows pr =
     (case find_sel rows pr col of
        None \<Rightarrow> None
      | Some sel \<Rightarrow> gauss mul rcp cols (gauss_pivot mul rcp rows pr col sel) (Suc pr))"

fun gauss_holes ::
  "(u8 \<Rightarrow> u8 \<Rightarrow> u8) \<Rightarrow> (u8 \<Rightarrow> u8) \<Rightarrow> nat list \<Rightarrow> bytes list \<Rightarrow> nat \<Rightarrow> nat option list
     \<Rightarrow> bytes list \<times> nat option list" where
  "gauss_holes mul rcp [] rows pr piv = (rows, piv)"
| "gauss_holes mul rcp (col # cols) rows pr piv =
     (case find_sel rows pr col of
        None \<Rightarrow> gauss_holes mul rcp cols rows pr piv
      | Some sel \<Rightarrow>
          gauss_holes mul rcp cols (gauss_pivot mul rcp rows pr col sel) (Suc pr) (piv[col := Some pr]))"

section \<open>Vocabulary\<close>

text \<open>\<open>gval n Y j row\<close> is 0 when byte \<open>j\<close> of the row's payload is the combination of the unknowns
  \<open>Y c\<close> that its coefficients describe.\<close>

definition gval :: "(u8 \<Rightarrow> u8 \<Rightarrow> u8) \<Rightarrow> nat \<Rightarrow> (nat \<Rightarrow> nat \<Rightarrow> u8) \<Rightarrow> nat \<Rightarrow> bytes \<Rightarrow> u8" where
  "gval mul n Y j row = row ! (n + j) XOR xsum (\<lambda>c. mul (row ! c) (Y c j)) [0..<n]"

definition gsat :: "(u8 \<Rightarrow> u8 \<Rightarrow> u8) \<Rightarrow> nat \<Rightarrow> nat \<Rightarrow> (nat \<Rightarrow> nat \<Rightarrow> u8) \<Rightarrow> bytes list \<Rightarrow> bool" where
  "gsat mul n sl Y rows \<longleftrightarrow> (\<forall>r < length rows. \<forall>j < sl. gval mul n Y j (rows ! r) = 0)"

definition rect :: "nat \<Rightarrow> bytes list \<Rightarrow> bool" where
  "rect rl rows \<longleftrightarrow> (\<forall>row \<in> set rows. length row = rl)"

lemma rect_nth: "rect rl rows \<Longrightarrow> r < length rows \<Longrightarrow> length (rows ! r) = rl"
  by (simp add: rect_def)

lemma find_selD: "find_sel rows pr col = Some sel \<Longrightarrow> pr \<le> sel \<and> sel < length rows \<and> rows ! sel ! col \<noteq> 0"
  by (auto simp: find_sel_def find_Some_iff)

lemma find_sel_None: "find_sel rows pr col = None \<Longrightarrow> pr \<le> r \<Longrightarrow> r < length rows \<Longrightarrow> rows ! r ! col = 0"
  by (auto simp: find_sel_def find_None_iff)

lemma length_pivot [simp]: "length (gauss_pivot mul rcp rows pr col sel) = length rows"
  by (simp add: gauss_pivot_def Let_def)

text \<open>The reduced row echelon form reached after the first \<open>C\<close> of \<open>n\<close> columns.\<close>

definition rref :: "nat \<Rightarrow> nat \<Rightarrow> bytes list \<Rightarrow> nat \<Rightarrow> nat option list \<Rightarrow> bool" where
  "rref n C rows pr piv \<longleftrightarrow> length piv = n \<and> pr \<le> length rows \<and>
     (\<forall>c < n. \<forall>p. piv ! c = Some p \<longrightarrow> p < pr \<and> c < C \<and>
        (\<forall>r < length rows. rows ! r ! c = (if r = p then 1 else 0))) \<and>
     (\<forall>p < pr. \<exists>c < n. piv ! c = Some p) \<and>
     (\<forall>c < n. \<forall>d < n. piv ! c \<noteq> None \<longrightarrow> piv ! c = piv ! d \<longrightarrow> c = d) \<and>
     (\<forall>c < C. piv ! c = None \<longrightarrow> (\<forall>r. pr \<le> r \<and> r < length rows \<longrightarrow> rows ! r ! c = 0))"

lemma rref_unit:
  "rref n C rows pr piv \<Longrightarrow> c < n \<Longrightarrow> piv ! c = Some p \<Longrightarrow> r < length rows \<Longrightarrow>
     rows ! r ! c = (if r = p then 1 else 0)"
  by (simp add: rref_def)

lemma rref_free:
  "rref n C rows pr piv \<Longrightarrow> c < C \<Longrightarrow> piv ! c = None \<Longrightarrow> pr \<le> r \<Longrightarrow> r < length rows \<Longrightarrow>
     rows ! r ! c = 0"
  by (simp add: rref_def)

lemma rref_inj:
  "rref n C rows pr piv \<Longrightarrow> c < n \<Longrightarrow> d < n \<Longrightarrow> piv ! c = Some p \<Longrightarrow> piv ! d = Some p \<Longrightarrow> c = d"
  unfolding rref_def by (metis option.distinct(1))

lemma rref_piv: "rref n C rows pr piv \<Longrightarrow> c < n \<Longrightarrow> piv ! c = Some p \<Longrightarrow> p < pr \<and> p < length rows"
  by (auto simp: rref_def)

text \<open>The test \<open>(0..n_unknown).all(|c| c == col || row[c] == 0)\<close>.\<close>

definition clean :: "nat \<Rightarrow> bytes \<Rightarrow> nat \<Rightarrow> bool" where
  "clean n row col \<longleftrightarrow> (\<forall>c < n. c = col \<or> row ! c = 0)"

lemma rref_start: "rref n 0 rows 0 (replicate n None)"
  by (simp add: rref_def)

text \<open>With fewer rows than unknowns some column stays without a pivot.\<close>

lemma rref_pigeonhole:
  assumes "rref n n rows pr piv" and "length rows < n"
  shows "\<exists>c < n. piv ! c = None"
proof (rule ccontr)
  assume "\<not> (\<exists>c < n. piv ! c = None)"
  then have s: "\<forall>c < n. piv ! c = Some (the (piv ! c))" by auto
  have "inj_on (\<lambda>c. the (piv ! c)) {..<n}"
    using s rref_inj[OF assms(1)] by (intro inj_onI) (metis lessThan_iff)
  moreover have "(\<lambda>c. the (piv ! c)) ` {..<n} \<subseteq> {..<length rows}"
    using s rref_piv[OF assms(1)] by auto
  ultimately have "n \<le> length rows"
    using card_inj_on_le[of _ "{..<n}" "{..<length rows}"] by simp
  with assms(2) show False by simp
qed

section \<open>A pivot step\<close>

context byte_field begin

lemma pivot_nth:
  assumes "sel < length rows" and "pr \<le> sel" and "r < length rows"
    and "S = rows[pr := rows ! sel, sel := rows ! pr]"
  shows "gauss_pivot mul inv rows pr col sel ! r =
    (if r = pr then map (\<lambda>x. mul x (inv (rows ! sel ! col))) (rows ! sel)
     else if S ! r ! col = 0 then S ! r
     else elim_row mul (S ! r ! col) (map (\<lambda>x. mul x (inv (rows ! sel ! col))) (rows ! sel)) (S ! r))"
proof -
  have "S ! pr = rows ! sel" using assms by (simp add: nth_list_update)
  moreover have "length S = length rows" using assms(4) by simp
  ultimately show ?thesis
    using assms(3) by (simp add: gauss_pivot_def Let_def flip: assms(4))
qed

text \<open>The rows after a step, entry by entry.\<close>

lemma pivot_entry:
  assumes sel: "find_sel rows pr col = Some sel" and "rect rl rows" and "r < length rows" and "x < rl"
    and "S = rows[pr := rows ! sel, sel := rows ! pr]"
  shows "gauss_pivot mul inv rows pr col sel ! r ! x =
    (if r = pr then mul (rows ! sel ! x) (inv (rows ! sel ! col))
     else S ! r ! x XOR mul (S ! r ! col) (mul (rows ! sel ! x) (inv (rows ! sel ! col))))"
proof -
  note s = find_selD[OF sel]
  have len: "length (S ! r) = rl" "length (rows ! sel) = rl"
    using assms s by (auto simp: nth_list_update rect_nth)
  then show ?thesis
    using s assms(3,4) by (simp add: pivot_nth[OF _ _ assms(3) assms(5)] elim_row_def)
qed

lemma pivot_rect:
  assumes "find_sel rows pr col = Some sel" and "rect rl rows"
  shows "rect rl (gauss_pivot mul inv rows pr col sel)"
proof -
  note s = find_selD[OF assms(1)]
  have "length (gauss_pivot mul inv rows pr col sel ! r) = rl" if "r < length rows" for r
    using s assms(2) that
    by (auto simp: pivot_nth[OF _ _ that refl] elim_row_def nth_list_update rect_nth)
  then show ?thesis by (auto simp: rect_def in_set_conv_nth)
qed

lemma gval_scale:
  assumes "length row = n + sl" and "j < sl"
  shows "gval mul n Y j (map (\<lambda>x. mul x a) row) = mul a (gval mul n Y j row)"
proof -
  have "xsum (\<lambda>c. mul (map (\<lambda>x. mul x a) row ! c) (Y c j)) [0..<n] =
        xsum (\<lambda>c. mul a (mul (row ! c) (Y c j))) [0..<n]"
    using assms by (intro xsum_cong) (simp add: mul_comm[of _ a] mul_assoc)
  with assms show ?thesis by (simp add: gval_def mul_xor mul_xsum mul_comm[of _ a])
qed

lemma gval_elim:
  assumes "length row = n + sl" and "length prow = n + sl" and "j < sl"
  shows "gval mul n Y j (elim_row mul f prow row) = gval mul n Y j row XOR mul f (gval mul n Y j prow)"
proof -
  have "xsum (\<lambda>c. mul (elim_row mul f prow row ! c) (Y c j)) [0..<n] =
        xsum (\<lambda>c. mul (row ! c) (Y c j) XOR mul f (mul (prow ! c) (Y c j))) [0..<n]"
    using assms by (intro xsum_cong) (simp add: elim_row_def xor_mul mul_assoc)
  with assms show ?thesis
    by (simp add: gval_def elim_row_def mul_xor mul_xsum xsum_xor) (simp add: ac_simps)
qed

text \<open>A step keeps the solutions.\<close>

lemma pivot_sat:
  assumes sel: "find_sel rows pr col = Some sel" and rect: "rect (n + sl) rows"
  shows "gsat mul n sl Y (gauss_pivot mul inv rows pr col sel) \<longleftrightarrow> gsat mul n sl Y rows"
proof -
  let ?G = "gauss_pivot mul inv rows pr col sel"
  define S where "S = rows[pr := rows ! sel, sel := rows ! pr]"
  define iv where "iv = inv (rows ! sel ! col)"
  note s = find_selD[OF sel]
  have iv: "iv \<noteq> 0" using s inv_nonzero by (simp add: iv_def)
  have pr: "pr < length rows" using s by simp
  have Spr: "S ! pr = rows ! sel" using s by (simp add: S_def nth_list_update)
  have lenS: "length (S ! r) = n + sl" if "r < length rows" for r
    using that s rect by (auto simp: S_def nth_list_update rect_nth)
  have perm: "gsat mul n sl Y S \<longleftrightarrow> gsat mul n sl Y rows"
  proof -
    have "set S = set rows" unfolding S_def using s by (intro set_swap) auto
    then show ?thesis by (metis gsat_def in_set_conv_nth)
  qed
  have Gpr: "gval mul n Y j (?G ! pr) = mul iv (gval mul n Y j (S ! pr))" if "j < sl" for j
    using s rect that lenS[OF pr]
    by (simp add: pivot_nth[OF _ _ pr refl] gval_scale rect_nth Spr iv_def)
  have G: "gval mul n Y j (?G ! r) =
      gval mul n Y j (S ! r) XOR mul (S ! r ! col) (gval mul n Y j (?G ! pr))"
    if "r < length rows" "r \<noteq> pr" "j < sl" for r j
    using s rect that lenS[of r]
    by (auto simp: pivot_nth[OF _ _ that(1) S_def] pivot_nth[OF _ _ pr S_def] gval_elim rect_nth)
  have "gsat mul n sl Y ?G \<longleftrightarrow> gsat mul n sl Y S"
  proof
    assume S: "gsat mul n sl Y S"
    then have "\<forall>j < sl. gval mul n Y j (?G ! pr) = 0" using Gpr pr by (simp add: gsat_def S_def)
    with S G show "gsat mul n sl Y ?G"
      by (auto simp: gsat_def S_def) (metis mul_zero(1) xor.right_neutral)
  next
    assume g: "gsat mul n sl Y ?G"
    then have 0: "gval mul n Y j (?G ! pr) = 0" if "j < sl" for j
      using that pr by (simp add: gsat_def)
    have "gval mul n Y j (S ! r) = 0" if "r < length rows" "j < sl" for r j
    proof (cases "r = pr")
      case True
      then show ?thesis using 0[OF that(2)] Gpr[OF that(2)] iv by (simp add: mul_eq_0)
    next
      case False
      then show ?thesis using 0[OF that(2)] G[OF that(1) False that(2)] g that by (simp add: gsat_def)
    qed
    then show "gsat mul n sl Y S" by (simp add: gsat_def S_def)
  qed
  with perm show ?thesis by simp
qed

text \<open>A step extends the reduced form by one column.\<close>

lemma pivot_rref:
  assumes sel: "find_sel rows pr col = Some sel" and rect: "rect rl rows" and "n \<le> rl" and "col < n"
    and R: "rref n col rows pr piv"
  shows "rref n (Suc col) (gauss_pivot mul inv rows pr col sel) (Suc pr) (piv[col := Some pr])"
proof -
  let ?G = "gauss_pivot mul inv rows pr col sel"
  note s = find_selD[OF sel]
  note E = pivot_entry[OF sel rect _ _ refl]
  have len: "length piv = n" using R by (simp add: rref_def)
  have other: "?G ! r ! c = (if r = p then 1 else 0)"
    if "c < n" "piv ! c = Some p" "r < length rows" for c p r
  proof -
    have "p < pr" using R that by (simp add: rref_def)
    with that show ?thesis using E[of r c] rref_unit[OF R] s assms(3)
      by (auto simp: nth_list_update mul_one)
  qed
  have new: "?G ! r ! col = (if r = pr then 1 else 0)" if "r < length rows" for r
    using E[of r col] that assms(3,4) s by (simp add: mul_inv)
  have free: "?G ! r ! c = 0" if "c < col" "piv ! c = None" "Suc pr \<le> r" "r < length rows" for c r
    using E[of r c] rref_free[OF R that(1,2)] that s assms(3,4) by (auto simp: nth_list_update)
  have pcol: "piv ! col = None"
    using R assms(4) by (cases "piv ! col") (auto simp: rref_def)
  have old: "p < pr" "c < col" if "c < n" "piv ! c = Some p" for c p
    using R that by (auto simp: rref_def)
  show ?thesis
    unfolding rref_def length_list_update length_pivot
  proof (intro conjI)
    show "\<forall>c < n. \<forall>p. piv[col := Some pr] ! c = Some p \<longrightarrow> p < Suc pr \<and> c < Suc col \<and>
        (\<forall>r < length rows. ?G ! r ! c = (if r = p then 1 else 0))"
    proof (intro allI impI)
      fix c p
      assume c: "c < n" "piv[col := Some pr] ! c = Some p"
      show "p < Suc pr \<and> c < Suc col \<and> (\<forall>r < length rows. ?G ! r ! c = (if r = p then 1 else 0))"
      proof (cases "c = col")
        case True
        with c len have "p = pr" by simp
        with True new show ?thesis by simp
      next
        case False
        with c(2) have "piv ! c = Some p" by simp
        with other[OF c(1) this] old[OF c(1) this] show ?thesis by simp
      qed
    qed
    show "\<forall>p < Suc pr. \<exists>c < n. piv[col := Some pr] ! c = Some p"
      using R assms(4) len pcol unfolding rref_def
      by (auto simp: less_Suc_eq nth_list_update) (metis option.distinct(1))
    show "\<forall>c < n. \<forall>d < n. piv[col := Some pr] ! c \<noteq> None \<longrightarrow>
        piv[col := Some pr] ! c = piv[col := Some pr] ! d \<longrightarrow> c = d"
    proof (intro allI impI)
      fix c d
      assume c: "c < n" and d: "d < n" and "piv[col := Some pr] ! c \<noteq> None"
        and eq: "piv[col := Some pr] ! c = piv[col := Some pr] ! d"
      then obtain p where p: "piv[col := Some pr] ! c = Some p" "piv[col := Some pr] ! d = Some p" by auto
      show "c = d"
      proof (cases "c = col \<or> d = col")
        case True
        with p len assms(4) have "p = pr" by auto
        with True p c d len old(1)[of c p] old(1)[of d p] show ?thesis
          by (cases "c = col"; cases "d = col") auto
      next
        case False
        with p rref_inj[OF R c d] show ?thesis by simp
      qed
    qed
    show "\<forall>c < Suc col. piv[col := Some pr] ! c = None \<longrightarrow>
        (\<forall>r. Suc pr \<le> r \<and> r < length rows \<longrightarrow> ?G ! r ! c = 0)"
      using free len assms(4) by (auto simp: nth_list_update less_Suc_eq split: if_splits)
  qed (use len s in auto)
qed

lemma skip_rref:
  assumes "find_sel rows pr col = None" and "rref n col rows pr piv"
  shows "rref n (Suc col) rows pr piv"
  using assms(2) find_sel_None[OF assms(1)] unfolding rref_def
  by (auto simp: less_Suc_eq)

lemma gauss_holes_correct:
  assumes "gauss_holes mul inv [col..<n] rows pr piv = (rows', piv')"
    and "rect (n + sl) rows" and "rref n col rows pr piv" and "col \<le> n"
  shows "rect (n + sl) rows' \<and> length rows' = length rows \<and> (\<exists>pr'. rref n n rows' pr' piv') \<and>
    (\<forall>Y. gsat mul n sl Y rows' \<longleftrightarrow> gsat mul n sl Y rows)"
  using assms
proof (induction "n - col" arbitrary: col rows pr piv)
  case 0
  then show ?case by auto
next
  case (Suc d)
  then have c: "[col..<n] = col # [Suc col..<n]" "col < n" by (auto simp: upt_conv_Cons)
  show ?case
  proof (cases "find_sel rows pr col")
    case None
    with Suc.prems c show ?thesis
      using Suc.hyps(2) by (intro Suc.hyps(1)[of "Suc col" rows pr piv] skip_rref) auto
  next
    case (Some sel)
    let ?G = "gauss_pivot mul inv rows pr col sel"
    from Suc.prems Suc.hyps(2) c Some have
      "rect (n + sl) rows' \<and> length rows' = length ?G \<and> (\<exists>pr'. rref n n rows' pr' piv') \<and>
       (\<forall>Y. gsat mul n sl Y rows' \<longleftrightarrow> gsat mul n sl Y ?G)"
      by (intro Suc.hyps(1)[of "Suc col" ?G "Suc pr" "piv[col := Some pr]"]
          pivot_rect pivot_rref[where rl = "n + sl"]) auto
    with pivot_sat[OF Some Suc.prems(2)] show ?thesis by simp
  qed
qed

text \<open>An unknown without a clean pivot row is not determined: the homogeneous system has a solution
  that moves it.\<close>

lemma rref_kernel:
  assumes R: "rref n n rows pr piv" and f: "f < n" "piv ! f = None" and r: "r < length rows"
  shows "xsum (\<lambda>d. mul (rows ! r ! d)
      (if d = f then 1 else case piv ! d of Some p \<Rightarrow> rows ! p ! f | None \<Rightarrow> 0)) [0..<n] = 0"
proof (cases "r < pr")
  case False
  have "mul (rows ! r ! d) (if d = f then 1 else case piv ! d of Some p \<Rightarrow> rows ! p ! f | None \<Rightarrow> 0) = 0"
    if "d \<in> set [0..<n]" for d
    using that False f rref_free[OF R, of d r] rref_unit[OF R, of d _ r] rref_piv[OF R, of d] r
    by (auto split: option.split)
  then show ?thesis using xsum_cong[of "[0..<n]" _ "\<lambda>_. 0"] by simp
next
  case True
  then obtain c where c: "c < n" "piv ! c = Some r" using R by (auto simp: rref_def)
  have "mul (rows ! r ! d) (if d = f then 1 else case piv ! d of Some p \<Rightarrow> rows ! p ! f | None \<Rightarrow> 0) =
      (if d = f then rows ! r ! f else 0) XOR (if d = c then rows ! r ! f else 0)"
    if "d \<in> set [0..<n]" for d
  proof -
    have d: "d < n" using that by simp
    have "c \<noteq> f" using c f by auto
    consider "d = f" | "d \<noteq> f" "d = c" | "d \<noteq> f" "d \<noteq> c" "piv ! d = None"
      | p where "d \<noteq> f" "d \<noteq> c" "piv ! d = Some p" by (cases "piv ! d") blast+
    then show ?thesis
    proof cases
      case 1
      with \<open>c \<noteq> f\<close> show ?thesis by simp
    next
      case 2
      with c rref_unit[OF R c r] show ?thesis by (simp add: mul_one)
    next
      case 3
      then show ?thesis by simp
    next
      case (4 p)
      then have "p \<noteq> r" using rref_inj[OF R d c(1)] c(2) by blast
      with 4 rref_unit[OF R d 4(3) r] show ?thesis by simp
    qed
  qed
  then have "xsum (\<lambda>d. mul (rows ! r ! d)
      (if d = f then 1 else case piv ! d of Some p \<Rightarrow> rows ! p ! f | None \<Rightarrow> 0)) [0..<n] =
    xsum (\<lambda>d. (if d = f then rows ! r ! f else 0) XOR (if d = c then rows ! r ! f else 0)) [0..<n]"
    by (rule xsum_cong)
  with f c show ?thesis by (simp add: xsum_xor xsum_single)
qed

lemma rref_undetermined:
  assumes R: "rref n n rows pr piv" and "c < n"
    and "\<forall>p. piv ! c = Some p \<longrightarrow> \<not> clean n (rows ! p) c"
  shows "\<exists>z. z c \<noteq> 0 \<and> (\<forall>r < length rows. xsum (\<lambda>d. mul (rows ! r ! d) (z d)) [0..<n] = 0)"
proof (cases "piv ! c")
  case None
  with rref_kernel[OF R assms(2) None] show ?thesis
    by (intro exI[of _ "\<lambda>d. if d = c then 1 else case piv ! d of Some p \<Rightarrow> rows ! p ! c | None \<Rightarrow> 0"])
      auto
next
  case (Some p)
  with assms(3) obtain f where f: "f < n" "f \<noteq> c" "rows ! p ! f \<noteq> 0" by (auto simp: clean_def)
  have "p < length rows" using rref_piv[OF R assms(2) Some] by simp
  then have "piv ! f = None"
    using f rref_unit[OF R f(1), of _ p] rref_inj[OF R assms(2) f(1) Some]
    by (cases "piv ! f") (auto split: if_splits)
  with f Some rref_kernel[OF R f(1)] show ?thesis
    by (intro exI[of _ "\<lambda>d. if d = f then 1 else case piv ! d of Some p \<Rightarrow> rows ! p ! f | None \<Rightarrow> 0"])
      auto
qed

lemma rref_determined:
  assumes R: "rref n n rows pr piv" and "c < n" "piv ! c = Some p" "clean n (rows ! p) c"
    and "gsat mul n sl Y rows" and "j < sl"
  shows "rows ! p ! (n + j) = Y c j"
proof -
  have p: "p < length rows" using rref_piv[OF R assms(2,3)] by simp
  have "xsum (\<lambda>d. mul (rows ! p ! d) (Y d j)) [0..<n] = Y c j"
    using assms(2) assms(4) rref_unit[OF R assms(2,3) p]
    by (intro xsum_unit[of c n "\<lambda>d. rows ! p ! d" "\<lambda>d. Y d j"]) (auto simp: clean_def)
  moreover have "gval mul n Y j (rows ! p) = 0" using assms(5,6) p by (simp add: gsat_def)
  ultimately show ?thesis by (simp add: gval_def xor_eq_0_word)
qed

end

text \<open>The all-or-nothing loop is the hole-tolerant one, run until the first hole.\<close>

lemma holes_frame: "c \<notin> set cols \<Longrightarrow> snd (gauss_holes mul rcp cols rows pr piv) ! c = piv ! c"
  by (induction cols arbitrary: rows pr piv) (auto split: option.splits)

lemma gauss_Some:
  assumes "gauss mul rcp [col..<n] rows pr = Some rows'" and "col \<le> n" and "length piv = n"
  shows "\<exists>piv'. gauss_holes mul rcp [col..<n] rows pr piv = (rows', piv') \<and>
    (\<forall>c < n. piv' ! c = (if c < col then piv ! c else Some (pr + (c - col))))"
  using assms
proof (induction "n - col" arbitrary: col rows pr piv)
  case 0
  then show ?case by auto
next
  case (Suc d)
  then have c: "[col..<n] = col # [Suc col..<n]" "col < n" by (auto simp: upt_conv_Cons)
  with Suc.prems obtain sel where sel: "find_sel rows pr col = Some sel"
    "gauss mul rcp [Suc col..<n] (gauss_pivot mul rcp rows pr col sel) (Suc pr) = Some rows'"
    by (auto split: option.splits)
  have "\<exists>piv'. gauss_holes mul rcp [Suc col..<n] (gauss_pivot mul rcp rows pr col sel) (Suc pr)
      (piv[col := Some pr]) = (rows', piv') \<and>
    (\<forall>c < n. piv' ! c = (if c < Suc col then piv[col := Some pr] ! c else Some (Suc pr + (c - Suc col))))"
    using Suc.hyps(2) Suc.prems(3) c(2) by (intro Suc.hyps(1)[OF _ sel(2)]) auto
  with sel(1) c Suc.prems(3) show ?case by (auto simp: nth_list_update less_Suc_eq)
qed

lemma gauss_None:
  assumes "gauss mul rcp cols rows pr = None" and "distinct cols"
  shows "\<exists>c \<in> set cols. snd (gauss_holes mul rcp cols rows pr piv) ! c = piv ! c"
  using assms
proof (induction cols arbitrary: rows pr piv)
  case Nil
  then show ?case by simp
next
  case (Cons col cols)
  show ?case
  proof (cases "find_sel rows pr col")
    case None
    then show ?thesis
      using holes_frame[of col cols mul rcp rows pr piv] Cons.prems(2) by auto
  next
    case (Some sel)
    let ?G = "gauss_pivot mul rcp rows pr col sel"
    from Some Cons.prems obtain c where "c \<in> set cols"
      "snd (gauss_holes mul rcp cols ?G (Suc pr) (piv[col := Some pr])) ! c = piv[col := Some pr] ! c"
      using Cons.IH[of ?G "Suc pr" "piv[col := Some pr]"] by auto
    moreover from \<open>c \<in> set cols\<close> Cons.prems(2) have "c \<noteq> col" by auto
    ultimately show ?thesis using Some by (intro bexI[of _ c]) auto
  qed
qed

end
