(* ===== verification/Decode.thy ===== *)
theory Decode
  imports Gauss
begin

text \<open>
  \<open>holofs-core/src/rlnc.rs\<close>, decoding half: \<open>decode_layer_with_k\<close>, \<open>decode_layer_with_holes\<close> and
  \<open>decode_layer\<close>. Each splits the shards into systematic ones, which fill the \<open>known\<close> array, and
  coded ones, subtracts what is known from the coded ones, eliminates, and reads the chunks off.

  The functional specification is semantic. For shards that are consistent with a source, the
  all-or-nothing decoders return the source exactly when no other source is consistent with the
  shards, and \<open>None\<close> otherwise; the hole-tolerant decoder returns exactly the chunks on which all
  consistent sources agree. So no decoder ever returns a wrong byte, and none gives up early.
\<close>

section \<open>Splitting the shards\<close>

text \<open>\<open>decode_layer\<close>, \<open>decode_layer_with_holes\<close>: duplicates of a known chunk are dropped; an index
  outside \<open>known\<close> panics.\<close>

definition split_step ::
  "bytes option list \<times> shard list \<Rightarrow> shard \<Rightarrow> ('e, bytes option list \<times> shard list) res" where
  "split_step st s = (case st of (known, rl) \<Rightarrow>
     (case identity_index (coeffs s) of
        Some i \<Rightarrow> rbind (at_idx known i) (\<lambda>old.
          Inr (if old = None then (known[i := Some (payload s)], rl) else (known, rl)))
      | None \<Rightarrow> Inr (known, rl @ [s])))"

text \<open>\<open>decode_layer_with_k\<close>: its inline scan of the coefficients yields \<open>(idx, bad)\<close>; everything that
  is not a new, in-range systematic shard goes to the coded ones.\<close>

fun scan_basis :: "nat \<Rightarrow> u8 list \<Rightarrow> nat option \<Rightarrow> nat option \<times> bool" where
  "scan_basis i [] idx = (idx, False)"
| "scan_basis i (c # cs) idx =
     (if c = 1 then (if idx \<noteq> None then (idx, True) else scan_basis (Suc i) cs (Some i))
      else if c \<noteq> 0 then (idx, True)
      else scan_basis (Suc i) cs idx)"

definition split_step_k ::
  "nat \<Rightarrow> shard \<Rightarrow> bytes option list \<times> shard list \<Rightarrow> bytes option list \<times> shard list" where
  "split_step_k k s st = (case st of (known, rl) \<Rightarrow>
     (case scan_basis 0 (coeffs s) None of
        (Some i, False) \<Rightarrow>
          if i < k \<and> known ! i = None then (known[i := Some (payload s)], rl) else (known, rl @ [s])
      | _ \<Rightarrow> (known, rl @ [s])))"

section \<open>The reduced system\<close>

definition unknown_positions :: "bytes option list \<Rightarrow> nat \<Rightarrow> nat list" where
  "unknown_positions known k = filter (\<lambda>i. known ! i = None) [0..<k]"

text \<open>One byte of a reduced row: the payload byte minus the contributions of the known chunks.\<close>

definition reduce_byte :: "gf \<Rightarrow> nat \<Rightarrow> bytes option list \<Rightarrow> shard \<Rightarrow> nat \<Rightarrow> ('e, u8) res" where
  "reduce_byte g k known s j =
     rbind (at_idx (payload s) j) (\<lambda>byte.
       rfold (\<lambda>byte i. case known ! i of
            None \<Rightarrow> Inr byte
          | Some chk \<Rightarrow> rbind (at_idx (coeffs s) i) (\<lambda>c.
              if c \<noteq> 0 then rbind (at_idx chk j) (\<lambda>x. Inr (byte XOR gf_mul g c x)) else Inr byte))
         byte [0..<k])"

definition reduce_row :: "gf \<Rightarrow> nat \<Rightarrow> nat \<Rightarrow> bytes option list \<Rightarrow> shard \<Rightarrow> ('e, bytes) res" where
  "reduce_row g k sl known s =
     rbind (rmap (\<lambda>pos. at_idx (coeffs s) pos) (unknown_positions known k)) (\<lambda>cs.
     rbind (rmap (\<lambda>j. reduce_byte g k known s j) [0..<sl]) (\<lambda>ps. Inr (cs @ ps)))"

text \<open>\<open>unknown_positions.iter().position(|&p| p == i)\<close>, for an \<open>i\<close> that occurs.\<close>

definition position_of :: "nat \<Rightarrow> nat list \<Rightarrow> nat" where
  "position_of i xs = length (takeWhile (\<lambda>p. p \<noteq> i) xs)"

section \<open>The decoders\<close>

text \<open>Phases 2 to 4, common to \<open>decode_layer\<close> and \<open>decode_layer_with_k\<close>. A successful \<open>gauss\<close> has
  found \<open>n_unknown\<close> pivot rows, so \<open>rows[row_idx]\<close> is in range.\<close>

definition solve_layer :: "gf \<Rightarrow> nat \<Rightarrow> nat \<Rightarrow> bytes option list \<times> shard list \<Rightarrow> ('e, bytes option) res" where
  "solve_layer g k sl st = (case st of (known, rl) \<Rightarrow>
     (let n_known = length (filter (\<lambda>c. c \<noteq> None) known) in
      if n_known = k then Inr (Some (concat (map the known)))
      else let n_unknown = k - n_known in
      if length rl < n_unknown then Inr None
      else let unk = unknown_positions known k in
      rbind (rmap (\<lambda>s. reduce_row g k sl known s) rl) (\<lambda>rows.
        case gauss (gf_mul g) (gf_inv g) [0..<n_unknown] rows 0 of
          None \<Rightarrow> Inr None
        | Some rows \<Rightarrow> Inr (Some (concat (map (\<lambda>i. case known ! i of
              Some chk \<Rightarrow> chk
            | None \<Rightarrow> drop n_unknown (rows ! position_of i unk)) [0..<k]))))))"

definition decode_layer :: "gf \<Rightarrow> shard list \<Rightarrow> nat \<Rightarrow> ('e, bytes option) res" where
  "decode_layer g shards sl =
     (if length shards < K then Inr None
      else rbind (rfold split_step (replicate K None, []) shards) (\<lambda>st. solve_layer g K sl st))"

definition decode_layer_with_k :: "gf \<Rightarrow> shard list \<Rightarrow> nat \<Rightarrow> nat \<Rightarrow> ('e, bytes option) res" where
  "decode_layer_with_k g shards k sl =
     (if length shards < k then Inr None
      else solve_layer g k sl (fold (split_step_k k) shards (replicate k None, [])))"

text \<open>Reading off the chunks of \<open>decode_layer_with_holes\<close>, one unknown position at a time.\<close>

definition fill_hole ::
  "nat \<Rightarrow> bytes list \<Rightarrow> nat option list \<Rightarrow> nat list \<Rightarrow> nat \<Rightarrow> bytes option list \<Rightarrow> bytes option list" where
  "fill_hole n_unknown rows piv unk col result =
     (case piv ! col of
        None \<Rightarrow> result
      | Some p \<Rightarrow> if list_all (\<lambda>c. c = col \<or> rows ! p ! c = 0) [0..<n_unknown]
                  then result[unk ! col := Some (drop n_unknown (rows ! p))] else result)"

definition decode_layer_with_holes :: "gf \<Rightarrow> shard list \<Rightarrow> nat \<Rightarrow> ('e, bytes option list) res" where
  "decode_layer_with_holes g shards sl =
     rbind (rfold split_step (replicate K None, []) shards) (\<lambda>(known, rl).
       let unk = unknown_positions known K; n_unknown = length unk in
       if n_unknown = 0 \<or> rl = [] then Inr known
       else rbind (rmap (\<lambda>s. reduce_row g K sl known s) rl) (\<lambda>rows.
         let (rows, piv) =
               gauss_holes (gf_mul g) (gf_inv g) [0..<n_unknown] rows 0 (replicate n_unknown None)
         in Inr (fold (fill_hole n_unknown rows piv unk) [0..<n_unknown] known)))"

section \<open>What the split preserves\<close>

text \<open>\<open>split_ok k sl X ss st\<close>: under the source \<open>X\<close>, the shards \<open>ss\<close> say the same as the split
  state \<open>st\<close> does.\<close>

definition split_ok :: "nat \<Rightarrow> nat \<Rightarrow> bytes list \<Rightarrow> shard list \<Rightarrow> bytes option list \<times> shard list \<Rightarrow> bool" where
  "split_ok k sl X ss st \<longleftrightarrow> (case st of (known, rl) \<Rightarrow>
     length known = k \<and> set rl \<subseteq> set ss \<and>
     length (filter (\<lambda>c. c \<noteq> None) known) + length rl \<le> length ss \<and>
     (\<forall>i < k. \<forall>c. known ! i = Some c \<longrightarrow> X ! i = c) \<and>
     (\<forall>Z. source_ok k sl Z \<longrightarrow>
        (\<forall>i < k. \<forall>c. known ! i = Some c \<longrightarrow> Z ! i = c) \<longrightarrow>
        (\<forall>s \<in> set rl. consistent (gf_mul gf_new) sl Z s) \<longrightarrow>
        (\<forall>s \<in> set ss. consistent (gf_mul gf_new) sl Z s)) \<and>
     (\<forall>Z. source_ok k sl Z \<longrightarrow> (\<forall>s \<in> set ss. consistent (gf_mul gf_new) sl Z s) \<longrightarrow>
        (\<forall>i < k. \<forall>c. known ! i = Some c \<longrightarrow> Z ! i = c)))"

lemma scan_basis_identity:
  "identity_from i cs idx = (case scan_basis i cs idx of (r, bad) \<Rightarrow> if bad then None else r)"
  by (induction cs arbitrary: i idx) auto

lemma consistent_unit:
  assumes "source_ok k sl Z" and "i < k"
  shows "consistent (gf_mul gf_new) sl Z \<lparr>coeffs = unit_vec k i, payload = c\<rparr> \<longleftrightarrow> c = Z ! i"
proof -
  have Z: "length Z = k" "length (Z ! i) = sl" using assms by (auto simp: source_ok_def)
  have "combination (gf_mul gf_new) (unit_vec k i) Z j = Z ! i ! j" for j
    unfolding combination_def using assms(2) Z
    by (intro gf.xsum_unit) (auto simp: nth_unit_vec)
  with Z show ?thesis by (auto simp: consistent_def list_eq_iff_nth_eq)
qed

lemma consistent_identity:
  assumes "source_ok k sl Z" and "identity_index (coeffs s) = Some i" and "length (coeffs s) = k"
  shows "consistent (gf_mul gf_new) sl Z s \<longleftrightarrow> payload s = Z ! i" and "i < k"
proof -
  from assms(2,3) show "i < k" by (simp add: identity_index_Some)
  moreover have "s = \<lparr>coeffs = unit_vec k i, payload = payload s\<rparr>"
    using assms(2,3) by (simp add: identity_index_Some)
  ultimately show "consistent (gf_mul gf_new) sl Z s \<longleftrightarrow> payload s = Z ! i"
    using consistent_unit[OF assms(1)] by metis
qed

lemma filter_update_None:
  assumes "i < length known" and "known ! i = None"
  shows "length (filter (\<lambda>c. c \<noteq> None) (known[i := Some x])) = Suc (length (filter (\<lambda>c. c \<noteq> None) known))"
proof -
  have k: "known = take i known @ None # drop (Suc i) known"
    using assms by (metis id_take_nth_drop)
  then have "known[i := Some x] = take i known @ Some x # drop (Suc i) known"
    using assms(1) by (metis upd_conv_take_nth_drop)
  then show ?thesis by (subst (2) k) simp
qed

lemma split_ok_fwd:
  "split_ok k sl X ss (known, rl) \<Longrightarrow> source_ok k sl Z \<Longrightarrow>
     \<forall>i < k. \<forall>c. known ! i = Some c \<longrightarrow> Z ! i = c \<Longrightarrow>
     \<forall>s \<in> set rl. consistent (gf_mul gf_new) sl Z s \<Longrightarrow> \<forall>s \<in> set ss. consistent (gf_mul gf_new) sl Z s"
  by (simp add: split_ok_def)

lemma split_ok_bwd:
  "split_ok k sl X ss (known, rl) \<Longrightarrow> source_ok k sl Z \<Longrightarrow>
     \<forall>s \<in> set ss. consistent (gf_mul gf_new) sl Z s \<Longrightarrow> \<forall>i < k. \<forall>c. known ! i = Some c \<longrightarrow> Z ! i = c"
  by (simp add: split_ok_def)

lemma split_push:
  assumes "split_ok k sl X ss (known, rl)"
  shows "split_ok k sl X (ss @ [s]) (known, rl @ [s])"
  using assms by (simp add: split_ok_def) blast

lemma split_set:
  assumes ok: "split_ok k sl X ss (known, rl)" and X: "source_ok k sl X"
    and s: "consistent (gf_mul gf_new) sl X s" and i: "identity_index (coeffs s) = Some i"
    and new: "known ! i = None"
  shows "split_ok k sl X (ss @ [s]) (known[i := Some (payload s)], rl)" and "i < length known"
proof -
  have c: "length (coeffs s) = k" using s X by (simp add: consistent_def source_ok_def)
  note ci = consistent_identity[OF _ i c]
  have len: "length known = k" using ok by (simp add: split_ok_def)
  have ik: "i < k" using ci(2)[OF X] .
  then show "i < length known" using len by simp
  have nth: "known[i := Some (payload s)] ! m = (if m = i then Some (payload s) else known ! m)" for m
    using ik len by (simp add: nth_list_update)
  have cnt: "length (filter (\<lambda>c. c \<noteq> None) (known[i := Some (payload s)])) =
      Suc (length (filter (\<lambda>c. c \<noteq> None) known))"
    using filter_update_None[of i known "payload s"] ik len new by simp
  have mt: "\<forall>m < k. \<forall>c. known[i := Some (payload s)] ! m = Some c \<longrightarrow> X ! m = c"
  proof (intro allI impI)
    fix m c
    assume "m < k" and c: "known[i := Some (payload s)] ! m = Some c"
    with ok s ci(1)[OF X] show "X ! m = c"
      using c[unfolded nth] by (auto simp: split_ok_def split: if_splits)
  qed
  have fwd: "\<forall>s' \<in> set (ss @ [s]). consistent (gf_mul gf_new) sl Z s'"
    if Z: "source_ok k sl Z" and m: "\<forall>m < k. \<forall>c. known[i := Some (payload s)] ! m = Some c \<longrightarrow> Z ! m = c"
      and r: "\<forall>s \<in> set rl. consistent (gf_mul gf_new) sl Z s" for Z
  proof -
    have "known ! m = Some c \<longrightarrow> Z ! m = c" if "m < k" for m c
      using m that new by (auto simp: nth split: if_splits)
    moreover have "consistent (gf_mul gf_new) sl Z s" using m ik ci(1)[OF Z] by (auto simp: nth)
    ultimately show ?thesis using ok Z r by (auto simp: split_ok_def)
  qed
  have bwd: "\<forall>m < k. \<forall>c. known[i := Some (payload s)] ! m = Some c \<longrightarrow> Z ! m = c"
    if "source_ok k sl Z" "\<forall>s' \<in> set (ss @ [s]). consistent (gf_mul gf_new) sl Z s'" for Z
  proof (intro allI impI)
    fix m c
    assume m: "m < k" and c: "known[i := Some (payload s)] ! m = Some c"
    have "payload s = Z ! i" using ci(1)[OF that(1)] that(2) by simp
    moreover have "\<forall>i < k. \<forall>c. known ! i = Some c \<longrightarrow> Z ! i = c"
      by (rule split_ok_bwd[OF ok that(1)]) (use that(2) in simp)
    ultimately show "Z ! m = c" using m c[unfolded nth] by (cases "m = i") simp_all
  qed
  have base: "set rl \<subseteq> set (ss @ [s])"
    "length (filter (\<lambda>c. c \<noteq> None) known) + length rl \<le> length ss"
    using ok by (auto simp: split_ok_def)
  show "split_ok k sl X (ss @ [s]) (known[i := Some (payload s)], rl)"
    unfolding split_ok_def prod.case
  proof (intro conjI)
    let ?known = "known[i := Some (payload s)]"
    show "length ?known = k" using len by simp
    show "set rl \<subseteq> set (ss @ [s])" by (rule base(1))
    show "length (filter (\<lambda>c. c \<noteq> None) ?known) + length rl \<le> length (ss @ [s])"
      unfolding cnt using base(2) by simp
    show "\<forall>m < k. \<forall>c. ?known ! m = Some c \<longrightarrow> X ! m = c" by (rule mt)
    show "\<forall>Z. source_ok k sl Z \<longrightarrow> (\<forall>m < k. \<forall>c. ?known ! m = Some c \<longrightarrow> Z ! m = c) \<longrightarrow>
        (\<forall>s \<in> set rl. consistent (gf_mul gf_new) sl Z s) \<longrightarrow>
        (\<forall>s \<in> set (ss @ [s]). consistent (gf_mul gf_new) sl Z s)"
      using fwd by blast
    show "\<forall>Z. source_ok k sl Z \<longrightarrow> (\<forall>s \<in> set (ss @ [s]). consistent (gf_mul gf_new) sl Z s) \<longrightarrow>
        (\<forall>m < k. \<forall>c. ?known ! m = Some c \<longrightarrow> Z ! m = c)"
      using bwd by blast
  qed
qed

lemma split_dup:
  assumes ok: "split_ok k sl X ss (known, rl)" and X: "source_ok k sl X"
    and s: "consistent (gf_mul gf_new) sl X s" and i: "identity_index (coeffs s) = Some i"
    and old: "known ! i = Some c"
  shows "split_ok k sl X (ss @ [s]) (known, rl)"
proof -
  have l: "length (coeffs s) = k" using s X by (simp add: consistent_def source_ok_def)
  note ci = consistent_identity[OF _ i l]
  have ik: "i < k" using ci(2)[OF X] .
  have "c = payload s" using ok old ik s ci(1)[OF X] by (auto simp: split_ok_def)
  then have "consistent (gf_mul gf_new) sl Z s"
    if "source_ok k sl Z" "\<forall>m < k. \<forall>c. known ! m = Some c \<longrightarrow> Z ! m = c" for Z
    using that old ik ci(1) by auto
  with ok show ?thesis by (auto simp: split_ok_def)
qed

lemma split_start: "split_ok k sl X [] (replicate k None, [])"
  by (auto simp: split_ok_def)

lemma split_layer:
  assumes X: "source_ok K sl X" and "\<forall>s \<in> set ss. consistent (gf_mul gf_new) sl X s"
    and "split_ok K sl X ss0 st"
  shows "\<exists>st'. (rfold split_step st ss :: ('e, _) res) = Inr st' \<and> split_ok K sl X (ss0 @ ss) st'"
  using assms(2,3)
proof (induction ss arbitrary: ss0 st)
  case Nil
  then show ?case by simp
next
  case (Cons s ss)
  obtain known rl where st: "st = (known, rl)" by (cases st)
  note ok = Cons.prems(2)[unfolded st]
  have s: "consistent (gf_mul gf_new) sl X s" using Cons.prems(1) by simp
  have "\<exists>st'. (split_step st s :: ('e, _) res) = Inr st' \<and> split_ok K sl X (ss0 @ [s]) st'"
  proof (cases "identity_index (coeffs s)")
    case None
    with split_push[OF ok] show ?thesis by (simp add: split_step_def st)
  next
    case (Some i)
    have "length known = K" using ok by (simp add: split_ok_def)
    moreover have "i < K"
      using s X consistent_identity(2)[OF X Some] by (simp add: consistent_def source_ok_def)
    ultimately show ?thesis
      using Some split_set(1)[OF ok X s Some] split_dup[OF ok X s Some]
      by (cases "known ! i") (auto simp: split_step_def st)
  qed
  then obtain st' where st': "(split_step st s :: ('e, _) res) = Inr st'" "split_ok K sl X (ss0 @ [s]) st'" by blast
  from Cons.IH[OF _ st'(2)] Cons.prems(1) st'(1) show ?case by simp
qed

lemma split_layer_k:
  assumes X: "source_ok k sl X" and "\<forall>s \<in> set ss. consistent (gf_mul gf_new) sl X s"
    and "split_ok k sl X ss0 st"
  shows "split_ok k sl X (ss0 @ ss) (fold (split_step_k k) ss st)"
  using assms(2,3)
proof (induction ss arbitrary: ss0 st)
  case Nil
  then show ?case by simp
next
  case (Cons s ss)
  obtain known rl where st: "st = (known, rl)" by (cases st)
  note ok = Cons.prems(2)[unfolded st]
  have s: "consistent (gf_mul gf_new) sl X s" using Cons.prems(1) by simp
  obtain r bad where sc: "scan_basis 0 (coeffs s) None = (r, bad)" by force
  have "split_ok k sl X (ss0 @ [s]) (split_step_k k s st)"
  proof (cases "\<not> bad \<and> (\<exists>i. r = Some i \<and> i < k \<and> known ! i = None)")
    case True
    then obtain i where i: "r = Some i" "\<not> bad" "i < k" "known ! i = None" by blast
    with sc have "identity_index (coeffs s) = Some i"
      by (simp add: identity_index_def scan_basis_identity)
    with split_set(1)[OF ok X s _ i(4)] sc i show ?thesis by (simp add: split_step_k_def st)
  next
    case False
    with sc have "split_step_k k s st = (known, rl @ [s])"
      by (auto simp: split_step_k_def st split: option.split bool.split)
    with split_push[OF ok] show ?thesis by simp
  qed
  from Cons.IH[OF _ this] Cons.prems(1) show ?case by simp
qed

section \<open>The reduced system says the same as the shards\<close>

lemma xsum_filter: "xsum f (filter P xs) = xsum (\<lambda>x. if P x then f x else 0) xs"
  by (induction xs) auto

lemma reduce_byte_ok:
  assumes "length (coeffs s) = k" and "j < length (payload s)" and "length known = k"
    and "\<forall>i < k. \<forall>c. known ! i = Some c \<longrightarrow> j < length c"
  shows "reduce_byte g k known s j = Inr (payload s ! j XOR
    xsum (\<lambda>i. gf_mul g (coeffs s ! i) (the (known ! i) ! j)) (filter (\<lambda>i. known ! i \<noteq> None) [0..<k]))"
proof -
  have "rfold (\<lambda>byte i. case known ! i of
            None \<Rightarrow> Inr byte
          | Some chk \<Rightarrow> rbind (at_idx (coeffs s) i) (\<lambda>c.
              if c \<noteq> 0 then rbind (at_idx chk j) (\<lambda>x. Inr (byte XOR gf_mul g c x)) else Inr byte))
         b xs =
    Inr (b XOR xsum (\<lambda>i. gf_mul g (coeffs s ! i) (the (known ! i) ! j)) (filter (\<lambda>i. known ! i \<noteq> None) xs))"
    if "set xs \<subseteq> {..<k}" for b xs
    using that
  proof (induction xs arbitrary: b)
    case Nil
    then show ?case by simp
  next
    case (Cons i xs)
    show ?case
    proof (cases "known ! i")
      case None
      with Cons show ?thesis by simp
    next
      case (Some c)
      then have "j < length c" using assms(4) Cons.prems by auto
      with Some Cons assms(1) show ?thesis
        by (cases "coeffs s ! i = 0") (simp_all add: xor.assoc gf_mul_def)
    qed
  qed
  from this[of "[0..<k]"] assms(2) show ?thesis
    unfolding reduce_byte_def by (simp add: lessThan_atLeast0)
qed

lemma reduce_row_ok:
  assumes X: "source_ok k sl X" and s: "consistent (gf_mul gf_new) sl X s" and "length known = k"
    and m: "\<forall>i < k. \<forall>c. known ! i = Some c \<longrightarrow> X ! i = c"
  shows "\<exists>row. (reduce_row gf_new k sl known s :: ('e, _) res) = Inr row \<and>
    length row = length (unknown_positions known k) + sl \<and>
    (\<forall>Z. source_ok k sl Z \<longrightarrow> (\<forall>i < k. \<forall>c. known ! i = Some c \<longrightarrow> Z ! i = c) \<longrightarrow>
       (consistent (gf_mul gf_new) sl Z s \<longleftrightarrow>
        (\<forall>j < sl. gval (gf_mul gf_new) (length (unknown_positions known k))
           (\<lambda>c j. Z ! (unknown_positions known k ! c) ! j) j row = 0)))"
proof -
  let ?unk = "unknown_positions known k" and ?m = "gf_mul gf_new"
  let ?known = "filter (\<lambda>i. known ! i \<noteq> None) [0..<k]"
  define ps where "ps = map (\<lambda>j. payload s ! j XOR
    xsum (\<lambda>i. ?m (coeffs s ! i) (the (known ! i) ! j)) ?known) [0..<sl]"
  have c: "length (coeffs s) = k" and p: "length (payload s) = sl"
    using s X by (auto simp: consistent_def source_ok_def)
  have bound: "j < length d" if "known ! i = Some d" "i < k" "j < sl" for i d j
    using that m X by (metis nth_mem source_ok_def)
  have "(rmap (\<lambda>pos. at_idx (coeffs s) pos) ?unk :: ('e, _) res) = Inr (map (\<lambda>pos. coeffs s ! pos) ?unk)"
    using c by (intro rmap_Inr) (auto simp: unknown_positions_def)
  moreover have "(rmap (\<lambda>j. reduce_byte gf_new k known s j) [0..<sl] :: ('e, _) res) = Inr ps"
    unfolding ps_def using c p assms(3) bound
    by (intro rmap_Inr reduce_byte_ok) auto
  ultimately have row: "(reduce_row gf_new k sl known s :: ('e, _) res) = Inr (map (\<lambda>pos. coeffs s ! pos) ?unk @ ps)"
    by (simp add: reduce_row_def)
  have "consistent ?m sl Z s \<longleftrightarrow> (\<forall>j < sl. gval ?m (length ?unk) (\<lambda>c j. Z ! (?unk ! c) ! j) j
      (map (\<lambda>pos. coeffs s ! pos) ?unk @ ps) = 0)"
    if Z: "source_ok k sl Z" and mZ: "\<forall>i < k. \<forall>c. known ! i = Some c \<longrightarrow> Z ! i = c" for Z
  proof -
    have "gval ?m (length ?unk) (\<lambda>c j. Z ! (?unk ! c) ! j) j (map (\<lambda>pos. coeffs s ! pos) ?unk @ ps) =
        payload s ! j XOR combination ?m (coeffs s) Z j" if j: "j < sl" for j
    proof -
      let ?t = "\<lambda>i. ?m (coeffs s ! i) (Z ! i ! j)"
      have "xsum (\<lambda>i. ?m (coeffs s ! i) (the (known ! i) ! j)) ?known = xsum ?t ?known"
        using mZ by (intro xsum_cong) auto
      moreover have "xsum (\<lambda>c. ?m ((map (\<lambda>pos. coeffs s ! pos) ?unk @ ps) ! c) (Z ! (?unk ! c) ! j))
          [0..<length ?unk] = xsum (\<lambda>c. ?t (?unk ! c)) [0..<length ?unk]"
        by (intro xsum_cong) (simp add: nth_append)
      moreover have "xsum (\<lambda>c. ?t (?unk ! c)) [0..<length ?unk] = xsum ?t ?unk"
        using xsum_map[of ?t "(!) ?unk" "[0..<length ?unk]"] by (simp add: map_nth)
      moreover have "combination ?m (coeffs s) Z j = xsum ?t ?known XOR xsum ?t ?unk"
        using xsum_partition[of ?t "[0..<k]" "\<lambda>i. known ! i \<noteq> None"] Z
        by (simp add: combination_def source_ok_def unknown_positions_def)
      ultimately show ?thesis using j by (simp add: gval_def ps_def nth_append xor.assoc)
    qed
    with c p Z show ?thesis by (simp add: consistent_def source_ok_def xor_eq_0_word)
  qed
  with row show ?thesis by (auto simp: ps_def)
qed

lemma xor_same_iff: "a XOR b = a \<longleftrightarrow> b = (0 :: 'l::len word)"
proof
  assume "a XOR b = a"
  then have "a XOR (a XOR b) = 0" by simp
  then show "b = 0" by (simp flip: xor.assoc)
qed simp

lemma position_of_in: "i \<in> set xs \<Longrightarrow> position_of i xs < length xs \<and> xs ! position_of i xs = i"
  unfolding position_of_def
proof (induction xs)
  case (Cons x xs)
  then show ?case by (cases "x = i") auto
qed simp

lemma position_of_nth: "distinct xs \<Longrightarrow> c < length xs \<Longrightarrow> position_of (xs ! c) xs = c"
  using position_of_in[of "xs ! c" xs] by (metis nth_eq_iff_index_eq nth_mem)

lemma unknown_positions_props:
  "distinct (unknown_positions known k)"
  "i \<in> set (unknown_positions known k) \<longleftrightarrow> i < k \<and> known ! i = None"
  by (auto simp: unknown_positions_def)

lemma length_known_unknown:
  "length known = k \<Longrightarrow> length (filter (\<lambda>c. c \<noteq> None) known) + length (unknown_positions known k) = k"
proof -
  assume k: "length known = k"
  have "length (filter (\<lambda>c. c \<noteq> None) known) = length (filter (\<lambda>i. known ! i \<noteq> None) [0..<k])"
    using k by (subst (1) map_nth[symmetric]) (simp add: filter_map comp_def del: map_nth)
  then show ?thesis
    using sum_length_filter_compl[of "\<lambda>i. known ! i = None" "[0..<k]"]
    by (simp add: unknown_positions_def)
qed

lemma reduce_rows:
  assumes X: "source_ok k sl X" and rl: "\<forall>s \<in> set rl. consistent (gf_mul gf_new) sl X s"
    and known: "length known = k" "\<forall>i < k. \<forall>c. known ! i = Some c \<longrightarrow> X ! i = c"
  shows "\<exists>rows. (rmap (\<lambda>s. reduce_row gf_new k sl known s) rl :: ('e, _) res) = Inr rows \<and>
    length rows = length rl \<and> rect (length (unknown_positions known k) + sl) rows \<and>
    (\<forall>Z. source_ok k sl Z \<longrightarrow> (\<forall>i < k. \<forall>c. known ! i = Some c \<longrightarrow> Z ! i = c) \<longrightarrow>
       ((\<forall>s \<in> set rl. consistent (gf_mul gf_new) sl Z s) \<longleftrightarrow>
        gsat (gf_mul gf_new) (length (unknown_positions known k)) sl
          (\<lambda>c j. Z ! (unknown_positions known k ! c) ! j) rows))"
  using rl
proof (induction rl)
  case Nil
  then show ?case by (simp add: rect_def gsat_def)
next
  case (Cons s rl)
  then obtain rows where rows: "(rmap (\<lambda>s. reduce_row gf_new k sl known s) rl :: ('e, _) res) = Inr rows"
    "length rows = length rl" "rect (length (unknown_positions known k) + sl) rows"
    "\<forall>Z. source_ok k sl Z \<longrightarrow> (\<forall>i < k. \<forall>c. known ! i = Some c \<longrightarrow> Z ! i = c) \<longrightarrow>
       ((\<forall>s \<in> set rl. consistent (gf_mul gf_new) sl Z s) \<longleftrightarrow>
        gsat (gf_mul gf_new) (length (unknown_positions known k)) sl
          (\<lambda>c j. Z ! (unknown_positions known k ! c) ! j) rows)" by auto
  have s: "consistent (gf_mul gf_new) sl X s" using Cons.prems by simp
  obtain row where row: "(reduce_row gf_new k sl known s :: ('e, _) res) = Inr row"
    "length row = length (unknown_positions known k) + sl"
    "\<forall>Z. source_ok k sl Z \<longrightarrow> (\<forall>i < k. \<forall>c. known ! i = Some c \<longrightarrow> Z ! i = c) \<longrightarrow>
       (consistent (gf_mul gf_new) sl Z s \<longleftrightarrow>
        (\<forall>j < sl. gval (gf_mul gf_new) (length (unknown_positions known k))
           (\<lambda>c j. Z ! (unknown_positions known k ! c) ! j) j row = 0))"
    using reduce_row_ok[OF X s known] by blast
  show ?case
  proof (intro exI[of _ "row # rows"] conjI allI impI)
    fix Z
    assume "source_ok k sl Z" "\<forall>i < k. \<forall>c. known ! i = Some c \<longrightarrow> Z ! i = c"
    with rows(4) row(3) show "(\<forall>s \<in> set (s # rl). consistent (gf_mul gf_new) sl Z s) \<longleftrightarrow>
        gsat (gf_mul gf_new) (length (unknown_positions known k)) sl
          (\<lambda>c j. Z ! (unknown_positions known k ! c) ! j) (row # rows)"
      by (simp add: gsat_def All_less_Suc2)
  qed (use rows row in \<open>auto simp: rect_def\<close>)
qed

text \<open>Moving the unknown chunks of a source by a constant each.\<close>

definition shift_unknown :: "bytes option list \<Rightarrow> nat \<Rightarrow> (nat \<Rightarrow> u8) \<Rightarrow> bytes list \<Rightarrow> bytes list" where
  "shift_unknown known k z X = map (\<lambda>i. if known ! i = None
     then map (\<lambda>x. x XOR z (position_of i (unknown_positions known k))) (X ! i) else X ! i) [0..<k]"

lemma shift_unknown_props:
  assumes X: "source_ok k sl X"
  shows "source_ok k sl (shift_unknown known k z X)"
    and "i < k \<Longrightarrow> known ! i = Some chk \<Longrightarrow> shift_unknown known k z X ! i = X ! i"
    and "c < length (unknown_positions known k) \<Longrightarrow> j < sl \<Longrightarrow>
      shift_unknown known k z X ! (unknown_positions known k ! c) ! j =
      X ! (unknown_positions known k ! c) ! j XOR z c"
proof -
  have len: "length (X ! i) = sl" if "i < k" for i
    using that X by (auto simp: source_ok_def)
  show "source_ok k sl (shift_unknown known k z X)"
    using len by (auto simp: source_ok_def shift_unknown_def)
  show "i < k \<Longrightarrow> known ! i = Some chk \<Longrightarrow> shift_unknown known k z X ! i = X ! i"
    by (simp add: shift_unknown_def)
  assume c: "c < length (unknown_positions known k)" and j: "j < sl"
  let ?u = "unknown_positions known k"
  have "?u ! c < k" "known ! (?u ! c) = None"
    using nth_mem[OF c] unknown_positions_props(2) by auto
  with c j len show "shift_unknown known k z X ! (?u ! c) ! j = X ! (?u ! c) ! j XOR z c"
    by (simp add: shift_unknown_def position_of_nth unknown_positions_props(1))
qed

text \<open>The core of all three decoders: after the elimination the clean pivot rows hold the chunks,
  and every other unknown chunk is really undetermined.\<close>

lemma eliminate_exact:
  assumes X: "source_ok k sl X" and rl: "\<forall>s \<in> set rl. consistent (gf_mul gf_new) sl X s"
    and known: "length known = k" "\<forall>i < k. \<forall>c. known ! i = Some c \<longrightarrow> X ! i = c"
    and unk: "unk = unknown_positions known k" and n: "n = length unk" and "0 < sl"
    and rows: "rmap (\<lambda>s. reduce_row gf_new k sl known s) rl = (Inr rows :: ('e, _) res)"
    and g: "gauss_holes (gf_mul gf_new) (gf_inv gf_new) [0..<n] rows 0 (replicate n None) = (rows', piv)"
    and c: "c < n"
  shows "piv ! c = Some p \<and> clean n (rows' ! p) c \<Longrightarrow> drop n (rows' ! p) = X ! (unk ! c)"
    and "\<forall>p. piv ! c = Some p \<longrightarrow> \<not> clean n (rows' ! p) c \<Longrightarrow>
      \<exists>Z. source_ok k sl Z \<and> (\<forall>i < k. \<forall>c. known ! i = Some c \<longrightarrow> Z ! i = c) \<and>
        (\<forall>s \<in> set rl. consistent (gf_mul gf_new) sl Z s) \<and> Z ! (unk ! c) \<noteq> X ! (unk ! c)"
    and "length rl < n \<Longrightarrow> \<exists>c < n. piv ! c = None"
proof -
  let ?m = "gf_mul gf_new"
  let ?Y = "\<lambda>Z c j. Z ! (unk ! c) ! j"
  obtain rs where "(rmap (\<lambda>s. reduce_row gf_new k sl known s) rl :: ('e, _) res) = Inr rs"
    "length rs = length rl" "rect (n + sl) rs"
    "\<forall>Z. source_ok k sl Z \<longrightarrow> (\<forall>i < k. \<forall>c. known ! i = Some c \<longrightarrow> Z ! i = c) \<longrightarrow>
       ((\<forall>s \<in> set rl. consistent ?m sl Z s) \<longleftrightarrow> gsat ?m n sl (?Y Z) rs)"
    using reduce_rows[OF X rl known] unfolding unk n by blast
  with rows have R: "length rows = length rl" "rect (n + sl) rows"
    "\<And>Z. source_ok k sl Z \<Longrightarrow> \<forall>i < k. \<forall>c. known ! i = Some c \<longrightarrow> Z ! i = c \<Longrightarrow>
       (\<forall>s \<in> set rl. consistent ?m sl Z s) \<longleftrightarrow> gsat ?m n sl (?Y Z) rows" by auto
  from gf.gauss_holes_correct[OF g R(2) rref_start] obtain pr where
    R': "rect (n + sl) rows'" "length rows' = length rows" "rref n n rows' pr piv"
      "\<And>Y. gsat ?m n sl Y rows' \<longleftrightarrow> gsat ?m n sl Y rows" by auto
  have sX: "gsat ?m n sl (?Y X) rows'" using R(3)[OF X known(2)] R'(4) rl by simp
  have cu: "unk ! c < k" "length (X ! (unk ! c)) = sl"
  proof -
    have "unk ! c \<in> set unk" using c n by simp
    then show "unk ! c < k" using unk unknown_positions_props(2) by simp
    then show "length (X ! (unk ! c)) = sl" using X by (auto simp: source_ok_def)
  qed
  show "drop n (rows' ! p) = X ! (unk ! c)" if p: "piv ! c = Some p \<and> clean n (rows' ! p) c"
  proof (rule nth_equalityI)
    have "p < length rows'" using rref_piv[OF R'(3) c] p by blast
    then have l: "length (rows' ! p) = n + sl" by (rule rect_nth[OF R'(1)])
    with cu show "length (drop n (rows' ! p)) = length (X ! (unk ! c))" by simp
    fix j
    assume "j < length (drop n (rows' ! p))"
    with l have j: "j < sl" by simp
    with gf.rref_determined[OF R'(3) c _ _ sX j] p l
    show "drop n (rows' ! p) ! j = X ! (unk ! c) ! j" by simp
  qed
  show "\<exists>Z. source_ok k sl Z \<and> (\<forall>i < k. \<forall>c. known ! i = Some c \<longrightarrow> Z ! i = c) \<and>
      (\<forall>s \<in> set rl. consistent ?m sl Z s) \<and> Z ! (unk ! c) \<noteq> X ! (unk ! c)"
    if nc: "\<forall>p. piv ! c = Some p \<longrightarrow> \<not> clean n (rows' ! p) c"
  proof -
    from gf.rref_undetermined[OF R'(3) c nc] obtain z where
      z: "z c \<noteq> 0" "\<And>r. r < length rows' \<Longrightarrow> xsum (\<lambda>d. ?m (rows' ! r ! d) (z d)) [0..<n] = 0" by blast
    let ?Z = "shift_unknown known k z X"
    note S = shift_unknown_props[OF X, where known = known and z = z]
    have mZ: "\<forall>i < k. \<forall>c. known ! i = Some c \<longrightarrow> ?Z ! i = c" using known(2) S(2) by auto
    have "gval ?m n (?Y ?Z) j (rows' ! r) = gval ?m n (?Y X) j (rows' ! r)"
      if r: "r < length rows'" and j: "j < sl" for r j
    proof -
      have "xsum (\<lambda>d. ?m (rows' ! r ! d) (?Y ?Z d j)) [0..<n] =
          xsum (\<lambda>d. ?m (rows' ! r ! d) (?Y X d j) XOR ?m (rows' ! r ! d) (z d)) [0..<n]"
        using S(3) j by (intro xsum_cong) (auto simp: gf.mul_xor unk n)
      with z(2)[OF r] show ?thesis by (simp add: gval_def xsum_xor)
    qed
    with sX have "gsat ?m n sl (?Y ?Z) rows'" by (simp add: gsat_def)
    then have "\<forall>s \<in> set rl. consistent ?m sl ?Z s" using R(3)[OF S(1) mZ] R'(4) by simp
    moreover have "?Z ! (unk ! c) ! 0 = X ! (unk ! c) ! 0 XOR z c"
      using S(3)[of c 0] c \<open>0 < sl\<close> unfolding unk n by blast
    with z(1) have "?Z ! (unk ! c) \<noteq> X ! (unk ! c)" by (metis xor_same_iff)
    ultimately show ?thesis using S(1) mZ by (intro exI[of _ ?Z] conjI)
  qed
  show "length rl < n \<Longrightarrow> \<exists>c < n. piv ! c = None"
    using rref_pigeonhole[OF R'(3)] R(1) R'(2) by simp
qed

section \<open>The decoders are exact\<close>

text \<open>\<open>explains k sl ss Z\<close>: the chunks \<open>Z\<close> could have produced all of the shards.\<close>

definition explains :: "nat \<Rightarrow> nat \<Rightarrow> shard list \<Rightarrow> bytes list \<Rightarrow> bool" where
  "explains k sl ss Z \<longleftrightarrow> source_ok k sl Z \<and> (\<forall>s \<in> set ss. consistent (gf_mul gf_new) sl Z s)"

lemma explains_split:
  assumes "split_ok k sl X ss (known, rl)" and "source_ok k sl Z"
    and "\<forall>i < k. \<forall>c. known ! i = Some c \<longrightarrow> Z ! i = c"
    and "\<forall>s \<in> set rl. consistent (gf_mul gf_new) sl Z s"
  shows "explains k sl ss Z"
  using split_ok_fwd[OF assms] assms(2) by (simp add: explains_def)

lemma split_okD:
  assumes "split_ok k sl X ss (known, rl)" and "explains k sl ss X"
  shows "length known = k" and "\<forall>i < k. \<forall>c. known ! i = Some c \<longrightarrow> X ! i = c"
    and "source_ok k sl X" and "\<forall>s \<in> set rl. consistent (gf_mul gf_new) sl X s"
    and "length (filter (\<lambda>c. c \<noteq> None) known) + length rl \<le> length ss"
  using assms by (auto simp: split_ok_def explains_def)

lemma explains_rl:
  assumes "split_ok k sl X ss (known, rl)" and "explains k sl ss Z"
  shows "source_ok k sl Z" and "\<forall>s \<in> set rl. consistent (gf_mul gf_new) sl Z s"
  using assms by (auto simp: explains_def split_ok_def)

lemma short_undetermined:
  assumes ok: "split_ok k sl X ss (known, rl)" and X: "explains k sl ss X" and "0 < sl"
    and short: "length rl < length (unknown_positions known k)"
  shows "\<exists>Z. explains k sl ss Z \<and> Z \<noteq> X"
proof -
  note k = split_okD[OF ok X]
  define n where "n = length (unknown_positions known k)"
  obtain rows where rows: "(rmap (\<lambda>s. reduce_row gf_new k sl known s) rl :: (unit, _) res) = Inr rows"
    using reduce_rows[OF k(3) k(4) k(1,2)] by blast
  obtain rows' piv where g:
    "gauss_holes (gf_mul gf_new) (gf_inv gf_new) [0..<n] rows 0 (replicate n None) = (rows', piv)"
    by (metis prod.exhaust)
  note E = eliminate_exact[OF k(3) k(4) k(1,2) refl n_def \<open>0 < sl\<close> rows g]
  have "0 < n" using short unfolding n_def by linarith
  from E(3)[OF this] short obtain c where c: "c < n" "piv ! c = None" by (auto simp: n_def)
  with E(2)[OF c(1)] obtain Z where "source_ok k sl Z" "\<forall>i < k. \<forall>c. known ! i = Some c \<longrightarrow> Z ! i = c"
    "\<forall>s \<in> set rl. consistent (gf_mul gf_new) sl Z s" "Z \<noteq> X" by fastforce
  with explains_split[OF ok] show ?thesis by blast
qed

lemma solve_layer_exact:
  assumes ok: "split_ok k sl X ss (known, rl)" and X: "explains k sl ss X" and "0 < sl"
  shows "solve_layer gf_new k sl (known, rl) =
    (Inr (if \<forall>Z. explains k sl ss Z \<longrightarrow> Z = X then Some (concat X) else None) :: ('e, _) res)"
proof -
  note k = split_okD[OF ok X]
  define unk where "unk = unknown_positions known k"
  define n where "n = length unk"
  let ?nk = "length (filter (\<lambda>c. c \<noteq> None) known)"
  have nk: "?nk + n = k" using length_known_unknown[OF k(1)] by (simp add: n_def unk_def)
  have lenX: "length X = k" using k(3) by (simp add: source_ok_def)
  have bwd: "\<forall>i < k. \<forall>c. known ! i = Some c \<longrightarrow> Z ! i = c" if "explains k sl ss Z" for Z
    using split_ok_bwd[OF ok] that by (auto simp: explains_def)
  have unkD: "known ! i = None \<longleftrightarrow> i \<in> set unk" if "i < k" for i
    using that unknown_positions_props(2) by (simp add: unk_def)
  have eqI: "Z = X" if "explains k sl ss Z" "\<And>c. c < n \<Longrightarrow> Z ! (unk ! c) = X ! (unk ! c)" for Z
  proof (rule nth_equalityI)
    have lz: "length Z = k" using that(1) by (simp add: explains_def source_ok_def)
    then show "length Z = length X" using lenX by simp
    fix i
    assume "i < length Z"
    then have i: "i < k" using lz by simp
    show "Z ! i = X ! i"
    proof (cases "known ! i")
      case None
      then show ?thesis using unkD[OF i] that(2) by (auto simp: in_set_conv_nth n_def)
    next
      case (Some c)
      then show ?thesis using bwd[OF that(1)] k(2) i by auto
    qed
  qed
  consider "n = 0" | "length rl < n" | "0 < n" "n \<le> length rl" by linarith
  then show ?thesis
  proof cases
    case 1
    then have nk': "?nk = k" using nk by simp
    have "map the known = X"
    proof (rule nth_equalityI)
      fix i
      assume "i < length (map the known)"
      then have i: "i < k" using k(1) by simp
      have "unk = []" using 1 n_def by simp
      with unkD[OF i] have "known ! i \<noteq> None" by simp
      with k(2) i k(1) show "map the known ! i = X ! i" by auto
    qed (use k(1) lenX in simp)
    moreover have "\<forall>Z. explains k sl ss Z \<longrightarrow> Z = X" using eqI 1 by blast
    ultimately show ?thesis using nk' by (simp add: solve_layer_def)
  next
    case 2
    then obtain Z where "explains k sl ss Z" "Z \<noteq> X"
      using short_undetermined[OF ok X \<open>0 < sl\<close>] by (auto simp: n_def unk_def)
    then have "\<not> (\<forall>Z. explains k sl ss Z \<longrightarrow> Z = X)" by blast
    moreover have "?nk \<noteq> k" "k - ?nk = n" using 2 nk by auto
    ultimately show ?thesis using 2 by (simp add: solve_layer_def Let_def)
  next
    case 3
    obtain rows where rows: "(rmap (\<lambda>s. reduce_row gf_new k sl known s) rl :: ('e, _) res) = Inr rows"
      using reduce_rows[OF k(3) k(4) k(1,2)] by blast
    obtain rows' piv where g:
      "gauss_holes (gf_mul gf_new) (gf_inv gf_new) [0..<n] rows 0 (replicate n None) = (rows', piv)"
      by (metis prod.exhaust)
    note E = eliminate_exact[OF k(3) k(4) k(1,2) unk_def n_def \<open>0 < sl\<close> rows g]
    have s: "solve_layer gf_new k sl (known, rl) =
      (case gauss (gf_mul gf_new) (gf_inv gf_new) [0..<n] rows 0 of
          None \<Rightarrow> Inr None
        | Some rows \<Rightarrow> (Inr (Some (concat (map (\<lambda>i. case known ! i of
              Some chk \<Rightarrow> chk
            | None \<Rightarrow> drop n (rows ! position_of i unk)) [0..<k]))) :: ('e, _) res))"
    proof -
      have "?nk \<noteq> k" "k - ?nk = n" using 3 nk by auto
      then show ?thesis using 3(2) rows by (simp add: solve_layer_def Let_def unk_def[symmetric])
    qed
    show ?thesis
    proof (cases "gauss (gf_mul gf_new) (gf_inv gf_new) [0..<n] rows 0")
      case None
      from gauss_None[OF None, of "replicate n None"] g obtain c where
        c: "c < n" "piv ! c = None" by auto
      with E(2)[OF c(1)] obtain Z where "source_ok k sl Z" "\<forall>i < k. \<forall>c. known ! i = Some c \<longrightarrow> Z ! i = c"
        "\<forall>s \<in> set rl. consistent (gf_mul gf_new) sl Z s" "Z \<noteq> X" by fastforce
      with explains_split[OF ok] have "\<not> (\<forall>Z. explains k sl ss Z \<longrightarrow> Z = X)" by blast
      with None s show ?thesis by simp
    next
      case (Some rw)
      from gauss_Some[OF Some, of "replicate n None"] g have rw: "rw = rows'" "\<forall>c < n. piv ! c = Some c"
        by auto
      obtain rs where "(rmap (\<lambda>s. reduce_row gf_new k sl known s) rl :: ('e, _) res) = Inr rs"
        "rect (n + sl) rs"
        using reduce_rows[OF k(3) k(4) k(1,2)] unfolding n_def unk_def by blast
      with rows have "rect (n + sl) rows" by simp
      then obtain pr where R: "rref n n rows' pr piv"
        using gf.gauss_holes_correct[OF g _ rref_start] by blast
      have cl: "clean n (rows' ! c) c" if "c < n" for c
      proof -
        have "c < length rows'" using rref_piv[OF R that] rw(2) that by blast
        with rref_unit[OF R _ _ this] rw(2) show ?thesis by (auto simp: clean_def)
      qed
      have chunk: "drop n (rows' ! c) = X ! (unk ! c)" if "c < n" for c
        using E(1)[OF that] rw(2) cl that by blast
      have "map (\<lambda>i. case known ! i of Some chk \<Rightarrow> chk | None \<Rightarrow> drop n (rw ! position_of i unk)) [0..<k] = X"
      proof (rule nth_equalityI)
        fix i
        assume "i < length (map (\<lambda>i. case known ! i of Some chk \<Rightarrow> chk
          | None \<Rightarrow> drop n (rw ! position_of i unk)) [0..<k])"
        then have i: "i < k" by simp
        show "map (\<lambda>i. case known ! i of Some chk \<Rightarrow> chk
          | None \<Rightarrow> drop n (rw ! position_of i unk)) [0..<k] ! i = X ! i"
        proof (cases "known ! i")
          case None
          with unkD[OF i] position_of_in[of i unk] chunk[of "position_of i unk"] i None rw(1)
          show ?thesis by (simp add: n_def)
        next
          case (Some c)
          then show ?thesis using k(2) i by auto
        qed
      qed (use lenX in simp)
      moreover have "\<forall>Z. explains k sl ss Z \<longrightarrow> Z = X"
      proof (intro allI impI)
        fix Z
        assume Z: "explains k sl ss Z"
        have "drop n (rows' ! c) = Z ! (unk ! c)" if "c < n" for c
          using eliminate_exact(1)[OF explains_rl[OF ok Z] k(1) bwd[OF Z] unk_def n_def \<open>0 < sl\<close> rows g that]
            rw(2) cl that by blast
        with chunk eqI[OF Z] show "Z = X" by simp
      qed
      ultimately show ?thesis using s Some by simp
    qed
  qed
qed

text \<open>Reading off the clean pivot rows.\<close>

lemma fill_holes:
  assumes "distinct unk" and "n \<le> length unk" and "\<forall>i \<in> set unk. i < length known"
  shows "length (fold (fill_hole N rows piv unk) [0..<n] known) = length known"
    and "i < length known \<Longrightarrow> i \<notin> set unk \<Longrightarrow> fold (fill_hole N rows piv unk) [0..<n] known ! i = known ! i"
    and "c < length unk \<Longrightarrow> fold (fill_hole N rows piv unk) [0..<n] known ! (unk ! c) =
      (if c < n then (case piv ! c of
         Some p \<Rightarrow> if clean N (rows ! p) c then Some (drop N (rows ! p)) else known ! (unk ! c)
       | None \<Rightarrow> known ! (unk ! c)) else known ! (unk ! c))"
proof -
  have all: "list_all (\<lambda>d. d = c \<or> rows ! p ! d = 0) [0..<N] \<longleftrightarrow> clean N (rows ! p) c" for p c
    by (auto simp: clean_def list_all_iff)
  have len: "length (fold (fill_hole N rows piv unk) xs known) = length known" for xs
    by (induction xs rule: rev_induct) (auto simp: fill_hole_def split: option.split)
  then show "length (fold (fill_hole N rows piv unk) [0..<n] known) = length known" .
  show "fold (fill_hole N rows piv unk) [0..<n] known ! i = known ! i"
    if "i < length known" "i \<notin> set unk"
    using assms(2) that(1)
  proof (induction n)
    case (Suc n)
    then have "unk ! n \<noteq> i" using that(2) by auto
    with Suc show ?case by (auto simp: fill_hole_def split: option.split)
  qed simp
  show "fold (fill_hole N rows piv unk) [0..<n] known ! (unk ! c) =
      (if c < n then (case piv ! c of
         Some p \<Rightarrow> if clean N (rows ! p) c then Some (drop N (rows ! p)) else known ! (unk ! c)
       | None \<Rightarrow> known ! (unk ! c)) else known ! (unk ! c))" if c: "c < length unk"
    using assms(2)
  proof (induction n)
    case 0
    then show ?case by simp
  next
    case (Suc n)
    have "unk ! c < length known" using assms(3) c by simp
    moreover have "unk ! n = unk ! c \<longleftrightarrow> n = c"
      using assms(1) c Suc.prems by (simp add: nth_eq_iff_index_eq)
    moreover define F where "F = fold (fill_hole N rows piv unk) [0..<n] known"
    moreover have "length F = length known" using len F_def by simp
    ultimately show ?case using Suc
      by (auto simp: fill_hole_def[of _ _ _ _ n] all nth_list_update less_Suc_eq F_def[symmetric]
          split: option.split)
  qed
qed

lemma decode_layer_spec:
  assumes "explains K sl ss X" and "0 < sl"
  shows "decode_layer gf_new ss sl =
    (Inr (if \<forall>Z. explains K sl ss Z \<longrightarrow> Z = X then Some (concat X) else None) :: ('e, _) res)"
proof -
  have c: "\<forall>s \<in> set ss. consistent (gf_mul gf_new) sl X s" and X: "source_ok K sl X"
    using assms(1) by (auto simp: explains_def)
  from split_layer[OF X c split_start] obtain known rl where
    st: "rfold split_step (replicate K None, []) ss = (Inr (known, rl) :: ('e, _) res)"
      and ok: "split_ok K sl X ss (known, rl)" by fastforce
  show ?thesis
  proof (cases "length ss < K")
    case False
    then show ?thesis using st solve_layer_exact[OF ok assms] by (simp add: decode_layer_def)
  next
    case True
    have "length rl < length (unknown_positions known K)"
      using split_okD(5)[OF ok assms(1)] length_known_unknown[OF split_okD(1)[OF ok assms(1)]] True
      by linarith
    with short_undetermined[OF ok assms] have "\<not> (\<forall>Z. explains K sl ss Z \<longrightarrow> Z = X)" by blast
    with True show ?thesis by (simp add: decode_layer_def)
  qed
qed

lemma decode_with_k_spec:
  assumes "explains k sl ss X" and "0 < sl"
  shows "decode_layer_with_k gf_new ss k sl =
    (Inr (if \<forall>Z. explains k sl ss Z \<longrightarrow> Z = X then Some (concat X) else None) :: ('e, _) res)"
proof -
  have c: "\<forall>s \<in> set ss. consistent (gf_mul gf_new) sl X s" and X: "source_ok k sl X"
    using assms(1) by (auto simp: explains_def)
  obtain known rl where st: "fold (split_step_k k) ss (replicate k None, []) = (known, rl)"
    by (metis prod.exhaust)
  with split_layer_k[OF X c split_start] have ok: "split_ok k sl X ss (known, rl)" by simp
  show ?thesis
  proof (cases "length ss < k")
    case False
    then show ?thesis using st solve_layer_exact[OF ok assms] by (simp add: decode_layer_with_k_def)
  next
    case True
    have "length rl < length (unknown_positions known k)"
      using split_okD(5)[OF ok assms(1)] length_known_unknown[OF split_okD(1)[OF ok assms(1)]] True
      by linarith
    with short_undetermined[OF ok assms] have "\<not> (\<forall>Z. explains k sl ss Z \<longrightarrow> Z = X)" by blast
    with True show ?thesis by (simp add: decode_layer_with_k_def)
  qed
qed

lemma decode_holes_spec:
  assumes "explains K sl ss X" and "0 < sl"
  shows "decode_layer_with_holes gf_new ss sl =
    (Inr (map (\<lambda>i. if \<forall>Z. explains K sl ss Z \<longrightarrow> Z ! i = X ! i then Some (X ! i) else None) [0..<K])
      :: ('e, _) res)"
proof -
  have c: "\<forall>s \<in> set ss. consistent (gf_mul gf_new) sl X s" and X: "source_ok K sl X"
    using assms(1) by (auto simp: explains_def)
  from split_layer[OF X c split_start] obtain known rl where
    st: "rfold split_step (replicate K None, []) ss = (Inr (known, rl) :: ('e, _) res)"
      and ok: "split_ok K sl X ss (known, rl)" by fastforce
  note k = split_okD[OF ok assms(1)]
  define unk where "unk = unknown_positions known K"
  define n where "n = length unk"
  let ?R = "map (\<lambda>i. if \<forall>Z. explains K sl ss Z \<longrightarrow> Z ! i = X ! i then Some (X ! i) else None) [0..<K]"
  have bwd: "\<forall>i < K. \<forall>c. known ! i = Some c \<longrightarrow> Z ! i = c" if "explains K sl ss Z" for Z
    using split_ok_bwd[OF ok] that by (auto simp: explains_def)
  have known: "?R ! i = known ! i" if "i < K" "known ! i = Some c" for i c
    using that k(2) bwd by auto
  obtain rows where rows: "(rmap (\<lambda>s. reduce_row gf_new K sl known s) rl :: ('e, _) res) = Inr rows"
    using reduce_rows[OF k(3) k(4) k(1,2)] by blast
  obtain rows' piv where g:
    "gauss_holes (gf_mul gf_new) (gf_inv gf_new) [0..<n] rows 0 (replicate n None) = (rows', piv)"
    by (metis prod.exhaust)
  note E = eliminate_exact[OF k(3) k(4) k(1,2) unk_def n_def assms(2) rows g]
  have det: "?R ! (unk ! c) = (case piv ! c of
      Some p \<Rightarrow> if clean n (rows' ! p) c then Some (drop n (rows' ! p)) else None | None \<Rightarrow> None)"
    if c: "c < n" for c
  proof -
    have "unk ! c \<in> set unk" using c n_def by simp
    then have u: "unk ! c < K" using unknown_positions_props(2) unk_def by simp
    show ?thesis
    proof (cases "\<exists>p. piv ! c = Some p \<and> clean n (rows' ! p) c")
      case True
      then obtain p where p: "piv ! c = Some p" "clean n (rows' ! p) c" by blast
      have "drop n (rows' ! p) = Z ! (unk ! c)" if Z: "explains K sl ss Z" for Z
        using eliminate_exact(1)[OF explains_rl[OF ok Z] k(1) bwd[OF Z] unk_def n_def assms(2) rows g c]
          p by blast
      with assms(1) have "\<forall>Z. explains K sl ss Z \<longrightarrow> Z ! (unk ! c) = X ! (unk ! c)"
        and "drop n (rows' ! p) = X ! (unk ! c)" by metis+
      with p u show ?thesis by simp
    next
      case False
      then obtain Z where "explains K sl ss Z" "Z ! (unk ! c) \<noteq> X ! (unk ! c)"
        using E(2)[OF c] explains_split[OF ok] by blast
      then have "\<not> (\<forall>Z. explains K sl ss Z \<longrightarrow> Z ! (unk ! c) = X ! (unk ! c))" by blast
      with False u show ?thesis by (auto split: option.split)
    qed
  qed
  show ?thesis
  proof (cases "n = 0 \<or> rl = []")
    case True
    have "?R = known"
    proof (rule nth_equalityI)
      fix i
      assume "i < length ?R"
      then have i: "i < K" by simp
      show "?R ! i = known ! i"
      proof (cases "known ! i")
        case (Some c)
        with known[OF i] show ?thesis by blast
      next
        case None
        then have "i \<in> set unk" using i unknown_positions_props(2) unk_def by simp
        then obtain c where c: "c < n" "unk ! c = i" by (auto simp: in_set_conv_nth n_def)
        with True have "rl = []" by auto
        with rows have "rows = []" by simp
        have "gauss_holes mul rcp cols [] 0 pv = ([], pv)" for mul rcp cols pv
          by (induction cols) (simp_all add: find_sel_def)
        with g \<open>rows = []\<close> have "piv = replicate n None" by simp
        with det[OF c(1)] c None show ?thesis by simp
      qed
    qed (use k(1) in simp)
    with True st show ?thesis
      by (auto simp: decode_layer_with_holes_def unk_def[symmetric] n_def Let_def)
  next
    case False
    let ?F = "fold (fill_hole n rows' piv unk) [0..<n] known"
    have unk: "distinct unk" "\<forall>i \<in> set unk. i < length known"
      using unknown_positions_props k(1) unk_def by auto
    note fill = fill_holes[OF unk(1) _ unk(2), where n = n and N = n and rows = rows' and piv = piv]
    have "?F = ?R"
    proof (rule nth_equalityI)
      show "length ?F = length ?R" using fill(1) k(1) n_def by simp
      fix i
      assume "i < length ?F"
      then have i: "i < K" using fill(1) k(1) n_def by simp
      show "?F ! i = ?R ! i"
      proof (cases "known ! i")
        case (Some c)
        then have "i \<notin> set unk" using unknown_positions_props(2) unk_def by simp
        with fill(2)[of i] known[OF i Some] i k(1) show ?thesis by (simp add: n_def)
      next
        case None
        then have "i \<in> set unk" using i unknown_positions_props(2) unk_def by simp
        then obtain c where c: "c < n" "unk ! c = i" by (auto simp: in_set_conv_nth n_def)
        with fill(3)[of c] det[OF c(1)] None show ?thesis
          by (simp add: n_def split: option.split)
      qed
    qed
    moreover have "unk \<noteq> []" using False by (auto simp: n_def)
    ultimately show ?thesis using False st rows g
      by (simp add: decode_layer_with_holes_def unk_def[symmetric] n_def[symmetric] Let_def)
  qed
qed

text \<open>All systematic shards together leave no freedom.\<close>

lemma systematic_unique:
  assumes Z: "explains k sl ss Z" and "length padded = k * sl"
    and sys: "set (map (systematic padded k sl) [0..<k]) \<subseteq> set ss"
  shows "Z = chunks_of k sl padded"
proof (rule nth_equalityI)
  have Zok: "source_ok k sl Z" using Z by (simp add: explains_def)
  then show "length Z = length (chunks_of k sl padded)" by (simp add: source_ok_def chunks_of_def)
  fix i
  assume "i < length Z"
  then have i: "i < k" using Zok by (simp add: source_ok_def)
  then have "consistent (gf_mul gf_new) sl Z (systematic padded k sl i)"
    using Z sys i by (fastforce simp: explains_def)
  with consistent_unit[OF Zok i] i show "Z ! i = chunks_of k sl padded ! i"
    by (simp add: systematic_def chunks_of_def)
qed

lemma encoded_explains:
  assumes "encode_layer_with_k gf_new data k n rng = Inr ((sl, ss), rng')" and "set ss' \<subseteq> set ss"
  shows "explains k sl ss' (chunks_of k sl (pad_to (k * sl) data))"
  using encode_with_k_props(4)[OF assms(1)] assms(2) source_ok_chunks_of[of "pad_to (k * sl) data" k sl]
  by (auto simp: explains_def)

lemma encoded_sl_pos:
  assumes "encode_layer_with_k gf_new data k n rng = Inr ((sl, ss), rng')" and "data \<noteq> []"
  shows "0 < sl" and "length data \<le> k * sl"
proof -
  note p = encode_with_k_props(1,2)[OF assms(1)]
  show "length data \<le> k * sl" using symbol_len_covers[OF p(1), of "length data"] p(2) by simp
  with assms(2) show "0 < sl" by (cases sl) auto
qed

lemma concat_encoded:
  assumes "length data \<le> k * sl"
  shows "take (length data) (concat (chunks_of k sl (pad_to (k * sl) data))) = data"
  using assms by (simp add: concat_chunks_of take_pad_to)

lemma systematic_explains:
  assumes "length padded = k * sl" and "set ss \<subseteq> set (map (systematic padded k sl) [0..<k])"
  shows "explains k sl ss (chunks_of k sl padded)"
  using assms systematic_consistent[OF _ assms(1)] source_ok_chunks_of[OF assms(1)]
  by (fastforce simp: explains_def)

section \<open>Properties\<close>

text \<open>C1: \<open>decode_layer\<close> is exact. Given shards that some source of \<open>K\<close> non-empty chunks explains, it
  neither panics nor errs: it returns the concatenated chunks when that source is the only one that
  explains the shards, and \<open>None\<close> otherwise (which covers fewer than \<open>K\<close> shards).\<close>

theorem decode_layer_exact:
  assumes "explains K sl ss X" and "0 < sl"
  shows "decode_layer gf_new ss sl =
    (Inr (if \<forall>Z. explains K sl ss Z \<longrightarrow> Z = X then Some (concat X) else None) :: ('e, _) res)"
  using assms by (rule decode_layer_spec)

theorem decode_layer_exact_witness:
  "decode_layer gf_new (map (systematic (replicate 16 7) K 1) [0..<K]) 1 =
    (Inr (Some (replicate 16 7)) :: (unit, _) res)"
proof -
  let ?p = "replicate 16 7 :: bytes" and ?ss = "map (systematic (replicate 16 7) K 1) [0..<K]"
  have len: "length ?p = K * 1" by (simp add: K_def)
  have X: "explains K 1 ?ss (chunks_of K 1 ?p)" by (rule systematic_explains[OF len]) simp
  have "\<forall>Z. explains K 1 ?ss Z \<longrightarrow> Z = chunks_of K 1 ?p"
    using systematic_unique[OF _ len] by blast
  with decode_layer_exact[OF X, where 'e = unit] concat_chunks_of[OF len] show ?thesis by simp
qed

text \<open>\<open>decode_layer_with_k\<close> is exact for every \<open>k\<close>, by its different classification of the shards.\<close>

theorem decode_layer_with_k_exact:
  assumes "explains k sl ss X" and "0 < sl"
  shows "decode_layer_with_k gf_new ss k sl =
    (Inr (if \<forall>Z. explains k sl ss Z \<longrightarrow> Z = X then Some (concat X) else None) :: ('e, _) res)"
  using assms by (rule decode_with_k_spec)

theorem decode_layer_with_k_exact_witness:
  "decode_layer_with_k gf_new (map (systematic [1, 2, 3, 4] 2 2) [1, 0]) 2 2 =
    (Inr (Some [1, 2, 3, 4]) :: (unit, _) res)"
proof -
  let ?p = "[1, 2, 3, 4] :: bytes" and ?ss = "map (systematic [1, 2, 3, 4] 2 2) [1, 0]"
  have len: "length ?p = 2 * 2" by simp
  have set: "set ?ss = set (map (systematic ?p 2 2) [0..<2])" by (auto simp: upt_rec)
  have X: "explains 2 2 ?ss (chunks_of 2 2 ?p)" by (rule systematic_explains[OF len]) (simp only: set)
  have "\<forall>Z. explains 2 2 ?ss Z \<longrightarrow> Z = chunks_of 2 2 ?p"
    using systematic_unique[OF _ len] set by blast
  with decode_layer_with_k_exact[OF X, where 'e = unit] concat_chunks_of[OF len] show ?thesis by simp
qed

text \<open>C2: \<open>decode_layer_with_holes\<close> is exact, position by position: chunk \<open>i\<close> is returned when every
  source that explains the shards has the same chunk there, and is a hole otherwise. No garbage chunk
  is ever handed out, and no recoverable chunk is reported lost.\<close>

theorem decode_layer_with_holes_exact:
  assumes "explains K sl ss X" and "0 < sl"
  shows "decode_layer_with_holes gf_new ss sl =
    (Inr (map (\<lambda>i. if \<forall>Z. explains K sl ss Z \<longrightarrow> Z ! i = X ! i then Some (X ! i) else None) [0..<K])
      :: ('e, _) res)"
  using assms by (rule decode_holes_spec)

theorem decode_layer_with_holes_exact_witness:
  "(case decode_layer_with_holes gf_new [systematic (replicate 16 7) K 1 3] 1 of
      Inr r \<Rightarrow> r ! 3 | Inl (_ :: unit fault) \<Rightarrow> None) = Some [7]"
proof -
  let ?p = "replicate 16 7 :: bytes" and ?ss = "[systematic (replicate 16 7) K 1 3]"
  have len: "length ?p = K * 1" by (simp add: K_def)
  have X: "explains K 1 ?ss (chunks_of K 1 ?p)" by (rule systematic_explains[OF len]) (auto simp: K_def)
  have "Z ! 3 = chunk ?p 1 3" if "explains K 1 ?ss Z" for Z
    using that consistent_unit[of K 1 Z 3] by (simp add: explains_def systematic_def K_def)
  moreover have "chunks_of K 1 ?p ! 3 = chunk ?p 1 3" by (simp add: chunks_of_def K_def)
  moreover have "chunk ?p 1 3 = [7]" by (simp add: chunk_def slice_def)
  ultimately have "\<forall>Z. explains K 1 ?ss Z \<longrightarrow> Z ! 3 = chunks_of K 1 ?p ! 3" "chunks_of K 1 ?p ! 3 = [7]"
    by simp_all
  with decode_layer_with_holes_exact[OF X, where 'e = unit] show ?thesis by (simp add: K_def)
qed

text \<open>C3: round trip. From any selection (with repetitions, in any order) of the shards that
  \<open>encode_layer_with_k\<close> produced, \<open>decode_layer_with_k\<close> never panics and either returns data whose
  prefix is the original, or \<open>None\<close>, and the latter only when a systematic shard is missing.\<close>

theorem encode_decode_roundtrip:
  assumes "encode_layer_with_k gf_new data k n rng = Inr ((sl, ss), rng')" and "data \<noteq> []"
    and "set ss' \<subseteq> set ss"
  shows "case (decode_layer_with_k gf_new ss' k sl :: ('f, _) res) of
      Inl _ \<Rightarrow> False
    | Inr (Some out) \<Rightarrow> length out = k * sl \<and> take (length data) out = data
    | Inr None \<Rightarrow> n < k \<or> \<not> set (take k ss) \<subseteq> set ss'"
proof -
  let ?p = "pad_to (k * sl) data"
  note sl = encoded_sl_pos[OF assms(1,2)]
  note X = encoded_explains[OF assms(1,3)]
  have u: "\<forall>Z. explains k sl ss' Z \<longrightarrow> Z = chunks_of k sl ?p" if "k \<le> n" "set (take k ss) \<subseteq> set ss'"
  proof -
    note e = encode_with_k_props(3,5)[OF assms(1)]
    have "take k ss = map (systematic ?p k sl) [0..<k]"
      using that(1) e by (intro nth_equalityI) auto
    with that(2) systematic_unique[of k sl ss' _ ?p] show ?thesis by auto
  qed
  have "length (concat (chunks_of k sl ?p)) = k * sl" by (simp add: concat_chunks_of)
  then show ?thesis
    using decode_with_k_spec[OF X sl(1), where 'e = 'f] u concat_encoded[OF sl(2)]
    by (auto simp: not_less)
qed

theorem encode_decode_roundtrip_witness:
  "\<exists>sl ss rng'. encode_layer_with_k gf_new [1, 2, 3] 2 5 9 = (Inr ((sl, ss), rng') :: (unit, _) res) \<and>
    (case decode_layer_with_k gf_new (rev ss) 2 sl of
       Inl (_ :: unit fault) \<Rightarrow> False | Inr r \<Rightarrow> map_option (take 3) r = Some [1, 2, 3])"
proof -
  obtain sl ss rng' where e: "encode_layer_with_k gf_new [1, 2, 3] 2 5 9 = (Inr ((sl, ss), rng') :: (unit, _) res)"
    by (auto simp: encode_layer_with_k_def Let_def split_def)
  have "set (take 2 ss) \<subseteq> set (rev ss)" using set_take_subset[of 2 ss] by simp
  with encode_decode_roundtrip[OF e, of "rev ss", where 'f = unit] e show ?thesis
    by (auto simp: numeral_3_eq_3 split: sum.splits option.splits)
qed

end
