(* ===== verification/Repair.thy ===== *)
theory Repair
  imports Decode
begin

text \<open>
  \<open>holofs-core/src/repair.rs\<close> and \<open>cluster.rs\<close>: regeneration of a node. \<open>mix_donors\<close> bakes fresh shards
  as random combinations of donors; \<open>regenerate_node\<close> refills every (channel, layer) up to its
  target count and keeps statistics.

  What is shown: mixing stays inside the code, whatever the random coefficients (a fresh shard is
  consistent with the same source as its donors, the fallback to a donor included), the layers are
  refilled to exactly their targets, and shards of other nodes are untouched. The trigger \<open>needs_repair\<close>
  is in the theory \<open>Trigger\<close>.
\<close>

section \<open>Mixing donors\<close>

text \<open>\<open>for i in 0..n { acc[i] ^= gf.mul(alpha, src[i]) }\<close>, where \<open>acc\<close> has length \<open>n\<close>.\<close>

definition xor_scaled :: "gf \<Rightarrow> nat \<Rightarrow> u8 \<Rightarrow> u8 list \<Rightarrow> u8 list \<Rightarrow> ('e, u8 list) res" where
  "xor_scaled g n alpha src acc =
     rmap (\<lambda>i. rbind (at_idx src i) (\<lambda>x. Inr (acc ! i XOR gf_mul g alpha x))) [0..<n]"

definition mix_step ::
  "gf \<Rightarrow> nat \<Rightarrow> u8 list \<times> u8 list \<times> u64 \<Rightarrow> shard \<Rightarrow> ('e, u8 list \<times> u8 list \<times> u64) res" where
  "mix_step g slen st src = (case st of (nc, np, rng) \<Rightarrow>
     (let (alpha, rng) = rng_byte rng in
      if alpha = 0 then Inr (nc, np, rng)
      else rbind (xor_scaled g K alpha (coeffs src) nc) (\<lambda>nc.
           rbind (xor_scaled g slen alpha (payload src) np) (\<lambda>np. Inr (nc, np, rng)))))"

text \<open>\<open>copy_from_slice\<close> panics unless the lengths agree.\<close>

definition copy_from_slice :: "'a list \<Rightarrow> 'a list \<Rightarrow> ('e, 'a list) res" where
  "copy_from_slice dst src = (if length dst = length src then Inr src else Inl Panic)"

definition mix_one :: "gf \<Rightarrow> shard list \<Rightarrow> nat \<Rightarrow> u64 \<Rightarrow> ('e, shard \<times> u64) res" where
  "mix_one g donors slen rng =
     rbind (rfold (mix_step g slen) (replicate K 0, replicate slen 0, rng) donors) (\<lambda>(nc, np, rng).
       if list_all (\<lambda>b. b = 0) nc then
         rbind (copy_from_slice nc (coeffs (hd donors))) (\<lambda>nc.
         rbind (copy_from_slice np (payload (hd donors))) (\<lambda>np.
           Inr (\<lparr>coeffs = nc, payload = np\<rparr>, rng)))
       else Inr (\<lparr>coeffs = nc, payload = np\<rparr>, rng))"

fun mix_loop :: "gf \<Rightarrow> shard list \<Rightarrow> nat \<Rightarrow> nat \<Rightarrow> u64 \<Rightarrow> ('e, shard list \<times> u64) res" where
  "mix_loop g donors slen 0 rng = Inr ([], rng)"
| "mix_loop g donors slen (Suc need) rng =
     rbind (mix_one g donors slen rng) (\<lambda>(s, rng).
     rbind (mix_loop g donors slen need rng) (\<lambda>(ss, rng). Inr (s # ss, rng)))"

definition mix_donors :: "gf \<Rightarrow> shard list \<Rightarrow> nat \<Rightarrow> u64 \<Rightarrow> ('e, shard list \<times> u64) res" where
  "mix_donors g donors need rng =
     (if donors = [] \<or> need = 0 then Inr ([], rng)
      else mix_loop g donors (length (payload (hd donors))) need rng)"

section \<open>Regenerating a node\<close>

record shard_rec =
  sr_node :: nat
  sr_channel :: nat
  sr_layer :: nat
  sr_shard :: shard

record repair_stats =
  bytes_downloaded :: u64
  bytes_baseline_full :: u64
  gf_muls_repair :: u64
  gf_muls_baseline :: u64
  shards_generated :: nat
  layers_repaired :: nat
  layers_unrecoverable :: nat

definition default_stats :: repair_stats where
  "default_stats = \<lparr>bytes_downloaded = 0, bytes_baseline_full = 0, gf_muls_repair = 0,
     gf_muls_baseline = 0, shards_generated = 0, layers_repaired = 0, layers_unrecoverable = 0\<rparr>"

definition in_layer :: "nat \<Rightarrow> nat \<Rightarrow> shard_rec \<Rightarrow> bool" where
  "in_layer c l r \<longleftrightarrow> sr_channel r = c \<and> sr_layer r = l"

text \<open>\<open>live_count[r.channel][r.layer] += 1\<close> for every record; the array is 3 by \<open>NLAYERS\<close>.\<close>

definition count_step :: "nat list list \<Rightarrow> shard_rec \<Rightarrow> ('e, nat list list) res" where
  "count_step cnt r =
     rbind (at_idx cnt (sr_channel r)) (\<lambda>row.
     rbind (at_idx row (sr_layer r)) (\<lambda>n.
       Inr (cnt[sr_channel r := row[sr_layer r := n + 1]])))"

text \<open>The traffic and work accounting of one repaired layer.\<close>

definition account_layer :: "nat \<Rightarrow> nat \<Rightarrow> nat \<Rightarrow> nat \<Rightarrow> repair_stats \<Rightarrow> repair_stats" where
  "account_layer tk donor_count slen need stats =
     (let bytes_per_shard = word_of_nat (K + slen);
          k_used = min (word_of_nat K) (word_of_nat donor_count);
          muls_per_new = word_of_nat tk * (word_of_nat slen + word_of_nat K)
      in stats\<lparr>
        bytes_downloaded := bytes_downloaded stats + word_of_nat tk * bytes_per_shard,
        bytes_baseline_full := bytes_baseline_full stats + k_used * bytes_per_shard,
        gf_muls_baseline := gf_muls_baseline stats
          + word_of_nat K * (word_of_nat K + 1) * (word_of_nat slen + word_of_nat K)
          + word_of_nat need * word_of_nat K * word_of_nat slen,
        gf_muls_repair := gf_muls_repair stats + word_of_nat need * muls_per_new\<rparr>)"

lemma account_layer_counts [simp]:
  "shards_generated (account_layer tk dc slen need stats) = shards_generated stats"
  "layers_unrecoverable (account_layer tk dc slen need stats) = layers_unrecoverable stats"
  "layers_repaired (account_layer tk dc slen need stats) = layers_repaired stats"
  by (simp_all add: account_layer_def Let_def)

type_synonym regen_state = "shard_rec list \<times> repair_stats \<times> u64"

definition regen_layer ::
  "gf \<Rightarrow> nat \<Rightarrow> nat list \<Rightarrow> nat list \<Rightarrow> nat \<Rightarrow> nat list list \<Rightarrow> regen_state \<Rightarrow> nat \<times> nat
     \<Rightarrow> ('e, regen_state) res" where
  "regen_layer g node_id sym_len n_per_layer d live_count st cl = (case (st, cl) of ((all, stats, rng), (c, l)) \<Rightarrow>
     (let need = n_per_layer ! l - live_count ! c ! l in
      if need = 0 then Inr (all, stats, rng)
      else let donors = filter (in_layer c l) all; donor_count = length donors in
      if donor_count = 0 then
        Inr (all, stats\<lparr>layers_unrecoverable := layers_unrecoverable stats + 1\<rparr>, rng)
      else let tk = min d donor_count;
               slen = sym_len ! l;
               stats = account_layer tk donor_count slen need stats;
               sources = map sr_shard (take tk donors)
      in rbind (mix_donors g sources need rng) (\<lambda>(fresh, rng).
           Inr (all @ map (\<lambda>s. \<lparr>sr_node = node_id, sr_channel = c, sr_layer = l, sr_shard = s\<rparr>) fresh,
                stats\<lparr>shards_generated := shards_generated stats + length fresh,
                      layers_repaired := layers_repaired stats + 1\<rparr>,
                rng))))"

definition channel_layers :: "(nat \<times> nat) list" where
  "channel_layers = concat (map (\<lambda>c. map (\<lambda>l. (c, l)) [0..<NLAYERS]) [0..<3])"

definition regenerate_node ::
  "gf \<Rightarrow> nat \<Rightarrow> shard_rec list \<Rightarrow> nat list \<Rightarrow> nat list \<Rightarrow> nat \<Rightarrow> u64 \<Rightarrow> ('e, regen_state) res" where
  "regenerate_node g node_id all sym_len n_per_layer d rng =
     (let all = filter (\<lambda>r. sr_node r \<noteq> node_id) all in
      rbind (rfold count_step (replicate 3 (replicate NLAYERS 0)) all) (\<lambda>live_count.
        rfold (regen_layer g node_id sym_len n_per_layer d live_count) (all, default_stats, rng)
          channel_layers))"

section \<open>Mixing stays inside the code\<close>

lemma xor_scaled_ok:
  "n \<le> length src \<Longrightarrow>
     xor_scaled g n alpha src acc = Inr (map (\<lambda>i. acc ! i XOR gf_mul g alpha (src ! i)) [0..<n])"
  unfolding xor_scaled_def by (intro rmap_Inr) simp

text \<open>Consistency of a coefficient vector with a payload, as used for the accumulators.\<close>

lemma consistent_mix:
  assumes "source_ok k sl X"
    and a: "consistent (gf_mul gf_new) sl X \<lparr>coeffs = nc, payload = np\<rparr>"
    and s: "consistent (gf_mul gf_new) sl X s"
  shows "consistent (gf_mul gf_new) sl X
    \<lparr>coeffs = map (\<lambda>i. nc ! i XOR gf_mul gf_new al (coeffs s ! i)) [0..<k],
     payload = map (\<lambda>i. np ! i XOR gf_mul gf_new al (payload s ! i)) [0..<sl]\<rparr>"
proof -
  have X: "length X = k" using assms(1) by (simp add: source_ok_def)
  have "combination (gf_mul gf_new) (map (\<lambda>i. nc ! i XOR gf_mul gf_new al (coeffs s ! i)) [0..<k]) X j =
      combination (gf_mul gf_new) nc X j XOR gf_mul gf_new al (combination (gf_mul gf_new) (coeffs s) X j)"
    for j
    unfolding combination_def gf.mul_xsum xsum_xor[symmetric]
    using X by (intro xsum_cong) (simp add: gf.xor_mul gf.mul_assoc)
  with a s X show ?thesis by (simp add: consistent_def)
qed

lemma consistent_zero:
  assumes "source_ok k sl X"
  shows "consistent (gf_mul gf_new) sl X \<lparr>coeffs = replicate k 0, payload = replicate sl 0\<rparr>"
proof -
  have X: "length X = k" using assms by (simp add: source_ok_def)
  have "combination (gf_mul gf_new) (replicate k 0) X j = xsum (\<lambda>_. 0) [0..<k]" for j
    unfolding combination_def X by (intro xsum_cong) simp
  with X show ?thesis by (simp add: consistent_def)
qed

lemma mix_fold:
  assumes X: "source_ok K sl X" and "\<forall>s \<in> set ds. consistent (gf_mul gf_new) sl X s"
    and "consistent (gf_mul gf_new) sl X \<lparr>coeffs = nc, payload = np\<rparr>"
  shows "\<exists>nc' np' rng'. (rfold (mix_step gf_new sl) (nc, np, rng) ds :: ('e, _) res) = Inr (nc', np', rng') \<and>
    consistent (gf_mul gf_new) sl X \<lparr>coeffs = nc', payload = np'\<rparr>"
  using assms(2,3)
proof (induction ds arbitrary: nc np rng)
  case Nil
  then show ?case by simp
next
  case (Cons s ds)
  obtain al rng1 where al: "rng_byte rng = (al, rng1)" by force
  have s: "consistent (gf_mul gf_new) sl X s" using Cons.prems by simp
  have len: "length (coeffs s) = K" "length (payload s) = sl"
    using s X by (auto simp: consistent_def source_ok_def)
  show ?case
  proof (cases "al = 0")
    case True
    with al Cons show ?thesis by (simp add: mix_step_def)
  next
    case False
    with Cons.IH[OF _ consistent_mix[OF X Cons.prems(2) s, of al], of rng1] Cons.prems(1) al len
    show ?thesis by (simp add: mix_step_def xor_scaled_ok)
  qed
qed

lemma mix_one_ok:
  assumes X: "source_ok K sl X" and ds: "\<forall>s \<in> set ds. consistent (gf_mul gf_new) sl X s" and "ds \<noteq> []"
  shows "\<exists>s rng'. (mix_one gf_new ds sl rng :: ('e, _) res) = Inr (s, rng') \<and>
    consistent (gf_mul gf_new) sl X s"
proof -
  from mix_fold[OF X ds consistent_zero[OF X], where 'e = 'e] obtain nc np rng' where
    m: "(rfold (mix_step gf_new sl) (replicate K 0, replicate sl 0, rng) ds :: ('e, _) res) = Inr (nc, np, rng')"
      and c: "consistent (gf_mul gf_new) sl X \<lparr>coeffs = nc, payload = np\<rparr>" by blast
  have h: "consistent (gf_mul gf_new) sl X (hd ds)" using ds assms(3) by simp
  then have "length nc = length (coeffs (hd ds))" "length np = length (payload (hd ds))"
    using c by (auto simp: consistent_def)
  moreover have "consistent (gf_mul gf_new) sl X \<lparr>coeffs = coeffs (hd ds), payload = payload (hd ds)\<rparr>"
    using h by (cases "hd ds") simp
  ultimately show ?thesis using m c by (auto simp: mix_one_def copy_from_slice_def)
qed

lemma mix_loop_ok:
  assumes X: "source_ok K sl X" and ds: "\<forall>s \<in> set ds. consistent (gf_mul gf_new) sl X s" and "ds \<noteq> []"
  shows "\<exists>ss rng'. (mix_loop gf_new ds sl need rng :: ('e, _) res) = Inr (ss, rng') \<and>
    length ss = need \<and> (\<forall>s \<in> set ss. consistent (gf_mul gf_new) sl X s)"
proof (induction need arbitrary: rng)
  case 0
  then show ?case by simp
next
  case (Suc need)
  from mix_one_ok[OF assms, where 'e = 'e] obtain s rng1 where
    "(mix_one gf_new ds sl rng :: ('e, _) res) = Inr (s, rng1)" "consistent (gf_mul gf_new) sl X s" by blast
  with Suc[of rng1] show ?case by auto
qed

lemma mix_donors_ok:
  assumes X: "source_ok K sl X" and ds: "\<forall>s \<in> set ds. consistent (gf_mul gf_new) sl X s"
  shows "\<exists>ss rng'. (mix_donors gf_new ds need rng :: ('e, _) res) = Inr (ss, rng') \<and>
    length ss = (if ds = [] then 0 else need) \<and> (\<forall>s \<in> set ss. consistent (gf_mul gf_new) sl X s)"
proof (cases "ds = [] \<or> need = 0")
  case True
  then show ?thesis by (auto simp: mix_donors_def)
next
  case False
  then have "length (payload (hd ds)) = sl" using ds by (auto simp: consistent_def)
  with False mix_loop_ok[OF X ds] show ?thesis by (simp add: mix_donors_def)
qed

section \<open>Regeneration refills the layers\<close>

definition count_in :: "nat \<Rightarrow> nat \<Rightarrow> shard_rec list \<Rightarrow> nat" where
  "count_in c l all = length (filter (in_layer c l) all)"

definition rec_ok :: "(nat \<Rightarrow> nat \<Rightarrow> bytes list) \<Rightarrow> nat list \<Rightarrow> shard_rec \<Rightarrow> bool" where
  "rec_ok X sym_len r \<longleftrightarrow> sr_channel r < 3 \<and> sr_layer r < NLAYERS \<and>
     consistent (gf_mul gf_new) (sym_len ! sr_layer r) (X (sr_channel r) (sr_layer r)) (sr_shard r)"

text \<open>What a layer holds after the regeneration: nothing can be done without donors.\<close>

definition refilled :: "nat \<Rightarrow> nat \<Rightarrow> nat \<Rightarrow> nat" where
  "refilled d live target = (if live = 0 \<or> d = 0 then live else max live target)"

lemma count_in_append [simp]: "count_in c l (xs @ ys) = count_in c l xs + count_in c l ys"
  by (simp add: count_in_def)

lemma count_loop:
  assumes "\<forall>r \<in> set all. sr_channel r < 3 \<and> sr_layer r < NLAYERS"
    and "length cnt = 3" and "\<forall>row \<in> set cnt. length row = NLAYERS"
  shows "\<exists>cnt'. (rfold count_step cnt all :: ('e, _) res) = Inr cnt' \<and>
    (\<forall>c < 3. \<forall>l < NLAYERS. cnt' ! c ! l = cnt ! c ! l + count_in c l all)"
  using assms
proof (induction all arbitrary: cnt)
  case Nil
  then show ?case by (simp add: count_in_def)
next
  case (Cons r all)
  let ?c = "sr_channel r" and ?l = "sr_layer r"
  let ?cnt = "cnt[?c := (cnt ! ?c)[?l := cnt ! ?c ! ?l + 1]]"
  have r: "?c < 3" "?l < NLAYERS" using Cons.prems(1) by auto
  have row: "length (cnt ! ?c) = NLAYERS" using Cons.prems(2,3) r by simp
  have step: "(count_step cnt r :: ('e, _) res) = Inr ?cnt"
    using r row Cons.prems(2) by (simp add: count_step_def)
  have "\<forall>row \<in> set ?cnt. length row = NLAYERS"
    using Cons.prems(3) row set_update_subset_insert[of cnt ?c] by fastforce
  with Cons.IH[of ?cnt] Cons.prems(1,2) obtain cnt' where
    "(rfold count_step ?cnt all :: ('e, _) res) = Inr cnt'"
    "\<forall>c < 3. \<forall>l < NLAYERS. cnt' ! c ! l = ?cnt ! c ! l + count_in c l all" by auto
  with step r row Cons.prems(2) show ?case
    by (auto simp: count_in_def in_layer_def nth_list_update)
qed

lemma regen_layer_ok:
  assumes src: "source_ok K (sym_len ! l) (X c l)" and all: "\<forall>r \<in> set all. rec_ok X sym_len r"
    and cl: "c < 3" "l < NLAYERS" and live: "live_count ! c ! l = count_in c l all"
  shows "\<exists>new stats' rng'.
    (regen_layer gf_new node_id sym_len n_per_layer d live_count (all, stats, rng) (c, l) :: ('e, _) res)
      = Inr (all @ new, stats', rng') \<and>
    (\<forall>r \<in> set new. rec_ok X sym_len r \<and> in_layer c l r \<and> sr_node r = node_id) \<and>
    count_in c l (all @ new) = refilled d (count_in c l all) (n_per_layer ! l) \<and>
    shards_generated stats' = shards_generated stats + length new \<and>
    layers_unrecoverable stats' = layers_unrecoverable stats +
      (if count_in c l all < n_per_layer ! l \<and> count_in c l all = 0 then 1 else 0)"
proof (cases "n_per_layer ! l - count_in c l all = 0 \<or> count_in c l all = 0")
  case True
  then show ?thesis
    using live by (auto simp: regen_layer_def Let_def refilled_def count_in_def max_def)
next
  case False
  define need where "need = n_per_layer ! l - count_in c l all"
  define donors where "donors = filter (in_layer c l) all"
  define ds where "ds = map sr_shard (take (min d (length donors)) donors)"
  have "consistent (gf_mul gf_new) (sym_len ! l) (X c l) (sr_shard r)" if "r \<in> set donors" for r
    using that all by (auto simp: donors_def rec_ok_def in_layer_def)
  then have "\<forall>s \<in> set ds. consistent (gf_mul gf_new) (sym_len ! l) (X c l) s"
    by (auto simp: ds_def dest: in_set_takeD)
  from mix_donors_ok[OF src this] obtain ss rng' where
    m: "(mix_donors gf_new ds need rng :: ('e, _) res) = Inr (ss, rng')"
      and len: "length ss = (if ds = [] then 0 else need)"
      and con: "\<forall>s \<in> set ss. consistent (gf_mul gf_new) (sym_len ! l) (X c l) s" by blast
  let ?new = "map (\<lambda>s. \<lparr>sr_node = node_id, sr_channel = c, sr_layer = l, sr_shard = s\<rparr>) ss"
  have n: "length donors = count_in c l all" by (simp add: donors_def count_in_def)
  have ds0: "ds = [] \<longleftrightarrow> d = 0" using False n by (auto simp: ds_def)
  have "filter (in_layer c l) ?new = ?new" by (auto simp: in_layer_def filter_id_conv)
  then have cn: "count_in c l ?new = length ss" by (simp add: count_in_def)
  have "\<forall>r \<in> set ?new. rec_ok X sym_len r \<and> in_layer c l r \<and> sr_node r = node_id"
    using con cl by (auto simp: rec_ok_def in_layer_def)
  moreover have "count_in c l (all @ ?new) = refilled d (count_in c l all) (n_per_layer ! l)"
    using False len ds0 cn by (auto simp: refilled_def need_def max_def)
  moreover have "(regen_layer gf_new node_id sym_len n_per_layer d live_count (all, stats, rng) (c, l) :: ('e, _) res)
      = Inr (all @ ?new, (account_layer (min d (length donors)) (length donors) (sym_len ! l) need stats)
          \<lparr>shards_generated := shards_generated stats + length ss,
           layers_repaired := layers_repaired stats + 1\<rparr>, rng')"
  proof -
    have "need \<noteq> 0" "length donors \<noteq> 0" using False n by (simp_all add: need_def)
    with m show ?thesis
      unfolding regen_layer_def prod.case Let_def live need_def[symmetric] donors_def[symmetric]
        ds_def[symmetric] by simp
  qed
  ultimately show ?thesis
    using False by (intro exI[of _ ?new] exI conjI) (assumption | simp)+
qed

lemma regen_loop:
  assumes src: "\<And>c l. c < 3 \<Longrightarrow> l < NLAYERS \<Longrightarrow> source_ok K (sym_len ! l) (X c l)"
    and "distinct cls" and "\<forall>(c, l) \<in> set cls. c < 3 \<and> l < NLAYERS"
    and "\<forall>r \<in> set all. rec_ok X sym_len r"
    and "\<forall>(c, l) \<in> set cls. live_count ! c ! l = count_in c l all"
  shows "\<exists>new stats' rng'.
    (rfold (regen_layer gf_new node_id sym_len n_per_layer d live_count) (all, stats, rng) cls :: ('e, _) res)
      = Inr (all @ new, stats', rng') \<and>
    (\<forall>r \<in> set new. rec_ok X sym_len r \<and> (sr_channel r, sr_layer r) \<in> set cls \<and> sr_node r = node_id) \<and>
    (\<forall>(c, l) \<in> set cls. count_in c l (all @ new) = refilled d (count_in c l all) (n_per_layer ! l)) \<and>
    shards_generated stats' = shards_generated stats + length new \<and>
    layers_unrecoverable stats' = layers_unrecoverable stats +
      length (filter (\<lambda>(c, l). count_in c l all < n_per_layer ! l \<and> count_in c l all = 0) cls)"
  using assms(2-5)
proof (induction cls arbitrary: all stats rng)
  case Nil
  then show ?case by simp
next
  case (Cons cl cls)
  obtain c l where cl: "cl = (c, l)" by force
  have b: "c < 3" "l < NLAYERS" and live: "live_count ! c ! l = count_in c l all"
    using Cons.prems by (auto simp: cl)
  from regen_layer_ok[where all = all and X = X, OF src[OF b] Cons.prems(3) b live]
  obtain new1 st1 rng1 where
    1: "(regen_layer gf_new node_id sym_len n_per_layer d live_count (all, stats, rng) (c, l) :: ('e, _) res)
        = Inr (all @ new1, st1, rng1)"
      "\<forall>r \<in> set new1. rec_ok X sym_len r \<and> in_layer c l r \<and> sr_node r = node_id"
      "count_in c l (all @ new1) = refilled d (count_in c l all) (n_per_layer ! l)"
      "shards_generated st1 = shards_generated stats + length new1"
      "layers_unrecoverable st1 = layers_unrecoverable stats +
        (if count_in c l all < n_per_layer ! l \<and> count_in c l all = 0 then 1 else 0)" by blast
  have other: "count_in c' l' new1 = 0" if "(c', l') \<noteq> (c, l)" for c' l'
    using 1(2) that by (auto simp: count_in_def in_layer_def filter_empty_conv)
  then have same: "count_in c' l' (all @ new1) = count_in c' l' all" if "(c', l') \<in> set cls" for c' l'
    using that Cons.prems(1) cl by (cases "(c', l') = (c, l)") auto
  have "\<exists>new stats' rng'.
    (rfold (regen_layer gf_new node_id sym_len n_per_layer d live_count) (all @ new1, st1, rng1) cls :: ('e, _) res)
      = Inr ((all @ new1) @ new, stats', rng') \<and>
    (\<forall>r \<in> set new. rec_ok X sym_len r \<and> (sr_channel r, sr_layer r) \<in> set cls \<and> sr_node r = node_id) \<and>
    (\<forall>(c, l) \<in> set cls. count_in c l ((all @ new1) @ new) =
       refilled d (count_in c l (all @ new1)) (n_per_layer ! l)) \<and>
    shards_generated stats' = shards_generated st1 + length new \<and>
    layers_unrecoverable stats' = layers_unrecoverable st1 + length (filter (\<lambda>(c, l).
      count_in c l (all @ new1) < n_per_layer ! l \<and> count_in c l (all @ new1) = 0) cls)"
    using Cons.prems 1(2) same by (intro Cons.IH) auto
  then obtain new2 st2 rng2 where
    2: "(rfold (regen_layer gf_new node_id sym_len n_per_layer d live_count) (all @ new1, st1, rng1) cls :: ('e, _) res)
        = Inr ((all @ new1) @ new2, st2, rng2)"
      "\<forall>r \<in> set new2. rec_ok X sym_len r \<and> (sr_channel r, sr_layer r) \<in> set cls \<and> sr_node r = node_id"
      "\<forall>(c, l) \<in> set cls. count_in c l ((all @ new1) @ new2) =
         refilled d (count_in c l (all @ new1)) (n_per_layer ! l)"
      "shards_generated st2 = shards_generated st1 + length new2"
      "layers_unrecoverable st2 = layers_unrecoverable st1 + length (filter (\<lambda>(c, l).
        count_in c l (all @ new1) < n_per_layer ! l \<and> count_in c l (all @ new1) = 0) cls)" by blast
  have "(c, l) \<notin> set cls" using Cons.prems(1) cl by simp
  then have "count_in c l new2 = 0"
    using 2(2) by (auto simp: count_in_def in_layer_def filter_empty_conv)
  then have "count_in c l (all @ new1 @ new2) = refilled d (count_in c l all) (n_per_layer ! l)"
    using 1(3) by simp
  moreover have "filter (\<lambda>(c, l). count_in c l (all @ new1) < n_per_layer ! l \<and> count_in c l (all @ new1) = 0) cls =
      filter (\<lambda>(c, l). count_in c l all < n_per_layer ! l \<and> count_in c l all = 0) cls"
    using same by (intro filter_cong) auto
  ultimately show ?case
    using 1 2 same cl
    by (intro exI[of _ "new1 @ new2"] exI[of _ st2] exI[of _ rng2]) (fastforce simp: in_layer_def)
qed

lemma channel_layers_props:
  "distinct channel_layers" "(c, l) \<in> set channel_layers \<longleftrightarrow> c < 3 \<and> l < NLAYERS"
proof -
  have "[0..<3] = [0, 1, 2 :: nat]" "[0..<NLAYERS] = [0, 1, 2, 3]"
    by (simp_all add: NLAYERS_def LEVELS_def upt_rec)
  then show "distinct channel_layers" by (simp add: channel_layers_def)
  show "(c, l) \<in> set channel_layers \<longleftrightarrow> c < 3 \<and> l < NLAYERS"
    by (force simp: channel_layers_def)
qed

lemma regenerate_spec:
  assumes src: "\<And>c l. c < 3 \<Longrightarrow> l < NLAYERS \<Longrightarrow> source_ok K (sym_len ! l) (X c l)"
    and all: "\<forall>r \<in> set all. rec_ok X sym_len r"
    and kept: "kept = filter (\<lambda>r. sr_node r \<noteq> node_id) all"
  shows "\<exists>new stats rng'.
    (regenerate_node gf_new node_id all sym_len n_per_layer d rng :: ('e, _) res)
      = Inr (kept @ new, stats, rng') \<and>
    (\<forall>r \<in> set new. rec_ok X sym_len r \<and> sr_node r = node_id) \<and>
    (\<forall>c < 3. \<forall>l < NLAYERS. count_in c l (kept @ new) = refilled d (count_in c l kept) (n_per_layer ! l)) \<and>
    shards_generated stats = length new \<and>
    layers_unrecoverable stats = length (filter (\<lambda>(c, l).
      count_in c l kept < n_per_layer ! l \<and> count_in c l kept = 0) channel_layers)"
proof -
  have k: "\<forall>r \<in> set kept. rec_ok X sym_len r" using all kept by auto
  have "\<forall>row \<in> set (replicate 3 (replicate NLAYERS (0 :: nat))). length row = NLAYERS" by simp
  from count_loop[OF _ _ this, of kept, where 'e = 'e] k obtain cnt where
    cnt: "(rfold count_step (replicate 3 (replicate NLAYERS 0)) kept :: ('e, _) res) = Inr cnt"
      "\<forall>c < 3. \<forall>l < NLAYERS. cnt ! c ! l = count_in c l kept"
    by (auto simp: rec_ok_def)
  have "\<exists>new stats' rng'.
    (rfold (regen_layer gf_new node_id sym_len n_per_layer d cnt) (kept, default_stats, rng) channel_layers :: ('e, _) res)
      = Inr (kept @ new, stats', rng') \<and>
    (\<forall>r \<in> set new. rec_ok X sym_len r \<and> (sr_channel r, sr_layer r) \<in> set channel_layers \<and> sr_node r = node_id) \<and>
    (\<forall>(c, l) \<in> set channel_layers. count_in c l (kept @ new) = refilled d (count_in c l kept) (n_per_layer ! l)) \<and>
    shards_generated stats' = shards_generated default_stats + length new \<and>
    layers_unrecoverable stats' = layers_unrecoverable default_stats +
      length (filter (\<lambda>(c, l). count_in c l kept < n_per_layer ! l \<and> count_in c l kept = 0) channel_layers)"
    using cnt(2) channel_layers_props k by (intro regen_loop[OF src]) auto
  then obtain new st rng' where L:
    "(rfold (regen_layer gf_new node_id sym_len n_per_layer d cnt) (kept, default_stats, rng) channel_layers :: ('e, _) res)
      = Inr (kept @ new, st, rng')"
    "\<forall>r \<in> set new. rec_ok X sym_len r \<and> (sr_channel r, sr_layer r) \<in> set channel_layers \<and> sr_node r = node_id"
    "\<forall>(c, l) \<in> set channel_layers. count_in c l (kept @ new) = refilled d (count_in c l kept) (n_per_layer ! l)"
    "shards_generated st = shards_generated default_stats + length new"
    "layers_unrecoverable st = layers_unrecoverable default_stats +
      length (filter (\<lambda>(c, l). count_in c l kept < n_per_layer ! l \<and> count_in c l kept = 0) channel_layers)"
    by blast
  have "(regenerate_node gf_new node_id all sym_len n_per_layer d rng :: ('e, _) res) = Inr (kept @ new, st, rng')"
    using cnt(1) L(1) by (simp add: regenerate_node_def kept[symmetric])
  moreover have "\<forall>c < 3. \<forall>l < NLAYERS. count_in c l (kept @ new) = refilled d (count_in c l kept) (n_per_layer ! l)"
    using L(3) channel_layers_props(2) by blast
  moreover have "\<forall>r \<in> set new. rec_ok X sym_len r \<and> sr_node r = node_id" using L(2) by blast
  moreover have "shards_generated st = length new"
    using L(4) by (simp add: default_stats_def)
  moreover have "layers_unrecoverable st = length (filter (\<lambda>(c, l).
      count_in c l kept < n_per_layer ! l \<and> count_in c l kept = 0) channel_layers)"
    using L(5) by (simp add: default_stats_def)
  ultimately show ?thesis by blast
qed

section \<open>Properties\<close>

text \<open>mixing stays inside the code. From donors consistent with one source, whatever random
  coefficients are drawn, \<open>mix_donors\<close> does not panic and returns exactly \<open>need\<close> shards (none without
  donors), each consistent with the same source.\<close>

theorem mix_donors_consistent:
  assumes "explains K sl donors X"
  shows "\<exists>ss rng'. mix_donors gf_new donors need rng = (Inr (ss, rng') :: ('e, _) res) \<and>
    length ss = (if donors = [] then 0 else need) \<and> explains K sl ss X"
  using assms mix_donors_ok[of sl X donors need rng, where 'e = 'e] by (auto simp: explains_def)

theorem mix_donors_consistent_witness:
  "\<exists>ss rng'. mix_donors gf_new (map (systematic (replicate 16 7) K 1) [0..<K]) 5 99 =
     (Inr (ss, rng') :: (unit, _) res) \<and> length ss = 5"
proof -
  have len: "length (replicate 16 (7 :: u8)) = K * 1" by (simp add: K_def)
  have "explains K 1 (map (systematic (replicate 16 7) K 1) [0..<K]) (chunks_of K 1 (replicate 16 7))"
    by (rule systematic_explains[OF len]) simp
  from mix_donors_consistent[OF this, of 5 99, where 'e = unit] show ?thesis by (auto simp: K_def)
qed

text \<open>C5: \<open>regenerate_node\<close> rebuilds a node. When every record holds a shard consistent with the source
  of its channel and layer, it does not panic; it keeps the other nodes' records as they were, appends
  only consistent records owned by the node, and leaves every layer with \<open>max live target\<close> shards,
  except a layer without any donor (or a donor limit of 0), which stays as it was. The statistics count
  the generated shards and the unrecoverable layers.\<close>

theorem regenerate_node_refills:
  assumes "\<forall>c < 3. \<forall>l < NLAYERS. source_ok K (sym_len ! l) (X c l)"
    and "\<forall>r \<in> set all. rec_ok X sym_len r"
    and "kept = filter (\<lambda>r. sr_node r \<noteq> node_id) all"
  shows "\<exists>new stats rng'.
    regenerate_node gf_new node_id all sym_len n_per_layer d rng
      = (Inr (kept @ new, stats, rng') :: ('e, _) res) \<and>
    (\<forall>r \<in> set new. rec_ok X sym_len r \<and> sr_node r = node_id) \<and>
    (\<forall>c < 3. \<forall>l < NLAYERS. count_in c l (kept @ new) = refilled d (count_in c l kept) (n_per_layer ! l)) \<and>
    shards_generated stats = length new \<and>
    layers_unrecoverable stats = length (filter (\<lambda>(c, l).
      count_in c l kept < n_per_layer ! l \<and> count_in c l kept = 0) channel_layers)"
  by (rule regenerate_spec[OF _ assms(2,3)]) (use assms(1) in simp)

theorem regenerate_node_refills_witness:
  "\<exists>new stats rng'.
    regenerate_node gf_new 1 [\<lparr>sr_node = 0, sr_channel = 2, sr_layer = 3,
        sr_shard = systematic (replicate 16 7) K 1 4\<rparr>] [1, 1, 1, 1] [20, 20, 20, 20] 3 77
      = (Inr ([\<lparr>sr_node = 0, sr_channel = 2, sr_layer = 3,
        sr_shard = systematic (replicate 16 7) K 1 4\<rparr>] @ new, stats, rng') :: (unit, _) res) \<and>
    count_in 2 3 new = 19"
proof -
  let ?r = "\<lparr>sr_node = 0, sr_channel = 2, sr_layer = 3, sr_shard = systematic (replicate 16 7) K 1 4\<rparr>"
  let ?X = "\<lambda>(c :: nat) (l :: nat). chunks_of K 1 (replicate 16 7)"
  have len: "length (replicate 16 (7 :: u8)) = K * 1" by (simp add: K_def)
  have 1: "\<forall>c < (3 :: nat). \<forall>l < NLAYERS. source_ok K ([1, 1, 1, 1] ! l) (?X c l)"
  proof (intro allI impI)
    fix c l :: nat
    assume "l < NLAYERS"
    then have "[1, 1, 1, 1 :: nat] ! l = 1" by (auto simp: NLAYERS_def LEVELS_def nth_Cons')
    then show "source_ok K ([1, 1, 1, 1] ! l) (?X c l)" using source_ok_chunks_of[OF len] by simp
  qed
  have 2: "\<forall>r \<in> set [?r]. rec_ok ?X [1, 1, 1, 1] r"
    using systematic_consistent[OF _ len, of 4]
    by (simp add: rec_ok_def NLAYERS_def LEVELS_def K_def)
  have 3: "[?r] = filter (\<lambda>r. sr_node r \<noteq> 1) [?r]" by simp
  have "count_in 2 3 [?r] = 1" by (simp add: count_in_def in_layer_def)
  moreover obtain new stats rng' where
    "regenerate_node gf_new 1 [?r] [1, 1, 1, 1] [20, 20, 20, 20] 3 77
      = (Inr ([?r] @ new, stats, rng') :: (unit, _) res)"
    "\<forall>c < 3. \<forall>l < NLAYERS. count_in c l ([?r] @ new) =
      refilled 3 (count_in c l [?r]) ([20, 20, 20, 20] ! l)"
    using regenerate_node_refills[OF 1 2 3, where n_per_layer = "[20, 20, 20, 20]" and d = 3
        and rng = 77 and 'e = unit] by (elim exE conjE) (rule that)
  moreover from this(2) have "count_in 2 3 ([?r] @ new) = refilled 3 (count_in 2 3 [?r]) ([20, 20, 20, 20] ! 3)"
    by (simp add: NLAYERS_def LEVELS_def)
  ultimately have "count_in 2 3 new = 19"
    unfolding count_in_append by (simp add: refilled_def)
  with \<open>regenerate_node gf_new 1 [?r] [1, 1, 1, 1] [20, 20, 20, 20] 3 77 = _\<close> show ?thesis by blast
qed

end
