(* ===== verification/Path.thy ===== *)
theory Path
  imports Prelude
begin

text \<open>
  \<open>holofs-model/src/path.rs\<close>: catalog path syntax. A path is a string; \<open>split('/')\<close>, \<open>rsplit_once\<close>,
  \<open>starts_with\<close> and the index loop of \<open>ancestors\<close> are written out. The abstract view is the list of
  segments: \<open>path_of\<close> joins segments with slashes and \<open>segments\<close> inverts it. \<open>validate\<close> accepts exactly
  the joins of non-empty lists of good segments, and \<open>parent\<close>, \<open>basename\<close>, \<open>join\<close> and \<open>ancestors\<close> are
  \<open>butlast\<close>, \<open>last\<close>, append and the proper prefixes of that list.
\<close>

section \<open>The code\<close>

datatype path_error =
  Empty | LeadingSlash | TrailingSlash | EmptySegment | DotSegment | DotDotSegment | SegmentTooLong

definition MAX_SEGMENT :: nat where "MAX_SEGMENT = 255"

abbreviation slash :: char where "slash \<equiv> CHR ''/''"

fun split_slash :: "string \<Rightarrow> string list" where
  "split_slash [] = [[]]"
| "split_slash (c # cs) = (if c = slash then [] # split_slash cs
     else (case split_slash cs of seg # r \<Rightarrow> (c # seg) # r | [] \<Rightarrow> [[c]]))"

fun check_segments :: "string list \<Rightarrow> path_error option" where
  "check_segments [] = None"
| "check_segments (seg # r) =
     (if seg = [] then Some EmptySegment
      else if seg = ''.'' then Some DotSegment
      else if seg = ''..'' then Some DotDotSegment
      else if length seg > MAX_SEGMENT then Some SegmentTooLong
      else check_segments r)"

definition validate :: "string \<Rightarrow> (path_error, string) res" where
  "validate path =
     (if path = [] then Inl (Err Empty)
      else if hd path = slash then Inl (Err LeadingSlash)
      else if last path = slash then Inl (Err TrailingSlash)
      else case check_segments (split_slash path) of Some e \<Rightarrow> Inl (Err e) | None \<Rightarrow> Inr path)"

definition rsplit_once :: "string \<Rightarrow> (string \<times> string) option" where
  "rsplit_once s = (case dropWhile (\<lambda>c. c \<noteq> slash) (rev s) of
     [] \<Rightarrow> None | _ # r \<Rightarrow> Some (rev r, rev (takeWhile (\<lambda>c. c \<noteq> slash) (rev s))))"

definition parent :: "string \<Rightarrow> string option" where
  "parent path = map_option fst (rsplit_once path)"

definition basename :: "string \<Rightarrow> string" where
  "basename path = (case rsplit_once path of Some (_, n) \<Rightarrow> n | None \<Rightarrow> path)"

definition segments :: "string \<Rightarrow> string list" where
  "segments path = split_slash path"

definition join :: "string \<Rightarrow> string \<Rightarrow> string" where
  "join par child = (if par = [] then child else par @ slash # child)"

text \<open>\<open>path[start..].find('/')\<close>.\<close>

definition find_slash :: "string \<Rightarrow> nat option" where
  "find_slash s = (if slash \<in> set s then Some (length (takeWhile (\<lambda>c. c \<noteq> slash) s)) else None)"

lemma find_slash_less: "find_slash s = Some n \<Longrightarrow> n < length s"
proof -
  assume "find_slash s = Some n"
  then have "slash \<in> set s" and n: "n = length (takeWhile (\<lambda>c. c \<noteq> slash) s)"
    by (simp_all add: find_slash_def split: if_splits)
  then obtain a b where "s = a @ slash # b" by (meson split_list)
  then have "takeWhile (\<lambda>c. c \<noteq> slash) s = takeWhile (\<lambda>c. c \<noteq> slash) a"
    by (induction a arbitrary: s) auto
  then have "n \<le> length a" using n by (simp add: length_takeWhile_le)
  with \<open>s = a @ slash # b\<close> show ?thesis by simp
qed

function ancestors_from :: "string \<Rightarrow> nat \<Rightarrow> string list" where
  "ancestors_from path start = (case find_slash (drop start path) of
     None \<Rightarrow> []
   | Some rel \<Rightarrow> take (start + rel) path # ancestors_from path (start + rel + 1))"
  by pat_completeness auto
termination
  by (relation "measure (\<lambda>(p, s). length p - s)") (auto dest: find_slash_less)

declare ancestors_from.simps [simp del]

definition ancestors :: "string \<Rightarrow> string list" where
  "ancestors path = ancestors_from path 0"

section \<open>Paths as lists of segments\<close>

fun path_of :: "string list \<Rightarrow> string" where
  "path_of [] = []"
| "path_of [s] = s"
| "path_of (s # t # r) = s @ slash # path_of (t # r)"

definition plain :: "string \<Rightarrow> bool" where
  "plain s \<longleftrightarrow> slash \<notin> set s"

definition good_segment :: "string \<Rightarrow> bool" where
  "good_segment s \<longleftrightarrow> s \<noteq> [] \<and> plain s \<and> s \<noteq> ''.'' \<and> s \<noteq> ''..'' \<and> length s \<le> MAX_SEGMENT"

lemma path_of_Cons: "r \<noteq> [] \<Longrightarrow> path_of (s # r) = s @ slash # path_of r"
  by (cases r) auto

lemma path_of_snoc: "r \<noteq> [] \<Longrightarrow> path_of (r @ [s]) = path_of r @ slash # s"
proof (induction r)
  case Nil
  then show ?case by simp
next
  case (Cons a r)
  then show ?case by (cases "r = []") (auto simp: path_of_Cons)
qed

lemma split_slash_ne [simp]: "split_slash s \<noteq> []"
  by (induction s) (auto split: list.splits)

lemma split_slash_plain: "list_all plain (split_slash s)"
  by (induction s) (auto simp: plain_def split: list.splits)

lemma path_of_split [simp]: "path_of (split_slash s) = s"
proof (induction s)
  case Nil
  then show ?case by simp
next
  case (Cons c s)
  obtain seg r where sr: "split_slash s = seg # r" by (cases "split_slash s") auto
  with Cons show ?case by (cases r) (auto simp: path_of_Cons)
qed

lemma split_plain: "plain s \<Longrightarrow> split_slash s = [s]"
  by (induction s) (auto simp: plain_def)

lemma split_slash_append: "plain s \<Longrightarrow> split_slash (s @ slash # t) = s # split_slash t"
  by (induction s) (auto simp: plain_def)

lemma split_path_of: "segs \<noteq> [] \<Longrightarrow> list_all plain segs \<Longrightarrow> split_slash (path_of segs) = segs"
  by (induction segs rule: path_of.induct) (auto simp: split_plain split_slash_append)

lemma path_of_inject:
  "segs \<noteq> [] \<Longrightarrow> segs' \<noteq> [] \<Longrightarrow> list_all plain segs \<Longrightarrow> list_all plain segs' \<Longrightarrow>
     path_of segs = path_of segs' \<longleftrightarrow> segs = segs'"
  using split_path_of by metis

lemma check_segments_None:
  "list_all plain segs \<Longrightarrow> check_segments segs = None \<longleftrightarrow> list_all good_segment segs"
  by (induction segs) (auto simp: good_segment_def)

lemma split_hd: "s \<noteq> [] \<Longrightarrow> hd s = slash \<Longrightarrow> hd (split_slash s) = []"
  by (cases s) auto

lemma split_last: "s \<noteq> [] \<Longrightarrow> last s = slash \<Longrightarrow> last (split_slash s) = []"
proof (induction s)
  case (Cons c s)
  show ?case
  proof (cases "s = []")
    case False
    then have l: "last (split_slash s) = []" using Cons by simp
    obtain seg r where sr: "split_slash s = seg # r" by (cases "split_slash s") auto
    have "r \<noteq> []"
    proof
      assume "r = []"
      with sr l have "split_slash s = [[]]" by simp
      then have "s = []" by (metis path_of.simps(2) path_of_split)
      with False show False by simp
    qed
    with sr l show ?thesis by auto
  qed (use Cons in auto)
qed simp

lemma validate_Inr: "validate p = Inr q \<longleftrightarrow> q = p \<and> list_all good_segment (split_slash p)"
proof
  assume "validate p = Inr q"
  then show "q = p \<and> list_all good_segment (split_slash p)"
    using check_segments_None[OF split_slash_plain[of p]]
    by (auto simp: validate_def split: if_splits option.splits)
next
  assume r: "q = p \<and> list_all good_segment (split_slash p)"
  then have g: "\<And>s. s \<in> set (split_slash p) \<Longrightarrow> s \<noteq> []" by (auto simp: list_all_iff good_segment_def)
  have "p \<noteq> []" using r by (auto simp: good_segment_def)
  moreover from this g split_hd[of p] split_last[of p] have "hd p \<noteq> slash" "last p \<noteq> slash"
    by (metis hd_in_set split_slash_ne, metis last_in_set split_slash_ne)
  ultimately show "validate p = Inr q"
    using r check_segments_None[OF split_slash_plain[of p]] by (simp add: validate_def)
qed

definition valid_path :: "string \<Rightarrow> bool" where
  "valid_path p \<longleftrightarrow> list_all good_segment (split_slash p)"

lemma valid_path_iff: "valid_path p \<longleftrightarrow> (\<exists>segs. segs \<noteq> [] \<and> list_all good_segment segs \<and> p = path_of segs)"
proof
  assume "valid_path p"
  then show "\<exists>segs. segs \<noteq> [] \<and> list_all good_segment segs \<and> p = path_of segs"
    by (intro exI[of _ "split_slash p"]) (simp add: valid_path_def)
next
  assume "\<exists>segs. segs \<noteq> [] \<and> list_all good_segment segs \<and> p = path_of segs"
  then obtain segs where "segs \<noteq> []" "list_all good_segment segs" "p = path_of segs" by blast
  moreover from this(2) have "list_all plain segs" by (auto simp: list_all_iff good_segment_def)
  ultimately show "valid_path p" by (simp add: valid_path_def split_path_of)
qed

lemma rsplit_plain: "plain s \<Longrightarrow> rsplit_once s = None"
  by (auto simp: rsplit_once_def plain_def split: list.split dest!: dropWhile_eq_Cons_conv[THEN iffD1])
     (metis in_set_conv_decomp set_rev set_takeWhileD)

lemma rsplit_append: "plain s \<Longrightarrow> rsplit_once (p @ slash # s) = Some (p, s)"
proof -
  assume "plain s"
  then have "dropWhile (\<lambda>c. c \<noteq> slash) (rev s @ slash # rev p) = slash # rev p"
    and "takeWhile (\<lambda>c. c \<noteq> slash) (rev s @ slash # rev p) = rev s"
    by (auto simp: plain_def dropWhile_append3 takeWhile_tail)
  then show ?thesis by (simp add: rsplit_once_def)
qed

lemma rsplit_path_of:
  assumes "segs \<noteq> []" and "list_all plain segs"
  shows "rsplit_once (path_of segs) =
    (if length segs = 1 then None else Some (path_of (butlast segs), last segs))"
proof -
  have pl: "plain (last segs)" using assms by (auto simp: list_all_iff)
  show ?thesis
  proof (cases "butlast segs = []")
    case True
    then obtain s where "segs = [s]" using assms(1) by (metis append_Nil append_butlast_last_id)
    then show ?thesis using pl rsplit_plain by simp
  next
    case False
    have "path_of segs = path_of (butlast segs) @ slash # last segs"
      using path_of_snoc[OF False, of "last segs"] assms(1) by simp
    moreover have "length segs \<noteq> 1" using False by (cases segs) auto
    ultimately show ?thesis using rsplit_append[OF pl] by simp
  qed
qed

lemma ancestors_from_split:
  "ancestors_from (pre @ suf) (length pre) =
     map (\<lambda>i. pre @ path_of (take i (split_slash suf))) [1..<length (split_slash suf)]"
proof (induction suf arbitrary: pre rule: length_induct)
  case (1 suf)
  show ?case
  proof (cases "slash \<in> set suf")
    case False
    then show ?thesis
      by (subst ancestors_from.simps) (simp add: find_slash_def split_plain plain_def)
  next
    case True
    then obtain a b where ab: "suf = a @ slash # b" "slash \<notin> set a" by (meson split_list_first)
    then have a: "plain a" by (simp add: plain_def)
    have "takeWhile (\<lambda>c. c \<noteq> slash) (a @ slash # b) = a"
      using ab(2) by (induction a) auto
    then have f: "find_slash suf = Some (length a)" using ab by (simp add: find_slash_def)
    have sp: "split_slash suf = a # split_slash b" using ab a by (simp add: split_slash_append)
    let ?n = "length (split_slash b)"
    have n: "?n > 0" by simp
    have "ancestors_from (pre @ suf) (length pre) =
        (pre @ a) # ancestors_from ((pre @ a @ [slash]) @ b) (length (pre @ a @ [slash]))"
      using f ab by (subst ancestors_from.simps) (simp add: add.assoc)
    also have "ancestors_from ((pre @ a @ [slash]) @ b) (length (pre @ a @ [slash])) =
        map (\<lambda>i. (pre @ a @ [slash]) @ path_of (take i (split_slash b))) [1..<?n]"
    proof -
      have "length b < length suf" using ab by simp
      with 1 show ?thesis by blast
    qed
    also have "(pre @ a) # map (\<lambda>i. (pre @ a @ [slash]) @ path_of (take i (split_slash b))) [1..<?n] =
        map (\<lambda>i. pre @ path_of (take i (split_slash suf))) [1..<length (split_slash suf)]"
    proof -
      have "[1..<Suc ?n] = 1 # map Suc [1..<?n]" using n by (subst upt_conv_Cons) (auto simp: map_Suc_upt)
      moreover have "(pre @ a @ [slash]) @ path_of (take i (split_slash b)) =
          pre @ path_of (take (Suc i) (split_slash suf))" if "i \<in> set [1..<?n]" for i
      proof -
        have "take i (split_slash b) \<noteq> []" using that by auto
        then show ?thesis by (simp add: sp path_of_Cons)
      qed
      ultimately show ?thesis using sp by simp
    qed
    finally show ?thesis .
  qed
qed

lemma ancestors_split:
  "ancestors p = map (\<lambda>i. path_of (take i (split_slash p))) [1..<length (split_slash p)]"
  using ancestors_from_split[of "[]" p] by (simp add: ancestors_def)

lemma ancestors_parent:
  "ancestors p = (case parent p of None \<Rightarrow> [] | Some q \<Rightarrow> ancestors q @ [q])"
proof -
  let ?s = "split_slash p"
  have pl: "list_all plain ?s" by (rule split_slash_plain)
  have r: "rsplit_once p = (if length ?s = 1 then None else Some (path_of (butlast ?s), last ?s))"
    using rsplit_path_of[OF split_slash_ne pl] by simp
  show ?thesis
  proof (cases "length ?s = 1")
    case True
    with r show ?thesis by (simp add: ancestors_split parent_def)
  next
    case False
    have n: "length ?s > 1" using False by (metis One_nat_def Suc_lessI length_greater_0_conv split_slash_ne)
    then have b: "butlast ?s \<noteq> []" by (metis length_butlast length_greater_0_conv zero_less_diff)
    have "split_slash (path_of (butlast ?s)) = butlast ?s"
      using b pl by (intro split_path_of) (auto simp: list_all_iff dest: in_set_butlastD)
    then have "ancestors (path_of (butlast ?s)) =
        map (\<lambda>i. path_of (take i (butlast ?s))) [1..<length ?s - 1]"
      by (simp add: ancestors_split)
    moreover have "take i (butlast ?s) = take i ?s" if "i \<in> set [1..<length ?s - 1]" for i
      using that by (simp add: butlast_conv_take)
    moreover have "[1..<length ?s] = [1..<length ?s - 1] @ [length ?s - 1]"
      using n by (metis One_nat_def Suc_pred length_greater_0_conv less_Suc_eq_le split_slash_ne upt_Suc_append zero_less_diff)
    ultimately show ?thesis using False r
      by (simp add: parent_def ancestors_split[of p] butlast_conv_take)
  qed
qed

lemma check_segments_Some:
  "check_segments segs = Some e \<Longrightarrow> (case e of
     EmptySegment \<Rightarrow> [] \<in> set segs | DotSegment \<Rightarrow> ''.'' \<in> set segs | DotDotSegment \<Rightarrow> ''..'' \<in> set segs
   | SegmentTooLong \<Rightarrow> (\<exists>s \<in> set segs. length s > MAX_SEGMENT) | _ \<Rightarrow> False)"
  by (induction segs) (auto split: path_error.splits if_splits)

section \<open>Properties\<close>

text \<open>\<open>validate\<close> is exact. It returns its argument precisely for the joins of non-empty lists of good
  segments (non-empty, without slash, not \<open>.\<close> or \<open>..\<close>, at most 255 bytes); otherwise it returns an error
  that names a rule the path breaks; it never panics.\<close>

theorem validate_exact:
  "case validate p of
     Inr q \<Rightarrow> q = p \<and> (\<exists>segs. segs \<noteq> [] \<and> list_all good_segment segs \<and> p = path_of segs)
   | Inl Panic \<Rightarrow> False
   | Inl (Err e) \<Rightarrow> (\<nexists>segs. segs \<noteq> [] \<and> list_all good_segment segs \<and> p = path_of segs) \<and>
       (case e of
          Empty \<Rightarrow> p = []
        | LeadingSlash \<Rightarrow> \<exists>r. p = slash # r
        | TrailingSlash \<Rightarrow> \<exists>r. p = r @ [slash]
        | EmptySegment \<Rightarrow> [] \<in> set (segments p)
        | DotSegment \<Rightarrow> ''.'' \<in> set (segments p)
        | DotDotSegment \<Rightarrow> ''..'' \<in> set (segments p)
        | SegmentTooLong \<Rightarrow> \<exists>s \<in> set (segments p). length s > MAX_SEGMENT)"
proof (cases "valid_path p")
  case True
  then show ?thesis using validate_Inr[of p p] by (simp add: valid_path_def valid_path_iff[symmetric])
next
  case False
  then have n: "\<nexists>q. validate p = Inr q" using validate_Inr[of p] by (auto simp: valid_path_def)
  consider "p = []" | r where "p = slash # r" | r where "p = r @ [slash]" "p \<noteq> []" "hd p \<noteq> slash"
    | "p \<noteq> []" "hd p \<noteq> slash" "last p \<noteq> slash"
    by (metis append_butlast_last_id list.collapse)
  then show ?thesis
  proof cases
    case 1
    with False show ?thesis by (simp add: validate_def valid_path_iff[symmetric])
  next
    case (2 r)
    with False show ?thesis by (simp add: validate_def valid_path_iff[symmetric])
  next
    case (3 r)
    with False show ?thesis by (simp add: validate_def valid_path_iff[symmetric])
  next
    case 4
    with n obtain e where "check_segments (split_slash p) = Some e" "validate p = Inl (Err e)"
      by (cases "check_segments (split_slash p)") (auto simp: validate_def)
    with check_segments_Some[OF this(1)] False show ?thesis
      by (simp add: valid_path_iff[symmetric] segments_def split: path_error.splits)
  qed
qed

text \<open>on a path with the segments \<open>s1/.../sn\<close>, \<open>segments\<close> returns them, \<open>basename\<close> is the last,
  \<open>parent\<close> the join of the others (\<open>None\<close> at top level), \<open>join\<close> of the two gives the path back, and
  \<open>ancestors\<close> lists the proper non-empty prefixes from the root down, all of them valid paths.\<close>

theorem path_operations:
  assumes "segs \<noteq> []" and "list_all good_segment segs"
  shows "segments (path_of segs) = segs \<and> basename (path_of segs) = last segs \<and>
    parent (path_of segs) = (if length segs = 1 then None else Some (path_of (butlast segs))) \<and>
    join (case parent (path_of segs) of Some q \<Rightarrow> q | None \<Rightarrow> []) (basename (path_of segs)) = path_of segs \<and>
    ancestors (path_of segs) = map (\<lambda>i. path_of (take i segs)) [1..<length segs] \<and>
    list_all valid_path (ancestors (path_of segs))"
proof -
  have pl: "list_all plain segs" using assms(2) by (auto simp: list_all_iff good_segment_def)
  have sp: "split_slash (path_of segs) = segs" using assms(1) pl by (rule split_path_of)
  note r = rsplit_path_of[OF assms(1) pl]
  have par: "parent (path_of segs) = (if length segs = 1 then None else Some (path_of (butlast segs)))"
    using r by (simp add: parent_def)
  have base: "basename (path_of segs) = last segs"
    using r by (cases segs) (auto simp: basename_def)
  have anc: "ancestors (path_of segs) = map (\<lambda>i. path_of (take i segs)) [1..<length segs]"
    by (simp add: ancestors_split sp)
  have val: "valid_path (path_of (take i segs))" if "0 < i" for i
    unfolding valid_path_iff using that assms
    by (intro exI[of _ "take i segs"]) (auto simp: list_all_iff dest: in_set_takeD)
  have "join (case parent (path_of segs) of Some q \<Rightarrow> q | None \<Rightarrow> []) (basename (path_of segs)) = path_of segs"
  proof (cases "length segs = 1")
    case True
    then show ?thesis using par base by (cases segs) (auto simp: join_def)
  next
    case False
    then have b: "butlast segs \<noteq> []" using assms(1) by (cases segs) auto
    have "list_all good_segment (butlast segs)"
      using assms(2) by (auto simp: list_all_iff dest: in_set_butlastD)
    with b have "path_of (butlast segs) \<noteq> []"
      by (cases "butlast segs"; cases "tl (butlast segs)") (auto simp: good_segment_def)
    moreover have "path_of (butlast segs) @ slash # last segs = path_of segs"
      using path_of_snoc[OF b, of "last segs"] assms(1) by simp
    ultimately show ?thesis using False par base by (simp add: join_def)
  qed
  with par base anc val sp show ?thesis by (auto simp: segments_def list_all_iff)
qed

theorem path_operations_witness:
  "segments ''a/b/c.txt'' = [''a'', ''b'', ''c.txt''] \<and> parent ''a/b/c.txt'' = Some ''a/b'' \<and>
   ancestors ''a/b/c.txt'' = [''a'', ''a/b'']"
  using path_operations[of "[''a'', ''b'', ''c.txt'']"]
  by (simp add: good_segment_def plain_def MAX_SEGMENT_def upt_rec)

end
