(* ===== verification/Codec.thy ===== *)
theory Codec
  imports Prelude
begin

text \<open>
  The byte cursor of the binary formats (\<open>Cursor\<close> in \<open>holofs-model/src/manifest.rs\<close> and, with the
  same methods, in \<open>holofs-wire/src/wire.rs\<close>) and the interface every serialised type meets.

  A cursor \<open>{ buf, pos }\<close> is only ever read forwards, so it is modelled by its unread suffix
  \<open>buf[pos..]\<close>: \<open>c_take n\<close> fails with \<open>UnexpectedEof\<close> exactly when fewer than \<open>n\<close> bytes are left and
  otherwise returns the next \<open>n\<close> bytes and the new suffix.

  \<open>codec\<close> is the contract between an encoder and a decoder; \<open>canonical_codec\<close> adds that the decoder
  accepts nothing but encodings, from which it follows that no strict prefix of an encoding decodes.
\<close>

section \<open>The cursor\<close>

definition c_take :: "nat \<Rightarrow> bytes \<Rightarrow> (io_error, bytes \<times> bytes) res" where
  "c_take n c = (if length c < n then Inl (Err UnexpectedEof) else Inr (take n c, drop n c))"

definition c_u8 :: "bytes \<Rightarrow> (io_error, u8 \<times> bytes) res" where
  "c_u8 c = rbind (c_take 1 c) (\<lambda>(b, c). Inr (b ! 0, c))"

definition c_u16 :: "bytes \<Rightarrow> (io_error, u16 \<times> bytes) res" where
  "c_u16 c = rbind (c_take 2 c) (\<lambda>(b, c). Inr (word_of_nat (be_val b), c))"

definition c_u32 :: "bytes \<Rightarrow> (io_error, u32 \<times> bytes) res" where
  "c_u32 c = rbind (c_take 4 c) (\<lambda>(b, c). Inr (word_of_nat (be_val b), c))"

definition c_u64 :: "bytes \<Rightarrow> (io_error, u64 \<times> bytes) res" where
  "c_u64 c = rbind (c_take 8 c) (\<lambda>(b, c). Inr (word_of_nat (be_val b), c))"

text \<open>The loops \<open>for _ in 0..n { v.push(dec(c)?) }\<close>.\<close>

fun c_many :: "(bytes \<Rightarrow> ('e, 'a \<times> bytes) res) \<Rightarrow> nat \<Rightarrow> bytes \<Rightarrow> ('e, 'a list \<times> bytes) res" where
  "c_many dec 0 c = Inr ([], c)"
| "c_many dec (Suc n) c =
     rbind (dec c) (\<lambda>(x, c). rbind (c_many dec n c) (\<lambda>(xs, c). Inr (x # xs, c)))"

text \<open>\<open>uN::to_be_bytes\<close>.\<close>

definition u16_be :: "u16 \<Rightarrow> bytes" where "u16_be w = be_bytes 2 (unat w)"
definition u32_be :: "u32 \<Rightarrow> bytes" where "u32_be w = be_bytes 4 (unat w)"
definition u64_be :: "u64 \<Rightarrow> bytes" where "u64_be w = be_bytes 8 (unat w)"

lemma length_u_be [simp]:
  "length (u16_be v) = 2" "length (u32_be w) = 4" "length (u64_be x) = 8"
  by (simp_all add: u16_be_def u32_be_def u64_be_def)

section \<open>The codec interface\<close>

locale codec =
  fixes enc :: "'a \<Rightarrow> bytes"
    and dec :: "bytes \<Rightarrow> ('e, 'a \<times> bytes) res"
    and wf :: "'a \<Rightarrow> bool"
  assumes dec_enc: "wf x \<Longrightarrow> dec (enc x @ rest) = Inr (x, rest)"
begin

lemma dec_enc_end: "wf x \<Longrightarrow> dec (enc x) = Inr (x, [])"
  using dec_enc[of x "[]"] by simp

lemma enc_inject: "wf x \<Longrightarrow> wf y \<Longrightarrow> enc x @ r = enc y @ s \<Longrightarrow> x = y \<and> r = s"
  using dec_enc[of x r] dec_enc[of y s] by (metis Inr_inject prod.inject)

lemma many_enc:
  "list_all wf xs \<Longrightarrow> length xs = n \<Longrightarrow> c_many dec n (concat (map enc xs) @ rest) = Inr (xs, rest)"
  by (induction xs arbitrary: n) (auto simp: dec_enc)

end

locale canonical_codec = codec +
  assumes dec_sound: "dec c = Inr (x, rest) \<Longrightarrow> wf x \<and> c = enc x @ rest"
begin

lemma prefix_rejected:
  assumes "wf x" and "enc x = p @ q" and "q \<noteq> []"
  shows "\<nexists>y rest. dec p = Inr (y, rest)"
proof
  assume "\<exists>y rest. dec p = Inr (y, rest)"
  then obtain y rest where y: "dec p = Inr (y, rest)" by blast
  then have "wf y" and "p = enc y @ rest" using dec_sound by blast+
  with assms(2) have "enc x @ [] = enc y @ (rest @ q)" by simp
  with enc_inject[OF assms(1) \<open>wf y\<close>] have "rest @ q = []" by blast
  with assms(3) show False by simp
qed

lemma many_sound:
  "c_many dec n c = Inr (xs, rest) \<Longrightarrow>
     list_all wf xs \<and> length xs = n \<and> c = concat (map enc xs) @ rest"
proof (induction n arbitrary: c xs)
  case 0
  then show ?case by simp
next
  case (Suc n)
  then obtain y c' ys where y: "dec c = Inr (y, c')" "c_many dec n c' = Inr (ys, rest)" "xs = y # ys"
    by (auto simp: rbind_eq_Inr split: prod.splits)
  from dec_sound[OF y(1)] Suc.IH[OF y(2)] y(3) show ?case by auto
qed

end

section \<open>Codecs of the primitive fields\<close>

lemma c_take_append [simp]: "length bs = n \<Longrightarrow> c_take n (bs @ rest) = Inr (bs, rest)"
  by (auto simp: c_take_def)

lemma c_take_sound: "c_take n c = Inr (bs, rest) \<Longrightarrow> length bs = n \<and> c = bs @ rest"
  by (auto simp: c_take_def split: if_splits)

lemma c_take_Cons1 [simp]: "c_take 1 (b # rest) = Inr ([b], rest)"
  by (simp add: c_take_def)

lemma be_word_sound:
  assumes "c_take n c = Inr (bs, rest)" and "LENGTH('l) = 8 * n"
  shows "c = be_bytes n (unat (word_of_nat (be_val bs) :: 'l::len word)) @ rest"
proof -
  from c_take_sound[OF assms(1)] have l: "length bs = n" and c: "c = bs @ rest" by auto
  have "be_val bs < 2 ^ LENGTH('l)"
    using be_val_less[of bs] by (simp add: assms(2) l power_mult)
  then have "unat (word_of_nat (be_val bs) :: 'l word) = be_val bs"
    by (simp add: unat_of_nat take_bit_eq_mod)
  with be_bytes_be_val[of bs] l c show ?thesis by simp
qed

interpretation u8_codec: canonical_codec "\<lambda>b. [b]" c_u8 "\<lambda>_. True"
proof unfold_locales
  show "c_u8 ([x] @ rest) = Inr (x, rest)" for x rest by (simp add: c_u8_def c_take_def)
  show "True \<and> c = [x] @ rest" if "c_u8 c = Inr (x, rest)" for c x rest
    using that by (cases c) (auto simp: c_u8_def c_take_def rbind_eq_Inr split: if_splits)
qed

interpretation u16_codec: canonical_codec u16_be c_u16 "\<lambda>_. True"
  by unfold_locales
    (auto simp: u16_be_def c_u16_def word_of_be_bytes rbind_eq_Inr dest: be_word_sound[where 'l = 16])

interpretation u32_codec: canonical_codec u32_be c_u32 "\<lambda>_. True"
  by unfold_locales
    (auto simp: u32_be_def c_u32_def word_of_be_bytes rbind_eq_Inr dest: be_word_sound[where 'l = 32])

interpretation u64_codec: canonical_codec u64_be c_u64 "\<lambda>_. True"
  by unfold_locales
    (auto simp: u64_be_def c_u64_def word_of_be_bytes rbind_eq_Inr dest: be_word_sound[where 'l = 64])

text \<open>A fixed-size array field (\<open>[u8; 32]\<close>, \<open>[u8; 64]\<close>).\<close>

interpretation hash_codec: canonical_codec "\<lambda>bs. bs" "c_take 32" "\<lambda>bs. length bs = 32"
  by unfold_locales (auto dest: c_take_sound)

interpretation sig_codec: canonical_codec "\<lambda>bs. bs" "c_take 64" "\<lambda>bs. length bs = 64"
  by unfold_locales (auto dest: c_take_sound)

lemma c_u8_Cons [simp]: "c_u8 (b # rest) = Inr (b, rest)"
  using u8_codec.dec_enc[of b rest] by simp

lemmas prim_codec [simp] =
  u16_codec.dec_enc[OF TrueI] u32_codec.dec_enc[OF TrueI] u64_codec.dec_enc[OF TrueI]

lemma many_u32 [simp]:
  "n = length ns \<Longrightarrow> c_many c_u32 n (concat (map u32_be ns) @ rest) = Inr (ns, rest)"
  by (rule u32_codec.many_enc) (auto simp: list_all_iff)

lemma many_hash [simp]:
  "list_all (\<lambda>h. length h = 32) hs \<Longrightarrow> n = length hs \<Longrightarrow>
     c_many (c_take 32) n (concat hs @ rest) = Inr (hs, rest)"
  using hash_codec.many_enc[of hs n rest] by simp

text \<open>A length written by a cast (\<open>(xs.len() as u16).to_be_bytes()\<close>).\<close>

lemma be_bytes_mod: "be_bytes n (x mod 256 ^ n) = be_bytes n x"
  using be_bytes_be_val[of "be_bytes n x"] by (simp add: be_val_be_bytes)

lemma len_be [simp]:
  "be_bytes 2 n = u16_be (word_of_nat n)"
  "be_bytes 4 n = u32_be (word_of_nat n)"
  "be_bytes 8 n = u64_be (word_of_nat n)"
  using be_bytes_mod[of 2 n] be_bytes_mod[of 4 n] be_bytes_mod[of 8 n]
  by (simp_all add: u16_be_def u32_be_def u64_be_def unat_of_nat take_bit_eq_mod)

lemma unat_len [simp]:
  "n < 2 ^ 16 \<Longrightarrow> unat (word_of_nat n :: u16) = n"
  "n < 2 ^ 32 \<Longrightarrow> unat (word_of_nat n :: u32) = n"
  "n < 2 ^ 64 \<Longrightarrow> unat (word_of_nat n :: u64) = n"
  by (simp_all add: unat_of_nat take_bit_eq_mod)

end
