(* ===== verification/Placement.thy ===== *)
theory Placement
  imports Codec
begin

text \<open>
  \<open>holofs-model/src/placement.rs\<close>: which node a shard goes to. \<open>place\<close> implements round robin and
  rendezvous hashing (HRW); \<open>place_layer_zone_aware\<close> lays out a whole layer under a quota per zone.

  The contract of HRW is the locale \<open>stable_choice\<close>: the choice is a member, and restricting the
  candidates keeps it as long as it is still there; the lemmas inside it are the minimal-disruption
  statements the module promises. For the zone-aware layout the result is that every zone receives at
  most \<open>ceil(n / z)\<close> shards, because the fallback for exhausted quotas is never taken.
\<close>

section \<open>The code\<close>

datatype placement = RoundRobin | Rendezvous | RendezvousZoneAware

record shard_key =
  sk_object_id :: u64
  sk_channel :: u8
  sk_layer :: u8
  sk_shard_idx :: u32

definition mix64 :: "u64 \<Rightarrow> u64" where
  "mix64 z =
     (let z = z + 0x9E3779B97F4A7C15;
          z = (z XOR drop_bit 30 z) * 0xBF58476D1CE4E5B9;
          z = (z XOR drop_bit 27 z) * 0x94D049BB133111EB
      in z XOR drop_bit 31 z)"

definition rendezvous_hash :: "shard_key \<Rightarrow> nat \<Rightarrow> u64" where
  "rendezvous_hash key node =
     (let h = mix64 (sk_object_id key);
          h = h XOR mix64 (word_of_nat node * 0x9E3779B97F4A7C15);
          h = h XOR mix64 (push_bit 16 (ucast (sk_shard_idx key))
                           OR push_bit 8 (ucast (sk_channel key)) OR ucast (sk_layer key))
      in mix64 h)"

text \<open>\<open>binary_search(&x).is_ok()\<close> on the half-open range \<open>[lo, hi)\<close>; only meaningful on a sorted
  slice.\<close>

function binary_search :: "'a::linorder list \<Rightarrow> 'a \<Rightarrow> nat \<Rightarrow> nat \<Rightarrow> bool" where
  "binary_search xs x lo hi =
     (if lo < hi then
        let mid = (lo + hi) div 2 in
        if xs ! mid = x then True
        else if xs ! mid < x then binary_search xs x (mid + 1) hi
        else binary_search xs x lo mid
      else False)"
  by pat_completeness auto
termination by (relation "measure (\<lambda>(xs, x, lo, hi). hi - lo)") auto

declare binary_search.simps [simp del]

definition hrw_step :: "shard_key \<Rightarrow> nat \<Rightarrow> u64 \<times> nat \<Rightarrow> u64 \<times> nat" where
  "hrw_step key node best =
     (let h = rendezvous_hash key node in if fst best \<le> h then (h, node) else best)"

definition hrw_node :: "shard_key \<Rightarrow> nat list \<Rightarrow> nat" where
  "hrw_node key live = snd (fold (hrw_step key) live (0, hd live))"

definition round_robin_pos :: "shard_key \<Rightarrow> nat \<Rightarrow> nat" where
  "round_robin_pos key total_nodes =
     (let seed = mix64 (sk_object_id key XOR push_bit 16 (ucast (sk_channel key))
                        XOR push_bit 8 (ucast (sk_layer key)))
      in unat (seed + ucast (sk_shard_idx key)) mod total_nodes)"

text \<open>\<open>assert!\<close> on an empty live set, the remainder by 0 nodes and the final \<open>unreachable!\<close> panic.\<close>

definition place :: "placement \<Rightarrow> shard_key \<Rightarrow> nat \<Rightarrow> nat list \<Rightarrow> ('e, nat) res" where
  "place scheme key total_nodes live =
     rbind (rassert (live \<noteq> [])) (\<lambda>_.
       case scheme of
         RoundRobin \<Rightarrow>
           if total_nodes = 0 then Inl Panic
           else (case List.find (\<lambda>cand. binary_search live cand 0 (length live))
                   (map (\<lambda>off. (round_robin_pos key total_nodes + off) mod total_nodes) [0..<total_nodes]) of
                   Some cand \<Rightarrow> Inr cand
                 | None \<Rightarrow> Inl Panic)
       | _ \<Rightarrow> Inr (hrw_node key live))"

section \<open>The zone-aware layout\<close>

definition zone_scored :: "shard_key \<Rightarrow> nat list \<Rightarrow> nat list" where
  "zone_scored key live =
     map snd (rev (sort_key fst (rev (map (\<lambda>n. (rendezvous_hash key n, n)) live))))"

text \<open>One shard: the best-scored node whose zone is within quota, else the best-scored node. \<open>used\<close> is
  the \<open>HashMap\<close> of zone counters, with its default 0.\<close>

definition zone_pick :: "shard_key \<Rightarrow> nat list \<Rightarrow> u8 list \<Rightarrow> nat \<Rightarrow> (u8 \<Rightarrow> nat) \<Rightarrow> nat" where
  "zone_pick key live zones quota used =
     (case List.find (\<lambda>n. used (zones ! n) < quota) (zone_scored key live) of
        Some n \<Rightarrow> n | None \<Rightarrow> hd (zone_scored key live))"

definition zone_step ::
  "u64 \<Rightarrow> u8 \<Rightarrow> u8 \<Rightarrow> nat list \<Rightarrow> u8 list \<Rightarrow> nat \<Rightarrow> nat \<Rightarrow> (u8 \<Rightarrow> nat) \<times> nat list \<Rightarrow> (u8 \<Rightarrow> nat) \<times> nat list" where
  "zone_step oid c l live zones quota idx st = (case st of (used, out) \<Rightarrow>
     (let key = \<lparr>sk_object_id = oid, sk_channel = c, sk_layer = l, sk_shard_idx = word_of_nat idx\<rparr>;
          node = zone_pick key live zones quota used
      in (used(zones ! node := used (zones ! node) + 1), out @ [node])))"

definition zone_quota :: "u32 \<Rightarrow> u8 list \<Rightarrow> nat list \<Rightarrow> nat" where
  "zone_quota n_shards zones live =
     (let nz = max (length (remdups (map (\<lambda>n. zones ! n) live))) 1
      in unat ((n_shards + word_of_nat nz - 1) div word_of_nat nz))"

text \<open>Indexing \<open>zones\<close> by a live node panics out of range.\<close>

definition place_layer_zone_aware ::
  "u64 \<Rightarrow> u8 \<Rightarrow> u8 \<Rightarrow> u32 \<Rightarrow> nat \<Rightarrow> nat list \<Rightarrow> u8 list \<Rightarrow> ('e, nat list) res" where
  "place_layer_zone_aware oid c l n_shards total_nodes live zones =
     rbind (rassert (live \<noteq> [])) (\<lambda>_.
     rbind (rassert (length zones = total_nodes)) (\<lambda>_.
     rbind (rmap (\<lambda>n. at_idx zones n) live) (\<lambda>_.
       let quota = zone_quota n_shards zones live
       in Inr (snd (fold (zone_step oid c l live zones quota) [0..<unat n_shards] (\<lambda>_. 0, []))))))"

section \<open>Rendezvous hashing as a stable choice\<close>

locale stable_choice =
  fixes pick :: "'n list \<Rightarrow> 'n"
  assumes choose_mem: "xs \<noteq> [] \<Longrightarrow> pick xs \<in> set xs"
    and choose_filter: "xs \<noteq> [] \<Longrightarrow> P (pick xs) \<Longrightarrow> pick (filter P xs) = pick xs"
begin

lemma remove_other: "xs \<noteq> [] \<Longrightarrow> pick xs \<noteq> n \<Longrightarrow> pick (filter (\<lambda>x. x \<noteq> n) xs) = pick xs"
  by (rule choose_filter)

text \<open>Adding candidates: the choice stays, or moves to a new candidate.\<close>

lemma grow: "xs \<noteq> [] \<Longrightarrow> P (pick xs) \<Longrightarrow> \<not> Q (pick xs) \<Longrightarrow>
    pick (filter (\<lambda>x. P x \<and> \<not> Q x) xs) = pick (filter P xs)"
  by (simp add: choose_filter)

lemma grow_choice:
  assumes "filter P xs \<noteq> []"
  shows "pick xs = pick (filter P xs) \<or> \<not> P (pick xs)"
  using assms choose_filter[of xs P] by (cases "xs = []") auto

end

text \<open>The fold keeps the last of the candidates with the highest score.\<close>

definition last_max :: "('n \<Rightarrow> u64) \<Rightarrow> 'n list \<Rightarrow> 'n \<Rightarrow> bool" where
  "last_max f xs n \<longleftrightarrow> (\<exists>a b. xs = a @ n # b \<and> (\<forall>x \<in> set a. f x \<le> f n) \<and> (\<forall>x \<in> set b. f x < f n))"

lemma last_max_filter: "last_max f xs n \<Longrightarrow> P n \<Longrightarrow> last_max f (filter P xs) n"
  unfolding last_max_def by (elim exE conjE, rule exI[of _ "filter P _"], rule exI[of _ "filter P _"]) auto

lemma hrw_fold_less:
  "\<forall>x \<in> set b. rendezvous_hash key x < h \<Longrightarrow> fold (hrw_step key) b (h, n) = (h, n)"
  by (induction b) (auto simp: hrw_step_def Let_def)

lemma hrw_fold_le:
  "\<forall>x \<in> set a. rendezvous_hash key x \<le> h \<Longrightarrow> fst best \<le> h \<Longrightarrow> fst (fold (hrw_step key) a best) \<le> h"
  by (induction a arbitrary: best) (auto simp: hrw_step_def Let_def)

lemma hrw_node_char:
  assumes "last_max (rendezvous_hash key) xs n" shows "hrw_node key xs = n"
proof -
  obtain a b where xs: "xs = a @ n # b" and a: "\<forall>x \<in> set a. rendezvous_hash key x \<le> rendezvous_hash key n"
    and b: "\<forall>x \<in> set b. rendezvous_hash key x < rendezvous_hash key n"
    using assms by (auto simp: last_max_def)
  have "fst (fold (hrw_step key) a (0, hd xs)) \<le> rendezvous_hash key n"
    by (rule hrw_fold_le[OF a]) simp
  then have "fold (hrw_step key) xs (0, hd xs) = (rendezvous_hash key n, n)"
    using hrw_fold_less[OF b] by (simp add: xs hrw_step_def Let_def)
  then show ?thesis by (simp add: hrw_node_def)
qed

lemma last_max_ex: "xs \<noteq> [] \<Longrightarrow> \<exists>n. last_max f xs n"
proof (induction xs rule: rev_induct)
  case Nil
  then show ?case by simp
next
  case (snoc x xs)
  show ?case
  proof (cases "\<forall>y \<in> set xs. f y \<le> f x")
    case True
    then show ?thesis unfolding last_max_def by (intro exI[of _ x] exI[of _ xs] exI[of _ "[]"]) simp
  next
    case False
    then have "xs \<noteq> []" by auto
    with snoc.IH obtain n a b where n: "xs = a @ n # b" "\<forall>x \<in> set a. f x \<le> f n" "\<forall>x \<in> set b. f x < f n"
      by (auto simp: last_max_def)
    from False obtain y where "y \<in> set xs" "f x < f y" by auto
    with n have "f x < f n" by (auto dest: le_less_trans less_le_trans less_trans)
    with n show ?thesis
      unfolding last_max_def by (intro exI[of _ n] exI[of _ a] exI[of _ "b @ [x]"]) auto
  qed
qed

interpretation hrw: stable_choice "hrw_node key" for key
proof
  fix xs :: "nat list" and P
  assume ne: "xs \<noteq> []"
  then obtain n where n: "last_max (rendezvous_hash key) xs n" using last_max_ex by blast
  then have hn: "hrw_node key xs = n" by (rule hrw_node_char)
  from n show "hrw_node key xs \<in> set xs" unfolding hn by (auto simp: last_max_def)
  assume "P (hrw_node key xs)"
  with n hn show "hrw_node key (filter P xs) = hrw_node key xs"
    by (metis hrw_node_char last_max_filter)
qed

section \<open>Round robin\<close>

lemma binary_search_sound: "binary_search (xs :: 'a::linorder list) x lo hi \<Longrightarrow> hi \<le> length xs \<Longrightarrow> x \<in> set xs"
proof (induction xs x lo hi rule: binary_search.induct)
  case (1 xs x lo hi)
  have lh: "lo < hi" using 1(3) by (subst (asm) binary_search.simps) (auto split: if_splits)
  let ?mid = "(lo + hi) div 2"
  have m: "?mid < hi" using lh by simp
  show ?case
  proof (cases "xs ! ?mid = x")
    case True
    then show ?thesis using m 1(4) by auto
  next
    case False
    then show ?thesis
      using 1(1)[OF lh refl False] 1(2)[OF lh refl False] 1(3,4) lh m
      by (subst (asm) (3) binary_search.simps) (auto simp: Let_def split: if_splits)
  qed
qed

lemma binary_search_complete:
  "sorted xs \<Longrightarrow> hi \<le> length xs \<Longrightarrow> lo \<le> i \<Longrightarrow> i < hi \<Longrightarrow> xs ! i = x \<Longrightarrow> binary_search xs x lo hi"
proof (induction xs x lo hi rule: binary_search.induct)
  case (1 xs x lo hi)
  let ?mid = "(lo + hi) div 2"
  have lh: "lo < hi" using 1(5,6) by simp
  show ?case
  proof (cases "xs ! ?mid = x")
    case True
    with lh show ?thesis by (subst binary_search.simps) simp
  next
    case False
    show ?thesis
    proof (cases "xs ! ?mid < x")
      case True
      have "?mid < length xs" using lh 1(4) by simp
      then have "\<not> i \<le> ?mid" using True 1(3,7) sorted_nth_mono[of xs i ?mid] by auto
      then have "binary_search xs x (?mid + 1) hi" using 1(1)[OF lh refl False True] 1(3-7) by simp
      with lh True show ?thesis by (subst binary_search.simps) (simp add: Let_def)
    next
      case nless: False
      then have "\<not> ?mid \<le> i" using 1(3,4,6,7) False sorted_nth_mono[of xs ?mid i] by auto
      then have "binary_search xs x lo ?mid" using 1(2)[OF lh refl False nless] 1(3-7) by simp
      with lh False nless show ?thesis by (subst binary_search.simps) (simp add: Let_def)
    qed
  qed
qed

lemma binary_search_iff: "sorted xs \<Longrightarrow> binary_search xs x 0 (length xs) \<longleftrightarrow> x \<in> set xs"
  using binary_search_sound[of xs x 0 "length xs"] binary_search_complete[of xs "length xs" 0 _ x]
  by (auto simp: in_set_conv_nth)

lemma round_robin_ok:
  assumes "sorted live" and "live \<noteq> []" and "\<forall>n \<in> set live. n < total_nodes"
  shows "\<exists>n \<in> set live. place RoundRobin key total_nodes live = Inr n"
proof -
  let ?p = "round_robin_pos key total_nodes"
  let ?c = "map (\<lambda>off. (?p + off) mod total_nodes) [0..<total_nodes]"
  obtain n where n: "n \<in> set live" "n < total_nodes" using assms(2,3) by (cases live) auto
  have p: "?p < total_nodes" using n(2) by (simp add: round_robin_pos_def Let_def)
  define off where "off = (if ?p \<le> n then n - ?p else n + total_nodes - ?p)"
  have "off < total_nodes" "(?p + off) mod total_nodes = n"
    using n(2) p by (auto simp: off_def mod_if)
  then have "n \<in> set ?c" by force
  then have "List.find (\<lambda>cand. binary_search live cand 0 (length live)) ?c \<noteq> None"
    using n(1) binary_search_iff[OF assms(1)] by (auto simp: find_None_iff)
  then obtain c where c: "List.find (\<lambda>cand. binary_search live cand 0 (length live)) ?c = Some c" by blast
  then have "c \<in> set live" using binary_search_iff[OF assms(1)] by (auto simp: find_Some_iff)
  with c assms(2) n(2) show ?thesis by (simp add: place_def)
qed

section \<open>The zone quota\<close>

definition in_zone :: "u8 list \<Rightarrow> u8 \<Rightarrow> nat list \<Rightarrow> nat" where
  "in_zone zones z ns = length (filter (\<lambda>n. zones ! n = z) ns)"

lemma in_zone_snoc: "in_zone zones z (ns @ [n]) = in_zone zones z ns + (if zones ! n = z then 1 else 0)"
  by (simp add: in_zone_def)

lemma set_zone_scored [simp]: "set (zone_scored key live) = set live"
  by (auto simp: zone_scored_def image_image)

lemma sum_in_zone:
  "set ns \<subseteq> set live \<Longrightarrow> (\<Sum>z \<in> (\<lambda>n. zones ! n) ` set live. in_zone zones z ns) = length ns"
proof (induction ns rule: rev_induct)
  case Nil
  then show ?case by (simp add: in_zone_def)
next
  case (snoc n ns)
  then have "(\<Sum>z \<in> (\<lambda>n. zones ! n) ` set live. (if zones ! n = z then 1 else 0)) = (1 :: nat)"
    by (simp add: sum.delta)
  with snoc show ?case by (simp add: in_zone_snoc sum.distrib)
qed

text \<open>While fewer than \<open>quota * zones\<close> shards are placed some live zone has room, so the fallback of
  \<open>zone_pick\<close> is not taken.\<close>

lemma zone_pick_within:
  assumes ns: "set ns \<subseteq> set live" and used: "\<And>z. used z = in_zone zones z ns"
    and room: "length ns < quota * card ((\<lambda>n. zones ! n) ` set live)"
  shows "zone_pick key live zones quota used \<in> set live \<and>
    used (zones ! zone_pick key live zones quota used) < quota"
proof -
  have "\<exists>n \<in> set live. used (zones ! n) < quota"
  proof (rule ccontr)
    assume "\<not> (\<exists>n \<in> set live. used (zones ! n) < quota)"
    then have "\<forall>z \<in> (\<lambda>n. zones ! n) ` set live. quota \<le> in_zone zones z ns" using used by auto
    then have "quota * card ((\<lambda>n. zones ! n) ` set live) \<le> (\<Sum>z \<in> (\<lambda>n. zones ! n) ` set live. in_zone zones z ns)"
      by (subst mult.commute) (rule sum_bounded_below[where 'a = nat, unfolded of_nat_id], blast)
    with sum_in_zone[OF ns, of zones] room show False by simp
  qed
  then have "List.find (\<lambda>n. used (zones ! n) < quota) (zone_scored key live) \<noteq> None"
    by (auto simp: find_None_iff)
  then obtain n where n: "List.find (\<lambda>n. used (zones ! n) < quota) (zone_scored key live) = Some n" by blast
  then obtain i where "i < length (zone_scored key live)" "n = zone_scored key live ! i" "used (zones ! n) < quota"
    by (auto simp: find_Some_iff)
  then have "n \<in> set (zone_scored key live)" "used (zones ! n) < quota" by (metis nth_mem, blast)
  with n show ?thesis by (simp add: zone_pick_def)
qed

lemma zone_loop:
  assumes "m \<le> quota * card ((\<lambda>n. zones ! n) ` set live)"
  shows "case fold (zone_step oid c l live zones quota) [0..<m] (\<lambda>_. 0, []) of (used, out) \<Rightarrow>
    length out = m \<and> set out \<subseteq> set live \<and> (\<forall>z. used z = in_zone zones z out \<and> used z \<le> quota)"
  using assms
proof (induction m)
  case 0
  then show ?case by (simp add: in_zone_def)
next
  case (Suc m)
  obtain used out where st: "fold (zone_step oid c l live zones quota) [0..<m] (\<lambda>_. 0, []) = (used, out)"
    by force
  have "m \<le> quota * card ((\<lambda>n. zones ! n) ` set live)" using Suc.prems by simp
  from Suc.IH[OF this] have inv: "length out = m \<and> set out \<subseteq> set live \<and>
      (\<forall>z. used z = in_zone zones z out \<and> used z \<le> quota)"
    unfolding st prod.case .
  then have IH: "length out = m" "set out \<subseteq> set live" "\<And>z. used z = in_zone zones z out" by blast+
  from inv have le: "in_zone zones z out \<le> quota" for z by metis
  let ?key = "\<lparr>sk_object_id = oid, sk_channel = c, sk_layer = l, sk_shard_idx = word_of_nat m\<rparr>"
  define node where "node = zone_pick ?key live zones quota used"
  have "node \<in> set live \<and> used (zones ! node) < quota"
    unfolding node_def using Suc.prems IH(1) by (intro zone_pick_within[OF IH(2,3)]) auto
  moreover have "fold (zone_step oid c l live zones quota) [0..<Suc m] (\<lambda>_. 0, []) =
      (used(zones ! node := used (zones ! node) + 1), out @ [node])"
    by (simp add: st zone_step_def[of oid c l live zones quota m] Let_def node_def)
  ultimately show ?case using IH le by (simp add: in_zone_snoc)
qed

lemma zone_quota_ceil:
  assumes "live \<noteq> []" and "unat n + 255 < 2 ^ 32"
  shows "zone_quota n zones live = (unat n + (card ((\<lambda>n. zones ! n) ` set live) - 1)) div card ((\<lambda>n. zones ! n) ` set live)"
    and "unat n \<le> zone_quota n zones live * card ((\<lambda>n. zones ! n) ` set live)"
proof -
  define z where "z = card ((\<lambda>n. zones ! n) ` set live)"
  have z0: "0 < z" using assms(1) by (simp add: z_def card_gt_0_iff)
  have "z \<le> card (UNIV :: u8 set)" unfolding z_def by (intro card_mono) auto
  then have z256: "z \<le> 256" by (simp add: card_word)
  have len: "length (remdups (map (\<lambda>n. zones ! n) live)) = z"
    by (simp add: z_def length_remdups_card_conv)
  have w: "unat (word_of_nat z :: u32) = z" using z256 by (intro unat_len(2)) simp
  have "n + word_of_nat z - 1 = word_of_nat (unat n + (z - 1))"
    using z0 by (simp add: of_nat_diff)
  moreover have "unat n + (z - 1) < 2 ^ 32" using assms(2) z256 by linarith
  ultimately have "unat (n + word_of_nat z - 1) = unat n + (z - 1)" by (simp only: unat_len(2))
  then show q: "zone_quota n zones live = (unat n + (card ((\<lambda>n. zones ! n) ` set live) - 1)) div card ((\<lambda>n. zones ! n) ` set live)"
  proof -
    have "max z 1 = z" using z0 by simp
    with \<open>unat (n + word_of_nat z - 1) = unat n + (z - 1)\<close> len w show ?thesis
      by (simp only: zone_quota_def Let_def unat_div z_def[symmetric])
  qed
  have "unat n + (z - 1) = z * ((unat n + (z - 1)) div z) + (unat n + (z - 1)) mod z" by simp
  moreover have "(unat n + (z - 1)) mod z \<le> z - 1" using z0 by (simp add: Suc_leI less_Suc_eq_le[symmetric])
  ultimately have "unat n \<le> z * ((unat n + (z - 1)) div z)" by linarith
  then show "unat n \<le> zone_quota n zones live * card ((\<lambda>n. zones ! n) ` set live)"
    using q by (simp add: z_def mult.commute)
qed

lemma place_layer_ok:
  assumes "live \<noteq> []" and "length zones = total_nodes" and "\<forall>n \<in> set live. n < total_nodes"
    and "unat n + 255 < 2 ^ 32"
  shows "\<exists>out. (place_layer_zone_aware oid c l n total_nodes live zones :: ('e, _) res) = Inr out \<and>
    length out = unat n \<and> set out \<subseteq> set live \<and>
    (\<forall>z. in_zone zones z out \<le> (unat n + (card ((\<lambda>n. zones ! n) ` set live) - 1)) div card ((\<lambda>n. zones ! n) ` set live))"
proof -
  have "(rmap (\<lambda>n. at_idx zones n) live :: ('e, _) res) = Inr (map (\<lambda>n. zones ! n) live)"
    using assms(2,3) by (intro rmap_Inr) simp
  moreover obtain used out where
    f: "fold (zone_step oid c l live zones (zone_quota n zones live)) [0..<unat n] (\<lambda>_. 0, []) = (used, out)"
    by force
  moreover have "length out = unat n \<and> set out \<subseteq> set live \<and> (\<forall>z. in_zone zones z out \<le> zone_quota n zones live)"
    using zone_loop[OF zone_quota_ceil(2)[OF assms(1,4)], where zones = zones and oid = oid and c = c and l = l] f
    by (simp add: case_prod_beta) metis
  ultimately show ?thesis
    using assms(1,2) zone_quota_ceil(1)[OF assms(1,4), of zones]
    by (simp add: place_layer_zone_aware_def Let_def)
qed

section \<open>Properties\<close>

text \<open>C14: rendezvous placement moves as little as possible. For a non-empty live set the chosen node is
  live; taking away any nodes other than the chosen one does not move the shard, and when nodes are
  added the shard stays where it was or moves to an added node.\<close>

theorem hrw_minimal_disruption:
  assumes "scheme \<noteq> RoundRobin" and "live \<noteq> []"
  shows "\<exists>n \<in> set live. (place scheme key total_nodes live :: ('e, _) res) = Inr n \<and>
    (\<forall>P. P n \<longrightarrow> (place scheme key total_nodes (filter P live) :: ('e, _) res) = Inr n) \<and>
    (\<forall>P m. filter P live \<noteq> [] \<longrightarrow> (place scheme key total_nodes (filter P live) :: ('e, _) res) = Inr m \<longrightarrow>
       n = m \<or> \<not> P n)"
proof -
  have p: "(place scheme key total_nodes xs :: ('e, _) res) = Inr (hrw_node key xs)" if "xs \<noteq> []" for xs
    using assms(1) that by (cases scheme) (auto simp: place_def)
  let ?n = "hrw_node key live"
  have "?n \<in> set live" using assms(2) by (rule hrw.choose_mem)
  moreover have "(place scheme key total_nodes (filter P live) :: ('e, _) res) = Inr ?n" if "P ?n" for P
  proof -
    have "filter P live \<noteq> []" using \<open>?n \<in> set live\<close> that by (auto simp: filter_empty_conv)
    with p hrw.choose_filter[where P = P, OF assms(2) that] show ?thesis by simp
  qed
  moreover have "?n = m \<or> \<not> P ?n"
    if "filter P live \<noteq> []" "(place scheme key total_nodes (filter P live) :: ('e, _) res) = Inr m" for P m
    using hrw.grow_choice[OF that(1), of key] that p by auto
  ultimately show ?thesis using p[OF assms(2)] by blast
qed

theorem hrw_minimal_disruption_witness:
  "\<exists>n \<in> {3, 5, 7}. (place Rendezvous \<lparr>sk_object_id = 1, sk_channel = 0, sk_layer = 2, sk_shard_idx = 9\<rparr> 8 [3, 5, 7]
     :: (unit, _) res) = Inr n"
  using hrw_minimal_disruption[of Rendezvous "[3, 5, 7]" "\<lparr>sk_object_id = 1, sk_channel = 0, sk_layer = 2, sk_shard_idx = 9\<rparr>" 8,
      where 'e = unit] by auto

text \<open>round robin is well defined: on a sorted, non-empty set of live node indices it always finds a
  live node (the \<open>unreachable!\<close> really is).\<close>

theorem round_robin_places:
  assumes "sorted live" and "live \<noteq> []" and "\<forall>n \<in> set live. n < total_nodes"
  shows "\<exists>n \<in> set live. (place RoundRobin key total_nodes live :: ('e, _) res) = Inr n"
  using assms by (rule round_robin_ok)

theorem round_robin_places_witness:
  "\<exists>n \<in> {0, 2}. (place RoundRobin \<lparr>sk_object_id = 1, sk_channel = 0, sk_layer = 2, sk_shard_idx = 9\<rparr> 3 [0, 2]
     :: (unit, _) res) = Inr n"
  using round_robin_places[of "[0, 2]" 3, where 'e = unit] by auto

text \<open>C13: zone anti-affinity. \<open>place_layer_zone_aware\<close> places exactly \<open>n\<close> shards on live nodes, and no
  zone gets more than \<open>ceil(n / z)\<close> of them, \<open>z\<close> being the number of live zones. (So the fallback to an
  arbitrary zone is dead code.)\<close>

theorem zone_aware_quota:
  assumes "live \<noteq> []" and "length zones = total_nodes" and "\<forall>n \<in> set live. n < total_nodes"
    and "unat n + 255 < 2 ^ 32"
  shows "\<exists>out. (place_layer_zone_aware oid c l n total_nodes live zones :: ('e, _) res) = Inr out \<and>
    length out = unat n \<and> set out \<subseteq> set live \<and>
    (\<forall>z. in_zone zones z out \<le> (unat n + (card ((\<lambda>n. zones ! n) ` set live) - 1)) div card ((\<lambda>n. zones ! n) ` set live))"
  using assms by (rule place_layer_ok)

theorem zone_aware_quota_witness:
  "\<exists>out. (place_layer_zone_aware 42 0 1 5 4 [0, 1, 2, 3] [7, 7, 8, 9] :: (unit, _) res) = Inr out \<and>
    length out = 5 \<and> in_zone [7, 7, 8, 9] 7 out \<le> 2"
proof -
  have c: "card ((\<lambda>n. [7, 7, 8, 9 :: u8] ! n) ` set [0, 1, 2, 3]) = 3" by (simp add: numeral_eq_Suc)
  have "\<forall>n \<in> set [0, 1, 2, 3]. n < (4 :: nat)" by simp
  from zone_aware_quota[of "[0, 1, 2, 3]" "[7, 7, 8, 9]" 4 5 42 0 1, OF _ _ this, where 'e = unit]
  show ?thesis unfolding c by auto
qed

end
