(* ===== verification/Manifest.thy ===== *)
theory Manifest
  imports Codec Placement
begin

text \<open>
  \<open>holofs-model/src/manifest.rs\<close>: the manifest record, the directory marker, the placement of a single
  shard and the binary format. The format is a magic followed by four groups of fields (header, layer
  tables and nodes, integrity, kind), each modelled by an encoder and a decoder and shown to be a
  \<open>canonical_codec\<close>; \<open>manifest_encode\<close> panics when a length assertion fails.

  Composite fields get their own interpretations: \<open>u32\<close> vectors, strings, hash vectors and the nested
  per-channel tables.
\<close>

section \<open>Data\<close>

datatype object_kind = Image | Text | Audio | Opaque | Directory

record manifest =
  m_object_id :: u64
  m_k :: u16
  m_nlayers :: u8
  m_n_per_layer :: "u32 list"
  m_sym_len :: "u32 list"
  m_layer_positions :: "u32 list list"
  m_channels :: u8
  m_width :: u32
  m_height :: u32
  m_levels :: u8
  m_nodes :: "string list"
  m_placement :: placement
  m_zones :: "u8 list"
  m_data_cid :: bytes
  m_merkle_root :: bytes
  m_shard_hashes :: "bytes list list list"
  m_kind :: object_kind
  m_content_type :: string
  m_chunk_lens :: "u32 list"
  m_audio_sample_rate :: u32
  m_text_minhash :: "u32 list"

definition manifest_directory :: "u64 \<Rightarrow> manifest" where
  "manifest_directory oid = \<lparr>
     m_object_id = oid, m_k = 0, m_nlayers = 0, m_n_per_layer = [], m_sym_len = [],
     m_layer_positions = [], m_channels = 0, m_width = 0, m_height = 0, m_levels = 0,
     m_nodes = [], m_placement = Rendezvous, m_zones = [],
     m_data_cid = replicate 32 0, m_merkle_root = replicate 32 0, m_shard_hashes = [],
     m_kind = Directory, m_content_type = ''inode/directory'', m_chunk_lens = [],
     m_audio_sample_rate = 0, m_text_minhash = []\<rparr>"

definition place_shard :: "manifest \<Rightarrow> u8 \<Rightarrow> u8 \<Rightarrow> u32 \<Rightarrow> nat list \<Rightarrow> ('e, nat) res" where
  "place_shard m channel layer shard_idx live =
     (case m_placement m of
        RendezvousZoneAware \<Rightarrow>
          rbind (at_idx (m_n_per_layer m) (unat layer)) (\<lambda>n.
          rbind (place_layer_zone_aware (m_object_id m) channel layer n (length (m_nodes m)) live (m_zones m))
            (\<lambda>layout. at_idx layout (unat shard_idx)))
      | scheme \<Rightarrow>
          place scheme \<lparr>sk_object_id = m_object_id m, sk_channel = channel, sk_layer = layer,
            sk_shard_idx = shard_idx\<rparr> (length (m_nodes m)) live)"

section \<open>Composite fields\<close>

definition vec_u32_be :: "u32 list \<Rightarrow> bytes" where
  "vec_u32_be ns = be_bytes 4 (length ns) @ concat (map u32_be ns)"

definition c_vec_u32 :: "bytes \<Rightarrow> (io_error, u32 list \<times> bytes) res" where
  "c_vec_u32 c = rbind (c_u32 c) (\<lambda>(n, c). c_many c_u32 (unat n) c)"

definition str16_be :: "string \<Rightarrow> bytes" where
  "str16_be s = be_bytes 2 (length s) @ as_bytes s"

definition c_str16 :: "bytes \<Rightarrow> (io_error, string \<times> bytes) res" where
  "c_str16 c = rbind (c_u16 c) (\<lambda>(n, c). rbind (c_take (unat n) c) (\<lambda>(bs, c).
     rbind (from_utf8 bs) (\<lambda>s. Inr (s, c))))"

definition vec_hash_be :: "bytes list \<Rightarrow> bytes" where
  "vec_hash_be hs = be_bytes 4 (length hs) @ concat hs"

definition c_vec_hash :: "bytes \<Rightarrow> (io_error, bytes list \<times> bytes) res" where
  "c_vec_hash c = rbind (c_u32 c) (\<lambda>(n, c). c_many (c_take 32) (unat n) c)"

definition str16_ok :: "string \<Rightarrow> bool" where
  "str16_ok s \<longleftrightarrow> str_ok s \<and> length s < 2 ^ 16"

definition hashes_ok :: "bytes list \<Rightarrow> bool" where
  "hashes_ok hs \<longleftrightarrow> list_all (\<lambda>h. length h = 32) hs \<and> length hs < 2 ^ 32"

lemma unat_u_less: "unat (w :: u16) < 2 ^ 16" "unat (v :: u32) < 2 ^ 32"
  using unsigned_less[of w] unsigned_less[of v] by simp_all

interpretation vec_u32: canonical_codec vec_u32_be c_vec_u32 "\<lambda>ns. length ns < 2 ^ 32"
proof
  show "c_vec_u32 (vec_u32_be x @ rest) = Inr (x, rest)" if "length x < 2 ^ 32" for x rest
    using that by (simp add: vec_u32_be_def c_vec_u32_def)
  fix c x rest
  assume "c_vec_u32 c = Inr (x, rest)"
  then obtain n c' where n: "c_u32 c = Inr (n, c')" and m: "c_many c_u32 (unat n) c' = Inr (x, rest)"
    by (auto simp: c_vec_u32_def rbind_eq_Inr)
  from u32_codec.dec_sound[OF n] have c: "c = u32_be n @ c'" by simp
  from u32_codec.many_sound[OF m] have x: "length x = unat n" "c' = concat (map u32_be x) @ rest" by auto
  with c unat_u_less(2)[of n] show "length x < 2 ^ 32 \<and> c = vec_u32_be x @ rest"
    by (simp add: vec_u32_be_def)
qed

interpretation str16: canonical_codec str16_be c_str16 str16_ok
proof
  show "c_str16 (str16_be x @ rest) = Inr (x, rest)" if "str16_ok x" for x rest
    using that by (simp add: str16_be_def c_str16_def str16_ok_def)
  fix c x rest
  assume "c_str16 c = Inr (x, rest)"
  then obtain n c' bs where n: "c_u16 c = Inr (n, c')" and b: "c_take (unat n) c' = Inr (bs, rest)"
    and x: "from_utf8 bs = Inr x"
    by (auto simp: c_str16_def rbind_eq_Inr)
  from u16_codec.dec_sound[OF n] c_take_sound[OF b] from_utf8_str_ok[OF x]
  have "c = u16_be n @ as_bytes x @ rest" "length (as_bytes x) = unat n" "str_ok x" by auto
  with unat_u_less(1)[of n] show "str16_ok x \<and> c = str16_be x @ rest"
    by (simp add: str16_be_def str16_ok_def)
qed

interpretation vec_hash: canonical_codec vec_hash_be c_vec_hash hashes_ok
proof
  show "c_vec_hash (vec_hash_be x @ rest) = Inr (x, rest)" if "hashes_ok x" for x rest
    using that by (simp add: vec_hash_be_def c_vec_hash_def hashes_ok_def)
  fix c x rest
  assume "c_vec_hash c = Inr (x, rest)"
  then obtain n c' where n: "c_u32 c = Inr (n, c')" and m: "c_many (c_take 32) (unat n) c' = Inr (x, rest)"
    by (auto simp: c_vec_hash_def rbind_eq_Inr)
  from u32_codec.dec_sound[OF n] have c: "c = u32_be n @ c'" by simp
  from hash_codec.many_sound[OF m] have x: "length x = unat n" "c' = concat x @ rest"
    "list_all (\<lambda>h. length h = 32) x" by auto
  with c unat_u_less(2)[of n] show "hashes_ok x \<and> c = vec_hash_be x @ rest"
    by (simp add: vec_hash_be_def hashes_ok_def)
qed

text \<open>One channel of the hash table: \<open>nl\<close> vectors.\<close>

interpretation channel_hashes: canonical_codec "\<lambda>hs. concat (map vec_hash_be hs)" "c_many c_vec_hash nl"
  "\<lambda>hs. length hs = nl \<and> list_all hashes_ok hs" for nl
  by unfold_locales (simp_all add: vec_hash.many_enc, auto dest: vec_hash.many_sound)

definition placement_tag :: "placement \<Rightarrow> u8" where
  "placement_tag p = (case p of RoundRobin \<Rightarrow> 0 | Rendezvous \<Rightarrow> 1 | RendezvousZoneAware \<Rightarrow> 2)"

definition c_placement :: "bytes \<Rightarrow> (io_error, placement \<times> bytes) res" where
  "c_placement c = rbind (c_u8 c) (\<lambda>(t, c).
     if t = 0 then Inr (RoundRobin, c) else if t = 1 then Inr (Rendezvous, c)
     else if t = 2 then Inr (RendezvousZoneAware, c) else Inl (Err InvalidData))"

definition kind_tag :: "object_kind \<Rightarrow> u8" where
  "kind_tag k = (case k of Image \<Rightarrow> 0 | Text \<Rightarrow> 1 | Audio \<Rightarrow> 2 | Opaque \<Rightarrow> 3 | Directory \<Rightarrow> 4)"

definition c_kind :: "bytes \<Rightarrow> (io_error, object_kind \<times> bytes) res" where
  "c_kind c = rbind (c_u8 c) (\<lambda>(t, c).
     if t = 0 then Inr (Image, c) else if t = 1 then Inr (Text, c)
     else if t = 2 then Inr (Audio, c) else if t = 3 then Inr (Opaque, c)
     else if t = 4 then Inr (Directory, c) else Inl (Err InvalidData))"

interpretation placement_codec: canonical_codec "\<lambda>p. [placement_tag p]" c_placement "\<lambda>_. True"
proof
  show "c_placement ([placement_tag p] @ rest) = Inr (p, rest)" for p rest
    by (cases p) (simp_all add: c_placement_def placement_tag_def)
  show "True \<and> c = [placement_tag p] @ rest" if "c_placement c = Inr (p, rest)" for c p rest
    using that by (cases c) (auto simp: c_placement_def placement_tag_def c_u8_def c_take_def split: if_splits)
qed

interpretation kind_codec: canonical_codec "\<lambda>k. [kind_tag k]" c_kind "\<lambda>_. True"
proof
  show "c_kind ([kind_tag k] @ rest) = Inr (k, rest)" for k rest
    by (cases k) (simp_all add: c_kind_def kind_tag_def)
  show "True \<and> c = [kind_tag k] @ rest" if "c_kind c = Inr (k, rest)" for c k rest
    using that by (cases c) (auto simp: c_kind_def kind_tag_def c_u8_def c_take_def split: if_splits)
qed

lemmas composite_codec [simp] = vec_u32.dec_enc str16.dec_enc vec_hash.dec_enc
  placement_codec.dec_enc[OF TrueI, simplified] kind_codec.dec_enc[OF TrueI, simplified]

section \<open>The binary format\<close>

definition MANIFEST_MAGIC :: bytes where "MANIFEST_MAGIC = as_bytes ''HOLOFSM7''"
definition MANIFEST_MAGIC_LEGACY :: bytes where "MANIFEST_MAGIC_LEGACY = as_bytes ''HOLOFSM6''"

definition enc_head :: "manifest \<Rightarrow> bytes" where
  "enc_head m = u64_be (m_object_id m) @ u16_be (m_k m) @ [m_nlayers m, m_channels m] @
     u32_be (m_width m) @ u32_be (m_height m) @ [m_levels m, placement_tag (m_placement m)]"

definition enc_layers :: "manifest \<Rightarrow> bytes" where
  "enc_layers m = concat (map u32_be (m_n_per_layer m)) @ concat (map u32_be (m_sym_len m)) @
     concat (map vec_u32_be (m_layer_positions m)) @
     be_bytes 4 (length (m_nodes m)) @ concat (map str16_be (m_nodes m)) @ m_zones m"

definition enc_integrity :: "manifest \<Rightarrow> bytes" where
  "enc_integrity m = m_data_cid m @ m_merkle_root m @
     concat (map (\<lambda>hs. concat (map vec_hash_be hs)) (m_shard_hashes m))"

definition enc_kind :: "manifest \<Rightarrow> bytes" where
  "enc_kind m = [kind_tag (m_kind m)] @ str16_be (m_content_type m) @ vec_u32_be (m_chunk_lens m) @
     u32_be (m_audio_sample_rate m) @ vec_u32_be (m_text_minhash m)"

definition manifest_body :: "manifest \<Rightarrow> bytes" where
  "manifest_body m = enc_head m @ enc_layers m @ enc_integrity m @ enc_kind m"

text \<open>The \<open>assert_eq!\<close>s of \<open>encode\<close>.\<close>

definition manifest_asserts :: "manifest \<Rightarrow> bool" where
  "manifest_asserts m \<longleftrightarrow>
     length (m_n_per_layer m) = unat (m_nlayers m) \<and> length (m_sym_len m) = unat (m_nlayers m) \<and>
     length (m_layer_positions m) = unat (m_nlayers m) \<and> length (m_zones m) = length (m_nodes m) \<and>
     length (m_shard_hashes m) = unat (m_channels m) \<and>
     list_all (\<lambda>hs. length hs = unat (m_nlayers m)) (m_shard_hashes m)"

definition manifest_encode :: "manifest \<Rightarrow> ('e, bytes) res" where
  "manifest_encode m = rbind (rassert (manifest_asserts m)) (\<lambda>_. Inr (MANIFEST_MAGIC @ manifest_body m))"

definition dec_body :: "bytes \<Rightarrow> (io_error, manifest \<times> bytes) res" where
  "dec_body c =
     rbind (c_u64 c) (\<lambda>(object_id, c). rbind (c_u16 c) (\<lambda>(k, c).
     rbind (c_u8 c) (\<lambda>(nlayers, c). rbind (c_u8 c) (\<lambda>(channels, c).
     rbind (c_u32 c) (\<lambda>(width, c). rbind (c_u32 c) (\<lambda>(height, c).
     rbind (c_u8 c) (\<lambda>(levels, c). rbind (c_placement c) (\<lambda>(placement, c).
     rbind (c_many c_u32 (unat nlayers) c) (\<lambda>(n_per_layer, c).
     rbind (c_many c_u32 (unat nlayers) c) (\<lambda>(sym_len, c).
     rbind (c_many c_vec_u32 (unat nlayers) c) (\<lambda>(layer_positions, c).
     rbind (c_u32 c) (\<lambda>(nn, c).
     rbind (c_many c_str16 (unat nn) c) (\<lambda>(nodes, c).
     rbind (c_take (unat nn) c) (\<lambda>(zones, c).
     rbind (c_take 32 c) (\<lambda>(data_cid, c). rbind (c_take 32 c) (\<lambda>(merkle_root, c).
     rbind (c_many (c_many c_vec_hash (unat nlayers)) (unat channels) c) (\<lambda>(shard_hashes, c).
     rbind (c_kind c) (\<lambda>(kind, c). rbind (c_str16 c) (\<lambda>(content_type, c).
     rbind (c_vec_u32 c) (\<lambda>(chunk_lens, c). rbind (c_u32 c) (\<lambda>(audio_sample_rate, c).
     rbind (c_vec_u32 c) (\<lambda>(text_minhash, c).
       Inr (\<lparr>m_object_id = object_id, m_k = k, m_nlayers = nlayers, m_n_per_layer = n_per_layer,
         m_sym_len = sym_len, m_layer_positions = layer_positions, m_channels = channels,
         m_width = width, m_height = height, m_levels = levels, m_nodes = nodes,
         m_placement = placement, m_zones = zones, m_data_cid = data_cid, m_merkle_root = merkle_root,
         m_shard_hashes = shard_hashes, m_kind = kind, m_content_type = content_type,
         m_chunk_lens = chunk_lens, m_audio_sample_rate = audio_sample_rate,
         m_text_minhash = text_minhash\<rparr>, c)))))))))))))))))))))))"

definition manifest_decode :: "bytes \<Rightarrow> (io_error, manifest) res" where
  "manifest_decode buf = rbind (c_take 8 buf) (\<lambda>(magic, c).
     if magic \<noteq> MANIFEST_MAGIC \<and> magic \<noteq> MANIFEST_MAGIC_LEGACY then Inl (Err InvalidData)
     else rbind (dec_body c) (\<lambda>(m, _). Inr m))"

text \<open>Manifests the format can carry: the assertions hold and every length fits its prefix.\<close>

definition manifest_ok :: "manifest \<Rightarrow> bool" where
  "manifest_ok m \<longleftrightarrow> manifest_asserts m \<and>
     list_all (\<lambda>ps. length ps < 2 ^ 32) (m_layer_positions m) \<and>
     length (m_nodes m) < 2 ^ 32 \<and> list_all str16_ok (m_nodes m) \<and>
     length (m_data_cid m) = 32 \<and> length (m_merkle_root m) = 32 \<and>
     list_all (list_all hashes_ok) (m_shard_hashes m) \<and>
     str16_ok (m_content_type m) \<and> length (m_chunk_lens m) < 2 ^ 32 \<and> length (m_text_minhash m) < 2 ^ 32"

lemma dec_body_enc: "manifest_ok m \<Longrightarrow> dec_body (manifest_body m @ rest) = Inr (m, rest)"
proof -
  assume ok: "manifest_ok m"
  have h: "list_all (\<lambda>hs. length hs = unat (m_nlayers m) \<and> list_all hashes_ok hs) (m_shard_hashes m)"
    using ok by (auto simp: manifest_ok_def manifest_asserts_def list_all_iff)
  show ?thesis
    using ok channel_hashes.many_enc[OF h, of "unat (m_channels m)"]
      vec_u32.many_enc[of "m_layer_positions m" "unat (m_nlayers m)"]
      str16.many_enc[of "m_nodes m" "length (m_nodes m)"]
    by (simp add: dec_body_def manifest_body_def enc_head_def enc_layers_def enc_integrity_def enc_kind_def
        manifest_ok_def manifest_asserts_def)
qed

text \<open>The decoder accepts nothing but encodings: the fields are peeled off in order.\<close>

lemma rbind_prod_Inr: "rbind m (\<lambda>(x, c). f x c) = Inr y \<longleftrightarrow> (\<exists>x c. m = Inr (x, c) \<and> f x c = Inr y)"
  by (auto simp: rbind_eq_Inr)

lemma dec_body_sound: "dec_body c = Inr (m, rest) \<Longrightarrow> manifest_ok m \<and> c = manifest_body m @ rest"
  unfolding dec_body_def rbind_prod_Inr
proof (elim exE conjE, goal_cases)
  case (1 oid c1 k c2 nl c3 ch c4 w c5 h c6 lv c7 pl c8 npl c9 sl c10 lp c11 nn c12 nodes c13 zones c14
      cid c15 root c16 hs c17 kind c18 ct c19 cl c20 sr c21 mh c22)
  note u64_codec.dec_sound[OF 1(1)] u16_codec.dec_sound[OF 1(2)] u8_codec.dec_sound[OF 1(3)]
    u8_codec.dec_sound[OF 1(4)] u32_codec.dec_sound[OF 1(5)] u32_codec.dec_sound[OF 1(6)]
    u8_codec.dec_sound[OF 1(7)] placement_codec.dec_sound[OF 1(8)]
  then have head: "c = u64_be oid @ u16_be k @ [nl, ch] @ u32_be w @ u32_be h @ [lv, placement_tag pl] @ c8"
    by simp
  note u32_codec.many_sound[OF 1(9)] u32_codec.many_sound[OF 1(10)] vec_u32.many_sound[OF 1(11)]
    u32_codec.dec_sound[OF 1(12)] str16.many_sound[OF 1(13)] c_take_sound[OF 1(14)]
  then have layers: "c8 = concat (map u32_be npl) @ concat (map u32_be sl) @ concat (map vec_u32_be lp) @
      u32_be nn @ concat (map str16_be nodes) @ zones @ c14"
    and lens: "length npl = unat nl" "length sl = unat nl" "length lp = unat nl" "length nodes = unat nn"
      "length zones = unat nn" "list_all (\<lambda>ps. length ps < 2 ^ 32) lp" "list_all str16_ok nodes"
    by simp_all
  note channel_hashes.many_sound[OF 1(17)]
  then have c16: "c16 = concat (map (\<lambda>hs. concat (map vec_hash_be hs)) hs) @ c17"
    and hs: "length hs = unat ch" "list_all (\<lambda>hs. length hs = unat nl \<and> list_all hashes_ok hs) hs"
    by simp_all
  note c_take_sound[OF 1(15)] c_take_sound[OF 1(16)]
  then have integ: "c14 = cid @ root @ concat (map (\<lambda>hs. concat (map vec_hash_be hs)) hs) @ c17"
      "length cid = 32" "length root = 32" using c16 by simp_all
  note kind_codec.dec_sound[OF 1(18)] str16.dec_sound[OF 1(19)] vec_u32.dec_sound[OF 1(20)]
    u32_codec.dec_sound[OF 1(21)] vec_u32.dec_sound[OF 1(22)]
  then have tail: "c17 = [kind_tag kind] @ str16_be ct @ vec_u32_be cl @ u32_be sr @ vec_u32_be mh @ c22"
    "str16_ok ct" "length cl < 2 ^ 32" "length mh < 2 ^ 32" by simp_all
  have m: "m = \<lparr>m_object_id = oid, m_k = k, m_nlayers = nl, m_n_per_layer = npl, m_sym_len = sl,
      m_layer_positions = lp, m_channels = ch, m_width = w, m_height = h, m_levels = lv, m_nodes = nodes,
      m_placement = pl, m_zones = zones, m_data_cid = cid, m_merkle_root = root, m_shard_hashes = hs,
      m_kind = kind, m_content_type = ct, m_chunk_lens = cl, m_audio_sample_rate = sr,
      m_text_minhash = mh\<rparr>" and r: "rest = c22" using 1(23) by simp_all
  have "manifest_ok m"
    using lens hs integ(2,3) tail(2-4) unat_u_less(2)[of nn]
    by (auto simp: m manifest_ok_def manifest_asserts_def list_all_iff)
  moreover have "c = manifest_body m @ rest"
    using head layers integ(1) tail(1) lens(4) r
    by (simp add: m manifest_body_def enc_head_def enc_layers_def enc_integrity_def enc_kind_def)
  ultimately show ?case by blast
qed

interpretation manifest_codec: canonical_codec manifest_body dec_body manifest_ok
  by unfold_locales (rule dec_body_enc, assumption, rule dec_body_sound, assumption)

lemma length_magic [simp]: "length MANIFEST_MAGIC = 8" "length MANIFEST_MAGIC_LEGACY = 8"
  by (simp_all add: MANIFEST_MAGIC_def MANIFEST_MAGIC_LEGACY_def)

lemma manifest_decode_encode:
  "manifest_ok m \<Longrightarrow> magic = MANIFEST_MAGIC \<or> magic = MANIFEST_MAGIC_LEGACY \<Longrightarrow>
     manifest_decode (magic @ manifest_body m @ rest) = Inr m"
  by (auto simp: manifest_decode_def dec_body_enc)

lemma manifest_decode_sound:
  "manifest_decode buf = Inr m \<Longrightarrow> manifest_ok m \<and>
     (\<exists>magic rest. (magic = MANIFEST_MAGIC \<or> magic = MANIFEST_MAGIC_LEGACY) \<and> buf = magic @ manifest_body m @ rest)"
  by (auto simp: manifest_decode_def rbind_eq_Inr split: if_splits dest!: c_take_sound dec_body_sound)

lemma manifest_encode_ok:
  "manifest_ok m \<Longrightarrow> (manifest_encode m :: ('e, _) res) = Inr (MANIFEST_MAGIC @ manifest_body m)"
  by (simp add: manifest_encode_def manifest_ok_def)

lemma manifest_directory_ok: "manifest_ok (manifest_directory oid)"
  by (simp add: manifest_ok_def manifest_asserts_def manifest_directory_def str16_ok_def str_ok_def as_bytes_def)

section \<open>Properties\<close>

text \<open>C8: the manifest format. \<open>encode\<close> of a manifest that satisfies the assertions and fits the length
  prefixes returns bytes that \<open>decode\<close> turns back into the manifest, whatever follows them, under the
  current and the legacy magic; and \<open>decode\<close> accepts nothing else: every manifest it returns satisfies
  the invariant, and the input starts with a magic and the encoding of that very manifest.\<close>

theorem manifest_roundtrip:
  "(if manifest_ok m then
      (\<exists>bs. (manifest_encode m :: ('e, _) res) = Inr bs \<and> manifest_decode (bs @ rest) = Inr m \<and>
        manifest_decode (MANIFEST_MAGIC_LEGACY @ drop 8 bs @ rest) = Inr m)
    else True) \<and>
   (case manifest_decode buf of
      Inr m' \<Rightarrow> manifest_ok m' \<and> (\<exists>tl. drop 8 buf = manifest_body m' @ tl) \<and>
        (take 8 buf = MANIFEST_MAGIC \<or> take 8 buf = MANIFEST_MAGIC_LEGACY)
    | Inl _ \<Rightarrow> True)"
proof (intro conjI)
  show "if manifest_ok m then
      (\<exists>bs. (manifest_encode m :: ('e, _) res) = Inr bs \<and> manifest_decode (bs @ rest) = Inr m \<and>
        manifest_decode (MANIFEST_MAGIC_LEGACY @ drop 8 bs @ rest) = Inr m)
    else True"
    using manifest_decode_encode[of m _ rest] by (simp add: manifest_encode_ok)
  show "case manifest_decode buf of
      Inr m' \<Rightarrow> manifest_ok m' \<and> (\<exists>tl. drop 8 buf = manifest_body m' @ tl) \<and>
        (take 8 buf = MANIFEST_MAGIC \<or> take 8 buf = MANIFEST_MAGIC_LEGACY)
    | Inl _ \<Rightarrow> True"
    using manifest_decode_sound[of buf] by (auto split: sum.split)
qed

text \<open>a manifest file that was cut short is rejected, at whatever byte it was cut.\<close>

theorem manifest_truncated:
  assumes "manifest_ok m" and "(manifest_encode m :: (unit, _) res) = Inr bs" and "n < length bs"
  shows "\<exists>e. manifest_decode (take n bs) = Inl e"
proof (rule ccontr)
  assume "\<nexists>e. manifest_decode (take n bs) = Inl e"
  then obtain m' where "manifest_decode (take n bs) = Inr m'" by (cases "manifest_decode (take n bs)") auto
  then obtain magic c x where
    c: "c_take 8 (take n bs) = Inr (magic, c)" "dec_body c = Inr (m', x)"
    by (auto simp: manifest_decode_def rbind_eq_Inr split: if_splits)
  have bs: "bs = MANIFEST_MAGIC @ manifest_body m" using assms(1,2) manifest_encode_ok[of m, where 'e = unit] by simp
  from c_take_sound[OF c(1)] have n: "8 \<le> n" "c = drop 8 (take n bs)"
    using assms(3) by (auto dest: arg_cong[where f = length])
  then have "manifest_body m = c @ drop (n - 8) (manifest_body m)"
    using bs by (simp add: drop_take)
  moreover have "drop (n - 8) (manifest_body m) \<noteq> []" using assms(3) bs n by simp
  ultimately have "\<nexists>y r. dec_body c = Inr (y, r)"
    using manifest_codec.prefix_rejected[OF assms(1)] by blast
  with c(2) show False by blast
qed

theorem manifest_truncated_witness:
  "\<exists>bs e. (manifest_encode (manifest_directory 7) :: (unit, _) res) = Inr bs \<and> 20 < length bs \<and>
     manifest_decode (take 20 bs) = Inl e"
proof -
  define bs where "bs = MANIFEST_MAGIC @ manifest_body (manifest_directory 7)"
  have enc: "(manifest_encode (manifest_directory 7) :: (unit, _) res) = Inr bs"
    using manifest_encode_ok[OF manifest_directory_ok, where 'e = unit] by (simp add: bs_def)
  have "20 < length bs" by (simp add: bs_def manifest_body_def enc_head_def)
  with manifest_truncated[OF manifest_directory_ok enc this] enc show ?thesis by blast
qed

end
