(* ===== verification/Ordmap.thy ===== *)
theory Ordmap
  imports Prelude
begin

text \<open>
  \<open>BTreeMap\<close> as the sources use it: an association list sorted by strictly increasing keys, so that
  iteration order and equality are those of the code. The interface is the locale \<open>ordered_dict\<close>
  (lookup after insert and remove, sorted key list); its client lemmas cover runs of insertions and
  extensionality, and the association list implementation is its interpretation.
\<close>

section \<open>The interface\<close>

locale ordered_dict =
  fixes emp :: 'm
    and ins :: "'k::linorder \<Rightarrow> 'v \<Rightarrow> 'm \<Rightarrow> 'm"
    and del :: "'k \<Rightarrow> 'm \<Rightarrow> 'm"
    and get :: "'m \<Rightarrow> 'k \<Rightarrow> 'v option"
    and items :: "'m \<Rightarrow> ('k \<times> 'v) list"
    and ok :: "'m \<Rightarrow> bool"
  assumes ok_emp: "ok emp"
    and ok_ins: "ok m \<Longrightarrow> ok (ins k v m)"
    and ok_del: "ok m \<Longrightarrow> ok (del k m)"
    and get_emp: "get emp k = None"
    and get_ins: "ok m \<Longrightarrow> get (ins k v m) k' = (if k' = k then Some v else get m k')"
    and get_del: "ok m \<Longrightarrow> get (del k m) k' = (if k' = k then None else get m k')"
    and items_sorted: "ok m \<Longrightarrow> sorted_wrt (<) (map fst (items m))"
    and items_get: "ok m \<Longrightarrow> (k, v) \<in> set (items m) \<longleftrightarrow> get m k = Some v"
begin

lemma ok_fold: "ok m \<Longrightarrow> ok (fold (\<lambda>(k, v). ins k v) kvs m)"
  by (induction kvs arbitrary: m) (auto simp: ok_ins)

lemma get_fold:
  "ok m \<Longrightarrow> get (fold (\<lambda>(k, v). ins k v) kvs m) k = (case map_of (rev kvs) k of Some v \<Rightarrow> Some v | None \<Rightarrow> get m k)"
proof (induction kvs rule: rev_induct)
  case Nil
  then show ?case by simp
next
  case (snoc kv kvs)
  then show ?case by (cases kv) (auto simp: get_ins ok_fold)
qed

lemma items_ext:
  assumes "ok m" and "ok m'" and "\<And>k. get m k = get m' k" shows "items m = items m'"
proof -
  have d: "distinct (map fst (items x))" "sorted (map fst (items x))" if "ok x" for x
    using items_sorted[OF that] by (simp_all add: strict_sorted_iff)
  have eq: "set (items m) = set (items m')"
    using items_get[OF assms(1)] items_get[OF assms(2)] assms(3) by auto
  have "inj_on fst (set (items m) \<union> set (items m'))"
    using d(1)[OF assms(2)] by (simp add: eq distinct_map)
  then show ?thesis
    using d[OF assms(1)] d[OF assms(2)] eq by (intro map_sorted_distinct_set_unique)
qed

end

section \<open>Sorted association lists\<close>

fun om_insert :: "'k::linorder \<Rightarrow> 'v \<Rightarrow> ('k \<times> 'v) list \<Rightarrow> ('k \<times> 'v) list" where
  "om_insert k v [] = [(k, v)]"
| "om_insert k v ((k', v') # r) =
     (if k < k' then (k, v) # (k', v') # r
      else if k = k' then (k, v) # r
      else (k', v') # om_insert k v r)"

definition om_get :: "('k \<times> 'v) list \<Rightarrow> 'k \<Rightarrow> 'v option" where
  "om_get m k = map_of m k"

definition om_remove :: "'k \<Rightarrow> ('k \<times> 'v) list \<Rightarrow> ('k \<times> 'v) list" where
  "om_remove k m = filter (\<lambda>(k', _). k' \<noteq> k) m"

definition om_keys :: "('k \<times> 'v) list \<Rightarrow> 'k list" where
  "om_keys m = map fst m"

definition om_ok :: "('k::linorder \<times> 'v) list \<Rightarrow> bool" where
  "om_ok m \<longleftrightarrow> sorted_wrt (<) (map fst m)"

lemma om_ok_Cons: "om_ok ((k, v) # r) \<longleftrightarrow> om_ok r \<and> (\<forall>(k', _) \<in> set r. k < k')"
  by (auto simp: om_ok_def)

lemma set_om_insert: "set (om_insert k v m) \<subseteq> insert (k, v) (set m)"
  by (induction k v m rule: om_insert.induct) auto

lemma om_ok_insert: "om_ok m \<Longrightarrow> om_ok (om_insert k v m)"
proof (induction k v m rule: om_insert.induct)
  case (2 k v k' v' r)
  then show ?case using set_om_insert[of k v r] by (fastforce simp: om_ok_Cons)
qed (simp add: om_ok_def)

lemma om_get_insert: "om_ok m \<Longrightarrow> om_get (om_insert k v m) k' = (if k' = k then Some v else om_get m k')"
  by (induction k v m rule: om_insert.induct) (auto simp: om_get_def om_ok_Cons)

lemma om_ok_remove: "om_ok m \<Longrightarrow> om_ok (om_remove k m)"
  by (induction m) (auto simp: om_remove_def om_ok_Cons)

lemma om_get_remove: "om_get (om_remove k m) k' = (if k' = k then None else om_get m k')"
  by (induction m) (auto simp: om_get_def om_remove_def)

lemma om_distinct: "om_ok m \<Longrightarrow> distinct (map fst m)"
  by (simp add: om_ok_def strict_sorted_iff)

lemma om_items_get: "om_ok m \<Longrightarrow> (k, v) \<in> set m \<longleftrightarrow> om_get m k = Some v"
  using om_distinct[of m] by (auto simp: om_get_def)

interpretation om: ordered_dict "[]" om_insert om_remove om_get "\<lambda>m. m" om_ok
proof unfold_locales
  show "om_get [] k = None" for k by (simp add: om_get_def)
qed (auto simp: om_ok_insert om_ok_remove om_get_insert om_get_remove om_items_get,
     auto simp: om_ok_def)

lemma om_get_dom: "k \<in> set (map fst m) \<longleftrightarrow> om_get m k \<noteq> None"
  by (simp add: om_get_def map_of_eq_None_iff)

lemma om_ext: "om_ok m \<Longrightarrow> om_ok m' \<Longrightarrow> (\<And>k. om_get m k = om_get m' k) \<Longrightarrow> m = m'"
  by (rule om.items_ext)

text \<open>Inserting the entries of a sorted list in order rebuilds the list.\<close>

lemma om_insert_last: "om_ok (m @ [(k, v)]) \<Longrightarrow> om_insert k v m = m @ [(k, v)]"
  by (induction m) (auto simp: om_ok_Cons)

lemma om_ok_append: "om_ok (m @ m') \<Longrightarrow> om_ok m"
  by (simp add: om_ok_def sorted_wrt_append)

lemma om_length_insert: "om_ok m \<Longrightarrow> length (om_insert k v m) = length m + (if om_get m k = None then 1 else 0)"
  by (induction k v m rule: om_insert.induct) (auto simp: om_get_def om_ok_Cons map_of_eq_None_iff)

end
