(* ===== verification/Sha256.thy ===== *)
theory Sha256
  imports Codec
begin

text \<open>
  \<open>holofs-core/src/hash.rs\<close>: the incremental SHA-256. The struct is the record \<open>sha\<close>; \<open>sha_update\<close>
  and \<open>sha_finalize\<close> are the buffering loops of the source, \<open>sha_process_block\<close> the compression
  function. The reference \<open>sha_spec\<close> is the one-shot definition of FIPS 180-4: pad the whole message,
  compress it block by block. The refinement lemma is that however a message is cut into \<open>update\<close>
  calls, \<open>finalize\<close> returns the reference digest.
\<close>

section \<open>Constants\<close>

definition SHA_K :: "u32 list" where
  "SHA_K = concat
    [[0x428a2f98, 0x71374491, 0xb5c0fbcf, 0xe9b5dba5, 0x3956c25b, 0x59f111f1, 0x923f82a4, 0xab1c5ed5],
     [0xd807aa98, 0x12835b01, 0x243185be, 0x550c7dc3, 0x72be5d74, 0x80deb1fe, 0x9bdc06a7, 0xc19bf174],
     [0xe49b69c1, 0xefbe4786, 0x0fc19dc6, 0x240ca1cc, 0x2de92c6f, 0x4a7484aa, 0x5cb0a9dc, 0x76f988da],
     [0x983e5152, 0xa831c66d, 0xb00327c8, 0xbf597fc7, 0xc6e00bf3, 0xd5a79147, 0x06ca6351, 0x14292967],
     [0x27b70a85, 0x2e1b2138, 0x4d2c6dfc, 0x53380d13, 0x650a7354, 0x766a0abb, 0x81c2c92e, 0x92722c85],
     [0xa2bfe8a1, 0xa81a664b, 0xc24b8b70, 0xc76c51a3, 0xd192e819, 0xd6990624, 0xf40e3585, 0x106aa070],
     [0x19a4c116, 0x1e376c08, 0x2748774c, 0x34b0bcb5, 0x391c0cb3, 0x4ed8aa4a, 0x5b9cca4f, 0x682e6ff3],
     [0x748f82ee, 0x78a5636f, 0x84c87814, 0x8cc70208, 0x90befffa, 0xa4506ceb, 0xbef9a3f7, 0xc67178f2]]"

definition H_INIT :: "u32 list" where
  "H_INIT =
    [0x6a09e667, 0xbb67ae85, 0x3c6ef372, 0xa54ff53a, 0x510e527f, 0x9b05688c, 0x1f83d9ab, 0x5be0cd19]"

section \<open>The compression function\<close>

definition sha_word :: "bytes \<Rightarrow> nat \<Rightarrow> u32" where
  "sha_word block i = word_of_nat (be_val (slice block (i * 4) (i * 4 + 4)))"

definition sha_extend :: "nat \<Rightarrow> u32 list \<Rightarrow> u32 list" where
  "sha_extend i w =
     (let s0 = word_rotr 7 (w ! (i - 15)) XOR word_rotr 18 (w ! (i - 15)) XOR drop_bit 3 (w ! (i - 15));
          s1 = word_rotr 17 (w ! (i - 2)) XOR word_rotr 19 (w ! (i - 2)) XOR drop_bit 10 (w ! (i - 2))
      in w @ [w ! (i - 16) + s0 + w ! (i - 7) + s1])"

type_synonym sha_regs = "u32 \<times> u32 \<times> u32 \<times> u32 \<times> u32 \<times> u32 \<times> u32 \<times> u32"

definition sha_round :: "u32 list \<Rightarrow> nat \<Rightarrow> sha_regs \<Rightarrow> sha_regs" where
  "sha_round w i r = (case r of (a, b, c, d, e, f, g, hh) \<Rightarrow>
     (let s1 = word_rotr 6 e XOR word_rotr 11 e XOR word_rotr 25 e;
          ch = (e AND f) XOR (NOT e AND g);
          t1 = hh + s1 + ch + SHA_K ! i + w ! i;
          s0 = word_rotr 2 a XOR word_rotr 13 a XOR word_rotr 22 a;
          maj = (a AND b) XOR (a AND c) XOR (b AND c);
          t2 = s0 + maj
      in (t1 + t2, a, b, c, d + t1, e, f, g)))"

definition sha_process_block :: "u32 list \<Rightarrow> bytes \<Rightarrow> u32 list" where
  "sha_process_block h block =
     (let w = fold sha_extend [16..<64] (map (sha_word block) [0..<16]);
          (a, b, c, d, e, f, g, hh) =
            fold (sha_round w) [0..<64] (h ! 0, h ! 1, h ! 2, h ! 3, h ! 4, h ! 5, h ! 6, h ! 7)
      in [h ! 0 + a, h ! 1 + b, h ! 2 + c, h ! 3 + d, h ! 4 + e, h ! 5 + f, h ! 6 + g, h ! 7 + hh])"

section \<open>The incremental hasher\<close>

record sha =
  sha_h :: "u32 list"
  sha_buf :: bytes
  sha_buf_len :: nat
  sha_total_len :: u64

definition sha_new :: sha where
  "sha_new = \<lparr>sha_h = H_INIT, sha_buf = replicate 64 0, sha_buf_len = 0, sha_total_len = 0\<rparr>"

text \<open>\<open>buf[a..a + src.len()].copy_from_slice(src)\<close>.\<close>

definition write_at :: "bytes \<Rightarrow> nat \<Rightarrow> bytes \<Rightarrow> bytes" where
  "write_at buf a src = take a buf @ src @ drop (a + length src) buf"

definition sha_flush :: "sha \<Rightarrow> sha" where
  "sha_flush s = s\<lparr>sha_h := sha_process_block (sha_h s) (sha_buf s), sha_buf_len := 0\<rparr>"

definition sha_absorb_step :: "sha \<Rightarrow> nat \<Rightarrow> bytes \<Rightarrow> sha" where
  "sha_absorb_step s tk data =
     (let s = s\<lparr>sha_buf := write_at (sha_buf s) (sha_buf_len s) (take tk data),
                sha_buf_len := sha_buf_len s + tk\<rparr>
      in if sha_buf_len s = 64 then sha_flush s else s)"

text \<open>The \<open>while !data.is_empty()\<close> loop. The buffer is never full between turns (\<open>buf_len < 64\<close>), so
  every turn consumes at least one byte; the test of \<open>tk\<close> only makes the recursion total.\<close>

function sha_absorb :: "sha \<Rightarrow> bytes \<Rightarrow> sha" where
  "sha_absorb s data =
     (if data = [] then s
      else let tk = min (64 - sha_buf_len s) (length data) in
      if tk = 0 then s else sha_absorb (sha_absorb_step s tk data) (drop tk data))"
  by pat_completeness auto
termination by (relation "measure (\<lambda>(s, data). length data)") auto

declare sha_absorb.simps [simp del]

definition sha_update :: "sha \<Rightarrow> bytes \<Rightarrow> sha" where
  "sha_update s data =
     sha_absorb (s\<lparr>sha_total_len := sha_total_len s + word_of_nat (length data)\<rparr>) data"

definition zero_from :: "bytes \<Rightarrow> nat \<Rightarrow> nat \<Rightarrow> bytes" where
  "zero_from buf a b = fold (\<lambda>i buf. buf[i := 0]) [a..<b] buf"

definition sha_finalize :: "sha \<Rightarrow> bytes" where
  "sha_finalize s =
     (let bit_len = sha_total_len s * 8;
          s = s\<lparr>sha_buf := (sha_buf s)[sha_buf_len s := 0x80], sha_buf_len := sha_buf_len s + 1\<rparr>;
          s = (if sha_buf_len s > 56
               then sha_flush (s\<lparr>sha_buf := zero_from (sha_buf s) (sha_buf_len s) 64\<rparr>) else s);
          buf = zero_from (sha_buf s) (sha_buf_len s) 56;
          buf = write_at buf 56 (u64_be bit_len);
          h = sha_process_block (sha_h s) buf
      in concat (map (\<lambda>i. u32_be (h ! i)) [0..<8]))"

definition sha256 :: "bytes \<Rightarrow> bytes" where
  "sha256 data = sha_finalize (sha_update sha_new data)"

definition hex_digit :: "nat \<Rightarrow> char" where
  "hex_digit n = ''0123456789abcdef'' ! n"

definition hex :: "bytes \<Rightarrow> string" where
  "hex bs = concat (map (\<lambda>b. [hex_digit (unat b div 16), hex_digit (unat b mod 16)]) bs)"

section \<open>The reference definition\<close>

text \<open>Compress all complete blocks of a message, returning the state and the incomplete rest.\<close>

function sha_blocks :: "u32 list \<Rightarrow> bytes \<Rightarrow> u32 list \<times> bytes" where
  "sha_blocks h m = (if length m < 64 then (h, m)
     else sha_blocks (sha_process_block h (take 64 m)) (drop 64 m))"
  by pat_completeness auto
termination by (relation "measure (\<lambda>(h, m). length m)") auto

declare sha_blocks.simps [simp del]

definition sha_pad :: "bytes \<Rightarrow> bytes" where
  "sha_pad m = m @ [0x80] @ replicate ((119 - length m mod 64) mod 64) 0 @ be_bytes 8 (8 * length m)"

definition sha_spec :: "bytes \<Rightarrow> bytes" where
  "sha_spec m = concat (map u32_be (fst (sha_blocks H_INIT (sha_pad m))))"

section \<open>The hasher refines the reference\<close>

lemma sha_blocks_short [simp]: "length m < 64 \<Longrightarrow> sha_blocks h m = (h, m)"
  by (subst sha_blocks.simps) simp

lemma sha_blocks_full [simp]: "length b = 64 \<Longrightarrow> sha_blocks h (b @ m) = sha_blocks (sha_process_block h b) m"
  by (subst sha_blocks.simps) simp

lemma sha_blocks_append:
  "sha_blocks h (m @ d) = (case sha_blocks h m of (h', r) \<Rightarrow> sha_blocks h' (r @ d))"
proof (induction h m rule: sha_blocks.induct)
  case (1 h m)
  show ?case
  proof (cases "length m < 64")
    case False
    then have "m = take 64 m @ drop 64 m" "length (take 64 m) = 64" by simp_all
    then have "sha_blocks h (m @ d) = sha_blocks (sha_process_block h (take 64 m)) (drop 64 m @ d)"
      by (metis append.assoc sha_blocks_full)
    moreover have "sha_blocks h m = sha_blocks (sha_process_block h (take 64 m)) (drop 64 m)"
      using False by (subst sha_blocks.simps) simp
    ultimately show ?thesis using 1[OF False] by simp
  qed simp
qed

lemma sha_blocks_rest: "length (snd (sha_blocks h m)) = length m mod 64"
proof (induction h m rule: sha_blocks.induct)
  case (1 h m)
  then show ?case by (subst sha_blocks.simps) (auto simp: mod_if[of "length m"])
qed

lemma length_process [simp]: "length (sha_process_block h b) = 8"
  by (simp add: sha_process_block_def Let_def split: prod.split)

lemma length_sha_blocks: "length h = 8 \<Longrightarrow> length (fst (sha_blocks h m)) = 8"
proof (induction h m rule: sha_blocks.induct)
  case (1 h m)
  then show ?case by (subst sha_blocks.simps) auto
qed

lemma length_H_INIT [simp]: "length H_INIT = 8"
  by (simp add: H_INIT_def)

text \<open>\<open>sha_ok m s\<close>: the hasher has absorbed the message \<open>m\<close>.\<close>

definition sha_ok :: "bytes \<Rightarrow> sha \<Rightarrow> bool" where
  "sha_ok m s \<longleftrightarrow> length (sha_buf s) = 64 \<and> sha_buf_len s < 64 \<and>
     sha_blocks H_INIT m = (sha_h s, take (sha_buf_len s) (sha_buf s))"

lemma sha_absorb_ok:
  "sha_ok m s \<Longrightarrow> sha_ok (m @ data) (sha_absorb s data) \<and> sha_total_len (sha_absorb s data) = sha_total_len s"
proof (induction s data arbitrary: m rule: sha_absorb.induct)
  case (1 s data)
  show ?case
  proof (cases "data = []")
    case True
    with 1 show ?thesis by (simp add: sha_absorb.simps)
  next
    case False
    define tk where "tk = min (64 - sha_buf_len s) (length data)"
    let ?s = "sha_absorb_step s tk data"
    have tk: "tk \<noteq> 0" "tk \<le> length data" "sha_buf_len s + tk \<le> 64"
      using False 1(2) by (auto simp: tk_def sha_ok_def)
    have b: "sha_blocks H_INIT (m @ take tk data) = sha_blocks (sha_h s) (take (sha_buf_len s) (sha_buf s) @ take tk data)"
      using 1(2) by (subst sha_blocks_append) (simp add: sha_ok_def)
    have "sha_ok (m @ take tk data) ?s"
    proof (cases "sha_buf_len s + tk = 64")
      case True
      then have "sha_blocks H_INIT (m @ take tk data) =
          (sha_process_block (sha_h s) (take (sha_buf_len s) (sha_buf s) @ take tk data), [])"
        using b 1(2) tk sha_blocks_full[of "take (sha_buf_len s) (sha_buf s) @ take tk data" "sha_h s" "[]"]
        by (simp add: sha_ok_def)
      with True tk 1(2) show ?thesis
        by (simp add: sha_ok_def sha_absorb_step_def sha_flush_def write_at_def)
    next
      case False
      then have "length (take (sha_buf_len s) (sha_buf s) @ take tk data) < 64"
        using tk 1(2) by (simp add: sha_ok_def)
      with b False tk 1(2) show ?thesis
        by (simp add: sha_ok_def sha_absorb_step_def write_at_def)
    qed
    moreover have "sha_total_len ?s = sha_total_len s"
      by (simp add: sha_absorb_step_def sha_flush_def Let_def)
    moreover have "sha_absorb s data = sha_absorb ?s (drop tk data)"
      using False tk(1) by (subst sha_absorb.simps) (simp add: tk_def[symmetric] Let_def)
    ultimately show ?thesis
      using 1(1)[OF False tk_def tk(1), of "m @ take tk data"] by simp
  qed
qed

lemma sha_update_ok:
  assumes "sha_ok m s" and "sha_total_len s = word_of_nat (length m)"
  shows "sha_ok (m @ d) (sha_update s d)" and "sha_total_len (sha_update s d) = word_of_nat (length (m @ d))"
  using assms sha_absorb_ok[of m "s\<lparr>sha_total_len := sha_total_len s + word_of_nat (length d)\<rparr>" d]
  by (simp_all add: sha_update_def sha_ok_def)

lemma zero_from_eq:
  "a \<le> b \<Longrightarrow> b \<le> length buf \<Longrightarrow> zero_from buf a b = take a buf @ replicate (b - a) 0 @ drop b buf"
proof (induction b rule: dec_induct)
  case base
  then show ?case by (simp add: zero_from_def)
next
  case (step n)
  then have "zero_from buf a (Suc n) = (take a buf @ replicate (n - a) 0 @ drop n buf)[n := 0]"
    by (simp add: zero_from_def)
  also have "\<dots> = take a buf @ replicate (n - a) 0 @ (drop n buf)[0 := 0]"
    using step by (simp add: list_update_append)
  also have "(drop n buf)[0 := 0] = 0 # drop (Suc n) buf"
    using step by (cases "drop n buf") (auto simp: drop_Suc tl_drop dest: arg_cong[where f = tl])
  finally show ?case
    using step by (simp add: Suc_diff_le replicate_append_same[symmetric])
qed

lemma bit_len_bytes: "u64_be (word_of_nat n * 8) = be_bytes 8 (8 * n)"
proof -
  have "(word_of_nat n * 8 :: u64) = word_of_nat (8 * n)" by simp
  then show ?thesis by (simp only: len_be)
qed

lemma sha_finalize_ok:
  assumes ok: "sha_ok m s" and len: "sha_total_len s = word_of_nat (length m)"
  shows "sha_finalize s = sha_spec m"
proof -
  let ?n = "sha_buf_len s" and ?L = "be_bytes 8 (8 * length m)"
  define r where "r = take ?n (sha_buf s)"
  have n: "?n < 64" "length (sha_buf s) = 64" "length r = ?n" using ok by (simp_all add: sha_ok_def r_def)
  have b: "sha_blocks H_INIT m = (sha_h s, r)" using ok by (simp add: sha_ok_def r_def)
  have nm: "?n = length m mod 64" using sha_blocks_rest[of H_INIT m] b n by simp
  have spec: "fst (sha_blocks H_INIT (sha_pad m)) =
      fst (sha_blocks (sha_h s) (r @ 0x80 # replicate ((119 - ?n) mod 64) 0 @ ?L))"
    unfolding sha_pad_def by (subst sha_blocks_append) (simp add: b nm)
  have upd: "take (Suc ?n) ((sha_buf s)[?n := 0x80]) = r @ [0x80]"
    using n by (simp add: take_Suc_conv_app_nth r_def)
  have out: "concat (map (\<lambda>i. u32_be (h ! i)) [0..<8]) = concat (map u32_be h)" if "length h = 8" for h
    using that map_nth[of h] by (metis map_map comp_apply map_cong)
  show ?thesis
  proof (cases "?n + 1 > 56")
    case True
    let ?b1 = "r @ 0x80 # replicate (63 - ?n) 0"
    have z: "(119 - ?n) mod 64 = (63 - ?n) + 56" using True n(1) by (simp add: mod_if)
    have 1: "zero_from ((sha_buf s)[?n := 0x80]) (Suc ?n) 64 = ?b1"
      using n upd by (simp add: zero_from_eq)
    have l1: "length ?b1 = 64" using n by simp
    have 2: "write_at (zero_from ?b1 0 56) 56 ?L = replicate 56 0 @ ?L"
      using l1 by (simp add: zero_from_eq write_at_def)
    have "sha_blocks (sha_h s) (r @ 0x80 # replicate ((119 - ?n) mod 64) 0 @ ?L) =
        sha_blocks (sha_h s) (?b1 @ (replicate 56 0 @ ?L) @ [])"
      unfolding z replicate_add by simp
    also have "\<dots> = (sha_process_block (sha_process_block (sha_h s) ?b1) (replicate 56 0 @ ?L), [])"
      by (subst sha_blocks_full[OF l1], subst sha_blocks_full) simp_all
    finally show ?thesis
      using True 1 2 spec
      by (simp add: sha_finalize_def sha_spec_def sha_flush_def len bit_len_bytes out)
  next
    case False
    have z: "(119 - ?n) mod 64 = 55 - ?n" using False by (simp add: mod_if)
    have 1: "write_at (zero_from ((sha_buf s)[?n := 0x80]) (Suc ?n) 56) 56 ?L =
        r @ 0x80 # replicate (55 - ?n) 0 @ ?L"
    proof -
      have "56 - ?n = Suc (55 - ?n)" using False by simp
      then show ?thesis using n False upd by (simp add: zero_from_eq write_at_def)
    qed
    have "sha_blocks (sha_h s) (r @ 0x80 # replicate ((119 - ?n) mod 64) 0 @ ?L) =
        (sha_process_block (sha_h s) (r @ 0x80 # replicate (55 - ?n) 0 @ ?L), [])"
      unfolding z using n False
        sha_blocks_full[of "r @ 0x80 # replicate (55 - ?n) 0 @ ?L" "sha_h s" "[]"] by simp
    with False 1 spec show ?thesis
      by (simp add: sha_finalize_def sha_spec_def len bit_len_bytes out)
  qed
qed

lemma sha_new_ok: "sha_ok [] sha_new" "sha_total_len sha_new = word_of_nat (length ([] :: bytes))"
  by (simp_all add: sha_ok_def sha_new_def)

lemma sha_updates_ok:
  "sha_ok m s \<Longrightarrow> sha_total_len s = word_of_nat (length m) \<Longrightarrow>
     sha_finalize (fold (\<lambda>d s. sha_update s d) ds s) = sha_spec (m @ concat ds)"
proof (induction ds arbitrary: m s)
  case Nil
  then show ?case by (simp add: sha_finalize_ok)
next
  case (Cons d ds)
  with sha_update_ok[OF Cons.prems, of d] show ?case by simp
qed

lemma sha256_spec: "sha256 data = sha_spec data"
  using sha_updates_ok[OF sha_new_ok, of "[data]"] by (simp add: sha256_def)

lemma length_sha256 [simp]: "length (sha256 data) = 32"
proof -
  let ?h = "fst (sha_blocks H_INIT (sha_pad data))"
  have "length (concat (map u32_be h)) = 4 * length h" for h by (induction h) auto
  moreover have "length ?h = 8" by (rule length_sha_blocks) simp
  ultimately show ?thesis by (simp add: sha256_spec sha_spec_def)
qed

lemma sha_pad_blocks: "64 dvd length (sha_pad m)"
proof -
  define q k where "q = length m mod 64" and "k = length m div 64"
  have "length m = 64 * k + q" "q < 64" by (simp_all add: q_def k_def)
  moreover have "(119 - q) mod 64 = (if q \<le> 55 then 55 - q else 119 - q)"
    using \<open>q < 64\<close> by (simp add: mod_if)
  ultimately have "length (sha_pad m) = 64 * (k + (if q \<le> 55 then 1 else 2))"
    by (simp add: sha_pad_def q_def[symmetric])
  then show ?thesis by simp
qed

section \<open>Properties\<close>


end
