(* ===== verification/Catalog.thy ===== *)
theory Catalog
  imports Manifest Path Ordmap Sha256
begin

text \<open>
  \<open>holofs-model/src/fs.rs\<close>: the catalog \<open>Directory\<close>, an ordered map from paths to manifests, its
  migration step \<open>synthesize_missing_directories\<close> and its binary format. Reading and writing the file
  itself is in \<open>Boot\<close> and, call by call, in \<open>Durable\<close>.

  Shown: the migration adds exactly the missing ancestors, as directory markers, and is idempotent;
  the binary format round-trips through the per-entry manifest format.
\<close>

section \<open>Operations\<close>

type_synonym catalog = "(string \<times> manifest) list"

definition cat_new :: catalog where "cat_new = []"

definition cat_insert :: "string \<Rightarrow> manifest \<Rightarrow> catalog \<Rightarrow> catalog" where
  "cat_insert name m d = om_insert name m d"

definition cat_get :: "catalog \<Rightarrow> string \<Rightarrow> manifest option" where
  "cat_get d name = om_get d name"

definition cat_remove :: "string \<Rightarrow> catalog \<Rightarrow> manifest option \<times> catalog" where
  "cat_remove name d = (om_get d name, om_remove name d)"

definition cat_names :: "catalog \<Rightarrow> string list" where
  "cat_names d = om_keys d"

text \<open>The domain-tagged identity of a directory path.\<close>

definition dir_object_id :: "string \<Rightarrow> u64" where
  "dir_object_id path =
     word_of_nat (be_val (take 8 (sha256 (as_bytes ''holofs-dir-v1'' @ [0] @ as_bytes path))))"

definition wanted_dirs :: "catalog \<Rightarrow> string list" where
  "wanted_dirs d = concat (map (\<lambda>(key, m).
     if m_kind m = Directory then [] else filter (\<lambda>anc. cat_get d anc = None) (ancestors key)) d)"

text \<open>\<open>sort\<close> followed by \<open>dedup\<close> is \<open>remdups (sort \<dots>)\<close>: equal elements are adjacent.\<close>

definition synthesize_missing_directories :: "catalog \<Rightarrow> nat \<times> catalog" where
  "synthesize_missing_directories d =
     (let wanted = remdups (sort (wanted_dirs d))
      in (length wanted,
          fold (\<lambda>path d. cat_insert path (manifest_directory (dir_object_id path)) d) wanted d))"

section \<open>The binary format\<close>

definition CATALOG_MAGIC :: bytes where "CATALOG_MAGIC = as_bytes ''HOLOFSD1''"

definition enc_entry :: "string \<times> manifest \<Rightarrow> ('e, bytes) res" where
  "enc_entry e = (case e of (name, m) \<Rightarrow>
     rbind (manifest_encode m) (\<lambda>mb. Inr (str16_be name @ be_bytes 4 (length mb) @ mb)))"

definition cat_encode :: "catalog \<Rightarrow> ('e, bytes) res" where
  "cat_encode d =
     rbind (rmap enc_entry d) (\<lambda>es. Inr (CATALOG_MAGIC @ be_bytes 4 (length d) @ concat es))"

fun cat_entries :: "nat \<Rightarrow> bytes \<Rightarrow> catalog \<Rightarrow> (io_error, catalog) res" where
  "cat_entries 0 c d = Inr d"
| "cat_entries (Suc n) c d =
     rbind (c_u16 c) (\<lambda>(nlen, c). rbind (c_take (unat nlen) c) (\<lambda>(nb, c).
     rbind (from_utf8 nb) (\<lambda>name.
     rbind (c_u32 c) (\<lambda>(mlen, c). rbind (c_take (unat mlen) c) (\<lambda>(mb, c).
     rbind (manifest_decode mb) (\<lambda>m. cat_entries n c (cat_insert name m d)))))))"

definition cat_decode :: "bytes \<Rightarrow> (io_error, catalog) res" where
  "cat_decode buf =
     (if length buf < 12 \<or> take 8 buf \<noteq> CATALOG_MAGIC then Inl (Err InvalidData)
      else rbind (c_u32 (drop 8 buf)) (\<lambda>(n, c). cat_entries (unat n) c []))"

definition cat_load :: "(io_error, bytes) res \<Rightarrow> (io_error, catalog) res" where
  "cat_load file = (case file of
     Inr bs \<Rightarrow> cat_decode bs | Inl (Err NotFound) \<Rightarrow> Inr cat_new | Inl e \<Rightarrow> Inl e)"

section \<open>The catalog is a dictionary\<close>

interpretation cat: ordered_dict cat_new cat_insert "\<lambda>k d. snd (cat_remove k d)" cat_get "\<lambda>d. d" om_ok
  unfolding cat_new_def cat_insert_def[abs_def] cat_get_def[abs_def] cat_remove_def snd_conv
  by unfold_locales

definition catalog_ok :: "catalog \<Rightarrow> bool" where
  "catalog_ok d \<longleftrightarrow> om_ok d \<and> length d < 2 ^ 32 \<and>
     list_all (\<lambda>(name, m). str16_ok name \<and> manifest_ok m \<and> length (manifest_body m) + 8 < 2 ^ 32) d"

section \<open>Migration\<close>

lemma wanted_dirs_iff:
  "om_ok d \<Longrightarrow> a \<in> set (wanted_dirs d) \<longleftrightarrow>
     cat_get d a = None \<and> (\<exists>key m. cat_get d key = Some m \<and> m_kind m \<noteq> Directory \<and> a \<in> set (ancestors key))"
proof -
  assume "om_ok d"
  then have "cat_get d key = Some m \<longleftrightarrow> (key, m) \<in> set d" for key m
    by (simp add: cat_get_def om_items_get)
  then show ?thesis by (fastforce simp: wanted_dirs_def split: if_splits)
qed

lemma cat_length_insert:
  "om_ok d \<Longrightarrow> length (cat_insert k v d) = length d + (if cat_get d k = None then 1 else 0)"
  by (simp add: cat_insert_def cat_get_def om_length_insert)

lemma synth_get:
  assumes "om_ok d"
  shows "om_ok (snd (synthesize_missing_directories d))"
    and "cat_get (snd (synthesize_missing_directories d)) p =
      (if p \<in> set (wanted_dirs d) then Some (manifest_directory (dir_object_id p)) else cat_get d p)"
    and "length (snd (synthesize_missing_directories d)) = length d + fst (synthesize_missing_directories d)"
proof -
  let ?mk = "\<lambda>path. manifest_directory (dir_object_id path)"
  let ?ins = "\<lambda>path d. cat_insert path (?mk path) d"
  have fold: "om_ok (fold ?ins ps d) \<and>
      cat_get (fold ?ins ps d) p = (if p \<in> set ps then Some (?mk p) else cat_get d p) \<and>
      (distinct ps \<longrightarrow> (\<forall>q \<in> set ps. cat_get d q = None) \<longrightarrow> length (fold ?ins ps d) = length d + length ps)"
    for ps p
  proof (induction ps arbitrary: p rule: rev_induct)
    case Nil
    then show ?case using assms by simp
  next
    case (snoc x ps)
    have ok: "om_ok (fold ?ins ps d)" using snoc by simp
    have "cat_get (fold ?ins ps d) x = (if x \<in> set ps then Some (?mk x) else cat_get d x)"
      using snoc[of x] by simp
    then show ?case
      using snoc[of p] ok cat.ok_ins[OF ok] cat.get_ins[OF ok] cat_length_insert[OF ok, of x "?mk x"]
      by auto
  qed
  let ?w = "remdups (sort (wanted_dirs d))"
  have s: "synthesize_missing_directories d = (length ?w, fold ?ins ?w d)"
    by (simp add: synthesize_missing_directories_def Let_def)
  have "\<forall>q \<in> set ?w. cat_get d q = None" using wanted_dirs_iff[OF assms] by simp
  with s fold[of ?w] show "om_ok (snd (synthesize_missing_directories d))"
    "cat_get (snd (synthesize_missing_directories d)) p =
      (if p \<in> set (wanted_dirs d) then Some (?mk p) else cat_get d p)"
    "length (snd (synthesize_missing_directories d)) = length d + fst (synthesize_missing_directories d)"
    by auto
qed

lemma synth_spec:
  assumes "om_ok d" and "r = synthesize_missing_directories d"
  shows "\<forall>key m. cat_get d key = Some m \<longrightarrow> cat_get (snd r) key = Some m"
    and "\<forall>key m a. cat_get d key = Some m \<and> m_kind m \<noteq> Directory \<and> a \<in> set (ancestors key) \<longrightarrow>
           cat_get (snd r) a \<noteq> None"
    and "\<forall>p m. cat_get (snd r) p = Some m \<and> cat_get d p = None \<longrightarrow> m = manifest_directory (dir_object_id p)"
    and "synthesize_missing_directories (snd r) = (0, snd r)"
proof -
  note g = synth_get[OF assms(1)] and w = wanted_dirs_iff[OF assms(1)]
  show "\<forall>key m. cat_get d key = Some m \<longrightarrow> cat_get (snd r) key = Some m"
    using g(2) w assms(2) by auto
  show "\<forall>key m a. cat_get d key = Some m \<and> m_kind m \<noteq> Directory \<and> a \<in> set (ancestors key) \<longrightarrow>
      cat_get (snd r) a \<noteq> None"
    using g(2) w assms(2) by auto
  show "\<forall>p m. cat_get (snd r) p = Some m \<and> cat_get d p = None \<longrightarrow> m = manifest_directory (dir_object_id p)"
    using g(2) assms(2) by (auto split: if_splits)
  have "wanted_dirs (snd r) = []"
  proof -
    have "a \<notin> set (wanted_dirs (snd r))" for a
    proof
      assume a: "a \<in> set (wanted_dirs (snd r))"
      then obtain key m where k: "cat_get (snd r) a = None" "cat_get (snd r) key = Some m"
        "m_kind m \<noteq> Directory" "a \<in> set (ancestors key)"
        using wanted_dirs_iff[OF g(1)] assms(2) by blast
      have "cat_get d key = Some m"
        using k(2,3) g(2)[of key] assms(2) by (auto simp: manifest_directory_def split: if_splits)
      with k g(2)[of a] w[of a] assms(2) show False by (auto split: if_splits)
    qed
    then show ?thesis by (metis list.set_intros(1) neq_Nil_conv)
  qed
  then show "synthesize_missing_directories (snd r) = (0, snd r)"
    by (simp add: synthesize_missing_directories_def)
qed

section \<open>The format round-trips\<close>

lemma enc_entry_ok:
  "manifest_ok m \<Longrightarrow> (enc_entry (name, m) :: ('e, _) res) =
     Inr (str16_be name @ be_bytes 4 (length (MANIFEST_MAGIC @ manifest_body m)) @ MANIFEST_MAGIC @ manifest_body m)"
  by (simp add: enc_entry_def manifest_encode_ok)

lemma cat_entries_ok:
  assumes "list_all (\<lambda>(name, m). str16_ok name \<and> manifest_ok m \<and> length (manifest_body m) + 8 < 2 ^ 32) d"
    and "om_ok (pre @ d)"
  shows "\<exists>es. (rmap enc_entry d :: ('e, _) res) = Inr es \<and>
    cat_entries (length d) (concat es @ rest) pre = Inr (pre @ d)"
  using assms
proof (induction d arbitrary: pre)
  case Nil
  then show ?case by simp
next
  case (Cons e d)
  obtain name m where e: "e = (name, m)" by force
  have ok: "str16_ok name" "manifest_ok m" "length (manifest_body m) + 8 < 2 ^ 32"
    using Cons.prems(1) e by auto
  have "om_ok ((pre @ [(name, m)]) @ d)" using Cons.prems(2) e by simp
  with Cons.IH[of "pre @ [(name, m)]"] Cons.prems(1) obtain es where
    es: "(rmap enc_entry d :: ('e, _) res) = Inr es"
      "cat_entries (length d) (concat es @ rest) (pre @ [(name, m)]) = Inr (pre @ (name, m) # d)" by auto
  have ins: "cat_insert name m pre = pre @ [(name, m)]"
    using \<open>om_ok ((pre @ [(name, m)]) @ d)\<close> by (simp add: cat_insert_def om_insert_last om_ok_append del: append_assoc)
  define mb where "mb = MANIFEST_MAGIC @ manifest_body m"
  have len: "unat (word_of_nat (length mb) :: u32) = length mb"
    using ok(3) by (intro unat_len(2)) (simp add: mb_def)
  have dec: "manifest_decode mb = Inr m"
    using manifest_decode_encode[OF ok(2), of MANIFEST_MAGIC "[]"] by (simp add: mb_def)
  have "(enc_entry (name, m) :: ('e, _) res) = Inr (str16_be name @ be_bytes 4 (length mb) @ mb)"
    using enc_entry_ok[OF ok(2), of name, where 'e = 'e] by (simp only: mb_def)
  then show ?case
    using es ok(1) ins len dec e by (simp add: str16_be_def str16_ok_def)
qed

lemma cat_roundtrip:
  assumes "catalog_ok d"
  shows "\<exists>bs. (cat_encode d :: ('e, _) res) = Inr bs \<and> cat_decode (bs @ rest) = Inr d"
proof -
  from assms cat_entries_ok[of d "[]" rest, where 'e = 'e] obtain es where
    es: "(rmap enc_entry d :: ('e, _) res) = Inr es" "cat_entries (length d) (concat es @ rest) [] = Inr d"
    by (auto simp: catalog_ok_def)
  have "length CATALOG_MAGIC = 8" by (simp add: CATALOG_MAGIC_def)
  with es assms show ?thesis by (simp add: cat_encode_def cat_decode_def catalog_ok_def)
qed

section \<open>Properties\<close>

text \<open>migration. \<open>synthesize_missing_directories\<close> keeps every entry, makes every ancestor of every
  file present, adds nothing but directory markers with the hash-derived identity, reports exactly the
  number of entries it added, and a second run finds nothing to do.\<close>

theorem synthesize_closes:
  assumes "om_ok d" and "synthesize_missing_directories d = (n, d')"
  shows "(\<forall>key m. cat_get d key = Some m \<longrightarrow> cat_get d' key = Some m) \<and>
    (\<forall>key m a. cat_get d key = Some m \<and> m_kind m \<noteq> Directory \<and> a \<in> set (ancestors key) \<longrightarrow> cat_get d' a \<noteq> None) \<and>
    (\<forall>p m. cat_get d' p = Some m \<and> cat_get d p = None \<longrightarrow> m = manifest_directory (dir_object_id p)) \<and>
    length d' = length d + n \<and> om_ok d' \<and> synthesize_missing_directories d' = (0, d')"
proof -
  have r: "(n, d') = synthesize_missing_directories d" using assms(2) by simp
  show ?thesis
    using synth_spec[OF assms(1) r] synth_get(1,3)[OF assms(1)] assms(2)
    unfolding snd_conv by simp
qed

text \<open>C9: the catalog format. A catalog with representable names and manifests encodes without panic,
  and decoding the bytes (followed by anything) returns the same catalog. A missing file loads as the
  empty catalog.\<close>

theorem catalog_roundtrip:
  assumes "catalog_ok d"
  shows "\<exists>bs. (cat_encode d :: ('e, _) res) = Inr bs \<and> cat_load (Inr (bs @ rest)) = Inr d \<and>
    cat_load (Inl (Err NotFound)) = Inr []"
  using cat_roundtrip[OF assms, of rest, where 'e = 'e] by (simp add: cat_load_def cat_new_def)

definition cat_example :: catalog where
  "cat_example = [(''a/b'', manifest_directory 1\<lparr>m_kind := Opaque\<rparr>), (''c'', manifest_directory 2)]"

lemma cat_example_ok: "catalog_ok cat_example"
  by (simp add: catalog_ok_def cat_example_def om_ok_def manifest_ok_def manifest_asserts_def
      manifest_directory_def str16_ok_def str_ok_def as_bytes_def manifest_body_def enc_head_def
      enc_layers_def enc_integrity_def enc_kind_def str16_be_def vec_u32_be_def)

theorem catalog_roundtrip_witness:
  "\<exists>bs. (cat_encode cat_example :: (unit, _) res) = Inr bs \<and> cat_load (Inr (bs @ [1, 2, 3])) = Inr cat_example"
  using catalog_roundtrip[OF cat_example_ok, of "[1, 2, 3]", where 'e = unit] by blast

theorem synthesize_closes_witness:
  "\<exists>d'. synthesize_missing_directories cat_example = (1, d') \<and> cat_get d' ''a'' \<noteq> None"
proof -
  have w: "wanted_dirs cat_example = [''a'']"
    using ancestors_split[of "''a/b''"] ancestors_split[of "''c''"]
    by (simp add: wanted_dirs_def cat_example_def manifest_directory_def cat_get_def om_get_def upt_rec)
  obtain n d' where s: "synthesize_missing_directories cat_example = (n, d')" by force
  then have "n = 1" using w by (auto simp: synthesize_missing_directories_def Let_def)
  have ok: "om_ok cat_example" using cat_example_ok by (simp add: catalog_ok_def)
  have "cat_get cat_example ''a/b'' = Some (manifest_directory 1\<lparr>m_kind := Opaque\<rparr>)"
    by (simp add: cat_example_def cat_get_def om_get_def)
  moreover have "''a'' \<in> set (ancestors ''a/b'')" using ancestors_split[of "''a/b''"] by (simp add: upt_rec)
  ultimately have "cat_get d' ''a'' \<noteq> None"
    using synthesize_closes[OF ok s] by fastforce
  with s \<open>n = 1\<close> show ?thesis by simp
qed

end
