(* ===== verification/Wire.thy ===== *)
theory Wire
  imports Codec Rlnc
begin

text \<open>
  \<open>holofs-wire/src/wire.rs\<close>: the node protocol. A frame is a length-prefixed payload; the payload is a
  \<open>request\<close> or a \<open>response\<close>. A byte stream is the list of bytes still to be read, so \<open>read_frame\<close>
  returns the frame and the rest of the stream; an early end is \<open>UnexpectedEof\<close>.

  Requests are a \<open>canonical_codec\<close>. Responses are only a \<open>codec\<close>: the audit flag accepts any non-zero
  byte and error messages are read leniently (\<open>from_utf8_lossy\<close>).
\<close>

section \<open>Frames\<close>

definition MAX_FRAME :: nat where "MAX_FRAME = 64 * 1024 * 1024"

definition write_frame :: "bytes \<Rightarrow> (io_error, bytes) res" where
  "write_frame bs = (if length bs > MAX_FRAME then Inl (Err InvalidInput)
     else Inr (be_bytes 4 (length bs) @ bs))"

definition read_frame :: "bytes \<Rightarrow> (io_error, bytes \<times> bytes) res" where
  "read_frame stream = rbind (c_u32 stream) (\<lambda>(len, stream).
     if unat len > MAX_FRAME then Inl (Err InvalidData) else c_take (unat len) stream)"

section \<open>Shards on the wire\<close>

definition encode_shard :: "shard \<Rightarrow> bytes" where
  "encode_shard s = be_bytes 2 (length (coeffs s)) @ be_bytes 4 (length (payload s)) @ coeffs s @ payload s"

definition decode_shard :: "bytes \<Rightarrow> (io_error, shard \<times> bytes) res" where
  "decode_shard c = rbind (c_u16 c) (\<lambda>(k, c). rbind (c_u32 c) (\<lambda>(plen, c).
     rbind (c_take (unat k) c) (\<lambda>(cs, c). rbind (c_take (unat plen) c) (\<lambda>(ps, c).
       Inr (\<lparr>coeffs = cs, payload = ps\<rparr>, c)))))"

definition shard_ok :: "shard \<Rightarrow> bool" where
  "shard_ok s \<longleftrightarrow> length (coeffs s) < 2 ^ 16 \<and> length (payload s) < 2 ^ 32"

interpretation shard_codec: canonical_codec encode_shard decode_shard shard_ok
proof
  show "decode_shard (encode_shard s @ rest) = Inr (s, rest)" if "shard_ok s" for s rest
    using that by (simp add: shard_ok_def encode_shard_def decode_shard_def)
  fix c s rest
  assume "decode_shard c = Inr (s, rest)"
  then obtain k c1 plen c2 cs c3 ps where
    d: "c_u16 c = Inr (k, c1)" "c_u32 c1 = Inr (plen, c2)" "c_take (unat k) c2 = Inr (cs, c3)"
      "c_take (unat plen) c3 = Inr (ps, rest)" "s = \<lparr>coeffs = cs, payload = ps\<rparr>"
    by (auto simp: decode_shard_def rbind_eq_Inr)
  from u16_codec.dec_sound[OF d(1)] u32_codec.dec_sound[OF d(2)] c_take_sound[OF d(3)] c_take_sound[OF d(4)]
  have "c = u16_be k @ u32_be plen @ cs @ ps @ rest" "length cs = unat k" "length ps = unat plen" by auto
  moreover have "unat k < 2 ^ 16" "unat plen < 2 ^ 32"
    using unsigned_less[of k] unsigned_less[of plen] by simp_all
  ultimately show "shard_ok s \<and> c = encode_shard s @ rest"
    using d(5) by (simp add: shard_ok_def encode_shard_def)
qed

lemmas shard_codec_dec [simp] = shard_codec.dec_enc

section \<open>Requests\<close>

datatype request =
    Ping
  | Put u64 u8 u8 shard
  | Get u64 u8 u8
  | Purge u64
  | Stat
  | Audit u64 u8 u8 bytes
  | AuthChallenge bytes

definition request_encode :: "request \<Rightarrow> bytes" where
  "request_encode r = (case r of
     Ping \<Rightarrow> [0x00]
   | Put oid c l s \<Rightarrow> [0x01] @ u64_be oid @ [c, l] @ encode_shard s
   | Get oid c l \<Rightarrow> [0x02] @ u64_be oid @ [c, l]
   | Purge oid \<Rightarrow> [0x03] @ u64_be oid
   | Stat \<Rightarrow> [0x04]
   | Audit oid c l h \<Rightarrow> [0x05] @ u64_be oid @ [c, l] @ h
   | AuthChallenge nonce \<Rightarrow> [0x06] @ nonce)"

definition dec_key :: "bytes \<Rightarrow> (io_error, (u64 \<times> u8 \<times> u8) \<times> bytes) res" where
  "dec_key c = rbind (c_u64 c) (\<lambda>(oid, c). rbind (c_u8 c) (\<lambda>(ch, c). rbind (c_u8 c) (\<lambda>(l, c).
     Inr ((oid, ch, l), c))))"

definition dec_request :: "bytes \<Rightarrow> (io_error, request \<times> bytes) res" where
  "dec_request c = rbind (c_u8 c) (\<lambda>(op, c).
     if op = 0x00 then Inr (Ping, c)
     else if op = 0x01 then rbind (dec_key c) (\<lambda>((oid, ch, l), c).
       rbind (decode_shard c) (\<lambda>(s, c). Inr (Put oid ch l s, c)))
     else if op = 0x02 then rbind (dec_key c) (\<lambda>((oid, ch, l), c). Inr (Get oid ch l, c))
     else if op = 0x03 then rbind (c_u64 c) (\<lambda>(oid, c). Inr (Purge oid, c))
     else if op = 0x04 then Inr (Stat, c)
     else if op = 0x05 then rbind (dec_key c) (\<lambda>((oid, ch, l), c).
       rbind (c_take 32 c) (\<lambda>(h, c). Inr (Audit oid ch l h, c)))
     else if op = 0x06 then rbind (c_take 32 c) (\<lambda>(nonce, c). Inr (AuthChallenge nonce, c))
     else Inl (Err InvalidData))"

text \<open>\<open>Request::decode\<close> ignores what follows the request.\<close>

definition request_decode :: "bytes \<Rightarrow> (io_error, request) res" where
  "request_decode buf = rbind (dec_request buf) (\<lambda>(r, _). Inr r)"

definition request_ok :: "request \<Rightarrow> bool" where
  "request_ok r = (case r of
     Put _ _ _ s \<Rightarrow> shard_ok s | Audit _ _ _ h \<Rightarrow> length h = 32 | AuthChallenge n \<Rightarrow> length n = 32 | _ \<Rightarrow> True)"

lemma dec_key_enc [simp]: "dec_key (u64_be oid @ ch # l # rest) = Inr ((oid, ch, l), rest)"
  by (simp add: dec_key_def)

lemma dec_key_sound: "dec_key c = Inr ((oid, ch, l), rest) \<Longrightarrow> c = u64_be oid @ ch # l # rest"
  by (auto simp: dec_key_def rbind_eq_Inr dest!: u64_codec.dec_sound u8_codec.dec_sound)

interpretation request_codec: canonical_codec request_encode dec_request request_ok
proof
  show "dec_request (request_encode r @ rest) = Inr (r, rest)" if "request_ok r" for r rest
    using that by (cases r) (simp_all add: request_encode_def dec_request_def request_ok_def)
  show "request_ok r \<and> c = request_encode r @ rest" if "dec_request c = Inr (r, rest)" for c r rest
    using that unfolding dec_request_def
    by (auto simp: rbind_eq_Inr request_ok_def request_encode_def split: if_splits
        dest!: u8_codec.dec_sound dec_key_sound u64_codec.dec_sound shard_codec.dec_sound c_take_sound)
qed

section \<open>Responses\<close>

datatype response =
    Pong
  | Ack
  | Shards "shard list"
  | StatResp u32
  | AuditResp "shard option"
  | AuthChallengeOk bytes
  | RespError string

definition response_encode :: "response \<Rightarrow> bytes" where
  "response_encode r = (case r of
     Pong \<Rightarrow> [0x00]
   | Ack \<Rightarrow> [0x01]
   | Shards ss \<Rightarrow> [0x02] @ be_bytes 4 (length ss) @ concat (map encode_shard ss)
   | StatResp n \<Rightarrow> [0x03] @ u32_be n
   | AuditResp so \<Rightarrow> [0x04] @ (case so of None \<Rightarrow> [0] | Some s \<Rightarrow> [1] @ encode_shard s)
   | AuthChallengeOk sig \<Rightarrow> [0x05] @ sig
   | RespError msg \<Rightarrow> [0xff] @ be_bytes 4 (length msg) @ as_bytes msg)"

text \<open>\<open>String::from_utf8_lossy\<close>: each maximal ill-formed prefix becomes U+FFFD.\<close>

definition utf8_bad_len :: "bytes \<Rightarrow> nat" where
  "utf8_bad_len bs = (case bs of
     b0 # b1 # r \<Rightarrow>
       if 0xE0 \<le> b0 \<and> b0 \<le> 0xEF \<and> cont_byte b1 \<and> (b0 = 0xE0 \<longrightarrow> 0xA0 \<le> b1) \<and> (b0 = 0xED \<longrightarrow> b1 \<le> 0x9F) then 2
       else if 0xF0 \<le> b0 \<and> b0 \<le> 0xF4 \<and> cont_byte b1 \<and> (b0 = 0xF0 \<longrightarrow> 0x90 \<le> b1) \<and> (b0 = 0xF4 \<longrightarrow> b1 \<le> 0x8F)
       then (case r of b2 # _ \<Rightarrow> if cont_byte b2 then 3 else 2 | [] \<Rightarrow> 2)
       else 1
   | _ \<Rightarrow> 1)"

lemma utf8_bad_len_pos: "0 < utf8_bad_len bs"
  by (auto simp: utf8_bad_len_def split: list.split)

function utf8_lossy :: "bytes \<Rightarrow> bytes" where
  "utf8_lossy bs = (if bs = [] then []
     else case utf8_width bs of
       Some n \<Rightarrow> take n bs @ utf8_lossy (drop n bs)
     | None \<Rightarrow> [0xEF, 0xBF, 0xBD] @ utf8_lossy (drop (utf8_bad_len bs) bs))"
  by pat_completeness auto
termination
  by (relation "measure length") (auto dest: utf8_width_pos simp: utf8_bad_len_pos)

declare utf8_lossy.simps [simp del]

lemma utf8_lossy_valid: "utf8_valid bs \<Longrightarrow> utf8_lossy bs = bs"
proof (induction bs rule: utf8_lossy.induct)
  case (1 bs)
  show ?case
  proof (cases "bs = []")
    case False
    with 1(3) obtain n where n: "utf8_width bs = Some n" "utf8_valid (drop n bs)"
      by (subst (asm) utf8_valid.simps) (auto split: option.splits)
    with 1(2)[OF False n(1)] n False show ?thesis by (subst utf8_lossy.simps) simp
  qed (simp add: utf8_lossy.simps)
qed

definition dec_response :: "bytes \<Rightarrow> (io_error, response \<times> bytes) res" where
  "dec_response c = rbind (c_u8 c) (\<lambda>(tag, c).
     if tag = 0x00 then Inr (Pong, c)
     else if tag = 0x01 then Inr (Ack, c)
     else if tag = 0x02 then rbind (c_u32 c) (\<lambda>(n, c).
       rbind (c_many decode_shard (unat n) c) (\<lambda>(ss, c). Inr (Shards ss, c)))
     else if tag = 0x03 then rbind (c_u32 c) (\<lambda>(n, c). Inr (StatResp n, c))
     else if tag = 0x04 then rbind (c_u8 c) (\<lambda>(present, c).
       if present \<noteq> 0 then rbind (decode_shard c) (\<lambda>(s, c). Inr (AuditResp (Some s), c))
       else Inr (AuditResp None, c))
     else if tag = 0x05 then rbind (c_take 64 c) (\<lambda>(sig, c). Inr (AuthChallengeOk sig, c))
     else if tag = 0xff then rbind (c_u32 c) (\<lambda>(n, c).
       rbind (c_take (unat n) c) (\<lambda>(bs, c). Inr (RespError (of_bytes (utf8_lossy bs)), c)))
     else Inl (Err InvalidData))"

definition response_decode :: "bytes \<Rightarrow> (io_error, response) res" where
  "response_decode buf = rbind (dec_response buf) (\<lambda>(r, _). Inr r)"

definition response_ok :: "response \<Rightarrow> bool" where
  "response_ok r = (case r of
     Shards ss \<Rightarrow> length ss < 2 ^ 32 \<and> list_all shard_ok ss
   | AuditResp (Some s) \<Rightarrow> shard_ok s
   | AuthChallengeOk sig \<Rightarrow> length sig = 64
   | RespError msg \<Rightarrow> str_ok msg \<and> length msg < 2 ^ 32
   | _ \<Rightarrow> True)"

interpretation response_codec: codec response_encode dec_response response_ok
proof
  show "dec_response (response_encode r @ rest) = Inr (r, rest)" if "response_ok r" for r rest
  proof (cases r)
    case (Shards ss)
    with that shard_codec.many_enc[of ss "length ss" rest] show ?thesis
      by (simp add: response_encode_def dec_response_def response_ok_def)
  next
    case (AuditResp so)
    with that show ?thesis
      by (cases so) (simp_all add: response_encode_def dec_response_def response_ok_def)
  next
    case (RespError msg)
    with that show ?thesis
      by (simp add: response_encode_def dec_response_def response_ok_def str_ok_def utf8_lossy_valid)
  qed (use that in \<open>simp_all add: response_encode_def dec_response_def response_ok_def\<close>)
qed

section \<open>Framed streams\<close>

lemma write_frame_Inr: "write_frame bs = Inr f \<longleftrightarrow> length bs \<le> MAX_FRAME \<and> f = be_bytes 4 (length bs) @ bs"
  by (auto simp: write_frame_def)

lemma read_write_frame: "write_frame bs = Inr f \<Longrightarrow> read_frame (f @ rest) = Inr (bs, rest)"
  by (auto simp: write_frame_Inr read_frame_def MAX_FRAME_def)

lemma read_frame_sound: "read_frame s = Inr (bs, rest) \<Longrightarrow> \<exists>f. write_frame bs = Inr f \<and> s = f @ rest"
  by (auto simp: read_frame_def rbind_eq_Inr write_frame_def split: if_splits
      dest!: u32_codec.dec_sound c_take_sound)

section \<open>Properties\<close>

text \<open>C10: the wire protocol carries every request and response. A representable message that fits a
  frame is written, and reading the stream back yields the same message and leaves the rest of the
  stream alone; a message over the frame limit is refused by the writer, and a longer announced length
  by the reader.\<close>

theorem wire_roundtrip:
  assumes "request_ok req" and "response_ok rsp"
    and "length (request_encode req) \<le> MAX_FRAME" and "length (response_encode rsp) \<le> MAX_FRAME"
  shows "\<exists>f g. write_frame (request_encode req) = Inr f \<and> write_frame (response_encode rsp) = Inr g \<and>
    rbind (read_frame (f @ rest)) (\<lambda>(b, c). rbind (request_decode b) (\<lambda>r. Inr (r, c))) = Inr (req, rest) \<and>
    rbind (read_frame (g @ rest)) (\<lambda>(b, c). rbind (response_decode b) (\<lambda>r. Inr (r, c))) = Inr (rsp, rest)"
proof -
  let ?f = "be_bytes 4 (length (request_encode req)) @ request_encode req"
  let ?g = "be_bytes 4 (length (response_encode rsp)) @ response_encode rsp"
  have w: "write_frame (request_encode req) = Inr ?f" "write_frame (response_encode rsp) = Inr ?g"
    using assms(3,4) by (simp_all only: write_frame_Inr)
  have "request_decode (request_encode req) = Inr req" "response_decode (response_encode rsp) = Inr rsp"
    using request_codec.dec_enc_end[OF assms(1)] response_codec.dec_enc_end[OF assms(2)]
    by (simp_all add: request_decode_def response_decode_def)
  with w read_write_frame[OF w(1), of rest] read_write_frame[OF w(2), of rest] show ?thesis
    by (intro exI[of _ ?f] exI[of _ ?g]) (simp del: len_be)
qed

theorem wire_roundtrip_witness:
  "\<exists>f g. write_frame (request_encode (Put 7 1 2 \<lparr>coeffs = [1, 0], payload = [9]\<rparr>)) = Inr f \<and>
    write_frame (response_encode (AuditResp None)) = Inr g \<and>
    rbind (read_frame (f @ [5])) (\<lambda>(b, c). rbind (request_decode b) (\<lambda>r. Inr (r, c))) =
      Inr (Put 7 1 2 \<lparr>coeffs = [1, 0], payload = [9]\<rparr>, [5]) \<and>
    rbind (read_frame (g @ [5])) (\<lambda>(b, c). rbind (response_decode b) (\<lambda>r. Inr (r, c))) =
      Inr (AuditResp None, [5])"
  by (rule wire_roundtrip)
    (simp_all add: request_ok_def response_ok_def shard_ok_def request_encode_def response_encode_def
      encode_shard_def MAX_FRAME_def)

text \<open>requests are parsed strictly. Whatever bytes arrive, a request that decodes is representable and
  its encoding is a prefix of the input; a truncated request never decodes; and no frame longer than the
  limit is ever read.\<close>

theorem request_decode_strict:
  "(case dec_request buf of Inr (r, rest) \<Rightarrow> request_ok r \<and> buf = request_encode r @ rest | Inl _ \<Rightarrow> True) \<and>
   (if request_ok req \<and> n < length (request_encode req)
    then (\<exists>e. request_decode (take n (request_encode req)) = Inl e) else True) \<and>
   (case read_frame stream of Inr (bs, rest) \<Rightarrow> length bs \<le> MAX_FRAME \<and> length stream = 4 + length bs + length rest
    | Inl _ \<Rightarrow> True)"
proof (intro conjI)
  show "case dec_request buf of Inr (r, rest) \<Rightarrow> request_ok r \<and> buf = request_encode r @ rest | Inl _ \<Rightarrow> True"
    using request_codec.dec_sound[of buf] by (auto split: sum.split)
  show "if request_ok req \<and> n < length (request_encode req)
    then (\<exists>e. request_decode (take n (request_encode req)) = Inl e) else True"
  proof (cases "request_ok req \<and> n < length (request_encode req)")
    case True
    then have "request_encode req = take n (request_encode req) @ drop n (request_encode req)"
      "drop n (request_encode req) \<noteq> []" by simp_all
    then have "\<nexists>y rest. dec_request (take n (request_encode req)) = Inr (y, rest)"
      using request_codec.prefix_rejected True by blast
    then show ?thesis
      by (cases "dec_request (take n (request_encode req))") (auto simp: request_decode_def)
  qed (simp only: if_False)
  show "case read_frame stream of
      Inr (bs, rest) \<Rightarrow> length bs \<le> MAX_FRAME \<and> length stream = 4 + length bs + length rest | Inl _ \<Rightarrow> True"
    using read_frame_sound[of stream] by (auto simp: write_frame_Inr split: sum.split)
qed

end
