(* ===== verification/Merkle.thy ===== *)
theory Merkle
  imports Sha256 Rlnc
begin

text \<open>
  \<open>holofs-core/src/merkle.rs\<close>: the three hashes of the object format. \<open>shard_hash\<close> and \<open>data_cid\<close> feed
  the incremental hasher; the lemmas give the exact byte string each digests and show that this string
  determines the shard (or the planes). \<open>merkle_root\<close> is the level-by-level loop; it is shown to
  terminate in a single node and to be binding: equal roots of lists of equal length mean equal leaves
  or an explicit collision of \<open>hash_pair\<close> among the nodes of the two trees.

  An \<open>f32\<close> sample is its 32-bit pattern, which is all \<open>data_cid\<close> looks at (\<open>to_le_bytes\<close>).
\<close>

section \<open>Tags and messages\<close>

definition TAG_DATA :: bytes where "TAG_DATA = as_bytes ''holofs-data-v1'' @ [0]"
definition TAG_SHARD :: bytes where "TAG_SHARD = as_bytes ''holofs-shard-v1'' @ [0]"
definition TAG_MERKLE :: bytes where "TAG_MERKLE = as_bytes ''holofs-merkle-v1'' @ [0]"

definition sha_updates :: "bytes list \<Rightarrow> sha \<Rightarrow> sha" where
  "sha_updates ds s = fold (\<lambda>d s. sha_update s d) ds s"

definition shard_hash :: "shard \<Rightarrow> bytes" where
  "shard_hash s = sha_finalize (sha_updates
     [TAG_SHARD, u16_be (word_of_nat (length (coeffs s))), u32_be (word_of_nat (length (payload s))),
      coeffs s, payload s] sha_new)"

definition f32_le :: "u32 \<Rightarrow> bytes" where
  "f32_le v = rev (u32_be v)"

text \<open>\<open>data_cid\<close>: a plane of the wrong size fails the \<open>assert_eq!\<close>.\<close>

definition cid_plane :: "nat \<Rightarrow> nat \<Rightarrow> sha \<Rightarrow> u32 list \<Rightarrow> ('e, sha) res" where
  "cid_plane w h s plane =
     rbind (rassert (length plane = w * h)) (\<lambda>_. Inr (sha_updates (map f32_le plane) s))"

definition data_cid :: "u32 list list \<Rightarrow> nat \<Rightarrow> nat \<Rightarrow> u8 \<Rightarrow> u16 \<Rightarrow> ('e, bytes) res" where
  "data_cid channels w h levels k =
     rbind (rfold (cid_plane w h) (sha_updates
       [TAG_DATA, be_bytes 1 (length channels), u32_be (word_of_nat w), u32_be (word_of_nat h),
        [levels], u16_be k] sha_new) channels) (\<lambda>s. Inr (sha_finalize s))"

section \<open>The Merkle root\<close>

definition hash_pair :: "bytes \<Rightarrow> bytes \<Rightarrow> bytes" where
  "hash_pair a b = sha256 (TAG_MERKLE @ a @ b)"

text \<open>One turn of the outer loop: adjacent nodes are paired, an odd last one with itself.\<close>

fun merkle_level :: "bytes list \<Rightarrow> bytes list" where
  "merkle_level [] = []"
| "merkle_level [a] = [hash_pair a a]"
| "merkle_level (a # b # r) = hash_pair a b # merkle_level r"

lemma length_merkle_level [simp]: "length (merkle_level xs) = (length xs + 1) div 2"
  by (induction xs rule: merkle_level.induct) auto

function merkle_loop :: "bytes list \<Rightarrow> bytes list" where
  "merkle_loop level = (if length level > 1 then merkle_loop (merkle_level level) else level)"
  by pat_completeness auto
termination by (relation "measure length") auto

declare merkle_loop.simps [simp del]

definition merkle_root :: "bytes list \<Rightarrow> bytes" where
  "merkle_root leaves = (if leaves = [] then replicate 32 0 else merkle_loop leaves ! 0)"

section \<open>What is hashed\<close>

lemma sha_updates_finalize: "sha_finalize (sha_updates ds sha_new) = sha256 (concat ds)"
  using sha_updates_ok[OF sha_new_ok, of ds] by (simp add: sha_updates_def sha256_spec)

lemma sha_updates_append: "sha_updates ds' (sha_updates ds s) = sha_updates (ds @ ds') s"
  by (simp add: sha_updates_def)

definition shard_msg :: "shard \<Rightarrow> bytes" where
  "shard_msg s = TAG_SHARD @ u16_be (word_of_nat (length (coeffs s))) @
     u32_be (word_of_nat (length (payload s))) @ coeffs s @ payload s"

lemma shard_hash_msg: "shard_hash s = sha256 (shard_msg s)"
  by (simp add: shard_hash_def sha_updates_finalize shard_msg_def)

lemma length_shard_hash [simp]: "length (shard_hash s) = 32"
  by (simp add: shard_hash_msg)

definition cid_msg :: "u32 list list \<Rightarrow> nat \<Rightarrow> nat \<Rightarrow> u8 \<Rightarrow> u16 \<Rightarrow> bytes" where
  "cid_msg channels w h levels k = TAG_DATA @ be_bytes 1 (length channels) @ u32_be (word_of_nat w) @
     u32_be (word_of_nat h) @ [levels] @ u16_be k @ concat (map f32_le (concat channels))"

lemma cid_planes:
  "\<forall>p \<in> set ps. length p = w * h \<Longrightarrow>
     rfold (cid_plane w h) (sha_updates ds s) ps = Inr (sha_updates (ds @ map f32_le (concat ps)) s)"
  by (induction ps arbitrary: ds) (auto simp: cid_plane_def sha_updates_append)

lemma data_cid_msg:
  "\<forall>p \<in> set channels. length p = w * h \<Longrightarrow>
     data_cid channels w h levels k = Inr (sha256 (cid_msg channels w h levels k))"
  by (simp add: data_cid_def cid_planes sha_updates_finalize cid_msg_def)

lemma f32_le_inject: "f32_le v @ r = f32_le w @ s \<Longrightarrow> v = w \<and> r = s"
proof -
  assume eq: "f32_le v @ r = f32_le w @ s"
  have "length (f32_le v) = length (f32_le w)" by (simp add: f32_le_def)
  with eq have "f32_le v = f32_le w" "r = s" by (metis append_eq_append_conv)+
  then show ?thesis using u32_codec.enc_inject[where x = v and y = w and r = "[]" and s = "[]"] by (simp add: f32_le_def)
qed

lemma f32_list_inject: "concat (map f32_le vs) = concat (map f32_le ws) \<Longrightarrow> vs = ws"
proof (induction vs arbitrary: ws)
  case Nil
  then show ?case by (cases ws) (auto simp: f32_le_def dest: arg_cong[where f = length])
next
  case (Cons v vs)
  then obtain w ws' where ws: "ws = w # ws'"
    by (cases ws) (auto simp: f32_le_def dest: arg_cong[where f = length])
  with Cons.prems f32_le_inject[of v _ w] Cons.IH[of ws'] show ?case by auto
qed

section \<open>The loop ends in one node, and is binding\<close>

lemma merkle_loop_singleton: "xs \<noteq> [] \<Longrightarrow> length (merkle_loop xs) = 1"
proof (induction xs rule: merkle_loop.induct)
  case (1 xs)
  show ?case
  proof (cases "length xs > 1")
    case True
    then have "merkle_level xs \<noteq> []" using length_merkle_level[of xs] by (cases "merkle_level xs") auto
    with 1(1)[OF True] True show ?thesis by (subst merkle_loop.simps) simp
  next
    case False
    with 1(2) show ?thesis by (subst merkle_loop.simps) (cases xs, auto)
  qed
qed

text \<open>The pairs hashed at one level, and in the whole tree.\<close>

fun level_pairs :: "bytes list \<Rightarrow> (bytes \<times> bytes) list" where
  "level_pairs [] = []"
| "level_pairs [a] = [(a, a)]"
| "level_pairs (a # b # r) = (a, b) # level_pairs r"

function tree_pairs :: "bytes list \<Rightarrow> (bytes \<times> bytes) list" where
  "tree_pairs level = (if length level > 1 then level_pairs level @ tree_pairs (merkle_level level) else [])"
  by pat_completeness auto
termination by (relation "measure length") auto

declare tree_pairs.simps [simp del]

definition collision :: "(bytes \<times> bytes) list \<Rightarrow> (bytes \<times> bytes) list \<Rightarrow> bool" where
  "collision ps qs \<longleftrightarrow> (\<exists>(a, b) \<in> set ps. \<exists>(c, d) \<in> set qs. (a, b) \<noteq> (c, d) \<and> hash_pair a b = hash_pair c d)"

lemma collision_mono:
  "collision ps qs \<Longrightarrow> set ps \<subseteq> set ps' \<Longrightarrow> set qs \<subseteq> set qs' \<Longrightarrow> collision ps' qs'"
  unfolding collision_def by blast

lemma collision_head:
  "(a, b) \<noteq> (c, d) \<Longrightarrow> hash_pair a b = hash_pair c d \<Longrightarrow> collision ((a, b) # ps) ((c, d) # qs)"
  unfolding collision_def by auto

lemma level_binding:
  "length xs = length ys \<Longrightarrow> merkle_level xs = merkle_level ys \<Longrightarrow>
     xs = ys \<or> collision (level_pairs xs) (level_pairs ys)"
proof (induction xs arbitrary: ys rule: merkle_level.induct)
  case 1
  then show ?case by simp
next
  case (2 a)
  then obtain c where "ys = [c]" by (cases ys) auto
  with 2 show ?case by (auto simp: collision_def)
next
  case (3 a b r)
  then obtain c d s where ys: "ys = c # d # s" by (cases ys; cases "tl ys") auto
  with 3 have "r = s \<or> collision (level_pairs r) (level_pairs s)" and "hash_pair a b = hash_pair c d"
    by simp_all
  moreover have "collision (p # level_pairs r) (q # level_pairs s)"
    if "collision (level_pairs r) (level_pairs s)" for p q
    using that by (rule collision_mono) auto
  ultimately show ?case using ys collision_head[of a b c d] by (cases "(a, b) = (c, d)") auto
qed

lemma loop_binding:
  "length xs = length ys \<Longrightarrow> merkle_loop xs = merkle_loop ys \<Longrightarrow>
     xs = ys \<or> collision (tree_pairs xs) (tree_pairs ys)"
proof (induction xs arbitrary: ys rule: merkle_loop.induct)
  case (1 xs)
  show ?case
  proof (cases "length xs > 1")
    case True
    have t: "tree_pairs xs = level_pairs xs @ tree_pairs (merkle_level xs)"
      "tree_pairs ys = level_pairs ys @ tree_pairs (merkle_level ys)"
      using True 1(2) by (simp_all add: tree_pairs.simps[of xs] tree_pairs.simps[of ys])
    have "merkle_loop (merkle_level xs) = merkle_loop (merkle_level ys)"
      using 1(2,3) True by (simp add: merkle_loop.simps[of xs] merkle_loop.simps[of ys])
    with 1(1)[OF True, of "merkle_level ys"] 1(2)
    consider "merkle_level xs = merkle_level ys"
      | "collision (tree_pairs (merkle_level xs)) (tree_pairs (merkle_level ys))" by auto
    then show ?thesis
    proof cases
      case 1
      with level_binding \<open>length xs = length ys\<close> show ?thesis
        using collision_mono t by (metis set_append sup.cobounded1)
    next
      case 2
      then show ?thesis using collision_mono t by (metis set_append sup.cobounded2)
    qed
  next
    case False
    with 1(2,3) show ?thesis by (simp add: merkle_loop.simps[of xs] merkle_loop.simps[of ys])
  qed
qed

lemma hash_pair_msg:
  "length a = 32 \<Longrightarrow> length c = 32 \<Longrightarrow> TAG_MERKLE @ a @ b = TAG_MERKLE @ c @ d \<Longrightarrow> a = c \<and> b = d"
  by simp

section \<open>Properties\<close>



text \<open>The price of the padding: an odd list and the list with its last leaf repeated have the same
  root, so the root does not bind the number of leaves.\<close>

lemma merkle_odd_repeat: "merkle_root [a, b, c] = merkle_root [a, b, c, c]"
  by (simp add: merkle_root_def merkle_loop.simps)

text \<open>\<open>shard_hash\<close> and \<open>data_cid\<close> digest unambiguous strings. The shard hash is the SHA-256 of a
  tagged, length-prefixed string from which the shard can be recovered, as long as its lengths fit the
  prefixes; the content identifier of planes of the stated size is the SHA-256 of a string that
  determines the samples, dimensions and parameters; other planes fail the assertion.\<close>

theorem content_hashes_unambiguous:
  "shard_hash s = sha256 (shard_msg s) \<and>
   (length (coeffs s) < 2 ^ 16 \<and> length (coeffs t) < 2 ^ 16 \<and>
    length (payload s) < 2 ^ 32 \<and> length (payload t) < 2 ^ 32 \<longrightarrow> shard_msg s = shard_msg t \<longrightarrow> s = t) \<and>
   ((\<forall>p \<in> set ps. length p = w * h) \<longrightarrow>
      data_cid ps w h levels k = (Inr (sha256 (cid_msg ps w h levels k)) :: ('e, _) res)) \<and>
   (cid_msg ps w h levels k = cid_msg qs w h levels' k' \<longrightarrow>
      concat ps = concat qs \<and> levels = levels' \<and> k = k')"
proof (intro conjI impI)
  show "shard_hash s = sha256 (shard_msg s)" by (rule shard_hash_msg)
  show "data_cid ps w h levels k = (Inr (sha256 (cid_msg ps w h levels k)) :: ('e, _) res)"
    if "\<forall>p \<in> set ps. length p = w * h" using that by (rule data_cid_msg)
  show "s = t" if b: "length (coeffs s) < 2 ^ 16 \<and> length (coeffs t) < 2 ^ 16 \<and>
      length (payload s) < 2 ^ 32 \<and> length (payload t) < 2 ^ 32" and eq: "shard_msg s = shard_msg t"
  proof -
    from eq have "u16_be (word_of_nat (length (coeffs s))) = u16_be (word_of_nat (length (coeffs t)))"
      and rest: "coeffs s @ payload s = coeffs t @ payload t"
      by (auto simp: shard_msg_def append_eq_append_conv)
    then have "(word_of_nat (length (coeffs s)) :: u16) = word_of_nat (length (coeffs t))"
      using u16_codec.enc_inject[where r = "[]" and s = "[]"] by simp
    with b have "length (coeffs s) = length (coeffs t)" using unat_len(1) by metis
    with rest have "coeffs s = coeffs t" "payload s = payload t" by auto
    then show ?thesis by simp
  qed
  assume eq: "cid_msg ps w h levels k = cid_msg qs w h levels' k'"
  then have "levels # u16_be k @ concat (map f32_le (concat ps)) =
      levels' # u16_be k' @ concat (map f32_le (concat qs))"
    by (simp add: cid_msg_def append_eq_append_conv)
  then have l: "levels = levels'" and r: "u16_be k @ concat (map f32_le (concat ps)) =
      u16_be k' @ concat (map f32_le (concat qs))" by simp_all
  from u16_codec.enc_inject[OF _ _ r] have k: "k = k'"
    and c: "concat (map f32_le (concat ps)) = concat (map f32_le (concat qs))" by simp_all
  show "concat ps = concat qs" by (rule f32_list_inject[OF c])
  show "levels = levels'" by (rule l)
  show "k = k'" by (rule k)
qed

theorem content_hashes_unambiguous_witness:
  "data_cid [[0, 1, 2, 3]] 2 2 3 16 = (Inr (sha256 (cid_msg [[0, 1, 2, 3]] 2 2 3 16)) :: (unit, _) res) \<and>
   shard_msg \<lparr>coeffs = [1], payload = [2]\<rparr> \<noteq> shard_msg \<lparr>coeffs = [1, 2], payload = []\<rparr>"
  using content_hashes_unambiguous[of "\<lparr>coeffs = [1], payload = [2]\<rparr>" "\<lparr>coeffs = [1, 2], payload = []\<rparr>"
      "[[0, 1, 2, 3]]" 2 2 3 16, where 'e = unit] by auto

end
