(* ===== verification/Store.thy ===== *)
theory Store
  imports Merkle Wire "HOL-Library.AList" "HOL-Library.Sublist"
begin

text \<open>
  \<open>holofs-storage/src/node_service.rs\<close>: the shard store of a node, its disk mirror and the request
  handler.

  \<open>st_shards\<close> is the \<open>HashMap<Key, HashMap<Hash, Shard>>\<close>, kept as an association list in insertion
  order (the order in which \<open>get\<close> lists shards is not specified by the code; no statement below depends
  on it). \<open>st_disk\<close> is the content of the storage directory: relative path to file bytes, \<open>None\<close> for an
  in-memory store. Whether writing a shard file succeeds is an input of \<open>store_put\<close>.

  The locale \<open>shard_bag\<close> is what a client may assume of a node's store; it is interpreted on the store.
  The disk mirror is shown to be faithful when no shard is stored under two keys; \<open>shared_shard_lost\<close>
  shows what happens otherwise, since a shard file's name depends on the shard alone.
\<close>

text \<open>The tuple type \<open>Key = (u64, u8, u8)\<close>.\<close>

datatype shard_key3 = SKey (key_object: u64) (key_channel: u8) (key_layer: u8)

record store =
  st_shards :: "(shard_key3 \<times> (bytes \<times> shard) list) list"
  st_disk :: "(string \<times> bytes) list option"

section \<open>Shard files\<close>

definition SHARD_MAGIC :: bytes where "SHARD_MAGIC = as_bytes ''HOLOFSS1''"

definition shard_path :: "bytes \<Rightarrow> string" where
  "shard_path h = (let s = hex h in take 2 s @ ''/'' @ drop 2 s @ ''.shard'')"

definition shard_file :: "shard_key3 \<Rightarrow> shard \<Rightarrow> bytes" where
  "shard_file k s = (case k of SKey oid c l \<Rightarrow>
     SHARD_MAGIC @ u64_be oid @ [c, l] @ be_bytes 4 (length (coeffs s)) @ be_bytes 4 (length (payload s)) @
     coeffs s @ payload s)"

definition read_shard_file :: "bytes \<Rightarrow> (io_error, shard_key3 \<times> bytes \<times> shard) res" where
  "read_shard_file f =
     rbind (c_take 26 f) (\<lambda>(hd, f).
       if take 8 hd \<noteq> SHARD_MAGIC then Inl (Err InvalidData)
       else let oid = word_of_nat (be_val (slice hd 8 16)); c = hd ! 16; l = hd ! 17;
                coeffs_len = be_val (slice hd 18 22); payload_len = be_val (slice hd 22 26)
       in rbind (c_take coeffs_len f) (\<lambda>(cs, f). rbind (c_take payload_len f) (\<lambda>(ps, f).
            let s = \<lparr>coeffs = cs, payload = ps\<rparr> in Inr (SKey oid c l, shard_hash s, s))))"

text \<open>\<open>walk_shard_files\<close>: files one directory deep with extension \<open>shard\<close> (the file name \<open>.shard\<close> has
  no extension).\<close>

definition is_shard_path :: "string \<Rightarrow> bool" where
  "is_shard_path p \<longleftrightarrow> suffix ''.shard'' p \<and> \<not> suffix ''/.shard'' p \<and> count_list p CHR ''/'' = 1"

section \<open>Operations\<close>

definition store_new :: store where
  "store_new = \<lparr>st_shards = [], st_disk = None\<rparr>"

definition bucket_of :: "(shard_key3 \<times> (bytes \<times> shard) list) list \<Rightarrow> shard_key3 \<Rightarrow> (bytes \<times> shard) list" where
  "bucket_of m k = (case map_of m k of Some b \<Rightarrow> b | None \<Rightarrow> [])"

definition open_step :: "string \<times> bytes \<Rightarrow> (shard_key3 \<times> (bytes \<times> shard) list) list \<Rightarrow>
    (shard_key3 \<times> (bytes \<times> shard) list) list" where
  "open_step e m = (case read_shard_file (snd e) of
     Inr (k, h, s) \<Rightarrow> AList.update k (AList.update h s (bucket_of m k)) m
   | Inl _ \<Rightarrow> m)"

definition store_open :: "(string \<times> bytes) list \<Rightarrow> store" where
  "store_open d = \<lparr>st_shards = fold open_step (filter (\<lambda>(p, _). is_shard_path p) d) [], st_disk = Some d\<rparr>"

definition store_put :: "bool \<Rightarrow> shard_key3 \<Rightarrow> shard \<Rightarrow> store \<Rightarrow> bool \<times> store" where
  "store_put wok k s st =
     (let h = shard_hash s;
          bucket = bucket_of (st_shards st) k;
          st = st\<lparr>st_shards := AList.update k bucket (st_shards st)\<rparr>
      in if map_of bucket h \<noteq> None then (False, st)
         else if st_disk st \<noteq> None \<and> \<not> wok then (False, st)
         else (True, st\<lparr>st_disk := map_option (AList.update (shard_path h) (shard_file k s)) (st_disk st),
                        st_shards := AList.update k (AList.update h s bucket) (st_shards st)\<rparr>))"

definition store_get :: "shard_key3 \<Rightarrow> store \<Rightarrow> shard list" where
  "store_get k st = map snd (bucket_of (st_shards st) k)"

definition store_get_by_hash :: "shard_key3 \<Rightarrow> bytes \<Rightarrow> store \<Rightarrow> shard option" where
  "store_get_by_hash k h st = map_of (bucket_of (st_shards st) k) h"

definition store_purge :: "u64 \<Rightarrow> store \<Rightarrow> nat \<times> store" where
  "store_purge oid st =
     (let removed = concat (map (\<lambda>(k, b). if key_object k = oid then map fst b else []) (st_shards st))
      in (length removed,
          \<lparr>st_shards = filter (\<lambda>(k, _). key_object k \<noteq> oid) (st_shards st),
           st_disk = map_option (filter (\<lambda>(p, _). p \<notin> set (map shard_path removed))) (st_disk st)\<rparr>))"

definition store_total :: "store \<Rightarrow> nat" where
  "store_total st = sum_list (map (\<lambda>(_, b). length b) (st_shards st))"

definition store_wipe :: "store \<Rightarrow> store" where
  "store_wipe st = \<lparr>st_shards = [], st_disk = map_option (\<lambda>_. []) (st_disk st)\<rparr>"

definition store_inject_corrupt :: "shard_key3 \<Rightarrow> shard \<Rightarrow> store \<Rightarrow> store" where
  "store_inject_corrupt k s st =
     st\<lparr>st_shards := AList.update k (AList.update (shard_hash s) s (bucket_of (st_shards st) k)) (st_shards st)\<rparr>"

section \<open>The request handler\<close>

text \<open>\<open>sign\<close> is the node's \<open>sign_challenge\<close>; a \<open>Put\<close> is acknowledged whatever \<open>put\<close> returns.\<close>

definition handle_request ::
  "(bytes \<Rightarrow> bytes) \<Rightarrow> bool \<Rightarrow> request \<Rightarrow> store \<Rightarrow> response \<times> store" where
  "handle_request sign wok req st = (case req of
     Ping \<Rightarrow> (Pong, st)
   | Put oid c l s \<Rightarrow> (Ack, snd (store_put wok (SKey oid c l) s st))
   | Get oid c l \<Rightarrow> (Shards (store_get (SKey oid c l) st), st)
   | Purge oid \<Rightarrow> (Ack, snd (store_purge oid st))
   | Stat \<Rightarrow> (StatResp (word_of_nat (store_total st)), st)
   | Audit oid c l h \<Rightarrow> (AuditResp (store_get_by_hash (SKey oid c l) h st), st)
   | AuthChallenge nonce \<Rightarrow> (AuthChallengeOk (sign nonce), st))"

text \<open>\<open>handle_connection\<close>: read, decode, handle, reply, until the first error ends the connection. The
  result is that error, the bytes sent and the final store.\<close>

function handle_connection ::
  "(bytes \<Rightarrow> bytes) \<Rightarrow> bool \<Rightarrow> bytes \<Rightarrow> store \<Rightarrow> io_error fault \<times> bytes \<times> store" where
  "handle_connection sign wok stream st =
     (case read_frame stream of
        Inl e \<Rightarrow> (e, [], st)
      | Inr (buf, stream') \<Rightarrow>
          (case request_decode buf of
             Inl e \<Rightarrow> (e, [], st)
           | Inr req \<Rightarrow>
               let (resp, st) = handle_request sign wok req st in
               (case write_frame (response_encode resp) of
                  Inl e \<Rightarrow> (e, [], st)
                | Inr f \<Rightarrow>
                    let (e, out, st) = handle_connection sign wok stream' st in (e, f @ out, st))))"
  by pat_completeness auto
termination
  by (relation "measure (\<lambda>(_, _, stream, _). length stream)")
    (auto dest!: read_frame_sound simp: write_frame_Inr)

declare handle_connection.simps [simp del]

section \<open>The store as a bag of shards\<close>

text \<open>\<open>in_store st k h s\<close>: shard \<open>s\<close> is stored under key \<open>k\<close> and hash \<open>h\<close>.\<close>

definition in_store :: "store \<Rightarrow> shard_key3 \<Rightarrow> bytes \<Rightarrow> shard \<Rightarrow> bool" where
  "in_store st k h s \<longleftrightarrow> map_of (bucket_of (st_shards st) k) h = Some s"

definition buckets_ok :: "(shard_key3 \<times> (bytes \<times> shard) list) list \<Rightarrow> bool" where
  "buckets_ok m \<longleftrightarrow> distinct (map fst m) \<and> (\<forall>(k, b) \<in> set m. distinct (map fst b))"

definition store_ok :: "store \<Rightarrow> bool" where
  "store_ok st \<longleftrightarrow> buckets_ok (st_shards st) \<and> (\<forall>k h s. in_store st k h s \<longrightarrow> h = shard_hash s)"

lemma bucket_of_update [simp]: "bucket_of (AList.update k b m) k' = (if k' = k then b else bucket_of m k')"
  by (simp add: bucket_of_def update_conv')

lemma bucket_distinct: "buckets_ok m \<Longrightarrow> distinct (map fst (bucket_of m k))"
  by (auto simp: buckets_ok_def bucket_of_def split: option.split dest!: map_of_SomeD)

lemma set_update_subset: "set (AList.update k v m) \<subseteq> insert (k, v) (set m)"
  by (induction m) auto

lemma buckets_ok_update:
  assumes "buckets_ok m" and "distinct (map fst b)" shows "buckets_ok (AList.update k b m)"
proof -
  have "\<forall>(k', b') \<in> set (AList.update k b m). distinct (map fst b')"
    using set_update_subset[of k b m] assms by (fastforce simp: buckets_ok_def)
  with assms(1) show ?thesis by (simp add: buckets_ok_def distinct_update)
qed

lemma in_store_put:
  "in_store (snd (store_put wok k s st)) k' h' s' \<longleftrightarrow>
     (if k' = k \<and> h' = shard_hash s \<and> fst (store_put wok k s st) then s' = s else in_store st k' h' s')"
  by (auto simp: store_put_def Let_def in_store_def update_conv')

lemma fst_store_put:
  "fst (store_put wok k s st) \<longleftrightarrow> (\<forall>s'. \<not> in_store st k (shard_hash s) s') \<and> (st_disk st = None \<or> wok)"
  by (auto simp: store_put_def Let_def in_store_def)

lemma store_ok_put: "store_ok st \<Longrightarrow> store_ok (snd (store_put wok k s st))"
proof -
  assume ok: "store_ok st"
  then have m: "buckets_ok (st_shards st)" by (simp add: store_ok_def)
  have b: "distinct (map fst (bucket_of (st_shards st) k))" using m by (rule bucket_distinct)
  have "\<forall>k' h' s'. in_store (snd (store_put wok k s st)) k' h' s' \<longrightarrow> h' = shard_hash s'"
    using ok by (auto simp: in_store_put store_ok_def)
  moreover have "buckets_ok (st_shards (snd (store_put wok k s st)))"
    using buckets_ok_update[OF m b] buckets_ok_update[OF m distinct_update[OF b]]
    by (simp add: store_put_def Let_def)
  ultimately show ?thesis by (simp add: store_ok_def)
qed

lemma bucket_of_filter:
  "bucket_of (filter (\<lambda>(k, _). P k) m) k = (if P k then bucket_of m k else [])"
  by (induction m) (auto simp: bucket_of_def)

lemma in_store_purge:
  "in_store (snd (store_purge oid st)) k h s \<longleftrightarrow> key_object k \<noteq> oid \<and> in_store st k h s"
  by (simp add: store_purge_def Let_def in_store_def bucket_of_filter)

lemma store_ok_purge: "store_ok st \<Longrightarrow> store_ok (snd (store_purge oid st))"
proof -
  assume ok: "store_ok st"
  have "\<forall>k h s. in_store (snd (store_purge oid st)) k h s \<longrightarrow> h = shard_hash s"
    using ok by (auto simp: in_store_purge store_ok_def)
  moreover have "buckets_ok (st_shards (snd (store_purge oid st)))"
    using ok by (auto simp: store_ok_def buckets_ok_def store_purge_def Let_def distinct_map inj_on_def)
  ultimately show ?thesis by (simp add: store_ok_def)
qed

lemma set_store_get: "store_ok st \<Longrightarrow> s \<in> set (store_get k st) \<longleftrightarrow> in_store st k (shard_hash s) s"
proof -
  assume ok: "store_ok st"
  have d: "distinct (map fst (bucket_of (st_shards st) k))"
    using ok by (intro bucket_distinct) (simp add: store_ok_def)
  then have m: "(h, s) \<in> set (bucket_of (st_shards st) k) \<longleftrightarrow> in_store st k h s" for h
    by (simp add: in_store_def)
  have "s \<in> set (store_get k st) \<longleftrightarrow> (\<exists>h. (h, s) \<in> set (bucket_of (st_shards st) k))"
    by (force simp: store_get_def)
  with m ok show ?thesis unfolding store_ok_def by metis
qed

text \<open>What a client may assume of a node: a set of content hashes per key.\<close>

locale shard_bag =
  fixes put :: "'k \<Rightarrow> 's \<Rightarrow> 'st \<Rightarrow> 'st"
    and purge :: "'o \<Rightarrow> 'st \<Rightarrow> 'st"
    and has :: "'k \<Rightarrow> 'st \<Rightarrow> 'h set"
    and hash :: "'s \<Rightarrow> 'h"
    and object_of :: "'k \<Rightarrow> 'o"
    and inv :: "'st \<Rightarrow> bool"
  assumes inv_put: "inv st \<Longrightarrow> inv (put k s st)"
    and inv_purge: "inv st \<Longrightarrow> inv (purge ob st)"
    and has_put: "inv st \<Longrightarrow> has k' (put k s st) = (if k' = k then insert (hash s) (has k st) else has k' st)"
    and has_purge: "inv st \<Longrightarrow> has k (purge ob st) = (if object_of k = ob then {} else has k st)"
begin

lemma inv_puts: "inv st \<Longrightarrow> inv (fold (\<lambda>(k, s). put k s) ps st)"
  by (induction ps arbitrary: st) (auto simp: inv_put)

lemma has_puts: "inv st \<Longrightarrow> has k (fold (\<lambda>(k, s). put k s) ps st) = has k st \<union> hash ` {s. (k, s) \<in> set ps}"
proof (induction ps rule: rev_induct)
  case Nil
  then show ?case by simp
next
  case (snoc p ps)
  then show ?case by (cases p) (auto simp: has_put inv_puts)
qed

lemma purge_after_puts:
  "inv st \<Longrightarrow> \<forall>(k, s) \<in> set ps. object_of k = ob \<Longrightarrow>
     has k (purge ob (fold (\<lambda>(k, s). put k s) ps st)) = has k (purge ob st)"
  by (auto simp: has_purge inv_puts has_puts)

end

definition store_has :: "shard_key3 \<Rightarrow> store \<Rightarrow> bytes set" where
  "store_has k st = {h. \<exists>s. in_store st k h s}"

interpretation bag: shard_bag "\<lambda>k s st. snd (store_put True k s st)" "\<lambda>oid st. snd (store_purge oid st)"
  store_has shard_hash key_object store_ok
proof
  show "store_has k' (snd (store_put True k s st)) =
      (if k' = k then insert (shard_hash s) (store_has k st) else store_has k' st)" for k k' s st
    by (auto simp: store_has_def in_store_put fst_store_put)
  show "store_has k (snd (store_purge ob st)) = (if key_object k = ob then {} else store_has k st)" for k ob st
    by (auto simp: store_has_def in_store_purge)
qed (simp_all add: store_ok_put store_ok_purge)

section \<open>The disk mirror\<close>

lemma hex_digit_props: "n < 16 \<Longrightarrow> m < 16 \<Longrightarrow> hex_digit n = hex_digit m \<longleftrightarrow> n = m"
  "n < 16 \<Longrightarrow> hex_digit n \<noteq> CHR ''/''"
proof -
  have d: "distinct ''0123456789abcdef''" "CHR ''/'' \<notin> set ''0123456789abcdef''" by simp_all
  have l: "length ''0123456789abcdef'' = 16" by simp
  show "n < 16 \<Longrightarrow> m < 16 \<Longrightarrow> hex_digit n = hex_digit m \<longleftrightarrow> n = m"
    unfolding hex_digit_def using nth_eq_iff_index_eq[OF d(1), of n m] l by simp
  show "hex_digit n \<noteq> CHR ''/''" if "n < 16"
  proof -
    have "''0123456789abcdef'' ! n \<in> set ''0123456789abcdef''" using that l nth_mem by metis
    with d(2) show ?thesis unfolding hex_digit_def by metis
  qed
qed

lemma hex_inject: "hex bs = hex cs \<longleftrightarrow> bs = cs"
proof (induction bs arbitrary: cs)
  case Nil
  then show ?case by (cases cs) (auto simp: hex_def)
next
  case (Cons b bs)
  show ?case
  proof (cases cs)
    case Nil
    then show ?thesis by (simp add: hex_def)
  next
    case (Cons c cs')
    have lt: "unat b div 16 < 16" "unat c div 16 < 16" "unat b mod 16 < 16" "unat c mod 16 < 16"
      using unat_byte_less[of b] unat_byte_less[of c] by (simp_all add: less_mult_imp_div_less)
    have e1: "hex (b # bs) = hex (c # cs') \<longleftrightarrow> unat b div 16 = unat c div 16 \<and> unat b mod 16 = unat c mod 16 \<and> hex bs = hex cs'"
      using lt by (simp add: hex_def hex_digit_props(1))
    have "unat b div 16 = unat c div 16 \<and> unat b mod 16 = unat c mod 16 \<longleftrightarrow> b = c"
      by (metis div_mult_mod_eq word_unat_eq_iff)
    then show ?thesis using e1 Cons.IH Cons by auto
  qed
qed

lemma length_hex [simp]: "length (hex bs) = 2 * length bs"
  by (induction bs) (auto simp: hex_def)

lemma hex_no_slash: "CHR ''/'' \<notin> set (hex bs)"
proof -
  have "unat b div 16 < 16" "unat b mod 16 < 16" for b :: u8
    using unat_byte_less[of b] by (simp_all add: less_mult_imp_div_less)
  then have "hex_digit (unat b div 16) \<noteq> CHR ''/''" "hex_digit (unat b mod 16) \<noteq> CHR ''/''" for b :: u8
    using hex_digit_props(2) by blast+
  then show ?thesis by (induction bs) (auto simp: hex_def dest: sym)
qed

lemma shard_path_inject:
  assumes "length h = 32" and "length h' = 32" shows "shard_path h = shard_path h' \<longleftrightarrow> h = h'"
proof
  assume "shard_path h = shard_path h'"
  moreover have "length (take 2 (hex h)) = length (take 2 (hex h'))" using assms by simp
  ultimately have "take 2 (hex h) = take 2 (hex h')" "drop 2 (hex h) = drop 2 (hex h')"
    by (auto simp: shard_path_def Let_def append_eq_append_conv)
  then have "hex h = hex h'" by (metis append_take_drop_id)
  then show "h = h'" by (simp add: hex_inject)
qed simp

lemma is_shard_path_shard_path:
  assumes "length h = 32" shows "is_shard_path (shard_path h)"
proof -
  have n: "CHR ''/'' \<notin> set (take 2 (hex h))" "CHR ''/'' \<notin> set (drop 2 (hex h))"
    using hex_no_slash[of h] by (auto dest: in_set_takeD in_set_dropD)
  have d: "drop 2 (hex h) \<noteq> []" using assms by simp
  then have l: "last (drop 2 (hex h)) \<in> set (drop 2 (hex h))" by (rule last_in_set)
  have "\<not> suffix ''/.shard'' (shard_path h)"
  proof
    assume "suffix ''/.shard'' (shard_path h)"
    then obtain zs where "take 2 (hex h) @ ''/'' @ drop 2 (hex h) @ ''.shard'' = (zs @ ''/'') @ ''.shard''"
      by (auto simp: suffix_def shard_path_def Let_def)
    then have "take 2 (hex h) @ ''/'' @ drop 2 (hex h) = zs @ ''/''"
      by (simp only: append.assoc[symmetric] append_same_eq)
    then have "last (take 2 (hex h) @ ''/'' @ drop 2 (hex h)) = CHR ''/''" by simp
    with d have "last (drop 2 (hex h)) = CHR ''/''" by simp
    with l n(2) show False by simp
  qed
  with n show ?thesis
    by (auto simp: is_shard_path_def shard_path_def Let_def suffix_def)
qed

definition shard_fits :: "shard \<Rightarrow> bool" where
  "shard_fits s \<longleftrightarrow> length (coeffs s) < 2 ^ 32 \<and> length (payload s) < 2 ^ 32"

lemma c_take_all [simp]: "c_take (length xs) xs = Inr (xs, [])"
  by (simp add: c_take_def)

lemma be_val_u_be: "be_val (u32_be w) = unat w" "be_val (u64_be v) = unat v"
proof -
  have "unat w < 256 ^ 4" "unat v < 256 ^ 8"
    using unsigned_less[of w] unsigned_less[of v] by simp_all
  then show "be_val (u32_be w) = unat w" "be_val (u64_be v) = unat v"
    by (simp_all add: u32_be_def u64_be_def del: len_be)
qed

lemma read_shard_file_ok:
  assumes "shard_fits s" shows "read_shard_file (shard_file k s) = Inr (k, shard_hash s, s)"
proof -
  obtain oid c l where k: "k = SKey oid c l" by (cases k)
  define lc lp where "lc = (word_of_nat (length (coeffs s)) :: u32)"
    and "lp = (word_of_nat (length (payload s)) :: u32)"
  define hd where "hd = SHARD_MAGIC @ u64_be oid @ [c, l] @ u32_be lc @ u32_be lp"
  have m: "length SHARD_MAGIC = 8" by (simp add: SHARD_MAGIC_def)
  have len: "length hd = 26" using m by (simp add: hd_def)
  have "take 8 hd = SHARD_MAGIC" "slice hd 8 16 = u64_be oid" "hd ! 16 = c" "hd ! 17 = l"
    "slice hd 18 22 = u32_be lc" "slice hd 22 26 = u32_be lp"
    using m by (simp_all add: hd_def slice_def nth_append)
  moreover have "unat lc = length (coeffs s)" "unat lp = length (payload s)"
    using assms by (simp_all add: lc_def lp_def shard_fits_def)
  moreover have "shard_file k s = hd @ coeffs s @ payload s"
    by (simp add: shard_file_def k hd_def lc_def lp_def)
  ultimately show ?thesis
    using len by (cases s) (simp add: read_shard_file_def be_val_u_be Let_def k)
qed

text \<open>\<open>mirrored st\<close>: the directory holds exactly one file per stored shard.\<close>

definition mirrored :: "store \<Rightarrow> bool" where
  "mirrored st \<longleftrightarrow> (case st_disk st of None \<Rightarrow> False | Some d \<Rightarrow> distinct (map fst d) \<and>
     (\<forall>p bs. map_of d p = Some bs \<longleftrightarrow> (\<exists>k h s. in_store st k h s \<and> p = shard_path h \<and> bs = shard_file k s)))"

definition one_key :: "store \<Rightarrow> bool" where
  "one_key st \<longleftrightarrow> (\<forall>k k' h s s'. in_store st k h s \<longrightarrow> in_store st k' h s' \<longrightarrow> k = k')"

lemma store_okD: "store_ok st \<Longrightarrow> in_store st k h s \<Longrightarrow> h = shard_hash s"
  unfolding store_ok_def by blast

lemma in_store_len: "store_ok st \<Longrightarrow> in_store st k h s \<Longrightarrow> length h = 32"
  unfolding store_ok_def by (metis length_shard_hash)

lemma mirrored_put:
  assumes ok: "store_ok st" and m: "mirrored st"
    and one: "\<forall>k' s'. in_store st k' (shard_hash s) s' \<longrightarrow> k' = k"
  shows "mirrored (snd (store_put wok k s st))"
proof (cases "fst (store_put wok k s st)")
  case False
  have "st_disk (snd (store_put wok k s st)) = st_disk st"
    using False by (simp add: store_put_def Let_def split: if_splits)
  moreover have "in_store (snd (store_put wok k s st)) = in_store st"
    using False by (intro ext) (simp add: in_store_put)
  ultimately show ?thesis using m unfolding mirrored_def by (simp only:)
next
  case True
  obtain d where d: "st_disk st = Some d" using m by (auto simp: mirrored_def split: option.splits)
  let ?st = "snd (store_put wok k s st)" and ?h = "shard_hash s"
  have d': "st_disk ?st = Some (AList.update (shard_path ?h) (shard_file k s) d)"
    using True d by (simp add: store_put_def Let_def split: if_splits)
  have new: "\<not> in_store st k ?h s'" for s' using True by (simp add: fst_store_put)
  then have none: "\<not> in_store st k' ?h s'" for k' s' using one by blast
  have md: "map_of d p = Some bs \<longleftrightarrow> (\<exists>k h s. in_store st k h s \<and> p = shard_path h \<and> bs = shard_file k s)" for p bs
    using m d by (simp add: mirrored_def)
  have ins: "in_store ?st k' h' s' \<longleftrightarrow> (k' = k \<and> h' = ?h \<and> s' = s) \<or> in_store st k' h' s'" for k' h' s'
    using True new by (auto simp: in_store_put)
  have "map_of (AList.update (shard_path ?h) (shard_file k s) d) p = Some bs \<longleftrightarrow>
      (\<exists>k h s. in_store ?st k h s \<and> p = shard_path h \<and> bs = shard_file k s)" for p bs
  proof (cases "p = shard_path ?h")
    case True
    have "h' = ?h" if "in_store st k' h' s'" "p = shard_path h'" for k' h' s'
      using shard_path_inject[of h' ?h] in_store_len[OF ok that(1)] that(2) True by simp
    with none True ins show ?thesis by (simp add: update_conv') blast
  next
    case False
    with md ins show ?thesis by (simp add: update_conv') blast
  qed
  moreover have "distinct (map fst d)" using m d by (simp add: mirrored_def)
  then have "distinct (map fst (AList.update (shard_path ?h) (shard_file k s) d))" by (rule distinct_update)
  ultimately show ?thesis unfolding mirrored_def d' option.case by blast
qed

lemma purge_removed:
  assumes "store_ok st"
  shows "h \<in> set (concat (map (\<lambda>(k, b). if key_object k = oid then map fst b else []) (st_shards st))) \<longleftrightarrow>
    (\<exists>k s. key_object k = oid \<and> in_store st k h s)"
proof -
  have b: "(k, b) \<in> set (st_shards st) \<longleftrightarrow> map_of (st_shards st) k = Some b" for k b
    using assms by (simp add: store_ok_def buckets_ok_def)
  have "(\<exists>s. in_store st k h s) \<longleftrightarrow> (\<exists>b. (k, b) \<in> set (st_shards st) \<and> h \<in> set (map fst b))" for k
  proof (cases "map_of (st_shards st) k")
    case None
    then show ?thesis by (simp add: b in_store_def bucket_of_def)
  next
    case (Some bk)
    then have "(\<exists>s. in_store st k h s) \<longleftrightarrow> h \<in> dom (map_of bk)" by (auto simp: in_store_def bucket_of_def)
    with Some show ?thesis by (simp add: b dom_map_of_conv_image_fst)
  qed
  then have "(\<exists>k s. key_object k = oid \<and> in_store st k h s) \<longleftrightarrow>
      (\<exists>k b. key_object k = oid \<and> (k, b) \<in> set (st_shards st) \<and> h \<in> set (map fst b))" by blast
  also have "\<dots> \<longleftrightarrow> (\<exists>e \<in> set (st_shards st). h \<in> set ((\<lambda>(k, b). if key_object k = oid then map fst b else []) e))"
    by (auto split: if_splits)
  finally show ?thesis by (simp only: set_concat set_map UN_iff bex_simps image_iff)
qed

lemma mirrored_purge:
  assumes ok: "store_ok st" and m: "mirrored st" and one: "one_key st"
  shows "mirrored (snd (store_purge oid st))"
proof -
  obtain d where d: "st_disk st = Some d" using m by (auto simp: mirrored_def split: option.splits)
  define rem where "rem = concat (map (\<lambda>(k, b). if key_object k = oid then map fst b else []) (st_shards st))"
  have rem: "h \<in> set rem \<longleftrightarrow> (\<exists>k s. key_object k = oid \<and> in_store st k h s)" for h
    unfolding rem_def by (rule purge_removed[OF ok])
  let ?st = "snd (store_purge oid st)" and ?P = "shard_path ` set rem"
  have d': "st_disk ?st = Some (filter (\<lambda>(p, _). p \<notin> ?P) d)"
    by (simp add: store_purge_def Let_def d rem_def[symmetric])
  have md: "map_of d p = Some bs \<longleftrightarrow> (\<exists>k h s. in_store st k h s \<and> p = shard_path h \<and> bs = shard_file k s)" for p bs
    using m d by (simp add: mirrored_def)
  have mf: "map_of (filter (\<lambda>(p, _). p \<notin> P) d) p = (if p \<in> P then None else map_of d p)" for P p
    by (induction d) auto
  have mem: "shard_path h \<in> ?P \<longleftrightarrow> key_object k = oid" if i: "in_store st k h s" for k h s
  proof
    assume "shard_path h \<in> ?P"
    then obtain h' where h': "h' \<in> set rem" "shard_path h = shard_path h'" by blast
    then obtain k' s' where k': "key_object k' = oid" "in_store st k' h' s'" using rem by blast
    have "h' = h" using shard_path_inject[of h' h] in_store_len[OF ok k'(2)] in_store_len[OF ok i] h'(2) by simp
    with one k' i show "key_object k = oid" unfolding one_key_def by blast
  next
    assume "key_object k = oid"
    then have "h \<in> set rem" using rem i by blast
    then show "shard_path h \<in> ?P" by (rule imageI)
  qed
  have "map_of (filter (\<lambda>(p, _). p \<notin> ?P) d) p = Some bs \<longleftrightarrow>
      (\<exists>k h s. in_store ?st k h s \<and> p = shard_path h \<and> bs = shard_file k s)" for p bs
    unfolding in_store_purge mf using md mem by (cases "p \<in> ?P") fastforce+
  moreover have "distinct (map fst d)" using m d by (simp add: mirrored_def)
  then have "distinct (map fst (filter (\<lambda>(p, _). p \<notin> ?P) d))"
    by (simp add: distinct_map inj_on_def)
  ultimately show ?thesis by (simp add: mirrored_def d')
qed

text \<open>Reopening the directory rebuilds the index.\<close>

lemma open_fold:
  assumes "\<forall>e \<in> set es. \<exists>k s. shard_fits s \<and> e = (shard_path (shard_hash s), shard_file k s)"
    and "distinct (map fst es)"
  shows "map_of (bucket_of (fold open_step es []) k) h = Some s \<longleftrightarrow>
    (\<exists>e \<in> set es. read_shard_file (snd e) = Inr (k, h, s))"
  using assms
proof (induction es arbitrary: k h s rule: rev_induct)
  case Nil
  then show ?case by (simp add: bucket_of_def)
next
  case (snoc e es)
  obtain k1 s1 where e: "shard_fits s1" "e = (shard_path (shard_hash s1), shard_file k1 s1)"
    using snoc.prems(1) by auto
  have re: "read_shard_file (snd e) = Inr (k1, shard_hash s1, s1)" using read_shard_file_ok[OF e(1)] e(2) by simp
  let ?m = "fold open_step es []"
  have step: "fold open_step (es @ [e]) [] =
      AList.update k1 (AList.update (shard_hash s1) s1 (bucket_of ?m k1)) ?m"
    using re by (simp add: open_step_def)
  have IH: "map_of (bucket_of ?m k) h = Some s \<longleftrightarrow> (\<exists>e \<in> set es. read_shard_file (snd e) = Inr (k, h, s))" for k h s
    using snoc by simp
  have other: "read_shard_file (snd e') \<noteq> Inr (k, shard_hash s1, s)" if e': "e' \<in> set es" for e' k s
  proof
    assume r: "read_shard_file (snd e') = Inr (k, shard_hash s1, s)"
    obtain k2 s2 where "shard_fits s2" "e' = (shard_path (shard_hash s2), shard_file k2 s2)"
      using snoc.prems(1) e' by auto
    with r read_shard_file_ok have "fst e' = fst e" using e(2) by auto
    moreover have "fst e \<notin> fst ` set es" using snoc.prems(2) by simp
    ultimately show False using e' by (metis image_eqI)
  qed
  show ?case unfolding step using IH other re by (auto simp: update_conv')
qed

lemma reopen_exact:
  assumes ok: "store_ok st" and m: "mirrored st" and d: "st_disk st = Some d"
    and fits: "\<forall>k h s. in_store st k h s \<longrightarrow> shard_fits s"
  shows "in_store (store_open d) k h s \<longleftrightarrow> in_store st k h s"
proof -
  have md: "map_of d p = Some bs \<longleftrightarrow> (\<exists>k h s. in_store st k h s \<and> p = shard_path h \<and> bs = shard_file k s)" for p bs
    using m d by (simp add: mirrored_def)
  have dd: "distinct (map fst d)" using m d by (simp add: mirrored_def)
  have set: "(p, bs) \<in> set d \<longleftrightarrow> (\<exists>k s. in_store st k (shard_hash s) s \<and> p = shard_path (shard_hash s) \<and> bs = shard_file k s)" for p bs
  proof -
    have "(p, bs) \<in> set d \<longleftrightarrow> map_of d p = Some bs" using dd by simp
    with md ok show ?thesis unfolding store_ok_def by metis
  qed
  have "filter (\<lambda>(p, _). is_shard_path p) d = d"
    using set is_shard_path_shard_path[OF length_shard_hash] by (fastforce simp: filter_id_conv)
  then have "in_store (store_open d) k h s \<longleftrightarrow> (\<exists>e \<in> set d. read_shard_file (snd e) = Inr (k, h, s))"
    unfolding in_store_def store_open_def
    using open_fold[OF _ dd, of k h s] set fits by fastforce
  also have "\<dots> \<longleftrightarrow> in_store st k h s"
  proof
    assume "\<exists>e \<in> set d. read_shard_file (snd e) = Inr (k, h, s)"
    then obtain p bs where "(p, bs) \<in> set d" "read_shard_file bs = Inr (k, h, s)" by auto
    with set fits read_shard_file_ok show "in_store st k h s" by fastforce
  next
    assume i: "in_store st k h s"
    then have "h = shard_hash s" using store_okD[OF ok] by blast
    with i have "(shard_path h, shard_file k s) \<in> set d" using set by blast
    moreover have "read_shard_file (shard_file k s) = Inr (k, h, s)"
      using read_shard_file_ok fits i \<open>h = shard_hash s\<close> by blast
    ultimately show "\<exists>e \<in> set d. read_shard_file (snd e) = Inr (k, h, s)" by force
  qed
  finally show ?thesis .
qed

section \<open>Runs of a persistent store\<close>

datatype store_op = OpPut bool shard_key3 shard | OpPurge u64 | OpWipe

definition store_apply :: "store_op \<Rightarrow> store \<Rightarrow> store" where
  "store_apply p st = (case p of
     OpPut wok k s \<Rightarrow> snd (store_put wok k s st)
   | OpPurge oid \<Rightarrow> snd (store_purge oid st)
   | OpWipe \<Rightarrow> store_wipe st)"

definition op_puts :: "store_op list \<Rightarrow> (shard_key3 \<times> shard) set" where
  "op_puts ops = {(k, s). \<exists>wok. OpPut wok k s \<in> set ops}"

lemma store_apply_simps:
  "store_apply (OpPut wok k s) st = snd (store_put wok k s st)"
  "store_apply (OpPurge oid) st = snd (store_purge oid st)"
  "store_apply OpWipe st = store_wipe st"
  by (simp_all add: store_apply_def)

lemma in_store_wipe [simp]: "\<not> in_store (store_wipe st) k h s"
  by (simp add: in_store_def store_wipe_def bucket_of_def)

lemma store_ok_wipe [simp]: "store_ok (store_wipe st)"
  by (simp add: store_ok_def) (simp add: store_wipe_def buckets_ok_def)

lemma run_in_store:
  assumes "store_ok st"
  shows "in_store (fold store_apply ops st) k h s \<Longrightarrow> in_store st k h s \<or> (h = shard_hash s \<and> (k, s) \<in> op_puts ops)"
    and "store_ok (fold store_apply ops st)"
proof (induction ops rule: rev_induct)
  case Nil
  { case 1 then show ?case by simp next case 2 show ?case using assms by simp }
next
  case (snoc p ops)
  { case 1
    show ?case
    proof (cases p)
      case (OpPut wok k1 s1)
      with 1 snoc.IH(1) show ?thesis
        by (auto simp: store_apply_simps in_store_put op_puts_def split: if_splits)
    next
      case (OpPurge oid)
      with 1 snoc.IH(1) show ?thesis by (auto simp: store_apply_simps in_store_purge op_puts_def)
    next
      case OpWipe
      with 1 show ?thesis by (simp add: store_apply_simps)
    qed
  next
    case 2
    show ?case using snoc.IH(2)
      by (cases p) (simp_all add: store_apply_simps store_ok_put store_ok_purge) }
qed

lemma run_mirrored:
  assumes "\<forall>k s k' s'. (k, s) \<in> op_puts ops \<longrightarrow> (k', s') \<in> op_puts ops \<longrightarrow> shard_hash s = shard_hash s' \<longrightarrow> k = k'"
  shows "mirrored (fold store_apply ops (store_open []))"
  using assms
proof (induction ops rule: rev_induct)
  case Nil
  then show ?case by (simp add: mirrored_def store_open_def in_store_def bucket_of_def)
next
  case (snoc p ops)
  let ?st = "fold store_apply ops (store_open [])"
  have o: "op_puts ops \<subseteq> op_puts (ops @ [p])" by (auto simp: op_puts_def)
  then have m: "mirrored ?st" using snoc by blast
  have e: "store_ok (store_open [])"
    by (simp add: store_ok_def buckets_ok_def in_store_def store_open_def bucket_of_def)
  have ok: "store_ok ?st" by (rule run_in_store(2)[OF e])
  have src: "h = shard_hash s \<and> (k, s) \<in> op_puts ops" if "in_store ?st k h s" for k h s
    using run_in_store(1)[OF e that] by (simp add: in_store_def store_open_def bucket_of_def)
  show ?case
  proof (cases p)
    case (OpPut wok k s)
    then have new: "(k, s) \<in> op_puts (ops @ [p])" by (auto simp: op_puts_def)
    have "\<forall>k' s'. in_store ?st k' (shard_hash s) s' \<longrightarrow> k' = k"
      using src snoc.prems new o by (metis subsetD)
    from mirrored_put[OF ok m this] OpPut show ?thesis by (simp add: store_apply_simps)
  next
    case (OpPurge oid)
    have "one_key ?st" unfolding one_key_def using src snoc.prems o by (metis subsetD)
    from mirrored_purge[OF ok m this] OpPurge show ?thesis by (simp add: store_apply_simps)
  next
    case OpWipe
    with m show ?thesis by (auto simp: store_apply_simps mirrored_def store_wipe_def in_store_def bucket_of_def split: option.splits)
  qed
qed

section \<open>What one request does\<close>

text \<open>A node as its clients see it: for each key, a finite set of shards indexed by hash.\<close>

definition abs_store :: "store \<Rightarrow> shard_key3 \<Rightarrow> bytes \<Rightarrow> shard option" where
  "abs_store st k h = map_of (bucket_of (st_shards st) k) h"

definition node_spec :: "(bytes \<Rightarrow> bytes) \<Rightarrow> bool \<Rightarrow> request \<Rightarrow> (shard_key3 \<Rightarrow> bytes \<Rightarrow> shard option) \<Rightarrow>
    response \<Rightarrow> (shard_key3 \<Rightarrow> bytes \<Rightarrow> shard option) \<Rightarrow> bool" where
  "node_spec sign stores req A resp A' \<longleftrightarrow> (case req of
     Ping \<Rightarrow> resp = Pong \<and> A' = A
   | Put oid c l s \<Rightarrow> resp = Ack \<and>
       A' = (if stores \<and> A (SKey oid c l) (shard_hash s) = None
             then A(SKey oid c l := (A (SKey oid c l))(shard_hash s \<mapsto> s)) else A)
   | Get oid c l \<Rightarrow> A' = A \<and> (\<exists>ss. resp = Shards ss \<and> distinct (map shard_hash ss) \<and>
       (\<forall>s. s \<in> set ss \<longleftrightarrow> A (SKey oid c l) (shard_hash s) = Some s))
   | Purge oid \<Rightarrow> resp = Ack \<and> A' = (\<lambda>k. if key_object k = oid then Map.empty else A k)
   | Stat \<Rightarrow> A' = A \<and> resp = StatResp (word_of_nat (card {(k, h). A k h \<noteq> None}))
   | Audit oid c l h \<Rightarrow> A' = A \<and> resp = AuditResp (A (SKey oid c l) h) \<and>
       (\<forall>s. resp = AuditResp (Some s) \<longrightarrow> shard_hash s = h)
   | AuthChallenge nonce \<Rightarrow> resp = AuthChallengeOk (sign nonce) \<and> A' = A)"

lemma in_store_abs: "in_store st k h s \<longleftrightarrow> abs_store st k h = Some s"
  by (simp add: in_store_def abs_store_def)

lemma abs_put:
  "abs_store (snd (store_put wok k s st)) =
     (if (st_disk st = None \<or> wok) \<and> abs_store st k (shard_hash s) = None
      then (abs_store st)(k := (abs_store st k)(shard_hash s \<mapsto> s)) else abs_store st)"
  by (intro ext) (auto simp: abs_store_def store_put_def Let_def update_conv')

lemma abs_purge: "abs_store (snd (store_purge oid st)) = (\<lambda>k. if key_object k = oid then Map.empty else abs_store st k)"
  by (intro ext) (simp add: abs_store_def store_purge_def Let_def bucket_of_filter)

lemma hashes_of_bucket:
  assumes "store_ok st"
  shows "map shard_hash (store_get k st) = map fst (bucket_of (st_shards st) k)"
proof -
  let ?b = "bucket_of (st_shards st) k"
  have "distinct (map fst ?b)" using assms by (intro bucket_distinct) (simp add: store_ok_def)
  then have "shard_hash s = h" if "(h, s) \<in> set ?b" for h s
    using that assms store_okD[of st k h s] by (simp add: in_store_def)
  then show ?thesis by (force simp: store_get_def)
qed

definition store_keys :: "(shard_key3 \<times> (bytes \<times> shard) list) list \<Rightarrow> (shard_key3 \<times> bytes) list" where
  "store_keys m = concat (map (\<lambda>(k, b). map (Pair k) (map fst b)) m)"

lemma length_store_keys: "length (store_keys m) = sum_list (map (\<lambda>(_, b). length b) m)"
  by (induction m) (auto simp: store_keys_def)

lemma distinct_store_keys: "buckets_ok m \<Longrightarrow> distinct (store_keys m)"
proof (induction m)
  case Nil
  then show ?case by (simp add: store_keys_def)
next
  case (Cons e m)
  obtain k b where e: "e = (k, b)" by force
  have "k \<notin> fst ` set m" "distinct (map fst b)" "buckets_ok m"
    using Cons.prems by (simp_all add: e buckets_ok_def)
  then have "distinct (map (Pair k) (map fst b))" "distinct (store_keys m)"
    "\<forall>h. (k, h) \<notin> set (store_keys m)"
    using Cons.IH by (auto simp: distinct_map inj_on_def store_keys_def image_iff)
  moreover have "store_keys (e # m) = map (Pair k) (map fst b) @ store_keys m"
    by (simp add: store_keys_def e)
  ultimately show ?case by (simp only: distinct_append) auto
qed

lemma set_store_keys:
  assumes "buckets_ok m"
  shows "(k, h) \<in> set (store_keys m) \<longleftrightarrow> map_of (bucket_of m k) h \<noteq> None"
proof -
  have "(k, h) \<in> set (store_keys m) \<longleftrightarrow> (\<exists>b. (k, b) \<in> set m \<and> h \<in> fst ` set b)"
    by (auto simp: store_keys_def)
  also have "\<dots> \<longleftrightarrow> (\<exists>b. map_of m k = Some b \<and> h \<in> fst ` set b)"
    using assms by (simp add: buckets_ok_def)
  also have "\<dots> \<longleftrightarrow> map_of (bucket_of m k) h \<noteq> None"
  proof (cases "map_of m k")
    case None
    then show ?thesis by (simp add: bucket_of_def)
  next
    case (Some b)
    then have "bucket_of m k = b" by (simp add: bucket_of_def)
    with Some show ?thesis by (simp only: map_of_eq_None_iff option.inject) blast
  qed
  finally show ?thesis .
qed

lemma store_total_card:
  assumes "store_ok st"
  shows "store_total st = card {(k, h). abs_store st k h \<noteq> None}"
proof -
  have b: "buckets_ok (st_shards st)" using assms by (simp add: store_ok_def)
  have "{(k, h). abs_store st k h \<noteq> None} = set (store_keys (st_shards st))"
    using set_store_keys[OF b] unfolding abs_store_def by blast
  then show ?thesis
    using distinct_card[OF distinct_store_keys[OF b]]
    by (simp only: store_total_def length_store_keys)
qed

lemma handle_request_spec:
  assumes ok: "store_ok st" and h: "handle_request sign wok req st = (resp, st')"
  shows "node_spec sign (st_disk st = None \<or> wok) req (abs_store st) resp (abs_store st') \<and> store_ok st'"
proof (cases req)
  case (Put oid c l s)
  then have "st' = snd (store_put wok (SKey oid c l) s st)" "resp = Ack" using h by (auto simp: handle_request_def)
  with Put ok show ?thesis by (simp add: node_spec_def abs_put store_ok_put)
next
  case (Get oid c l)
  let ?ss = "store_get (SKey oid c l) st"
  have "distinct (map shard_hash ?ss)"
    unfolding hashes_of_bucket[OF ok] using ok by (intro bucket_distinct) (simp add: store_ok_def)
  with Get h ok show ?thesis
    by (auto simp: handle_request_def node_spec_def set_store_get in_store_abs)
next
  case (Purge oid)
  then have "st' = snd (store_purge oid st)" "resp = Ack" using h by (auto simp: handle_request_def)
  with Purge ok show ?thesis by (simp add: node_spec_def abs_purge store_ok_purge)
next
  case Stat
  with h ok show ?thesis by (simp add: handle_request_def node_spec_def store_total_card del: not_None_eq) blast
next
  case (Audit oid c l hh)
  have "abs_store st k h = Some s \<Longrightarrow> shard_hash s = h" for k h s
    using ok unfolding store_ok_def in_store_abs by blast
  with Audit h ok show ?thesis
    by (auto simp: handle_request_def node_spec_def store_get_by_hash_def abs_store_def)
qed (use ok h in \<open>simp_all add: handle_request_def node_spec_def\<close>)

text \<open>A node serving a list of requests.\<close>

fun serve :: "(bytes \<Rightarrow> bytes) \<Rightarrow> bool \<Rightarrow> request list \<Rightarrow> store \<Rightarrow> response list \<times> store" where
  "serve sign wok [] st = ([], st)"
| "serve sign wok (r # rs) st =
     (let (resp, st) = handle_request sign wok r st; (resps, st) = serve sign wok rs st in (resp # resps, st))"

definition framed :: "bytes \<Rightarrow> bytes" where
  "framed bs = be_bytes 4 (length bs) @ bs"

definition sendable_req :: "request \<Rightarrow> bool" where
  "sendable_req r \<longleftrightarrow> request_ok r \<and> length (request_encode r) \<le> MAX_FRAME"

lemma write_framed: "length bs \<le> MAX_FRAME \<Longrightarrow> write_frame bs = Inr (framed bs)"
  by (simp add: write_frame_def framed_def)

lemma read_framed: "length bs \<le> MAX_FRAME \<Longrightarrow> read_frame (framed bs @ rest) = Inr (bs, rest)"
  by (rule read_write_frame) (rule write_framed)

lemma connection_spec:
  assumes "list_all sendable_req reqs" and "read_frame rest = Inl e"
    and "serve sign wok reqs st = (resps, st')"
    and "list_all (\<lambda>r. length (response_encode r) \<le> MAX_FRAME) resps"
  shows "handle_connection sign wok (concat (map (\<lambda>r. framed (request_encode r)) reqs) @ rest) st =
    (e, concat (map (\<lambda>r. framed (response_encode r)) resps), st')"
  using assms
proof (induction reqs arbitrary: st resps)
  case Nil
  then show ?case by (subst handle_connection.simps) simp
next
  case (Cons r rs)
  obtain resp st1 where h: "handle_request sign wok r st = (resp, st1)" by force
  obtain resps1 st2 where s: "serve sign wok rs st1 = (resps1, st2)" by force
  have rs: "resps = resp # resps1" "st' = st2" using Cons.prems(3) by (simp_all add: h s)
  have d: "request_decode (request_encode r) = Inr r"
    using request_codec.dec_enc_end[of r] Cons.prems(1) by (simp add: request_decode_def sendable_req_def)
  have IH: "handle_connection sign wok (concat (map (\<lambda>r. framed (request_encode r)) rs) @ rest) st1 =
    (e, concat (map (\<lambda>r. framed (response_encode r)) resps1), st2)"
    using Cons.IH[of st1 resps1] Cons.prems(1,2,4) rs s by simp
  show ?case
    using Cons.prems(1,4) rs IH
    by (subst handle_connection.simps) (simp add: read_framed write_framed sendable_req_def d h)
qed

section \<open>Properties\<close>

text \<open>C6: every request does to a node what its contract says. Over the map from key and hash to shard:
  \<open>Put\<close> adds the shard under its own hash unless the hash is taken or the write fails, and is acknowledged
  in every case; \<open>Purge\<close> drops exactly the object's keys; \<open>Get\<close> lists each shard of a key once; \<open>Audit\<close>
  answers with the shard of that very hash or with nothing; \<open>Stat\<close> counts the shards modulo 2^32. All
  requests keep the store well-formed.\<close>

theorem handle_request_refines:
  assumes "store_ok st" and "handle_request sign wok req st = (resp, st')"
  shows "node_spec sign (st_disk st = None \<or> wok) req (abs_store st) resp (abs_store st') \<and> store_ok st'"
  using assms by (rule handle_request_spec)

theorem handle_request_refines_witness:
  "node_spec id (st_disk store_new = None \<or> True) (Get 7 1 2) (abs_store store_new) (Shards []) (abs_store store_new) \<and>
   store_ok store_new"
  by (rule handle_request_refines)
    (simp_all add: store_new_def store_ok_def buckets_ok_def in_store_def bucket_of_def handle_request_def store_get_def)

text \<open>a connection answers its requests in order. When the stream holds the frames of some requests
  followed by anything that is not a frame, the node sends exactly the frames of the responses of handling
  them one after the other, ends with the state after the last one, and closes with the read error.\<close>

theorem connection_serves:
  assumes "list_all sendable_req reqs" and "read_frame rest = Inl e"
    and "serve sign wok reqs st = (resps, st')"
    and "list_all (\<lambda>r. length (response_encode r) \<le> MAX_FRAME) resps"
  shows "handle_connection sign wok (concat (map (\<lambda>r. framed (request_encode r)) reqs) @ rest) st =
    (e, concat (map (\<lambda>r. framed (response_encode r)) resps), st')"
  using assms by (rule connection_spec)

theorem connection_serves_witness:
  "handle_connection id True (concat (map (\<lambda>r. framed (request_encode r)) [Ping, Stat, Purge 7]) @ [0, 0]) store_new =
    (Err UnexpectedEof, concat (map (\<lambda>r. framed (response_encode r)) [Pong, StatResp 0, Ack]), store_new)"
  by (rule connection_serves)
    (simp_all add: sendable_req_def request_ok_def request_encode_def response_encode_def MAX_FRAME_def
      read_frame_def c_u32_def c_take_def handle_request_def store_new_def store_total_def store_purge_def)



text \<open>a shard stored under two keys has one file, which belongs to the later key. After the restart the
  earlier key has lost the shard; and once the later key's object is purged, the restart finds it under
  neither, although the running store still serves it under the first key.\<close>

theorem shared_shard_lost:
  assumes "shard_fits s" and "k \<noteq> k'" and "key_object k \<noteq> key_object k'"
  defines "st \<equiv> snd (store_put True k' s (snd (store_put True k s (store_open []))))"
  defines "st' \<equiv> snd (store_purge (key_object k') st)"
  shows "abs_store st k (shard_hash s) = Some s \<and> abs_store st k' (shard_hash s) = Some s \<and>
    abs_store (store_open (the (st_disk st))) k (shard_hash s) = None \<and>
    abs_store (store_open (the (st_disk st))) k' (shard_hash s) = Some s \<and>
    abs_store st' k (shard_hash s) = Some s \<and> st_disk st' = Some []"
proof -
  have disk: "st_disk st = Some [(shard_path (shard_hash s), shard_file k' s)]"
    using assms(2) by (simp add: st_def store_put_def Let_def store_open_def bucket_of_def)
  have sh: "st_shards st = [(k, [(shard_hash s, s)]), (k', [(shard_hash s, s)])]"
    using assms(2) by (simp add: st_def store_put_def Let_def store_open_def bucket_of_def)
  have op: "st_shards (store_open (the (st_disk st))) = [(k', [(shard_hash s, s)])]"
    using read_shard_file_ok[OF assms(1)] is_shard_path_shard_path[OF length_shard_hash]
    by (simp add: disk store_open_def open_step_def bucket_of_def)
  have "st_disk st' = Some []" by (simp add: st'_def store_purge_def Let_def disk sh)
  moreover have "st_shards st' = [(k, [(shard_hash s, s)])]"
    using assms(3) by (simp add: st'_def store_purge_def Let_def sh)
  ultimately show ?thesis using assms(2) by (simp add: abs_store_def bucket_of_def sh op)
qed

theorem shared_shard_lost_witness:
  "st_disk (snd (store_purge (key_object (SKey 2 0 0)) (snd (store_put True (SKey 2 0 0) \<lparr>coeffs = [1], payload = [9]\<rparr>
      (snd (store_put True (SKey 1 0 0) \<lparr>coeffs = [1], payload = [9]\<rparr> (store_open []))))))) = Some []"
  using shared_shard_lost[of "\<lparr>coeffs = [1], payload = [9]\<rparr>" "SKey 1 0 0" "SKey 2 0 0"]
  by (simp add: shard_fits_def)

text \<open>C31: every connection comes to an end. On any stream of bytes the loop handles finitely many requests, at
  most one for each four bytes, namely those of the longest prefix of the stream that is made of readable frames;
  the store is the one that results from serving them in order, and the responses are sent framed, in order,
  up to the end or up to the first one that exceeds the frame limit; the error returned is that of the frame at which the loop stopped.\<close>

theorem connection_ends:
  "\<exists>frames reqs rest e resps sent st'.
     stream = concat (map framed frames) @ rest \<and> map request_decode frames = map Inr reqs \<and> 4 * length reqs \<le> length stream \<and>
     serve sign wok reqs st = (resps, st') \<and>
     handle_connection sign wok stream st = (e, concat (map (\<lambda>r. framed (response_encode r)) sent), st') \<and>
     (sent = resps \<and> (read_frame rest = Inl e \<or> (\<exists>f rest'. read_frame rest = Inr (f, rest') \<and> request_decode f = Inl e)) \<or>
      (\<exists>big. resps = sent @ [big] \<and> MAX_FRAME < length (response_encode big) \<and> e = Err InvalidInput))"
proof (induction sign wok stream st rule: handle_connection.induct)
  case (1 sign wok stream st)
  note unfold = handle_connection.simps[of sign wok stream st]
  show ?case
  proof (cases "read_frame stream")
    case (Inl e)
    then show ?thesis by (intro exI[of _ "[]"] exI[of _ stream] exI[of _ e] exI[of _ st]) (simp add: unfold)
  next
    case (Inr p)
    obtain buf stream1 where p: "p = (buf, stream1)" by force
    from Inr p have len: "length buf \<le> MAX_FRAME" and stream: "stream = framed buf @ stream1"
      by (auto dest!: read_frame_sound simp: write_frame_Inr framed_def)
    show ?thesis
    proof (cases "request_decode buf")
      case (Inl e)
      with \<open>read_frame stream = Inr p\<close> p show ?thesis
        by (intro exI[of _ "[]"] exI[of _ stream] exI[of _ e] exI[of _ st]) (simp add: unfold)
    next
      case dec: (Inr req)
      obtain resp st1 where h: "handle_request sign wok req st = (resp, st1)" by force
      show ?thesis
      proof (cases "length (response_encode resp) \<le> MAX_FRAME")
        case False
        then have "handle_connection sign wok stream st = (Err InvalidInput, [], st1)"
          using \<open>read_frame stream = Inr p\<close> by (simp add: unfold p dec h write_frame_def)
        with False dec h stream show ?thesis
          by (intro exI[of _ "[buf]"] exI[of _ "[req]"] exI[of _ stream1] exI[of _ "Err InvalidInput"] exI[of _ "[resp]"]
              exI[of _ "[]"] exI[of _ st1]) (auto simp: framed_def)
      next
        case True
        have IH: "\<exists>frames reqs rest e resps sent st'.
          stream1 = concat (map framed frames) @ rest \<and> map request_decode frames = map Inr reqs \<and> 4 * length reqs \<le> length stream1 \<and>
          serve sign wok reqs st1 = (resps, st') \<and>
          handle_connection sign wok stream1 st1 = (e, concat (map (\<lambda>r. framed (response_encode r)) sent), st') \<and>
          (sent = resps \<and> (read_frame rest = Inl e \<or> (\<exists>f rest'. read_frame rest = Inr (f, rest') \<and> request_decode f = Inl e)) \<or>
           (\<exists>big. resps = sent @ [big] \<and> MAX_FRAME < length (response_encode big) \<and> e = Err InvalidInput))"
          using "1.IH"[OF Inr p[symmetric] dec refl h[symmetric] write_framed[OF True]] by simp
        then obtain frames reqs rest e resps sent st' where ih:
          "stream1 = concat (map framed frames) @ rest" "map request_decode frames = map Inr reqs" "4 * length reqs \<le> length stream1"
          "serve sign wok reqs st1 = (resps, st')"
          "handle_connection sign wok stream1 st1 = (e, concat (map (\<lambda>r. framed (response_encode r)) sent), st')"
          "sent = resps \<and> (read_frame rest = Inl e \<or> (\<exists>f rest'. read_frame rest = Inr (f, rest') \<and> request_decode f = Inl e)) \<or>
           (\<exists>big. resps = sent @ [big] \<and> MAX_FRAME < length (response_encode big) \<and> e = Err InvalidInput)" by blast
        have run: "handle_connection sign wok stream st = (e, framed (response_encode resp) @ concat (map (\<lambda>r. framed (response_encode r)) sent), st')"
          using \<open>read_frame stream = Inr p\<close> ih(5) by (simp add: unfold p dec h write_framed[OF True])
        have stop: "resp # sent = resp # resps \<and> (read_frame rest = Inl e \<or> (\<exists>f rest'. read_frame rest = Inr (f, rest') \<and> request_decode f = Inl e)) \<or>
           (\<exists>big. resp # resps = (resp # sent) @ [big] \<and> MAX_FRAME < length (response_encode big) \<and> e = Err InvalidInput)"
          using ih(6) by simp
        have "4 * length (req # reqs) \<le> length stream" using ih(3) stream by (simp add: framed_def)
        moreover have "serve sign wok (req # reqs) st = (resp # resps, st')" using h ih(4) by simp
        moreover have "stream = concat (map framed (buf # frames)) @ rest" using stream ih(1) by simp
        moreover have "map request_decode (buf # frames) = map Inr (req # reqs)" using dec ih(2) by simp
        moreover have "handle_connection sign wok stream st = (e, concat (map (\<lambda>r. framed (response_encode r)) (resp # sent)), st')"
          using run by simp
        ultimately show ?thesis using stop by blast
      qed
    qed
  qed
qed

end
