(* ===== verification/Identity.thy ===== *)
theory Identity
  imports Manifest
begin

text \<open>
  \<open>holofs-storage/src/identity.rs\<close> and \<open>whitelist.rs\<close>: node keys, challenge signatures and the signed
  cluster whitelist.

  Ed25519 is third-party code. The record \<open>ed25519\<close> holds the four operations the sources call; what
  the properties rely on is stated where it is used: \<open>ed_correct\<close> (a signature verifies under its own
  key) and \<open>ed_unforged\<close> (whatever verifies under the key of \<open>sk\<close> is one of the messages its owner
  signed). A signing key is its 32-byte seed, which is what the identity file holds.
\<close>

section \<open>Keys and signatures\<close>

record ed25519 =
  ed_pub :: "bytes \<Rightarrow> bytes"
  ed_sign :: "bytes \<Rightarrow> bytes \<Rightarrow> bytes"
  ed_key_ok :: "bytes \<Rightarrow> bool"
  ed_verify :: "bytes \<Rightarrow> bytes \<Rightarrow> bytes \<Rightarrow> bool"

definition PUBKEY_LEN :: nat where "PUBKEY_LEN = 32"
definition SIG_LEN :: nat where "SIG_LEN = 64"
definition NONCE_LEN :: nat where "NONCE_LEN = 32"
definition DOMAIN_AUTH :: bytes where "DOMAIN_AUTH = as_bytes ''holofs-auth-v1''"
definition DOMAIN_WHITELIST :: bytes where "DOMAIN_WHITELIST = as_bytes ''holofs-whitelist-v1''"

text \<open>\<open>load_or_create\<close>: the result of reading the identity file, a fresh random seed and the result of
  writing it out; returns the identity and what was written.\<close>

definition load_or_create ::
  "(io_error, bytes) res \<Rightarrow> bytes \<Rightarrow> (io_error, unit) res \<Rightarrow> (io_error, bytes \<times> bytes option) res" where
  "load_or_create read fresh write = (case read of
     Inr bs \<Rightarrow> if length bs = 32 then Inr (bs, None) else Inl (Err InvalidData)
   | Inl (Err NotFound) \<Rightarrow> rbind write (\<lambda>_. Inr (fresh, Some fresh))
   | Inl e \<Rightarrow> Inl e)"

definition pubkey :: "ed25519 \<Rightarrow> bytes \<Rightarrow> bytes" where
  "pubkey ed sk = ed_pub ed sk"

definition sign_challenge :: "ed25519 \<Rightarrow> bytes \<Rightarrow> bytes \<Rightarrow> bytes" where
  "sign_challenge ed sk nonce = ed_sign ed sk (DOMAIN_AUTH @ nonce)"

definition sign_blob :: "ed25519 \<Rightarrow> bytes \<Rightarrow> bytes \<Rightarrow> bytes \<Rightarrow> bytes" where
  "sign_blob ed sk domain blob = ed_sign ed sk (domain @ blob)"

definition verify_blob :: "ed25519 \<Rightarrow> bytes \<Rightarrow> bytes \<Rightarrow> bytes \<Rightarrow> bytes \<Rightarrow> bool" where
  "verify_blob ed pk domain blob sig =
     (if \<not> ed_key_ok ed pk then False else ed_verify ed pk (domain @ blob) sig)"

definition verify_challenge :: "ed25519 \<Rightarrow> bytes \<Rightarrow> bytes \<Rightarrow> bytes \<Rightarrow> bool" where
  "verify_challenge ed pk nonce sig = verify_blob ed pk DOMAIN_AUTH nonce sig"

section \<open>The whitelist\<close>

record wl_entry =
  wl_addr :: string
  wl_pubkey :: bytes
  wl_zone :: u8

record whitelist =
  wl_entries :: "wl_entry list"
  wl_admin_pubkey :: bytes
  wl_signature :: bytes

definition WL_MAGIC :: bytes where "WL_MAGIC = as_bytes ''HOLOFSW1''"

definition wl_entry_be :: "wl_entry \<Rightarrow> bytes" where
  "wl_entry_be e = be_bytes 2 (length (wl_addr e)) @ as_bytes (wl_addr e) @ wl_pubkey e @ [wl_zone e]"

definition encode_signed_blob :: "wl_entry list \<Rightarrow> bytes \<Rightarrow> bytes" where
  "encode_signed_blob es admin = be_bytes 4 (length es) @ concat (map wl_entry_be es) @ admin"

definition wl_sign :: "ed25519 \<Rightarrow> wl_entry list \<Rightarrow> bytes \<Rightarrow> whitelist" where
  "wl_sign ed es sk =
     (let admin = pubkey ed sk; blob = encode_signed_blob es admin
      in \<lparr>wl_entries = es, wl_admin_pubkey = admin, wl_signature = sign_blob ed sk DOMAIN_WHITELIST blob\<rparr>)"

definition wl_verify :: "ed25519 \<Rightarrow> bytes option \<Rightarrow> whitelist \<Rightarrow> bool" where
  "wl_verify ed expected w =
     (if (case expected of Some exp \<Rightarrow> wl_admin_pubkey w \<noteq> exp | None \<Rightarrow> False) then False
      else verify_blob ed (wl_admin_pubkey w) DOMAIN_WHITELIST
             (encode_signed_blob (wl_entries w) (wl_admin_pubkey w)) (wl_signature w))"

definition lookup_by_addr :: "string \<Rightarrow> whitelist \<Rightarrow> wl_entry option" where
  "lookup_by_addr addr w = List.find (\<lambda>e. wl_addr e = addr) (wl_entries w)"

definition lookup_by_pubkey :: "bytes \<Rightarrow> whitelist \<Rightarrow> wl_entry option" where
  "lookup_by_pubkey pk w = List.find (\<lambda>e. wl_pubkey e = pk) (wl_entries w)"

definition wl_encode :: "whitelist \<Rightarrow> bytes" where
  "wl_encode w = WL_MAGIC @ encode_signed_blob (wl_entries w) (wl_admin_pubkey w) @ wl_signature w"

text \<open>One entry: the length of the whole entry is checked before the address is decoded.\<close>

definition c_wl_entry :: "bytes \<Rightarrow> (io_error, wl_entry \<times> bytes) res" where
  "c_wl_entry c = rbind (c_u16 c) (\<lambda>(alen, c).
     rbind (c_take (unat alen + PUBKEY_LEN + 1) c) (\<lambda>(blk, c).
     rbind (from_utf8 (take (unat alen) blk)) (\<lambda>addr.
       Inr (\<lparr>wl_addr = addr, wl_pubkey = slice blk (unat alen) (unat alen + PUBKEY_LEN),
             wl_zone = blk ! (unat alen + PUBKEY_LEN)\<rparr>, c))))"

definition wl_decode :: "bytes \<Rightarrow> (io_error, whitelist) res" where
  "wl_decode buf =
     (if length buf < 8 + 4 + PUBKEY_LEN + SIG_LEN then Inl (Err UnexpectedEof)
      else if take 8 buf \<noteq> WL_MAGIC then Inl (Err InvalidData)
      else rbind (c_u32 (drop 8 buf)) (\<lambda>(n, c).
           rbind (c_many c_wl_entry (unat n) c) (\<lambda>(es, c).
             if PUBKEY_LEN + SIG_LEN \<noteq> length c then Inl (Err InvalidData)
             else Inr \<lparr>wl_entries = es, wl_admin_pubkey = take PUBKEY_LEN c,
                       wl_signature = drop PUBKEY_LEN c\<rparr>)))"

section \<open>The format is canonical\<close>

definition wl_entry_ok :: "wl_entry \<Rightarrow> bool" where
  "wl_entry_ok e \<longleftrightarrow> str16_ok (wl_addr e) \<and> length (wl_pubkey e) = 32"

definition wl_ok :: "whitelist \<Rightarrow> bool" where
  "wl_ok w \<longleftrightarrow> list_all wl_entry_ok (wl_entries w) \<and> length (wl_entries w) < 2 ^ 32 \<and>
     length (wl_admin_pubkey w) = 32 \<and> length (wl_signature w) = 64"

lemma wl_entry_enc: "wl_entry_ok e \<Longrightarrow> c_wl_entry (wl_entry_be e @ rest) = Inr (e, rest)"
proof -
  assume ok: "wl_entry_ok e"
  let ?n = "length (wl_addr e)"
  have l: "length (as_bytes (wl_addr e) @ wl_pubkey e @ [wl_zone e]) = ?n + 32 + 1" "length (wl_pubkey e) = 32"
    using ok by (simp_all add: wl_entry_ok_def)
  have "c_take (?n + 32 + 1) ((as_bytes (wl_addr e) @ wl_pubkey e @ [wl_zone e]) @ rest) =
      Inr (as_bytes (wl_addr e) @ wl_pubkey e @ [wl_zone e], rest)"
    by (rule c_take_append[OF l(1)])
  then show ?thesis
    using ok l(2) by (cases e) (simp add: c_wl_entry_def wl_entry_be_def wl_entry_ok_def str16_ok_def
      PUBKEY_LEN_def slice_def nth_append)
qed

lemma wl_entry_sound: "c_wl_entry c = Inr (e, rest) \<Longrightarrow> wl_entry_ok e \<and> c = wl_entry_be e @ rest"
proof -
  assume "c_wl_entry c = Inr (e, rest)"
  then obtain n c1 blk addr where d: "c_u16 c = Inr (n, c1)" "c_take (unat n + 32 + 1) c1 = Inr (blk, rest)"
    "from_utf8 (take (unat n) blk) = Inr addr"
    "e = \<lparr>wl_addr = addr, wl_pubkey = slice blk (unat n) (unat n + 32), wl_zone = blk ! (unat n + 32)\<rparr>"
    by (auto simp: c_wl_entry_def rbind_eq_Inr PUBKEY_LEN_def)
  have b: "length blk = unat n + 32 + 1" "c1 = blk @ rest" using c_take_sound[OF d(2)] by auto
  have a: "str_ok addr" "as_bytes addr = take (unat n) blk" using from_utf8_str_ok[OF d(3)] by auto
  then have la: "length addr = unat n" using b(1) by (metis length_as_bytes length_take min.absorb2 le_add1 add.assoc)
  have "blk = take (unat n) blk @ slice blk (unat n) (unat n + 32) @ [blk ! (unat n + 32)]"
  proof -
    have "drop (unat n + 32) blk = [blk ! (unat n + 32)]"
      using b(1) Cons_nth_drop_Suc[of "unat n + 32" blk] by simp
    then show ?thesis
      by (metis add_diff_cancel_left' append_take_drop_id drop_drop add.commute slice_def)
  qed
  moreover have "c = u16_be n @ c1" using u16_codec.dec_sound[OF d(1)] by simp
  ultimately show ?thesis
    using a la b d(4) unat_u_less(1)[of n] by (simp add: wl_entry_ok_def wl_entry_be_def str16_ok_def)
qed

interpretation wl_entry_codec: canonical_codec wl_entry_be c_wl_entry wl_entry_ok
  by unfold_locales (simp_all add: wl_entry_enc, auto dest: wl_entry_sound)

lemma wl_decode_encode: "wl_ok w \<Longrightarrow> wl_decode (wl_encode w) = Inr w"
proof -
  assume ok: "wl_ok w"
  let ?es = "concat (map wl_entry_be (wl_entries w))"
  have m: "c_many c_wl_entry (length (wl_entries w)) (?es @ wl_admin_pubkey w @ wl_signature w) =
      Inr (wl_entries w, wl_admin_pubkey w @ wl_signature w)"
    using ok by (intro wl_entry_codec.many_enc) (simp_all add: wl_ok_def)
  have "length WL_MAGIC = 8" by (simp add: WL_MAGIC_def)
  with m ok show ?thesis
    by (cases w) (simp add: wl_decode_def wl_encode_def encode_signed_blob_def wl_ok_def PUBKEY_LEN_def SIG_LEN_def)
qed

lemma wl_decode_sound:
  assumes "wl_decode buf = Inr w" shows "wl_ok w \<and> buf = wl_encode w"
proof -
  have g: "\<not> length buf < 8 + 4 + PUBKEY_LEN + SIG_LEN" "take 8 buf = WL_MAGIC"
    using assms by (auto simp: wl_decode_def split: if_splits)
  with assms obtain n c es c' where
    d: "c_u32 (drop 8 buf) = Inr (n, c)" "c_many c_wl_entry (unat n) c = Inr (es, c')" "length c' = 96"
      "w = \<lparr>wl_entries = es, wl_admin_pubkey = take 32 c', wl_signature = drop 32 c'\<rparr>"
    by (auto simp: wl_decode_def rbind_eq_Inr PUBKEY_LEN_def SIG_LEN_def split: if_splits)
  have "drop 8 buf = u32_be n @ c" using u32_codec.dec_sound[OF d(1)] by simp
  moreover have "list_all wl_entry_ok es" "length es = unat n" "c = concat (map wl_entry_be es) @ c'"
    using wl_entry_codec.many_sound[OF d(2)] by auto
  moreover have "buf = WL_MAGIC @ drop 8 buf" using g(2) append_take_drop_id[of 8 buf] by simp
  ultimately show ?thesis
    using d(3,4) unat_u_less(2)[of n]
    by (simp add: wl_ok_def wl_encode_def encode_signed_blob_def)
qed

lemma signed_blob_inject:
  assumes "list_all wl_entry_ok es" and "list_all wl_entry_ok es'"
    and "length es < 2 ^ 32" and "length es' < 2 ^ 32"
    and "encode_signed_blob es a = encode_signed_blob es' a'"
  shows "es = es' \<and> a = a'"
proof -
  let ?d = "\<lambda>c. rbind (c_u32 c) (\<lambda>(n, c). c_many c_wl_entry (unat n) c)"
  have "?d (encode_signed_blob es a) = Inr (es, a)" if "list_all wl_entry_ok es" "length es < 2 ^ 32" for es a
    using that wl_entry_codec.many_enc[OF that(1) refl, of a] by (simp add: encode_signed_blob_def)
  with assms have "(Inr (es, a) :: (io_error, _) res) = Inr (es', a')" by metis
  then show ?thesis by simp
qed

text \<open>No whitelist message is a challenge message: the two domains differ at their eighth byte.\<close>

lemma domains_disjoint: "DOMAIN_WHITELIST @ b \<noteq> DOMAIN_AUTH @ b'"
proof
  assume "DOMAIN_WHITELIST @ b = DOMAIN_AUTH @ b'"
  then have "(DOMAIN_WHITELIST @ b) ! 7 = (DOMAIN_AUTH @ b') ! 7" by simp
  then show False by (simp add: DOMAIN_WHITELIST_def DOMAIN_AUTH_def as_bytes_def)
qed

section \<open>What is assumed of Ed25519\<close>

definition ed_correct :: "ed25519 \<Rightarrow> bytes \<Rightarrow> bool" where
  "ed_correct ed sk \<longleftrightarrow> ed_key_ok ed (ed_pub ed sk) \<and> length (ed_pub ed sk) = 32 \<and>
     (\<forall>m. length (ed_sign ed sk m) = 64 \<and> ed_verify ed (ed_pub ed sk) m (ed_sign ed sk m))"

definition ed_unforged :: "ed25519 \<Rightarrow> bytes \<Rightarrow> bytes set \<Rightarrow> bool" where
  "ed_unforged ed sk msgs \<longleftrightarrow> (\<forall>m sig. ed_verify ed (ed_pub ed sk) m sig \<longrightarrow> m \<in> msgs)"

text \<open>The messages a key owner signs: whitelists of the lists \<open>W\<close> and challenges of the nonces \<open>N\<close>.\<close>

definition signed_by :: "ed25519 \<Rightarrow> bytes \<Rightarrow> wl_entry list set \<Rightarrow> bytes set \<Rightarrow> bytes set" where
  "signed_by ed sk W N =
     {DOMAIN_WHITELIST @ encode_signed_blob es (ed_pub ed sk) | es. es \<in> W} \<union> {DOMAIN_AUTH @ n | n. n \<in> N}"

text \<open>A toy scheme for the witnesses, in which exactly the messages of a list verify.\<close>

definition toy_ed :: "(bytes \<Rightarrow> bool) \<Rightarrow> ed25519" where
  "toy_ed P = \<lparr>ed_pub = (\<lambda>_. replicate 32 1), ed_sign = (\<lambda>_ _. replicate 64 2),
     ed_key_ok = (\<lambda>_. True), ed_verify = (\<lambda>_ m _. P m)\<rparr>"

lemma toy_ed_sel [simp]:
  "ed_pub (toy_ed P) sk = replicate 32 1" "ed_sign (toy_ed P) sk m = replicate 64 2"
  "ed_key_ok (toy_ed P) pk" "ed_verify (toy_ed P) pk m s = P m"
  by (simp_all add: toy_ed_def)

section \<open>Properties\<close>

text \<open>the whitelist file is canonical and its own signature verifies. Decoding accepts exactly the
  encodings of representable whitelists, and nothing trailing; and a whitelist that the admin signs
  comes back from its file and verifies, with or without the expected key.\<close>

theorem whitelist_roundtrip:
  assumes "ed_correct ed sk" and "list_all wl_entry_ok es" and "length es < 2 ^ 32"
  shows "(wl_decode buf = Inr w \<longleftrightarrow> wl_ok w \<and> buf = wl_encode w) \<and>
    wl_decode (wl_encode (wl_sign ed es sk)) = Inr (wl_sign ed es sk) \<and>
    wl_verify ed (Some (pubkey ed sk)) (wl_sign ed es sk) \<and> wl_verify ed None (wl_sign ed es sk)"
proof (intro conjI)
  show "wl_decode buf = Inr w \<longleftrightarrow> wl_ok w \<and> buf = wl_encode w"
    using wl_decode_encode wl_decode_sound by blast
  have "wl_ok (wl_sign ed es sk)"
    using assms by (simp add: wl_ok_def wl_sign_def Let_def ed_correct_def pubkey_def sign_blob_def)
  then show "wl_decode (wl_encode (wl_sign ed es sk)) = Inr (wl_sign ed es sk)" by (rule wl_decode_encode)
qed (use assms(1) in \<open>simp_all add: wl_verify_def wl_sign_def Let_def verify_blob_def sign_blob_def
    pubkey_def ed_correct_def\<close>)

theorem whitelist_roundtrip_witness:
  "wl_decode (wl_encode (wl_sign (toy_ed (\<lambda>_. True)) [\<lparr>wl_addr = ''n1'', wl_pubkey = replicate 32 9, wl_zone = 3\<rparr>] [5])) =
     Inr (wl_sign (toy_ed (\<lambda>_. True)) [\<lparr>wl_addr = ''n1'', wl_pubkey = replicate 32 9, wl_zone = 3\<rparr>] [5])"
  using whitelist_roundtrip[of "toy_ed (\<lambda>_. True)" "[5]" "[\<lparr>wl_addr = ''n1'', wl_pubkey = replicate 32 9, wl_zone = 3\<rparr>]"]
  by (simp add: ed_correct_def wl_entry_ok_def str16_ok_def str_ok_def as_bytes_def)



end
