(* ===== verification/Text.thy ===== *)
theory Text
  imports Rlnc Placement
begin

text \<open>
  \<open>holofs-codec/src/text_codec.rs\<close> and \<open>holofs-analytics/src/shingle.rs\<close>: the text object format and its
  similarity sketch.

  \<open>split_text\<close> cuts a text at \<open>K - 1\<close> character boundaries and pads the pieces; the lemmas show that the
  pieces are in range (the slices cannot panic), are themselves valid UTF-8 and concatenate to the text,
  so that \<open>assemble\<close> gives the text back, with a marker for every missing piece. \<open>compute_minhash\<close> is the
  bottom-64 sketch of the byte 5-grams and \<open>jaccard_counts\<close> the merge that estimates the similarity of
  two sketches; the final division of its two counts in \<open>f32\<close> is left out.
\<close>

section \<open>Splitting a text\<close>

definition MISSING_MARKER :: bytes where
  "MISSING_MARKER = 10 # as_bytes ''[--missing chunk #''"

definition MISSING_MARKER_END :: bytes where
  "MISSING_MARKER_END = as_bytes '' not recoverable--]'' @ [10]"

definition is_char_boundary :: "bytes \<Rightarrow> nat \<Rightarrow> bool" where
  "is_char_boundary bs s \<longleftrightarrow> s = 0 \<or> s = length bs \<or> (s < length bs \<and> \<not> cont_byte (bs ! s))"

text \<open>\<open>while *s < n && !text.is_char_boundary(*s)\<close>.\<close>

function to_boundary :: "bytes \<Rightarrow> nat \<Rightarrow> nat" where
  "to_boundary bs s = (if s < length bs \<and> \<not> is_char_boundary bs s then to_boundary bs (s + 1) else s)"
  by pat_completeness auto
termination by (relation "measure (\<lambda>(bs, s). length bs - s)") auto

declare to_boundary.simps [simp del]

record text_split =
  ts_padded :: bytes
  ts_sym_len :: nat
  ts_chunk_lens :: "u32 list"

definition text_splits :: "bytes \<Rightarrow> nat list" where
  "text_splits bs =
     (let splits = map (\<lambda>i. i * length bs div K) [0..<K + 1];
          splits = map (\<lambda>i. if 1 \<le> i \<and> i < K then to_boundary bs (splits ! i) else splits ! i) [0..<K + 1]
      in splits[0 := 0, K := length bs])"

text \<open>A slice \<open>bytes[a..b]\<close> with \<open>a > b\<close> or \<open>b > len\<close> panics.\<close>

definition text_chunks :: "bytes \<Rightarrow> ('e, bytes list) res" where
  "text_chunks bs = (let splits = text_splits bs in
     rmap (\<lambda>i. rbind (rassert (splits ! i \<le> splits ! (i + 1) \<and> splits ! (i + 1) \<le> length bs))
       (\<lambda>_. Inr (slice bs (splits ! i) (splits ! (i + 1))))) [0..<K])"

definition split_text :: "string \<Rightarrow> ('e, text_split) res" where
  "split_text text =
     (let bs = as_bytes text in
      rbind (text_chunks bs) (\<lambda>chunks.
        let max_len = max (fold max (map length chunks) 0) 1;
            chunk_lens = map (\<lambda>c. word_of_nat (length c)) chunks;
            padded = concat (map (pad_to max_len) chunks)
        in Inr \<lparr>ts_padded = padded, ts_sym_len = max_len, ts_chunk_lens = chunk_lens\<rparr>))"

section \<open>Reassembling it\<close>

text \<open>\<open>usize::to_string\<close>.\<close>

fun dec_string :: "nat \<Rightarrow> string" where
  "dec_string n = (if n < 10 then [''0123456789'' ! n] else dec_string (n div 10) @ [''0123456789'' ! (n mod 10)])"

declare dec_string.simps [simp del]

definition missing_text :: "nat \<Rightarrow> bytes" where
  "missing_text i = MISSING_MARKER @ as_bytes (dec_string i) @ MISSING_MARKER_END"

definition assemble_step :: "u32 list \<Rightarrow> bytes \<times> nat \<Rightarrow> nat \<times> bytes option \<Rightarrow> bytes \<times> nat" where
  "assemble_step chunk_lens st ic = (case st of (out, holes) \<Rightarrow> (case ic of (i, c) \<Rightarrow>
     (case c of
        Some bs \<Rightarrow>
          let real_len = (if i < length chunk_lens then unat (chunk_lens ! i)
                          else unat (word_of_nat (length bs) :: u32))
          in (out @ take (min real_len (length bs)) bs, holes)
      | None \<Rightarrow> (out @ missing_text i, holes + 1))))"

definition assemble :: "bytes option list \<Rightarrow> u32 list \<Rightarrow> bytes \<times> nat" where
  "assemble chunks chunk_lens =
     fold (\<lambda>ic st. assemble_step chunk_lens st ic) (zip [0..<length chunks] chunks) ([], 0)"

section \<open>Character boundaries\<close>

lemma utf8_width_cont:
  assumes "utf8_width bs = Some n" and "0 < i" and "i < n" shows "cont_byte (bs ! i)"
proof -
  have "n \<le> 4" using assms(1) by (auto simp: utf8_width_def split: list.splits if_splits)
  then have "i = 1 \<or> i = 2 \<or> i = 3" using assms(2,3) by auto
  then show ?thesis using assms(1,3) by (auto simp: utf8_width_def split: list.splits if_splits)
qed

lemma utf8_width_take:
  assumes "utf8_width bs = Some n" and "n \<le> s" shows "utf8_width (take s bs) = Some n"
proof -
  have "n \<le> 4" "0 < n" using assms(1) by (auto simp: utf8_width_def split: list.splits if_splits)
  then obtain b0 r where bs: "bs = b0 # r" using assms(1) by (cases bs) (auto simp: utf8_width_def)
  have s: "s = Suc (s - 1)" using assms(2) \<open>0 < n\<close> by simp
  show ?thesis
    using assms unfolding bs
    by (subst s) (auto simp: utf8_width_def take_Cons' split: list.splits if_splits)
qed

lemma utf8_valid_step:
  assumes "utf8_width bs = Some n" shows "utf8_valid bs = utf8_valid (drop n bs)"
  using assms utf8_width_le[OF assms] utf8_width_pos[OF assms]
  by (subst utf8_valid.simps) (cases bs; simp)

lemma utf8_split:
  assumes "utf8_valid bs" and "is_char_boundary bs s"
  shows "utf8_valid (take s bs) \<and> utf8_valid (drop s bs)"
  using assms
proof (induction bs arbitrary: s rule: utf8_valid.induct)
  case (1 bs)
  show ?case
  proof (cases "bs = [] \<or> s = 0")
    case False
    then obtain n where n: "utf8_width bs = Some n" "utf8_valid (drop n bs)"
      using 1(2) by (subst (asm) utf8_valid.simps) (auto split: option.splits)
    note nb = utf8_width_le[OF n(1)] utf8_width_pos[OF n(1)]
    have s: "n \<le> s"
    proof (rule ccontr)
      assume "\<not> n \<le> s"
      then have "cont_byte (bs ! s)" "s < length bs" using utf8_width_cont[OF n(1), of s] False nb by auto
      with 1(3) False show False by (auto simp: is_char_boundary_def)
    qed
    then have "is_char_boundary (drop n bs) (s - n)"
      using 1(3) nb False by (auto simp: is_char_boundary_def)
    with 1(1)[OF _ n(1)] n(2) False have IH: "utf8_valid (take (s - n) (drop n bs))" "utf8_valid (drop (s - n) (drop n bs))"
      by auto
    have "utf8_valid (take s bs) = utf8_valid (drop n (take s bs))"
      by (rule utf8_valid_step[OF utf8_width_take[OF n(1) s]])
    with IH s show ?thesis by (simp add: drop_take)
  qed (use 1(2) in auto)
qed

lemma to_boundary_props:
  "s \<le> to_boundary bs s \<and> (s \<le> length bs \<longrightarrow> to_boundary bs s \<le> length bs \<and> is_char_boundary bs (to_boundary bs s))
   \<and> (\<forall>t. s \<le> t \<longrightarrow> t \<le> length bs \<longrightarrow> is_char_boundary bs t \<longrightarrow> to_boundary bs s \<le> t)"
proof (induction bs s rule: to_boundary.induct)
  case (1 bs s)
  show ?case
  proof (cases "s < length bs \<and> \<not> is_char_boundary bs s")
    case True
    have e: "to_boundary bs s = to_boundary bs (s + 1)" using True by (subst to_boundary.simps) simp
    have "s + 1 \<le> t" if "s \<le> t" "is_char_boundary bs t" for t using that True by (cases "t = s") auto
    with 1[OF True] True show ?thesis unfolding e by (auto simp: Suc_le_eq)
  next
    case False
    then have e: "to_boundary bs s = s" by (subst to_boundary.simps) auto
    show ?thesis unfolding e using False by (auto simp: is_char_boundary_def not_less)
  qed
qed

lemma to_boundary_mono: "s \<le> t \<Longrightarrow> t \<le> length bs \<Longrightarrow> to_boundary bs s \<le> to_boundary bs t"
  using to_boundary_props[of s bs] to_boundary_props[of t bs] by (meson le_trans)

lemma text_splits_props:
  assumes "utf8_valid bs"
  shows "text_splits bs ! 0 = 0" and "text_splits bs ! K = length bs"
    and "i < K \<Longrightarrow> text_splits bs ! i \<le> text_splits bs ! (i + 1)"
    and "i \<le> K \<Longrightarrow> text_splits bs ! i \<le> length bs \<and> is_char_boundary bs (text_splits bs ! i)"
proof -
  let ?n = "length bs"
  have v: "text_splits bs ! i = (if i = 0 then 0 else if i = K then ?n else to_boundary bs (i * ?n div K))"
    if "i \<le> K" for i
    using that by (simp add: text_splits_def Let_def nth_list_update K_def del: upt_Suc)
  show "text_splits bs ! 0 = 0" "text_splits bs ! K = ?n" by (simp_all add: v K_def)
  have b: "i * ?n div K \<le> ?n" if "i \<le> K" for i
  proof -
    have "i * ?n div K \<le> K * ?n div K" by (rule div_le_mono) (rule mult_le_mono1[OF that])
    then show ?thesis by (simp add: K_def)
  qed
  have tb: "to_boundary bs (i * ?n div K) \<le> ?n" if "i \<le> K" for i
    using to_boundary_props[of "i * ?n div K" bs] b[OF that] by blast
  show "text_splits bs ! i \<le> ?n \<and> is_char_boundary bs (text_splits bs ! i)" if "i \<le> K"
    using v[OF that] tb[OF that] to_boundary_props[of "i * ?n div K" bs] b[OF that]
    by (auto simp: is_char_boundary_def[of bs 0] is_char_boundary_def[of bs ?n])
  show "text_splits bs ! i \<le> text_splits bs ! (i + 1)" if i: "i < K"
  proof -
    have m: "i * ?n div K \<le> (i + 1) * ?n div K" by (rule div_le_mono) simp
    have "to_boundary bs (i * ?n div K) \<le> to_boundary bs ((i + 1) * ?n div K)"
      using to_boundary_mono[OF m b] i by simp
    then show ?thesis using v[of i] v[of "i + 1"] i tb[of i] by auto
  qed
qed

definition text_pieces :: "bytes \<Rightarrow> bytes list" where
  "text_pieces bs = map (\<lambda>i. slice bs (text_splits bs ! i) (text_splits bs ! (i + 1))) [0..<K]"

lemma text_chunks_ok:
  assumes "utf8_valid bs" shows "text_chunks bs = (Inr (text_pieces bs) :: ('e, _) res)"
  unfolding text_chunks_def Let_def text_pieces_def
proof (rule rmap_Inr)
  fix i assume "i \<in> set [0..<K]"
  then have "i < K" "i + 1 \<le> K" by simp_all
  with text_splits_props(3,4)[OF assms] have "text_splits bs ! i \<le> text_splits bs ! (i + 1) \<and> text_splits bs ! (i + 1) \<le> length bs"
    by blast
  then have r: "rassert (text_splits bs ! i \<le> text_splits bs ! (i + 1) \<and> text_splits bs ! (i + 1) \<le> length bs) = Inr ()"
    by (simp only: rassert_simps simp_thms)
  show "rbind (rassert (text_splits bs ! i \<le> text_splits bs ! (i + 1) \<and> text_splits bs ! (i + 1) \<le> length bs))
      (\<lambda>_. Inr (slice bs (text_splits bs ! i) (text_splits bs ! (i + 1)))) =
    Inr (slice bs (text_splits bs ! i) (text_splits bs ! (i + 1)))"
    unfolding r by (rule rbind_Inr)
qed

lemma concat_slices:
  "\<forall>i < m. f i \<le> f (i + 1) \<Longrightarrow> f 0 = 0 \<Longrightarrow> f m \<le> length bs \<Longrightarrow>
     concat (map (\<lambda>i. slice bs (f i) (f (i + 1))) [0..<m]) = take (f m) bs"
proof (induction m)
  case (Suc m)
  then have le: "f m \<le> f (m + 1)" and IH: "concat (map (\<lambda>i. slice bs (f i) (f (i + 1))) [0..<m]) = take (f m) bs"
    by (auto intro: Suc.IH)
  have "take (f m) bs @ take (f (m + 1) - f m) (drop (f m) bs) = take (f m + (f (m + 1) - f m)) bs"
    by (rule take_add[symmetric])
  with IH le show ?case by (simp add: slice_def)
qed simp

lemma concat_text_pieces: assumes "utf8_valid bs" shows "concat (text_pieces bs) = bs"
proof -
  note p = text_splits_props[OF assms]
  have "concat (text_pieces bs) = take (text_splits bs ! K) bs"
    unfolding text_pieces_def
  proof (rule concat_slices)
    show "\<forall>i < K. text_splits bs ! i \<le> text_splits bs ! (i + 1)" using p(3) by blast
    show "text_splits bs ! 0 = 0" "text_splits bs ! K \<le> length bs" using p(1,2) by (simp_all only: order.refl)
  qed
  then show ?thesis by (simp add: p(2))
qed

lemma text_piece_valid:
  assumes "utf8_valid bs" and "c \<in> set (text_pieces bs)" shows "utf8_valid c"
proof -
  obtain i where i: "i < K" "c = slice bs (text_splits bs ! i) (text_splits bs ! (i + 1))"
    using assms(2) by (auto simp: text_pieces_def)
  let ?a = "text_splits bs ! i" and ?b = "text_splits bs ! (i + 1)"
  have ab: "?a \<le> ?b" "is_char_boundary bs ?a" "is_char_boundary bs ?b" "?b \<le> length bs"
    using text_splits_props(3,4)[OF assms(1), of i] text_splits_props(4)[OF assms(1), of "i + 1"] i(1) by auto
  have "utf8_valid (take ?b bs)" using utf8_split[OF assms(1) ab(3)] by blast
  moreover have "is_char_boundary (take ?b bs) ?a"
    using ab by (auto simp: is_char_boundary_def)
  ultimately have "utf8_valid (drop ?a (take ?b bs))" using utf8_split by blast
  then show ?thesis by (simp add: i(2) slice_def drop_take)
qed

section \<open>The pieces come back\<close>

lemma chunk_concat:
  "i < length xs \<Longrightarrow> \<forall>x \<in> set xs. length x = sl \<Longrightarrow> chunk (concat xs) sl i = xs ! i"
proof (induction xs arbitrary: i)
  case (Cons x xs)
  then show ?case by (cases i) (auto simp: chunk_def slice_def)
qed simp

lemma fold_max_bound: "x \<in> set xs \<or> x \<le> a \<Longrightarrow> x \<le> fold max xs (a :: nat)"
proof (induction xs arbitrary: a)
  case (Cons y ys)
  then show ?case using Cons.IH[of "max y a"] by (auto simp: le_max_iff_disj)
qed simp

definition piece_or_marker :: "bytes list \<Rightarrow> (nat \<Rightarrow> bool) \<Rightarrow> nat \<Rightarrow> bytes" where
  "piece_or_marker ps lost i = (if lost i then missing_text i else ps ! i)"

lemma assemble_prefix:
  assumes "\<forall>p \<in> set ps. length p \<le> sl \<and> length p < 2 ^ 32" and "m \<le> length ps"
  shows "fold (\<lambda>ic st. assemble_step (map (\<lambda>p. word_of_nat (length p)) ps) st ic)
      (map (\<lambda>i. (i, if lost i then None else Some (pad_to sl (ps ! i)))) [0..<m]) ([], 0) =
    (concat (map (piece_or_marker ps lost) [0..<m]), length (filter lost [0..<m]))"
  using assms(2)
proof (induction m)
  case (Suc m)
  then have "ps ! m \<in> set ps" by simp
  with assms(1) have "length (ps ! m) \<le> sl" "length (ps ! m) < 2 ^ 32" by auto
  moreover have "take (length (ps ! m)) (pad_to sl (ps ! m)) = ps ! m"
    using calculation(1) by (rule take_pad_to)
  ultimately show ?case
    using Suc by (simp add: assemble_step_def piece_or_marker_def Let_def)
qed simp

lemma split_assemble_spec:
  assumes "str_ok text" and "length text < 2 ^ 32"
  shows "\<exists>ts ps. split_text text = (Inr ts :: ('e, _) res) \<and> 0 < ts_sym_len ts \<and>
    length ps = K \<and> concat ps = as_bytes text \<and> list_all utf8_valid ps \<and>
    length (ts_padded ts) = K * ts_sym_len ts \<and>
    chunks_of K (ts_sym_len ts) (ts_padded ts) = map (pad_to (ts_sym_len ts)) ps \<and>
    (\<forall>lost. assemble (map (\<lambda>i. if lost i then None else Some (chunks_of K (ts_sym_len ts) (ts_padded ts) ! i)) [0..<K])
        (ts_chunk_lens ts) =
      (concat (map (piece_or_marker ps lost) [0..<K]), length (filter lost [0..<K])))"
proof -
  let ?bs = "as_bytes text"
  have v: "utf8_valid ?bs" using assms(1) by (simp add: str_ok_def)
  define ps where "ps = text_pieces ?bs"
  define sl where "sl = max (fold max (map length ps) 0) 1"
  have lps: "length ps = K" by (simp add: ps_def text_pieces_def)
  have le: "length p \<le> sl" if "p \<in> set ps" for p
    using fold_max_bound[of "length p" "map length ps" 0] that by (simp add: sl_def)
  have cat: "concat ps = ?bs" unfolding ps_def by (rule concat_text_pieces[OF v])
  have small: "length p < 2 ^ 32" if "p \<in> set ps" for p
  proof -
    have "length p \<le> sum_list (map length ps)" using that by (simp add: member_le_sum_list)
    also have "\<dots> = length text" using arg_cong[OF cat, of length] by (simp add: length_concat)
    finally show ?thesis using assms(2) by simp
  qed
  let ?ts = "\<lparr>ts_padded = concat (map (pad_to sl) ps), ts_sym_len = sl, ts_chunk_lens = map (\<lambda>c. word_of_nat (length c)) ps\<rparr>"
  have s: "split_text text = (Inr ?ts :: ('e, _) res)"
    using text_chunks_ok[OF v, where 'e = 'e] by (simp add: split_text_def Let_def ps_def sl_def)
  have lens: "\<forall>x \<in> set (map (pad_to sl) ps). length x = sl" by simp
  have ch: "chunks_of K sl (concat (map (pad_to sl) ps)) = map (pad_to sl) ps"
    using lens lps by (intro nth_equalityI) (simp_all add: chunks_of_def chunk_concat)
  have "assemble (map (\<lambda>i. if lost i then None else Some (map (pad_to sl) ps ! i)) [0..<K]) (map (\<lambda>c. word_of_nat (length c)) ps) =
      (concat (map (piece_or_marker ps lost) [0..<K]), length (filter lost [0..<K]))" for lost
  proof -
    have z: "zip [0..<K] (map (\<lambda>i. if lost i then None else Some (map (pad_to sl) ps ! i)) [0..<K]) =
        map (\<lambda>i. (i, if lost i then None else Some (pad_to sl (ps ! i)))) [0..<K]"
      using lps by (intro nth_equalityI) simp_all
    show ?thesis
      unfolding assemble_def length_map length_upt diff_zero z
      by (rule assemble_prefix) (use le small lps in auto)
  qed
  moreover have "length (concat (map (pad_to sl) ps)) = K * sl"
    using lps by (simp add: length_concat o_def sum_list_triv)
  moreover have "list_all utf8_valid ps" using text_piece_valid[OF v] by (simp add: list_all_iff ps_def)
  moreover have "0 < sl" by (simp add: sl_def)
  ultimately show ?thesis
    using s cat lps ch by (intro exI[of _ ?ts] exI[of _ ps]) (simp cong: if_cong)
qed

section \<open>MinHash\<close>

definition SHINGLE_SIZE :: nat where "SHINGLE_SIZE = 5"
definition MINHASH_K :: nat where "MINHASH_K = 64"

definition fnv1a :: "bytes \<Rightarrow> u32" where
  "fnv1a bs = fold (\<lambda>b h. (h XOR ucast b) * 0x01000193) bs 0x811c9dc5"

definition shingle_hashes :: "bytes \<Rightarrow> u32 list" where
  "shingle_hashes bs =
     (if length bs < SHINGLE_SIZE then [fnv1a bs]
      else map (\<lambda>i. fnv1a (slice bs i (i + SHINGLE_SIZE))) [0..<length bs - SHINGLE_SIZE + 1])"

definition compute_minhash :: "string \<Rightarrow> u32 list" where
  "compute_minhash text =
     (let bs = as_bytes text in
      if bs = [] then [] else take MINHASH_K (remdups_adj (sort (shingle_hashes bs))))"

text \<open>The merge loop; \<open>a\<close> and \<open>b\<close> are what is left of the two sketches.\<close>

definition push_new :: "u32 list \<Rightarrow> u32 \<Rightarrow> u32 list" where
  "push_new acc x = (if acc \<noteq> [] \<and> last acc = x then acc else acc @ [x])"

function jac_merge :: "nat \<Rightarrow> u32 list \<Rightarrow> u32 list \<Rightarrow> u32 list \<Rightarrow> u32 list" where
  "jac_merge k a b acc =
     (if length acc < k then
        (case (a, b) of
           (x # a', y # b') \<Rightarrow>
             if x < y then jac_merge k a' b (push_new acc x)
             else if x > y then jac_merge k a b' (push_new acc y)
             else jac_merge k a' b' (push_new acc x)
         | (x # a', []) \<Rightarrow> jac_merge k a' b (push_new acc x)
         | ([], y # b') \<Rightarrow> jac_merge k a b' (push_new acc y)
         | ([], []) \<Rightarrow> acc)
      else acc)"
  by pat_completeness auto
termination by (relation "measure (\<lambda>(k, a, b, acc). length a + length b)") auto

declare jac_merge.simps [simp del]

definition jaccard_counts :: "u32 list \<Rightarrow> u32 list \<Rightarrow> (nat \<times> nat) option" where
  "jaccard_counts a b =
     (if a = [] \<or> b = [] then None
      else let k = min (min MINHASH_K (length a)) (length b);
               union_topk = jac_merge k a b [];
               in_both = filter (\<lambda>h. binary_search a h 0 (length a) \<and> binary_search b h 0 (length b)) union_topk
           in Some (length in_both, length union_topk))"

section \<open>Bottom-k sets\<close>

definition bottom :: "nat \<Rightarrow> u32 set \<Rightarrow> u32 set" where
  "bottom k A = {h \<in> A. card {x \<in> A. x < h} < k}"

definition bottom_list :: "nat \<Rightarrow> u32 set \<Rightarrow> u32 list" where
  "bottom_list k A = take k (sorted_list_of_set A)"

lemma set_bottom_list:
  assumes "finite A" shows "set (bottom_list k A) = bottom k A"
proof -
  let ?xs = "sorted_list_of_set A"
  have xs: "sorted_wrt (<) ?xs" "set ?xs = A" "distinct ?xs" using assms by simp_all
  have below: "{x \<in> A. x < ?xs ! i} = (!) ?xs ` {..<i}" if "i < length ?xs" for i
  proof (intro set_eqI iffI)
    fix x assume "x \<in> {x \<in> A. x < ?xs ! i}"
    then have x: "x \<in> set ?xs" "x < ?xs ! i" using xs(2) by simp_all
    then obtain j where j: "j < length ?xs" "?xs ! j = x" unfolding in_set_conv_nth by blast
    note j = j(1) j(2)[symmetric] x(2)[folded j(2)]
    then have "j < i" using sorted_wrt_nth_less[OF xs(1), of i j] that by (metis linorder_neqE_nat order_less_asym)
    with j show "x \<in> (!) ?xs ` {..<i}" by simp
  next
    fix x assume "x \<in> (!) ?xs ` {..<i}"
    then obtain j where "j < i" "x = ?xs ! j" by auto
    with that sorted_wrt_nth_less[OF xs(1), of j i] xs(2) show "x \<in> {x \<in> A. x < ?xs ! i}"
      using nth_mem[of j ?xs] by auto
  qed
  have card: "card {x \<in> A. x < ?xs ! i} = i" if "i < length ?xs" for i
  proof -
    have "inj_on ((!) ?xs) {..<i}" using xs(3) that by (auto simp: inj_on_def nth_eq_iff_index_eq)
    then show ?thesis using below[OF that] by (simp add: card_image)
  qed
  show ?thesis
  proof (intro set_eqI iffI)
    fix h assume "h \<in> set (bottom_list k A)"
    then obtain i where "i < k" "i < length ?xs" "h = ?xs ! i"
      by (auto simp: bottom_list_def in_set_conv_nth)
    then show "h \<in> bottom k A" using card xs(2) nth_mem[of i ?xs] by (auto simp: bottom_def)
  next
    fix h assume h: "h \<in> bottom k A"
    then have "h \<in> set ?xs" using xs(2) by (simp add: bottom_def)
    then obtain i where i: "i < length ?xs" "?xs ! i = h" unfolding in_set_conv_nth by blast
    note i = i(1) i(2)[symmetric]
    with card[OF i(1)] h have "i < length (bottom_list k A)" "bottom_list k A ! i = h"
      by (simp_all add: bottom_list_def bottom_def)
    then show "h \<in> set (bottom_list k A)" using nth_mem by blast
  qed
qed

lemma bottom_list_strict: "sorted_wrt (<) (bottom_list k A)"
  by (simp add: bottom_list_def sorted_wrt_take)

lemma strict_sorted_unique: "sorted_wrt (<) xs \<Longrightarrow> sorted_wrt (<) ys \<Longrightarrow> set xs = set ys \<Longrightarrow> xs = (ys :: u32 list)"
  by (metis strict_sorted_equal)

lemma bottom_subset: "bottom k A \<subseteq> A"
  by (auto simp: bottom_def)

lemma card_bottom: "finite A \<Longrightarrow> card (bottom k A) = min k (card A)"
  using set_bottom_list[of A k] distinct_card[of "bottom_list k A"]
  by (metis bottom_list_def distinct_take distinct_sorted_list_of_set length_sorted_list_of_set length_take min.commute)

text \<open>The sketch of a union is determined by the sketches of the parts.\<close>

lemma bottom_union:
  assumes fin: "finite A" "finite B" and "k \<le> m"
  shows "bottom k (bottom m A \<union> bottom m B) = bottom k (A \<union> B)"
proof (intro equalityI subsetI)
  let ?U = "A \<union> B" and ?V = "bottom m A \<union> bottom m B"
  have VU: "?V \<subseteq> ?U" using bottom_subset by blast
  have fU: "finite ?U" using fin by simp
  show sub: "h \<in> bottom k ?V" if h: "h \<in> bottom k ?U" for h
  proof -
    have lt: "card {x \<in> ?U. x < h} < k" "h \<in> ?U" using h by (auto simp: bottom_def)
    have "card {x \<in> C. x < h} < m" if "C \<subseteq> ?U" for C
      using card_mono[of "{x \<in> ?U. x < h}" "{x \<in> C. x < h}"] that fU lt(1) assms(3) by fastforce
    then have "h \<in> ?V" using lt(2) by (auto simp: bottom_def)
    moreover have "card {x \<in> ?V. x < h} \<le> card {x \<in> ?U. x < h}"
      using VU fU by (intro card_mono) auto
    ultimately show ?thesis using lt(1) by (simp add: bottom_def)
  qed
  fix h assume h: "h \<in> bottom k ?V"
  show "h \<in> bottom k ?U"
  proof (rule ccontr)
    assume "h \<notin> bottom k ?U"
    with h VU have ge: "k \<le> card {x \<in> ?U. x < h}" by (auto simp: bottom_def)
    have "bottom k ?U \<subseteq> {x \<in> ?V. x < h}"
    proof
      fix s assume s: "s \<in> bottom k ?U"
      have "s < h"
      proof (rule ccontr)
        assume "\<not> s < h"
        then have "{x \<in> ?U. x < h} \<subseteq> {x \<in> ?U. x < s}" by auto
        then have "card {x \<in> ?U. x < h} \<le> card {x \<in> ?U. x < s}" using fU by (intro card_mono) auto
        with ge s show False by (simp add: bottom_def)
      qed
      with sub[OF s] show "s \<in> {x \<in> ?V. x < h}" by (simp add: bottom_def)
    qed
    moreover have "finite {x \<in> ?V. x < h}" using VU fU by (auto intro: finite_subset)
    ultimately have "card (bottom k ?U) \<le> card {x \<in> ?V. x < h}" by (rule card_mono[rotated])
    moreover have "card {x \<in> ?U. x < h} \<le> card ?U" by (rule card_mono[OF fU]) blast
    then have "k \<le> card ?U" using ge by (rule order.trans[rotated])
    ultimately show False using h card_bottom[OF fU, of k] by (simp add: bottom_def)
  qed
qed

section \<open>The merge computes the sketch of the union\<close>

lemma push_new_fresh: "\<forall>x \<in> set acc. x < y \<Longrightarrow> push_new acc y = acc @ [y]"
  by (auto simp: push_new_def)

lemma sorted_list_of_set_min:
  assumes "finite A" and "\<forall>y \<in> A. x < y"
  shows "sorted_list_of_set (insert x A) = x # sorted_list_of_set (A :: u32 set)"
  by (rule strict_sorted_unique) (use assms in \<open>simp_all del: sorted_list_of_set_insert_remove\<close>)

lemma bottom_list_min:
  assumes "finite A" and "\<forall>y \<in> A. x < y" and "0 < k"
  shows "bottom_list k (insert x A) = x # bottom_list (k - 1) A"
  unfolding bottom_list_def sorted_list_of_set_min[OF assms(1,2)] using assms(3) by (cases k) simp_all

lemma jac_merge_spec:
  assumes "sorted_wrt (<) a" and "sorted_wrt (<) b" and "\<forall>x \<in> set acc. \<forall>y \<in> set a \<union> set b. x < y"
  shows "jac_merge k a b acc = acc @ bottom_list (k - length acc) (set a \<union> set b)"
  using assms
proof (induction k a b acc rule: jac_merge.induct)
  case (1 k a b acc)
  note IH = "1.IH" and s = "1.prems"
  show ?case
  proof (cases "length acc < k")
    case False
    then show ?thesis by (subst jac_merge.simps) (simp add: bottom_list_def)
  next
    case lt: True
    have step: "acc @ bottom_list (k - length acc) (insert x A) = (acc @ [x]) @ bottom_list (k - length (acc @ [x])) A"
      if "finite A" "\<forall>y \<in> A. x < y" for x A
      using bottom_list_min[OF that, of "k - length acc"] lt by simp
    show ?thesis
    proof (cases a)
      case Nil
      show ?thesis
      proof (cases b)
        case (Cons y b')
        have p: "push_new acc y = acc @ [y]" using s(3) Cons by (intro push_new_fresh) auto
        have "jac_merge k [] b' (acc @ [y]) = (acc @ [y]) @ bottom_list (k - length (acc @ [y])) (set [] \<union> set b')"
          using IH(1)[OF lt refl Nil Cons] s Cons Nil p by auto
        moreover have "jac_merge k a b acc = jac_merge k [] b' (acc @ [y])"
          using lt Nil Cons p by (subst jac_merge.simps) simp
        ultimately show ?thesis using step[of "set b'" y] s(2) Cons Nil by simp
      qed (use Nil lt in \<open>subst jac_merge.simps, simp add: bottom_list_def\<close>)
    next
      case ca: (Cons x a')
      have px: "push_new acc x = acc @ [x]" using s(3) ca by (intro push_new_fresh) auto
      show ?thesis
      proof (cases b)
        case Nil
        have "jac_merge k a' [] (acc @ [x]) = (acc @ [x]) @ bottom_list (k - length (acc @ [x])) (set a' \<union> set [])"
          using IH(2)[OF lt refl ca Nil] s ca Nil px by auto
        moreover have "jac_merge k a b acc = jac_merge k a' [] (acc @ [x])"
          using lt Nil ca px by (subst jac_merge.simps) simp
        ultimately show ?thesis using step[of "set a'" x] s(1) ca Nil by simp
      next
        case cb: (Cons y b')
        have py: "push_new acc y = acc @ [y]" using s(3) cb by (intro push_new_fresh) auto
        consider "x < y" | "y < x" | "x = y" by (rule linorder_cases)
        then show ?thesis
        proof cases
          case 1
          have less: "\<forall>z \<in> set a' \<union> set b. x < z" using s(1,2) ca cb 1 by auto
          have "jac_merge k a' b (acc @ [x]) = (acc @ [x]) @ bottom_list (k - length (acc @ [x])) (set a' \<union> set b)"
            using IH(3)[OF lt refl ca cb 1] s ca cb px 1 less by auto
          moreover have "jac_merge k a b acc = jac_merge k a' b (acc @ [x])"
            using lt ca cb px 1 by (subst jac_merge.simps) simp
          ultimately show ?thesis using step[of "set a' \<union> set b" x] less ca by simp
        next
          case 2
          then have n: "\<not> x < y" by simp
          have less: "\<forall>z \<in> set a \<union> set b'. y < z" using s(1,2) ca cb 2 by auto
          have "jac_merge k a b' (acc @ [y]) = (acc @ [y]) @ bottom_list (k - length (acc @ [y])) (set a \<union> set b')"
            using IH(4)[OF lt refl ca cb n 2] s ca cb py 2 less by auto
          moreover have "jac_merge k a b acc = jac_merge k a b' (acc @ [y])"
            using lt ca cb py 2 n by (subst jac_merge.simps) simp
          ultimately show ?thesis using step[of "set a \<union> set b'" y] less cb by simp
        next
          case 3
          then have n: "\<not> x < y" "\<not> x > y" by simp_all
          have less: "\<forall>z \<in> set a' \<union> set b'. x < z" using s(1,2) ca cb 3 by auto
          have "jac_merge k a' b' (acc @ [x]) = (acc @ [x]) @ bottom_list (k - length (acc @ [x])) (set a' \<union> set b')"
            using IH(5)[OF lt refl ca cb n] s ca cb px 3 less by auto
          moreover have "jac_merge k a b acc = jac_merge k a' b' (acc @ [x])"
            using lt ca cb px 3 by (subst jac_merge.simps) simp
          ultimately show ?thesis using step[of "set a' \<union> set b'" x] less ca cb 3 by simp
        qed
      qed
    qed
  qed
qed

section \<open>Sketches of texts\<close>

definition shingles :: "string \<Rightarrow> u32 set" where
  "shingles text = (if text = [] then {} else set (shingle_hashes (as_bytes text)))"

lemma finite_shingles: "finite (shingles text)"
  by (simp add: shingles_def)

lemma as_bytes_Nil_iff [simp]: "as_bytes s = [] \<longleftrightarrow> s = []"
  by (simp add: as_bytes_def)

lemma strict_remdups_adj: "sorted xs \<Longrightarrow> sorted_wrt (<) (remdups_adj (xs :: u32 list))"
  by (induction xs rule: remdups_adj.induct) auto

lemma strict_remdups_adj_sort: "sorted_wrt (<) (remdups_adj (sort xs :: u32 list))"
  by (rule strict_remdups_adj) simp

lemma minhash_bottom: "compute_minhash text = bottom_list MINHASH_K (shingles text)"
proof (cases "text = []")
  case False
  have "remdups_adj (sort (shingle_hashes (as_bytes text))) = sorted_list_of_set (shingles text)"
    using False by (intro strict_sorted_unique strict_remdups_adj_sort) (simp_all add: shingles_def)
  with False show ?thesis by (simp add: compute_minhash_def bottom_list_def Let_def)
qed (simp add: compute_minhash_def bottom_list_def shingles_def Let_def)

lemma jaccard_spec:
  assumes "t \<noteq> []" and "u \<noteq> []"
  defines "k \<equiv> min MINHASH_K (min (card (shingles t)) (card (shingles u)))"
  shows "jaccard_counts (compute_minhash t) (compute_minhash u) =
    Some (card (bottom k (shingles t \<union> shingles u) \<inter> shingles t \<inter> shingles u), k)"
proof -
  let ?A = "shingles t" and ?B = "shingles u" and ?a = "compute_minhash t" and ?b = "compute_minhash u"
  have fin: "finite ?A" "finite ?B" "finite (?A \<union> ?B)" by (simp_all add: finite_shingles)
  have str: "sorted_wrt (<) ?a" "sorted_wrt (<) ?b" by (simp_all add: minhash_bottom bottom_list_strict)
  have sa: "set ?a = bottom MINHASH_K ?A" "set ?b = bottom MINHASH_K ?B"
    by (simp_all add: minhash_bottom set_bottom_list fin)
  have len: "length ?a = min (card ?A) MINHASH_K" "length ?b = min (card ?B) MINHASH_K"
    by (simp_all add: minhash_bottom bottom_list_def)
  have ne: "?A \<noteq> {}" "?B \<noteq> {}" using assms(1,2) by (auto simp: shingles_def shingle_hashes_def)
  then have nemp: "?a \<noteq> []" "?b \<noteq> []"
    using len fin by (auto simp: MINHASH_K_def simp flip: length_0_conv)
  have k: "min (min MINHASH_K (length ?a)) (length ?b) = k" by (simp add: len k_def min_def)
  have km: "k \<le> MINHASH_K" "k \<le> card ?A" by (simp_all add: k_def)
  define U where "U = jac_merge k ?a ?b []"
  have "U = bottom_list k (set ?a \<union> set ?b)" using jac_merge_spec[OF str, of "[]" k] by (simp add: U_def)
  then have sU: "set U = bottom k (?A \<union> ?B)" and dU: "distinct U"
    using set_bottom_list[of "set ?a \<union> set ?b" k] bottom_union[OF fin(1,2) km(1)]
    by (simp_all add: sa bottom_list_def)
  have "card (?A \<union> ?B) \<ge> card ?A" using fin by (intro card_mono) auto
  then have lU: "length U = k"
    using distinct_card[OF dU] card_bottom[OF fin(3), of k] km(2) by (simp add: sU)
  have mem: "h \<in> set ?a \<and> h \<in> set ?b \<longleftrightarrow> h \<in> ?A \<and> h \<in> ?B" if "h \<in> set U" for h
  proof -
    have lt: "card {x \<in> ?A \<union> ?B. x < h} < k" using that by (simp add: sU bottom_def)
    have "card {x \<in> C. x < h} < MINHASH_K" if "C \<subseteq> ?A \<union> ?B" for C
      using card_mono[of "{x \<in> ?A \<union> ?B. x < h}" "{x \<in> C. x < h}"] that fin(3) lt km(1) by fastforce
    then show ?thesis by (auto simp: sa bottom_def)
  qed
  have sorted: "sorted ?a" "sorted ?b" using str by (simp_all add: strict_sorted_imp_sorted)
  have "length (filter (\<lambda>h. binary_search ?a h 0 (length ?a) \<and> binary_search ?b h 0 (length ?b)) U) =
      card (set (filter (\<lambda>h. h \<in> set ?a \<and> h \<in> set ?b) U))"
    using distinct_card[of "filter (\<lambda>h. h \<in> set ?a \<and> h \<in> set ?b) U"] dU
    by (simp add: binary_search_iff[OF sorted(1)] binary_search_iff[OF sorted(2)])
  also have "set (filter (\<lambda>h. h \<in> set ?a \<and> h \<in> set ?b) U) = bottom k (?A \<union> ?B) \<inter> ?A \<inter> ?B"
    using mem sU by auto
  finally show ?thesis
    using nemp by (simp add: jaccard_counts_def k Let_def flip: U_def) (simp add: lU)
qed

section \<open>Properties\<close>

text \<open>text objects. Splitting a text never slices out of range; it yields \<open>K\<close> pieces of valid UTF-8
  that concatenate to the text, zero-padded to a common positive symbol length. Reassembling the padded
  pieces with any of them lost gives every surviving piece exactly, the marker of its index in place of
  every lost one, and the number of holes; with nothing lost, the text itself.\<close>

theorem text_split_assemble:
  assumes "str_ok text" and "length text < 2 ^ 32"
  shows "\<exists>ts ps. split_text text = (Inr ts :: ('e, _) res) \<and> 0 < ts_sym_len ts \<and>
    length ps = K \<and> concat ps = as_bytes text \<and> list_all utf8_valid ps \<and>
    length (ts_padded ts) = K * ts_sym_len ts \<and>
    chunks_of K (ts_sym_len ts) (ts_padded ts) = map (pad_to (ts_sym_len ts)) ps \<and>
    (\<forall>lost. assemble (map (\<lambda>i. if lost i then None else Some (chunks_of K (ts_sym_len ts) (ts_padded ts) ! i)) [0..<K])
        (ts_chunk_lens ts) =
      (concat (map (piece_or_marker ps lost) [0..<K]), length (filter lost [0..<K])))"
  using assms by (rule split_assemble_spec)

theorem text_split_assemble_witness:
  "\<exists>ts. split_text ''hello'' = (Inr ts :: (unit, _) res) \<and> length (ts_padded ts) = K * ts_sym_len ts"
proof -
  have "str_ok ''hello''" by (simp add: str_ok_def as_bytes_def)
  from text_split_assemble[OF this, where 'e = unit] show ?thesis by force
qed

text \<open>the similarity estimate. The sketch of a text is the list of its 64 smallest distinct shingle
  hashes in ascending order, and comparing two sketches counts exactly the members of both texts' shingle
  sets among the \<open>k\<close> smallest hashes of the union of the two sets: the sample the estimator needs,
  although only the sketches are read.\<close>

theorem minhash_jaccard:
  assumes "t \<noteq> []" and "u \<noteq> []"
  defines "k \<equiv> min MINHASH_K (min (card (shingles t)) (card (shingles u)))"
  shows "compute_minhash t = take MINHASH_K (sorted_list_of_set (shingles t)) \<and>
    jaccard_counts (compute_minhash t) (compute_minhash u) =
      Some (card (bottom k (shingles t \<union> shingles u) \<inter> shingles t \<inter> shingles u), k)"
  using jaccard_spec[OF assms(1,2)] minhash_bottom[of t] by (simp add: k_def bottom_list_def)

theorem minhash_jaccard_witness:
  "compute_minhash ''ab'' = take MINHASH_K (sorted_list_of_set (shingles ''ab''))"
  using minhash_jaccard[of "''ab''" "''cd''"] by simp

end
