(* ===== verification/Escrow.thy ===== *)
theory Escrow
  imports Decode Merkle Manifest
begin

text \<open>
  \<open>holofs-analytics/src/escrow.rs\<close>: splitting a file into self-contained \<open>.holoshare\<close> files and recovering
  it from them. The shares are the shards of \<open>encode_layer_with_k\<close> with metadata; recovery checks that
  they belong together, drops duplicates and runs \<open>decode_layer_with_k\<close> on the first \<open>k\<close>.

  The \<open>String\<close> errors are the constructors of \<open>escrow_error\<close>, one per message. The results: the share
  format is faithful and truncation is noticed; recovery from any selection of genuine shares never
  panics and returns the file or an error, and what decides between them; and each of the first \<open>k\<close> shares
  is a piece of the file in the clear.
\<close>

section \<open>Share files\<close>

datatype escrow_error =
    TooShort | BadMagic | Truncated | BadUtf8
  | NoShares | DifferentEscrows | Disagree | TooFew nat nat | TooFewUnique nat nat | Dependent

record escrow_params =
  es_k :: nat
  es_n :: nat
  es_content_type :: string
  es_filename :: string

record share_file =
  sf_escrow_id :: bytes
  sf_shard_idx :: u16
  sf_total_n :: u16
  sf_total_k :: u16
  sf_real_len :: u64
  sf_content_type :: string
  sf_filename :: string
  sf_coeffs :: bytes
  sf_payload :: bytes

definition SHARE_MAGIC :: bytes where "SHARE_MAGIC = as_bytes ''HOLOSHAR1''"

definition share_body :: "share_file \<Rightarrow> bytes" where
  "share_body s =
     sf_escrow_id s @ u16_be (sf_shard_idx s) @ u16_be (sf_total_n s) @ u16_be (sf_total_k s) @
     u64_be (sf_real_len s) @
     [word_of_nat (length (sf_content_type s))] @ as_bytes (sf_content_type s) @
     [word_of_nat (length (sf_filename s))] @ as_bytes (sf_filename s) @
     be_bytes 2 (length (sf_coeffs s)) @ sf_coeffs s @
     be_bytes 4 (length (sf_payload s)) @ sf_payload s"

definition share_encode :: "share_file \<Rightarrow> bytes" where
  "share_encode s = SHARE_MAGIC @ share_body s"

text \<open>\<open>need(p, n)?\<close> followed by the slice.\<close>

definition need :: "(io_error, 'a) res \<Rightarrow> (escrow_error, 'a) res" where
  "need m = map_err (\<lambda>_. Truncated) m"

definition need_str :: "nat \<Rightarrow> bytes \<Rightarrow> (escrow_error, string \<times> bytes) res" where
  "need_str n c = rbind (need (c_take n c)) (\<lambda>(bs, c).
     rbind (map_err (\<lambda>_. BadUtf8) (from_utf8 bs)) (\<lambda>s. Inr (s, c)))"

definition dec_share :: "bytes \<Rightarrow> (escrow_error, share_file \<times> bytes) res" where
  "dec_share c =
     rbind (need (c_take 16 c)) (\<lambda>(escrow_id, c).
     rbind (need (c_u16 c)) (\<lambda>(shard_idx, c).
     rbind (need (c_u16 c)) (\<lambda>(total_n, c).
     rbind (need (c_u16 c)) (\<lambda>(total_k, c).
     rbind (need (c_u64 c)) (\<lambda>(real_len, c).
     rbind (need (c_u8 c)) (\<lambda>(ctn, c).
     rbind (need_str (unat ctn) c) (\<lambda>(content_type, c).
     rbind (need (c_u8 c)) (\<lambda>(fnn, c).
     rbind (need_str (unat fnn) c) (\<lambda>(filename, c).
     rbind (need (c_u16 c)) (\<lambda>(cl, c).
     rbind (need (c_take (unat cl) c)) (\<lambda>(coeffs, c).
     rbind (need (c_u32 c)) (\<lambda>(pl, c).
     rbind (need (c_take (unat pl) c)) (\<lambda>(payload, c).
       Inr (\<lparr>sf_escrow_id = escrow_id, sf_shard_idx = shard_idx, sf_total_n = total_n, sf_total_k = total_k,
             sf_real_len = real_len, sf_content_type = content_type, sf_filename = filename,
             sf_coeffs = coeffs, sf_payload = payload\<rparr>, c))))))))))))))"

text \<open>\<open>ShareFile::decode\<close> ignores what follows the payload.\<close>

definition share_decode :: "bytes \<Rightarrow> (escrow_error, share_file) res" where
  "share_decode bs =
     (if length bs < length SHARE_MAGIC then Inl (Err TooShort)
      else if take 9 bs \<noteq> SHARE_MAGIC then Inl (Err BadMagic)
      else rbind (dec_share (drop 9 bs)) (\<lambda>(s, _). Inr s))"

section \<open>Split and recover\<close>

definition share_of :: "escrow_params \<Rightarrow> bytes \<Rightarrow> bytes \<Rightarrow> nat \<Rightarrow> shard \<Rightarrow> share_file" where
  "share_of p data escrow_id idx sh =
     \<lparr>sf_escrow_id = escrow_id, sf_shard_idx = word_of_nat idx, sf_total_n = word_of_nat (es_n p),
      sf_total_k = word_of_nat (es_k p), sf_real_len = word_of_nat (length data),
      sf_content_type = es_content_type p, sf_filename = es_filename p,
      sf_coeffs = coeffs sh, sf_payload = payload sh\<rparr>"

definition split_into_shares :: "bytes \<Rightarrow> escrow_params \<Rightarrow> ('e, share_file list) res" where
  "split_into_shares data p =
     rbind (rassert (1 \<le> es_k p \<and> es_k p \<le> 256)) (\<lambda>_.
     rbind (rassert (es_k p \<le> es_n p)) (\<lambda>_.
       let cid = sha_finalize (sha_updates
             [as_bytes ''holofs-escrow-v1'', be_bytes 4 (es_k p), be_bytes 4 (es_n p),
              as_bytes (es_content_type p), data] sha_new);
           escrow_id = take 16 cid;
           rng = rng_new (word_of_nat (be_val (slice cid 16 24)))
       in rbind (encode_layer_with_k gf_new data (es_k p) (es_n p) rng) (\<lambda>((_, shards), _).
            Inr (map (\<lambda>(idx, sh). share_of p data escrow_id idx sh) (zip [0..<length shards] shards)))))"

definition check_share :: "share_file \<Rightarrow> unit \<Rightarrow> share_file \<Rightarrow> (escrow_error, unit) res" where
  "check_share first u s =
     (if sf_escrow_id s \<noteq> sf_escrow_id first then Inl (Err DifferentEscrows)
      else if sf_total_k s \<noteq> sf_total_k first \<or> sf_total_n s \<noteq> sf_total_n first then Inl (Err Disagree)
      else Inr ())"

text \<open>The first share of each index, in order (\<open>seen\<close> is the hash set).\<close>

fun dedup_shares :: "u16 list \<Rightarrow> share_file list \<Rightarrow> share_file list" where
  "dedup_shares seen [] = []"
| "dedup_shares seen (s # ss) =
     (if sf_shard_idx s \<in> set seen then dedup_shares seen ss
      else s # dedup_shares (sf_shard_idx s # seen) ss)"

definition shard_of_share :: "share_file \<Rightarrow> shard" where
  "shard_of_share s = \<lparr>coeffs = sf_coeffs s, payload = sf_payload s\<rparr>"

definition recover_from_shares :: "share_file list \<Rightarrow> (escrow_error, bytes \<times> string \<times> string) res" where
  "recover_from_shares shares = (case shares of [] \<Rightarrow> Inl (Err NoShares) | first # _ \<Rightarrow>
     let k = unat (sf_total_k first) in
     rbind (rfold (check_share first) () shares) (\<lambda>_.
       if length shares < k then Inl (Err (TooFew k (length shares)))
       else let uniq = dedup_shares [] shares in
       if length uniq < k then Inl (Err (TooFewUnique (length uniq) k))
       else let sym_len = length (sf_payload first);
                shard_objs = map shard_of_share (take k uniq)
            in rbind (decode_layer_with_k gf_new shard_objs k sym_len) (\<lambda>decoded.
                 case decoded of
                   None \<Rightarrow> Inl (Err Dependent)
                 | Some out \<Rightarrow> Inr (take (min (unat (sf_real_len first)) (length out)) out,
                                 sf_content_type first, sf_filename first))))"

section \<open>The share format is canonical\<close>

definition str8_ok :: "string \<Rightarrow> bool" where
  "str8_ok s \<longleftrightarrow> str_ok s \<and> length s < 2 ^ 8"

definition share_ok :: "share_file \<Rightarrow> bool" where
  "share_ok s \<longleftrightarrow> length (sf_escrow_id s) = 16 \<and> str8_ok (sf_content_type s) \<and> str8_ok (sf_filename s) \<and>
     length (sf_coeffs s) < 2 ^ 16 \<and> length (sf_payload s) < 2 ^ 32"

lemma need_Inr: "need m = Inr x \<longleftrightarrow> m = Inr x"
  by (cases m rule: sum.exhaust; cases "projl m"; auto simp: need_def map_err_def)

lemma need_Inr_simp [simp]: "need (Inr x) = Inr x"
  by (simp add: need_def)

lemma unat_len8 [simp]: "n < 2 ^ 8 \<Longrightarrow> unat (word_of_nat n :: u8) = n"
  by (simp add: unat_of_nat take_bit_eq_mod)

lemma need_str_enc [simp]: "str_ok s \<Longrightarrow> n = length s \<Longrightarrow> need_str n (as_bytes s @ rest) = Inr (s, rest)"
  by (simp add: need_str_def)

lemma need_str_sound: "need_str n c = Inr (s, rest) \<Longrightarrow> str_ok s \<and> length s = n \<and> c = as_bytes s @ rest"
proof -
  assume "need_str n c = Inr (s, rest)"
  then obtain bs where d: "c_take n c = Inr (bs, rest)" "map_err (\<lambda>_. BadUtf8) (from_utf8 bs) = Inr s"
    by (auto simp: need_str_def rbind_eq_Inr need_Inr)
  have "from_utf8 bs = Inr s" using d(2) by (auto simp: from_utf8_def split: if_splits)
  from c_take_sound[OF d(1)] from_utf8_str_ok[OF this] show ?thesis by (metis length_as_bytes)
qed

interpretation share_codec: canonical_codec share_body dec_share share_ok
proof
  show "dec_share (share_body s @ rest) = Inr (s, rest)" if "share_ok s" for s rest
    using that by (cases s) (simp add: share_ok_def str8_ok_def share_body_def dec_share_def)
  show "share_ok s \<and> c = share_body s @ rest" if "dec_share c = Inr (s, rest)" for c s rest
    using that unfolding dec_share_def rbind_prod_Inr need_Inr
  proof (elim exE conjE, goal_cases)
    case (1 eid c1 si c2 tn c3 tk c4 rl c5 ctn c6 ct c7 fnn c8 fname c9 cl c10 cs c11 pl c12 ps c13)
    have s: "s = \<lparr>sf_escrow_id = eid, sf_shard_idx = si, sf_total_n = tn, sf_total_k = tk, sf_real_len = rl,
        sf_content_type = ct, sf_filename = fname, sf_coeffs = cs, sf_payload = ps\<rparr>" and r: "rest = c13"
      using 1(14) by simp_all
    note c_take_sound[OF 1(1)] u16_codec.dec_sound[OF 1(2)] u16_codec.dec_sound[OF 1(3)]
      u16_codec.dec_sound[OF 1(4)] u64_codec.dec_sound[OF 1(5)] u8_codec.dec_sound[OF 1(6)] need_str_sound[OF 1(7)]
      u8_codec.dec_sound[OF 1(8)] need_str_sound[OF 1(9)] u16_codec.dec_sound[OF 1(10)] c_take_sound[OF 1(11)]
      u32_codec.dec_sound[OF 1(12)] c_take_sound[OF 1(13)]
    moreover have "unat ctn < 2 ^ 8" "unat fnn < 2 ^ 8" using unat_byte_less by simp_all
    moreover have "word_of_nat (unat ctn) = ctn" "word_of_nat (unat fnn) = fnn" by simp_all
    ultimately show ?case
      using unat_u_less(1)[of cl] unat_u_less(2)[of pl] unfolding s r
      by (auto simp: share_ok_def str8_ok_def share_body_def)
  qed
qed

lemma length_SHARE_MAGIC [simp]: "length SHARE_MAGIC = 9"
  by (simp add: SHARE_MAGIC_def)

lemma share_decode_encode: "share_ok s \<Longrightarrow> share_decode (share_encode s @ rest) = Inr s"
  by (simp add: share_decode_def share_encode_def share_codec.dec_enc)

section \<open>Recovery from genuine shares\<close>

lemma set_dedup: "set (dedup_shares seen ss) \<subseteq> set ss"
  by (induction ss arbitrary: seen) auto

lemma dedup_props:
  "sf_shard_idx ` set (dedup_shares seen ss) = sf_shard_idx ` set ss - set seen \<and>
   distinct (map sf_shard_idx (dedup_shares seen ss))"
proof (induction ss arbitrary: seen)
  case (Cons s ss)
  then show ?case using Cons[of seen] Cons[of "sf_shard_idx s # seen"] by auto
qed simp

lemma length_dedup: "length (dedup_shares [] ss) = card (sf_shard_idx ` set ss)"
  using dedup_props[of "[]" ss] distinct_card[of "map sf_shard_idx (dedup_shares [] ss)"] by simp

lemma rfold_unit: "(\<And>s. s \<in> set ss \<Longrightarrow> f () s = Inr ()) \<Longrightarrow> rfold f () ss = Inr ()"
  by (induction ss) simp_all

lemma check_shares:
  "\<forall>s \<in> set ss. sf_escrow_id s = sf_escrow_id first \<and> sf_total_k s = sf_total_k first \<and> sf_total_n s = sf_total_n first
   \<Longrightarrow> rfold (check_share first) () ss = Inr ()"
  by (rule rfold_unit) (simp add: check_share_def)

lemma encode_error_free:
  "(encode_layer_with_k g data k n rng :: ('e, _) res) = Inr r \<Longrightarrow>
   (encode_layer_with_k g data k n rng :: ('f, _) res) = Inr r"
  by (auto simp: encode_layer_with_k_def Let_def split_def split: if_splits)

lemma split_shares_props:
  assumes "(split_into_shares data p :: ('e, _) res) = Inr shares"
  obtains eid sl ss rng rng' where
    "(encode_layer_with_k gf_new data (es_k p) (es_n p) rng :: (unit, _) res) = Inr ((sl, ss), rng')"
    "length eid = 16" "length ss = es_n p" "shares = map (\<lambda>i. share_of p data eid i (ss ! i)) [0..<es_n p]"
    "1 \<le> es_k p" "es_k p \<le> 256" "es_k p \<le> es_n p"
proof -
  have k: "1 \<le> es_k p \<and> es_k p \<le> 256" "es_k p \<le> es_n p"
    using assms by (auto simp: split_into_shares_def rbind_eq_Inr rassert_def split: if_splits)
  define cid where "cid = sha_finalize (sha_updates
    [as_bytes ''holofs-escrow-v1'', be_bytes 4 (es_k p), be_bytes 4 (es_n p), as_bytes (es_content_type p), data] sha_new)"
  have cid: "length cid = 32" unfolding cid_def sha_updates_finalize by (rule length_sha256)
  define rng where "rng = rng_new (word_of_nat (be_val (slice cid 16 24)))"
  have "rbind (encode_layer_with_k gf_new data (es_k p) (es_n p) rng) (\<lambda>((_, shards), _).
      Inr (map (\<lambda>(idx, sh). share_of p data (take 16 cid) idx sh) (zip [0..<length shards] shards))) = (Inr shares :: ('e, _) res)"
    using assms k unfolding split_into_shares_def Let_def cid_def[symmetric] rng_def[symmetric]
    by (simp only: rassert_simps rbind_Inr simp_thms)
  then obtain sl ss rng' where
    e: "(encode_layer_with_k gf_new data (es_k p) (es_n p) rng :: ('e, _) res) = Inr ((sl, ss), rng')"
    and sh: "shares = map (\<lambda>(idx, sh). share_of p data (take 16 cid) idx sh) (zip [0..<length ss] ss)"
    by (auto simp: rbind_eq_Inr)
  note e' = encode_error_free[OF e, where 'f = unit]
  have l: "length ss = es_n p" using encode_with_k_props(3)[OF e'] .
  have "shares = map (\<lambda>i. share_of p data (take 16 cid) i (ss ! i)) [0..<es_n p]"
    unfolding sh using l by (intro nth_equalityI) simp_all
  then show ?thesis using that[OF e', of "take 16 cid"] cid l k by simp
qed

lemma take_dedup_shards:
  assumes "set S \<subseteq> set (map (\<lambda>i. share_of p data eid i (ss ! i)) [0..<length ss])"
  shows "set (map shard_of_share (take m (dedup_shares [] S))) \<subseteq> set ss"
proof -
  have "shard_of_share (share_of p data eid i sh) = sh" for i sh
    by (simp add: shard_of_share_def share_of_def)
  moreover have "set (take m (dedup_shares [] S)) \<subseteq> set S" using set_dedup[of "[]" S] set_take_subset by fast
  ultimately show ?thesis using assms by fastforce
qed

lemma recover_spec:
  assumes sp: "(split_into_shares data p :: ('e, _) res) = Inr shares"
    and S: "set S \<subseteq> set shares" "S \<noteq> []" and data: "data \<noteq> []" "length data < 2 ^ 64"
    and n: "es_n p < 2 ^ 16"
  shows "case recover_from_shares S of
      Inr r \<Rightarrow> r = (data, es_content_type p, es_filename p) \<and> es_k p \<le> card (sf_shard_idx ` set S)
    | Inl e \<Rightarrow>
        e = Err (TooFew (es_k p) (length S)) \<and> length S < es_k p \<or>
        e = Err (TooFewUnique (card (sf_shard_idx ` set S)) (es_k p)) \<and> card (sf_shard_idx ` set S) < es_k p \<or>
        e = Err Dependent \<and> es_k p \<le> card (sf_shard_idx ` set S) \<and> (\<exists>s \<in> set S. es_k p \<le> unat (sf_shard_idx s))"
proof -
  obtain eid sl ss rng rng' where
    e: "(encode_layer_with_k gf_new data (es_k p) (es_n p) rng :: (unit, _) res) = Inr ((sl, ss), rng')"
    and l: "length ss = es_n p" and sh: "shares = map (\<lambda>i. share_of p data eid i (ss ! i)) [0..<es_n p]"
    and k: "1 \<le> es_k p" "es_k p \<le> 256" "es_k p \<le> es_n p"
    using split_shares_props[OF sp] by metis
  let ?k = "es_k p" and ?u = "dedup_shares [] S" and ?X = "chunks_of (es_k p) sl (pad_to (es_k p * sl) data)"
  note ep = encode_with_k_props[OF e]
  have kk: "unat (word_of_nat ?k :: u16) = ?k" using k by simp
  have each: "\<exists>i < es_n p. s = share_of p data eid i (ss ! i)" if "s \<in> set S" for s
  proof -
    have "s \<in> (\<lambda>i. share_of p data eid i (ss ! i)) ` {0..<es_n p}" using that S(1) unfolding sh by auto
    then show ?thesis by auto
  qed
  then obtain first rest where f: "S = first # rest" "first \<in> set S" using S(2) by (cases S) auto
  obtain i0 where i0: "i0 < es_n p" "first = share_of p data eid i0 (ss ! i0)" using each[OF f(2)] by blast
  have chk: "rfold (check_share first) () S = Inr ()"
  proof (rule check_shares, rule ballI)
    fix s assume "s \<in> set S"
    then obtain i where "s = share_of p data eid i (ss ! i)" using each by blast
    with i0(2) show "sf_escrow_id s = sf_escrow_id first \<and> sf_total_k s = sf_total_k first \<and> sf_total_n s = sf_total_n first"
      by (simp add: share_of_def)
  qed
  have tk: "unat (sf_total_k first) = ?k" using kk by (simp add: i0(2) share_of_def)
  have "consistent (gf_mul gf_new) sl ?X (ss ! i0)" using ep(4) i0(1) l by simp
  then have slen: "length (sf_payload first) = sl" by (simp add: i0(2) share_of_def consistent_def)
  have sub: "set (map shard_of_share (take ?k ?u)) \<subseteq> set ss"
    by (rule take_dedup_shards[where eid = eid and data = data and p = p]) (use S(1) sh l in simp)
  note X = encoded_explains[OF e sub]
  note slp = encoded_sl_pos[OF e data(1)]
  let ?det = "\<forall>Z. explains ?k sl (map shard_of_share (take ?k ?u)) Z \<longrightarrow> Z = ?X"
  have dec: "decode_layer_with_k gf_new (map shard_of_share (take ?k ?u)) ?k sl =
      (Inr (if ?det then Some (concat ?X) else None) :: (escrow_error, _) res)"
    by (rule decode_with_k_spec[OF X slp(1)])
  have rl: "unat (sf_real_len first) = length data" using data(2) by (simp add: i0(2) share_of_def)
  have len: "length (concat ?X) = ?k * sl" by (simp add: concat_chunks_of)
  have out: "take (min (length data) (length (concat ?X))) (concat ?X) = data"
    using concat_encoded[OF slp(2)] len slp(2) by (simp add: min_def)
  have meta: "sf_content_type first = es_content_type p" "sf_filename first = es_filename p"
    by (simp_all add: i0(2) share_of_def)
  have r: "recover_from_shares S =
      (if length S < ?k then Inl (Err (TooFew ?k (length S)))
       else if length ?u < ?k then Inl (Err (TooFewUnique (length ?u) ?k))
       else if ?det then Inr (data, es_content_type p, es_filename p) else Inl (Err Dependent))"
    using chk dec out unfolding f(1)
    by (simp add: recover_from_shares_def tk slen rl meta Let_def del: rfold.simps dedup_shares.simps) blast
  have coded: "\<exists>s \<in> set S. ?k \<le> unat (sf_shard_idx s)" if nd: "\<not> ?det" and u: "?k \<le> length ?u"
  proof (rule ccontr)
    assume "\<not> (\<exists>s \<in> set S. ?k \<le> unat (sf_shard_idx s))"
    then have small: "\<forall>s \<in> set S. unat (sf_shard_idx s) < ?k" by (simp add: not_le)
    have idx: "unat (sf_shard_idx (share_of p data eid i sh)) = i" if "i < es_n p" for i sh
      using that n by (simp add: share_of_def)
    have "unat ` set (map sf_shard_idx ?u) \<subseteq> {..<?k}" using small set_dedup[of "[]" S] by auto
    moreover have "distinct (map sf_shard_idx ?u)" using dedup_props by blast
    then have "card (set (map sf_shard_idx ?u)) = length ?u" by (metis distinct_card length_map)
    moreover have "inj_on unat (set (map sf_shard_idx ?u))" by (rule inj_onI) (simp add: word_unat_eq_iff)
    ultimately have "unat ` set (map sf_shard_idx ?u) \<subseteq> {..<?k}"
      "card (unat ` set (map sf_shard_idx ?u)) = length ?u" by (simp_all only: card_image)
    then have lu: "length ?u = ?k" and c: "card (unat ` set (map sf_shard_idx ?u)) = card {..<?k}"
      and sub': "unat ` set (map sf_shard_idx ?u) \<subseteq> {..<?k}"
      using u card_mono[of "{..<?k}" "unat ` set (map sf_shard_idx ?u)"] by simp_all
    have full: "unat ` set (map sf_shard_idx ?u) = {..<?k}"
      by (rule card_subset_eq[OF _ sub' c]) simp
    have "set (map (systematic (pad_to (?k * sl) data) ?k sl) [0..<?k]) \<subseteq> set (map shard_of_share (take ?k ?u))"
    proof
      fix x assume "x \<in> set (map (systematic (pad_to (?k * sl) data) ?k sl) [0..<?k])"
      then obtain i where i: "i < ?k" "x = systematic (pad_to (?k * sl) data) ?k sl i" by auto
      then have "i \<in> unat ` set (map sf_shard_idx ?u)" using full by blast
      then obtain s where s: "s \<in> set ?u" "unat (sf_shard_idx s) = i" by auto
      then obtain j where j: "j < es_n p" "s = share_of p data eid j (ss ! j)" using each set_dedup by blast
      have "j = i" using idx[OF j(1)] j(2) s(2) by metis
      then have "shard_of_share s = x" using ep(5)[of i] i k(3) j(2) by (simp add: shard_of_share_def share_of_def)
      with s(1) lu show "x \<in> set (map shard_of_share (take ?k ?u))" by auto
    qed
    then have ?det using systematic_unique[of ?k sl _ _ "pad_to (?k * sl) data"] by simp
    with nd show False ..
  qed
  show ?thesis unfolding r using coded by (simp add: length_dedup not_less)
qed

lemma split_share_ok:
  assumes "(split_into_shares data p :: ('e, _) res) = Inr shares" and "s \<in> set shares" and "data \<noteq> []" and "length data < 2 ^ 32"
    and "str8_ok (es_content_type p)" and "str8_ok (es_filename p)"
  shows "share_ok s"
proof -
  obtain eid sl ss rng rng' where
    e: "(encode_layer_with_k gf_new data (es_k p) (es_n p) rng :: (unit, _) res) = Inr ((sl, ss), rng')"
    and i: "length eid = 16" and l: "length ss = es_n p"
    and sh: "shares = map (\<lambda>i. share_of p data eid i (ss ! i)) [0..<es_n p]"
    and k: "1 \<le> es_k p" "es_k p \<le> 256"
    using split_shares_props[OF assms(1)] by metis
  note ep = encode_with_k_props[OF e]
  have "sl \<le> length data"
  proof -
    have "sl = (length data + es_k p - 1) div es_k p" using ep(2) by (simp add: symbol_len_of_def)
    also have "\<dots> \<le> length data"
    proof (cases "length data")
      case (Suc m)
      have "m div es_k p \<le> m" by (rule div_le_dividend)
      then show ?thesis using k(1) Suc by (simp add: div_add_self2)
    qed (use assms(3) in simp)
    finally show ?thesis .
  qed
  moreover obtain j where j: "j < es_n p" "s = share_of p data eid j (ss ! j)" using assms(2) unfolding sh by auto
  moreover have "length (coeffs (ss ! j)) = es_k p" "length (payload (ss ! j)) = sl"
    using ep(4)[of "ss ! j"] j(1) l by (simp_all add: consistent_def chunks_of_def)
  ultimately show ?thesis using assms(4-6) i k by (simp add: share_of_def share_ok_def)
qed

section \<open>Properties\<close>

text \<open>recovery is safe and as complete as the code allows. From any non-empty selection (with
  repetitions, in any order) of the share files of one split, written and parsed again, recovery never
  panics. It returns the original file with its metadata, or reports too few (distinct) shares exactly
  when there are fewer than \<open>k\<close>, or reports dependence, and the latter only when one of the shares used is
  beyond the first \<open>k\<close>.\<close>

theorem escrow_recover_exact:
  assumes "(split_into_shares data p :: ('e, _) res) = Inr shares"
    and "set S \<subseteq> set shares" and "S \<noteq> []" and "data \<noteq> []" and "length data < 2 ^ 32"
    and "es_n p < 2 ^ 16" and "str8_ok (es_content_type p)" and "str8_ok (es_filename p)"
  shows "rmap share_decode (map share_encode S) = Inr S \<and>
    (case recover_from_shares S of
      Inr r \<Rightarrow> r = (data, es_content_type p, es_filename p) \<and> es_k p \<le> card (sf_shard_idx ` set S)
    | Inl e \<Rightarrow>
        e = Err (TooFew (es_k p) (length S)) \<and> length S < es_k p \<or>
        e = Err (TooFewUnique (card (sf_shard_idx ` set S)) (es_k p)) \<and> card (sf_shard_idx ` set S) < es_k p \<or>
        e = Err Dependent \<and> es_k p \<le> card (sf_shard_idx ` set S) \<and> (\<exists>s \<in> set S. es_k p \<le> unat (sf_shard_idx s)))"
proof
  have ok: "share_ok s" if "s \<in> set S" for s
    by (rule split_share_ok[OF assms(1) _ assms(4,5,7,8)]) (use that assms(2) in blast)
  show "rmap share_decode (map share_encode S) = Inr S"
    using ok
  proof (induction S)
    case (Cons s S)
    then show ?case using share_decode_encode[of s "[]"] by simp
  qed simp
  have "length data < 2 ^ 64" using assms(5) by simp
  then show "case recover_from_shares S of
      Inr r \<Rightarrow> r = (data, es_content_type p, es_filename p) \<and> es_k p \<le> card (sf_shard_idx ` set S)
    | Inl e \<Rightarrow>
        e = Err (TooFew (es_k p) (length S)) \<and> length S < es_k p \<or>
        e = Err (TooFewUnique (card (sf_shard_idx ` set S)) (es_k p)) \<and> card (sf_shard_idx ` set S) < es_k p \<or>
        e = Err Dependent \<and> es_k p \<le> card (sf_shard_idx ` set S) \<and> (\<exists>s \<in> set S. es_k p \<le> unat (sf_shard_idx s))"
    by (rule recover_spec[OF assms(1-4) _ assms(6)])
qed

definition escrow_example :: escrow_params where
  "escrow_example = \<lparr>es_k = 2, es_n = 3, es_content_type = ''text/plain'', es_filename = ''seed''\<rparr>"

lemma escrow_example_split: "\<exists>shares. (split_into_shares [1, 2, 3] escrow_example :: (unit, _) res) = Inr shares"
  by (auto simp: split_into_shares_def escrow_example_def encode_layer_with_k_def Let_def split_def)

theorem escrow_recover_exact_witness:
  "\<exists>shares. (split_into_shares [1, 2, 3] escrow_example :: (unit, _) res) = Inr shares \<and>
     rmap share_decode (map share_encode (rev shares)) = Inr (rev shares)"
proof -
  obtain shares where s: "(split_into_shares [1, 2, 3] escrow_example :: (unit, _) res) = Inr shares"
    using escrow_example_split by blast
  have "length shares = 3"
    by (rule split_shares_props[OF s]) (simp add: escrow_example_def)
  then have "rev shares \<noteq> []" by auto
  from escrow_recover_exact[OF s _ this] s show ?thesis
    by (auto simp: escrow_example_def str8_ok_def str_ok_def as_bytes_def)
qed

text \<open>the first \<open>k\<close> shares are the file in the clear. Share \<open>i < k\<close> of a split carries bytes
  \<open>i * sl\<close> to \<open>(i + 1) * sl\<close> of the zero-padded file as its payload, whatever \<open>k\<close> and \<open>n\<close> are; so a single
  such share reveals its part of the secret, and the first \<open>k\<close> together are the file.\<close>

theorem escrow_shares_in_clear:
  assumes "(split_into_shares data p :: ('e, _) res) = Inr shares"
  shows "let sl = symbol_len_of (es_k p) (length data); padded = pad_to (es_k p * sl) data in
    length shares = es_n p \<and>
    map sf_payload (take (es_k p) shares) = map (chunk padded sl) [0..<es_k p] \<and>
    take (length data) (concat (map sf_payload (take (es_k p) shares))) = data"
proof -
  obtain eid sl ss rng rng' where
    e: "(encode_layer_with_k gf_new data (es_k p) (es_n p) rng :: (unit, _) res) = Inr ((sl, ss), rng')"
    and l: "length ss = es_n p" and sh: "shares = map (\<lambda>i. share_of p data eid i (ss ! i)) [0..<es_n p]"
    and k: "es_k p \<le> es_n p"
    using split_shares_props[OF assms] by metis
  note ep = encode_with_k_props[OF e]
  let ?p = "pad_to (es_k p * sl) data"
  have "map sf_payload (take (es_k p) shares) = map (chunk ?p sl) [0..<es_k p]"
    using k ep(5) by (intro nth_equalityI) (simp_all add: sh share_of_def systematic_def)
  moreover have "take (length data) (concat (map (chunk ?p sl) [0..<es_k p])) = data"
    using concat_encoded[of data "es_k p" sl] symbol_len_covers[OF ep(1), of "length data"] ep(2)
    by (simp add: chunks_of_def)
  ultimately show ?thesis using ep(2) l by (simp add: Let_def sh)
qed

theorem escrow_shares_in_clear_witness:
  "\<exists>shares. (split_into_shares [1, 2, 3] escrow_example :: (unit, _) res) = Inr shares \<and>
     map sf_payload (take 2 shares) = [[1, 2], [3, 0]]"
proof -
  obtain shares where s: "(split_into_shares [1, 2, 3] escrow_example :: (unit, _) res) = Inr shares"
    using escrow_example_split by blast
  from escrow_shares_in_clear[OF s] s show ?thesis
    by (auto simp: escrow_example_def symbol_len_of_def pad_to_def chunk_def slice_def Let_def upt_rec)
qed

end
