(* ===== verification/Effect.thy ===== *)
theory Effect
  imports Prelude
begin

text \<open>
  Stateful code that can fail: a computation takes the state, and returns a result or an error together
  with the state it leaves, so that what was done before an error stays done. \<open>abind\<close> is sequencing with
  the \<open>?\<close> operator, \<open>alift\<close> embeds a pure result, \<open>afold\<close> is a \<open>for\<close> loop whose body may stop early.
\<close>

named_theorems act_simps "running computations"

type_synonym ('s, 'e, 'a) act = "'s \<Rightarrow> ('e, 'a) res \<times> 's"

definition aret :: "'a \<Rightarrow> ('s, 'e, 'a) act" where
  "aret x = (\<lambda>s. (Inr x, s))"

definition alift :: "('e, 'a) res \<Rightarrow> ('s, 'e, 'a) act" where
  "alift r = (\<lambda>s. (r, s))"

definition abind :: "('s, 'e, 'a) act \<Rightarrow> ('a \<Rightarrow> ('s, 'e, 'b) act) \<Rightarrow> ('s, 'e, 'b) act" where
  "abind m f = (\<lambda>s. case m s of (Inl e, s') \<Rightarrow> (Inl e, s') | (Inr x, s') \<Rightarrow> f x s')"

definition aget :: "('s, 'e, 's) act" where
  "aget = (\<lambda>s. (Inr s, s))"

definition amodify :: "('s \<Rightarrow> 's) \<Rightarrow> ('s, 'e, unit) act" where
  "amodify f = (\<lambda>s. (Inr (), f s))"

text \<open>A result that is matched on, so that only a panic stops the caller.\<close>

definition acatch :: "('s, 'e, 'a) act \<Rightarrow> ('s, 'f, 'e + 'a) act" where
  "acatch m = (\<lambda>s. case m s of
     (Inr x, s') \<Rightarrow> (Inr (Inr x), s') | (Inl (Err e), s') \<Rightarrow> (Inr (Inl e), s') | (Inl Panic, s') \<Rightarrow> (Inl Panic, s'))"

fun afold :: "('b \<Rightarrow> 'x \<Rightarrow> ('s, 'e, 'b) act) \<Rightarrow> 'b \<Rightarrow> 'x list \<Rightarrow> ('s, 'e, 'b) act" where
  "afold f b [] = aret b"
| "afold f b (x # xs) = abind (f b x) (\<lambda>b'. afold f b' xs)"

lemma aret_run [simp, act_simps]: "aret x s = (Inr x, s)"
  by (simp add: aret_def)

lemma alift_run [simp, act_simps]: "alift r s = (r, s)"
  by (simp add: alift_def)

lemma aget_run [simp, act_simps]: "aget s = (Inr s, s)"
  by (simp add: aget_def)

lemma amodify_run [simp, act_simps]: "amodify f s = (Inr (), f s)"
  by (simp add: amodify_def)

lemma abind_Inr: "abind m f s = (Inr y, s') \<longleftrightarrow> (\<exists>x s1. m s = (Inr x, s1) \<and> f x s1 = (Inr y, s'))"
  by (auto simp: abind_def split: prod.splits sum.splits)

lemma abind_step: "m s = (Inr x, s1) \<Longrightarrow> abind m f s = f x s1"
  by (simp add: abind_def)

lemma abind_stop: "m s = (Inl e, s1) \<Longrightarrow> abind m f s = (Inl e, s1)"
  by (simp add: abind_def)

lemma abind_aret [simp]: "abind (aret x) f = f x"
  by (simp add: abind_def aret_def)

lemma abind_alift_Inr [simp]: "abind (alift (Inr x)) f = f x"
  by (simp add: abind_def alift_def)

lemma abind_alift_Inl [simp]: "abind (alift (Inl e)) f = alift (Inl e)"
  by (simp add: abind_def alift_def)

lemma abind_aget: "abind aget f s = f s s"
  by (simp add: abind_def)

lemma abind_amodify: "abind (amodify g) f s = f () (g s)"
  by (simp add: abind_def)

lemma abind_alift_run: "abind (alift r) f s = (case r of Inl e \<Rightarrow> (Inl e, s) | Inr x \<Rightarrow> f x s)"
  by (simp add: abind_def split: sum.split)

lemma abind_assoc: "abind (abind m f) g = abind m (\<lambda>x. abind (f x) g)"
  by (intro ext) (auto simp: abind_def split: prod.splits sum.splits)

lemmas act_run = abind_aget abind_amodify abind_alift_run

text \<open>An invariant of the loop state carries over every turn, including the last, failing one.\<close>

lemma afold_invariant:
  assumes "afold f b xs s = (r, s')" and "P b s"
    and "\<And>b x s. x \<in> set xs \<Longrightarrow> P b s \<Longrightarrow>
      (case f b x s of (Inr b', s1) \<Rightarrow> P b' s1 | (Inl e, s1) \<Rightarrow> Q e s1)"
  shows "case r of Inr b' \<Rightarrow> P b' s' | Inl e \<Rightarrow> Q e s'"
  using assms
proof (induction xs arbitrary: b s)
  case (Cons x xs)
  obtain r1 s1 where f: "f b x s = (r1, s1)" by force
  show ?case
  proof (cases r1)
    case (Inl e)
    with f Cons.prems(1) have "r = Inl e" "s' = s1" by (auto simp: abind_def)
    with Cons.prems(3)[of x b s] Cons.prems(2) f Inl show ?thesis by simp
  next
    case (Inr b1)
    then have "afold f b1 xs s1 = (r, s')" using f Cons.prems(1) by (simp add: abind_def)
    moreover have "P b1 s1" using Cons.prems(3)[of x b s] Cons.prems(2) f Inr by simp
    ultimately show ?thesis using Cons.IH[of b1 s1] Cons.prems(3) by simp
  qed
qed auto

lemma afold_append: "afold f b (xs @ ys) = abind (afold f b xs) (\<lambda>b'. afold f b' ys)"
  by (induction xs arbitrary: b) (simp_all add: abind_assoc)

end
