(* ===== verification/Client.thy ===== *)
theory Client
  imports Effect Decode Repair Merkle Placement Manifest Wire Text Identity
begin

text \<open>
  \<open>holofs-client/src/client.rs\<close>: storing, reading and repairing objects over a cluster of nodes.

  The network is a parameter: \<open>call addr req\<close> performs one request on the node at \<open>addr\<close> (the function
  \<open>rpc\<close>), in a world of any type. The theory \<open>Cluster\<close> instantiates it with the nodes of the theory
  \<open>Store\<close>. A function that takes \<open>&mut Manifest\<close> runs on the pair of manifest and world, so that the
  changes it makes before failing are kept.

  The lemmas at the end hold for every network, however its nodes answer: what a reader accepts has a hash
  listed in the manifest, and as long as the listed hashes stand for shards of the object (\<open>listed\<close>, which
  \<open>put\<close> establishes and \<open>repair_node\<close> keeps), the reader returns the object or reports it lost.
\<close>

section \<open>Errors and calls\<close>

text \<open>The message of a \<open>Protocol\<close> error is the node's own, or says what was expected and what came.\<close>

datatype protocol_msg = Reported string | Unexpected string response

datatype client_error = CIo io_error | Protocol protocol_msg | LayerLost u8 u8

type_synonym 'w call = "string \<Rightarrow> request \<Rightarrow> 'w \<Rightarrow> (io_error, response) res \<times> 'w"

definition rpc :: "'w call \<Rightarrow> string \<Rightarrow> request \<Rightarrow> ('w, client_error, response) act" where
  "rpc call addr req w = (case call addr req w of (r, w') \<Rightarrow> (map_err CIo r, w'))"

definition expect_ack :: "string \<Rightarrow> response \<Rightarrow> (client_error, unit) res" where
  "expect_ack what resp = (case resp of
     Ack \<Rightarrow> Inr ()
   | RespError msg \<Rightarrow> Inl (Err (Protocol (Reported msg)))
   | other \<Rightarrow> Inl (Err (Protocol (Unexpected what other))))"

definition expect_shards :: "response \<Rightarrow> (client_error, shard list) res" where
  "expect_shards resp = (case resp of
     Shards v \<Rightarrow> Inr v
   | RespError msg \<Rightarrow> Inl (Err (Protocol (Reported msg)))
   | other \<Rightarrow> Inl (Err (Protocol (Unexpected ''expected Shards'' other))))"

text \<open>Running a computation on the world inside one on manifest and world.\<close>

definition on_world :: "('w, 'e, 'a) act \<Rightarrow> (manifest \<times> 'w, 'e, 'a) act" where
  "on_world m = (\<lambda>(mf, w). case m w of (r, w') \<Rightarrow> (r, (mf, w')))"

definition on_manifest :: "(manifest \<Rightarrow> manifest) \<Rightarrow> (manifest \<times> 'w, 'e, unit) act" where
  "on_manifest f = amodify (\<lambda>(mf, w). (f mf, w))"

definition the_manifest :: "(manifest \<times> 'w, 'e, manifest) act" where
  "the_manifest = (\<lambda>(mf, w). (Inr mf, (mf, w)))"

section \<open>Gathering\<close>

definition gather_step :: "'w call \<Rightarrow> manifest \<Rightarrow> u8 \<Rightarrow> u8 \<Rightarrow> shard list \<Rightarrow> nat \<Rightarrow> ('w, client_error, shard list) act" where
  "gather_step call m c l acc node =
     abind (alift (at_idx (m_nodes m) node)) (\<lambda>addr.
     abind (rpc call addr (Get (m_object_id m) c l)) (\<lambda>resp.
     abind (alift (expect_shards resp)) (\<lambda>v. aret (acc @ v))))"

definition gather_layer :: "'w call \<Rightarrow> manifest \<Rightarrow> nat list \<Rightarrow> u8 \<Rightarrow> u8 \<Rightarrow> ('w, client_error, shard list) act" where
  "gather_layer call m live c l = afold (gather_step call m c l) [] live"

text \<open>\<open>manifest.shard_hashes[c][l]\<close> and the filter that drops unknown shards.\<close>

definition expected_hashes :: "manifest \<Rightarrow> nat \<Rightarrow> nat \<Rightarrow> ('e, bytes list) res" where
  "expected_hashes m c l = rbind (at_idx (m_shard_hashes m) c) (\<lambda>per_c. at_idx per_c l)"

definition verified :: "bytes list \<Rightarrow> shard list \<Rightarrow> shard list" where
  "verified expected raw = filter (\<lambda>s. shard_hash s \<in> set expected) raw"

section \<open>Sending the shards of a single-layer object\<close>

definition send_shard :: "'w call \<Rightarrow> nat list \<Rightarrow> u8 \<Rightarrow> u8 \<Rightarrow> nat \<Rightarrow> shard \<Rightarrow> (manifest \<times> 'w, client_error, unit) act" where
  "send_shard call live c l idx s =
     abind the_manifest (\<lambda>m.
     abind (alift (place_shard m c l (word_of_nat idx) live)) (\<lambda>node.
     abind (alift (at_idx (m_nodes m) node)) (\<lambda>addr.
     abind (on_world (rpc call addr (Put (m_object_id m) c l s))) (\<lambda>resp.
       alift (expect_ack ''expected Ack'' resp)))))"

definition send_step :: "'w call \<Rightarrow> nat list \<Rightarrow> bytes list \<Rightarrow> nat \<times> shard \<Rightarrow> (manifest \<times> 'w, client_error, bytes list) act" where
  "send_step call live hashes is = (case is of (idx, s) \<Rightarrow>
     abind (send_shard call live 0 0 idx s) (\<lambda>_. aret (hashes @ [shard_hash s])))"

definition send_all :: "'w call \<Rightarrow> nat list \<Rightarrow> shard list \<Rightarrow> (manifest \<times> 'w, client_error, unit) act" where
  "send_all call live shards =
     abind (afold (send_step call live) [] (zip [0..<length shards] shards)) (\<lambda>hashes.
       on_manifest (\<lambda>m. m\<lparr>m_shard_hashes := [[hashes]], m_merkle_root := merkle_root hashes\<rparr>))"

definition set_cid :: "bytes \<Rightarrow> manifest \<Rightarrow> manifest" where
  "set_cid cid m = m\<lparr>m_data_cid := cid, m_object_id := word_of_nat (be_val (take 8 cid))\<rparr>"

definition cid_seed :: "bytes \<Rightarrow> u64" where
  "cid_seed cid = rng_new (word_of_nat (be_val (slice cid 8 16)))"

section \<open>Text objects\<close>

definition text_cid :: "string \<Rightarrow> string \<Rightarrow> bytes" where
  "text_cid text content_type =
     sha_finalize (sha_updates [as_bytes ''holofs-text-v1'', as_bytes text, as_bytes content_type] sha_new)"

definition put_text_object :: "'w call \<Rightarrow> nat list \<Rightarrow> string \<Rightarrow> (manifest \<times> 'w, client_error, unit) act" where
  "put_text_object call live text =
     abind the_manifest (\<lambda>m.
     abind (alift (rassert (m_kind m = Text \<and> m_channels m = 1 \<and> m_nlayers m = 1))) (\<lambda>_.
     abind (alift (split_text text)) (\<lambda>split.
     abind (on_manifest (\<lambda>m. m\<lparr>m_chunk_lens := ts_chunk_lens split,
       m_sym_len := [word_of_nat (ts_sym_len split)], m_text_minhash := compute_minhash text\<rparr>)) (\<lambda>_.
     let cid = text_cid text (m_content_type m) in
     abind (on_manifest (set_cid cid)) (\<lambda>_.
     abind (alift (at_idx (m_n_per_layer m) 0)) (\<lambda>n.
     let ((_, shards), _) = encode_layer gf_new (ts_padded split) (unat n) (cid_seed cid) in
       send_all call live shards))))))"

definition get_text_object_with_holes :: "'w call \<Rightarrow> manifest \<Rightarrow> nat list \<Rightarrow> ('w, client_error, bytes \<times> nat) act" where
  "get_text_object_with_holes call m live =
     abind (alift (rassert (m_kind m = Text))) (\<lambda>_.
     abind (gather_layer call m live 0 0) (\<lambda>raw.
     abind (alift (expected_hashes m 0 0)) (\<lambda>expected.
     abind (alift (at_idx (m_sym_len m) 0)) (\<lambda>sl.
     abind (alift (decode_layer_with_holes gf_new (verified expected raw) (unat sl))) (\<lambda>chunks.
       aret (assemble chunks (m_chunk_lens m)))))))"

section \<open>Opaque objects\<close>

definition opaque_cid :: "bytes \<Rightarrow> string \<Rightarrow> bytes" where
  "opaque_cid data content_type =
     sha_finalize (sha_updates [as_bytes ''holofs-opaque-v1'', as_bytes content_type, data] sha_new)"

text \<open>With \<open>k = 0\<close> the division panics.\<close>

definition put_opaque_object :: "'w call \<Rightarrow> nat list \<Rightarrow> bytes \<Rightarrow> (manifest \<times> 'w, client_error, unit) act" where
  "put_opaque_object call live data =
     abind the_manifest (\<lambda>m.
     abind (alift (rassert (m_kind m = Opaque \<and> m_channels m = 1 \<and> m_nlayers m = 1))) (\<lambda>_.
     let k = unat (m_k m) in
     abind (alift (rassert (k \<noteq> 0))) (\<lambda>_.
     let sym_len = symbol_len_of k (length data) in
     abind (on_manifest (\<lambda>m. m\<lparr>m_sym_len := [word_of_nat sym_len], m_chunk_lens := [word_of_nat (length data)]\<rparr>)) (\<lambda>_.
     let cid = opaque_cid data (m_content_type m) in
     abind (on_manifest (set_cid cid)) (\<lambda>_.
     abind (alift (at_idx (m_n_per_layer m) 0)) (\<lambda>n.
     let ((sl, shards), _) = encode_layer gf_new data (unat n) (cid_seed cid) in
     abind (alift (rassert (sl = sym_len))) (\<lambda>_.
       send_all call live shards)))))))"

definition get_opaque_object :: "'w call \<Rightarrow> manifest \<Rightarrow> nat list \<Rightarrow> ('w, client_error, bytes) act" where
  "get_opaque_object call m live =
     abind (alift (rassert (m_kind m = Opaque))) (\<lambda>_.
     abind (gather_layer call m live 0 0) (\<lambda>raw.
     abind (alift (expected_hashes m 0 0)) (\<lambda>expected.
     abind (alift (at_idx (m_sym_len m) 0)) (\<lambda>sl.
     abind (alift (decode_layer gf_new (verified expected raw) (unat sl))) (\<lambda>decoded.
       case decoded of
         None \<Rightarrow> alift (Inl (Err (LayerLost 0 0)))
       | Some out \<Rightarrow>
           let real_len = (case m_chunk_lens m of r # _ \<Rightarrow> unat r | [] \<Rightarrow> unat (word_of_nat (length out) :: u32))
           in aret (take (min real_len (length out)) out))))))"

section \<open>Repair\<close>

definition count_need :: "manifest \<Rightarrow> u8 \<Rightarrow> u8 \<Rightarrow> nat list \<Rightarrow> nat \<Rightarrow> nat \<Rightarrow> nat \<Rightarrow> ('e, nat) res" where
  "count_need m c l live replacement need idx =
     rbind (place_shard m c l (word_of_nat idx) live) (\<lambda>node.
       Inr (if node = replacement then need + 1 else need))"

text \<open>The inner loop over one node's shards: the length is tested after each of them.\<close>

fun take_donors :: "bytes list \<Rightarrow> nat \<Rightarrow> shard list \<Rightarrow> shard list \<Rightarrow> shard list" where
  "take_donors expected d donors [] = donors"
| "take_donors expected d donors (s # v) =
     (let donors = (if shard_hash s \<in> set expected then donors @ [s] else donors)
      in if length donors \<ge> d then donors else take_donors expected d donors v)"

text \<open>The loop over the other live nodes, with its \<open>break\<close>.\<close>

fun collect_donors :: "'w call \<Rightarrow> manifest \<Rightarrow> u8 \<Rightarrow> u8 \<Rightarrow> bytes list \<Rightarrow> nat \<Rightarrow> shard list \<Rightarrow> nat list \<Rightarrow>
    ('w, client_error, shard list) act" where
  "collect_donors call m c l expected d donors [] = aret donors"
| "collect_donors call m c l expected d donors (node # nodes) =
     abind (alift (at_idx (m_nodes m) node)) (\<lambda>addr.
     abind (rpc call addr (Get (m_object_id m) c l)) (\<lambda>resp.
     abind (alift (expect_shards resp)) (\<lambda>v.
     let donors = take_donors expected d donors v in
     if length donors \<ge> d then aret donors
     else collect_donors call m c l expected d donors nodes)))"

definition client_account :: "nat \<Rightarrow> nat \<Rightarrow> nat \<Rightarrow> nat \<Rightarrow> repair_stats \<Rightarrow> repair_stats" where
  "client_account k slen donors need stats =
     (let k' = word_of_nat k; slen' = word_of_nat slen; d' = word_of_nat donors; need' = word_of_nat need;
          bytes_per_shard = k' + slen'
      in stats\<lparr>
        bytes_downloaded := bytes_downloaded stats + d' * bytes_per_shard,
        bytes_baseline_full := bytes_baseline_full stats + min k' d' * bytes_per_shard,
        gf_muls_baseline := gf_muls_baseline stats + k' * (k' + 1) * (slen' + k') + need' * k' * slen',
        gf_muls_repair := gf_muls_repair stats + need' * d' * (slen' + k')\<rparr>)"

definition push_hash :: "nat \<Rightarrow> nat \<Rightarrow> bytes \<Rightarrow> manifest \<Rightarrow> manifest" where
  "push_hash c l h m = m\<lparr>m_shard_hashes :=
     (m_shard_hashes m)[c := (m_shard_hashes m ! c)[l := m_shard_hashes m ! c ! l @ [h]]]\<rparr>"

text \<open>One fresh shard: its hash is listed before it is sent.\<close>

definition send_fresh :: "'w call \<Rightarrow> nat \<Rightarrow> u8 \<Rightarrow> u8 \<Rightarrow> repair_stats \<Rightarrow> shard \<Rightarrow> (manifest \<times> 'w, client_error, repair_stats) act" where
  "send_fresh call replacement c l stats s =
     abind (on_manifest (push_hash (unat c) (unat l) (shard_hash s))) (\<lambda>_.
     abind the_manifest (\<lambda>m.
     abind (alift (at_idx (m_nodes m) replacement)) (\<lambda>addr.
     abind (on_world (rpc call addr (Put (m_object_id m) c l s))) (\<lambda>resp.
     abind (alift (expect_ack ''expected Ack'' resp)) (\<lambda>_.
       aret (stats\<lparr>shards_generated := shards_generated stats + 1\<rparr>))))))"

text \<open>The generator is a \<open>&mut Rng\<close>, which stays advanced when a later request fails: it is part of the world here.\<close>

definition with_rng :: "'w call \<Rightarrow> ('w \<times> u64) call" where
  "with_rng call addr req = (\<lambda>(w, rng). case call addr req w of (r, w') \<Rightarrow> (r, (w', rng)))"

definition draw :: "(u64 \<Rightarrow> ('e, 'a \<times> u64) res) \<Rightarrow> ('w \<times> u64, 'e, 'a) act" where
  "draw f = (\<lambda>(w, rng). case f rng of Inl e \<Rightarrow> (Inl e, (w, rng)) | Inr (x, rng') \<Rightarrow> (Inr x, (w, rng')))"

definition repair_layer :: "('w \<times> u64) call \<Rightarrow> nat list \<Rightarrow> nat \<Rightarrow> nat \<Rightarrow> repair_stats \<Rightarrow> nat \<times> nat \<Rightarrow>
    (manifest \<times> 'w \<times> u64, client_error, repair_stats) act" where
  "repair_layer call live replacement d stats cl = (case cl of (ci, li) \<Rightarrow>
     let c = word_of_nat ci; l = word_of_nat li in
     abind the_manifest (\<lambda>m.
     abind (alift (at_idx (m_n_per_layer m) li)) (\<lambda>n_total.
     abind (alift (rfold (count_need m c l live replacement) 0 [0..<unat n_total])) (\<lambda>need.
     if need = 0 then aret stats else
     abind (alift (expected_hashes m ci li)) (\<lambda>expected.
     let live_others = filter (\<lambda>n. n \<noteq> replacement) live in
     abind (on_world (collect_donors call m c l expected d [] live_others)) (\<lambda>donors.
     if donors = [] then aret (stats\<lparr>layers_unrecoverable := layers_unrecoverable stats + 1\<rparr>) else
     let donors = take d donors in
     abind (alift (at_idx (m_sym_len m) li)) (\<lambda>slen.
     let stats = client_account (unat (m_k m)) (unat slen) (length donors) need stats in
     abind (on_world (draw (mix_donors gf_new donors need))) (\<lambda>fresh.
     abind (afold (send_fresh call replacement c l) stats fresh) (\<lambda>stats.
       aret (stats\<lparr>layers_repaired := layers_repaired stats + 1\<rparr>))))))))))"

definition layer_pairs :: "manifest \<Rightarrow> (nat \<times> nat) list" where
  "layer_pairs m = concat (map (\<lambda>c. map (\<lambda>l. (c, l)) [0..<unat (m_nlayers m)]) [0..<unat (m_channels m)])"

definition repair_node :: "'w call \<Rightarrow> nat list \<Rightarrow> nat \<Rightarrow> nat \<Rightarrow> (manifest \<times> 'w \<times> u64, client_error, repair_stats) act" where
  "repair_node call live replacement d =
     abind (alift (rassert (replacement \<in> set live))) (\<lambda>_.
     abind the_manifest (\<lambda>m.
     abind (alift (at_idx (m_nodes m) replacement)) (\<lambda>addr.
     abind (on_world (rpc (with_rng call) addr (Purge (m_object_id m)))) (\<lambda>resp.
     abind (alift (expect_ack ''expected Ack from Purge'' resp)) (\<lambda>_.
     abind (afold (repair_layer (with_rng call) live replacement d) default_stats (layer_pairs m)) (\<lambda>stats.
     abind (on_manifest (\<lambda>m. m\<lparr>m_merkle_root := merkle_root (concat (concat (m_shard_hashes m)))\<rparr>)) (\<lambda>_.
       aret stats)))))))"

section \<open>Purging, discovery and authentication\<close>

definition purge_step :: "'w call \<Rightarrow> manifest \<Rightarrow> unit \<Rightarrow> nat \<Rightarrow> ('w, client_error, unit) act" where
  "purge_step call m u node =
     abind (alift (at_idx (m_nodes m) node)) (\<lambda>addr.
     abind (rpc call addr (Purge (m_object_id m))) (\<lambda>resp.
       alift (expect_ack ''expected Ack from Purge'' resp)))"

definition purge_object :: "'w call \<Rightarrow> manifest \<Rightarrow> nat list \<Rightarrow> ('w, client_error, unit) act" where
  "purge_object call m live = afold (purge_step call m) () live"

definition discover_step :: "'w call \<Rightarrow> nat list \<times> 'w \<Rightarrow> nat \<times> string \<Rightarrow> nat list \<times> 'w" where
  "discover_step call st ia = (case st of (live, w) \<Rightarrow> (case ia of (i, addr) \<Rightarrow>
     (case call addr Ping w of (r, w') \<Rightarrow> (if r = Inr Pong then live @ [i] else live, w'))))"

definition discover_live :: "'w call \<Rightarrow> manifest \<Rightarrow> 'w \<Rightarrow> nat list \<times> 'w" where
  "discover_live call m w = fold (\<lambda>ia st. discover_step call st ia) (zip [0..<length (m_nodes m)] (m_nodes m)) ([], w)"

text \<open>The nonce is drawn fresh for each check.\<close>

definition auth_check :: "'w call \<Rightarrow> ed25519 \<Rightarrow> bytes \<Rightarrow> string \<Rightarrow> bytes \<Rightarrow> 'w \<Rightarrow> bool \<times> 'w" where
  "auth_check call ed nonce addr expected_pubkey w =
     (case call addr (AuthChallenge nonce) w of (r, w') \<Rightarrow>
        ((case r of
            Inl _ \<Rightarrow> False
          | Inr (AuthChallengeOk sig) \<Rightarrow> verify_challenge ed expected_pubkey nonce sig
          | Inr _ \<Rightarrow> False), w'))"

definition discover_wl_step :: "'w call \<Rightarrow> ed25519 \<Rightarrow> (nat \<Rightarrow> bytes) \<Rightarrow> whitelist \<Rightarrow> nat list \<times> 'w \<Rightarrow> nat \<times> string \<Rightarrow> nat list \<times> 'w" where
  "discover_wl_step call ed nonces wl st ia = (case st of (live, w) \<Rightarrow> (case ia of (i, addr) \<Rightarrow>
     (case lookup_by_addr addr wl of
        None \<Rightarrow> (live, w)
      | Some entry \<Rightarrow>
          (case call addr Ping w of (r, w) \<Rightarrow>
             if r = Inr Pong then
               (case auth_check call ed (nonces i) addr (wl_pubkey entry) w of (ok, w) \<Rightarrow>
                  (if ok then live @ [i] else live, w))
             else (live, w)))))"

definition discover_live_with_whitelist :: "'w call \<Rightarrow> ed25519 \<Rightarrow> (nat \<Rightarrow> bytes) \<Rightarrow> manifest \<Rightarrow> whitelist \<Rightarrow> 'w \<Rightarrow> nat list \<times> 'w" where
  "discover_live_with_whitelist call ed nonces m wl w =
     fold (\<lambda>ia st. discover_wl_step call ed nonces wl st ia) (zip [0..<length (m_nodes m)] (m_nodes m)) ([], w)"

end
