(* ===== verification/Integrity.thy ===== *)
theory Integrity
  imports Client
begin

text \<open>
  What a client may rely on when nothing is known of the nodes. \<open>represents\<close> relates a manifest to an
  object: the hashes it lists for a (channel, layer) pair are the hashes of a set of shards that one
  source explains. \<open>safe\<close> says that the network does not answer with a different shard of the same hash.
  Under these, the readers are shown to return the object's data or to report the loss, \<open>put\<close> to
  establish \<open>represents\<close>, and \<open>repair_node\<close> to keep it, whether it ends well or in an error.
\<close>

section \<open>Verified shards are shards of the object\<close>

definition represents :: "manifest \<Rightarrow> nat \<Rightarrow> nat \<Rightarrow> nat \<Rightarrow> bytes list \<Rightarrow> shard set \<Rightarrow> bool" where
  "represents m c l sl X A \<longleftrightarrow>
     c < length (m_shard_hashes m) \<and> l < length (m_shard_hashes m ! c) \<and>
     set (m_shard_hashes m ! c ! l) \<subseteq> shard_hash ` A \<and>
     l < length (m_sym_len m) \<and> unat (m_sym_len m ! l) = sl \<and>
     source_ok K sl X \<and> (\<forall>s \<in> A. consistent (gf_mul gf_new) sl X s)"

definition safe :: "'w call \<Rightarrow> shard set \<Rightarrow> bool" where
  "safe call A \<longleftrightarrow> (\<forall>addr oid c l w v w'. call addr (Get oid c l) w = (Inr (Shards v), w') \<longrightarrow>
     (\<forall>s \<in> set v. \<forall>t \<in> A. shard_hash s = shard_hash t \<longrightarrow> s = t))"

lemma represents_expected:
  "represents m c l sl X A \<Longrightarrow> expected_hashes m c l = Inr (m_shard_hashes m ! c ! l)"
  by (simp add: represents_def expected_hashes_def)

lemma represents_sym_len:
  "represents m c l sl X A \<Longrightarrow> at_idx (m_sym_len m) l = Inr (m_sym_len m ! l)"
  by (simp add: represents_def)

lemma authentic:
  assumes "represents m c l sl X A" and "\<forall>s \<in> set raw. \<forall>t \<in> A. shard_hash s = shard_hash t \<longrightarrow> s = t"
    and "s \<in> set raw" and "shard_hash s \<in> set (m_shard_hashes m ! c ! l)"
  shows "s \<in> A"
  using assms unfolding represents_def by (metis (no_types, lifting) image_iff subsetD)

lemma explains_authentic:
  "represents m c l sl X A \<Longrightarrow> set ss \<subseteq> A \<Longrightarrow> explains K sl ss X"
  by (auto simp: represents_def explains_def)

lemma rpc_Inr: "rpc call addr req w = (Inr resp, w') \<longleftrightarrow> call addr req w = (Inr resp, w')"
proof -
  obtain r w1 where c: "call addr req w = (r, w1)" by force
  have "map_err CIo r = Inr resp \<longleftrightarrow> r = Inr resp"
    by (cases r; cases "projl r") (auto simp: map_err_def)
  then show ?thesis by (auto simp: rpc_def c)
qed

lemma expect_shards_Inr: "expect_shards resp = Inr v \<longleftrightarrow> resp = Shards v"
  by (cases resp) (auto simp: expect_shards_def)

lemma expect_ack_Inr: "expect_ack what resp = Inr u \<longleftrightarrow> resp = Ack"
  by (cases resp) (auto simp: expect_ack_def)

text \<open>Everything \<open>gather_layer\<close> returns was in some node's answer.\<close>

lemma gather_safe:
  assumes "safe call A" and "gather_layer call m live c l w = (Inr raw, w')"
  shows "\<forall>s \<in> set raw. \<forall>t \<in> A. shard_hash s = shard_hash t \<longrightarrow> s = t"
proof -
  define P where "P = (\<lambda>raw (w :: 'a). \<forall>s \<in> set raw. \<forall>t \<in> A. shard_hash s = shard_hash t \<longrightarrow> s = t)"
  have "case Inr raw of Inr b \<Rightarrow> P b w' | Inl (e :: client_error fault) \<Rightarrow> True"
  proof (rule afold_invariant)
    show "afold (gather_step call m c l) [] live w = (Inr raw, w')"
      using assms(2) by (simp add: gather_layer_def)
    show "P [] w" by (simp add: P_def)
    show "case gather_step call m c l acc node w of (Inr b', s1) \<Rightarrow> P b' s1 | (Inl e, s1) \<Rightarrow> True"
      if "P acc w" for acc node w
    proof (cases "gather_step call m c l acc node w")
      case (Pair r w1)
      show ?thesis
      proof (cases r)
        case (Inr b)
        then have "gather_step call m c l acc node w = (Inr b, w1)" using Pair by simp
        then obtain addr v where "call addr (Get (m_object_id m) c l) w = (Inr (Shards v), w1)" "b = acc @ v"
          by (auto simp: gather_step_def abind_Inr alift_def aret_def rpc_Inr expect_shards_Inr)
        with assms(1) that Pair Inr show ?thesis unfolding safe_def P_def by (simp add: ball_Un) blast
      qed (use Pair in simp)
    qed
  qed
  then show ?thesis by (simp add: P_def)
qed

lemma verified_authentic:
  assumes "represents m c l sl X A" and "safe call A" and "gather_layer call m live u v w = (Inr raw, w')"
  shows "set (verified (m_shard_hashes m ! c ! l) raw) \<subseteq> A"
  using authentic[OF assms(1) gather_safe[OF assms(2,3)]] by (auto simp: verified_def)

section \<open>The readers\<close>

lemma get_opaque_spec:
  assumes rep: "represents m 0 0 sl (chunks_of K sl (pad_to (K * sl) data)) A" and kind: "m_kind m = Opaque"
    and lens: "m_chunk_lens m = [word_of_nat (length data)]" "length data < 2 ^ 32" "length data \<le> K * sl" "0 < sl"
    and safe: "safe call A" and g: "gather_layer call m live 0 0 w = (Inr raw, w')"
  shows "get_opaque_object call m live w =
    (if \<forall>Z. explains K sl (verified (m_shard_hashes m ! 0 ! 0) raw) Z \<longrightarrow> Z = chunks_of K sl (pad_to (K * sl) data)
     then Inr data else Inl (Err (LayerLost 0 0)), w')"
proof -
  let ?X = "chunks_of K sl (pad_to (K * sl) data)" and ?v = "verified (m_shard_hashes m ! 0 ! 0) raw"
  have ex: "explains K sl ?v ?X" by (rule explains_authentic[OF rep verified_authentic[OF rep safe g]])
  have sl: "unat (m_sym_len m ! 0) = sl" using rep by (simp add: represents_def)
  have dec: "decode_layer gf_new ?v (unat (m_sym_len m ! 0)) =
      (Inr (if \<forall>Z. explains K sl ?v Z \<longrightarrow> Z = ?X then Some (concat ?X) else None) :: (client_error, _) res)"
    unfolding sl by (rule decode_layer_spec[OF ex lens(4)])
  have "length (concat ?X) = K * sl" by (simp add: concat_chunks_of)
  then have "take (min (length data) (length (concat ?X))) (concat ?X) = data"
    using concat_encoded[OF lens(3)] lens(3) by (simp add: min_def)
  then show ?thesis
    using kind lens(1,2)
    by (simp add: represents_expected[OF rep] represents_sym_len[OF rep] get_opaque_object_def abind_step[where m = "gather_layer call m live 0 0", OF g] abind_alift_run dec)
qed

lemma gather_stops:
  assumes "gather_layer call m live 0 0 w = (Inl e, w')"
  shows "m_kind m = Opaque \<Longrightarrow> get_opaque_object call m live w = (Inl e, w')"
    and "m_kind m = Text \<Longrightarrow> get_text_object_with_holes call m live w = (Inl e, w')"
  using assms by (simp_all add: get_opaque_object_def get_text_object_with_holes_def abind_stop[where m = "gather_layer call m live 0 0", OF assms])

lemma get_text_spec:
  assumes rep: "represents m 0 0 sl X A" and kind: "m_kind m = Text" and sl: "0 < sl"
    and safe: "safe call A" and g: "gather_layer call m live 0 0 w = (Inr raw, w')"
  shows "get_text_object_with_holes call m live w =
    (Inr (assemble (map (\<lambda>i. if \<exists>Z. explains K sl (verified (m_shard_hashes m ! 0 ! 0) raw) Z \<and> Z ! i \<noteq> X ! i
       then None else Some (X ! i)) [0..<K]) (m_chunk_lens m)), w')"
proof -
  let ?v = "verified (m_shard_hashes m ! 0 ! 0) raw"
  have ex: "explains K sl ?v X" by (rule explains_authentic[OF rep verified_authentic[OF rep safe g]])
  have u: "unat (m_sym_len m ! 0) = sl" using rep by (simp add: represents_def)
  have "map (\<lambda>i. if \<forall>Z. explains K sl ?v Z \<longrightarrow> Z ! i = X ! i then Some (X ! i) else None) [0..<K] =
      map (\<lambda>i. if \<exists>Z. explains K sl ?v Z \<and> Z ! i \<noteq> X ! i then None else Some (X ! i)) [0..<K]"
    by (rule map_cong[OF refl]) auto
  with decode_holes_spec[OF ex sl, where 'e = client_error]
  have dec: "decode_layer_with_holes gf_new ?v (unat (m_sym_len m ! 0)) =
      (Inr (map (\<lambda>i. if \<exists>Z. explains K sl ?v Z \<and> Z ! i \<noteq> X ! i then None else Some (X ! i)) [0..<K])
       :: (client_error, _) res)" unfolding u by simp
  show ?thesis
    using kind
    by (simp add: represents_expected[OF rep] represents_sym_len[OF rep] get_text_object_with_holes_def abind_step[where m = "gather_layer call m live 0 0", OF g] abind_alift_run dec)
qed

section \<open>Putting establishes the relation\<close>

lemma on_world_run: "on_world m (mf, w) = (case m w of (r, w') \<Rightarrow> (r, (mf, w')))"
  by (simp add: on_world_def)

lemma on_manifest_run: "on_manifest f (mf, w) = (Inr (), (f mf, w))"
  by (simp add: on_manifest_def)

lemma the_manifest_run: "the_manifest (mf, w) = (Inr mf, (mf, w))"
  by (simp add: the_manifest_def)

lemma abind_manifest: "abind the_manifest f (mf, w) = f mf (mf, w)"
  by (simp add: abind_def the_manifest_run)

lemma abind_on_manifest: "abind (on_manifest g) f (mf, w) = f () (g mf, w)"
  by (simp add: abind_def on_manifest_run)

lemma abind_on_world: "abind (on_world g) f (mf, w) =
    (case g w of (Inl e, w') \<Rightarrow> (Inl e, (mf, w')) | (Inr x, w') \<Rightarrow> f x (mf, w'))"
  by (auto simp: abind_def on_world_run split: prod.splits sum.splits)

lemma if_run: "(if b then f else g) s = (if b then f s else g s)"
  by simp

lemma prod_run: "(case p of (a, b) \<Rightarrow> f a b) s = (case p of (a, b) \<Rightarrow> f a b s)"
  by (cases p) simp

lemma abind_aret_state: "abind f (\<lambda>x. aret (g x)) s = (r, s') \<Longrightarrow> \<exists>r1. f s = (r1, s')"
  by (auto simp: abind_def split: prod.splits sum.splits)

lemmas manifest_run = abind_manifest abind_on_manifest abind_on_world abind_alift_run if_run prod_run

lemma send_shard_manifest: "send_shard call live c l idx s (m, w) = (r, (m', w')) \<Longrightarrow> m' = m"
  unfolding send_shard_def abind_manifest abind_alift_run
  by (auto simp: abind_def on_world_run split: sum.splits prod.splits)

lemma send_step_run: "send_step call live hs (i, s) st = (case send_shard call live 0 0 i s st of
    (Inl e, st') \<Rightarrow> (Inl e, st') | (Inr u, st') \<Rightarrow> (Inr (hs @ [shard_hash s]), st'))"
  by (auto simp: send_step_def abind_def split: sum.splits prod.splits)

lemma send_loop:
  "afold (send_step call live) hs (zip [i..<i + length ss] ss) (m, w) = (r, (m', w')) \<Longrightarrow>
     m' = m \<and> (case r of Inr hs' \<Rightarrow> hs' = hs @ map shard_hash ss | Inl e \<Rightarrow> True)"
proof (induction ss arbitrary: hs i w)
  case (Cons s ss)
  define zs where "zs = zip [Suc i..<Suc i + length ss] ss"
  have z: "zip [i..<i + length (s # ss)] (s # ss) = (i, s) # zs"
    by (simp add: zs_def upt_conv_Cons del: upt_Suc)
  obtain r1 m1 w1 where s1: "send_shard call live 0 0 i s (m, w) = (r1, (m1, w1))" by (metis prod.exhaust)
  then have m1: "m1 = m" by (rule send_shard_manifest)
  show ?case
  proof (cases r1)
    case (Inl e)
    with Cons.prems[unfolded z] s1 m1 show ?thesis by (auto simp: send_step_run abind_def)
  next
    case (Inr u)
    then have "send_step call live hs (i, s) (m, w) = (Inr (hs @ [shard_hash s]), (m, w1))"
      using s1 m1 by (simp add: send_step_run)
    then have "afold (send_step call live) (hs @ [shard_hash s]) zs (m, w1) = (r, (m', w'))"
      using Cons.prems[unfolded z] by (simp add: abind_step)
    from Cons.IH[OF this[unfolded zs_def]] show ?thesis by (simp split: sum.splits)
  qed
next
  case Nil
  then show ?case by (cases r) auto
qed

lemma send_all_spec:
  assumes "send_all call live shards (m, w) = (Inr u, (m', w'))"
  shows "m' = m\<lparr>m_shard_hashes := [[map shard_hash shards]], m_merkle_root := merkle_root (map shard_hash shards)\<rparr>"
proof -
  obtain hs m1 w1 where l: "afold (send_step call live) [] (zip [0..<length shards] shards) (m, w) = (Inr hs, (m1, w1))"
    and m': "m' = m1\<lparr>m_shard_hashes := [[hs]], m_merkle_root := merkle_root hs\<rparr>"
    using assms by (auto simp: send_all_def abind_Inr on_manifest_run)
  have "m1 = m \<and> hs = map shard_hash shards"
    using send_loop[of call live "[]" 0 shards m w "Inr hs" m1 w1] l by simp
  with m' show ?thesis by simp
qed

definition opaque_shards :: "manifest \<Rightarrow> bytes \<Rightarrow> shard list" where
  "opaque_shards m data = snd (fst (encode_layer gf_new data (unat (m_n_per_layer m ! 0))
     (cid_seed (opaque_cid data (m_content_type m)))))"

lemma encoded_represents:
  assumes "encode_layer gf_new data n rng = ((sl, ss), rng')" and "data \<noteq> []" and "length data < 2 ^ 32"
    and "m_shard_hashes m = [[map shard_hash ss]]" and "m_sym_len m = [word_of_nat sl]"
  shows "represents m 0 0 sl (chunks_of K sl (pad_to (K * sl) data)) (set ss)"
    and "0 < sl" and "length data \<le> K * sl"
proof -
  have e: "encode_layer_with_k gf_new data K n rng = Inr ((sl, ss), rng')"
    using assms(1) by (simp add: encode_layer_is_with_k)
  show "0 < sl" "length data \<le> K * sl" using encoded_sl_pos[OF e assms(2)] by simp_all
  have "sl = symbol_len_of K (length data)" by (rule encode_with_k_props(2)[OF e])
  also have "\<dots> \<le> length data" using assms(2) by (cases data) (simp_all add: symbol_len_of_def K_def)
  finally have "unat (word_of_nat sl :: u32) = sl" using assms(3) by (simp add: unat_of_nat take_bit_nat_eq_self)
  with encoded_explains[OF e order_refl] assms(4,5)
  show "represents m 0 0 sl (chunks_of K sl (pad_to (K * sl) data)) (set ss)"
    by (simp add: represents_def explains_def)
qed

lemma put_opaque_spec:
  assumes "put_opaque_object call live data (m, w) = (Inr u, (m', w'))" and "data \<noteq> []" and "length data < 2 ^ 32"
  defines "sl \<equiv> symbol_len_of K (length data)"
  shows "represents m' 0 0 sl (chunks_of K sl (pad_to (K * sl) data)) (set (opaque_shards m data))"
    and "0 < sl" and "length data \<le> K * sl" and "m_kind m' = Opaque" and "m_chunk_lens m' = [word_of_nat (length data)]"
    and "m_shard_hashes m' = [[map shard_hash (opaque_shards m data)]]"
    and "length (opaque_shards m data) = unat (m_n_per_layer m ! 0)"
    and "K \<le> unat (m_n_per_layer m ! 0) \<Longrightarrow>
      take K (opaque_shards m data) = map (systematic (pad_to (K * sl) data) K sl) [0..<K]"
    and "m_nodes m' = m_nodes m"
proof -
  let ?cid = "opaque_cid data (m_content_type m)" and ?n = "m_n_per_layer m ! 0"
  let ?sl = "symbol_len_of (unat (m_k m)) (length data)"
  have sl_def': "sl = symbol_len_of K (length data)" by (simp add: sl_def)
  define m1 where "m1 = set_cid ?cid (m\<lparr>m_sym_len := [word_of_nat ?sl], m_chunk_lens := [word_of_nat (length data)]\<rparr>)"
  obtain sl0 ss rng' where e0: "encode_layer gf_new data (unat ?n) (cid_seed ?cid) = ((sl0, ss), rng')"
    by (metis prod.exhaust)
  then have k: "encode_layer_with_k gf_new data K (unat ?n) (cid_seed ?cid) = Inr ((sl0, ss), rng')"
    by (simp add: encode_layer_is_with_k)
  note props = encode_with_k_props[OF k]
  have e: "encode_layer gf_new data (unat ?n) (cid_seed ?cid) = ((sl, ss), rng')" and k': "sl0 = sl"
    using e0 props(2) by (simp_all add: sl_def')
  have run: "m_kind m = Opaque" "sl = ?sl" "send_all call live ss (m1, w) = (Inr u, (m', w'))"
    using assms(1) e unfolding put_opaque_object_def abind_manifest
    by (auto simp: abind_alift_run abind_on_manifest Let_def m1_def set_cid_def at_idx_def rassert_def
        split: sum.splits if_splits)
  from send_all_spec[OF run(3)]
  have m': "m_shard_hashes m' = [[map shard_hash ss]]" "m_sym_len m' = [word_of_nat sl]" "m_kind m' = Opaque"
    "m_chunk_lens m' = [word_of_nat (length data)]" "m_nodes m' = m_nodes m"
    using run(1,2) by (simp_all add: m1_def set_cid_def)
  then show "m_nodes m' = m_nodes m" by simp
  have ss: "opaque_shards m data = ss" by (simp add: opaque_shards_def e)
  show "represents m' 0 0 sl (chunks_of K sl (pad_to (K * sl) data)) (set (opaque_shards m data))"
    "0 < sl" "length data \<le> K * sl" unfolding ss by (rule encoded_represents[OF e assms(2,3) m'(1,2)])+
  show "m_kind m' = Opaque" "m_chunk_lens m' = [word_of_nat (length data)]"
    "m_shard_hashes m' = [[map shard_hash (opaque_shards m data)]]" using m' by (simp_all add: ss)
  show "length (opaque_shards m data) = unat ?n" using props(3) by (simp add: ss)
  show "take K (opaque_shards m data) = map (systematic (pad_to (K * sl) data) K sl) [0..<K]"
    if "K \<le> unat ?n"
    using that props(3,5) k' by (intro nth_equalityI) (auto simp: ss)
qed

definition text_shards :: "manifest \<Rightarrow> string \<Rightarrow> bytes \<Rightarrow> shard list" where
  "text_shards m text padded = snd (fst (encode_layer gf_new padded (unat (m_n_per_layer m ! 0))
     (cid_seed (text_cid text (m_content_type m)))))"

lemma put_text_spec:
  assumes "put_text_object call live text (m, w) = (Inr u, (m', w'))"
    and "split_text text = (Inr ts :: (client_error, _) res)" and "0 < ts_sym_len ts"
    and "length (ts_padded ts) = K * ts_sym_len ts" and "length (ts_padded ts) < 2 ^ 32"
  shows "represents m' 0 0 (ts_sym_len ts) (chunks_of K (ts_sym_len ts) (ts_padded ts)) (set (text_shards m text (ts_padded ts)))"
    and "m_kind m' = Text" and "m_chunk_lens m' = ts_chunk_lens ts" and "m_text_minhash m' = compute_minhash text"
proof -
  let ?cid = "text_cid text (m_content_type m)" and ?n = "m_n_per_layer m ! 0"
  define m1 where "m1 = set_cid ?cid (m\<lparr>m_chunk_lens := ts_chunk_lens ts, m_sym_len := [word_of_nat (ts_sym_len ts)],
    m_text_minhash := compute_minhash text\<rparr>)"
  obtain sl ss rng' where e: "encode_layer gf_new (ts_padded ts) (unat ?n) (cid_seed ?cid) = ((sl, ss), rng')"
    by (metis prod.exhaust)
  have run: "m_kind m = Text" "send_all call live ss (m1, w) = (Inr u, (m', w'))"
    using assms(1,2) e unfolding put_text_object_def abind_manifest
    by (auto simp: abind_alift_run abind_on_manifest Let_def m1_def set_cid_def at_idx_def rassert_def
        split: sum.splits if_splits)
  from send_all_spec[OF run(2)]
  have m': "m_shard_hashes m' = [[map shard_hash ss]]" "m_sym_len m' = [word_of_nat (ts_sym_len ts)]"
    and fields: "m_kind m' = Text" "m_chunk_lens m' = ts_chunk_lens ts" "m_text_minhash m' = compute_minhash text"
    using run(1) by (simp_all add: m1_def set_cid_def)
  have "encode_layer_with_k gf_new (ts_padded ts) K (unat ?n) (cid_seed ?cid) = Inr ((sl, ss), rng')"
    using e by (simp add: encode_layer_is_with_k)
  from encode_with_k_props(2)[OF this]
  have sl: "sl = ts_sym_len ts" using assms(4) by (simp add: symbol_len_of_def K_def)
  have ne: "ts_padded ts \<noteq> []" using assms(3,4) by (auto simp: K_def)
  have "pad_to (K * ts_sym_len ts) (ts_padded ts) = ts_padded ts" using assms(4) by (simp add: pad_to_def)
  with encoded_represents(1)[OF e ne assms(5) m'(1)] m'(2) sl
  show "represents m' 0 0 (ts_sym_len ts) (chunks_of K (ts_sym_len ts) (ts_padded ts)) (set (text_shards m text (ts_padded ts)))"
    by (simp add: text_shards_def e)
  show "m_kind m' = Text" "m_chunk_lens m' = ts_chunk_lens ts" "m_text_minhash m' = compute_minhash text"
    using fields by simp_all
qed

section \<open>Repair keeps the relation\<close>

definition add_hashes :: "nat \<Rightarrow> nat \<Rightarrow> bytes list \<Rightarrow> manifest \<Rightarrow> manifest" where
  "add_hashes c l hs m = m\<lparr>m_shard_hashes :=
     (m_shard_hashes m)[c := (m_shard_hashes m ! c)[l := m_shard_hashes m ! c ! l @ hs]]\<rparr>"

lemma add_hashes_Nil [simp]: "add_hashes c l [] m = m"
  by (simp add: add_hashes_def)

lemma push_add_hashes:
  "c < length (m_shard_hashes m) \<Longrightarrow> l < length (m_shard_hashes m ! c) \<Longrightarrow>
     push_hash c l h (add_hashes c l hs m) = add_hashes c l (hs @ [h]) m"
  by (simp add: push_hash_def add_hashes_def)

lemma represents_add:
  assumes "represents m c l sl X A" and "\<forall>s \<in> set ss. consistent (gf_mul gf_new) sl X s"
  shows "represents (add_hashes c l (map shard_hash ss) m) c l sl X (A \<union> set ss)"
  using assms by (auto simp: represents_def add_hashes_def)

lemma represents_add_other:
  assumes "represents m c l sl X A" and "(c, l) \<noteq> (c', l')"
  shows "represents (add_hashes c' l' hs m) c l sl X A"
  using assms by (cases "c' = c") (auto simp: represents_def add_hashes_def)

lemma send_fresh_manifest:
  assumes "send_fresh call repl c l st s (m, w) = (r, (m', w'))"
  shows "m' = push_hash (unat c) (unat l) (shard_hash s) m"
  using assms unfolding send_fresh_def abind_on_manifest abind_manifest abind_alift_run
  by (auto simp: abind_def on_world_run split: sum.splits prod.splits)

lemma send_fresh_loop:
  assumes "afold (send_fresh call repl c l) st ss (m, w) = (r, (m', w'))"
    and "unat c < length (m_shard_hashes m)" and "unat l < length (m_shard_hashes m ! unat c)"
  shows "\<exists>pre. set pre \<subseteq> set ss \<and> m' = add_hashes (unat c) (unat l) (map shard_hash pre) m"
proof -
  define P where "P = (\<lambda>mw :: manifest \<times> 'a. \<exists>pre. set pre \<subseteq> set ss \<and> fst mw = add_hashes (unat c) (unat l) (map shard_hash pre) m)"
  have "case r of Inr b \<Rightarrow> P (m', w') | Inl e \<Rightarrow> P (m', w')"
  proof (rule afold_invariant[OF assms(1), of "\<lambda>_. P" "\<lambda>_. P"])
    show "P (m, w)" unfolding P_def by (rule exI[of _ "[]"]) simp
    fix b s mw assume s: "s \<in> set ss" and "P mw"
    then obtain pre where pre: "set pre \<subseteq> set ss" "fst mw = add_hashes (unat c) (unat l) (map shard_hash pre) m"
      by (auto simp: P_def)
    obtain r1 m1 w1 where r1: "send_fresh call repl c l b s (fst mw, snd mw) = (r1, (m1, w1))" by (metis prod.exhaust)
    have "m1 = add_hashes (unat c) (unat l) (map shard_hash (pre @ [s])) m"
      using send_fresh_manifest[OF r1] push_add_hashes[OF assms(2,3)] pre(2) by simp
    then have "P (m1, w1)" using pre(1) s by (auto simp: P_def intro!: exI[of _ "pre @ [s]"])
    then show "case send_fresh call repl c l b s mw of (Inl e, s1) \<Rightarrow> P s1 | (Inr b', s1) \<Rightarrow> P s1"
      using r1 by (simp split: sum.split)
  qed
  then show ?thesis by (simp add: P_def split: sum.splits)
qed

lemma take_donors_sub:
  "set (take_donors expected d ds v) \<subseteq> set ds \<union> {s \<in> set v. shard_hash s \<in> set expected}"
  by (induction expected d ds v rule: take_donors.induct) (auto simp: Let_def split: if_splits)

lemma donors_authentic:
  assumes "collect_donors call m c l (m_shard_hashes m ! ci ! li) d ds nodes w = (Inr donors, w')"
    and "represents m ci li sl X A" and "safe call A" and "set ds \<subseteq> A"
  shows "set donors \<subseteq> A"
  using assms(1,4)
proof (induction nodes arbitrary: ds w)
  case (Cons node nodes)
  let ?ex = "m_shard_hashes m ! ci ! li"
  obtain addr v w1 where g: "call addr (Get (m_object_id m) c l) w = (Inr (Shards v), w1)"
    and rest: "(let ds = take_donors ?ex d ds v in if length ds \<ge> d then aret ds
       else collect_donors call m c l ?ex d ds nodes) w1 = (Inr donors, w')"
    using Cons.prems(1) by (auto simp: abind_Inr alift_def rpc_Inr expect_shards_Inr)
  have v: "\<forall>s \<in> set v. \<forall>t \<in> A. shard_hash s = shard_hash t \<longrightarrow> s = t"
    using assms(3) g unfolding safe_def by blast
  have "set (take_donors ?ex d ds v) \<subseteq> A"
    using take_donors_sub[of ?ex d ds v] Cons.prems(2) authentic[OF assms(2) v] by blast
  with rest Cons.IH show ?case by (auto simp: Let_def split: if_splits)
qed simp

lemma safe_with_rng: "safe call A \<Longrightarrow> safe (with_rng call) A"
  unfolding safe_def with_rng_def by (fastforce split: prod.splits)

lemma repair_layer_keeps:
  assumes run: "repair_layer call live repl d stats (ci, li) (m, w) = (r, (m', w'))"
    and rep: "represents m ci li sl X A" and "safe call A" and small: "ci < 256" "li < 256"
  shows "\<exists>ss. m' = add_hashes ci li (map shard_hash ss) m \<and> represents m' ci li sl X (A \<union> set ss)"
proof -
  let ?c = "word_of_nat ci :: u8" and ?l = "word_of_nat li :: u8"
  let ?ok = "\<lambda>m'. \<exists>ss. m' = add_hashes ci li (map shard_hash ss) m \<and> represents m' ci li sl X (A \<union> set ss)"
  have u: "unat ?c = ci" "unat ?l = li" using small by (simp_all add: unat_of_nat take_bit_nat_eq_self)
  have keep: "?ok m" using rep by (intro exI[of _ "[]"]) simp
  have b: "ci < length (m_shard_hashes m)" "li < length (m_shard_hashes m ! ci)" using rep by (simp_all add: represents_def)
  show ?thesis
  proof (cases "m' = m")
    case False
    obtain dn w1 where c: "collect_donors call m ?c ?l (m_shard_hashes m ! ci ! li) d [] (filter (\<lambda>n. n \<noteq> repl) live) w = (dn, w1)"
      by (metis surj_pair)
    obtain w2 rng where w1: "w1 = (w2, rng)" by force
    note run' = run[unfolded repair_layer_def prod.case Let_def manifest_run represents_expected[OF rep]
        represents_sym_len[OF rep] c sum.case]
    obtain donors where dn: "dn = Inr donors"
      using run' False by (cases dn) (auto split: sum.splits if_splits)
    have "set donors \<subseteq> A" using donors_authentic[OF c[unfolded dn] rep assms(3)] by simp
    then have "\<forall>s \<in> set (take d donors). consistent (gf_mul gf_new) sl X s" and X: "source_ok K sl X"
      using rep by (auto simp: represents_def dest!: in_set_takeD)
    note mix = mix_donors_ok[OF X this(1), where 'e = client_error]
    obtain need fresh rng' stats r1 where f: "mix_donors gf_new (take d donors) need rng = (Inr (fresh, rng') :: (client_error, _) res)"
      and send: "afold (send_fresh call repl ?c ?l) stats fresh (m, (w2, rng')) = (r1, (m', w'))"
      using run' False mix dn
      by (auto simp: w1 draw_def split: sum.splits if_splits dest!: abind_aret_state)
    have "\<forall>s \<in> set fresh. consistent (gf_mul gf_new) sl X s"
      using mix[of need rng] f by auto
    with send_fresh_loop[OF send] b u represents_add[OF rep] show ?thesis by (metis subsetD)
  qed (use keep in simp)
qed

lemma same_hashes: "\<exists>hs. m = m\<lparr>m_shard_hashes := hs\<rparr>"
  by (rule exI[of _ "m_shard_hashes m"]) simp

lemma layer_pairs_product: "layer_pairs m = List.product [0..<unat (m_channels m)] [0..<unat (m_nlayers m)]"
  by (simp add: layer_pairs_def product_concat_map)

lemma repair_layers_keep:
  assumes "afold (repair_layer call live repl d) st ps (m, w) = (r, (m', w'))" and "distinct ps"
    and "\<forall>(c, l) \<in> set ps. represents m c l (sl l) (X c l) (A c l) \<and> safe call (A c l) \<and> c < 256 \<and> l < 256"
    and "\<forall>(c, l) \<in> Q. \<exists>B. A c l \<subseteq> B \<and> represents m c l (sl l) (X c l) B"
  shows "(\<forall>(c, l) \<in> Q. \<exists>B. A c l \<subseteq> B \<and> represents m' c l (sl l) (X c l) B) \<and>
    (\<exists>hs. m' = m\<lparr>m_shard_hashes := hs\<rparr>)"
  using assms
proof (induction ps arbitrary: st m w)
  case Nil
  then have "m' = m" by simp
  with Nil.prems(4) same_hashes[of m] show ?case by blast
next
  case (Cons p ps)
  obtain c l where p: "p = (c, l)" by force
  have now: "represents m c l (sl l) (X c l) (A c l)" "safe call (A c l)" "c < 256" "l < 256"
    using Cons.prems(3) p by simp_all
  obtain r1 m1 w1 where run: "repair_layer call live repl d st (c, l) (m, w) = (r1, (m1, w1))" by (metis prod.exhaust)
  obtain ss where m1: "m1 = add_hashes c l (map shard_hash ss) m" and rep: "represents m1 c l (sl l) (X c l) (A c l \<union> set ss)"
    using repair_layer_keeps[OF run now] by blast
  have Q: "\<forall>(c, l) \<in> Q. \<exists>B. A c l \<subseteq> B \<and> represents m1 c l (sl l) (X c l) B"
  proof (intro ballI, clarify)
    fix c' l' assume q: "(c', l') \<in> Q"
    show "\<exists>B. A c' l' \<subseteq> B \<and> represents m1 c' l' (sl l') (X c' l') B"
    proof (cases "(c', l') = (c, l)")
      case True
      with rep show ?thesis by auto
    next
      case False
      obtain B where B: "A c' l' \<subseteq> B" "represents m c' l' (sl l') (X c' l') B" using q Cons.prems(4) by auto
      show ?thesis unfolding m1 by (rule exI[of _ B]) (rule conjI[OF B(1) represents_add_other[OF B(2) False]])
    qed
  qed
  have hs: "\<exists>hs. m1 = m\<lparr>m_shard_hashes := hs\<rparr>" by (auto simp: m1 add_hashes_def)
  show ?case
  proof (cases r1)
    case (Inl e)
    then have "m' = m1" using Cons.prems(1) run p by (simp add: abind_def)
    with Q hs show ?thesis by simp
  next
    case (Inr st1)
    have rest: "afold (repair_layer call live repl d) st1 ps (m1, w1) = (r, (m', w'))"
      using Cons.prems(1) run p Inr by (simp add: abind_def)
    have "\<forall>(c, l) \<in> set ps. represents m1 c l (sl l) (X c l) (A c l) \<and> safe call (A c l) \<and> c < 256 \<and> l < 256"
    proof (intro ballI, clarify)
      fix c' l' assume q: "(c', l') \<in> set ps"
      then have ne: "(c', l') \<noteq> (c, l)" using Cons.prems(2) p by auto
      have "represents m c' l' (sl l') (X c' l') (A c' l') \<and> safe call (A c' l') \<and> c' < 256 \<and> l' < 256"
        using Cons.prems(3) q by auto
      then show "represents m1 c' l' (sl l') (X c' l') (A c' l') \<and> safe call (A c' l') \<and> c' < 256 \<and> l' < 256"
        unfolding m1 using represents_add_other[OF _ ne] by blast
    qed
    from Cons.IH[OF rest _ this Q] Cons.prems(2) hs show ?thesis by auto
  qed
qed

lemma repair_node_keeps:
  assumes "repair_node call live repl d (m, w) = (r, (m', w'))"
    and "\<forall>c < unat (m_channels m). \<forall>l < unat (m_nlayers m).
      represents m c l (sl l) (X c l) (A c l) \<and> safe call (A c l)"
  shows "\<forall>c < unat (m_channels m). \<forall>l < unat (m_nlayers m).
      \<exists>B. A c l \<subseteq> B \<and> represents m' c l (sl l) (X c l) B"
    and "m'\<lparr>m_shard_hashes := m_shard_hashes m, m_merkle_root := m_merkle_root m\<rparr> = m"
    and "case r of Inr _ \<Rightarrow> m_merkle_root m' = merkle_root (concat (concat (m_shard_hashes m'))) | Inl _ \<Rightarrow> True"
proof -
  let ?Q = "set (layer_pairs m)"
  have Q: "?Q = {(c, l). c < unat (m_channels m) \<and> l < unat (m_nlayers m)}"
    by (auto simp: layer_pairs_def)
  have dist: "distinct (layer_pairs m)"
    by (simp add: layer_pairs_product distinct_product)
  have lt: "unat (x :: u8) < 256" for x by (rule order_less_le_trans[OF unsigned_less]) simp
  have pre: "\<forall>(c, l) \<in> ?Q. represents m c l (sl l) (X c l) (A c l) \<and> safe (with_rng call) (A c l) \<and> c < 256 \<and> l < 256"
    using assms(2) lt[of "m_channels m"] lt[of "m_nlayers m"] unfolding Q by (auto intro: less_trans safe_with_rng)
  have pre': "\<forall>(c, l) \<in> ?Q. \<exists>B. A c l \<subseteq> B \<and> represents m c l (sl l) (X c l) B" using pre by blast
  let ?root = "\<lambda>m. m\<lparr>m_merkle_root := merkle_root (concat (concat (m_shard_hashes m)))\<rparr>"
  let ?loop = "afold (repair_layer (with_rng call) live repl d) default_stats (layer_pairs m)"
  let ?tail = "abind ?loop (\<lambda>st. abind (on_manifest ?root) (\<lambda>_. aret st))"
  have "m' = m \<and> (\<forall>x. r \<noteq> Inr x) \<or> (\<exists>w1. ?tail (m, w1) = (r, (m', w')))"
    using assms(1) unfolding repair_node_def manifest_run by (auto split: sum.splits prod.splits)
  then have "\<exists>m1. (m1 = m \<or> (\<exists>st w1 r1 w2. afold (repair_layer (with_rng call) live repl d) st (layer_pairs m) (m, w1) = (r1, (m1, w2)))) \<and>
     (m' = m1 \<and> (\<forall>x. r \<noteq> Inr x) \<or> m' = ?root m1)"
  proof (elim disjE exE)
    fix w1 assume tail: "?tail (m, w1) = (r, (m', w'))"
    obtain r1 m1 w2 where l: "?loop (m, w1) = (r1, (m1, w2))" by (metis prod.exhaust)
    then have "m' = m1 \<and> (\<forall>x. r \<noteq> Inr x) \<or> m' = ?root m1"
      using tail by (cases r1) (auto simp: abind_def on_manifest_run)
    with l show ?thesis by blast
  qed blast
  then obtain m1 where m1: "m1 = m \<or> (\<exists>st w1 r1 w2. afold (repair_layer (with_rng call) live repl d) st (layer_pairs m) (m, w1) = (r1, (m1, w2)))"
    and m': "m' = m1 \<and> (\<forall>x. r \<noteq> Inr x) \<or> m' = ?root m1" by blast
  have "(\<forall>(c, l) \<in> ?Q. \<exists>B. A c l \<subseteq> B \<and> represents m1 c l (sl l) (X c l) B) \<and> (\<exists>hs. m1 = m\<lparr>m_shard_hashes := hs\<rparr>)"
    using m1
  proof (elim disjE exE)
    assume "m1 = m"
    with pre' same_hashes[of m] show ?thesis by simp
  next
    fix st w1 r1 w2
    assume "afold (repair_layer (with_rng call) live repl d) st (layer_pairs m) (m, w1) = (r1, (m1, w2))"
    from repair_layers_keep[OF this dist pre pre'] show ?thesis .
  qed
  note keep = this[THEN conjunct1] this[THEN conjunct2]
  have same: "represents m' c l s Y B = represents m1 c l s Y B" for c l s Y B
    using m' by (auto simp: represents_def)
  show "\<forall>c < unat (m_channels m). \<forall>l < unat (m_nlayers m).
      \<exists>B. A c l \<subseteq> B \<and> represents m' c l (sl l) (X c l) B" using keep(1) same unfolding Q by auto
  show "m'\<lparr>m_shard_hashes := m_shard_hashes m, m_merkle_root := m_merkle_root m\<rparr> = m" using keep(2) m' by auto
  show "case r of Inr _ \<Rightarrow> m_merkle_root m' = merkle_root (concat (concat (m_shard_hashes m'))) | Inl _ \<Rightarrow> True"
    using m' by (auto split: sum.splits)
qed

section \<open>Properties\<close>

lemma opaque_read_spec:
  assumes put: "put_opaque_object call live data (m, w) = (Inr u, (m', w'))" and ne: "data \<noteq> []" and len: "length data < 2 ^ 32"
    and safe: "safe call' (set (opaque_shards m data))"
  shows "case gather_layer call' m' live' 0 0 v of
      (Inl e, v') \<Rightarrow> get_opaque_object call' m' live' v = (Inl e, v')
    | (Inr raw, v') \<Rightarrow> get_opaque_object call' m' live' v \<in> {(Inr data, v'), (Inl (Err (LayerLost 0 0)), v')} \<and>
        (K \<le> unat (m_n_per_layer m ! 0) \<and> set (take K (opaque_shards m data)) \<subseteq> set raw \<longrightarrow>
          get_opaque_object call' m' live' v = (Inr data, v'))"
proof (cases "gather_layer call' m' live' 0 0 v")
  case (Pair r v')
  let ?sl = "symbol_len_of K (length data)"
  note p = put_opaque_spec[OF put ne len]
  show ?thesis
  proof (cases r)
    case (Inl e)
    with Pair gather_stops(1)[of call' m' live' v e v'] p(4) show ?thesis by simp
  next
    case (Inr raw)
    let ?v = "verified (m_shard_hashes m' ! 0 ! 0) raw"
    have g: "get_opaque_object call' m' live' v = (if \<forall>Z. explains K ?sl ?v Z \<longrightarrow> Z = chunks_of K ?sl (pad_to (K * ?sl) data)
        then Inr data else Inl (Err (LayerLost 0 0)), v')"
      using get_opaque_spec[OF p(1,4,5) len p(3,2) safe] Pair Inr by simp
    have "\<forall>Z. explains K ?sl ?v Z \<longrightarrow> Z = chunks_of K ?sl (pad_to (K * ?sl) data)"
      if n: "K \<le> unat (m_n_per_layer m ! 0)" and all: "set (take K (opaque_shards m data)) \<subseteq> set raw"
    proof -
      have "set (map (systematic (pad_to (K * ?sl) data) K ?sl) [0..<K]) \<subseteq> set ?v"
        using all set_take_subset[of K "opaque_shards m data"]
        unfolding p(8)[OF n, symmetric] by (auto simp: verified_def p(6))
      then show ?thesis using systematic_unique[of K ?sl ?v _ "pad_to (K * ?sl) data"] by auto
    qed
    with g Pair Inr show ?thesis by simp
  qed
qed

text \<open>C15: integrity of reads. After a \<open>put_opaque_object\<close> that reported success, a read of the object over
  any network, at any later time and with any live set, either reports the network's error, or returns
  exactly the data that was stored, or reports the layer lost; it never returns other data, as long as
  no node answers with a different shard that collides with one of the object's in SHA-256. It returns
  the data whenever the answers contain the first \<open>K\<close> shards.\<close>

theorem opaque_read_integrity:
  assumes "put_opaque_object call live data (m, w) = (Inr u, (m', w'))" and "data \<noteq> []" and "length data < 2 ^ 32"
    and "safe call' (set (opaque_shards m data))"
  shows "case gather_layer call' m' live' 0 0 v of
      (Inl e, v') \<Rightarrow> get_opaque_object call' m' live' v = (Inl e, v')
    | (Inr raw, v') \<Rightarrow> get_opaque_object call' m' live' v \<in> {(Inr data, v'), (Inl (Err (LayerLost 0 0)), v')} \<and>
        (K \<le> unat (m_n_per_layer m ! 0) \<and> set (take K (opaque_shards m data)) \<subseteq> set raw \<longrightarrow>
          get_opaque_object call' m' live' v = (Inr data, v'))"
  using assms by (rule opaque_read_spec)

definition one_node :: "manifest" where
  "one_node = (manifest_directory 1)\<lparr>m_kind := Opaque, m_k := 16, m_channels := 1, m_nlayers := 1,
     m_n_per_layer := [1], m_nodes := [''a'']\<rparr>"

definition echo :: "shard list \<Rightarrow> unit call" where
  "echo ss addr req w = (Inr (case req of Get _ _ _ \<Rightarrow> Shards ss | _ \<Rightarrow> Ack), w)"

lemma safe_echo: "safe (echo [s]) {s}"
  by (auto simp: safe_def echo_def)

lemma place_one: "m_placement m = Rendezvous \<Longrightarrow> place_shard m c l i [0] = Inr 0"
  by (simp add: place_shard_def place_def hrw_node_def hrw_step_def Let_def)

lemma put_one_node:
  "\<exists>m' s. put_opaque_object (echo []) [0] [7] (one_node, ()) = (Inr (), (m', ())) \<and> opaque_shards one_node [7] = [s]"
proof -
  obtain sl ss rng' where e: "encode_layer gf_new [7] 1 (cid_seed (opaque_cid [7] (m_content_type one_node))) = ((sl, ss), rng')"
    by (metis prod.exhaust)
  then have k: "encode_layer_with_k gf_new [7] K 1 (cid_seed (opaque_cid [7] (m_content_type one_node))) = Inr ((sl, ss), rng')"
    by (simp add: encode_layer_is_with_k)
  have "sl = 1" using encode_with_k_props(2)[OF k] by (simp add: symbol_len_of_def K_def)
  moreover obtain s where s: "ss = [s]" using encode_with_k_props(3)[OF k] by (cases ss) auto
  ultimately show ?thesis using e
    by (simp add: put_opaque_object_def manifest_run one_node_def manifest_directory_def Let_def set_cid_def
        symbol_len_of_def send_all_def send_step_def send_shard_def abind_assoc place_one rpc_def echo_def map_err_def
        expect_ack_def on_manifest_run opaque_shards_def abind_def[of "Pair _"])
qed

theorem opaque_read_integrity_witness:
  "\<exists>m' s. put_opaque_object (echo []) [0] [7] (one_node, ()) = (Inr (), (m', ())) \<and>
    get_opaque_object (echo [s]) m' [0] () \<in> {(Inr [7], ()), (Inl (Err (LayerLost 0 0)), ())}"
proof -
  obtain m' s where put: "put_opaque_object (echo []) [0] [7] (one_node, ()) = (Inr (), (m', ()))"
    and s: "opaque_shards one_node [7] = [s]" using put_one_node by blast
  have "safe (echo [s]) (set (opaque_shards one_node [7]))" by (simp add: s safe_echo)
  note read = opaque_read_integrity[OF put _ _ this, where live' = "[0]" and v = "()"]
  have "m_nodes m' = [''a'']" using put_opaque_spec(9)[OF put] by (simp add: one_node_def)
  then have "gather_layer (echo [s]) m' [0] 0 0 () = (Inr [s], ())"
    by (simp add: gather_layer_def gather_step_def abind_def rpc_def echo_def map_err_def expect_shards_def)
  with read put show ?thesis by auto
qed

section \<open>Text\<close>

text \<open>integrity of text reads. A text stored with success is read back, over any network, as its pieces in
  order, each byte for byte or replaced by its marker, with the number of markers; a piece is replaced
  exactly when the answers leave it undetermined.\<close>

theorem text_read_integrity:
  assumes "put_text_object call live text (m, w) = (Inr u, (m', w'))" and "str_ok text" and "length text < 2 ^ 32"
    and "split_text text = (Inr ts :: (client_error, _) res)" and "length (ts_padded ts) < 2 ^ 32"
    and "safe call' (set (text_shards m text (ts_padded ts)))"
  shows "\<exists>ps. length ps = K \<and> concat ps = as_bytes text \<and>
    (case gather_layer call' m' live' 0 0 v of
      (Inl e, v') \<Rightarrow> get_text_object_with_holes call' m' live' v = (Inl e, v')
    | (Inr raw, v') \<Rightarrow> (\<exists>lost. get_text_object_with_holes call' m' live' v =
          (Inr (concat (map (piece_or_marker ps lost) [0..<K]), length (filter lost [0..<K])), v') \<and>
        (\<forall>i < K. lost i = (\<exists>Z. explains K (ts_sym_len ts) (verified (m_shard_hashes m' ! 0 ! 0) raw) Z \<and>
          Z ! i \<noteq> chunks_of K (ts_sym_len ts) (ts_padded ts) ! i))))"
proof -
  obtain ps where sl: "0 < ts_sym_len ts" and ps: "length ps = K" "concat ps = as_bytes text"
    and len: "length (ts_padded ts) = K * ts_sym_len ts"
    and asm: "\<And>lost. assemble (map (\<lambda>i. if lost i then None else Some (chunks_of K (ts_sym_len ts) (ts_padded ts) ! i)) [0..<K])
        (ts_chunk_lens ts) = (concat (map (piece_or_marker ps lost) [0..<K]), length (filter lost [0..<K]))"
    using split_assemble_spec[OF assms(2,3), where 'e = client_error] assms(4) by auto
  note p = put_text_spec[OF assms(1,4) sl len assms(5)]
  show ?thesis
  proof (rule exI[of _ ps], intro conjI ps, cases "gather_layer call' m' live' 0 0 v")
    case (Pair r v')
    show "case gather_layer call' m' live' 0 0 v of
      (Inl e, v') \<Rightarrow> get_text_object_with_holes call' m' live' v = (Inl e, v')
    | (Inr raw, v') \<Rightarrow> (\<exists>lost. get_text_object_with_holes call' m' live' v =
          (Inr (concat (map (piece_or_marker ps lost) [0..<K]), length (filter lost [0..<K])), v') \<and>
        (\<forall>i < K. lost i = (\<exists>Z. explains K (ts_sym_len ts) (verified (m_shard_hashes m' ! 0 ! 0) raw) Z \<and>
          Z ! i \<noteq> chunks_of K (ts_sym_len ts) (ts_padded ts) ! i)))"
    proof (cases r)
      case (Inl e)
      with Pair gather_stops(2)[of call' m' live' v e v'] p(2) show ?thesis by simp
    next
      case (Inr raw)
      with get_text_spec[OF p(1,2) sl assms(6)] Pair p(3) asm show ?thesis by auto
    qed
  qed
qed

lemma put_text_one:
  fixes ts :: text_split
  assumes "split_text ''a'' = (Inr ts :: (client_error, _) res)" and "length (ts_padded ts) = K * ts_sym_len ts" and "0 < ts_sym_len ts"
  shows "\<exists>m' s. put_text_object (echo []) [0] ''a'' (one_node\<lparr>m_kind := Text\<rparr>, ()) = (Inr (), (m', ())) \<and>
    text_shards (one_node\<lparr>m_kind := Text\<rparr>) ''a'' (ts_padded ts) = [s]"
proof -
  let ?m = "one_node\<lparr>m_kind := Text\<rparr>"
  obtain sl ss rng' where e: "encode_layer gf_new (ts_padded ts) 1 (cid_seed (text_cid ''a'' (m_content_type ?m))) = ((sl, ss), rng')"
    by (metis prod.exhaust)
  then have k: "encode_layer_with_k gf_new (ts_padded ts) K 1 (cid_seed (text_cid ''a'' (m_content_type ?m))) = Inr ((sl, ss), rng')"
    by (simp add: encode_layer_is_with_k)
  obtain s where s: "ss = [s]" using encode_with_k_props(3)[OF k] by (cases ss) auto
  then show ?thesis using e assms(1)
    by (simp add: put_text_object_def manifest_run one_node_def manifest_directory_def Let_def set_cid_def
        send_all_def send_step_def send_shard_def abind_assoc place_one rpc_def echo_def map_err_def
        expect_ack_def on_manifest_run text_shards_def abind_def[of "Pair _"])
qed

theorem text_read_integrity_witness:
  "\<exists>m' s ps. put_text_object (echo []) [0] ''a'' (one_node\<lparr>m_kind := Text\<rparr>, ()) = (Inr (), (m', ())) \<and>
    concat ps = as_bytes ''a'' \<and>
    (\<exists>lost. get_text_object_with_holes (echo [s]) m' [] () =
      (Inr (concat (map (piece_or_marker ps lost) [0..<K]), length (filter lost [0..<K])), ()))"
proof -
  have ok: "str_ok ''a''" by (simp add: str_ok_def as_bytes_def)
  obtain ts where ts: "split_text ''a'' = (Inr ts :: (client_error, _) res)" "0 < ts_sym_len ts" "length (ts_padded ts) = K * ts_sym_len ts"
    using split_assemble_spec[OF ok, where 'e = client_error] by auto
  have "case (split_text ''a'' :: (client_error, _) res) of Inr ts \<Rightarrow> length (ts_padded ts) < 100 | Inl _ \<Rightarrow> False"
    by code_simp
  then have sl: "length (ts_padded ts) < 2 ^ 32" using ts(1) by simp
  obtain m' s where put: "put_text_object (echo []) [0] ''a'' (one_node\<lparr>m_kind := Text\<rparr>, ()) = (Inr (), (m', ()))"
    and s: "text_shards (one_node\<lparr>m_kind := Text\<rparr>) ''a'' (ts_padded ts) = [s]"
    using put_text_one[OF ts(1,3,2)] by blast
  have "safe (echo [s]) (set (text_shards (one_node\<lparr>m_kind := Text\<rparr>) ''a'' (ts_padded ts)))" by (simp add: s safe_echo)
  from text_read_integrity[OF put ok _ ts(1) sl this, where live' = "[]" and v = "()"] put
  show ?thesis by (simp add: gather_layer_def) blast
qed

section \<open>Repair\<close>

text \<open>C16: repair never spoils an object. When the listed hashes of every layer stand for shards of that layer's
  source, then after \<open>repair_node\<close>, whatever the nodes answer and whether it ends well or stops in the middle
  with an error or a panic, they still do, with the fresh shards among them; only the hashes and the Merkle root of the
  manifest have changed, and after a success the root is the root of the hashes.\<close>

theorem repair_keeps_object:
  assumes "\<forall>c < unat (m_channels m). \<forall>l < unat (m_nlayers m).
      represents m c l (sl l) (X c l) (A c l) \<and> safe call (A c l)"
  shows "case repair_node call live repl d (m, w) of (r, (m', w')) \<Rightarrow>
    (\<forall>c < unat (m_channels m). \<forall>l < unat (m_nlayers m).
      \<exists>B. A c l \<subseteq> B \<and> represents m' c l (sl l) (X c l) B) \<and>
    m'\<lparr>m_shard_hashes := m_shard_hashes m, m_merkle_root := m_merkle_root m\<rparr> = m \<and>
    (case r of Inr _ \<Rightarrow> m_merkle_root m' = merkle_root (concat (concat (m_shard_hashes m'))) | Inl _ \<Rightarrow> True)"
proof (cases "repair_node call live repl d (m, w)")
  case (fields r m' w' rng')
  from repair_node_keeps[OF this assms] this show ?thesis by simp
qed

definition one_shard :: shard where
  "one_shard = systematic (replicate K 7) K 1 0"

theorem repair_keeps_object_witness:
  "\<exists>m' B. fst (snd (repair_node (echo [one_shard]) [0, 1] 1 4
      (one_node\<lparr>m_nodes := [''a'', ''b''], m_sym_len := [1], m_shard_hashes := [[[shard_hash one_shard]]]\<rparr>, ((), 5)))) = m' \<and>
    one_shard \<in> B \<and> represents m' 0 0 1 (chunks_of K 1 (replicate K 7)) B"
proof -
  let ?m = "one_node\<lparr>m_nodes := [''a'', ''b''], m_sym_len := [1], m_shard_hashes := [[[shard_hash one_shard]]]\<rparr>"
  have len: "length (replicate K 7 :: bytes) = K * 1" by simp
  have "represents ?m 0 0 1 (chunks_of K 1 (replicate K 7)) {one_shard}"
    using systematic_consistent[OF _ len, of 0] source_ok_chunks_of[OF len]
    by (simp add: represents_def one_node_def one_shard_def K_def)
  then have "\<forall>c < unat (m_channels ?m). \<forall>l < unat (m_nlayers ?m).
      represents ?m c l 1 (chunks_of K 1 (replicate K 7)) {one_shard} \<and> safe (echo [one_shard]) {one_shard}"
    by (simp add: one_node_def safe_echo)
  from repair_keeps_object[where sl = "\<lambda>_. 1" and A = "\<lambda>_ _. {one_shard}" and X = "\<lambda>_ _. chunks_of K 1 (replicate K 7)", OF this, of "[0, 1]" 1 4 "((), 5)"]
  show ?thesis by (auto simp: one_node_def split: prod.splits)
qed

end
