(* ===== verification/Float32.thy ===== *)
theory Float32
  imports Prelude
begin

text \<open>
  The three operations on \<open>f32\<close> that the sources use: addition, subtraction and division, IEEE 754 binary32
  with rounding to nearest, ties to even. A value is its 32-bit pattern; a finite one stands for an
  integer number of units of \<open>2^-149\<close>, so that a sum is an integer and a quotient a fraction of units,
  rounded once. Every NaN result is the quiet NaN \<open>0x7FC00000\<close>; Rust leaves its payload open.

  Shown: rounding returns a representable value that no other one is closer to.
\<close>

unbundle bit_operations_syntax

section \<open>Patterns and values\<close>

definition f32_exp :: "u32 \<Rightarrow> nat" where
  "f32_exp x = unat (drop_bit 23 x AND 0xFF)"

definition f32_frac :: "u32 \<Rightarrow> nat" where
  "f32_frac x = unat (x AND 0x7FFFFF)"

definition f32_neg :: "u32 \<Rightarrow> bool" where
  "f32_neg x = bit x 31"

definition f32_nan :: "u32 \<Rightarrow> bool" where
  "f32_nan x \<longleftrightarrow> f32_exp x = 255 \<and> f32_frac x \<noteq> 0"

definition f32_inf :: "u32 \<Rightarrow> bool" where
  "f32_inf x \<longleftrightarrow> f32_exp x = 255 \<and> f32_frac x = 0"

text \<open>The magnitude in units, of a finite pattern.\<close>

definition f32_units :: "u32 \<Rightarrow> nat" where
  "f32_units x = (if f32_exp x = 0 then f32_frac x else (f32_frac x + 2 ^ 23) * 2 ^ (f32_exp x - 1))"

definition f32_val :: "u32 \<Rightarrow> int" where
  "f32_val x = (if f32_neg x then - int (f32_units x) else int (f32_units x))"

definition f32_signed :: "bool \<Rightarrow> u32 \<Rightarrow> u32" where
  "f32_signed neg x = (if neg then x OR 0x80000000 else x)"

definition f32_QNAN :: u32 where "f32_QNAN = 0x7FC00000"
definition f32_INF :: u32 where "f32_INF = 0x7F800000"

section \<open>Rounding\<close>

fun bit_len :: "nat \<Rightarrow> nat" where
  "bit_len n = (if n = 0 then 0 else bit_len (n div 2) + 1)"

declare bit_len.simps [simp del]

definition div_even :: "nat \<Rightarrow> nat \<Rightarrow> nat" where
  "div_even a d = (let q = a div d; r = a mod d in if 2 * r > d \<or> 2 * r = d \<and> odd q then q + 1 else q)"

text \<open>The magnitude pattern nearest to \<open>num / den\<close> units; a carry out of the fraction lands in the exponent.\<close>

definition f32_round :: "nat \<Rightarrow> nat \<Rightarrow> u32" where
  "f32_round num den =
     (let e = bit_len (num div den) - 24;
          bits = e * 2 ^ 23 + div_even num (den * 2 ^ e)
      in if bits \<ge> 0x7F800000 then f32_INF else word_of_nat bits)"

section \<open>The operations\<close>

definition f32_add :: "u32 \<Rightarrow> u32 \<Rightarrow> u32" where
  "f32_add x y =
     (if f32_nan x \<or> f32_nan y then f32_QNAN
      else if f32_inf x then (if f32_inf y \<and> f32_neg x \<noteq> f32_neg y then f32_QNAN else x)
      else if f32_inf y then y
      else let n = f32_val x + f32_val y in
        if n = 0 then f32_signed (f32_neg x \<and> f32_neg y) 0
        else f32_signed (n < 0) (f32_round (nat \<bar>n\<bar>) 1))"

definition f32_sub :: "u32 \<Rightarrow> u32 \<Rightarrow> u32" where
  "f32_sub x y = (if f32_nan y then f32_QNAN else f32_add x (y XOR 0x80000000))"

definition f32_div :: "u32 \<Rightarrow> u32 \<Rightarrow> u32" where
  "f32_div x y =
     (let neg = (f32_neg x \<noteq> f32_neg y) in
      if f32_nan x \<or> f32_nan y then f32_QNAN
      else if f32_inf x then (if f32_inf y then f32_QNAN else f32_signed neg f32_INF)
      else if f32_inf y then f32_signed neg 0
      else if f32_units y = 0 then (if f32_units x = 0 then f32_QNAN else f32_signed neg f32_INF)
      else f32_signed neg (f32_round (f32_units x * 2 ^ 149) (f32_units y)))"

section \<open>Rounding is to nearest\<close>

lemma bit_len_less: "n < 2 ^ bit_len n"
proof (induction n rule: bit_len.induct)
  case (1 n)
  then show ?case by (cases "n = 0") (auto simp: bit_len.simps[of n])
qed

lemma bit_len_le: "n \<noteq> 0 \<Longrightarrow> 2 ^ (bit_len n - 1) \<le> n"
proof (induction n rule: bit_len.induct)
  case (1 n)
  show ?case
  proof (cases "n div 2 = 0")
    case True
    then have "n = 1" using 1(2) by auto
    then show ?thesis by (simp add: bit_len.simps[of "Suc 0"] bit_len.simps[of 0])
  next
    case False
    then have "bit_len (n div 2) = Suc (bit_len (n div 2) - 1)" by (simp add: bit_len.simps[of "n div 2"])
    then have "2 ^ (bit_len n - 1) = 2 * 2 ^ (bit_len (n div 2) - 1)"
      using 1(2) by (metis bit_len.simps add_diff_cancel_right' power_Suc)
    also have "\<dots> \<le> n" using 1(1)[OF 1(2) False] by linarith
    finally show ?thesis .
  qed
qed

text \<open>No multiple of \<open>d\<close> is closer to \<open>a\<close> than the rounded quotient.\<close>

lemma div_even_nearest:
  assumes "0 < d"
  shows "\<bar>int a - int (div_even a d * d)\<bar> \<le> \<bar>int a - int (k * d)\<bar>"
proof -
  let ?q = "a div d" and ?r = "a mod d"
  have a: "int a = int ?q * int d + int ?r" by (metis div_mult_mod_eq of_nat_add of_nat_mult)
  have r: "int ?r < int d" using assms by simp
  have m: "\<bar>int a - int (div_even a d * d)\<bar> \<le> min (int ?r) (int d - int ?r)"
    unfolding a using r by (auto simp: div_even_def Let_def algebra_simps min_def)
  consider "k \<le> ?q" | "?q + 1 \<le> k" by linarith
  then have "int (k * d) \<le> int ?q * int d \<or> int ?q * int d + int d \<le> int (k * d)"
  proof cases
    case 1
    then show ?thesis by (metis mult_le_mono1 of_nat_mono of_nat_mult)
  next
    case 2
    then have "(?q + 1) * d \<le> k * d" by (rule mult_le_mono1)
    then have "int ((?q + 1) * d) \<le> int (k * d)" by (rule of_nat_mono)
    then show ?thesis by (simp add: algebra_simps)
  qed
  with m a r show ?thesis by linarith
qed

text \<open>The pattern \<open>e * 2^23 + q\<close> stands for \<open>q * 2^e\<close>, the carry \<open>q = 2^24\<close> included.\<close>

lemma f32_exp_alt: "f32_exp x = unat x div 2 ^ 23 mod 256"
proof -
  have m8: "(0xFF :: u32) = mask 8" by (simp add: mask_eq_exp_minus_1)
  have "take_bit 32 (unat x) = unat x" using unsigned_less[of x, where 'a = nat] by (simp add: take_bit_nat_eq_self)
  then have "unat (take_bit 8 (drop_bit 23 x)) = take_bit 8 (drop_bit 23 (unat x))"
    by (simp add: unsigned_take_bit_eq unsigned_drop_bit_eq)
  then show ?thesis
    unfolding f32_exp_def m8 take_bit_eq_mask[symmetric] by (simp add: drop_bit_eq_div take_bit_eq_mod)
qed

lemma f32_frac_alt: "f32_frac x = unat x mod 2 ^ 23"
proof -
  have m23: "(0x7FFFFF :: u32) = mask 23" by (simp add: mask_eq_exp_minus_1)
  have "unat (take_bit 23 x) = take_bit 23 (unat x)" by (simp only: unsigned_take_bit_eq)
  then show ?thesis
    unfolding f32_frac_def m23 take_bit_eq_mask[symmetric] by (simp add: take_bit_eq_mod)
qed

lemma f32_fields:
  assumes "e < 256" and "f < 2 ^ 23"
  shows "f32_exp (word_of_nat (e * 2 ^ 23 + f)) = e" and "f32_frac (word_of_nat (e * 2 ^ 23 + f)) = f"
proof -
  have "e * 2 ^ 23 + f < 256 * 2 ^ 23" using assms by simp
  then have u: "unat (word_of_nat (e * 2 ^ 23 + f) :: u32) = e * 2 ^ 23 + f"
    unfolding unat_of_nat by (simp add: take_bit_nat_eq_self del: of_nat_add of_nat_mult)
  show "f32_exp (word_of_nat (e * 2 ^ 23 + f)) = e" using assms unfolding f32_exp_alt u by simp
  show "f32_frac (word_of_nat (e * 2 ^ 23 + f)) = f" using assms unfolding f32_frac_alt u by simp
qed

lemma f32_units_pattern:
  assumes "q \<le> 2 ^ 24" and "e = 0 \<or> 2 ^ 23 \<le> q" and "e * 2 ^ 23 + q < 0x7F800000"
  shows "f32_units (word_of_nat (e * 2 ^ 23 + q)) = q * 2 ^ e"
proof -
  have split: "f32_units (word_of_nat (e * 2 ^ 23 + q)) = q * 2 ^ e"
    if "e * 2 ^ 23 + q = e' * 2 ^ 23 + f" "e' < 256" "f < 2 ^ 23"
      "(if e' = 0 then f else (f + 2 ^ 23) * 2 ^ (e' - 1)) = q * 2 ^ e" for e' f
    unfolding f32_units_def that(1) f32_fields[OF that(2,3)] by (rule that(4))
  consider "q < 2 ^ 23" | "2 ^ 23 \<le> q" "q < 2 ^ 24" | "q = 2 ^ 24" using assms(1) by linarith
  then show ?thesis
  proof cases
    case 1
    then have "e = 0" using assms(2) by simp
    with 1 show ?thesis by (intro split[of 0 q]) simp_all
  next
    case 2
    with assms(3) show ?thesis by (intro split[of "e + 1" "q - 2 ^ 23"]) simp_all
  next
    case 3
    with assms(3) show ?thesis by (intro split[of "e + 2" 0]) simp_all
  qed
qed

lemma f32_frac_less: "f32_frac x < 2 ^ 23"
  by (simp add: f32_frac_alt)

lemma f32_units_form: "\<exists>f k. f32_units x = f * 2 ^ k \<and> f < 2 ^ 24"
proof (cases "f32_exp x = 0")
  case True
  with f32_frac_less[of x] show ?thesis
    by (intro exI[of _ "f32_frac x"] exI[of _ 0]) (simp add: f32_units_def)
next
  case False
  with f32_frac_less[of x] show ?thesis
    by (intro exI[of _ "f32_frac x + 2 ^ 23"] exI[of _ "f32_exp x - 1"]) (simp add: f32_units_def)
qed

lemma bit_len_bounds:
  assumes "0 < den" and "bit_len (num div den) - 24 = Suc e"
  shows "den * 2 ^ (24 + e) \<le> num"
proof -
  have "num div den \<noteq> 0" using assms(2) by (metis bit_len.simps diff_0_eq_0 nat.distinct(1))
  moreover have "bit_len (num div den) - 1 = 24 + e" using assms(2) by simp
  ultimately have "2 ^ (24 + e) \<le> num div den" by (metis bit_len_le)
  then show ?thesis using assms(1) by (simp add: less_eq_div_iff_mult_less_eq mult.commute)
qed

lemma bit_len_bound:
  assumes "0 < den" and "e = bit_len (num div den) - 24"
  shows "num < den * 2 ^ (24 + e)"
proof -
  have "num div den < 2 ^ bit_len (num div den)" by (rule bit_len_less)
  also have "\<dots> \<le> (2 :: nat) ^ (24 + e)" using assms(2) by (intro power_increasing) auto
  finally show ?thesis using assms(1) by (simp add: div_less_iff_less_mult mult.commute)
qed

lemma f32_round_spec:
  assumes "0 < den" and "f32_round num den \<noteq> f32_INF"
  shows "\<bar>int num - int (f32_units (f32_round num den) * den)\<bar> \<le> \<bar>int num - int (f32_units y * den)\<bar>"
proof -
  define e where "e = bit_len (num div den) - 24"
  define d where "d = den * 2 ^ e"
  define q where "q = div_even num d"
  have d: "0 < d" using assms(1) by (simp add: d_def)
  have lt: "num < d * 2 ^ 24" using bit_len_bound[OF assms(1) e_def] by (simp add: d_def power_add algebra_simps)
  have ge: "d * 2 ^ 23 \<le> num" if ne: "e \<noteq> 0"
  proof -
    obtain e' where e': "e = Suc e'" using ne by (cases e) auto
    from bit_len_bounds[OF assms(1), of num e'] e' have "den * 2 ^ (24 + e') \<le> num" by (simp add: e_def)
    then show ?thesis by (simp add: d_def e' power_add algebra_simps)
  qed
  have r: "f32_round num den = word_of_nat (e * 2 ^ 23 + q)" and small: "e * 2 ^ 23 + q < 0x7F800000"
    using assms(2) by (auto simp: f32_round_def Let_def e_def d_def q_def split: if_splits)
  have qd: "num div d \<le> q" "q \<le> num div d + 1" by (simp_all add: q_def div_even_def Let_def)
  have "num div d < 2 ^ 24" using lt d by (simp add: div_less_iff_less_mult mult.commute)
  with qd have q: "q \<le> 2 ^ 24" by linarith
  have "2 ^ 23 \<le> num div d" if "e \<noteq> 0"
    using ge[OF that] d by (simp add: less_eq_div_iff_mult_less_eq mult.commute)
  with qd have q': "e = 0 \<or> 2 ^ 23 \<le> q" by linarith
  have u: "f32_units (f32_round num den) * den = q * d"
    unfolding r f32_units_pattern[OF q q' small] by (simp add: d_def)
  obtain f k where f: "f32_units y = f * 2 ^ k" "f < 2 ^ 24" using f32_units_form by blast
  show ?thesis
  proof (cases "e \<le> k")
    case True
    then have "f32_units y * den = (f * 2 ^ (k - e)) * d" by (simp add: f(1) d_def flip: power_add)
    with div_even_nearest[OF d, of num "f * 2 ^ (k - e)"] u show ?thesis by (simp add: q_def)
  next
    case False
    then obtain e' where e': "e = Suc e'" "k \<le> e'" by (cases e) auto
    have "f * 2 ^ k \<le> 2 ^ 24 * 2 ^ e'" using f(2) e'(2) by (intro mult_mono) simp_all
    then have "f32_units y * den \<le> (2 ^ 24 * 2 ^ e') * den" unfolding f(1) by (rule mult_le_mono1)
    also have "\<dots> = 2 ^ 23 * d" by (simp add: d_def e')
    finally have "f32_units y * den \<le> 2 ^ 23 * d" .
    moreover have "2 ^ 23 * d \<le> num" using ge e' by (simp add: mult.commute)
    moreover have "\<bar>int num - int (q * d)\<bar> \<le> \<bar>int num - int (2 ^ 23 * d)\<bar>"
      unfolding q_def by (rule div_even_nearest[OF d])
    ultimately show ?thesis unfolding u by linarith
  qed
qed

end
