(* ===== verification/Transform.thy ===== *)
theory Transform
  imports Float32 Rlnc Complex_Main
begin

text \<open>
  \<open>holofs-core/src/transform.rs\<close>: the Haar wavelet transform of planes and of signals, and the map from
  coefficients to priority layers. The loops are written over any arithmetic (\<open>wave\<close>: zero, scaled sum,
  scaled difference): \<open>f32_wave\<close> is the one of the code, \<open>real_wave\<close> the exact one. A plane is the flat
  list the code indexes; an index out of range panics. Shifts of a dimension by a level are divisions
  by powers of two, as they are for fewer than 64 levels.

  Shown: with exact arithmetic the inverse transform undoes the forward one in both dimensions at every
  number of levels that divides the sizes; no access is out of range; the layers are those of the manifest.
\<close>

section \<open>Lines\<close>

record 'a wave =
  wv_zero :: 'a
  wv_sum :: "'a \<Rightarrow> 'a \<Rightarrow> 'a"
  wv_dif :: "'a \<Rightarrow> 'a \<Rightarrow> 'a"

definition SQRT2 :: u32 where "SQRT2 = 0x3FB504F3"

definition f32_wave :: "u32 wave" where
  "f32_wave = \<lparr>wv_zero = 0, wv_sum = (\<lambda>a b. f32_div (f32_add a b) SQRT2), wv_dif = (\<lambda>a b. f32_div (f32_sub a b) SQRT2)\<rparr>"

text \<open>The contents of \<open>tmp\<close> after the inner loop, from the line it read; an odd last place stays 0.\<close>

definition forward_line :: "'a wave \<Rightarrow> 'a list \<Rightarrow> 'a list" where
  "forward_line ops xs =
     (let half = length xs div 2
      in map (\<lambda>i. wv_sum ops (xs ! (2 * i)) (xs ! (2 * i + 1))) [0..<half] @
         map (\<lambda>i. wv_dif ops (xs ! (2 * i)) (xs ! (2 * i + 1))) [0..<half] @
         replicate (length xs - 2 * half) (wv_zero ops))"

definition inverse_line :: "'a wave \<Rightarrow> 'a list \<Rightarrow> 'a list" where
  "inverse_line ops xs =
     (let half = length xs div 2
      in concat (map (\<lambda>i. [wv_sum ops (xs ! i) (xs ! (half + i)), wv_dif ops (xs ! i) (xs ! (half + i))]) [0..<half]) @
         replicate (length xs - 2 * half) (wv_zero ops))"

definition set_idx :: "'a list \<Rightarrow> nat \<times> 'a \<Rightarrow> ('e, 'a list) res" where
  "set_idx d iv = (case iv of (i, v) \<Rightarrow> if i < length d then Inr (d[i := v]) else Inl Panic)"

text \<open>One turn of the outer loops: read the line at \<open>idxs\<close>, transform it, copy \<open>tmp\<close> into the plane.\<close>

definition on_line :: "('a list \<Rightarrow> 'a list) \<Rightarrow> 'a list \<Rightarrow> nat list \<Rightarrow> ('e, 'a list) res" where
  "on_line f d idxs = rbind (rmap (at_idx d) idxs) (\<lambda>xs. rfold set_idx d (zip idxs (f xs)))"

section \<open>The transforms\<close>

definition row :: "nat \<Rightarrow> nat \<Rightarrow> nat \<Rightarrow> nat list" where
  "row w cw y = map (\<lambda>x. y * w + x) [0..<cw]"

definition col :: "nat \<Rightarrow> nat \<Rightarrow> nat \<Rightarrow> nat list" where
  "col w ch x = map (\<lambda>y. y * w + x) [0..<ch]"

definition forward_level :: "'a wave \<Rightarrow> nat \<Rightarrow> nat \<Rightarrow> nat \<Rightarrow> 'a list \<Rightarrow> ('e, 'a list) res" where
  "forward_level ops w cw ch d =
     rbind (rfold (on_line (forward_line ops)) d (map (row w cw) [0..<ch])) (\<lambda>d.
       rfold (on_line (forward_line ops)) d (map (col w ch) [0..<cw]))"

fun forward_levels :: "'a wave \<Rightarrow> nat \<Rightarrow> nat \<Rightarrow> nat \<Rightarrow> nat \<Rightarrow> 'a list \<Rightarrow> ('e, 'a list) res" where
  "forward_levels ops w 0 cw ch d = Inr d"
| "forward_levels ops w (Suc n) cw ch d =
     rbind (forward_level ops w cw ch d) (forward_levels ops w n (cw div 2) (ch div 2))"

definition haar_forward :: "'a wave \<Rightarrow> 'a list \<Rightarrow> nat \<Rightarrow> nat \<Rightarrow> nat \<Rightarrow> ('e, 'a list) res" where
  "haar_forward ops d w h levels = forward_levels ops w levels w h d"

definition inverse_level :: "'a wave \<Rightarrow> nat \<Rightarrow> nat \<Rightarrow> 'a list \<Rightarrow> nat \<Rightarrow> ('e, 'a list) res" where
  "inverse_level ops w h d level =
     (let cw = w div 2 ^ level; ch = h div 2 ^ level in
      rbind (rfold (on_line (inverse_line ops)) d (map (col w ch) [0..<cw])) (\<lambda>d.
        rfold (on_line (inverse_line ops)) d (map (row w cw) [0..<ch])))"

definition haar_inverse :: "'a wave \<Rightarrow> 'a list \<Rightarrow> nat \<Rightarrow> nat \<Rightarrow> nat \<Rightarrow> ('e, 'a list) res" where
  "haar_inverse ops d w h levels = rfold (inverse_level ops w h) d (rev [0..<levels])"

fun forward_levels_1d :: "'a wave \<Rightarrow> nat \<Rightarrow> nat \<Rightarrow> 'a list \<Rightarrow> ('e, 'a list) res" where
  "forward_levels_1d ops 0 cn d = Inr d"
| "forward_levels_1d ops (Suc n) cn d =
     rbind (on_line (forward_line ops) d [0..<cn]) (forward_levels_1d ops n (cn div 2))"

definition haar_forward_1d :: "'a wave \<Rightarrow> 'a list \<Rightarrow> nat \<Rightarrow> ('e, 'a list) res" where
  "haar_forward_1d ops d levels = forward_levels_1d ops levels (length d) d"

definition inverse_level_1d :: "'a wave \<Rightarrow> nat \<Rightarrow> 'a list \<Rightarrow> nat \<Rightarrow> ('e, 'a list) res" where
  "inverse_level_1d ops n d level = on_line (inverse_line ops) d [0..<n div 2 ^ level]"

definition haar_inverse_1d :: "'a wave \<Rightarrow> 'a list \<Rightarrow> nat \<Rightarrow> ('e, 'a list) res" where
  "haar_inverse_1d ops d levels = rfold (inverse_level_1d ops (length d)) d (rev [0..<levels])"

section \<open>Priority layers\<close>

definition coeff_layer_1d :: "nat \<Rightarrow> nat \<Rightarrow> nat" where
  "coeff_layer_1d i n =
     (if i < n div 2 ^ LEVELS then 0
      else case List.find (\<lambda>l. i < n div 2 ^ (l - 1) \<and> i \<ge> n div 2 ^ l) (rev [1..<LEVELS + 1]) of
        Some l \<Rightarrow> LEVELS - l + 1
      | None \<Rightarrow> LEVELS)"

definition coeff_layer :: "nat \<Rightarrow> nat \<Rightarrow> nat \<Rightarrow> nat \<Rightarrow> nat" where
  "coeff_layer x y w h =
     (if x < w div 2 ^ LEVELS \<and> y < h div 2 ^ LEVELS then 0
      else case List.find (\<lambda>l. x < w div 2 ^ (l - 1) \<and> y < h div 2 ^ (l - 1) \<and>
                 \<not> (x < w div 2 ^ l \<and> y < h div 2 ^ l)) (rev [1..<LEVELS + 1]) of
        Some l \<Rightarrow> LEVELS - l + 1
      | None \<Rightarrow> LEVELS)"

lemma find_Some_set: "List.find P xs = Some x \<Longrightarrow> x \<in> set xs"
  by (induction xs) (auto split: if_splits)

lemma find_layer: "List.find P (rev [1..<LEVELS + 1]) = Some l \<Longrightarrow> 1 \<le> l \<and> l \<le> LEVELS"
  by (drule find_Some_set) (auto simp: less_Suc_eq_le simp del: upt_Suc)

lemma found_layer_less:
  "(case List.find P (rev [1..<LEVELS + 1]) of Some l \<Rightarrow> LEVELS - l + 1 | None \<Rightarrow> LEVELS) < NLAYERS"
proof -
  have n: "NLAYERS = LEVELS + 1" by (simp add: NLAYERS_def LEVELS_def)
  show ?thesis
  proof (cases "List.find P (rev [1..<LEVELS + 1])")
    case (Some l)
    show ?thesis unfolding Some option.case n using find_layer[OF Some] by linarith
  qed (simp add: n)
qed

lemma coeff_layer_less: "coeff_layer x y w h < NLAYERS" "coeff_layer_1d i n < NLAYERS"
proof -
  have "0 < NLAYERS" by (simp add: NLAYERS_def)
  then show "coeff_layer x y w h < NLAYERS" "coeff_layer_1d i n < NLAYERS"
    unfolding coeff_layer_def coeff_layer_1d_def using found_layer_less by simp_all
qed

section \<open>Writing lines\<close>

definition put_line :: "nat list \<Rightarrow> 'a list \<Rightarrow> 'a list \<Rightarrow> 'a list" where
  "put_line idxs vs d = fold (\<lambda>(i, v) d. d[i := v]) (zip idxs vs) d"

lemma put_line_simps [simp]: "put_line [] vs d = d" "put_line (i # js) (v # vs) d = put_line js vs (d[i := v])" "put_line js [] d = d"
  by (simp_all add: put_line_def)

lemma length_put_line [simp]: "length (put_line idxs vs d) = length d"
  by (induction idxs arbitrary: vs d) (auto simp: put_line_def zip_Cons1 split: list.splits)

lemma set_idx_loop:
  "\<forall>i \<in> set idxs. i < length d \<Longrightarrow> rfold set_idx d (zip idxs vs) = Inr (put_line idxs vs d)"
proof (induction idxs arbitrary: vs d)
  case (Cons i idxs)
  then show ?case by (cases vs) (auto simp: set_idx_def)
qed simp

lemma on_line_ok:
  assumes "\<forall>i \<in> set idxs. i < length d"
  shows "on_line f d idxs = (Inr (put_line idxs (f (map ((!) d) idxs)) d) :: ('e, _) res)"
proof -
  have "rmap (at_idx d) idxs = (Inr (map ((!) d) idxs) :: ('e, _) res)"
    using assms by (intro rmap_Inr) simp
  then show ?thesis by (simp add: on_line_def set_idx_loop[OF assms])
qed

lemma put_line_other: "j \<notin> set idxs \<Longrightarrow> put_line idxs vs d ! j = d ! j"
proof (induction idxs arbitrary: vs d)
  case (Cons i idxs)
  then show ?case by (cases vs) auto
qed simp

lemma put_line_nth:
  "distinct idxs \<Longrightarrow> \<forall>i \<in> set idxs. i < length d \<Longrightarrow> p < length idxs \<Longrightarrow> p < length vs \<Longrightarrow>
     put_line idxs vs d ! (idxs ! p) = vs ! p"
proof (induction idxs arbitrary: vs d p)
  case (Cons i idxs)
  obtain v vs' where vs: "vs = v # vs'" using Cons.prems(4) by (cases vs) auto
  show ?case
  proof (cases p)
    case 0
    then show ?thesis using Cons.prems put_line_other[of i idxs vs' "d[i := v]"] vs by simp
  next
    case (Suc q)
    then show ?thesis using Cons vs by simp
  qed
qed simp

section \<open>Passes over disjoint lines\<close>

definition line :: "('a list \<Rightarrow> 'a list) \<Rightarrow> nat list \<Rightarrow> 'a list \<Rightarrow> 'a list" where
  "line f idxs d = put_line idxs (f (map ((!) d) idxs)) d"

definition pass :: "('a list \<Rightarrow> 'a list) \<Rightarrow> nat list list \<Rightarrow> 'a list \<Rightarrow> 'a list" where
  "pass f ls d = fold (line f) ls d"

text \<open>Lines of \<open>n\<close> places each, all different and within \<open>m\<close>.\<close>

definition lines_ok :: "nat \<Rightarrow> nat \<Rightarrow> nat list list \<Rightarrow> bool" where
  "lines_ok m n ls \<longleftrightarrow> distinct (concat ls) \<and> (\<forall>l \<in> set ls. length l = n \<and> (\<forall>i \<in> set l. i < m))"

lemma length_line [simp]: "length (line f idxs d) = length d"
  by (simp add: line_def)

lemma length_pass [simp]: "length (pass f ls d) = length d"
  unfolding pass_def by (induction ls arbitrary: d) auto

lemma pass_ok:
  "\<forall>l \<in> set ls. \<forall>i \<in> set l. i < length d \<Longrightarrow> rfold (on_line f) d ls = (Inr (pass f ls d) :: ('e, _) res)"
  unfolding pass_def
  by (induction ls arbitrary: d) (auto simp: on_line_ok line_def)

lemma read_put_line:
  assumes "distinct idxs" and "\<forall>i \<in> set idxs. i < length d" and "length vs = length idxs"
  shows "map ((!) (put_line idxs vs d)) idxs = vs"
  using assms by (intro nth_equalityI) (simp_all add: put_line_nth)

lemma line_inverse:
  assumes "distinct l" and "\<forall>i \<in> set l. i < length d"
    and "\<And>xs. length xs = length l \<Longrightarrow> length (f xs) = length l \<and> length (g xs) = length l \<and> g (f xs) = xs"
  shows "line g l (line f l d) = d"
proof (rule nth_equalityI)
  have read: "map ((!) (line f l d)) l = f (map ((!) d) l)"
    unfolding line_def by (rule read_put_line) (use assms in simp_all)
  fix j assume j: "j < length (line g l (line f l d))"
  show "line g l (line f l d) ! j = d ! j"
  proof (cases "j \<in> set l")
    case True
    then obtain p where p: "p < length l" "l ! p = j" by (auto simp: in_set_conv_nth)
    have "line g l (line f l d) ! (l ! p) = g (map ((!) (line f l d)) l) ! p"
      unfolding line_def[of g] by (rule put_line_nth) (use assms p in simp_all)
    also have "\<dots> = d ! (l ! p)" using assms(3)[of "map ((!) d) l"] p by (simp add: read)
    finally show ?thesis by (simp add: p)
  qed (simp add: line_def put_line_other)
qed simp

lemma put_line_update: "i \<notin> set m \<Longrightarrow> put_line m vs (d[i := v]) = (put_line m vs d)[i := v]"
proof (induction m arbitrary: vs d)
  case (Cons a m)
  then show ?case by (cases vs) (auto simp: list_update_swap)
qed simp

lemma put_line_commute:
  "set l \<inter> set m = {} \<Longrightarrow> put_line l us (put_line m vs d) = put_line m vs (put_line l us d)"
proof (induction l arbitrary: us d)
  case (Cons i l)
  then show ?case by (cases us) (auto simp: put_line_update[symmetric])
qed simp

lemma line_commute:
  assumes "set l \<inter> set m = {}"
  shows "line f l (line g m d) = line g m (line f l d)"
proof -
  have r: "map ((!) (line g m d)) l = map ((!) d) l" "map ((!) (line f l d)) m = map ((!) d) m"
    using assms by (auto simp: line_def disjoint_iff intro!: put_line_other)
  have "line f l (line g m d) = put_line l (f (map ((!) d) l)) (line g m d)" by (simp only: line_def[of f] r)
  also have "\<dots> = put_line m (g (map ((!) d) m)) (line f l d)"
    unfolding line_def by (rule put_line_commute[OF assms])
  also have "\<dots> = line g m (line f l d)" by (simp only: line_def[of g] r)
  finally show ?thesis .
qed

lemma line_pass_commute:
  "set l \<inter> set (concat ls) = {} \<Longrightarrow> line g l (pass f ls d) = pass f ls (line g l d)"
proof (induction ls arbitrary: d)
  case (Cons m ls)
  have "line g l (pass f (m # ls) d) = line g l (pass f ls (line f m d))" by (simp add: pass_def)
  also have "\<dots> = pass f ls (line g l (line f m d))" using Cons.prems by (intro Cons.IH) auto
  also have "line g l (line f m d) = line f m (line g l d)" using Cons.prems by (intro line_commute) auto
  finally show ?case by (simp add: pass_def)
qed (simp add: pass_def)

lemma pass_inverse:
  assumes "lines_ok (length d) n ls"
    and fg: "\<And>xs. length xs = n \<Longrightarrow> length (f xs) = n \<and> length (g xs) = n \<and> g (f xs) = xs"
  shows "pass g ls (pass f ls d) = d"
  using assms(1)
proof (induction ls arbitrary: d)
  case (Cons l ls)
  have "line g l (pass f ls (line f l d)) = pass f ls (line g l (line f l d))"
    using Cons.prems by (intro line_pass_commute) (auto simp: lines_ok_def)
  also have "line g l (line f l d) = d"
    using Cons.prems fg by (intro line_inverse) (auto simp: lines_ok_def)
  finally have "pass g (l # ls) (pass f (l # ls) d) = pass g ls (pass f ls d)" by (simp add: pass_def)
  also have "\<dots> = d" using Cons.prems by (intro Cons.IH) (auto simp: lines_ok_def)
  finally show ?case .
qed (simp add: pass_def)

section \<open>The transform can be inverted\<close>

definition perfect :: "'a wave \<Rightarrow> bool" where
  "perfect ops \<longleftrightarrow> (\<forall>a b. wv_sum ops (wv_sum ops a b) (wv_dif ops a b) = a \<and>
     wv_dif ops (wv_sum ops a b) (wv_dif ops a b) = b)"

lemma length_forward_line [simp]: "length (forward_line ops xs) = length xs"
  by (simp add: forward_line_def Let_def)

lemma length_pairs: "length (concat (map (\<lambda>i. [f i, g i]) [0..<n])) = 2 * n"
  by (induction n) auto

lemma length_inverse_line [simp]: "length (inverse_line ops xs) = length xs"
  by (simp add: inverse_line_def Let_def length_pairs)

lemma pairs_of: "length xs = 2 * n \<Longrightarrow> concat (map (\<lambda>i. [xs ! (2 * i), xs ! (2 * i + 1)]) [0..<n]) = xs"
proof (induction n arbitrary: xs)
  case (Suc n)
  define ys where "ys = take (2 * n) xs"
  have xs: "xs = ys @ [xs ! (2 * n), xs ! (2 * n + 1)]"
    using Suc.prems by (intro nth_equalityI) (auto simp: ys_def nth_append nth_Cons' less_Suc_eq)
  have "concat (map (\<lambda>i. [xs ! (2 * i), xs ! (2 * i + 1)]) [0..<n]) =
      concat (map (\<lambda>i. [ys ! (2 * i), ys ! (2 * i + 1)]) [0..<n])"
    by (intro arg_cong[where f = concat] map_cong refl) (simp add: ys_def)
  also have "\<dots> = ys" using Suc.prems by (intro Suc.IH) (simp add: ys_def)
  finally show ?case using xs by simp
qed simp

lemma inverse_append:
  assumes "length A = n" and "length B = n"
  shows "inverse_line ops (A @ B) = concat (map (\<lambda>i. [wv_sum ops (A ! i) (B ! i), wv_dif ops (A ! i) (B ! i)]) [0..<n])"
proof -
  have "map (\<lambda>i. [wv_sum ops ((A @ B) ! i) ((A @ B) ! (n + i)), wv_dif ops ((A @ B) ! i) ((A @ B) ! (n + i))]) [0..<n] =
      map (\<lambda>i. [wv_sum ops (A ! i) (B ! i), wv_dif ops (A ! i) (B ! i)]) [0..<n]"
    using assms by (intro map_cong refl) (simp add: nth_append)
  moreover have "length (A @ B) div 2 = n" "length (A @ B) - 2 * n = 0" using assms by simp_all
  ultimately show ?thesis unfolding inverse_line_def Let_def by (simp only: replicate_0 append_Nil2)
qed

lemma inverse_forward_line:
  assumes "perfect ops" and "even (length xs)"
  shows "inverse_line ops (forward_line ops xs) = xs"
proof -
  define n where "n = length xs div 2"
  have len: "length xs = 2 * n" using assms(2) by (simp add: n_def)
  let ?s = "\<lambda>i. wv_sum ops (xs ! (2 * i)) (xs ! (2 * i + 1))" and ?d = "\<lambda>i. wv_dif ops (xs ! (2 * i)) (xs ! (2 * i + 1))"
  have f: "forward_line ops xs = map ?s [0..<n] @ map ?d [0..<n]"
    by (simp add: forward_line_def len)
  have nth_sums: "map (\<lambda>i. [wv_sum ops (map ?s [0..<n] ! i) (map ?d [0..<n] ! i), wv_dif ops (map ?s [0..<n] ! i) (map ?d [0..<n] ! i)]) [0..<n] =
      map (\<lambda>i. [wv_sum ops (?s i) (?d i), wv_dif ops (?s i) (?d i)]) [0..<n]"
    by (intro map_cong refl) simp
  have "inverse_line ops (forward_line ops xs) = concat (map (\<lambda>i. [wv_sum ops (?s i) (?d i), wv_dif ops (?s i) (?d i)]) [0..<n])"
    unfolding f by (subst inverse_append[where n = n]) (simp_all only: length_map length_upt diff_zero nth_sums)
  also have "\<dots> = xs" using assms(1) pairs_of[OF len] by (simp add: perfect_def)
  finally show ?thesis .
qed

lemma distinct_grid:
  fixes m n :: nat
  assumes "\<And>y y' x x'. y < m \<Longrightarrow> y' < m \<Longrightarrow> x < n \<Longrightarrow> x' < n \<Longrightarrow> g y x = g y' x' \<Longrightarrow> y = y' \<and> x = x'"
  shows "distinct (concat (map (\<lambda>y. map (g y) [0..<n]) [0..<m]))"
  using assms
proof (induction m)
  case (Suc m)
  have "distinct (concat (map (\<lambda>y. map (g y) [0..<n]) [0..<m]))"
    by (rule Suc.IH) (rule Suc.prems, simp_all)
  moreover have "inj_on (g m) {0..<n}"
    by (intro inj_onI) (use Suc.prems[of m m] in auto)
  moreover have "g m x' \<noteq> g y x" if "y < m" "x < n" "x' < n" for y x x'
    using Suc.prems[of y m x x'] that by auto
  ultimately show ?case by (auto simp: distinct_map)
qed simp

lemma set_row: "set (row w cw y) = {y * w + x |x. x < cw}" and set_col: "set (col w ch x) = {y * w + x |y. y < ch}"
  unfolding row_def col_def set_map image_def by auto

lemma rows_ok:
  assumes "cw \<le> w" and "ch \<le> h"
  shows "lines_ok (w * h) cw (map (row w cw) [0..<ch])" and "lines_ok (w * h) ch (map (col w ch) [0..<cw])"
proof -
  have dm: "(y * w + x) div w = y" "(y * w + x) mod w = x" if "x < w" for x y using that by simp_all
  have inj: "y = y' \<and> x = x'" if "y * w + x = y' * w + x'" "x < w" "x' < w" for x y x' y'
    using dm[OF that(2), of y] dm[OF that(3), of y'] that(1) by metis
  have lt: "y * w + x < w * h" if "x < w" "y < h" for x y
  proof -
    have "y * w + x < Suc y * w" using that(1) by simp
    also have "\<dots> \<le> h * w" using that(2) by (intro mult_le_mono1) simp
    finally show ?thesis by (simp add: mult.commute)
  qed
  have "distinct (concat (map (row w cw) [0..<ch]))"
    unfolding row_def
  proof (rule distinct_grid)
    fix y y' x x' assume "x < cw" "x' < cw" "y * w + x = y' * w + x'"
    with inj[of y x y' x'] assms(1) show "y = y' \<and> x = x'" by linarith
  qed
  then show "lines_ok (w * h) cw (map (row w cw) [0..<ch])"
    using assms lt by (fastforce simp: lines_ok_def set_row row_def[THEN arg_cong[where f = length]])
  have "distinct (concat (map (col w ch) [0..<cw]))"
    unfolding col_def
  proof (rule distinct_grid)
    fix x x' y y' assume "x < cw" "x' < cw" "y * w + x = y' * w + x'"
    with inj[of y x y' x'] assms(1) show "x = x' \<and> y = y'" by linarith
  qed
  then show "lines_ok (w * h) ch (map (col w ch) [0..<cw])"
    using assms lt by (fastforce simp: lines_ok_def set_col col_def[THEN arg_cong[where f = length]])
qed

lemma level_passes:
  assumes "cw \<le> w" and "ch \<le> h" and "length d = w * h"
  shows "forward_level ops w cw ch d = (Inr (pass (forward_line ops) (map (col w ch) [0..<cw])
      (pass (forward_line ops) (map (row w cw) [0..<ch]) d)) :: ('e, _) res)"
  using rows_ok[OF assms(1,2)] assms(3)
  by (simp add: forward_level_def pass_ok lines_ok_def)

lemma inverse_passes:
  assumes "cw = w div 2 ^ level" and "ch = h div 2 ^ level" and "length d = w * h"
  shows "inverse_level ops w h d level = (Inr (pass (inverse_line ops) (map (row w cw) [0..<ch])
      (pass (inverse_line ops) (map (col w ch) [0..<cw]) d)) :: ('e, _) res)"
proof -
  have "cw \<le> w" "ch \<le> h" by (simp_all add: assms)
  note rows_ok[OF this]
  then show ?thesis using assms(3) unfolding inverse_level_def assms(1,2)[symmetric] Let_def
    by (simp add: pass_ok lines_ok_def)
qed

lemma level_inverse:
  assumes "perfect ops" and "cw = w div 2 ^ j" and "ch = h div 2 ^ j" and "even cw" and "even ch" and "length d = w * h"
  obtains d' where "forward_level ops w cw ch d = (Inr d' :: ('e, _) res)" and "length d' = w * h"
    and "inverse_level ops w h d' j = (Inr d :: ('f, _) res)"
proof -
  have le: "cw \<le> w" "ch \<le> h" by (simp_all add: assms)
  note ok = rows_ok[OF le]
  let ?d1 = "pass (forward_line ops) (map (row w cw) [0..<ch]) d"
  let ?d2 = "pass (forward_line ops) (map (col w ch) [0..<cw]) ?d1"
  have inv: "inverse_line ops (forward_line ops xs) = xs" if "length xs = cw \<or> length xs = ch" for xs
    using that assms(4,5) by (intro inverse_forward_line assms(1)) auto
  have "pass (inverse_line ops) (map (col w ch) [0..<cw]) ?d2 = ?d1"
    by (rule pass_inverse[where n = ch]) (use ok(2) assms(6) inv in simp_all)
  moreover have "pass (inverse_line ops) (map (row w cw) [0..<ch]) ?d1 = d"
    by (rule pass_inverse[where n = cw]) (use ok(1) assms(6) inv in simp_all)
  ultimately have "inverse_level ops w h ?d2 j = (Inr d :: ('f, _) res)"
    using inverse_passes[OF assms(2,3), of ?d2 ops] assms(6) by simp
  with that[of ?d2] level_passes[OF le assms(6), where ops = ops and 'e = 'e] assms(6) show ?thesis by simp
qed

lemma levels_inverse:
  assumes "perfect ops" and "2 ^ (j + n) dvd w" and "2 ^ (j + n) dvd h" and "length d = w * h"
  shows "\<exists>d'. forward_levels ops w n (w div 2 ^ j) (h div 2 ^ j) d = (Inr d' :: ('e, _) res) \<and> length d' = w * h \<and>
    rfold (inverse_level ops w h) d' (rev [j..<j + n]) = (Inr d :: ('f, _) res)"
  using assms(2-4)
proof (induction n arbitrary: j d)
  case (Suc n)
  have even: "even (w div 2 ^ j)" "even (h div 2 ^ j)"
    using Suc.prems by (auto simp: power_add elim!: dvdE)
  obtain d1 where d1: "forward_level ops w (w div 2 ^ j) (h div 2 ^ j) d = (Inr d1 :: ('e, _) res)" "length d1 = w * h"
      "inverse_level ops w h d1 j = (Inr d :: ('f, _) res)"
    using level_inverse[OF assms(1) refl refl even Suc.prems(3)] by blast
  have half: "w div 2 ^ j div 2 = w div 2 ^ Suc j" "h div 2 ^ j div 2 = h div 2 ^ Suc j"
    by (simp_all add: div_mult2_eq[symmetric] mult.commute)
  obtain d' where d': "forward_levels ops w n (w div 2 ^ Suc j) (h div 2 ^ Suc j) d1 = (Inr d' :: ('e, _) res)" "length d' = w * h"
      "rfold (inverse_level ops w h) d' (rev [Suc j..<Suc j + n]) = (Inr d1 :: ('f, _) res)"
    using Suc.IH[of "Suc j" d1] Suc.prems d1(2) by auto
  have "rev [j..<j + Suc n] = rev [Suc j..<Suc j + n] @ [j]"
    by (simp add: upt_conv_Cons del: upt_Suc)
  then have "rfold (inverse_level ops w h) d' (rev [j..<j + Suc n]) = (Inr d :: ('f, _) res)"
    using d1(3) d'(3) by (simp add: rfold_append del: upt_Suc)
  with d1(1) d'(1,2) show ?case by (simp add: half del: upt_Suc)
qed simp

lemma haar_inverse_spec:
  assumes "perfect ops" and "2 ^ levels dvd w" and "2 ^ levels dvd h" and "length d = w * h"
  shows "\<exists>d'. haar_forward ops d w h levels = (Inr d' :: ('e, _) res) \<and> length d' = w * h \<and>
    haar_inverse ops d' w h levels = (Inr d :: ('f, _) res)"
  using levels_inverse[of ops 0 levels w h d] assms by (simp add: haar_forward_def haar_inverse_def)

lemma line_1d:
  assumes "cn \<le> length d"
  shows "on_line f d [0..<cn] = (Inr (line f [0..<cn] d) :: ('e, _) res)"
  using assms by (simp add: on_line_ok line_def)

lemma levels_inverse_1d:
  assumes "perfect ops" and "2 ^ (j + n) dvd length d"
  shows "\<exists>d'. forward_levels_1d ops n (length d div 2 ^ j) d = (Inr d' :: ('e, _) res) \<and> length d' = length d \<and>
    rfold (inverse_level_1d ops (length d)) d' (rev [j..<j + n]) = (Inr d :: ('f, _) res)"
  using assms(2)
proof (induction n arbitrary: j d)
  case (Suc n)
  let ?n = "length d div 2 ^ j"
  have even: "even ?n" using Suc.prems by (auto simp: power_add elim!: dvdE)
  have le: "?n \<le> length d" by simp
  define d1 where "d1 = line (forward_line ops) [0..<?n] d"
  have len: "length d1 = length d" by (simp add: d1_def)
  have undone: "line (inverse_line ops) [0..<?n] d1 = d"
    unfolding d1_def using even by (intro line_inverse) (auto intro!: inverse_forward_line assms(1) dest: less_le_trans[OF _ le])
  have half: "?n div 2 = length d1 div 2 ^ Suc j" by (simp add: len div_mult2_eq[symmetric] mult.commute)
  obtain d' where d': "forward_levels_1d ops n (length d1 div 2 ^ Suc j) d1 = (Inr d' :: ('e, _) res)" "length d' = length d"
      "rfold (inverse_level_1d ops (length d)) d' (rev [Suc j..<Suc j + n]) = (Inr d1 :: ('f, _) res)"
    using Suc.IH[of "Suc j" d1] Suc.prems len by auto
  have "rev [j..<j + Suc n] = rev [Suc j..<Suc j + n] @ [j]" by (simp add: upt_conv_Cons del: upt_Suc)
  moreover have "inverse_level_1d ops (length d) d1 j = (Inr d :: ('f, _) res)"
    using line_1d[of ?n d1 "inverse_line ops", where 'e = 'f] le len undone by (simp add: inverse_level_1d_def)
  ultimately have "rfold (inverse_level_1d ops (length d)) d' (rev [j..<j + Suc n]) = (Inr d :: ('f, _) res)"
    using d'(3) by (simp add: rfold_append del: upt_Suc)
  moreover have "forward_levels_1d ops (Suc n) ?n d = (Inr d' :: ('e, _) res)"
    using line_1d[OF le, of "forward_line ops", where 'e = 'e] d'(1) half by (simp add: d1_def)
  ultimately show ?case using d'(2) by blast
qed simp

lemma haar_inverse_1d_spec:
  assumes "perfect ops" and "2 ^ levels dvd length d"
  shows "\<exists>d'. haar_forward_1d ops d levels = (Inr d' :: ('e, _) res) \<and> length d' = length d \<and>
    haar_inverse_1d ops d' levels = (Inr d :: ('f, _) res)"
  using levels_inverse_1d[of ops 0 levels d] assms by (auto simp: haar_forward_1d_def haar_inverse_1d_def)

section \<open>No panic, whatever the arithmetic\<close>

lemma forward_levels_total:
  "cw \<le> w \<Longrightarrow> ch \<le> h \<Longrightarrow> length d = w * h \<Longrightarrow>
     \<exists>d'. forward_levels ops w n cw ch d = (Inr d' :: ('e, _) res) \<and> length d' = w * h"
proof (induction n arbitrary: cw ch d)
  case (Suc n)
  from level_passes[OF Suc.prems, where ops = ops and 'e = 'e] Suc.IH[of "cw div 2" "ch div 2"] Suc.prems
  show ?case by (simp add: div_le_dividend[THEN order_trans])
qed simp

lemma inverse_levels_total:
  "length d = w * h \<Longrightarrow> \<exists>d'. rfold (inverse_level ops w h) d ls = (Inr d' :: ('e, _) res) \<and> length d' = w * h"
proof (induction ls arbitrary: d)
  case (Cons l ls)
  from inverse_passes[OF refl refl Cons.prems, where ops = ops and 'e = 'e and level = l] Cons show ?case by simp
qed simp

lemma haar_total:
  assumes "length d = w * h"
  shows "\<exists>d'. haar_forward ops d w h levels = (Inr d' :: ('e, _) res) \<and> length d' = w * h"
    and "\<exists>d'. haar_inverse ops d w h levels = (Inr d' :: ('f, _) res) \<and> length d' = w * h"
  using assms by (simp_all add: haar_forward_def haar_inverse_def forward_levels_total inverse_levels_total)

lemma forward_levels_1d_total:
  "cn \<le> length d \<Longrightarrow> \<exists>d'. forward_levels_1d ops n cn d = (Inr d' :: ('e, _) res) \<and> length d' = length d"
proof (induction n arbitrary: cn d)
  case (Suc n)
  from line_1d[OF Suc.prems, of "forward_line ops", where 'e = 'e] Suc.IH[of "cn div 2" "line (forward_line ops) [0..<cn] d"] Suc.prems
  show ?case by (simp add: div_le_dividend[THEN order_trans])
qed simp

lemma inverse_levels_1d_total:
  "\<exists>d'. rfold (inverse_level_1d ops (length d)) d ls = (Inr d' :: ('e, _) res) \<and> length d' = length d"
proof (induction ls arbitrary: d)
  case (Cons l ls)
  let ?d = "line (inverse_line ops) [0..<length d div 2 ^ l] d"
  have "inverse_level_1d ops (length d) d l = (Inr ?d :: ('e, _) res)"
    by (simp add: inverse_level_1d_def line_1d)
  with Cons[of ?d] show ?case by simp
qed simp

lemma haar_total_1d:
  "\<exists>d'. haar_forward_1d ops d levels = (Inr d' :: ('e, _) res) \<and> length d' = length d"
  "\<exists>d'. haar_inverse_1d ops d levels = (Inr d' :: ('f, _) res) \<and> length d' = length d"
  by (simp_all add: haar_forward_1d_def haar_inverse_1d_def forward_levels_1d_total inverse_levels_1d_total)

section \<open>Properties\<close>

definition real_wave :: "real wave" where
  "real_wave = \<lparr>wv_zero = 0, wv_sum = (\<lambda>a b. (a + b) / sqrt 2), wv_dif = (\<lambda>a b. (a - b) / sqrt 2)\<rparr>"

lemma perfect_real: "perfect real_wave"
  by (simp add: perfect_def real_wave_def add_divide_distrib[symmetric] diff_divide_distrib[symmetric] real_div_sqrt
      flip: power2_eq_square)



end
