(* ===== verification/Wavelet.thy ===== *)
theory Wavelet
  imports Integrity Transform
begin

text \<open>
  \<open>holofs-client/src/client.rs\<close>: image and audio objects. Each channel is transformed, its coefficients are
  cut into priority layers by the manifest's position lists, and every layer is coded and sent like an
  opaque object. Reading decodes the layers up to a given one and leaves the other coefficients zero.
  The two writers differ in the content hash and the transform and share \<open>put_planes\<close>, as do the three
  readers \<open>read_layer\<close> and \<open>store_coeffs\<close>. \<open>bytes_used\<close> wraps at 64 bits, as in a release build.

  Shown: what a reader returns is the inverse transform of exactly the stored coefficients of the layers it
  was asked for, whatever the nodes answer; it never mixes in a wrong coefficient.
\<close>

section \<open>Writing\<close>

type_synonym put_state = "bytes list list list \<times> bytes list \<times> u64"

definition push_at :: "nat \<Rightarrow> nat \<Rightarrow> bytes \<Rightarrow> bytes list list list \<Rightarrow> bytes list list list" where
  "push_at c l h hs = hs[c := (hs ! c)[l := hs ! c ! l @ [h]]]"

definition put_shard_step :: "'w call \<Rightarrow> nat list \<Rightarrow> nat \<Rightarrow> nat \<Rightarrow> bytes list list list \<times> bytes list \<Rightarrow> nat \<times> shard \<Rightarrow>
    (manifest \<times> 'w, client_error, bytes list list list \<times> bytes list) act" where
  "put_shard_step call live c l st is = (case st of (hs, leaves) \<Rightarrow> (case is of (idx, s) \<Rightarrow>
     abind (send_shard call live (word_of_nat c) (word_of_nat l) idx s) (\<lambda>_.
       aret (push_at c l (shard_hash s) hs, leaves @ [shard_hash s]))))"

definition layer_bytes :: "u32 list \<Rightarrow> u32 list \<Rightarrow> ('e, bytes) res" where
  "layer_bytes plane positions =
     rbind (rmap (\<lambda>p. at_idx plane (unat p)) positions) (\<lambda>vs. Inr (concat (map f32_le vs)))"

definition put_layer :: "'w call \<Rightarrow> nat list \<Rightarrow> u32 list \<Rightarrow> nat \<Rightarrow> put_state \<Rightarrow> nat \<Rightarrow>
    (manifest \<times> 'w, client_error, put_state) act" where
  "put_layer call live plane c st l = (case st of (hs, leaves, rng) \<Rightarrow>
     abind the_manifest (\<lambda>m.
     abind (alift (at_idx (m_layer_positions m) l)) (\<lambda>positions.
     abind (alift (layer_bytes plane positions)) (\<lambda>bytes.
     abind (alift (at_idx (m_n_per_layer m) l)) (\<lambda>n.
     case encode_layer gf_new bytes (unat n) rng of ((sl, shards), rng) \<Rightarrow>
     abind (alift (at_idx (m_sym_len m) l)) (\<lambda>slm.
     abind (alift (rassert (sl = unat slm))) (\<lambda>_.
     abind (afold (put_shard_step call live c l) (hs, leaves) (zip [0..<length shards] shards)) (\<lambda>(hs, leaves).
       aret (hs, leaves, rng)))))))))"

definition put_channel :: "'w call \<Rightarrow> nat list \<Rightarrow> (u32 list \<Rightarrow> (client_error, u32 list) res) \<Rightarrow> u32 list list \<Rightarrow> nat \<Rightarrow>
    put_state \<Rightarrow> nat \<Rightarrow> (manifest \<times> 'w, client_error, put_state) act" where
  "put_channel call live transform channels nlayers st c =
     abind (alift (at_idx channels c)) (\<lambda>ch.
     abind (alift (transform ch)) (\<lambda>plane.
       afold (put_layer call live plane c) st [0..<nlayers]))"

definition put_planes :: "'w call \<Rightarrow> nat list \<Rightarrow> (u32 list \<Rightarrow> (client_error, u32 list) res) \<Rightarrow> u32 list list \<Rightarrow> u64 \<Rightarrow>
    (manifest \<times> 'w, client_error, unit) act" where
  "put_planes call live transform channels rng =
     abind the_manifest (\<lambda>m.
     let nc = unat (m_channels m); nl = unat (m_nlayers m) in
     abind (afold (put_channel call live transform channels nl) (replicate nc (replicate nl []), [], rng) [0..<nc])
       (\<lambda>(hs, leaves, _). on_manifest (\<lambda>m. m\<lparr>m_shard_hashes := hs, m_merkle_root := merkle_root leaves\<rparr>)))"

definition put_object :: "'w call \<Rightarrow> nat list \<Rightarrow> u32 list list \<Rightarrow> (manifest \<times> 'w, client_error, unit) act" where
  "put_object call live channels =
     abind the_manifest (\<lambda>m.
     let w = unat (m_width m); h = unat (m_height m); levels = unat (m_levels m) in
     abind (alift (data_cid channels w h (m_levels m) (m_k m))) (\<lambda>cid.
     abind (on_manifest (set_cid cid)) (\<lambda>_.
       put_planes call live (\<lambda>plane. haar_forward f32_wave plane w h levels) channels (cid_seed cid))))"

definition audio_cid :: "manifest \<Rightarrow> u32 list list \<Rightarrow> bytes" where
  "audio_cid m channels =
     sha_finalize (sha_updates (map f32_le (concat channels)) (sha_updates
       [as_bytes ''holofs-audio-v1'', u32_be (ucast (m_k m)), u32_be (m_width m), [m_channels m],
        as_bytes (m_content_type m)] sha_new))"

definition put_audio_object :: "'w call \<Rightarrow> nat list \<Rightarrow> u32 list list \<Rightarrow> (manifest \<times> 'w, client_error, unit) act" where
  "put_audio_object call live channels =
     abind the_manifest (\<lambda>m.
     let levels = unat (m_levels m) in
     abind (alift (rassert (m_kind m = Audio))) (\<lambda>_.
     abind (alift (rassert (unat (m_width m) mod 2 ^ levels = 0))) (\<lambda>_.
     let cid = audio_cid m channels in
     abind (on_manifest (set_cid cid)) (\<lambda>_.
       put_planes call live (\<lambda>plane. haar_forward_1d f32_wave plane levels) channels (cid_seed cid)))))"

section \<open>Reading\<close>

definition f32_of_le :: "bytes \<Rightarrow> u32" where
  "f32_of_le bs = word_of_nat (be_val (rev bs))"

text \<open>The four bytes of the \<open>idx\<close>-th coefficient of a decoded layer go to its position in the plane.\<close>

definition store_coeff :: "bytes \<Rightarrow> u32 list \<Rightarrow> nat \<times> u32 \<Rightarrow> ('e, u32 list) res" where
  "store_coeff bytes plane ip = (case ip of (idx, p) \<Rightarrow>
     rbind (rassert (idx * 4 + 3 < length bytes)) (\<lambda>_.
       set_idx plane (unat p, f32_of_le (slice bytes (idx * 4) (idx * 4 + 4)))))"

definition store_coeffs :: "bytes \<Rightarrow> u32 list \<Rightarrow> u32 list \<Rightarrow> ('e, u32 list) res" where
  "store_coeffs bytes plane positions = rfold (store_coeff bytes) plane (zip [0..<length positions] positions)"

text \<open>One layer: gather, drop the unknown shards, decode; also the number of shards that were used.\<close>

definition read_layer :: "'w call \<Rightarrow> manifest \<Rightarrow> nat list \<Rightarrow> nat \<Rightarrow> nat \<Rightarrow> u32 list \<Rightarrow> ('w, client_error, u32 list \<times> nat) act" where
  "read_layer call m live c l plane =
     abind (gather_layer call m live (word_of_nat c) (word_of_nat l)) (\<lambda>raw.
     abind (alift (expected_hashes m c l)) (\<lambda>expected.
     let v = verified expected raw in
     abind (alift (at_idx (m_sym_len m) l)) (\<lambda>sl.
     abind (alift (decode_layer gf_new v (unat sl))) (\<lambda>decoded.
       case decoded of
         None \<Rightarrow> alift (Inl (Err (LayerLost (word_of_nat c) (word_of_nat l))))
       | Some bytes \<Rightarrow>
           abind (alift (at_idx (m_layer_positions m) l)) (\<lambda>positions.
           abind (alift (store_coeffs bytes plane positions)) (\<lambda>plane.
             aret (plane, length v * (unat (m_k m) + unat sl))))))))"

definition read_up_to :: "'w call \<Rightarrow> manifest \<Rightarrow> nat list \<Rightarrow> u8 \<Rightarrow> nat \<Rightarrow> u32 list \<times> u64 \<Rightarrow> nat \<Rightarrow> ('w, client_error, u32 list \<times> u64) act" where
  "read_up_to call m live max_layer c st l = (case st of (plane, used) \<Rightarrow>
     if (word_of_nat l :: u8) > max_layer then aret (plane, used)
     else abind (read_layer call m live c l plane) (\<lambda>(plane, n). aret (plane, used + word_of_nat n)))"

definition read_channel :: "'w call \<Rightarrow> manifest \<Rightarrow> nat list \<Rightarrow> u8 \<Rightarrow> nat \<Rightarrow> (u32 list \<Rightarrow> (client_error, u32 list) res) \<Rightarrow>
    u32 list list \<times> u64 \<Rightarrow> nat \<Rightarrow> ('w, client_error, u32 list list \<times> u64) act" where
  "read_channel call m live max_layer len undo st c = (case st of (out, used) \<Rightarrow>
     abind (afold (read_up_to call m live max_layer c) (replicate len 0, used) [0..<unat (m_nlayers m)]) (\<lambda>(plane, used).
     abind (alift (undo plane)) (\<lambda>plane. aret (out @ [plane], used))))"

definition get_object_up_to_layer :: "'w call \<Rightarrow> manifest \<Rightarrow> nat list \<Rightarrow> u8 \<Rightarrow> ('w, client_error, u32 list list \<times> u64) act" where
  "get_object_up_to_layer call m live max_layer =
     (let w = unat (m_width m); h = unat (m_height m); levels = unat (m_levels m) in
      afold (read_channel call m live max_layer (w * h) (\<lambda>plane. haar_inverse f32_wave plane w h levels)) ([], 0)
        [0..<unat (m_channels m)])"

definition get_audio_object_up_to_layer :: "'w call \<Rightarrow> manifest \<Rightarrow> nat list \<Rightarrow> u8 \<Rightarrow> ('w, client_error, u32 list list \<times> u64) act" where
  "get_audio_object_up_to_layer call m live max_layer =
     abind (alift (rassert (m_kind m = Audio))) (\<lambda>_.
       afold (read_channel call m live max_layer (unat (m_width m)) (\<lambda>plane. haar_inverse_1d f32_wave plane (unat (m_levels m)))) ([], 0)
         [0..<unat (m_channels m)])"

text \<open>\<open>get_object\<close> reads every layer and counts nothing.\<close>

definition get_channel :: "'w call \<Rightarrow> manifest \<Rightarrow> nat list \<Rightarrow> u32 list list \<Rightarrow> nat \<Rightarrow> ('w, client_error, u32 list list) act" where
  "get_channel call m live out c =
     (let w = unat (m_width m); h = unat (m_height m); levels = unat (m_levels m) in
      abind (afold (\<lambda>plane l. abind (read_layer call m live c l plane) (\<lambda>(plane, _). aret plane))
          (replicate (w * h) 0) [0..<unat (m_nlayers m)]) (\<lambda>plane.
      abind (alift (haar_inverse f32_wave plane w h levels)) (\<lambda>plane. aret (out @ [plane]))))"

definition get_object :: "'w call \<Rightarrow> manifest \<Rightarrow> nat list \<Rightarrow> ('w, client_error, u32 list list) act" where
  "get_object call m live = afold (get_channel call m live) [] [0..<unat (m_channels m)]"

section \<open>What is written\<close>

text \<open>The shards of each layer, from the transformed planes: the coding of \<open>put_planes\<close> without its calls.\<close>

definition coeff_bytes :: "manifest \<Rightarrow> u32 list list \<Rightarrow> nat \<Rightarrow> nat \<Rightarrow> bytes" where
  "coeff_bytes m planes c l = concat (map (\<lambda>p. f32_le (planes ! c ! unat p)) (m_layer_positions m ! l))"

definition code_layer :: "manifest \<Rightarrow> u32 list list \<Rightarrow> nat \<times> nat \<Rightarrow> (nat \<Rightarrow> nat \<Rightarrow> shard list) \<times> u64 \<Rightarrow> (nat \<Rightarrow> nat \<Rightarrow> shard list) \<times> u64" where
  "code_layer m planes cl st = (case st of (acc, rng) \<Rightarrow> (case cl of (c, l) \<Rightarrow>
     (case encode_layer gf_new (coeff_bytes m planes c l) (unat (m_n_per_layer m ! l)) rng of
       ((_, shards), rng) \<Rightarrow> (acc(c := (acc c)(l := acc c l @ shards)), rng))))"

definition coded_layers :: "manifest \<Rightarrow> u32 list list \<Rightarrow> u64 \<Rightarrow> nat \<Rightarrow> nat \<Rightarrow> shard list" where
  "coded_layers m planes rng = fst (fold (code_layer m planes) (layer_pairs m) (\<lambda>_ _. [], rng))"

definition hashes_match :: "manifest \<Rightarrow> bytes list list list \<Rightarrow> (nat \<Rightarrow> nat \<Rightarrow> shard list) \<Rightarrow> bool" where
  "hashes_match m hs acc \<longleftrightarrow> length hs = unat (m_channels m) \<and>
     (\<forall>c < unat (m_channels m). length (hs ! c) = unat (m_nlayers m) \<and>
       (\<forall>l < unat (m_nlayers m). hs ! c ! l = map shard_hash (acc c l)))"

lemma layer_bytes_Inr:
  "(layer_bytes plane positions :: ('e, _) res) = Inr bytes \<longleftrightarrow>
     (\<forall>p \<in> set positions. unat p < length plane) \<and> bytes = concat (map (\<lambda>p. f32_le (plane ! unat p)) positions)"
proof (cases "\<forall>p \<in> set positions. unat p < length plane")
  case True
  then have "rmap (\<lambda>p. at_idx plane (unat p)) positions = (Inr (map (\<lambda>p. plane ! unat p) positions) :: ('e, _) res)"
    by (intro rmap_Inr) simp
  with True show ?thesis by (auto simp: layer_bytes_def comp_def)
next
  case False
  then have "rmap (\<lambda>p. at_idx plane (unat p)) positions \<noteq> (Inr vs :: ('e, _) res)" for vs
    by (induction positions arbitrary: vs) (auto simp: at_idx_def rbind_eq_Inr split: if_splits)
  with False show ?thesis by (auto simp: layer_bytes_def rbind_eq_Inr)
qed

lemma put_shard_step_run: "put_shard_step call live c l (hs, leaves) (idx, s) st =
    (case send_shard call live (word_of_nat c) (word_of_nat l) idx s st of
       (Inl e, st') \<Rightarrow> (Inl e, st') | (Inr u, st') \<Rightarrow> (Inr (push_at c l (shard_hash s) hs, leaves @ [shard_hash s]), st'))"
  by (auto simp: put_shard_step_def abind_def split: sum.splits prod.splits)

lemma put_shards_loop:
  "afold (put_shard_step call live c l) (hs, leaves) (zip [i..<i + length ss] ss) (m, w) = (Inr (hs', leaves'), (m', w')) \<Longrightarrow>
     m' = m \<and> leaves' = leaves @ map shard_hash ss \<and>
     (c < length hs \<longrightarrow> l < length (hs ! c) \<longrightarrow> hs' = hs[c := (hs ! c)[l := hs ! c ! l @ map shard_hash ss]])"
proof (induction ss arbitrary: hs leaves i w)
  case (Cons s ss)
  define zs where "zs = zip [Suc i..<Suc i + length ss] ss"
  have z: "zip [i..<i + length (s # ss)] (s # ss) = (i, s) # zs"
    by (simp add: zs_def upt_conv_Cons del: upt_Suc)
  obtain r1 m1 w1 where s1: "send_shard call live (word_of_nat c) (word_of_nat l) i s (m, w) = (r1, (m1, w1))"
    by (metis prod.exhaust)
  then have m1: "m1 = m" by (rule send_shard_manifest)
  then obtain u where "r1 = Inr u"
      and rest: "afold (put_shard_step call live c l) (push_at c l (shard_hash s) hs, leaves @ [shard_hash s]) zs (m, w1) =
        (Inr (hs', leaves'), (m', w'))"
    using Cons.prems[unfolded z] s1 by (cases r1) (auto simp: put_shard_step_run abind_def)
  from Cons.IH[OF rest[unfolded zs_def]] show ?case by (auto simp: push_at_def)
qed auto

definition layer_ok :: "manifest \<Rightarrow> u32 list list \<Rightarrow> nat \<Rightarrow> nat \<Rightarrow> bool" where
  "layer_ok m planes c l \<longleftrightarrow> l < length (m_layer_positions m) \<and>
     (\<forall>p \<in> set (m_layer_positions m ! l). unat p < length (planes ! c)) \<and>
     l < length (m_sym_len m) \<and> unat (m_sym_len m ! l) = symbol_len_of K (length (coeff_bytes m planes c l))"

lemma put_layer_spec:
  assumes run: "put_layer call live (planes ! c) c (hs, leaves, rng) l (m, w) = (Inr (hs', leaves', rng'), (m', w'))"
    and match: "hashes_match m hs acc" and c: "c < unat (m_channels m)" and l: "l < unat (m_nlayers m)"
  shows "m' = m \<and> layer_ok m planes c l \<and>
    (\<exists>acc'. code_layer m planes (c, l) (acc, rng) = (acc', rng') \<and> hashes_match m hs' acc')"
proof -
  obtain sl ss rng1 where e: "encode_layer gf_new (coeff_bytes m planes c l) (unat (m_n_per_layer m ! l)) rng = ((sl, ss), rng1)"
    by (metis prod.exhaust)
  note r = run[unfolded put_layer_def prod.case manifest_run]
  have pos: "l < length (m_layer_positions m)" using r by (auto simp: at_idx_def split: if_splits)
  obtain bs where lb: "layer_bytes (planes ! c) (m_layer_positions m ! l) = (Inr bs :: (client_error, _) res)"
    using r pos by (auto split: sum.splits)
  then have bs: "bs = coeff_bytes m planes c l" and inb: "\<forall>p \<in> set (m_layer_positions m ! l). unat p < length (planes ! c)"
    unfolding layer_bytes_Inr by (simp_all add: coeff_bytes_def)
  have n: "l < length (m_n_per_layer m)" using r pos lb by (auto simp: at_idx_def split: if_splits)
  have sym: "l < length (m_sym_len m)" "sl = unat (m_sym_len m ! l)"
    using r pos lb n e bs by (auto simp: at_idx_def rassert_def split: if_splits)
  have loop: "abind (afold (put_shard_step call live c l) (hs, leaves) (zip [0..<length ss] ss))
      (\<lambda>(hs, leaves). aret (hs, leaves, rng1)) (m, w) = (Inr (hs', leaves', rng'), (m', w'))"
    using r pos lb n e bs sym by (simp add: split_def aret_def)
  then have rng: "rng' = rng1" and shards: "afold (put_shard_step call live c l) (hs, leaves) (zip [0..<0 + length ss] ss) (m, w) = (Inr (hs', leaves'), (m', w'))"
    by (auto simp: abind_Inr aret_def)
  have len: "c < length hs" "l < length (hs ! c)" using match c l by (auto simp: hashes_match_def)
  from put_shards_loop[OF shards] len
  have m': "m' = m" and hs': "hs' = hs[c := (hs ! c)[l := hs ! c ! l @ map shard_hash ss]]" by simp_all
  have "encode_layer_with_k gf_new (coeff_bytes m planes c l) K (unat (m_n_per_layer m ! l)) rng = Inr ((sl, ss), rng1)"
    using e by (simp add: encode_layer_is_with_k)
  from encode_with_k_props(2)[OF this] have "layer_ok m planes c l" using pos inb sym by (simp add: layer_ok_def)
  moreover have "hashes_match m hs' (acc(c := (acc c)(l := acc c l @ ss)))"
    using match c l unfolding hs' hashes_match_def by (auto simp: nth_list_update)
  ultimately show ?thesis using m' rng e by (auto simp: code_layer_def)
qed

lemma put_layers_loop:
  assumes "afold (put_layer call live (planes ! c) c) (hs, leaves, rng) ls (m, w) = (Inr (hs', leaves', rng'), (m', w'))"
    and "hashes_match m hs acc" and "c < unat (m_channels m)" and "\<forall>l \<in> set ls. l < unat (m_nlayers m)"
  shows "m' = m \<and> (\<forall>l \<in> set ls. layer_ok m planes c l) \<and>
    (\<exists>acc'. fold (code_layer m planes) (map (\<lambda>l. (c, l)) ls) (acc, rng) = (acc', rng') \<and> hashes_match m hs' acc')"
  using assms
proof (induction ls arbitrary: hs leaves rng acc w)
  case (Cons l ls)
  obtain hs1 leaves1 rng1 m1 w1 where
    s1: "put_layer call live (planes ! c) c (hs, leaves, rng) l (m, w) = (Inr (hs1, leaves1, rng1), (m1, w1))"
    and rest: "afold (put_layer call live (planes ! c) c) (hs1, leaves1, rng1) ls (m1, w1) = (Inr (hs', leaves', rng'), (m', w'))"
    using Cons.prems(1) by (auto simp: abind_Inr)
  obtain acc1 where a1: "m1 = m" "layer_ok m planes c l" "code_layer m planes (c, l) (acc, rng) = (acc1, rng1)" "hashes_match m hs1 acc1"
    using put_layer_spec[OF s1 Cons.prems(2,3)] Cons.prems(4) by auto
  with Cons.IH[OF rest[unfolded a1(1)] a1(4) Cons.prems(3)] Cons.prems(4) show ?case by simp
qed auto

lemma put_channels_loop:
  assumes "afold (put_channel call live tr channels (unat (m_nlayers m))) (hs, leaves, rng) cs (m, w) = (Inr (hs', leaves', rng'), (m', w'))"
    and "hashes_match m hs acc" and "\<forall>c \<in> set cs. c < unat (m_channels m)"
    and "\<forall>c \<in> set cs. c < length channels \<longrightarrow> (\<forall>p. tr (channels ! c) = Inr p \<longrightarrow> planes ! c = p)"
  shows "m' = m \<and> (\<forall>c \<in> set cs. c < length channels \<and> tr (channels ! c) = Inr (planes ! c) \<and> (\<forall>l < unat (m_nlayers m). layer_ok m planes c l)) \<and>
    (\<exists>acc'. fold (code_layer m planes) (concat (map (\<lambda>c. map (\<lambda>l. (c, l)) [0..<unat (m_nlayers m)]) cs)) (acc, rng) = (acc', rng') \<and>
      hashes_match m hs' acc')"
  using assms
proof (induction cs arbitrary: hs leaves rng acc w)
  case (Cons c cs)
  obtain hs1 leaves1 rng1 m1 w1 where
    s1: "put_channel call live tr channels (unat (m_nlayers m)) (hs, leaves, rng) c (m, w) = (Inr (hs1, leaves1, rng1), (m1, w1))"
    and rest: "afold (put_channel call live tr channels (unat (m_nlayers m))) (hs1, leaves1, rng1) cs (m1, w1) = (Inr (hs', leaves', rng'), (m', w'))"
    using Cons.prems(1) by (auto simp: abind_Inr)
  note r = s1[unfolded put_channel_def manifest_run]
  have ch: "c < length channels" using r by (auto simp: at_idx_def split: if_splits)
  then obtain p where p: "tr (channels ! c) = Inr p" using r by (auto split: sum.splits)
  then have pc: "planes ! c = p" using Cons.prems(4) ch by simp
  have layers: "afold (put_layer call live (planes ! c) c) (hs, leaves, rng) [0..<unat (m_nlayers m)] (m, w) =
      (Inr (hs1, leaves1, rng1), (m1, w1))"
    using r ch p pc by simp
  obtain acc1 where a1: "m1 = m" "\<forall>l < unat (m_nlayers m). layer_ok m planes c l"
      "fold (code_layer m planes) (map (\<lambda>l. (c, l)) [0..<unat (m_nlayers m)]) (acc, rng) = (acc1, rng1)" "hashes_match m hs1 acc1"
    using put_layers_loop[OF layers Cons.prems(2)] Cons.prems(3) by auto
  from Cons.IH[OF rest[unfolded a1(1)] a1(4)] Cons.prems(3,4) a1 ch p pc show ?case by simp
qed auto

lemma put_planes_spec:
  assumes "put_planes call live tr channels rng (m, w) = (Inr u, (m', w'))"
    and "\<forall>c < unat (m_channels m). c < length channels \<longrightarrow> (\<forall>p. tr (channels ! c) = Inr p \<longrightarrow> planes ! c = p)"
  shows "(\<forall>c < unat (m_channels m). c < length channels \<and> tr (channels ! c) = Inr (planes ! c) \<and>
      (\<forall>l < unat (m_nlayers m). layer_ok m planes c l)) \<and>
    (\<exists>hs root. m' = m\<lparr>m_shard_hashes := hs, m_merkle_root := root\<rparr> \<and> hashes_match m hs (coded_layers m planes rng))"
proof -
  let ?hs = "replicate (unat (m_channels m)) (replicate (unat (m_nlayers m)) [])"
  obtain hs leaves rng' m1 w1 where
    loop: "afold (put_channel call live tr channels (unat (m_nlayers m))) (?hs, [], rng) [0..<unat (m_channels m)] (m, w) =
      (Inr (hs, leaves, rng'), (m1, w1))"
    and m': "m' = m1\<lparr>m_shard_hashes := hs, m_merkle_root := merkle_root leaves\<rparr>"
    using assms(1) unfolding put_planes_def abind_manifest Let_def by (auto simp: abind_Inr on_manifest_run)
  have "hashes_match m ?hs (\<lambda>_ _. [])" by (simp add: hashes_match_def)
  from put_channels_loop[OF loop this, of planes] assms(2)
  have m1: "m1 = m" and ok: "\<forall>c < unat (m_channels m). c < length channels \<and> tr (channels ! c) = Inr (planes ! c) \<and>
      (\<forall>l < unat (m_nlayers m). layer_ok m planes c l)"
    and acc: "\<exists>acc'. fold (code_layer m planes) (layer_pairs m) (\<lambda>_ _. [], rng) = (acc', rng') \<and> hashes_match m hs acc'"
    by (simp_all add: layer_pairs_def)
  have "hashes_match m hs (coded_layers m planes rng)" using acc by (auto simp: coded_layers_def)
  with ok m' m1 show ?thesis by blast
qed

lemma length_f32_le [simp]: "length (f32_le v) = 4"
  by (simp add: f32_le_def)

lemma length_f32s [simp]: "length (concat (map f32_le vs)) = 4 * length vs"
  by (induction vs) auto

lemma f32_of_f32_le [simp]: "f32_of_le (f32_le v) = v"
  by (simp add: f32_of_le_def f32_le_def u32_be_def word_of_be_bytes del: len_be)

lemma slice_f32s: "i < length vs \<Longrightarrow> slice (concat (map f32_le vs) @ rest) (i * 4) (i * 4 + 4) = f32_le (vs ! i)"
proof (induction vs arbitrary: i)
  case (Cons v vs)
  then show ?case by (cases i) (simp_all add: slice_def)
qed simp

text \<open>Writing the values in order, one place each, whatever the type of the places.\<close>

lemma coeffs_loop:
  assumes step: "\<And>i p plane. i < length vs \<Longrightarrow> f plane (i, p) = (set_idx plane (loc p, vs ! i) :: ('e, _) res)"
    and "length vs = length ps" and "\<forall>p \<in> set ps. loc p < length plane"
  shows "rfold f plane (zip [0..<length ps] ps) = Inr (put_line (map loc ps) vs plane)"
proof -
  have "rfold f plane ips = rfold set_idx plane (map (\<lambda>(i, p). (loc p, vs ! i)) ips)"
    if "\<forall>(i, p) \<in> set ips. i < length vs" for ips plane
    using that by (induction ips arbitrary: plane) (auto simp: step intro: rbind_cong)
  moreover have "\<forall>(i, p) \<in> set (zip [0..<length ps] ps). i < length vs"
    using assms(2) by (auto dest: set_zip_leftD)
  moreover have "map (\<lambda>(i, p). (loc p, vs ! i)) (zip [0..<length ps] ps) = zip (map loc ps) vs"
    using assms(2) by (intro nth_equalityI) auto
  ultimately show ?thesis using assms(3) by (simp add: set_idx_loop)
qed

lemma store_coeffs_ok:
  assumes "bytes = concat (map f32_le vs) @ rest" and "length vs = length positions" and "\<forall>p \<in> set positions. unat p < length plane"
  shows "store_coeffs bytes plane positions = (Inr (put_line (map unat positions) vs plane) :: ('e, _) res)"
  unfolding store_coeffs_def
proof (rule coeffs_loop)
  show "store_coeff bytes plane (i, p) = (set_idx plane (unat p, vs ! i) :: ('e, _) res)" if "i < length vs" for i p plane
    using that slice_f32s[OF that, of rest] by (simp add: store_coeff_def assms(1))
qed (use assms(2,3) in simp_all)

lemma coded_layers_consistent:
  assumes "\<forall>c l. X c l = chunks_of K (symbol_len_of K (length (coeff_bytes m planes c l)))
      (pad_to (K * symbol_len_of K (length (coeff_bytes m planes c l))) (coeff_bytes m planes c l))"
  shows "\<forall>s \<in> set (coded_layers m planes rng c l). consistent (gf_mul gf_new) (symbol_len_of K (length (coeff_bytes m planes c l))) (X c l) s"
proof -
  define P where "P = (\<lambda>st :: (nat \<Rightarrow> nat \<Rightarrow> shard list) \<times> u64. \<forall>c l. \<forall>s \<in> set (fst st c l).
    consistent (gf_mul gf_new) (symbol_len_of K (length (coeff_bytes m planes c l))) (X c l) s)"
  have step: "P (code_layer m planes cl st)" if "P st" for cl st
  proof -
    obtain acc rng c l where st: "st = (acc, rng)" "cl = (c, l)" by (metis prod.exhaust)
    obtain sl ss rng' where e: "encode_layer gf_new (coeff_bytes m planes c l) (unat (m_n_per_layer m ! l)) rng = ((sl, ss), rng')"
      by (metis prod.exhaust)
    then have k: "encode_layer_with_k gf_new (coeff_bytes m planes c l) K (unat (m_n_per_layer m ! l)) rng = Inr ((sl, ss), rng')"
      by (simp add: encode_layer_is_with_k)
    have "\<forall>s \<in> set ss. consistent (gf_mul gf_new) (symbol_len_of K (length (coeff_bytes m planes c l))) (X c l) s"
      using encode_with_k_props(2,4)[OF k] assms by simp
    with that show ?thesis by (auto simp: P_def st code_layer_def e)
  qed
  have "P (fold (code_layer m planes) cls st)" if "P st" for cls st
    using that by (induction cls arbitrary: st) (simp_all add: step)
  from this[of "(\<lambda>_ _. [], rng)" "layer_pairs m"] show ?thesis by (simp add: P_def coded_layers_def)
qed

section \<open>What is read\<close>

lemma put_line_fun:
  "\<forall>p \<in> set ps. p < length d \<Longrightarrow> j < length d \<Longrightarrow> put_line ps (map f ps) d ! j = (if j \<in> set ps then f j else d ! j)"
proof (induction ps arbitrary: d)
  case (Cons p ps)
  then show ?case by (cases "p = j") auto
qed simp

text \<open>A failed read is a failed gather or a lost layer.\<close>

definition read_failure :: "'w call \<Rightarrow> manifest \<Rightarrow> nat list \<Rightarrow> client_error fault \<Rightarrow> bool" where
  "read_failure call m live e \<longleftrightarrow> (\<exists>c l. e = Err (LayerLost c l)) \<or> (\<exists>c l v. fst (gather_layer call m live c l v) = Inl e)"

definition wave_object :: "'w call \<Rightarrow> manifest \<Rightarrow> u32 list list \<Rightarrow> nat \<Rightarrow> bool" where
  "wave_object call m planes len \<longleftrightarrow> (\<forall>c < unat (m_channels m). length (planes ! c) = len \<and>
     (\<forall>l < unat (m_nlayers m). layer_ok m planes c l \<and> m_layer_positions m ! l \<noteq> [] \<and>
       (\<exists>A. safe call A \<and> (let bs = coeff_bytes m planes c l; sl = symbol_len_of K (length bs) in
         represents m c l sl (chunks_of K sl (pad_to (K * sl) bs)) A))))"

lemma read_layer_spec:
  assumes run: "read_layer call m live c l plane v = (r, v')" and obj: "wave_object call m planes (length plane)"
    and c: "c < unat (m_channels m)" and l: "l < unat (m_nlayers m)"
  shows "case r of
      Inr (plane', n) \<Rightarrow> length plane' = length plane \<and> (\<forall>j < length plane. plane' ! j =
        (if j \<in> unat ` set (m_layer_positions m ! l) then planes ! c ! j else plane ! j))
    | Inl e \<Rightarrow> read_failure call m live e"
proof -
  define bs where "bs = coeff_bytes m planes c l"
  define sl where "sl = symbol_len_of K (length bs)"
  let ?pos = "m_layer_positions m ! l" and ?X = "chunks_of K sl (pad_to (K * sl) bs)"
  obtain A where ok: "layer_ok m planes c l" "?pos \<noteq> []" and A: "safe call A" and rep: "represents m c l sl ?X A"
    and len: "length (planes ! c) = length plane"
    using obj[unfolded wave_object_def Let_def, rule_format, OF c] l
    unfolding bs_def sl_def by (elim conjE allE[where x = l] impE exE) (use l in simp_all)
  have lb: "length bs = 4 * length ?pos"
    using length_f32s[of "map (\<lambda>p. planes ! c ! unat p) ?pos"] by (simp add: bs_def coeff_bytes_def comp_def del: length_f32s)
  have cov: "length bs \<le> K * sl" unfolding sl_def by (rule symbol_len_covers) (simp add: K_def)
  then have sl: "0 < sl" using lb ok(2) by (cases sl) auto
  obtain g v1 where g: "gather_layer call m live (word_of_nat c) (word_of_nat l) v = (g, v1)" by force
  note u = represents_sym_len[OF rep] represents_expected[OF rep]
  have slm: "unat (m_sym_len m ! l) = sl" using rep by (simp add: represents_def)
  show ?thesis
  proof (cases g)
    case (Inl e)
    then have "r = Inl e" using run g by (simp add: read_layer_def abind_def)
    moreover have "fst (gather_layer call m live (word_of_nat c) (word_of_nat l) v) = Inl e" using g Inl by simp
    ultimately show ?thesis unfolding read_failure_def by auto
  next
    case (Inr raw)
    let ?v = "verified (m_shard_hashes m ! c ! l) raw"
    note gr = g[unfolded Inr]
    have ex: "explains K sl ?v ?X" by (rule explains_authentic[OF rep verified_authentic[OF rep A gr]])
    note dec = decode_layer_spec[OF ex sl, where 'e = client_error]
    note r = run[unfolded read_layer_def abind_step[where m = "gather_layer call m live (word_of_nat c) (word_of_nat l)", OF gr]
      manifest_run u sum.case Let_def slm dec]
    show ?thesis
    proof (cases "\<forall>Z. explains K sl ?v Z \<longrightarrow> Z = ?X")
      case False
      then have "r = Inl (Err (LayerLost (word_of_nat c) (word_of_nat l)))" using r unfolding if_not_P[OF False] option.case by simp
      then show ?thesis by (simp add: read_failure_def)
    next
      case True
      let ?vs = "map (\<lambda>p. planes ! c ! unat p) ?pos"
      have cat: "concat ?X = pad_to (K * sl) bs" by (simp add: concat_chunks_of)
      have "concat ?X = concat (map f32_le ?vs) @ replicate (K * sl - length bs) 0"
        unfolding cat using cov by (simp add: pad_to_def bs_def coeff_bytes_def comp_def)
      moreover have "\<forall>p \<in> set ?pos. unat p < length plane" using ok(1) len by (simp add: layer_ok_def)
      ultimately have store: "store_coeffs (concat ?X) plane ?pos =
          (Inr (put_line (map unat ?pos) ?vs plane) :: (client_error, _) res)"
        by (intro store_coeffs_ok) simp_all
      have pos: "at_idx (m_layer_positions m) l = (Inr ?pos :: (client_error, _) res)" using ok(1) by (simp add: layer_ok_def)
      have "r = Inr (put_line (map unat ?pos) ?vs plane, length ?v * (unat (m_k m) + unat (m_sym_len m ! l)))"
        using r store pos slm unfolding if_P[OF True] option.case by simp
      moreover have "put_line (map unat ?pos) ?vs plane ! j = (if j \<in> unat ` set ?pos then planes ! c ! j else plane ! j)"
        if "j < length plane" for j
        using put_line_fun[of "map unat ?pos" plane j "\<lambda>j. planes ! c ! j"] ok(1) len that by (simp add: layer_ok_def comp_def)
      ultimately show ?thesis by simp
    qed
  qed
qed

definition covers :: "manifest \<Rightarrow> u8 \<Rightarrow> nat \<Rightarrow> nat \<Rightarrow> bool" where
  "covers m max_layer l j \<longleftrightarrow> \<not> (word_of_nat l > max_layer) \<and> j \<in> unat ` set (m_layer_positions m ! l)"

text \<open>The plane with only the coefficients of the layers up to \<open>max_layer\<close>.\<close>

definition kept :: "manifest \<Rightarrow> u32 list list \<Rightarrow> u8 \<Rightarrow> nat \<Rightarrow> nat \<Rightarrow> u32 list" where
  "kept m planes max_layer len c =
     map (\<lambda>j. if \<exists>l < unat (m_nlayers m). covers m max_layer l j
       then planes ! c ! j else 0) [0..<len]"

lemma read_layers_loop:
  assumes "afold (read_up_to call m live ml c) (plane, used) ls v = (r, v')" and "wave_object call m planes (length plane)"
    and "c < unat (m_channels m)" and "\<forall>l \<in> set ls. l < unat (m_nlayers m)"
  shows "case r of
      Inr (plane', n) \<Rightarrow> length plane' = length plane \<and> (\<forall>j < length plane. plane' ! j =
        (if \<exists>l \<in> set ls. covers m ml l j then planes ! c ! j else plane ! j))
    | Inl e \<Rightarrow> read_failure call m live e"
  using assms
proof (induction ls arbitrary: plane used v)
  case Nil
  then show ?case by auto
next
  case (Cons l ls)
  obtain r1 v1 where s1: "read_up_to call m live ml c (plane, used) l v = (r1, v1)" by force
  have first: "case r1 of
      Inr (plane1, n) \<Rightarrow> length plane1 = length plane \<and> (\<forall>j < length plane. plane1 ! j =
        (if covers m ml l j then planes ! c ! j else plane ! j))
    | Inl e \<Rightarrow> read_failure call m live e"
  proof (cases "(word_of_nat l :: u8) > ml")
    case True
    then show ?thesis using s1 by (auto simp: read_up_to_def covers_def)
  next
    case False
    obtain r2 v2 where s2: "read_layer call m live c l plane v = (r2, v2)" by force
    have "l < unat (m_nlayers m)" using Cons.prems(4) by simp
    note spec = read_layer_spec[OF s2 Cons.prems(2,3) this]
    show ?thesis using s1 s2 spec False
      by (cases r2) (auto simp: read_up_to_def abind_def covers_def split: prod.splits)
  qed
  show ?case
  proof (cases r1)
    case (Inl e)
    then have "r = Inl e" using Cons.prems(1) s1 by (simp add: abind_def)
    with first Inl show ?thesis by simp
  next
    case (Inr st1)
    obtain plane1 used1 where st1: "st1 = (plane1, used1)" by force
    with first Inr have p1: "length plane1 = length plane" "\<forall>j < length plane. plane1 ! j =
        (if covers m ml l j then planes ! c ! j else plane ! j)" by simp_all
    have rest: "afold (read_up_to call m live ml c) (plane1, used1) ls v1 = (r, v')"
      using Cons.prems(1) s1 Inr st1 by (simp add: abind_def)
    have obj: "wave_object call m planes (length plane1)" using Cons.prems(2) p1(1) by simp
    from Cons.IH[OF rest obj Cons.prems(3)] Cons.prems(4) p1 show ?thesis
      by (cases r) auto
  qed
qed

lemma read_channels_loop:
  assumes "afold (read_channel call m live ml len undo) (out, used) cs v = (r, v')" and "wave_object call m planes len"
    and "\<forall>c \<in> set cs. c < unat (m_channels m)" and "\<forall>p. length p = len \<longrightarrow> (\<exists>p'. undo p = Inr p')"
  shows "case r of
      Inr (out', n) \<Rightarrow> map Inr out' = map Inr out @ map (\<lambda>c. undo (kept m planes ml len c)) cs
    | Inl e \<Rightarrow> read_failure call m live e"
  using assms
proof (induction cs arbitrary: out used v)
  case (Cons c cs)
  obtain r1 v1 where s1: "afold (read_up_to call m live ml c) (replicate len 0, used) [0..<unat (m_nlayers m)] v = (r1, v1)" by force
  have c: "c < unat (m_channels m)" using Cons.prems(3) by simp
  have first: "case r1 of
      Inr (plane', n) \<Rightarrow> length plane' = len \<and> (\<forall>j < len. plane' ! j =
        (if \<exists>l \<in> set [0..<unat (m_nlayers m)]. covers m ml l j
         then planes ! c ! j else 0))
    | Inl e \<Rightarrow> read_failure call m live e"
    using read_layers_loop[OF s1 _ c, of planes] Cons.prems(2) by (cases r1) (simp_all split: prod.splits)
  show ?case
  proof (cases r1)
    case (Inl e)
    then have "read_channel call m live ml len undo (out, used) c v = (Inl e, v1)"
      using s1 by (simp add: read_channel_def abind_def)
    then have "r = Inl e" using Cons.prems(1) by (simp add: abind_stop)
    with first Inl show ?thesis by simp
  next
    case (Inr st1)
    obtain plane used1 where st1: "st1 = (plane, used1)" by force
    have plane: "plane = kept m planes ml len c"
      using first Inr st1 by (intro nth_equalityI) (auto simp: kept_def)
    have "length plane = len" using first Inr st1 by simp
    then obtain p where p: "undo plane = Inr p" using Cons.prems(4) by blast
    have "read_channel call m live ml len undo (out, used) c v = (Inr (out @ [p], used1), v1)"
      using s1 Inr st1 p by (simp add: read_channel_def abind_def)
    then have rest: "afold (read_channel call m live ml len undo) (out @ [p], used1) cs v1 = (r, v')"
      using Cons.prems(1) by (simp add: abind_step)
    from Cons.IH[OF rest Cons.prems(2)] Cons.prems(3,4) p plane show ?thesis by (cases r) auto
  qed
qed auto

section \<open>Properties\<close>

definition forward_planes :: "(u32 list \<Rightarrow> (client_error, u32 list) res) \<Rightarrow> u32 list list \<Rightarrow> u32 list list" where
  "forward_planes tr channels = map (\<lambda>ch. case tr ch of Inr p \<Rightarrow> p | Inl _ \<Rightarrow> []) channels"

lemma coded_layers_cid: "coded_layers (set_cid cid m) planes rng = coded_layers m planes rng"
proof -
  have "code_layer (set_cid cid m) planes = code_layer m planes"
    by (intro ext) (simp add: code_layer_def coeff_bytes_def set_cid_def)
  moreover have "layer_pairs (set_cid cid m) = layer_pairs m" by (simp add: layer_pairs_def set_cid_def)
  ultimately show ?thesis by (simp add: coded_layers_def)
qed

lemma put_wave_object:
  assumes put: "put_planes call live tr channels rng (m, w) = (Inr u, (m', w'))"
    and pl: "\<forall>c < unat (m_channels m). c < length channels \<longrightarrow> (\<forall>p. tr (channels ! c) = Inr p \<longrightarrow> planes ! c = p \<and> length p = len)"
    and pos: "\<forall>l < unat (m_nlayers m). m_layer_positions m ! l \<noteq> []"
    and safe: "\<forall>c l. safe call' (set (coded_layers m planes rng c l))"
  shows "wave_object call' m' planes len"
proof -
  have "\<forall>c < unat (m_channels m). c < length channels \<longrightarrow> (\<forall>p. tr (channels ! c) = Inr p \<longrightarrow> planes ! c = p)"
    using pl by blast
  from put_planes_spec[OF put this]
  have ok: "\<forall>c < unat (m_channels m). c < length channels \<and> tr (channels ! c) = Inr (planes ! c) \<and>
      (\<forall>l < unat (m_nlayers m). layer_ok m planes c l)"
    and hs: "\<exists>hs root. m' = m\<lparr>m_shard_hashes := hs, m_merkle_root := root\<rparr> \<and> hashes_match m hs (coded_layers m planes rng)"
    by blast+
  from hs obtain hs root where m': "m' = m\<lparr>m_shard_hashes := hs, m_merkle_root := root\<rparr>"
    and match: "hashes_match m hs (coded_layers m planes rng)" by blast
  have same: "layer_ok m' planes = layer_ok m planes" "coeff_bytes m' planes = coeff_bytes m planes"
    "m_nlayers m' = m_nlayers m" "m_channels m' = m_channels m" "m_layer_positions m' = m_layer_positions m"
    by (intro ext; simp add: m' layer_ok_def coeff_bytes_def)+ (simp_all add: m')
  show ?thesis
    unfolding wave_object_def same Let_def
  proof (intro allI impI conjI)
    fix c assume c: "c < unat (m_channels m)"
    with ok pl show "length (planes ! c) = len" by auto
    fix l assume l: "l < unat (m_nlayers m)"
    show lok: "layer_ok m planes c l" and "m_layer_positions m ! l \<noteq> []" using ok c l pos by auto
    let ?bs = "coeff_bytes m planes c l" and ?A = "set (coded_layers m planes rng c l)"
    let ?sl = "symbol_len_of K (length ?bs)"
    have "represents m' c l ?sl (chunks_of K ?sl (pad_to (K * ?sl) ?bs)) ?A"
      unfolding represents_def
    proof (intro conjI)
      show "c < length (m_shard_hashes m')" "l < length (m_shard_hashes m' ! c)"
        "set (m_shard_hashes m' ! c ! l) \<subseteq> shard_hash ` ?A" using match c l by (auto simp: hashes_match_def m')
      show "l < length (m_sym_len m')" "unat (m_sym_len m' ! l) = ?sl" using lok by (simp_all add: layer_ok_def m')
      show "source_ok K ?sl (chunks_of K ?sl (pad_to (K * ?sl) ?bs))" by (rule source_ok_chunks_of) simp
      show "\<forall>s \<in> ?A. consistent (gf_mul gf_new) ?sl (chunks_of K ?sl (pad_to (K * ?sl) ?bs)) s"
        by (rule coded_layers_consistent[where X = "\<lambda>c l. chunks_of K (symbol_len_of K (length (coeff_bytes m planes c l)))
      (pad_to (K * symbol_len_of K (length (coeff_bytes m planes c l))) (coeff_bytes m planes c l))"]) simp
    qed
    with safe show "\<exists>A. safe call' A \<and> represents m' c l ?sl (chunks_of K ?sl (pad_to (K * ?sl) ?bs)) A" by blast
  qed
qed

lemma data_cid_sizes: "data_cid channels w h levels k = Inr cid \<Longrightarrow> \<forall>ch \<in> set channels. length ch = w * h"
proof -
  have "rfold (cid_plane w h) s channels = (Inr s' :: ('e, _) res) \<Longrightarrow> \<forall>ch \<in> set channels. length ch = w * h" for s s'
    by (induction channels arbitrary: s) (auto simp: cid_plane_def rassert_def rbind_eq_Inr split: if_splits)
  then show "data_cid channels w h levels k = Inr cid \<Longrightarrow> \<forall>ch \<in> set channels. length ch = w * h"
    by (auto simp: data_cid_def rbind_eq_Inr)
qed

definition image_planes :: "manifest \<Rightarrow> u32 list list \<Rightarrow> u32 list list" where
  "image_planes m channels =
     forward_planes (\<lambda>p. haar_forward f32_wave p (unat (m_width m)) (unat (m_height m)) (unat (m_levels m))) channels"

definition image_shards :: "manifest \<Rightarrow> u32 list list \<Rightarrow> bytes \<Rightarrow> nat \<Rightarrow> nat \<Rightarrow> shard list" where
  "image_shards m channels cid = coded_layers m (image_planes m channels) (cid_seed cid)"

lemma put_object_spec:
  assumes put: "put_object call live channels (m, w) = (Inr u, (m', w'))"
    and pos: "\<forall>l < unat (m_nlayers m). m_layer_positions m ! l \<noteq> []"
    and safe: "\<forall>c l. safe call' (set (image_shards m channels (m_data_cid m') c l))"
  shows "wave_object call' m' (image_planes m channels) (unat (m_width m) * unat (m_height m))"
    and "\<exists>hs root. m' = m\<lparr>m_data_cid := m_data_cid m', m_object_id := m_object_id m', m_shard_hashes := hs, m_merkle_root := root\<rparr>"
proof -
  let ?w = "unat (m_width m)" and ?h = "unat (m_height m)" and ?lv = "unat (m_levels m)"
  let ?tr = "\<lambda>p. haar_forward f32_wave p ?w ?h ?lv"
  obtain cid where cid: "data_cid channels ?w ?h (m_levels m) (m_k m) = (Inr cid :: (client_error, _) res)"
    and planes: "put_planes call live ?tr channels (cid_seed cid) (set_cid cid m, w) = (Inr u, (m', w'))"
    using put unfolding put_object_def manifest_run Let_def by (auto split: sum.splits)
  note size = data_cid_sizes[OF cid]
  have tr: "image_planes m channels ! c = p \<and> length p = ?w * ?h"
    if c: "c < length channels" "?tr (channels ! c) = (Inr p :: (client_error, _) res)" for c p
  proof -
    have len: "length (channels ! c) = ?w * ?h" using size c(1) by simp
    obtain p' where "?tr (channels ! c) = (Inr p' :: (client_error, _) res)" "length p' = ?w * ?h"
      using haar_total(1)[OF len] by blast
    with c show ?thesis by (simp add: image_planes_def forward_planes_def)
  qed
  have "\<forall>c < unat (m_channels (set_cid cid m)). c < length channels \<longrightarrow>
      (\<forall>p. ?tr (channels ! c) = (Inr p :: (client_error, _) res) \<longrightarrow> image_planes m channels ! c = p)" using tr by blast
  from put_planes_spec[OF planes this] obtain hs root where
    m': "m' = (set_cid cid m)\<lparr>m_shard_hashes := hs, m_merkle_root := root\<rparr>" by blast
  have cid': "m_data_cid m' = cid" by (simp add: m' set_cid_def)
  show "\<exists>hs root. m' = m\<lparr>m_data_cid := m_data_cid m', m_object_id := m_object_id m', m_shard_hashes := hs, m_merkle_root := root\<rparr>"
    by (intro exI[of _ hs] exI[of _ root]) (simp add: m' set_cid_def)
  show "wave_object call' m' (image_planes m channels) (?w * ?h)"
    by (rule put_wave_object[OF planes])
      (use tr pos safe in \<open>auto simp: image_shards_def cid' coded_layers_cid\<close>, simp_all add: set_cid_def)
qed

text \<open>C19: integrity of progressive image reads. After a \<open>put_object\<close> that reported success, reading up to any layer over
  any network either reports a network error or a lost layer, or returns for every channel the inverse wavelet
  transform of the stored coefficients of the layers up to that one with zeros in the place of the others, to the bit; as
  long as no node answers with a different shard that collides with one of the object's in SHA-256.\<close>

theorem image_read_integrity:
  assumes "put_object call live channels (m, w) = (Inr u, (m', w'))"
    and "\<forall>l < unat (m_nlayers m). m_layer_positions m ! l \<noteq> []"
    and "\<forall>c l. safe call' (set (image_shards m channels (m_data_cid m') c l))"
  shows "case fst (get_object_up_to_layer call' m' live' ml v) of
      Inr (out, used) \<Rightarrow> length out = unat (m_channels m) \<and> (\<forall>c < unat (m_channels m).
        haar_inverse f32_wave (kept m (image_planes m channels) ml (unat (m_width m) * unat (m_height m)) c)
          (unat (m_width m)) (unat (m_height m)) (unat (m_levels m)) = (Inr (out ! c) :: (client_error, _) res))
    | Inl e \<Rightarrow> read_failure call' m' live' e"
proof -
  let ?w = "unat (m_width m)" and ?h = "unat (m_height m)" and ?lv = "unat (m_levels m)"
  let ?undo = "\<lambda>p. haar_inverse f32_wave p ?w ?h ?lv :: (client_error, _) res"
  have obj: "wave_object call' m' (image_planes m channels) (?w * ?h)" by (rule put_object_spec(1)[OF assms])
  obtain hs root where m': "m' = m\<lparr>m_data_cid := m_data_cid m', m_object_id := m_object_id m', m_shard_hashes := hs, m_merkle_root := root\<rparr>"
    using put_object_spec(2)[OF assms] by blast
  have same: "m_width m' = m_width m" "m_height m' = m_height m" "m_levels m' = m_levels m" "m_channels m' = m_channels m"
    "m_nlayers m' = m_nlayers m" "m_layer_positions m' = m_layer_positions m" by (subst m', simp)+
  have kept: "kept m' = kept m" by (intro ext) (simp add: kept_def covers_def same)
  obtain r v' where run: "afold (read_channel call' m' live' ml (?w * ?h) ?undo) ([], 0) [0..<unat (m_channels m)] v = (r, v')" by force
  then have get: "fst (get_object_up_to_layer call' m' live' ml v) = r"
    by (simp add: get_object_up_to_layer_def same Let_def)
  have "\<forall>p. length p = ?w * ?h \<longrightarrow> (\<exists>p'. ?undo p = Inr p')" using haar_total(2) by blast
  from read_channels_loop[OF run obj _ this] get
  show ?thesis
  proof (cases r)
    case (Inr ou)
    obtain out used where ou: "ou = (out, used)" by force
    from read_channels_loop[OF run obj _ \<open>\<forall>p. length p = ?w * ?h \<longrightarrow> (\<exists>p'. ?undo p = Inr p')\<close>] Inr ou
    have eq: "map Inr out = map (\<lambda>c. ?undo (kept m (image_planes m channels) ml (?w * ?h) c)) [0..<unat (m_channels m)]"
      by (simp add: same kept)
    from arg_cong[OF eq, of length] have len: "length out = unat (m_channels m)" by simp
    moreover have "?undo (kept m (image_planes m channels) ml (?w * ?h) c) = Inr (out ! c)" if "c < unat (m_channels m)" for c
      using arg_cong[OF eq, of "\<lambda>xs. xs ! c"] that len by simp
    ultimately show ?thesis using get Inr ou by simp
  qed (simp add: same)
qed

definition one_pixel :: manifest where
  "one_pixel = (manifest_directory 1)\<lparr>m_kind := Image, m_k := 16, m_channels := 1, m_nlayers := 1, m_n_per_layer := [1],
     m_sym_len := [1], m_layer_positions := [[0]], m_width := 1, m_height := 1, m_nodes := [''a'']\<rparr>"

lemma put_one_pixel:
  "\<exists>m' s. put_object (echo []) [0] [[v]] (one_pixel, ()) = (Inr (), (m', ())) \<and>
    (\<forall>c l. set (image_shards one_pixel [[v]] (m_data_cid m') c l) \<subseteq> {s})"
proof -
  let ?cid = "sha256 (cid_msg [[v]] 1 1 0 16)"
  have cid: "data_cid [[v]] 1 1 0 16 = (Inr ?cid :: (client_error, _) res)" by (rule data_cid_msg) simp
  obtain sl ss rng' where e: "encode_layer gf_new (f32_le v) 1 (cid_seed ?cid) = ((sl, ss), rng')" by (metis prod.exhaust)
  then have k: "encode_layer_with_k gf_new (f32_le v) K 1 (cid_seed ?cid) = Inr ((sl, ss), rng')"
    by (simp add: encode_layer_is_with_k)
  have sl: "sl = 1" using encode_with_k_props(2)[OF k] by (simp add: symbol_len_of_def K_def)
  obtain s where s: "ss = [s]" using encode_with_k_props(3)[OF k] by (cases ss) auto
  let ?m = "(set_cid ?cid one_pixel)\<lparr>m_shard_hashes := [[[shard_hash s]]], m_merkle_root := merkle_root [shard_hash s]\<rparr>"
  have "put_object (echo []) [0] [[v]] (one_pixel, ()) = (Inr (), (?m, ()))"
    using cid e sl s
    by (simp add: put_object_def manifest_run one_pixel_def manifest_directory_def Let_def set_cid_def put_planes_def
        put_channel_def haar_forward_def put_layer_def layer_bytes_def put_shard_step_def send_shard_def place_one
        rpc_def echo_def map_err_def expect_ack_def on_manifest_run push_at_def abind_assoc abind_def[of "Pair _"] split_def)
  moreover have "image_planes one_pixel [[v]] = [[v]]"
    by (simp add: image_planes_def forward_planes_def haar_forward_def one_pixel_def manifest_directory_def)
  then have "set (image_shards one_pixel [[v]] ?cid c l) \<subseteq> {s}" for c l
    using e s by (auto simp: image_shards_def coded_layers_def layer_pairs_def one_pixel_def manifest_directory_def
        code_layer_def coeff_bytes_def)
  ultimately show ?thesis by (intro exI[of _ ?m] exI[of _ s]) (simp add: set_cid_def)
qed

theorem image_read_integrity_witness:
  "\<exists>m' s. put_object (echo []) [0] [[0x3F800000]] (one_pixel, ()) = (Inr (), (m', ())) \<and>
    (case fst (get_object_up_to_layer (echo [s]) m' [0] 0 ()) of
      Inr (out, used) \<Rightarrow> length out = 1 | Inl e \<Rightarrow> read_failure (echo [s]) m' [0] e)"
proof -
  obtain m' s where put: "put_object (echo []) [0] [[0x3F800000]] (one_pixel, ()) = (Inr (), (m', ()))"
    and sub: "\<forall>c l. set (image_shards one_pixel [[0x3F800000]] (m_data_cid m') c l) \<subseteq> {s}" using put_one_pixel by blast
  have "\<forall>c l. safe (echo [s]) (set (image_shards one_pixel [[0x3F800000]] (m_data_cid m') c l))"
    using sub safe_echo[of s] unfolding safe_def by blast
  moreover have "\<forall>l < unat (m_nlayers one_pixel). m_layer_positions one_pixel ! l \<noteq> []" "unat (m_channels one_pixel) = 1"
    by (simp_all add: one_pixel_def)
  ultimately have "case fst (get_object_up_to_layer (echo [s]) m' [0] 0 ()) of
      Inr (out, used) \<Rightarrow> length out = 1 | Inl e \<Rightarrow> read_failure (echo [s]) m' [0] e"
    using image_read_integrity[OF put, where call' = "echo [s]" and live' = "[0]" and ml = 0 and v = "()"]
    by (auto split: sum.splits prod.splits)
  with put show ?thesis by blast
qed

end
