(* ===== verification/Namespace.thy ===== *)
theory Namespace
  imports Catalog Escrow Client
begin

text \<open>
  The path operations of \<open>holofs-gateway/src/http_gateway.rs\<close> on the catalog: creating, removing, renaming and
  listing directories, the admission checks of \<open>ingest_bytes\<close> and the removal of an object's entry. Each is
  the part of its method that runs under the catalog lock.

  Shown: a range scan of the ordered map finds exactly the keys with the given prefix; the catalog stays a
  tree (every entry's parent is a directory entry) under each operation; what rename moves and what
  \<open>list_dir\<close> lists.
\<close>

section \<open>Errors\<close>

datatype put_error =
  PutImage client_error | AudioTooShort nat nat | PutAudio client_error | PutText client_error | PutOpaque client_error

datatype bad_request =
    EmptyBody | BadPath path_error | NoParent string | OwnDescendant | PutFailed put_error
  | BadIndex nat nat | ShardOutOfRange | KindsDiffer | EmptyFile | InvalidKN | NoShareIndex nat
  | NoValidShares "(nat \<times> escrow_error) list" | RecoverFailed escrow_error

datatype decode_error =
  ImageDecode string | AudioDecode client_error | TextDecode client_error | OpaqueDecode client_error | PartialPurge client_error
| HealthDecode client_error

datatype gateway_error =
    GwNotFound | BadRequest bad_request | Decode decode_error | PreviewUnsupported | IsDirectory
  | AlreadyExists | NotADirectory | DirectoryNotEmpty

section \<open>Operations\<close>

definition valid_arg :: "string \<Rightarrow> (gateway_error, unit) res" where
  "valid_arg path = rbind (map_err (\<lambda>e. BadRequest (BadPath e)) (validate path)) (\<lambda>_. Inr ())"

text \<open>The parent of a new entry must be a directory; a top-level entry has none.\<close>

definition check_parent :: "catalog \<Rightarrow> string \<Rightarrow> (gateway_error, unit) res" where
  "check_parent cat path = (case parent path of
     None \<Rightarrow> Inr ()
   | Some p \<Rightarrow> (case cat_get cat p of
       Some m \<Rightarrow> if m_kind m = Directory then Inr () else Inl (Err NotADirectory)
     | None \<Rightarrow> Inl (Err (BadRequest (NoParent p)))))"

definition ingest_check :: "string \<Rightarrow> bytes \<Rightarrow> catalog \<Rightarrow> (gateway_error, unit) res" where
  "ingest_check name body cat =
     (if body = [] then Inl (Err (BadRequest EmptyBody))
      else rbind (valid_arg name) (\<lambda>_.
        case cat_get cat name of
          Some existing \<Rightarrow> if m_kind existing = Directory then Inl (Err AlreadyExists) else check_parent cat name
        | None \<Rightarrow> check_parent cat name))"

definition remove_entry :: "string \<Rightarrow> catalog \<Rightarrow> (gateway_error, manifest \<times> catalog) res" where
  "remove_entry name cat =
     rbind (valid_arg name) (\<lambda>_.
       case cat_get cat name of
         None \<Rightarrow> Inl (Err GwNotFound)
       | Some m \<Rightarrow> if m_kind m = Directory then Inl (Err IsDirectory) else Inr (m, snd (cat_remove name cat)))"

definition mkdir :: "string \<Rightarrow> catalog \<Rightarrow> (gateway_error, u64 \<times> catalog) res" where
  "mkdir path cat =
     rbind (valid_arg path) (\<lambda>_.
       if cat_get cat path \<noteq> None then Inl (Err AlreadyExists)
       else rbind (check_parent cat path) (\<lambda>_.
         let m = manifest_directory (dir_object_id path) in Inr (m_object_id m, cat_insert path m cat)))"

definition starts_with :: "string \<Rightarrow> string \<Rightarrow> bool" where
  "starts_with p k \<longleftrightarrow> take (length p) k = p"

text \<open>\<open>entries.range(p..)\<close>.\<close>

definition range_from :: "string \<Rightarrow> catalog \<Rightarrow> catalog" where
  "range_from p cat = dropWhile (\<lambda>(k, _). k < p) cat"

definition rmdir :: "string \<Rightarrow> catalog \<Rightarrow> (gateway_error, u64 \<times> catalog) res" where
  "rmdir path cat =
     rbind (valid_arg path) (\<lambda>_.
       case cat_get cat path of
         None \<Rightarrow> Inl (Err GwNotFound)
       | Some m \<Rightarrow>
           if m_kind m \<noteq> Directory then Inl (Err NotADirectory)
           else if (case range_from (path @ [slash]) cat of (k, _) # _ \<Rightarrow> starts_with (path @ [slash]) k | [] \<Rightarrow> False)
           then Inl (Err DirectoryNotEmpty)
           else Inr (m_object_id m, snd (cat_remove path cat)))"

text \<open>The loop of \<open>rename\<close> over the descendants, up to its \<open>break\<close>; a taken target stops it.\<close>

fun collect_moves :: "catalog \<Rightarrow> string \<Rightarrow> string \<Rightarrow> (string \<times> string \<times> manifest) list \<Rightarrow> catalog \<Rightarrow>
    (gateway_error, (string \<times> string \<times> manifest) list) res" where
  "collect_moves cat child_prefix new moved [] = Inr moved"
| "collect_moves cat child_prefix new moved ((k, v) # r) =
     (if \<not> starts_with child_prefix k then Inr moved
      else let target = new @ slash # drop (length child_prefix) k in
        if cat_get cat target \<noteq> None then Inl (Err AlreadyExists)
        else collect_moves cat child_prefix new (moved @ [(k, target, v)]) r)"

definition move_entry :: "string \<times> string \<times> manifest \<Rightarrow> catalog \<Rightarrow> catalog" where
  "move_entry ftm cat = (case ftm of (frm, to, m) \<Rightarrow> cat_insert to m (snd (cat_remove frm cat)))"

definition rename :: "string \<Rightarrow> string \<Rightarrow> catalog \<Rightarrow> (gateway_error, nat \<times> catalog) res" where
  "rename old new cat =
     rbind (valid_arg old) (\<lambda>_.
     rbind (valid_arg new) (\<lambda>_.
     if old = new then Inr (0, cat)
     else if starts_with (old @ [slash]) new then Inl (Err (BadRequest OwnDescendant))
     else case cat_get cat old of
       None \<Rightarrow> Inl (Err GwNotFound)
     | Some entry \<Rightarrow>
         if cat_get cat new \<noteq> None then Inl (Err AlreadyExists)
         else rbind (check_parent cat new) (\<lambda>_.
           rbind (if m_kind entry = Directory
                  then collect_moves cat (old @ [slash]) new [(old, new, entry)] (range_from (old @ [slash]) cat)
                  else Inr [(old, new, entry)]) (\<lambda>moved.
             Inr (length moved, fold move_entry moved cat)))))"

text \<open>The loop of \<open>list_dir\<close>: it stops at the first key outside the prefix and skips deeper descendants.\<close>

fun list_loop :: "string \<Rightarrow> string \<Rightarrow> (string \<times> manifest) list \<Rightarrow> catalog \<Rightarrow> (string \<times> manifest) list" where
  "list_loop prefix start out [] = out"
| "list_loop prefix start out ((k, v) # r) =
     (if prefix \<noteq> [] \<and> \<not> starts_with start k then out
      else if k = prefix then list_loop prefix start out r
      else let remainder = drop (length start) k in
        if remainder = [] \<or> slash \<in> set remainder then list_loop prefix start out r
        else list_loop prefix start (out @ [(k, v)]) r)"

definition list_dir :: "string \<Rightarrow> catalog \<Rightarrow> (gateway_error, (string \<times> manifest) list) res" where
  "list_dir prefix cat =
     rbind (if prefix = [] then Inr () else rbind (valid_arg prefix) (\<lambda>_.
       case cat_get cat prefix of
         Some m \<Rightarrow> if m_kind m = Directory then Inr () else Inl (Err NotADirectory)
       | None \<Rightarrow> Inl (Err GwNotFound))) (\<lambda>_.
     let start = (if prefix = [] then [] else prefix @ [slash])
     in Inr (list_loop prefix start [] (range_from start cat)))"

section \<open>Range scans\<close>

lemma starts_with_append: "starts_with p k \<longleftrightarrow> (\<exists>s. k = p @ s)"
  by (auto simp: starts_with_def) (metis append_take_drop_id)

lemma prefix_le: "p \<le> p @ (s :: string)"
  by (induction p) auto

lemma prefix_block:
  fixes k1 k2 :: string
  assumes "p \<le> k1" and "k1 \<le> k2" and "starts_with p k2"
  shows "starts_with p k1"
  using assms
proof (induction p arbitrary: k1 k2)
  case (Cons c p)
  then obtain a r1 where k1: "k1 = a # r1" by (cases k1) auto
  obtain r2 where k2: "k2 = c # r2" "starts_with p r2" using Cons.prems(3) by (cases k2) (auto simp: starts_with_def)
  from Cons.prems k1 k2 have "a = c" "p \<le> r1" "r1 \<le> r2" by (auto simp: Cons_le_Cons)
  with Cons.IH[of r1 r2] k2(2) k1 show ?case by (simp add: starts_with_def)
qed (simp add: starts_with_def)

lemma range_from_eq: "om_ok cat \<Longrightarrow> range_from p cat = filter (\<lambda>(k, _). p \<le> k) cat"
proof (induction cat)
  case (Cons kv cat)
  obtain k v where kv: "kv = (k, v)" by force
  show ?case
  proof (cases "k < p")
    case True
    then show ?thesis using Cons kv by (simp add: range_from_def om_ok_Cons)
  next
    case False
    then have "\<forall>(k', _) \<in> set cat. p \<le> k'" using Cons.prems kv by (fastforce simp: om_ok_Cons)
    then have "filter (\<lambda>(k, _). p \<le> k) cat = cat" by (intro filter_True) auto
    then show ?thesis using False kv by (simp add: range_from_def not_less)
  qed
qed (simp add: range_from_def)

lemma range_prefix:
  assumes "om_ok cat"
  shows "takeWhile (\<lambda>(k, _). starts_with p k) (range_from p cat) = filter (\<lambda>(k, _). starts_with p k) cat"
proof -
  have le: "p \<le> k" if "starts_with p k" for k using that prefix_le by (auto simp: starts_with_append)
  have "takeWhile (\<lambda>(k, _). starts_with p k) xs = filter (\<lambda>(k, _). starts_with p k) xs"
    if "om_ok xs" "\<forall>(k, _) \<in> set xs. p \<le> k" for xs :: catalog
    using that
  proof (induction xs)
    case (Cons kv xs)
    obtain k v where kv: "kv = (k, v)" by force
    show ?case
    proof (cases "starts_with p k")
      case True
      with Cons kv show ?thesis by (simp add: om_ok_Cons)
    next
      case False
      have "\<not> starts_with p k'" if "(k', v') \<in> set xs" for k' v'
        using that Cons.prems kv False prefix_block[of p k k'] by (fastforce simp: om_ok_Cons)
      then have "filter (\<lambda>(k, _). starts_with p k) xs = []" by (auto simp: filter_empty_conv)
      with False kv show ?thesis by simp
    qed
  qed simp
  moreover have "om_ok (range_from p cat)"
    using assms unfolding range_from_def om_ok_def by (metis dropWhile_eq_drop map_append sorted_wrt_append takeWhile_dropWhile_id)
  moreover have "filter (\<lambda>(k, _). starts_with p k) (range_from p cat) = filter (\<lambda>(k, _). starts_with p k) cat"
    using le by (auto simp: range_from_eq[OF assms] intro!: filter_cong)
  ultimately show ?thesis by (auto simp: range_from_eq[OF assms])
qed

section \<open>Parents and subtrees\<close>

lemma parent_append: "parent (q @ slash # s) = Some (case parent s of None \<Rightarrow> q | Some r \<Rightarrow> q @ slash # r)"
proof (cases "plain s")
  case True
  then show ?thesis by (simp add: parent_def rsplit_append rsplit_plain)
next
  case False
  then obtain a b where ab: "s = a @ slash # b" "plain b" unfolding plain_def by (metis split_list_last)
  have "parent ((q @ slash # a) @ slash # b) = Some (q @ slash # a)" by (simp only: parent_def rsplit_append[OF ab(2)]) simp
  moreover have "parent s = Some a" by (simp add: parent_def ab rsplit_append)
  ultimately show ?thesis by (simp add: ab)
qed

lemma parent_Some: "parent k = Some p \<Longrightarrow> \<exists>s. plain s \<and> k = p @ slash # s"
proof -
  assume p: "parent k = Some p"
  have "\<not> plain k"
  proof
    assume "plain k"
    then show False using p by (simp add: parent_def rsplit_plain)
  qed
  then have "slash \<in> set k" by (simp add: plain_def)
  then obtain a b where ab: "k = a @ slash # b" "plain b" unfolding plain_def by (metis split_list_last)
  with p have "p = a" by (simp add: parent_def rsplit_append)
  with ab show ?thesis by blast
qed

lemma split_append: "split_slash (q @ slash # s) = split_slash q @ split_slash s"
proof (induction q)
  case (Cons c q)
  then show ?case by (cases "split_slash q") auto
qed simp

lemma valid_append: "valid_path (q @ slash # s) \<longleftrightarrow> valid_path q \<and> valid_path s"
  by (simp add: valid_path_def split_append)

definition in_subtree :: "string \<Rightarrow> string \<Rightarrow> bool" where
  "in_subtree p x \<longleftrightarrow> x = p \<or> starts_with (p @ [slash]) x"

lemma in_subtree_iff: "in_subtree p x \<longleftrightarrow> x = p \<or> (\<exists>s. x = p @ slash # s)"
  by (auto simp: in_subtree_def starts_with_append)

lemma in_subtree_linear:
  assumes "in_subtree p x" and "in_subtree q x"
  shows "in_subtree p q \<or> in_subtree q p"
proof -
  have ex: "\<exists>s. x = p @ s \<and> (s = [] \<or> hd s = slash)" if "in_subtree p x" for p
    using that by (auto simp: in_subtree_iff)
  obtain s t where st: "x = p @ s" "x = q @ t" "s = [] \<or> hd s = slash" "t = [] \<or> hd t = slash"
    using ex[OF assms(1)] ex[OF assms(2)] by blast
  from st(1,2) obtain u where "p = q @ u \<and> u @ s = t \<or> p @ u = q \<and> s = u @ t" by (auto simp: append_eq_append_conv2)
  then show ?thesis
  proof (elim disjE conjE)
    assume u: "p = q @ u" "u @ s = t"
    then show ?thesis using st(4) by (cases u) (auto simp: in_subtree_iff)
  next
    assume u: "p @ u = q" "s = u @ t"
    then show ?thesis using st(3) by (cases u) (auto simp: in_subtree_iff)
  qed
qed

section \<open>The catalog is a tree\<close>

definition is_dir :: "catalog \<Rightarrow> string \<Rightarrow> bool" where
  "is_dir cat p \<longleftrightarrow> (\<exists>d. cat_get cat p = Some d \<and> m_kind d = Directory)"

definition tree_ok :: "catalog \<Rightarrow> bool" where
  "tree_ok cat \<longleftrightarrow> om_ok cat \<and> (\<forall>k m. cat_get cat k = Some m \<longrightarrow> valid_path k \<and> (\<forall>p. parent k = Some p \<longrightarrow> is_dir cat p))"

lemma tree_ancestor:
  assumes "tree_ok cat"
  shows "cat_get cat (p @ slash # s) = Some m \<Longrightarrow> is_dir cat p"
proof (induction s arbitrary: m rule: length_induct)
  case (1 s)
  from 1(2) assms have par: "is_dir cat (case parent s of None \<Rightarrow> p | Some r \<Rightarrow> p @ slash # r)"
    unfolding tree_ok_def using parent_append[of p s] by blast
  show ?case
  proof (cases "parent s")
    case (Some r)
    with parent_Some[OF Some] have "length r < length s" by auto
    moreover obtain d where "cat_get cat (p @ slash # r) = Some d" using par Some by (auto simp: is_dir_def)
    ultimately show ?thesis using 1(1) by blast
  qed (use par in simp)
qed

lemma valid_arg_Inr: "valid_arg path = Inr u \<longleftrightarrow> valid_path path"
proof -
  have "validate path = (Inr q :: (path_error, string) res) \<Longrightarrow> valid_path path" for q
    by (simp add: validate_Inr valid_path_def)
  moreover have "valid_path path \<Longrightarrow> validate path = (Inr path :: (path_error, string) res)"
    by (simp add: validate_Inr valid_path_def)
  ultimately show ?thesis
    unfolding valid_arg_def by (cases "validate path"; cases "projl (validate path)") (auto simp: map_err_def)
qed

lemma check_parent_Inr: "check_parent cat path = Inr u \<longleftrightarrow> (\<forall>p. parent path = Some p \<longrightarrow> is_dir cat p)"
  by (auto simp: check_parent_def is_dir_def split: option.splits if_splits)

lemma tree_insert:
  assumes "tree_ok cat" and "valid_path k" and "\<forall>p. parent k = Some p \<longrightarrow> is_dir cat p"
    and "is_dir cat k \<longrightarrow> m_kind m = Directory"
  shows "tree_ok (cat_insert k m cat)"
proof -
  have ok: "om_ok cat" using assms(1) by (simp add: tree_ok_def)
  have dir: "is_dir (cat_insert k m cat) p" if "is_dir cat p" for p
    using that assms(4) cat.get_ins[OF ok] by (auto simp: is_dir_def)
  show ?thesis
    using assms dir cat.get_ins[OF ok] cat.ok_ins[OF ok] unfolding tree_ok_def
    by (auto split: if_splits)
qed

lemma tree_remove:
  assumes "tree_ok cat" and "\<And>k m. cat_get cat k = Some m \<Longrightarrow> parent k \<noteq> Some p"
  shows "tree_ok (snd (cat_remove p cat))"
proof -
  have ok: "om_ok cat" using assms(1) by (simp add: tree_ok_def)
  show ?thesis
    using assms cat.get_del[OF ok] cat.ok_del[OF ok] unfolding tree_ok_def is_dir_def
    by (auto split: if_splits)
qed

lemma remove_entry_tree:
  assumes "tree_ok cat" and "remove_entry name cat = Inr (m, cat')"
  shows "tree_ok cat'"
proof -
  have cat': "cat' = snd (cat_remove name cat)" and nd: "\<not> is_dir cat name"
    using assms(2) by (auto simp: remove_entry_def is_dir_def rbind_eq_Inr split: option.splits if_splits)
  have "parent k \<noteq> Some name" if "cat_get cat k = Some m" for k m
    using that assms(1) nd by (auto simp: tree_ok_def)
  then show ?thesis unfolding cat' by (rule tree_remove[OF assms(1)])
qed

lemma mkdir_tree:
  assumes "tree_ok cat" and "mkdir path cat = Inr (oid, cat')"
  shows "tree_ok cat'" and "cat_get cat path = None" and "cat' = cat_insert path (manifest_directory (dir_object_id path)) cat"
proof -
  have v: "valid_path path" and n: "cat_get cat path = None" and p: "\<forall>p. parent path = Some p \<longrightarrow> is_dir cat p"
    and cat': "cat' = cat_insert path (manifest_directory (dir_object_id path)) cat"
    using assms(2) by (auto simp: mkdir_def rbind_eq_Inr valid_arg_Inr check_parent_Inr Let_def split: if_splits)
  show "tree_ok cat'" unfolding cat' by (rule tree_insert[OF assms(1) v p]) (simp add: manifest_directory_def)
  show "cat_get cat path = None" "cat' = cat_insert path (manifest_directory (dir_object_id path)) cat" by fact+
qed

lemma rmdir_scan:
  assumes "om_ok cat"
  shows "(case range_from p cat of (k, _) # _ \<Rightarrow> starts_with p k | [] \<Rightarrow> False) \<longleftrightarrow> (\<exists>k m. cat_get cat k = Some m \<and> starts_with p k)"
proof -
  have "(case range_from p cat of (k, _) # _ \<Rightarrow> starts_with p k | [] \<Rightarrow> False) \<longleftrightarrow>
      takeWhile (\<lambda>(k, _). starts_with p k) (range_from p cat) \<noteq> []"
    by (auto split: list.splits)
  also have "\<dots> \<longleftrightarrow> (\<exists>(k, m) \<in> set cat. starts_with p k)"
    by (auto simp: range_prefix[OF assms] filter_empty_conv)
  finally show ?thesis using cat.items_get[OF assms] by auto
qed

lemma rmdir_tree:
  assumes "tree_ok cat" and "rmdir path cat = Inr (oid, cat')"
  shows "tree_ok cat'" and "is_dir cat path" and "cat' = snd (cat_remove path cat)"
    and "\<forall>k m. cat_get cat k = Some m \<longrightarrow> k \<noteq> path \<longrightarrow> \<not> in_subtree path k"
proof -
  have ok: "om_ok cat" using assms(1) by (simp add: tree_ok_def)
  have dir: "is_dir cat path" and cat': "cat' = snd (cat_remove path cat)"
    and no: "\<not> (\<exists>k m. cat_get cat k = Some m \<and> starts_with (path @ [slash]) k)"
    using assms(2) rmdir_scan[OF ok, of "path @ [slash]"]
    by (auto simp: rmdir_def is_dir_def rbind_eq_Inr split: option.splits if_splits)
  have "parent k \<noteq> Some path" if "cat_get cat k = Some m" for k m
  proof
    assume "parent k = Some path"
    from parent_Some[OF this] have "starts_with (path @ [slash]) k" by (auto simp: starts_with_append)
    with no that show False by blast
  qed
  then show "tree_ok cat'" unfolding cat' by (rule tree_remove[OF assms(1)])
  show "is_dir cat path" "cat' = snd (cat_remove path cat)" by fact+
  show "\<forall>k m. cat_get cat k = Some m \<longrightarrow> k \<noteq> path \<longrightarrow> \<not> in_subtree path k" using no unfolding in_subtree_def by blast
qed

section \<open>Renaming\<close>

lemma collect_moves_Inr:
  "collect_moves cat cp new moved xs = Inr ms \<Longrightarrow>
     ms = moved @ map (\<lambda>(k, v). (k, new @ slash # drop (length cp) k, v)) (takeWhile (\<lambda>(k, _). starts_with cp k) xs)"
  by (induction cat cp new moved xs rule: collect_moves.induct) (auto simp: Let_def split: if_splits)

lemma moves_get:
  assumes "om_ok cat" and "distinct (map fst ms)" and "distinct (map (fst \<circ> snd) ms)"
    and "set (map fst ms) \<inter> set (map (fst \<circ> snd) ms) = {}"
  shows "om_ok (fold move_entry ms cat)"
    and "\<And>f t v. (f, t, v) \<in> set ms \<Longrightarrow> cat_get (fold move_entry ms cat) t = Some v"
    and "\<And>x. x \<in> set (map fst ms) \<Longrightarrow> cat_get (fold move_entry ms cat) x = None"
    and "\<And>x. x \<notin> set (map fst ms) \<Longrightarrow> x \<notin> set (map (fst \<circ> snd) ms) \<Longrightarrow> cat_get (fold move_entry ms cat) x = cat_get cat x"
proof -
  have main: "om_ok (fold move_entry ms cat) \<and> (\<forall>x. cat_get (fold move_entry ms cat) x =
      (if x \<in> set (map (fst \<circ> snd) ms) then map_of (map snd ms) x
       else if x \<in> set (map fst ms) then None else cat_get cat x))"
    using assms
  proof (induction ms arbitrary: cat)
    case (Cons ftv ms)
    obtain f t v where ftv: "ftv = (f, t, v)" by (metis prod.exhaust)
    define cat1 where "cat1 = move_entry ftv cat"
    have ok1: "om_ok cat1" using Cons.prems(1) by (simp add: cat1_def ftv move_entry_def cat.ok_ins cat.ok_del)
    have get1: "cat_get cat1 x = (if x = t then Some v else if x = f then None else cat_get cat x)" for x
      using Cons.prems(1) by (simp add: cat1_def ftv move_entry_def cat.get_ins cat.get_del cat.ok_del)
    have "om_ok (fold move_entry ms cat1) \<and> (\<forall>x. cat_get (fold move_entry ms cat1) x =
      (if x \<in> set (map (fst \<circ> snd) ms) then map_of (map snd ms) x
       else if x \<in> set (map fst ms) then None else cat_get cat1 x))"
      using Cons.prems(2-4) by (intro Cons.IH[OF ok1]) auto
    moreover have "fold move_entry (ftv # ms) cat = fold move_entry ms cat1" by (simp add: cat1_def)
    ultimately show ?case using Cons.prems(2-4) get1 unfolding ftv by (auto simp: image_iff)
  qed simp
  then show "om_ok (fold move_entry ms cat)" by blast
  show "cat_get (fold move_entry ms cat) t = Some v" if "(f, t, v) \<in> set ms" for f t v
  proof -
    have "t \<in> set (map (fst \<circ> snd) ms)" using that by (force simp: image_iff)
    moreover have "map_of (map snd ms) t = Some v"
      using assms(3) that by (intro map_of_is_SomeI) (auto simp: comp_def image_iff intro: bexI[of _ "(f, t, v)"])
    ultimately show ?thesis using main by simp
  qed
  show "cat_get (fold move_entry ms cat) x = None" if "x \<in> set (map fst ms)" for x
    using that main assms(4) by auto
  show "cat_get (fold move_entry ms cat) x = cat_get cat x" if "x \<notin> set (map fst ms)" "x \<notin> set (map (fst \<circ> snd) ms)" for x
    using that main by simp
qed

definition subtree_items :: "catalog \<Rightarrow> string \<Rightarrow> manifest \<Rightarrow> catalog" where
  "subtree_items cat p m = (p, m) # filter (\<lambda>(k, _). starts_with (p @ [slash]) k) cat"

lemma set_subtree_items:
  "om_ok cat \<Longrightarrow> cat_get cat p = Some m \<Longrightarrow> (k, v) \<in> set (subtree_items cat p m) \<longleftrightarrow> in_subtree p k \<and> cat_get cat k = Some v"
  using cat.items_get[of cat] by (auto simp: subtree_items_def in_subtree_def)

lemma rename_moves:
  assumes tree: "tree_ok cat" and run: "rename old new cat = Inr (n, cat')" and ne: "old \<noteq> new"
  obtains entry where "valid_path old" and "valid_path new" and "\<not> in_subtree old new"
    and "cat_get cat old = Some entry" and "cat_get cat new = None" and "\<forall>p. parent new = Some p \<longrightarrow> is_dir cat p"
    and "cat' = fold move_entry (map (\<lambda>(k, v). (k, new @ drop (length old) k, v)) (subtree_items cat old entry)) cat"
    and "n = length (subtree_items cat old entry)"
proof -
  have ok: "om_ok cat" using tree by (simp add: tree_ok_def)
  let ?child = "old @ [slash]"
  let ?moves = "\<lambda>entry. if m_kind entry = Directory
        then collect_moves cat ?child new [(old, new, entry)] (range_from ?child cat)
        else Inr [(old, new, entry)]"
  have v: "valid_path old" "valid_path new" using run by (auto simp: rename_def rbind_eq_Inr valid_arg_Inr)
  have nd: "\<not> starts_with ?child new" using run ne by (auto simp: rename_def rbind_eq_Inr split: if_splits)
  obtain entry where e: "cat_get cat old = Some entry"
    using run ne nd by (auto simp: rename_def rbind_eq_Inr split: option.splits)
  have free: "cat_get cat new = None" using run ne nd e by (auto simp: rename_def rbind_eq_Inr split: if_splits)
  have par: "\<forall>p. parent new = Some p \<longrightarrow> is_dir cat p"
    using run ne nd e free by (auto simp: rename_def rbind_eq_Inr check_parent_Inr)
  obtain ms where ms: "?moves entry = Inr ms" and n: "n = length ms" and cat': "cat' = fold move_entry ms cat"
    using run ne nd e free by (auto simp: rename_def rbind_eq_Inr)
  have "ms = map (\<lambda>(k, v). (k, new @ drop (length old) k, v)) (subtree_items cat old entry)"
  proof (cases "m_kind entry = Directory")
    case True
    have "ms = (old, new, entry) # map (\<lambda>(k, v). (k, new @ slash # drop (Suc (length old)) k, v)) (filter (\<lambda>(k, _). starts_with ?child k) cat)"
      using collect_moves_Inr[of cat ?child new "[(old, new, entry)]" "range_from ?child cat" ms] ms True range_prefix[OF ok, of ?child]
      by simp
    moreover have "slash # drop (Suc (length old)) k = drop (length old) k" if "starts_with ?child k" for k
      using that by (auto simp: starts_with_append)
    ultimately show ?thesis by (auto simp: subtree_items_def)
  next
    case False
    have "\<not> starts_with ?child k" if "(k, v) \<in> set cat" for k v
    proof
      assume "starts_with ?child k"
      then obtain s where "k = old @ slash # s" by (auto simp: starts_with_append)
      with tree_ancestor[OF tree, of old s v] that cat.items_get[OF ok] False e show False by (auto simp: is_dir_def)
    qed
    then have "filter (\<lambda>(k, _). starts_with ?child k) cat = []" by (auto simp: filter_empty_conv)
    with False ms show ?thesis by (simp add: subtree_items_def)
  qed
  with n cat' v nd e free par ne that show ?thesis by (simp add: in_subtree_def)
qed

lemma rename_disjoint:
  assumes "tree_ok cat" and "cat_get cat old = Some entry" and "cat_get cat new = None" and "\<not> in_subtree old new" and "in_subtree new x"
  shows "cat_get cat x = None" and "\<not> in_subtree old x"
proof -
  have none: "cat_get cat y = None" if "in_subtree new y" for y
  proof (rule ccontr)
    assume "cat_get cat y \<noteq> None"
    then obtain m where m: "cat_get cat y = Some m" by blast
    then have "is_dir cat new \<or> y = new" using that tree_ancestor[OF assms(1)] by (auto simp: in_subtree_iff)
    with m assms(3) show False by (auto simp: is_dir_def)
  qed
  show "cat_get cat x = None" by (rule none[OF assms(5)])
  show "\<not> in_subtree old x"
  proof
    assume "in_subtree old x"
    then have "in_subtree old new \<or> in_subtree new old" by (rule in_subtree_linear[OF _ assms(5)])
    with assms(2,4) none[of old] show False by auto
  qed
qed

lemma rename_spec:
  assumes tree: "tree_ok cat" and run: "rename old new cat = Inr (n, cat')" and ne: "old \<noteq> new"
  shows "om_ok cat'"
    and "cat_get cat' x = (if in_subtree old x then None
      else if in_subtree new x then cat_get cat (old @ drop (length new) x) else cat_get cat x)"
    and "n = length (filter (\<lambda>(k, _). in_subtree old k) cat)"
proof -
  have ok: "om_ok cat" using tree by (simp add: tree_ok_def)
  obtain entry where v: "valid_path old" "valid_path new" and nd: "\<not> in_subtree old new"
    and e: "cat_get cat old = Some entry" and free: "cat_get cat new = None"
    and cat': "cat' = fold move_entry (map (\<lambda>(k, v). (k, new @ drop (length old) k, v)) (subtree_items cat old entry)) cat"
    and n: "n = length (subtree_items cat old entry)"
    by (rule rename_moves[OF assms])
  let ?L = "subtree_items cat old entry" and ?t = "\<lambda>k. new @ drop (length old) k"
  let ?ms = "map (\<lambda>(k, v). (k, ?t k, v)) ?L"
  note L = set_subtree_items[OF ok e]
  note dis = rename_disjoint[OF tree e free nd]
  have tos: "in_subtree new (?t k)" if "in_subtree old k" for k using that by (auto simp: in_subtree_iff)
  have inj: "k = k'" if "in_subtree old k" "in_subtree old k'" "?t k = ?t k'" for k k'
    using that by (auto simp: in_subtree_iff)
  have fsts: "map fst ?ms = map fst ?L" and snds: "map (fst \<circ> snd) ?ms = map (?t \<circ> fst) ?L" by auto
  have "distinct (map fst (filter P cat))" for P using om_distinct[OF ok] by (rule distinct_map_filter)
  then have d: "distinct (map fst ?L)" by (auto simp: subtree_items_def starts_with_def)
  have "inj_on ?t (fst ` set ?L)" using inj L by (auto simp: inj_on_def)
  then have d2: "distinct (map (?t \<circ> fst) ?L)" using d by (auto simp: distinct_map intro: comp_inj_on)
  have m: "distinct (map fst ?ms)" "distinct (map (fst \<circ> snd) ?ms)" "set (map fst ?ms) \<inter> set (map (fst \<circ> snd) ?ms) = {}"
    unfolding fsts snds using d d2 dis(2) tos L by auto
  note get = moves_get[OF ok m]
  show "om_ok cat'" unfolding cat' by (rule get(1))
  show "cat_get cat' x = (if in_subtree old x then None
      else if in_subtree new x then cat_get cat (old @ drop (length new) x) else cat_get cat x)"
  proof (cases "in_subtree old x")
    case True
    have nt: "x \<notin> set (map (fst \<circ> snd) ?ms)"
    proof
      assume "x \<in> set (map (fst \<circ> snd) ?ms)"
      then obtain k v where "(k, v) \<in> set ?L" "x = ?t k" unfolding snds by auto
      with L tos dis(2)[of x] True show False by simp
    qed
    have "cat_get cat' x = None"
    proof (cases "cat_get cat x")
      case None
      with L have "x \<notin> set (map fst ?ms)" unfolding fsts by auto
      with get(4) nt None show ?thesis by (simp add: cat')
    next
      case (Some v)
      then have "(x, v) \<in> set ?L" using L True by simp
      then have "x \<in> set (map fst ?ms)" unfolding fsts by force
      from get(3)[OF this] show ?thesis by (simp add: cat')
    qed
    with True show ?thesis by simp
  next
    case out: False
    then have nf: "x \<notin> set (map fst ?ms)" unfolding fsts using L by auto
    show ?thesis
    proof (cases "in_subtree new x")
      case True
      let ?y = "old @ drop (length new) x"
      have y: "in_subtree old ?y" "?t ?y = x" using True by (auto simp: in_subtree_iff)
      show ?thesis
      proof (cases "cat_get cat ?y")
        case (Some v)
        then have "(?y, v) \<in> set ?L" using L y by simp
        then have "(?y, x, v) \<in> set ?ms" using y(2) by force
        from get(2)[OF this] show ?thesis using out True Some cat' by simp
      next
        case None
        have "x \<notin> set (map (fst \<circ> snd) ?ms)"
        proof
          assume "x \<in> set (map (fst \<circ> snd) ?ms)"
          then obtain k v' where k: "(k, v') \<in> set ?L" "x = ?t k" unfolding snds by auto
          have "in_subtree old k" using k(1) L by simp
          moreover have "?t k = ?t ?y" unfolding y(2) by (rule k(2)[symmetric])
          ultimately have "k = ?y" by (rule inj[OF _ y(1)])
          with k(1) None L show False by simp
        qed
        with get(4)[OF nf] dis(1)[OF True] None out True show ?thesis by (simp add: cat')
      qed
    next
      case False
      then have "x \<notin> set (map (fst \<circ> snd) ?ms)" unfolding snds using tos L by auto
      with get(4)[OF nf] out False show ?thesis by (simp add: cat')
    qed
  qed
  have "set ?L = set (filter (\<lambda>(k, _). in_subtree old k) cat)" using L cat.items_get[OF ok] by auto
  moreover have "distinct ?L" "distinct cat" using d om_distinct[OF ok] by (simp_all add: distinct_map)
  ultimately show "n = length (filter (\<lambda>(k, _). in_subtree old k) cat)"
    unfolding n by (metis distinct_card distinct_filter)
qed

lemma rename_tree:
  assumes tree: "tree_ok cat" and run: "rename old new cat = Inr (n, cat')"
  shows "tree_ok cat'"
proof (cases "old = new")
  case True
  then show ?thesis using assms by (auto simp: rename_def rbind_eq_Inr)
next
  case False
  note spec = rename_spec[OF assms False]
  obtain entry where v: "valid_path old" "valid_path new" and nd: "\<not> in_subtree old new"
    and e: "cat_get cat old = Some entry" and free: "cat_get cat new = None"
    and par: "\<forall>p. parent new = Some p \<longrightarrow> is_dir cat p"
    by (rule rename_moves[OF assms False])
  note dis = rename_disjoint[OF tree e free nd]
  show ?thesis
    unfolding tree_ok_def
  proof (intro conjI allI impI spec(1))
    fix x m assume x: "cat_get cat' x = Some m"
    have out: "\<not> in_subtree old x" using x spec(2)[of x] by (auto split: if_splits)
    have up: "in_subtree q x" if "in_subtree q p" "parent x = Some p" for q p
      using that parent_Some[OF that(2)] by (auto simp: in_subtree_iff)
    have keep: "is_dir cat' p" if "is_dir cat p" "\<not> in_subtree old p" for p
      using that spec(2)[of p] dis(1)[of p] by (auto simp: is_dir_def)
    show "valid_path x"
      using x out spec(2)[of x] v tree unfolding tree_ok_def in_subtree_iff
      by (auto split: if_splits simp: valid_append)
    fix p assume p: "parent x = Some p"
    show "is_dir cat' p"
    proof (cases "in_subtree new x")
      case False
      then have "cat_get cat x = Some m" using x out spec(2)[of x] by simp
      then have "is_dir cat p" using tree p unfolding tree_ok_def by blast
      with keep up[OF _ p] out show ?thesis by blast
    next
      case True
      then consider "x = new" | t where "x = new @ slash # t" by (auto simp: in_subtree_iff)
      then show ?thesis
      proof cases
        case 1
        with par p keep up[OF _ p] out show ?thesis by blast
      next
        case 2
        have q: "p = (case parent t of None \<Rightarrow> new | Some r \<Rightarrow> new @ slash # r)" using p 2 by (simp add: parent_append)
        let ?q = "case parent t of None \<Rightarrow> old | Some r \<Rightarrow> old @ slash # r"
        have "cat_get cat (old @ slash # t) = Some m" using x out True 2 spec(2)[of x] by simp
        then have "is_dir cat ?q" using tree parent_append[of old t] unfolding tree_ok_def by blast
        moreover have "in_subtree new p" "old @ drop (length new) p = ?q"
          unfolding q by (auto simp: in_subtree_iff split: option.split)
        moreover have "\<not> in_subtree old p" using up[OF _ p] out by blast
        ultimately show ?thesis using spec(2)[of p] by (simp add: is_dir_def)
      qed
    qed
  qed
qed

section \<open>Listing\<close>

lemma list_loop_eq:
  assumes "prefix \<noteq> [] \<Longrightarrow> start = prefix @ [slash]" and "prefix = [] \<Longrightarrow> start = []"
  shows "list_loop prefix start out xs = out @ filter (\<lambda>(k, _). k \<noteq> prefix \<and> drop (length start) k \<noteq> [] \<and>
      plain (drop (length start) k)) (takeWhile (\<lambda>(k, _). starts_with start k) xs)"
proof -
  have "starts_with start k" if "prefix = []" for k using assms(2) that by (simp add: starts_with_def)
  then show ?thesis
    by (induction prefix start out xs rule: list_loop.induct) (auto simp: Let_def plain_def)
qed

lemma parent_None: "parent k = None \<longleftrightarrow> plain k"
proof
  assume "plain k"
  then show "parent k = None" by (simp add: parent_def rsplit_plain)
next
  assume n: "parent k = None"
  show "plain k"
  proof (rule ccontr)
    assume "\<not> plain k"
    then obtain a b where "k = a @ slash # b" unfolding plain_def by (meson not_not split_list)
    with n show False by (simp add: parent_append)
  qed
qed

lemma valid_not_Nil: "\<not> valid_path []"
  by (simp add: valid_path_def good_segment_def)

lemma parent_iff:
  assumes "valid_path k"
  shows "starts_with (if prefix = [] then [] else prefix @ [slash]) k \<and> k \<noteq> prefix \<and>
      drop (length (if prefix = [] then [] else prefix @ [slash])) k \<noteq> [] \<and>
      plain (drop (length (if prefix = [] then [] else prefix @ [slash])) k) \<longleftrightarrow>
    parent k = (if prefix = [] then None else Some prefix)"
proof (cases "prefix = []")
  case True
  then show ?thesis using assms valid_not_Nil by (auto simp: starts_with_def parent_None)
next
  case False
  show ?thesis
  proof
    assume "starts_with (if prefix = [] then [] else prefix @ [slash]) k \<and> k \<noteq> prefix \<and>
      drop (length (if prefix = [] then [] else prefix @ [slash])) k \<noteq> [] \<and>
      plain (drop (length (if prefix = [] then [] else prefix @ [slash])) k)"
    then obtain s where "k = prefix @ slash # s" "plain s" using False by (auto simp: starts_with_append)
    then show "parent k = (if prefix = [] then None else Some prefix)"
      using False parent_None[of s] by (simp add: parent_append)
  next
    assume "parent k = (if prefix = [] then None else Some prefix)"
    then obtain s where k: "k = prefix @ slash # s" "plain s" using parent_Some[of k prefix] False by auto
    then have "s \<noteq> []" using assms valid_not_Nil by (auto simp: valid_append)
    with k False show "starts_with (if prefix = [] then [] else prefix @ [slash]) k \<and> k \<noteq> prefix \<and>
      drop (length (if prefix = [] then [] else prefix @ [slash])) k \<noteq> [] \<and>
      plain (drop (length (if prefix = [] then [] else prefix @ [slash])) k)"
      by (auto simp: starts_with_append)
  qed
qed

lemma list_dir_spec:
  assumes "tree_ok cat" and "prefix = [] \<or> is_dir cat prefix"
  shows "list_dir prefix cat =
    (Inr (filter (\<lambda>(k, _). parent k = (if prefix = [] then None else Some prefix)) cat) :: (gateway_error, _) res)"
proof -
  have ok: "om_ok cat" using assms(1) by (simp add: tree_ok_def)
  define start where "start = (if prefix = [] then [] else prefix @ [slash])"
  have guard: "(if prefix = [] then Inr () else rbind (valid_arg prefix) (\<lambda>_.
       case cat_get cat prefix of
         Some m \<Rightarrow> if m_kind m = Directory then Inr () else Inl (Err NotADirectory)
       | None \<Rightarrow> Inl (Err GwNotFound))) = (Inr () :: (gateway_error, unit) res)"
    using assms valid_arg_Inr[of prefix "()"] by (auto simp: is_dir_def tree_ok_def)
  have "list_loop prefix start [] (range_from start cat) =
      filter (\<lambda>(k, _). k \<noteq> prefix \<and> drop (length start) k \<noteq> [] \<and> plain (drop (length start) k)) (filter (\<lambda>(k, _). starts_with start k) cat)"
    by (subst list_loop_eq) (simp_all add: start_def range_prefix[OF ok])
  also have "\<dots> = filter (\<lambda>(k, _). parent k = (if prefix = [] then None else Some prefix)) cat"
    unfolding filter_filter
  proof (rule filter_cong[OF refl], goal_cases)
    case (1 km)
    obtain k m where km: "km = (k, m)" by force
    with 1 have v: "valid_path k" using assms(1) cat.items_get[OF ok] by (auto simp: tree_ok_def)
    show ?case unfolding km using parent_iff[OF v, of prefix] by (simp add: start_def)
  qed
  finally show ?thesis using guard by (simp add: list_dir_def start_def Let_def)
qed

section \<open>Runs of operations\<close>

text \<open>
  One completed operation on the catalog. \<open>ns_ingest\<close> is an ingest whose check and insert are not
  interleaved with another operation; \<open>put_any\<close> never builds a directory manifest.
\<close>

inductive ns_step :: "catalog \<Rightarrow> catalog \<Rightarrow> bool" where
  ns_ingest: "ingest_check name body cat = Inr () \<Longrightarrow> m_kind m \<noteq> Directory \<Longrightarrow> ns_step cat (cat_insert name m cat)"
| ns_remove: "remove_entry name cat = Inr (m, cat') \<Longrightarrow> ns_step cat cat'"
| ns_mkdir: "mkdir path cat = Inr (oid, cat') \<Longrightarrow> ns_step cat cat'"
| ns_rmdir: "rmdir path cat = Inr (oid, cat') \<Longrightarrow> ns_step cat cat'"
| ns_rename: "rename old new cat = Inr (n, cat') \<Longrightarrow> ns_step cat cat'"

inductive ns_reachable :: "catalog \<Rightarrow> bool" where
  ns_start: "ns_reachable cat_new"
| ns_more: "ns_reachable cat \<Longrightarrow> ns_step cat cat' \<Longrightarrow> ns_reachable cat'"

lemma ingest_check_Inr:
  "ingest_check name body cat = Inr u \<longleftrightarrow>
     body \<noteq> [] \<and> valid_path name \<and> \<not> is_dir cat name \<and> (\<forall>p. parent name = Some p \<longrightarrow> is_dir cat p)"
  by (auto simp: ingest_check_def rbind_eq_Inr valid_arg_Inr check_parent_Inr is_dir_def split: option.splits if_splits)

lemma ns_step_tree:
  assumes "ns_step cat cat'" and "tree_ok cat"
  shows "tree_ok cat'"
  using assms
proof cases
  case (ns_ingest name body m)
  from ns_ingest(2) have "valid_path name" "\<not> is_dir cat name" "\<forall>p. parent name = Some p \<longrightarrow> is_dir cat p"
    by (auto simp: ingest_check_Inr)
  with assms(2) show ?thesis unfolding ns_ingest(1) by (intro tree_insert) auto
qed (auto intro: remove_entry_tree mkdir_tree(1) rmdir_tree(1) rename_tree assms(2))

lemma ns_reachable_tree: "ns_reachable cat \<Longrightarrow> tree_ok cat"
proof (induction rule: ns_reachable.induct)
  case ns_start
  show ?case by (simp add: tree_ok_def cat_new_def cat_get_def om_get_def om_ok_def)
qed (rule ns_step_tree)

section \<open>Properties\<close>

text \<open>C20: the catalog of the gateway stays a tree: after any run of ingests, removals, mkdirs, rmdirs and renames
  from the empty catalog, the keys are sorted and distinct, every key is a valid path, and every ancestor of an
  entry is there as a directory.\<close>

theorem namespace_tree:
  assumes "ns_reachable cat"
  shows "sorted_wrt (<) (map fst cat) \<and> (\<forall>k m. cat_get cat k = Some m \<longrightarrow> valid_path k) \<and>
    (\<forall>p s m. cat_get cat (p @ slash # s) = Some m \<longrightarrow> (\<exists>d. cat_get cat p = Some d \<and> m_kind d = Directory))"
proof (intro conjI allI impI)
  have tree: "tree_ok cat" by (rule ns_reachable_tree[OF assms])
  then show "sorted_wrt (<) (map fst cat)" by (simp add: tree_ok_def om_ok_def)
  show "valid_path k" if "cat_get cat k = Some m" for k m using that tree by (auto simp: tree_ok_def)
  show "\<exists>d. cat_get cat p = Some d \<and> m_kind d = Directory" if "cat_get cat (p @ slash # s) = Some m" for p s m
    using tree_ancestor[OF tree that] by (simp add: is_dir_def)
qed

lemma mkdir_Inr:
  "mkdir path cat = Inr (oid, cat') \<longleftrightarrow> valid_path path \<and> cat_get cat path = None \<and>
     (\<forall>p. parent path = Some p \<longrightarrow> is_dir cat p) \<and> oid = dir_object_id path \<and>
     cat' = cat_insert path (manifest_directory (dir_object_id path)) cat"
  by (auto simp: mkdir_def rbind_eq_Inr valid_arg_Inr check_parent_Inr Let_def manifest_directory_def split: if_splits)

text \<open>A small tree: the directories \<open>a\<close> and \<open>a/b\<close>.\<close>

definition dir_entry :: "string \<Rightarrow> manifest" where
  "dir_entry p = manifest_directory (dir_object_id p)"

definition tree_ab :: catalog where
  "tree_ab = [(''a'', dir_entry ''a''), (''a/b'', dir_entry ''a/b'')]"

lemma dir_entry_kind [simp]: "m_kind (dir_entry p) = Directory"
  by (simp add: dir_entry_def manifest_directory_def)

lemma valid_ab: "valid_path ''a''" "valid_path ''b''" "valid_path ''a/b''" "valid_path ''c''"
  by (simp_all add: valid_path_def good_segment_def MAX_SEGMENT_def plain_def)

lemma parent_ab: "parent ''a'' = None" "parent ''a/b'' = Some ''a''" "parent ''c'' = None"
proof -
  show a: "parent ''a'' = None" and c: "parent ''c'' = None" by (simp_all add: parent_None plain_def)
  have "parent ''b'' = None" by (simp add: parent_None plain_def)
  with parent_append[of "''a''" "''b''"] show "parent ''a/b'' = Some ''a''" by simp
qed

lemma get_ab: "cat_get tree_ab p = (if p = ''a'' \<or> p = ''a/b'' then Some (dir_entry p) else None)"
  by (simp add: tree_ab_def cat_get_def om_get_def)

lemma reachable_ab: "ns_reachable tree_ab"
proof -
  define a where "a = [(''a'', dir_entry ''a'')]"
  have get: "cat_get a p = (if p = ''a'' then Some (dir_entry p) else None)" for p
    by (simp add: a_def cat_get_def om_get_def)
  have new: "cat_get cat_new p = None" for p by (simp add: cat_new_def cat_get_def om_get_def)
  have ins: "a = cat_insert ''a'' (dir_entry ''a'') cat_new" "tree_ab = cat_insert ''a/b'' (dir_entry ''a/b'') a"
    by (simp_all add: a_def tree_ab_def cat_insert_def cat_new_def)
  have "mkdir ''a'' cat_new = (Inr (dir_object_id ''a'', a) :: (gateway_error, _) res)"
    by (simp add: mkdir_Inr valid_ab parent_ab new ins(1) dir_entry_def)
  from ns_more[OF ns_start ns_mkdir[OF this]] have a: "ns_reachable a" .
  have m: "mkdir ''a/b'' a = (Inr (dir_object_id ''a/b'', tree_ab) :: (gateway_error, _) res)"
    unfolding ins(2) by (simp add: mkdir_Inr valid_ab parent_ab is_dir_def get dir_entry_def[symmetric])
  show ?thesis by (rule ns_more[OF a ns_mkdir[OF m]])
qed

lemma tree_ab_ok: "tree_ok tree_ab"
  by (rule ns_reachable_tree[OF reachable_ab])

theorem namespace_tree_witness:
  "sorted_wrt (<) (map fst tree_ab) \<and> valid_path ''a/b'' \<and> (\<exists>d. cat_get tree_ab ''a'' = Some d \<and> m_kind d = Directory)"
proof -
  note r = namespace_tree[OF reachable_ab]
  have "valid_path ''a/b''" using r[THEN conjunct2, THEN conjunct1, rule_format, of "''a/b''"] by (simp add: get_ab)
  moreover have "\<exists>d. cat_get tree_ab ''a'' = Some d \<and> m_kind d = Directory"
    using r[THEN conjunct2, THEN conjunct2, rule_format, of "''a''" "''b''"] by (simp add: get_ab)
  ultimately show ?thesis using r by simp
qed

text \<open>C21: a successful \<open>rename\<close> in a tree moves exactly the subtree of the old path: nothing is left under it,
  every entry below the new path is the one that was at the corresponding place below the old, every other entry is
  untouched, and the count returned is the number of entries moved.\<close>

theorem rename_moves_subtree:
  assumes "tree_ok cat" and "rename old new cat = Inr (n, cat')" and "old \<noteq> new"
  shows "tree_ok cat' \<and> n = length (filter (\<lambda>(k, _). in_subtree old k) cat) \<and>
    (\<forall>x. (in_subtree old x \<longrightarrow> cat_get cat' x = None) \<and>
      (in_subtree new x \<longrightarrow> cat_get cat' x = cat_get cat (old @ drop (length new) x)) \<and>
      (\<not> in_subtree old x \<and> \<not> in_subtree new x \<longrightarrow> cat_get cat' x = cat_get cat x))"
proof -
  obtain entry where e: "\<not> in_subtree old new" "cat_get cat old = Some entry" "cat_get cat new = None"
    by (rule rename_moves[OF assms])
  note spec = rename_spec[OF assms] and dis = rename_disjoint(2)[OF assms(1) e(2,3,1)]
  show ?thesis using rename_tree[OF assms(1,2)] spec(2,3) dis by simp
qed

lemma rename_ab: "rename ''a'' ''c'' tree_ab =
  (Inr (2, [(''c'', dir_entry ''a''), (''c/b'', dir_entry ''a/b'')]) :: (gateway_error, _) res)"
proof -
  have v: "valid_arg ''a'' = (Inr () :: (gateway_error, _) res)" "valid_arg ''c'' = (Inr () :: (gateway_error, _) res)"
    by (simp_all add: valid_arg_Inr valid_ab)
  have c: "check_parent tree_ab ''c'' = (Inr () :: (gateway_error, _) res)" by (simp add: check_parent_Inr parent_ab)
  have r: "range_from ''a/'' tree_ab = [(''a/b'', dir_entry ''a/b'')]" by (simp add: range_from_def tree_ab_def)
  show ?thesis
    by (simp add: rename_def v c r get_ab starts_with_def move_entry_def)
      (simp add: tree_ab_def cat_remove_def cat_insert_def om_remove_def)
qed

theorem rename_moves_subtree_witness:
  "\<exists>cat'. rename ''a'' ''c'' tree_ab = (Inr (2, cat') :: (gateway_error, _) res) \<and> cat_get cat' ''a/b'' = None \<and>
     cat_get cat' ''c/b'' = Some (dir_entry ''a/b'')"
proof -
  let ?c = "[(''c'', dir_entry ''a''), (''c/b'', dir_entry ''a/b'')]"
  have "in_subtree ''a'' ''a/b''" "in_subtree ''c'' ''c/b''" by (simp_all add: in_subtree_def starts_with_def)
  with rename_moves_subtree[OF tree_ab_ok rename_ab, THEN conjunct2, THEN conjunct2, rule_format, of "''a/b''"]
    rename_moves_subtree[OF tree_ab_ok rename_ab, THEN conjunct2, THEN conjunct2, rule_format, of "''c/b''"]
  have "cat_get ?c ''a/b'' = None" "cat_get ?c ''c/b'' = cat_get tree_ab (''a'' @ drop (length ''c'') ''c/b'')" by simp_all
  then show ?thesis using rename_ab by (auto simp: get_ab)
qed

text \<open>C22: \<open>list_dir\<close> is the children relation of the tree: for the root or a directory it returns, in key order,
  exactly the entries whose parent is that path; and \<open>rmdir\<close> of a directory succeeds exactly when that list is
  empty, removing that entry and nothing else, and otherwise reports a non-empty directory.\<close>

theorem list_dir_rmdir_exact:
  assumes "tree_ok cat"
  shows "(\<forall>prefix. prefix = [] \<or> is_dir cat prefix \<longrightarrow> list_dir prefix cat =
      (Inr (filter (\<lambda>(k, _). parent k = (if prefix = [] then None else Some prefix)) cat) :: (gateway_error, _) res)) \<and>
    (\<forall>path m. cat_get cat path = Some m \<and> m_kind m = Directory \<longrightarrow> rmdir path cat =
      (if list_dir path cat = (Inr [] :: (gateway_error, _) res) then Inr (m_object_id m, snd (cat_remove path cat))
       else Inl (Err DirectoryNotEmpty)))"
proof (intro conjI allI impI; (elim conjE)?)
  show "list_dir prefix cat =
      (Inr (filter (\<lambda>(k, _). parent k = (if prefix = [] then None else Some prefix)) cat) :: (gateway_error, _) res)"
    if "prefix = [] \<or> is_dir cat prefix" for prefix using list_dir_spec[OF assms that] .
next
  fix path m assume m: "cat_get cat path = Some m" "m_kind m = Directory"
  have ok: "om_ok cat" and v: "valid_path path" using assms m by (auto simp: tree_ok_def)
  then have ne: "path \<noteq> []" using valid_not_Nil by blast
  have "(\<exists>k m. cat_get cat k = Some m \<and> starts_with (path @ [slash]) k) \<longleftrightarrow>
      filter (\<lambda>(k, _). parent k = Some path) cat \<noteq> []" (is "?L = ?R")
  proof
    assume ?R
    then show ?L using parent_Some cat.items_get[OF ok] by (fastforce simp: filter_empty_conv starts_with_append)
  next
    assume ?L
    then obtain s e where s: "cat_get cat (path @ slash # s) = Some e" by (auto simp: starts_with_append)
    then show ?R
    proof (induction s arbitrary: e rule: length_induct)
      case (1 s)
      show ?case
      proof (cases "parent s")
        case None
        then have "parent (path @ slash # s) = Some path" by (simp add: parent_append)
        then show ?thesis using 1(2) cat.items_get[OF ok] by (force simp: filter_empty_conv)
      next
        case (Some r)
        then have "parent (path @ slash # s) = Some (path @ slash # r)" by (simp add: parent_append)
        then obtain e' where "cat_get cat (path @ slash # r) = Some e'" using 1(2) assms by (force simp: tree_ok_def is_dir_def)
        moreover have "length r < length s" using parent_Some[OF Some] by auto
        ultimately show ?thesis using 1(1) by blast
      qed
    qed
  qed
  moreover have "list_dir path cat = (Inr (filter (\<lambda>(k, _). parent k = Some path) cat) :: (gateway_error, _) res)"
    using list_dir_spec[OF assms, of path] m ne by (auto simp: is_dir_def)
  moreover have "valid_arg path = (Inr () :: (gateway_error, unit) res)" using v by (simp add: valid_arg_Inr)
  ultimately show "rmdir path cat =
      (if list_dir path cat = (Inr [] :: (gateway_error, _) res) then Inr (m_object_id m, snd (cat_remove path cat))
       else Inl (Err DirectoryNotEmpty))"
    using m by (simp add: rmdir_def rmdir_scan[OF ok])
qed

theorem list_dir_rmdir_exact_witness:
  "list_dir ''a'' tree_ab = (Inr [(''a/b'', dir_entry ''a/b'')] :: (gateway_error, _) res) \<and>
   rmdir ''a'' tree_ab = (Inl (Err DirectoryNotEmpty) :: (gateway_error, u64 \<times> catalog) res)"
proof -
  note l = list_dir_rmdir_exact[OF tree_ab_ok, THEN conjunct1, rule_format, of "''a''"]
  have "list_dir ''a'' tree_ab = (Inr [(''a/b'', dir_entry ''a/b'')] :: (gateway_error, _) res)"
    using l by (simp add: is_dir_def get_ab) (simp add: tree_ab_def parent_ab)
  with list_dir_rmdir_exact[OF tree_ab_ok, THEN conjunct2, rule_format, of "''a''"] show ?thesis by (simp add: get_ab)
qed

text \<open>\<open>ingest_bytes\<close> checks the parent under the catalog lock, releases the lock while it stores the shards, and
  takes it again to insert. A \<open>rmdir\<close> of the parent that runs in between succeeds, and the insert then leaves an
  entry with no parent: the tree is broken by an interleaving of two operations that each succeed.\<close>

theorem ingest_race:
  "\<exists>cat oid cat'. ns_reachable cat \<and> ingest_check ''a/b/f'' [1] cat = (Inr () :: (gateway_error, unit) res) \<and>
     rmdir ''a/b'' cat = (Inr (oid, cat') :: (gateway_error, u64 \<times> catalog) res) \<and>
     (\<forall>m. \<not> tree_ok (cat_insert ''a/b/f'' m cat'))"
proof -
  have "parent ''f'' = None" by (simp add: parent_None plain_def)
  then have p: "parent ''a/b/f'' = Some ''a/b''" using parent_append[of "''a/b''" "''f''"] by simp
  have v: "valid_path ''a/b/f''" by (simp add: valid_path_def good_segment_def MAX_SEGMENT_def plain_def)
  have check: "ingest_check ''a/b/f'' [1] tree_ab = (Inr () :: (gateway_error, unit) res)"
    using v by (simp add: ingest_check_Inr p is_dir_def get_ab)
  have rm: "rmdir ''a/b'' tree_ab = (Inr (m_object_id (dir_entry ''a/b''), snd (cat_remove ''a/b'' tree_ab)) :: (gateway_error, _) res)"
  proof -
    have "valid_arg ''a/b'' = (Inr () :: (gateway_error, unit) res)" by (simp add: valid_arg_Inr valid_ab)
    moreover have "range_from ''a/b/'' tree_ab = []" by (simp add: range_from_def tree_ab_def)
    ultimately show ?thesis by (simp add: rmdir_def get_ab)
  qed
  have ok: "om_ok tree_ab" using tree_ab_ok by (simp add: tree_ok_def)
  have "\<not> tree_ok (cat_insert ''a/b/f'' m (snd (cat_remove ''a/b'' tree_ab)))" (is "\<not> tree_ok ?c") for m
  proof
    assume "tree_ok ?c"
    moreover have "cat_get ?c ''a/b/f'' = Some m" "cat_get ?c ''a/b'' = None"
      using ok by (simp_all add: cat.get_ins cat.get_del cat.ok_del)
    ultimately show False using p by (auto simp: tree_ok_def is_dir_def)
  qed
  with reachable_ab check rm show ?thesis by blast
qed

end
