(* ===== verification/Media.thy ===== *)
theory Media
  imports Float32 Codec
begin

text \<open>
  \<open>holofs-codec/src/image_io.rs\<close> and the WAV writer of \<open>audio_codec.rs\<close>: what happens to samples between the
  image and audio crates and the wavelet transform. A decoded picture is its width, height and RGB8 buffer (what
  \<open>image::load_from_memory\<close> and \<open>to_rgb8\<close> give); a plane is a list of binary32 patterns.

  Shown: an image already of the cluster's square size comes back from its planes byte for byte; the WAV
  file has the length its headers announce.
\<close>

section \<open>More binary32 operations\<close>

definition f32_ONE :: u32 where "f32_ONE = 0x3F800000"

definition f32_of_nat :: "nat \<Rightarrow> u32" where
  "f32_of_nat n = f32_round (n * 2 ^ 149) 1"

definition f32_mul :: "u32 \<Rightarrow> u32 \<Rightarrow> u32" where
  "f32_mul x y =
     (let neg = (f32_neg x \<noteq> f32_neg y) in
      if f32_nan x \<or> f32_nan y then f32_QNAN
      else if f32_inf x \<or> f32_inf y then
        (if f32_units x = 0 \<or> f32_units y = 0 then f32_QNAN else f32_signed neg f32_INF)
      else f32_signed neg (f32_round (f32_units x * f32_units y) (2 ^ 149)))"

text \<open>\<open>f32_val\<close> of an infinity is beyond every finite value, so it also serves to compare.\<close>

definition f32_less :: "u32 \<Rightarrow> u32 \<Rightarrow> bool" where
  "f32_less x y \<longleftrightarrow> \<not> f32_nan x \<and> \<not> f32_nan y \<and> f32_val x < f32_val y"

definition f32_max :: "u32 \<Rightarrow> u32 \<Rightarrow> u32" where
  "f32_max x y = (if f32_nan x then y else if f32_less x y then y else x)"

definition f32_clamp :: "u32 \<Rightarrow> u32 \<Rightarrow> u32 \<Rightarrow> u32" where
  "f32_clamp lo hi x =
     (let x = (if f32_less x lo then lo else x) in if f32_less hi x then hi else x)"

text \<open>\<open>f32::round\<close>: to the nearest integer, ties away from zero.\<close>

definition f32_round_away :: "u32 \<Rightarrow> u32" where
  "f32_round_away x =
     (if f32_nan x \<or> f32_inf x then x
      else f32_signed (f32_neg x) (f32_of_nat ((f32_units x + 2 ^ 148) div 2 ^ 149)))"

text \<open>\<open>as\<close> casts to integers: towards zero, saturating, NaN to zero.\<close>

definition f32_trunc :: "u32 \<Rightarrow> int" where
  "f32_trunc x = (if f32_nan x then 0 else if f32_neg x then - int (f32_units x div 2 ^ 149) else int (f32_units x div 2 ^ 149))"

definition f32_as_u8 :: "u32 \<Rightarrow> u8" where
  "f32_as_u8 x = word_of_int (max 0 (min 255 (f32_trunc x)))"

definition f32_as_i16 :: "u32 \<Rightarrow> u16" where
  "f32_as_i16 x = word_of_int (max (- 32768) (min 32767 (f32_trunc x)))"

section \<open>Images\<close>

record picture =
  pic_width :: nat
  pic_height :: nat
  pic_rgb :: bytes

definition box_step :: "picture \<Rightarrow> nat \<Rightarrow> u32 \<times> u32 \<Rightarrow> nat \<times> nat \<Rightarrow> ('e, u32 \<times> u32) res" where
  "box_step img c ac xy = (case (ac, xy) of ((acc, cnt), (xx, yy)) \<Rightarrow>
     rbind (at_idx (pic_rgb img) ((yy * pic_width img + xx) * 3 + c)) (\<lambda>b.
       Inr (f32_add acc (f32_of_nat (unat b)), f32_add cnt f32_ONE)))"

definition box_pixel :: "picture \<Rightarrow> nat \<Rightarrow> nat \<Rightarrow> nat \<times> nat \<Rightarrow> nat \<Rightarrow> ('e, u32) res" where
  "box_pixel img w h xyp c = (case xyp of (oxp, oyp) \<Rightarrow>
     (let side = min (pic_width img) (pic_height img);
          ox = (pic_width img - side) div 2;
          oy = (pic_height img - side) div 2;
          sx0 = ox + oxp * side div w;
          sx1 = max (ox + (oxp + 1) * side div w) (sx0 + 1);
          sy0 = oy + oyp * side div h;
          sy1 = max (oy + (oyp + 1) * side div h) (sy0 + 1);
          px = concat (map (\<lambda>yy. map (\<lambda>xx. (xx, yy)) [sx0..<min sx1 (pic_width img)]) [sy0..<min sy1 (pic_height img)])
      in rbind (rfold (box_step img c) (0, 0) px) (\<lambda>(acc, cnt).
           Inr (f32_div acc (f32_max cnt f32_ONE)))))"

definition pixel_grid :: "nat \<Rightarrow> nat \<Rightarrow> (nat \<times> nat) list" where
  "pixel_grid w h = concat (map (\<lambda>y. map (\<lambda>x. (x, y)) [0..<w]) [0..<h])"

definition rgb8_into_channels :: "picture \<Rightarrow> nat \<Rightarrow> nat \<Rightarrow> ('e, u32 list list) res" where
  "rgb8_into_channels img w h =
     rmap (\<lambda>c. rmap (\<lambda>p. box_pixel img w h p c) (pixel_grid w h)) [0..<3]"

text \<open>\<open>load\<close> is the image crate: bytes of any supported format to a picture.\<close>

definition load_photo_from_bytes ::
  "(bytes \<Rightarrow> picture option) \<Rightarrow> bytes \<Rightarrow> nat \<Rightarrow> nat \<Rightarrow> ('e, u32 list list option) res" where
  "load_photo_from_bytes load bs w h = (case load bs of
     None \<Rightarrow> Inr None | Some img \<Rightarrow> rbind (rgb8_into_channels img w h) (\<lambda>chs. Inr (Some chs)))"

definition rgb_byte :: "u32 \<Rightarrow> u8" where
  "rgb_byte x = f32_as_u8 (f32_clamp 0 (f32_of_nat 255) (f32_round_away x))"

definition to_rgb :: "u32 list list \<Rightarrow> nat \<Rightarrow> nat \<Rightarrow> ('e, bytes) res" where
  "to_rgb ch w h =
     rmap (\<lambda>(i, c). rbind (at_idx ch c) (\<lambda>p. rbind (at_idx p i) (\<lambda>v. Inr (rgb_byte v))))
       (concat (map (\<lambda>i. map (\<lambda>c. (i, c)) [0..<3]) [0..<w * h]))"

section \<open>WAV files\<close>

definition le_bytes :: "nat \<Rightarrow> nat \<Rightarrow> bytes" where
  "le_bytes n v = rev (be_bytes n v)"

definition pcm_sample :: "u32 \<Rightarrow> u16" where
  "pcm_sample x = f32_as_i16 (f32_mul (f32_clamp 0xBF800000 f32_ONE x) (f32_of_nat 32767))"

definition encode_wav_16bit :: "u32 list list \<Rightarrow> u32 \<Rightarrow> ('e, bytes) res" where
  "encode_wav_16bit channels sample_rate =
     (let n_chans = word_of_nat (max (length channels) 1) :: u16;
          frames = (case channels of [] \<Rightarrow> 0 | c # _ \<Rightarrow> length c);
          block_align = n_chans * 2 :: u16;
          byte_rate = sample_rate * ucast block_align :: u32;
          data_size = word_of_nat (frames * unat block_align) :: u32
      in rbind (rmap (\<lambda>(f, ch). rbind (at_idx channels ch) (\<lambda>p. rbind (at_idx p f) (\<lambda>v. Inr (le_bytes 2 (unat (pcm_sample v))))))
           (concat (map (\<lambda>f. map (\<lambda>ch. (f, ch)) [0..<unat n_chans]) [0..<frames]))) (\<lambda>samples.
         Inr (as_bytes ''RIFF'' @ le_bytes 4 (unat (36 + data_size)) @ as_bytes ''WAVE'' @
              as_bytes ''fmt '' @ le_bytes 4 16 @ le_bytes 2 1 @ le_bytes 2 (unat n_chans) @
              le_bytes 4 (unat sample_rate) @ le_bytes 4 (unat byte_rate) @ le_bytes 2 (unat block_align) @ le_bytes 2 16 @
              as_bytes ''data'' @ le_bytes 4 (unat data_size) @ concat samples)))"

section \<open>Small integers are exact\<close>

lemma bit_len_pos: "0 < n \<Longrightarrow> bit_len n = Suc (bit_len (n div 2))"
  by (simp add: bit_len.simps[of n])

lemma bit_len_shift: "0 < n \<Longrightarrow> bit_len (n * 2 ^ k) = bit_len n + k"
  by (induction k) (simp_all add: bit_len_pos)

lemma bit_len_small: "n < 2 ^ k \<Longrightarrow> bit_len n \<le> k"
proof (cases "n = 0")
  case False
  assume "n < 2 ^ k"
  then have "2 ^ (bit_len n - 1) < (2 :: nat) ^ k" using bit_len_le[OF False] by linarith
  then have "bit_len n - 1 < k" by simp
  then show ?thesis by simp
qed (simp add: bit_len.simps)

lemma div_even_exact: "0 < d \<Longrightarrow> div_even (q * d) d = q"
  by (simp add: div_even_def)

lemma div_even_scale: "0 < c \<Longrightarrow> div_even (a * c) (d * c) = div_even a d"
  by (simp add: div_even_def Let_def mult_mod_left)

lemma f32_round_scale: "0 < c \<Longrightarrow> f32_round (a * c) (d * c) = f32_round a d"
proof -
  assume c: "0 < c"
  have "div_even (a * c) (d * c * 2 ^ e) = div_even a (d * 2 ^ e)" for e
    using div_even_scale[OF c, of a "d * 2 ^ e"] by (simp add: ac_simps)
  with c show ?thesis by (simp add: f32_round_def)
qed

lemma f32_neg_unat: "f32_neg x \<longleftrightarrow> 2 ^ 31 \<le> unat x"
proof -
  have "unat x < 2 ^ 32" using unsigned_less[of x, where 'a = nat] by simp
  then have "odd (unat x div 2 ^ 31) \<longleftrightarrow> 2 ^ 31 \<le> unat x"
    by (cases "2 ^ 31 \<le> unat x") (auto simp: le_div_geq)
  moreover have "bit (unat x) 31 \<longleftrightarrow> bit x 31" by (simp add: bit_unsigned_iff)
  then have "bit x 31 \<longleftrightarrow> odd (unat x div 2 ^ 31)" by (simp add: bit_iff_odd)
  ultimately show ?thesis by (simp add: f32_neg_def)
qed

lemma f32_round_fields:
  assumes "f32_round num den \<noteq> f32_INF"
  shows "\<not> f32_neg (f32_round num den)" and "\<not> f32_nan (f32_round num den)" and "\<not> f32_inf (f32_round num den)"
proof -
  obtain bits where b: "f32_round num den = word_of_nat bits" "bits < 0x7F800000"
    using assms unfolding f32_round_def Let_def by (metis not_le)
  have u: "unat (word_of_nat bits :: u32) = bits"
    using b(2) by (simp add: unat_of_nat take_bit_nat_eq_self)
  have "bits div 2 ^ 23 < 255" using b(2) by simp
  then have "f32_exp (word_of_nat bits) < 255" unfolding f32_exp_alt u by simp
  then show "\<not> f32_nan (f32_round num den)" "\<not> f32_inf (f32_round num den)" by (simp_all add: b f32_nan_def f32_inf_def)
  show "\<not> f32_neg (f32_round num den)" using b(2) by (simp add: b(1) f32_neg_unat u)
qed

lemma f32_round_exact:
  assumes "n < 2 ^ 24" and "23 \<le> s" and "s \<le> 149"
  shows "f32_units (f32_round (n * 2 ^ s) 1) = n * 2 ^ s" and "f32_round (n * 2 ^ s) 1 \<noteq> f32_INF"
proof -
  let ?num = "n * 2 ^ s"
  define e where "e = bit_len ?num - 24"
  define q where "q = div_even ?num (2 ^ e)"
  have "e * 2 ^ 23 + q < 0x7F800000 \<and> q * 2 ^ e = ?num \<and> q \<le> 2 ^ 24 \<and> (e = 0 \<or> 2 ^ 23 \<le> q)"
  proof (cases "n = 0")
    case True
    then show ?thesis by (simp add: e_def q_def bit_len.simps div_even_def)
  next
    case False
    define b where "b = bit_len n"
    have b: "0 < b" "b \<le> 24" "n < 2 ^ b" "2 ^ (b - 1) \<le> n"
      using False bit_len_pos[of n] bit_len_small[OF assms(1)] bit_len_less[of n] bit_len_le[of n] by (auto simp: b_def)
    have e: "e = b + s - 24" using False bit_len_shift[of n s] by (simp add: e_def b_def)
    have num: "?num = (n * 2 ^ (24 - b)) * 2 ^ e" using b(1,2) assms(2) by (simp add: e flip: power_add)
    have q: "q = n * 2 ^ (24 - b)" unfolding q_def num by (rule div_even_exact) simp
    have "n * 2 ^ (24 - b) < 2 ^ b * 2 ^ (24 - b)" using b(3) by simp
    then have "q < 2 ^ 24" using b(2) by (simp add: q flip: power_add)
    moreover have "2 ^ (b - 1) * 2 ^ (24 - b) \<le> n * 2 ^ (24 - b)" using b(4) by simp
    then have "2 ^ 23 \<le> q" using b(1,2) by (simp add: q flip: power_add)
    moreover from \<open>q < 2 ^ 24\<close> have "e * 2 ^ 23 + q < 0x7F800000" using b(2) assms(3) by (simp add: e)
    moreover have "q * 2 ^ e = ?num" by (simp only: num q)
    ultimately show ?thesis by (blast intro: less_imp_le)
  qed
  note r = this[THEN conjunct1] this[THEN conjunct2, THEN conjunct1] this[THEN conjunct2, THEN conjunct2]
  have f: "f32_round ?num 1 = word_of_nat (e * 2 ^ 23 + q)"
    using r(1) by (simp add: f32_round_def Let_def e_def q_def)
  show "f32_units (f32_round ?num 1) = ?num" unfolding f using f32_units_pattern[of q e] r by simp
  have "unat (word_of_nat (e * 2 ^ 23 + q) :: u32) = e * 2 ^ 23 + q"
    using r(1) by (simp add: unat_of_nat take_bit_nat_eq_self del: of_nat_add of_nat_mult)
  with r(1) show "f32_round ?num 1 \<noteq> f32_INF" unfolding f by (auto simp: f32_INF_def dest!: arg_cong[where f = unat])
qed

lemma f32_of_nat_exact:
  assumes "n < 2 ^ 24"
  shows "f32_units (f32_of_nat n) = n * 2 ^ 149" and "f32_of_nat n \<noteq> f32_INF"
  using f32_round_exact[OF assms, of 149] by (simp_all add: f32_of_nat_def)

lemma f32_of_nat_val:
  assumes "n < 2 ^ 24"
  shows "f32_val (f32_of_nat n) = int n * 2 ^ 149" and "\<not> f32_nan (f32_of_nat n)" and "\<not> f32_inf (f32_of_nat n)"
    and "\<not> f32_neg (f32_of_nat n)"
  using f32_of_nat_exact[OF assms] f32_round_fields[of "n * 2 ^ 149" 1, folded f32_of_nat_def]
  by (simp_all add: f32_val_def)

lemma f32_zero: "f32_val 0 = 0" "\<not> f32_nan 0" "\<not> f32_inf 0" "\<not> f32_neg 0" "f32_units 0 = 0"
  by (simp_all add: f32_val_def f32_nan_def f32_inf_def f32_neg_def f32_units_def f32_exp_def f32_frac_def)

lemma f32_of_nat_0: "f32_of_nat 0 = 0"
  by (simp add: f32_of_nat_def f32_round_def bit_len.simps div_even_def f32_INF_def)

lemma f32_ONE_eq: "f32_ONE = f32_of_nat 1"
proof -
  have "bit_len (2 ^ 149) = 150" using bit_len_shift[of 1 149] by (simp add: bit_len_pos bit_len.simps[of 0])
  moreover have "div_even (2 ^ 149) (2 ^ 126) = 2 ^ 23" using div_even_exact[of "2 ^ 126" "2 ^ 23"] by simp
  ultimately show ?thesis by (simp add: f32_of_nat_def f32_round_def f32_ONE_def)
qed

lemma f32_add_zero: "n < 2 ^ 24 \<Longrightarrow> f32_add 0 (f32_of_nat n) = f32_of_nat n"
  using f32_of_nat_val[of n] f32_zero
  by (cases "n = 0") (simp_all add: f32_add_def f32_signed_def f32_of_nat_0, simp add: f32_of_nat_def nat_mult_distrib nat_power_eq)

lemma f32_div_one: "n < 2 ^ 24 \<Longrightarrow> f32_div (f32_of_nat n) (f32_of_nat 1) = f32_of_nat n"
  using f32_of_nat_val[of n] f32_of_nat_val[of 1] f32_of_nat_exact[of n] f32_of_nat_exact[of 1] f32_round_scale[of "2 ^ 149" "n * 2 ^ 149" 1]
  by (simp add: f32_div_def f32_signed_def f32_of_nat_def[of n])

lemma rgb_byte_exact:
  assumes "n < 256"
  shows "rgb_byte (f32_of_nat n) = word_of_nat n"
proof -
  have n: "n < 2 ^ 24" using assms by simp
  note v = f32_of_nat_val[OF n] f32_of_nat_exact[OF n]
  have "(n * 2 ^ 149 + 2 ^ 148) div 2 ^ 149 = n" by simp
  then have "f32_round_away (f32_of_nat n) = f32_of_nat n" using v by (simp add: f32_round_away_def f32_signed_def)
  moreover have "\<not> f32_less (f32_of_nat n) 0" using v f32_zero by (simp add: f32_less_def)
  moreover have "\<not> f32_less (f32_of_nat 255) (f32_of_nat n)" using v f32_of_nat_val[of 255] assms by (simp add: f32_less_def)
  moreover have "f32_trunc (f32_of_nat n) = int n" using v by (simp add: f32_trunc_def)
  ultimately show ?thesis using assms by (simp add: rgb_byte_def f32_clamp_def f32_as_u8_def)
qed

section \<open>Images of the cluster's size\<close>

lemma pixel_grid_eq: "pixel_grid w h = map (\<lambda>i. (i mod w, i div w)) [0..<w * h]"
proof (induction h)
  case (Suc h)
  have up: "[0..<w * Suc h] = [0..<w * h] @ map (\<lambda>x. w * h + x) [0..<w]"
    using upt_add_eq_append[of 0 "w * h" w] map_add_upt[of "w * h" w] by (simp add: add.commute)
  have "map (\<lambda>x. (x, h)) [0..<w] = map (\<lambda>i. (i mod w, i div w)) (map (\<lambda>x. w * h + x) [0..<w])" by simp
  moreover have "pixel_grid w (Suc h) = pixel_grid w h @ map (\<lambda>x. (x, h)) [0..<w]" by (simp add: pixel_grid_def)
  ultimately show ?case unfolding up using Suc by (simp only: map_append)
qed (simp add: pixel_grid_def)

lemma concat_triples: "3 * n \<le> length xs \<Longrightarrow> concat (map (\<lambda>i. map (\<lambda>c. xs ! (i * 3 + c)) [0..<3]) [0..<n]) = take (3 * n) xs"
proof (induction n)
  case (Suc n)
  have t: "take (3 * Suc n) xs = take (3 * n) xs @ take 3 (drop (3 * n) xs)"
  proof -
    have "3 * Suc n = 3 * n + 3" by simp
    then show ?thesis by (simp only: take_add)
  qed
  have "take 3 (drop (3 * n) xs) = map (\<lambda>c. xs ! (n * 3 + c)) [0..<3]"
    using Suc.prems by (intro nth_equalityI) (auto simp: mult.commute)
  with Suc show ?case unfolding t by simp
qed simp

lemma box_pixel_exact:
  assumes img: "pic_width img = w" "pic_height img = w" "length (pic_rgb img) = 3 * (w * w)"
    and i: "x < w" "y < w" "c < 3"
  shows "box_pixel img w w (x, y) c = Inr (f32_of_nat (unat (pic_rgb img ! ((y * w + x) * 3 + c))))"
proof -
  have "y * w + x < w * w"
  proof -
    have "y * w + x < Suc y * w" using i by simp
    also have "\<dots> \<le> w * w" using i by (intro mult_le_mono1) simp
    finally show ?thesis .
  qed
  then have bound: "(y * w + x) * 3 + c < length (pic_rgb img)" using i img(3) by simp
  have b: "unat (pic_rgb img ! ((y * w + x) * 3 + c)) < 2 ^ 24"
    using unat_byte_less[of "pic_rgb img ! ((y * w + x) * 3 + c)"] by simp
  have "(x + 1) * w div w = x + 1" "x * w div w = x" "(y + 1) * w div w = y + 1" "y * w div w = y" using i by auto
  moreover have "[x..<min (x + 1) w] = [x]" "[y..<min (y + 1) w] = [y]" using i by (simp_all add: min_absorb1)
  moreover have "f32_add 0 f32_ONE = f32_ONE" "f32_max f32_ONE f32_ONE = f32_ONE"
    using f32_add_zero[of 1] by (simp_all add: f32_ONE_eq f32_max_def)
  ultimately show ?thesis
    using bound b by (simp add: box_pixel_def img box_step_def at_idx_def f32_add_zero f32_div_one[unfolded One_nat_def] f32_ONE_eq)
qed

lemma photo_planes:
  assumes img: "pic_width img = w" "pic_height img = w" "length (pic_rgb img) = 3 * (w * w)"
  shows "rgb8_into_channels img w w =
    Inr (map (\<lambda>c. map (\<lambda>i. f32_of_nat (unat (pic_rgb img ! (i * 3 + c)))) [0..<w * w]) [0..<3])"
  unfolding rgb8_into_channels_def
proof (rule rmap_Inr)
  fix c assume "c \<in> set [0..<3 :: nat]"
  then have c: "c < 3" by simp
  have "rmap (\<lambda>p. box_pixel img w w p c) (pixel_grid w w) =
      Inr (map (\<lambda>(x, y). f32_of_nat (unat (pic_rgb img ! ((y * w + x) * 3 + c)))) (pixel_grid w w))"
    using box_pixel_exact[OF img _ _ c] by (intro rmap_Inr) (auto simp: pixel_grid_def)
  then show "rmap (\<lambda>p. box_pixel img w w p c) (pixel_grid w w) =
      Inr (map (\<lambda>i. f32_of_nat (unat (pic_rgb img ! (i * 3 + c)))) [0..<w * w])"
    by (simp only: pixel_grid_eq map_map comp_def split_def fst_conv snd_conv div_mult_mod_eq)
qed

text \<open>a picture that already has the cluster's square size goes through the planes unchanged: scaling it down to
  that size and rendering the planes as RGB gives its buffer back byte for byte, although both directions compute
  in binary32.\<close>

theorem photo_exact:
  assumes "pic_width img = w" and "pic_height img = w" and "length (pic_rgb img) = 3 * (w * w)"
  shows "\<exists>chs. load_photo_from_bytes (\<lambda>_. Some img) bs w w = (Inr (Some chs) :: ('e, _) res) \<and> length chs = 3 \<and>
    to_rgb chs w w = (Inr (pic_rgb img) :: ('f, _) res)"
proof -
  let ?chs = "map (\<lambda>c. map (\<lambda>i. f32_of_nat (unat (pic_rgb img ! (i * 3 + c)))) [0..<w * w]) [0..<3]"
  have "to_rgb ?chs w w = (Inr (map (\<lambda>(i, c). pic_rgb img ! (i * 3 + c)) (concat (map (\<lambda>i. map (\<lambda>c. (i, c)) [0..<3]) [0..<w * w]))) :: ('f, _) res)"
    unfolding to_rgb_def
  proof (rule rmap_Inr)
    fix p assume "p \<in> set (concat (map (\<lambda>i. map (\<lambda>c. (i, c)) [0..<3 :: nat]) [0..<w * w]))"
    then obtain i c where p: "p = (i, c)" "i < w * w" "c < 3" by auto
    then show "(\<lambda>(i, c). rbind (at_idx ?chs c) (\<lambda>p. rbind (at_idx p i) (\<lambda>v. Inr (rgb_byte v)))) p =
        Inr ((\<lambda>(i, c). pic_rgb img ! (i * 3 + c)) p)"
      using rgb_byte_exact[OF unat_byte_less] by (simp add: at_idx_def)
  qed
  also have "map (\<lambda>(i, c). pic_rgb img ! (i * 3 + c)) (concat (map (\<lambda>i. map (\<lambda>c. (i, c)) [0..<3]) [0..<w * w])) =
      concat (map (\<lambda>i. map (\<lambda>c. pic_rgb img ! (i * 3 + c)) [0..<3]) [0..<w * w])"
    by (simp add: map_concat comp_def)
  also have "\<dots> = pic_rgb img" using concat_triples[of "w * w" "pic_rgb img"] assms(3) by simp
  finally have "to_rgb ?chs w w = (Inr (pic_rgb img) :: ('f, _) res)" .
  moreover have "load_photo_from_bytes (\<lambda>_. Some img) bs w w = (Inr (Some ?chs) :: ('e, _) res)"
    by (simp add: load_photo_from_bytes_def photo_planes[OF assms])
  ultimately show ?thesis by (intro exI[of _ ?chs]) simp
qed

theorem photo_exact_witness:
  "\<exists>chs. load_photo_from_bytes (\<lambda>_. Some \<lparr>pic_width = 1, pic_height = 1, pic_rgb = [7, 200, 255]\<rparr>) [1] 1 1 = Inr (Some chs) \<and>
     length chs = 3 \<and> to_rgb chs 1 1 = Inr [7, 200, 255]"
  using photo_exact[of "\<lparr>pic_width = 1, pic_height = 1, pic_rgb = [7, 200, 255]\<rparr>" 1 "[1]"] by simp

section \<open>WAV lengths\<close>

lemma length_le_bytes [simp]: "length (le_bytes n v) = n"
  by (simp add: le_bytes_def)

lemma wav_samples:
  assumes "\<forall>c \<in> set channels. length c = frames"
  shows "rmap (\<lambda>(f, ch). rbind (at_idx channels ch) (\<lambda>p. rbind (at_idx p f) (\<lambda>v. Inr (le_bytes 2 (unat (pcm_sample v))))))
      (concat (map (\<lambda>f. map (\<lambda>ch. (f, ch)) [0..<length channels]) [0..<frames])) =
    Inr (concat (map (\<lambda>f. map (\<lambda>c. le_bytes 2 (unat (pcm_sample (c ! f)))) channels) [0..<frames]))"
proof -
  let ?g = "\<lambda>(f, ch). le_bytes 2 (unat (pcm_sample (channels ! ch ! f)))"
  have "rmap (\<lambda>(f, ch). rbind (at_idx channels ch) (\<lambda>p. rbind (at_idx p f) (\<lambda>v. Inr (le_bytes 2 (unat (pcm_sample v))))))
      (concat (map (\<lambda>f. map (\<lambda>ch. (f, ch)) [0..<length channels]) [0..<frames])) =
    Inr (map ?g (concat (map (\<lambda>f. map (\<lambda>ch. (f, ch)) [0..<length channels]) [0..<frames])))"
    using assms by (intro rmap_Inr) (auto simp: at_idx_def)
  moreover have "map (\<lambda>ch. le_bytes 2 (unat (pcm_sample (channels ! ch ! f)))) [0..<length channels] =
      map (\<lambda>c. le_bytes 2 (unat (pcm_sample (c ! f)))) channels" for f
    by (rule nth_equalityI) simp_all
  ultimately show ?thesis by (simp add: map_concat comp_def)
qed

text \<open>the WAV writer is total on channels of equal length, and its file is consistent: it is the 44-byte header
  and two bytes per sample of every channel, the RIFF size field is the file length minus 8 and the data size field
  is the number of sample bytes, as long as that fits the 32-bit fields.\<close>

theorem wav_sizes:
  assumes "channels \<noteq> []" and "\<forall>c \<in> set channels. length c = frames" and "length channels < 2 ^ 15"
    and "36 + frames * (2 * length channels) < 2 ^ 32"
  shows "\<exists>out. encode_wav_16bit channels rate = Inr out \<and> length out = 44 + frames * (2 * length channels) \<and>
    take 4 (drop 4 out) = le_bytes 4 (length out - 8) \<and> take 4 (drop 40 out) = le_bytes 4 (length out - 44) \<and>
    drop 44 out = concat (concat (map (\<lambda>f. map (\<lambda>c. le_bytes 2 (unat (pcm_sample (c ! f)))) channels) [0..<frames]))"
proof -
  have mx: "max (length channels) 1 = length channels" using assms(1) by (cases channels) auto
  have fr: "(case channels of [] \<Rightarrow> 0 | c # _ \<Rightarrow> length c) = frames" using assms(1,2) by (cases channels) auto
  have n: "unat (word_of_nat (length channels) :: u16) = length channels"
    using assms(3) by (simp add: unat_of_nat take_bit_nat_eq_self)
  have align: "unat (word_of_nat (length channels) * 2 :: u16) = 2 * length channels"
  proof -
    have "word_of_nat (length channels) * 2 = (word_of_nat (2 * length channels) :: u16)" by simp
    then show ?thesis using assms(3) by (simp only: unat_of_nat) (simp add: take_bit_nat_eq_self)
  qed
  have ds: "unat (word_of_nat (frames * (2 * length channels)) :: u32) = frames * (2 * length channels)"
    "unat (36 + word_of_nat (frames * (2 * length channels)) :: u32) = 36 + frames * (2 * length channels)"
  proof -
    show "unat (word_of_nat (frames * (2 * length channels)) :: u32) = frames * (2 * length channels)"
      using assms(4) by (simp only: unat_of_nat) (simp add: take_bit_nat_eq_self)
    have "36 + word_of_nat (frames * (2 * length channels)) = (word_of_nat (36 + frames * (2 * length channels)) :: u32)" by simp
    then show "unat (36 + word_of_nat (frames * (2 * length channels)) :: u32) = 36 + frames * (2 * length channels)"
      using assms(4) by (simp only: unat_of_nat) (simp add: take_bit_nat_eq_self)
  qed
  let ?samples = "concat (map (\<lambda>f. map (\<lambda>c. le_bytes 2 (unat (pcm_sample (c ! f)))) channels) [0..<frames])"
  have len: "length (concat (concat (map (\<lambda>f. map (\<lambda>c. le_bytes 2 (unat (pcm_sample (c ! f)))) channels) [0..<k]))) =
      k * (2 * length channels)" for k
    by (induction k) (simp_all add: length_concat comp_def sum_list_triv)
  show ?thesis
    unfolding encode_wav_16bit_def Let_def mx fr n align ds wav_samples[OF assms(2)]
    by (simp add: len as_bytes_def)
qed

theorem wav_sizes_witness:
  "\<exists>out. encode_wav_16bit [[0, 0x3F800000]] 8000 = Inr out \<and> length out = 48 \<and>
     take 4 (drop 4 out) = le_bytes 4 (length out - 8) \<and> take 4 (drop 40 out) = le_bytes 4 (length out - 44)"
  using wav_sizes[of "[[0, 0x3F800000]]" 2 8000] by auto

end
