(* ===== verification/Gateway.thy ===== *)
theory Gateway
  imports Namespace Wavelet Media
begin

text \<open>
  \<open>holofs-gateway/src/http_gateway.rs\<close>: the gateway between the HTTP front end and the cluster. The record
  \<open>gateway\<close> is the struct behind its locks; the state of a method is the gateway together with the world of
  the network and the disk. Every method is one uninterrupted step; \<open>Namespace\<close> shows what the release of
  the catalog lock inside \<open>ingest_bytes\<close> costs. Wall-clock fields are left out.

  Parameters (record \<open>env\<close>): the network, the decoders of the image and audio crates, the PNG encoder and
  the outcome of writing the catalog file.
\<close>

section \<open>State\<close>

record audio =
  au_channels :: "u32 list list"
  au_rate :: u32
  au_samples :: u32

record 'w env =
  ev_call :: "'w call"
  ev_load :: "bytes \<Rightarrow> picture option"
  ev_audio :: "bytes \<Rightarrow> audio option"
  ev_png :: "u32 \<Rightarrow> u32 \<Rightarrow> bytes \<Rightarrow> bytes option"
  ev_save :: "bytes \<Rightarrow> 'w \<Rightarrow> bool \<times> 'w"

record cluster_info =
  cl_addrs :: "string list"
  cl_zones :: "u8 list"
  cl_placement :: placement
  cl_width :: nat
  cl_height :: nat

record cached_file =
  cf_bytes :: bytes
  cf_max_layer :: u8
  cf_downloaded :: u64

text \<open>\<open>gw_disk\<close> is the content of the catalog file, \<open>None\<close> for a gateway without one.\<close>

record gateway =
  gw_catalog :: catalog
  gw_disk :: "bytes option"
  gw_live :: "nat list"
  gw_kills :: "bool list"
  gw_cluster :: cluster_info
  gw_cache :: "string \<times> u8 \<rightharpoonup> cached_file"
  gw_shards :: "string \<times> u8 \<times> u8 \<rightharpoonup> shard list"
  gw_escrow :: "string \<rightharpoonup> share_file list"

type_synonym ('w, 'a) gw = "(gateway \<times> 'w, gateway_error, 'a) act"

definition gateway_new :: "catalog \<Rightarrow> nat list \<Rightarrow> cluster_info \<Rightarrow> gateway" where
  "gateway_new cat live cl = \<lparr>gw_catalog = cat, gw_disk = None, gw_live = live,
     gw_kills = replicate (length (cl_addrs cl)) False, gw_cluster = cl,
     gw_cache = Map.empty, gw_shards = Map.empty, gw_escrow = Map.empty\<rparr>"

definition gateway_new_persistent :: "catalog \<Rightarrow> nat list \<Rightarrow> cluster_info \<Rightarrow> bytes \<Rightarrow> gateway" where
  "gateway_new_persistent cat live cl file = (gateway_new cat live cl)\<lparr>gw_disk := Some file\<rparr>"

definition the_gw :: "(gateway \<times> 'w, 'e, gateway) act" where
  "the_gw = (\<lambda>(g, w). (Inr g, (g, w)))"

definition on_gw :: "(gateway \<Rightarrow> gateway) \<Rightarrow> (gateway \<times> 'w, 'e, unit) act" where
  "on_gw f = (\<lambda>(g, w). (Inr (), (f g, w)))"

definition on_net :: "('w, 'e, 'a) act \<Rightarrow> (gateway \<times> 'w, 'e, 'a) act" where
  "on_net m = (\<lambda>(g, w). case m w of (r, w') \<Rightarrow> (r, (g, w')))"

text \<open>\<open>map_err\<close> and \<open>ok()\<close> of \<open>Result\<close>; a panic stays a panic.\<close>

definition amap_err :: "('e \<Rightarrow> 'f) \<Rightarrow> ('s, 'e, 'a) act \<Rightarrow> ('s, 'f, 'a) act" where
  "amap_err f m = (\<lambda>s. case m s of (r, s') \<Rightarrow> (map_err f r, s'))"

definition aok :: "('s, 'e, 'a) act \<Rightarrow> ('s, 'f, 'a option) act" where
  "aok m = (\<lambda>s. case m s of
     (Inr x, s') \<Rightarrow> (Inr (Some x), s') | (Inl (Err _), s') \<Rightarrow> (Inr None, s') | (Inl Panic, s') \<Rightarrow> (Inl Panic, s'))"

definition effective_live :: "gateway \<Rightarrow> nat list" where
  "effective_live g = filter (\<lambda>n. \<not> (n < length (gw_kills g) \<and> gw_kills g ! n)) (gw_live g)"

definition persist_catalog :: "'w env \<Rightarrow> ('w, unit) gw" where
  "persist_catalog env = (\<lambda>(g, w). case gw_disk g of
     None \<Rightarrow> (Inr (), (g, w))
   | Some _ \<Rightarrow> (case cat_encode (gw_catalog g) of
       Inl e \<Rightarrow> (Inl e, (g, w))
     | Inr bs \<Rightarrow> (case ev_save env bs w of (ok, w') \<Rightarrow>
         (Inr (), (if ok then g\<lparr>gw_disk := Some bs\<rparr> else g, w')))))"

definition invalidate_cache :: "string \<Rightarrow> gateway \<Rightarrow> gateway" where
  "invalidate_cache name g = g\<lparr>
     gw_cache := (\<lambda>(n, l). if n = name then None else gw_cache g (n, l)),
     gw_shards := (\<lambda>(n, c, l). if n = name then None else gw_shards g (n, c, l))\<rparr>"

section \<open>Blank manifests\<close>

definition RED :: "u32 list" where "RED = [0x40800000, 0x40200000, 0x3FCCCCCD, 0x3F933333]"

definition red_counts :: "u32 list" where
  "red_counts = map (\<lambda>l. word_of_int (f32_trunc (f32_round_away (f32_mul (f32_of_nat K) (RED ! l))))) [0..<NLAYERS]"

definition sym_lens :: "u32 list list \<Rightarrow> u32 list" where
  "sym_lens lps = map (\<lambda>pos. word_of_nat ((length pos * 4 + K - 1) div K)) lps"

definition push_position :: "(nat \<Rightarrow> nat) \<Rightarrow> u32 list list \<Rightarrow> nat \<Rightarrow> ('e, u32 list list) res" where
  "push_position layer lps i =
     rbind (at_idx lps (layer i)) (\<lambda>ps. Inr (lps[layer i := ps @ [word_of_nat i]]))"

definition blank_manifest :: "cluster_info \<Rightarrow> ('e, manifest) res" where
  "blank_manifest cl =
     (let w = cl_width cl; h = cl_height cl in
      rbind (rfold (push_position (\<lambda>i. coeff_layer (i mod w) (i div w) w h)) (replicate NLAYERS [])
        (map (\<lambda>(x, y). y * w + x) (pixel_grid w h))) (\<lambda>lps.
      Inr \<lparr>m_object_id = 0, m_k = word_of_nat K, m_nlayers = word_of_nat NLAYERS, m_n_per_layer = red_counts,
        m_sym_len = sym_lens lps, m_layer_positions = lps, m_channels = 3,
        m_width = word_of_nat w, m_height = word_of_nat h, m_levels = word_of_nat LEVELS,
        m_nodes = cl_addrs cl, m_placement = cl_placement cl, m_zones = cl_zones cl,
        m_data_cid = replicate 32 0, m_merkle_root = replicate 32 0,
        m_shard_hashes = replicate 3 (replicate NLAYERS []), m_kind = Image, m_content_type = ''image/png'',
        m_chunk_lens = [], m_audio_sample_rate = 0, m_text_minhash = []\<rparr>))"

definition blank_audio_manifest :: "cluster_info \<Rightarrow> u32 \<Rightarrow> u8 \<Rightarrow> nat \<Rightarrow> (put_error, manifest) res" where
  "blank_audio_manifest cl rate channels sample_count =
     (let align = 2 ^ LEVELS; n_samples = sample_count div align * align in
      if n_samples = 0 then Inl (Err (AudioTooShort sample_count align))
      else rbind (rfold (push_position (\<lambda>i. coeff_layer_1d i n_samples)) (replicate NLAYERS []) [0..<n_samples]) (\<lambda>lps.
      Inr \<lparr>m_object_id = 0, m_k = word_of_nat K, m_nlayers = word_of_nat NLAYERS, m_n_per_layer = red_counts,
        m_sym_len = sym_lens lps, m_layer_positions = lps, m_channels = channels,
        m_width = word_of_nat n_samples, m_height = 1, m_levels = word_of_nat LEVELS,
        m_nodes = cl_addrs cl, m_placement = cl_placement cl, m_zones = cl_zones cl,
        m_data_cid = replicate 32 0, m_merkle_root = replicate 32 0,
        m_shard_hashes = replicate (unat channels) (replicate NLAYERS []), m_kind = Audio, m_content_type = ''audio/wav'',
        m_chunk_lens = [], m_audio_sample_rate = rate, m_text_minhash = []\<rparr>))"

definition blank_flat_manifest :: "cluster_info \<Rightarrow> object_kind \<Rightarrow> string \<Rightarrow> manifest" where
  "blank_flat_manifest cl kind content_type =
     \<lparr>m_object_id = 0, m_k = word_of_nat K, m_nlayers = 1, m_n_per_layer = [word_of_nat (K + K div 2)],
      m_sym_len = [0], m_layer_positions = [[]], m_channels = 1, m_width = 0, m_height = 0, m_levels = 0,
      m_nodes = cl_addrs cl, m_placement = cl_placement cl, m_zones = cl_zones cl,
      m_data_cid = replicate 32 0, m_merkle_root = replicate 32 0, m_shard_hashes = [[[]]], m_kind = kind,
      m_content_type = content_type, m_chunk_lens = [], m_audio_sample_rate = 0, m_text_minhash = []\<rparr>"

definition blank_text_manifest :: "cluster_info \<Rightarrow> string \<Rightarrow> manifest" where
  "blank_text_manifest cl ct = blank_flat_manifest cl Text ct"

definition blank_opaque_manifest :: "cluster_info \<Rightarrow> string \<Rightarrow> manifest" where
  "blank_opaque_manifest cl ct = blank_flat_manifest cl Opaque ct"

section \<open>Content types\<close>

definition to_lower :: "string \<Rightarrow> string" where
  "to_lower s = map (\<lambda>c. if CHR ''A'' \<le> c \<and> c \<le> CHR ''Z'' then char_of (of_char c + 32 :: nat) else c) s"

text \<open>\<open>rsplit('.').next()\<close>: what follows the last dot, the whole string without one.\<close>

definition after_last_dot :: "string \<Rightarrow> string" where
  "after_last_dot s = rev (takeWhile (\<lambda>c. c \<noteq> CHR ''.'') (rev s))"

definition opaque_types :: "(string \<times> string) list" where
  "opaque_types = [
    (''pdf'', ''application/pdf''),
    (''docx'', ''application/vnd.openxmlformats-officedocument.wordprocessingml.document''),
    (''doc'', ''application/msword''),
    (''xlsx'', ''application/vnd.openxmlformats-officedocument.spreadsheetml.sheet''),
    (''xls'', ''application/vnd.ms-excel''),
    (''pptx'', ''application/vnd.openxmlformats-officedocument.presentationml.presentation''),
    (''ppt'', ''application/vnd.ms-powerpoint''),
    (''odt'', ''application/vnd.oasis.opendocument.text''),
    (''ods'', ''application/vnd.oasis.opendocument.spreadsheet''),
    (''zip'', ''application/zip''),
    (''tar'', ''application/x-tar''),
    (''gz'', ''application/gzip''), (''gzip'', ''application/gzip''),
    (''bz2'', ''application/x-bzip2''),
    (''xz'', ''application/x-xz''),
    (''7z'', ''application/x-7z-compressed''),
    (''rar'', ''application/vnd.rar''),
    (''epub'', ''application/epub+zip''),
    (''mobi'', ''application/x-mobipocket-ebook''),
    (''rtf'', ''application/rtf''),
    (''sqlite'', ''application/vnd.sqlite3''), (''db'', ''application/vnd.sqlite3''),
    (''exe'', ''application/vnd.microsoft.portable-executable''), (''dll'', ''application/vnd.microsoft.portable-executable''),
    (''dmg'', ''application/x-apple-diskimage''),
    (''iso'', ''application/x-iso9660-image'')]"

definition guess_opaque_content_type :: "string \<Rightarrow> string" where
  "guess_opaque_content_type name =
     (case map_of opaque_types (after_last_dot (to_lower name)) of Some t \<Rightarrow> t | None \<Rightarrow> ''application/octet-stream'')"

definition ends_with :: "string \<Rightarrow> string \<Rightarrow> bool" where
  "ends_with s suffix \<longleftrightarrow> length suffix \<le> length s \<and> drop (length s - length suffix) s = suffix"

definition guess_text_content_type :: "string \<Rightarrow> string" where
  "guess_text_content_type name =
     (let lower = to_lower name in
      if ends_with lower ''.md'' \<or> ends_with lower ''.markdown'' then ''text/markdown; charset=utf-8''
      else if ends_with lower ''.html'' \<or> ends_with lower ''.htm'' then ''text/html; charset=utf-8''
      else if ends_with lower ''.json'' then ''application/json; charset=utf-8''
      else if ends_with lower ''.css'' then ''text/css; charset=utf-8''
      else if ends_with lower ''.csv'' then ''text/csv; charset=utf-8''
      else ''text/plain; charset=utf-8'')"

section \<open>Storing\<close>

text \<open>Runs one of the client's put operations on a manifest and returns the manifest it leaves.\<close>

definition run_put :: "(client_error \<Rightarrow> put_error) \<Rightarrow> (manifest \<times> 'w, client_error, unit) act \<Rightarrow> manifest \<Rightarrow>
    ('w, put_error, manifest) act" where
  "run_put f put m = (\<lambda>w. case put (m, w) of (r, (m', w')) \<Rightarrow>
     (case map_err f r of Inl e \<Rightarrow> Inl e | Inr _ \<Rightarrow> Inr m', w'))"

definition all_shards :: "manifest \<Rightarrow> u32" where
  "all_shards m = sum_list (m_n_per_layer m) * ucast (m_channels m)"

definition put_any :: "'w env \<Rightarrow> cluster_info \<Rightarrow> string \<Rightarrow> bytes \<Rightarrow> nat list \<Rightarrow>
    ('w, put_error, manifest \<times> string \<times> u32) act" where
  "put_any env cl name body live =
     abind (alift (load_photo_from_bytes (ev_load env) body (cl_width cl) (cl_height cl))) (\<lambda>photo.
     case photo of
       Some channels \<Rightarrow>
         abind (alift (blank_manifest cl)) (\<lambda>m.
         abind (run_put PutImage (put_object (ev_call env) live channels) m) (\<lambda>m.
           aret (m, ''image'', all_shards m)))
     | None \<Rightarrow> (case ev_audio env body of
         Some au \<Rightarrow>
           abind (alift (blank_audio_manifest cl (au_rate au) (word_of_nat (length (au_channels au))) (unat (au_samples au)))) (\<lambda>m.
           abind (run_put PutAudio (put_audio_object (ev_call env) live (au_channels au)) m) (\<lambda>m.
             aret (m, ''audio'', all_shards m)))
       | None \<Rightarrow> (case from_utf8 body of
           Inr text \<Rightarrow>
             abind (run_put PutText (put_text_object (ev_call env) live text) (blank_text_manifest cl (guess_text_content_type name))) (\<lambda>m.
             abind (alift (at_idx (m_n_per_layer m) 0)) (\<lambda>n. aret (m, ''text'', n)))
         | Inl _ \<Rightarrow>
             abind (run_put PutOpaque (put_opaque_object (ev_call env) live body) (blank_opaque_manifest cl (guess_opaque_content_type name))) (\<lambda>m.
             abind (alift (at_idx (m_n_per_layer m) 0)) (\<lambda>n. aret (m, ''opaque'', n))))))"

record ingest_result =
  ir_name :: string
  ir_object_id :: u64
  ir_data_cid :: string
  ir_width :: u32
  ir_height :: u32
  ir_kind :: object_kind
  ir_total_shards :: u32

text \<open>A failed purge of the previous object is logged and ignored.\<close>

definition purge_previous :: "'w env \<Rightarrow> manifest option \<Rightarrow> nat list \<Rightarrow> ('w, unit) gw" where
  "purge_previous env prev live = (case prev of
     Some old \<Rightarrow> abind (aok (on_net (purge_object (ev_call env) old live))) (\<lambda>_. aret ())
   | None \<Rightarrow> aret ())"

definition ingest_bytes :: "'w env \<Rightarrow> string \<Rightarrow> bytes \<Rightarrow> ('w, ingest_result) gw" where
  "ingest_bytes env name body =
     abind the_gw (\<lambda>g.
     abind (alift (ingest_check name body (gw_catalog g))) (\<lambda>_.
     let live = effective_live g in
     abind (purge_previous env (cat_get (gw_catalog g) name) live) (\<lambda>_.
     abind (amap_err (\<lambda>e. BadRequest (PutFailed e)) (on_net (put_any env (gw_cluster g) name body live))) (\<lambda>(m, _, total).
     abind (on_gw (\<lambda>g. g\<lparr>gw_catalog := cat_insert name m (gw_catalog g)\<rparr>)) (\<lambda>_.
     abind (on_gw (invalidate_cache name)) (\<lambda>_.
     abind (persist_catalog env) (\<lambda>_.
       aret \<lparr>ir_name = name, ir_object_id = m_object_id m, ir_data_cid = hex (m_data_cid m), ir_width = m_width m,
         ir_height = m_height m, ir_kind = m_kind m, ir_total_shards = total\<rparr>)))))))"

definition remove_object :: "'w env \<Rightarrow> string \<Rightarrow> ('w, u64) gw" where
  "remove_object env name =
     abind the_gw (\<lambda>g.
     abind (alift (remove_entry name (gw_catalog g))) (\<lambda>(m, cat).
     abind (on_gw (\<lambda>g. g\<lparr>gw_catalog := cat\<rparr>)) (\<lambda>_.
     abind (on_gw (invalidate_cache name)) (\<lambda>_.
     abind (persist_catalog env) (\<lambda>_.
     abind (amap_err (\<lambda>e. Decode (PartialPurge e)) (on_net (purge_object (ev_call env) m (effective_live g)))) (\<lambda>_.
       aret (m_object_id m)))))))"

definition gw_mkdir :: "'w env \<Rightarrow> string \<Rightarrow> ('w, u64) gw" where
  "gw_mkdir env path =
     abind the_gw (\<lambda>g.
     abind (alift (mkdir path (gw_catalog g))) (\<lambda>(oid, cat).
     abind (on_gw (\<lambda>g. g\<lparr>gw_catalog := cat\<rparr>)) (\<lambda>_.
     abind (persist_catalog env) (\<lambda>_. aret oid))))"

definition gw_rmdir :: "'w env \<Rightarrow> string \<Rightarrow> ('w, u64) gw" where
  "gw_rmdir env path =
     abind the_gw (\<lambda>g.
     abind (alift (rmdir path (gw_catalog g))) (\<lambda>(oid, cat).
     abind (on_gw (\<lambda>g. g\<lparr>gw_catalog := cat\<rparr>)) (\<lambda>_.
     abind (persist_catalog env) (\<lambda>_. aret oid))))"

definition gw_rename :: "'w env \<Rightarrow> string \<Rightarrow> string \<Rightarrow> ('w, nat) gw" where
  "gw_rename env old new =
     abind the_gw (\<lambda>g.
     abind (alift (rename old new (gw_catalog g))) (\<lambda>(n, cat).
     if old = new then aret n
     else abind (on_gw (\<lambda>g. g\<lparr>gw_catalog := cat\<rparr>)) (\<lambda>_.
       abind (on_gw (invalidate_cache old)) (\<lambda>_.
       abind (persist_catalog env) (\<lambda>_. aret n)))))"

definition toggle_admin_kill :: "nat \<Rightarrow> ('w, bool) gw" where
  "toggle_admin_kill idx =
     abind the_gw (\<lambda>g.
     if idx \<ge> length (gw_kills g) then alift (Inl (Err (BadRequest (BadIndex idx (length (gw_kills g))))))
     else abind (on_gw (\<lambda>g. g\<lparr>gw_kills := (gw_kills g)[idx := \<not> gw_kills g ! idx], gw_cache := Map.empty\<rparr>)) (\<lambda>_.
       aret (\<not> gw_kills g ! idx)))"

section \<open>Reading\<close>

definition encode_png :: "'w env \<Rightarrow> u32 list list \<Rightarrow> u32 \<Rightarrow> u32 \<Rightarrow> ('e, bytes) res" where
  "encode_png env channels w h =
     rbind (rmap (at_idx channels) [0..<3]) (\<lambda>arr.
     rbind (to_rgb arr (unat w) (unat h)) (\<lambda>rgb.
       case ev_png env w h rgb of Some png \<Rightarrow> Inr png | None \<Rightarrow> Inl Panic))"

definition get_or_decode :: "'w env \<Rightarrow> string \<Rightarrow> u8 \<Rightarrow> (gateway \<times> 'w, 'e, cached_file option) act" where
  "get_or_decode env name max_layer =
     abind the_gw (\<lambda>g. case gw_cache g (name, max_layer) of
       Some f \<Rightarrow> aret (Some f)
     | None \<Rightarrow> (case cat_get (gw_catalog g) name of
         None \<Rightarrow> aret None
       | Some m \<Rightarrow>
           abind (aok (on_net (get_object_up_to_layer (ev_call env) m (effective_live g) max_layer))) (\<lambda>r. case r of
             None \<Rightarrow> aret None
           | Some (channels, downloaded) \<Rightarrow>
               abind (alift (encode_png env channels (m_width m) (m_height m))) (\<lambda>png.
               let f = \<lparr>cf_bytes = png, cf_max_layer = max_layer, cf_downloaded = downloaded\<rparr> in
               abind (on_gw (\<lambda>g. g\<lparr>gw_cache := (gw_cache g)((name, max_layer) \<mapsto> f)\<rparr>)) (\<lambda>_. aret (Some f))))))"

record decoded_object =
  do_bytes :: bytes
  do_content_type :: string
  do_kind :: object_kind
  do_max_layer :: "u8 option"
  do_downloaded :: u64
  do_sample_rate :: "u32 option"
  do_channels :: "u8 option"
  do_chunks_total :: "nat option"
  do_chunks_missing :: "nat option"
  do_filename :: "string option"

definition full_or :: "manifest \<Rightarrow> u8 option \<Rightarrow> u8" where
  "full_or m max_layer = (case max_layer of Some l \<Rightarrow> l | None \<Rightarrow> if m_nlayers m = 0 then 0 else m_nlayers m - 1)"

definition decode_object :: "'w env \<Rightarrow> string \<Rightarrow> u8 option \<Rightarrow> ('w, decoded_object) gw" where
  "decode_object env name max_layer =
     abind the_gw (\<lambda>g. case cat_get (gw_catalog g) name of
       None \<Rightarrow> alift (Inl (Err GwNotFound))
     | Some m \<Rightarrow>
         if (m_kind m = Text \<or> m_kind m = Opaque) \<and> max_layer \<noteq> None then alift (Inl (Err PreviewUnsupported))
         else (case m_kind m of
           Directory \<Rightarrow> alift (Inl (Err IsDirectory))
         | Image \<Rightarrow>
             abind (get_or_decode env name (full_or m max_layer)) (\<lambda>r. case r of
               None \<Rightarrow> alift (Inl (Err (Decode (ImageDecode name))))
             | Some f \<Rightarrow> aret \<lparr>do_bytes = cf_bytes f, do_content_type = ''image/png'', do_kind = Image,
                 do_max_layer = Some (cf_max_layer f), do_downloaded = cf_downloaded f, do_sample_rate = None,
                 do_channels = None, do_chunks_total = None, do_chunks_missing = None, do_filename = None\<rparr>)
         | Audio \<Rightarrow>
             abind (amap_err (\<lambda>e. Decode (AudioDecode e))
               (on_net (get_audio_object_up_to_layer (ev_call env) m (effective_live g) (full_or m max_layer)))) (\<lambda>(channels, downloaded).
             abind (alift (encode_wav_16bit channels (m_audio_sample_rate m))) (\<lambda>wav.
               aret \<lparr>do_bytes = wav, do_content_type = ''audio/wav'', do_kind = Audio,
                 do_max_layer = Some (full_or m max_layer), do_downloaded = downloaded, do_sample_rate = Some (m_audio_sample_rate m),
                 do_channels = Some (m_channels m), do_chunks_total = None, do_chunks_missing = None, do_filename = None\<rparr>))
         | Text \<Rightarrow>
             abind (amap_err (\<lambda>e. Decode (TextDecode e))
               (on_net (get_text_object_with_holes (ev_call env) m (effective_live g)))) (\<lambda>(bytes, holes).
               aret \<lparr>do_bytes = bytes, do_content_type = m_content_type m, do_kind = Text,
                 do_max_layer = None, do_downloaded = 0, do_sample_rate = None, do_channels = None,
                 do_chunks_total = Some (length (m_chunk_lens m)), do_chunks_missing = Some holes, do_filename = None\<rparr>)
         | Opaque \<Rightarrow>
             abind (amap_err (\<lambda>e. Decode (OpaqueDecode e))
               (on_net (get_opaque_object (ev_call env) m (effective_live g)))) (\<lambda>bytes.
               aret \<lparr>do_bytes = bytes, do_content_type = m_content_type m, do_kind = Opaque,
                 do_max_layer = None, do_downloaded = 0, do_sample_rate = None, do_channels = None,
                 do_chunks_total = None, do_chunks_missing = None, do_filename = Some name\<rparr>)))"

section \<open>What an action leaves alone\<close>

definition keeps :: "('s \<Rightarrow> bool) \<Rightarrow> ('s, 'e, 'a) act \<Rightarrow> bool" where
  "keeps P m \<longleftrightarrow> (\<forall>s. P s \<longrightarrow> P (snd (m s)))"

named_theorems keeps_intros "an action keeps a predicate of the state"

lemma keepsD: "keeps P m \<Longrightarrow> m s = (r, s') \<Longrightarrow> P s \<Longrightarrow> P s'"
  by (auto simp: keeps_def dest!: spec[of _ s])

lemma keeps_aret [keeps_intros]: "keeps P (aret x)"
  by (simp add: keeps_def)

lemma keeps_alift [keeps_intros]: "keeps P (alift r)"
  by (simp add: keeps_def)

lemma keeps_abind [keeps_intros]: "keeps P m \<Longrightarrow> (\<And>x. keeps P (f x)) \<Longrightarrow> keeps P (abind m f)"
  unfolding keeps_def abind_def by (auto split: prod.split sum.split)

lemma keeps_afold [keeps_intros]: "(\<And>b x. keeps P (f b x)) \<Longrightarrow> keeps P (afold f b xs)"
  by (induction xs arbitrary: b) (auto intro: keeps_intros)

lemma keeps_if [keeps_intros]: "keeps P m \<Longrightarrow> keeps P n \<Longrightarrow> keeps P (if b then m else n)"
  by simp

lemma keeps_prod [keeps_intros]: "(\<And>a b. keeps P (f a b)) \<Longrightarrow> keeps P (case p of (a, b) \<Rightarrow> f a b)"
  by (cases p) simp

lemma keeps_prod_app [keeps_intros]: "(\<And>a b. keeps P (f a b x)) \<Longrightarrow> keeps P ((case p of (a, b) \<Rightarrow> f a b) x)"
  by (cases p) simp

lemma keeps_option [keeps_intros]: "keeps P m \<Longrightarrow> (\<And>x. keeps P (f x)) \<Longrightarrow> keeps P (case opt of None \<Rightarrow> m | Some x \<Rightarrow> f x)"
  by (cases opt) simp_all

lemma keeps_Let [keeps_intros]: "(\<And>x. keeps P (f x)) \<Longrightarrow> keeps P (let x = v in f x)"
  by simp

lemma keeps_on_world [keeps_intros]: "keeps (\<lambda>(m, _). Q m) (on_world a)"
  by (auto simp: keeps_def on_world_def split: prod.split)

lemma keeps_on_manifest [keeps_intros]: "(\<And>m. Q m \<Longrightarrow> Q (f m)) \<Longrightarrow> keeps (\<lambda>(m, _). Q m) (on_manifest f)"
  by (auto simp: keeps_def on_manifest_def)

lemma keeps_the_manifest [keeps_intros]: "keeps P the_manifest"
  by (auto simp: keeps_def the_manifest_def)

definition labelled :: "object_kind \<Rightarrow> string \<Rightarrow> manifest \<Rightarrow> bool" where
  "labelled k ct m \<longleftrightarrow> m_kind m = k \<and> m_content_type m = ct"

lemma labelled_cid [simp]: "labelled k ct (set_cid cid m) = labelled k ct m"
  by (simp add: labelled_def set_cid_def)

lemma labelled_send_shard [keeps_intros]: "keeps (\<lambda>(m, _). labelled k ct m) (send_shard call live c l idx s)"
  unfolding send_shard_def by (intro keeps_intros; simp add: labelled_def set_cid_def)

lemma labelled_send_step [keeps_intros]: "keeps (\<lambda>(m, _). labelled k ct m) (send_step call live hs p)"
  unfolding send_step_def by (intro keeps_intros; simp add: labelled_def set_cid_def)

lemma labelled_send_all [keeps_intros]: "keeps (\<lambda>(m, _). labelled k ct m) (send_all call live ss)"
  unfolding send_all_def by (intro keeps_intros; simp add: labelled_def set_cid_def)

lemma labelled_put_shard_step [keeps_intros]: "keeps (\<lambda>(m, _). labelled k ct m) (put_shard_step call live c l p q)"
  unfolding put_shard_step_def by (intro keeps_intros; simp add: labelled_def set_cid_def)

lemma labelled_put_layer [keeps_intros]: "keeps (\<lambda>(m, _). labelled k ct m) (put_layer call live plane c st l)"
  unfolding put_layer_def by (intro keeps_intros; simp add: labelled_def set_cid_def)

lemma labelled_put_channel [keeps_intros]: "keeps (\<lambda>(m, _). labelled k ct m) (put_channel call live tr channels nl st c)"
  unfolding put_channel_def by (intro keeps_intros; simp add: labelled_def set_cid_def)

lemma labelled_put_planes [keeps_intros]: "keeps (\<lambda>(m, _). labelled k ct m) (put_planes call live tr channels rng)"
  unfolding put_planes_def by (intro keeps_intros; simp add: labelled_def set_cid_def)

lemma labelled_put_opaque_object: "keeps (\<lambda>(m, _). labelled k ct m) (put_opaque_object call live data)"
  unfolding put_opaque_object_def by (intro keeps_intros; simp add: labelled_def set_cid_def)

lemma labelled_put_text_object: "keeps (\<lambda>(m, _). labelled k ct m) (put_text_object call live text)"
  unfolding put_text_object_def by (intro keeps_intros; simp add: labelled_def set_cid_def)

lemma labelled_put_object: "keeps (\<lambda>(m, _). labelled k ct m) (put_object call live channels)"
  unfolding put_object_def by (intro keeps_intros; simp add: labelled_def set_cid_def)

lemma labelled_put_audio_object: "keeps (\<lambda>(m, _). labelled k ct m) (put_audio_object call live channels)"
  unfolding put_audio_object_def by (intro keeps_intros; simp add: labelled_def set_cid_def)

lemmas put_labelled = labelled_put_opaque_object labelled_put_text_object labelled_put_object labelled_put_audio_object

lemma run_put_labelled:
  assumes "keeps (\<lambda>(m, _). labelled k ct m) put" and "labelled k ct m" and "run_put f put m w = (Inr m', w')"
  shows "labelled k ct m'"
proof -
  obtain r m1 w1 where p: "put (m, w) = (r, (m1, w1))" by (metis prod.exhaust)
  with assms(3) have "m' = m1" by (auto simp: run_put_def split: sum.splits)
  with keepsD[OF assms(1) p] assms(2) show ?thesis by simp
qed

section \<open>Running the methods\<close>

lemma abind_the_gw: "abind the_gw f (g, w) = f g (g, w)"
  by (simp add: abind_def the_gw_def)

lemma abind_on_gw: "abind (on_gw h) f (g, w) = f () (h g, w)"
  by (simp add: abind_def on_gw_def)

lemma on_net_run: "on_net m (g, w) = (case m w of (r, w') \<Rightarrow> (r, (g, w')))"
  by (simp add: on_net_def)

lemma abind_on_net: "abind (on_net m) f (g, w) = (case m w of (Inl e, w') \<Rightarrow> (Inl e, (g, w')) | (Inr x, w') \<Rightarrow> f x (g, w'))"
  by (simp add: abind_def on_net_def split: prod.split sum.split)

lemma abind_err_on_net: "abind (amap_err h (on_net m)) f (g, w) =
    (case m w of (Inl e, w') \<Rightarrow> (map_err h (Inl e), (g, w')) | (Inr x, w') \<Rightarrow> f x (g, w'))"
  by (auto simp: abind_def amap_err_def on_net_def map_err_def split: prod.split sum.split fault.split)

lemma abind_aok_on_net: "abind (aok (on_net m)) f (g, w) =
    (case m w of (Inr x, w') \<Rightarrow> f (Some x) (g, w') | (Inl (Err _), w') \<Rightarrow> f None (g, w') | (Inl Panic, w') \<Rightarrow> (Inl Panic, (g, w')))"
  by (auto simp: abind_def aok_def on_net_def split: prod.split sum.split fault.split)

lemmas gw_run = abind_the_gw abind_on_gw abind_on_net abind_err_on_net abind_aok_on_net abind_alift_run if_run prod_run

lemma persist_run: "persist_catalog env (g, w) = (r, (g', w')) \<Longrightarrow> \<exists>d. g' = g\<lparr>gw_disk := d\<rparr> \<and> (r = Inr () \<longrightarrow> (gw_disk g = None \<longrightarrow> d = None))"
  by (cases "gw_disk g") (auto simp: persist_catalog_def split: sum.splits prod.splits if_splits
      intro: exI[of _ "gw_disk g"] exI[of _ "Some bs" for bs])

lemma blank_kinds:
  "blank_manifest cl = Inr m \<Longrightarrow> labelled Image ''image/png'' m"
  "blank_audio_manifest cl rate ch n = Inr m \<Longrightarrow> labelled Audio ''audio/wav'' m"
  "labelled Text ct (blank_text_manifest cl ct)" "labelled Opaque ct (blank_opaque_manifest cl ct)"
  by (auto simp: blank_manifest_def blank_audio_manifest_def blank_text_manifest_def blank_opaque_manifest_def
      blank_flat_manifest_def labelled_def Let_def rbind_eq_Inr split: if_splits)

lemma put_any_kind:
  assumes "put_any env cl name body live w = (Inr (m, what, n), w')"
  shows "m_kind m \<noteq> Directory"
proof -
  have "\<exists>ct. labelled Image ct m \<or> labelled Audio ct m \<or> labelled Text ct m \<or> labelled Opaque ct m"
    using assms unfolding put_any_def
    by (auto simp: abind_Inr split: option.splits sum.splits
        dest!: run_put_labelled[OF put_labelled(1) blank_kinds(4)] run_put_labelled[OF put_labelled(2) blank_kinds(3)]
          run_put_labelled[OF put_labelled(3) blank_kinds(1)] run_put_labelled[OF put_labelled(4) blank_kinds(2)])
  then show ?thesis by (auto simp: labelled_def)
qed

section \<open>The cache\<close>

text \<open>A cached file is the PNG of some earlier decode of the manifest, to the layer of its key.\<close>

definition decoded_from :: "'w env \<Rightarrow> manifest \<Rightarrow> u8 \<Rightarrow> cached_file \<Rightarrow> bool" where
  "decoded_from env m l f \<longleftrightarrow> cf_max_layer f = l \<and>
     (\<exists>live w channels w'. get_object_up_to_layer (ev_call env) m live l w = (Inr (channels, cf_downloaded f), w') \<and>
       encode_png env channels (m_width m) (m_height m) = (Inr (cf_bytes f) :: (gateway_error, _) res))"

definition cache_ok :: "'w env \<Rightarrow> gateway \<Rightarrow> bool" where
  "cache_ok env g \<longleftrightarrow> (\<forall>n l f. gw_cache g (n, l) = Some f \<longrightarrow>
     (\<exists>m. cat_get (gw_catalog g) n = Some m \<and> m_kind m = Image \<and> decoded_from env m l f))"

definition gw_ok :: "'w env \<Rightarrow> gateway \<Rightarrow> bool" where
  "gw_ok env g \<longleftrightarrow> tree_ok (gw_catalog g) \<and> cache_ok env g"

lemma gw_ok_disk [simp]: "gw_ok env (g\<lparr>gw_disk := d\<rparr>) = gw_ok env g"
  by (simp add: gw_ok_def cache_ok_def)

lemma cache_ok_transfer:
  assumes "cache_ok env g"
    and "\<And>n l f m. gw_cache g' (n, l) = Some f \<Longrightarrow> cat_get (gw_catalog g) n = Some m \<Longrightarrow> m_kind m = Image \<Longrightarrow>
      gw_cache g (n, l) = Some f \<Longrightarrow> cat_get (gw_catalog g') n = Some m"
    and "\<And>n l f. gw_cache g' (n, l) = Some f \<Longrightarrow> gw_cache g (n, l) = Some f"
  shows "cache_ok env g'"
  using assms unfolding cache_ok_def by meson

lemma keeps_persist [keeps_intros]: "keeps (\<lambda>(g, _). gw_ok env g) (persist_catalog env')"
  unfolding keeps_def
proof (intro allI impI)
  fix s :: "gateway \<times> 'a" assume ok: "case s of (g, _) \<Rightarrow> gw_ok env g"
  obtain g w where s: "s = (g, w)" by force
  obtain r g' w' where p: "persist_catalog env' (g, w) = (r, (g', w'))" by (metis prod.exhaust)
  with persist_run[OF this] ok s show "case snd (persist_catalog env' s) of (g, _) \<Rightarrow> gw_ok env g" by auto
qed

lemma keeps_on_net [keeps_intros]: "keeps (\<lambda>(g, _). Q g) (on_net a)"
  by (auto simp: keeps_def on_net_def split: prod.split)

lemma keeps_amap_err [keeps_intros]: "keeps P m \<Longrightarrow> keeps P (amap_err f m)"
  unfolding keeps_def amap_err_def by (auto split: prod.split)

lemma cat_ok_get: "tree_ok cat \<Longrightarrow> cat_get (cat_insert k v cat) k' = (if k' = k then Some v else cat_get cat k')"
  "tree_ok cat \<Longrightarrow> cat_get (snd (cat_remove k cat)) k' = (if k' = k then None else cat_get cat k')"
  by (simp_all add: tree_ok_def cat.get_ins cat.get_del)

text \<open>What remains of each structural operation after its catalog step keeps the invariant.\<close>

lemma gw_ok_insert:
  assumes "gw_ok env g" and "valid_path name" and "\<forall>p. parent name = Some p \<longrightarrow> is_dir (gw_catalog g) p"
    and "\<not> is_dir (gw_catalog g) name"
  shows "gw_ok env (invalidate_cache name (g\<lparr>gw_catalog := cat_insert name m (gw_catalog g)\<rparr>))"
proof -
  have tree: "tree_ok (gw_catalog g)" and cache: "cache_ok env g" using assms(1) by (auto simp: gw_ok_def)
  have "tree_ok (cat_insert name m (gw_catalog g))" using tree assms(2-4) by (intro tree_insert) auto
  moreover have "cache_ok env (invalidate_cache name (g\<lparr>gw_catalog := cat_insert name m (gw_catalog g)\<rparr>))"
    by (rule cache_ok_transfer[OF cache])
      (auto simp: invalidate_cache_def cat_ok_get[OF tree] split: if_splits)
  ultimately show ?thesis by (simp add: gw_ok_def invalidate_cache_def)
qed

lemma gw_ok_remove:
  assumes "gw_ok env g" and "remove_entry name (gw_catalog g) = Inr (m, cat')"
  shows "gw_ok env (invalidate_cache name (g\<lparr>gw_catalog := cat'\<rparr>))"
proof -
  have tree: "tree_ok (gw_catalog g)" and cache: "cache_ok env g" using assms(1) by (auto simp: gw_ok_def)
  have cat': "cat' = snd (cat_remove name (gw_catalog g))"
    using assms(2) by (auto simp: remove_entry_def rbind_eq_Inr split: option.splits if_splits)
  have "cache_ok env (invalidate_cache name (g\<lparr>gw_catalog := cat'\<rparr>))"
    unfolding cat' by (rule cache_ok_transfer[OF cache])
      (auto simp: invalidate_cache_def cat_ok_get[OF tree] split: if_splits)
  with remove_entry_tree[OF tree assms(2)] show ?thesis by (simp add: gw_ok_def invalidate_cache_def)
qed

lemma gw_ok_mkdir:
  assumes "gw_ok env g" and "mkdir path (gw_catalog g) = Inr (oid, cat')"
  shows "gw_ok env (g\<lparr>gw_catalog := cat'\<rparr>)"
proof -
  have tree: "tree_ok (gw_catalog g)" and cache: "cache_ok env g" using assms(1) by (auto simp: gw_ok_def)
  note m = mkdir_tree[OF tree assms(2)]
  have "cache_ok env (g\<lparr>gw_catalog := cat'\<rparr>)"
    by (rule cache_ok_transfer[OF cache]) (use m in \<open>auto simp: cat_ok_get[OF tree]\<close>)
  with m(1) show ?thesis by (simp add: gw_ok_def)
qed

lemma gw_ok_rmdir:
  assumes "gw_ok env g" and "rmdir path (gw_catalog g) = Inr (oid, cat')"
  shows "gw_ok env (g\<lparr>gw_catalog := cat'\<rparr>)"
proof -
  have tree: "tree_ok (gw_catalog g)" and cache: "cache_ok env g" using assms(1) by (auto simp: gw_ok_def)
  note m = rmdir_tree[OF tree assms(2)]
  have "cache_ok env (g\<lparr>gw_catalog := cat'\<rparr>)"
    by (rule cache_ok_transfer[OF cache]) (use m(2,3) in \<open>auto simp: cat_ok_get[OF tree] is_dir_def\<close>)
  with m(1) show ?thesis by (simp add: gw_ok_def)
qed

text \<open>\<open>rename\<close> drops the cached files of the old path only; the invariant needs that none is cached below it.\<close>

lemma gw_ok_rename:
  assumes "gw_ok env g" and "rename old new (gw_catalog g) = Inr (n, cat')" and "old \<noteq> new"
    and "\<forall>k l. starts_with (old @ [slash]) k \<longrightarrow> gw_cache g (k, l) = None"
  shows "gw_ok env (invalidate_cache old (g\<lparr>gw_catalog := cat'\<rparr>))"
proof -
  have tree: "tree_ok (gw_catalog g)" and cache: "cache_ok env g" using assms(1) by (auto simp: gw_ok_def)
  obtain entry where e: "\<not> in_subtree old new" "cat_get (gw_catalog g) old = Some entry" "cat_get (gw_catalog g) new = None"
    by (rule rename_moves[OF tree assms(2,3)])
  note spec = rename_spec(2)[OF tree assms(2,3)] and dis = rename_disjoint(1)[OF tree e(2,3,1)]
  have "cache_ok env (invalidate_cache old (g\<lparr>gw_catalog := cat'\<rparr>))"
  proof (rule cache_ok_transfer[OF cache])
    fix k l f m
    assume k: "gw_cache (invalidate_cache old (g\<lparr>gw_catalog := cat'\<rparr>)) (k, l) = Some f"
      "cat_get (gw_catalog g) k = Some m"
    then have "\<not> in_subtree old k" using assms(4) by (auto simp: invalidate_cache_def in_subtree_def split: if_splits)
    moreover have "\<not> in_subtree new k" using dis[of k] k(2) by auto
    ultimately show "cat_get (gw_catalog (invalidate_cache old (g\<lparr>gw_catalog := cat'\<rparr>))) k = Some m"
      using spec[of k] k(2) by (simp add: invalidate_cache_def)
  qed (auto simp: invalidate_cache_def split: if_splits)
  with rename_tree[OF tree assms(2)] show ?thesis by (simp add: gw_ok_def invalidate_cache_def)
qed

section \<open>Every method keeps the invariant\<close>

lemma keeps_run:
  assumes "\<And>g w. Q g \<Longrightarrow> (case snd (m (g, w)) of (g', _) \<Rightarrow> Q g')"
  shows "keeps (\<lambda>(g, _). Q g) m"
  using assms by (auto simp: keeps_def)

lemma keeps_tail: "keeps (\<lambda>(g, _). Q g) m \<Longrightarrow> Q g \<Longrightarrow> case snd (m (g, w)) of (g', _) \<Rightarrow> Q g'"
  by (auto simp: keeps_def)

lemma keeps_persisted: "keeps (\<lambda>(g, _). gw_ok env g) (abind (persist_catalog env') (\<lambda>_. aret x))"
  by (intro keeps_intros)

lemma gw_mkdir_keeps: "keeps (\<lambda>(g, _). gw_ok env g) (gw_mkdir env' path)"
  by (rule keeps_run) (auto simp: gw_mkdir_def gw_run split: sum.split intro!: keeps_tail[OF keeps_persisted] gw_ok_mkdir)

lemma gw_rmdir_keeps: "keeps (\<lambda>(g, _). gw_ok env g) (gw_rmdir env' path)"
  by (rule keeps_run) (auto simp: gw_rmdir_def gw_run split: sum.split intro!: keeps_tail[OF keeps_persisted] gw_ok_rmdir)

lemma gw_rename_keeps:
  assumes "gw_ok env g" and "\<forall>k l. starts_with (old @ [slash]) k \<longrightarrow> gw_cache g (k, l) = None"
    and "gw_rename env' old new (g, w) = (r, (g', w'))"
  shows "gw_ok env g'"
proof -
  have "case snd (gw_rename env' old new (g, w)) of (g', _) \<Rightarrow> gw_ok env g'"
    using assms(1,2) by (auto simp: gw_rename_def gw_run split: sum.split intro!: keeps_tail[OF keeps_persisted] gw_ok_rename)
  then show ?thesis by (simp add: assms(3))
qed

lemma remove_object_keeps: "keeps (\<lambda>(g, _). gw_ok env g) (remove_object env' name)"
proof (rule keeps_run)
  fix g :: gateway and w :: 'a assume ok: "gw_ok env g"
  show "case snd (remove_object env' name (g, w)) of (g', _) \<Rightarrow> gw_ok env g'"
  proof -
    have tail: "keeps (\<lambda>(g, _). gw_ok env g) (abind (persist_catalog env') (\<lambda>_. abind
        (amap_err (\<lambda>e. Decode (PartialPurge e)) (on_net (purge_object (ev_call env') m live))) (\<lambda>_. aret x)))" for m live x
      by (intro keeps_intros)
    show ?thesis
      using ok by (auto simp: remove_object_def gw_run split: sum.split intro!: keeps_tail[OF tail] gw_ok_remove)
  qed
qed

lemma prev_run: "\<exists>r1 w1. purge_previous env prev live (g, w) = (r1, (g, w1))"
  by (auto simp: purge_previous_def abind_aok_on_net split: option.split prod.split sum.split fault.split)

lemma ingest_keeps: "keeps (\<lambda>(g, _). gw_ok env g) (ingest_bytes env' name body)"
proof (rule keeps_run)
  fix g :: gateway and w :: 'a assume ok: "gw_ok env g"
  show "case snd (ingest_bytes env' name body (g, w)) of (g', _) \<Rightarrow> gw_ok env g'"
  proof (cases "ingest_check name body (gw_catalog g) :: (gateway_error, unit) res")
    case (Inl e)
    then show ?thesis using ok by (simp add: ingest_bytes_def gw_run)
  next
    case (Inr u)
    let ?pre = "purge_previous env' (cat_get (gw_catalog g) name) (effective_live g)"
    obtain r1 w1 where pre: "?pre (g, w) = (r1, (g, w1))"
      using prev_run[of env' "cat_get (gw_catalog g) name" "effective_live g" g w] by blast
    have ins: "gw_ok env (invalidate_cache name (g\<lparr>gw_catalog := cat_insert name m (gw_catalog g)\<rparr>))" for m
      using Inr ok by (intro gw_ok_insert) (auto simp: ingest_check_Inr)
    obtain r2 w2 where put: "put_any env' (gw_cluster g) name body (effective_live g) w1 = (r2, w2)" by force
    show ?thesis
      using ok by (auto simp: ingest_bytes_def gw_run Inr abind_def[of ?pre] pre put Let_def
          split: sum.split intro!: keeps_tail[OF keeps_persisted] ins)
  qed
qed

lemma toggle_keeps: "keeps (\<lambda>(g, _). gw_ok env g) (toggle_admin_kill idx)"
  by (rule keeps_run) (auto simp: toggle_admin_kill_def gw_run gw_ok_def cache_ok_def)

lemma get_or_decode_spec:
  assumes "gw_ok env g" and "cat_get (gw_catalog g) name = Some m" and "m_kind m = Image"
    and "(get_or_decode env name l :: (gateway \<times> 'w, gateway_error, _) act) (g, w) = (r, (g', w'))"
  shows "gw_ok env g' \<and> gw_catalog g' = gw_catalog g \<and> (\<forall>f. r = Inr (Some f) \<longrightarrow> decoded_from env m l f)"
proof (cases "gw_cache g (name, l)")
  case (Some f)
  then have "r = Inr (Some f)" "g' = g" using assms(4) by (auto simp: get_or_decode_def gw_run)
  moreover have "decoded_from env m l f" using assms(1,2) Some unfolding gw_ok_def cache_ok_def by fastforce
  ultimately show ?thesis using assms(1) by simp
next
  case None
  obtain r1 w1 where get: "get_object_up_to_layer (ev_call env) m (effective_live g) l w = (r1, w1)" by force
  show ?thesis
  proof (cases r1)
    case (Inl e)
    then have "g' = g \<and> (\<forall>f. r \<noteq> Inr (Some f))"
      using assms(2,4) get None by (cases e) (auto simp: get_or_decode_def gw_run)
    with assms(1) show ?thesis by auto
  next
    case (Inr cd)
    obtain channels n where cd: "cd = (channels, n)" by force
    show ?thesis
    proof (cases "encode_png env channels (m_width m) (m_height m) :: (gateway_error, _) res")
      case (Inl e)
      then have "g' = g \<and> (\<forall>f. r \<noteq> Inr (Some f))"
        using assms(2,4) get None Inr cd by (auto simp: get_or_decode_def gw_run)
      with assms(1) show ?thesis by auto
    next
      case png: (Inr png)
      let ?f = "\<lparr>cf_bytes = png, cf_max_layer = l, cf_downloaded = n\<rparr>"
      have r: "r = Inr (Some ?f)" "g' = g\<lparr>gw_cache := (gw_cache g)((name, l) \<mapsto> ?f)\<rparr>"
        using assms(2,4) get None Inr cd png by (auto simp: get_or_decode_def gw_run Let_def)
      have d: "decoded_from env m l ?f" using get Inr cd png by (auto simp: decoded_from_def)
      with assms(1-3) show ?thesis by (auto simp: r gw_ok_def cache_ok_def)
    qed
  qed
qed

lemma decode_keeps: "keeps (\<lambda>(g, _). gw_ok env g) (decode_object env name ml)"
proof (rule keeps_run)
  fix g :: gateway and w :: 'a assume ok: "gw_ok env g"
  show "case snd (decode_object env name ml (g, w)) of (g', _) \<Rightarrow> gw_ok env g'"
  proof (cases "cat_get (gw_catalog g) name")
    case None
    with ok show ?thesis by (simp add: decode_object_def gw_run)
  next
    case (Some m)
    show ?thesis
    proof (cases "m_kind m = Image")
      case True
      obtain r g' w' where d: "(get_or_decode env name (full_or m ml) :: (_, gateway_error, _) act) (g, w) = (r, (g', w'))"
        by (metis prod.exhaust)
      with get_or_decode_spec[OF ok Some True d] Some True show ?thesis
        by (auto simp: decode_object_def gw_run abind_def[of "get_or_decode env name (full_or m ml)"] split: sum.split option.split)
    next
      case False
      then show ?thesis using ok Some
        by (cases "m_kind m") (auto simp: decode_object_def gw_run split: sum.split prod.split)
    qed
  qed
qed

section \<open>Runs of the gateway\<close>

text \<open>
  One request, or a change of the world that is not the gateway's. A rename is a step of the relation only if no
  image below the old path is cached; without the guard the invariant fails (\<open>rename_serves_stale\<close>).
\<close>

inductive gw_step :: "'w env \<Rightarrow> gateway \<times> 'w \<Rightarrow> gateway \<times> 'w \<Rightarrow> bool" for env where
  gs_world: "gw_step env (g, w) (g, w')"
| gs_ingest: "ingest_bytes env name body s = (r, s') \<Longrightarrow> gw_step env s s'"
| gs_remove: "remove_object env name s = (r, s') \<Longrightarrow> gw_step env s s'"
| gs_mkdir: "gw_mkdir env path s = (r, s') \<Longrightarrow> gw_step env s s'"
| gs_rmdir: "gw_rmdir env path s = (r, s') \<Longrightarrow> gw_step env s s'"
| gs_rename: "\<forall>k l. starts_with (old @ [slash]) k \<longrightarrow> gw_cache g (k, l) = None \<Longrightarrow>
    gw_rename env old new (g, w) = (r, s') \<Longrightarrow> gw_step env (g, w) s'"
| gs_toggle: "toggle_admin_kill idx s = (r, s') \<Longrightarrow> gw_step env s s'"
| gs_decode: "decode_object env name ml s = (r, s') \<Longrightarrow> gw_step env s s'"

inductive gw_reachable :: "'w env \<Rightarrow> gateway \<times> 'w \<Rightarrow> bool" for env where
  gr_new: "tree_ok cat \<Longrightarrow> gw_reachable env (gateway_new cat live cl, w)"
| gr_persistent: "tree_ok cat \<Longrightarrow> gw_reachable env (gateway_new_persistent cat live cl file, w)"
| gr_step: "gw_reachable env s \<Longrightarrow> gw_step env s s' \<Longrightarrow> gw_reachable env s'"

lemma gw_step_ok:
  assumes "gw_step env s s'" and "gw_ok env (fst s)"
  shows "gw_ok env (fst s')"
  using assms
proof cases
  case (gs_rename old g new w r)
  then show ?thesis using assms(2) gw_rename_keeps[of env g old env new w r "fst s'" "snd s'"] by simp
qed (auto simp: split_beta dest!: keepsD[OF ingest_keeps] keepsD[OF remove_object_keeps] keepsD[OF gw_mkdir_keeps]
    keepsD[OF gw_rmdir_keeps] keepsD[OF toggle_keeps] keepsD[OF decode_keeps])

lemma gw_reachable_ok: "gw_reachable env s \<Longrightarrow> gw_ok env (fst s)"
proof (induction rule: gw_reachable.induct)
  case (gr_step s s')
  then show ?case by (blast intro: gw_step_ok)
qed (simp_all add: gw_ok_def cache_ok_def gateway_new_def gateway_new_persistent_def)

section \<open>Properties\<close>

text \<open>C23: a gateway never serves an image that is not the one in its catalog. In every state reached from start-up by
  any sequence of requests and any behaviour of the network, renames of directories with cached contents excepted,
  a successful read of an image returns the PNG of a decode of the manifest that the catalog holds under that name
  now, to the layer asked for, whether it came from the cache or not.\<close>

theorem gateway_serves_catalog:
  assumes "gw_reachable env (g, w)" and "cat_get (gw_catalog g) name = Some m" and "m_kind m = Image"
    and "decode_object env name ml (g, w) = (Inr d, s')"
  shows "do_max_layer d = Some (full_or m ml) \<and>
    (\<exists>live v channels v'. get_object_up_to_layer (ev_call env) m live (full_or m ml) v = (Inr (channels, do_downloaded d), v') \<and>
      encode_png env channels (m_width m) (m_height m) = (Inr (do_bytes d) :: (gateway_error, _) res))"
proof -
  have ok: "gw_ok env g" using gw_reachable_ok[OF assms(1)] by simp
  obtain r g' w' where gd: "(get_or_decode env name (full_or m ml) :: (_, gateway_error, _) act) (g, w) = (r, (g', w'))"
    by (metis prod.exhaust)
  have "\<exists>f. r = Inr (Some f) \<and> do_max_layer d = Some (cf_max_layer f) \<and> do_downloaded d = cf_downloaded f \<and> do_bytes d = cf_bytes f"
    using assms(2-4) gd
    by (auto simp: decode_object_def gw_run abind_def[of "get_or_decode env name (full_or m ml)"] split: sum.splits option.splits)
  then obtain f where f: "r = Inr (Some f)" "do_max_layer d = Some (cf_max_layer f)" "do_downloaded d = cf_downloaded f"
    "do_bytes d = cf_bytes f" by blast
  have "decoded_from env m (full_or m ml) f" using get_or_decode_spec[OF ok assms(2,3) gd] f(1) by blast
  then show ?thesis by (simp add: f decoded_from_def)
qed

section \<open>A small gateway\<close>

text \<open>Images without layers and with no rows, told apart by their width, which the encoder stands in for the file.\<close>

definition blank_image :: "u32 \<Rightarrow> manifest" where
  "blank_image w = (manifest_directory 1)\<lparr>m_kind := Image, m_channels := 3, m_width := w\<rparr>"

definition demo_env :: "unit env" where
  "demo_env = \<lparr>ev_call = echo [], ev_load = (\<lambda>_. None), ev_audio = (\<lambda>_. None),
     ev_png = (\<lambda>w h rgb. Some [ucast w]), ev_save = (\<lambda>bs w. (True, w))\<rparr>"

definition demo_cluster :: cluster_info where
  "demo_cluster = \<lparr>cl_addrs = [''n''], cl_zones = [0], cl_placement = Rendezvous, cl_width = 8, cl_height = 8\<rparr>"

lemma blank_image_fields [simp]: "m_kind (blank_image w) = Image" "m_channels (blank_image w) = 3" "m_nlayers (blank_image w) = 0"
  "m_width (blank_image w) = w" "m_height (blank_image w) = 0" "m_levels (blank_image w) = 0"
  by (simp_all add: blank_image_def manifest_directory_def)

lemma blank_image_read: "get_object_up_to_layer call (blank_image w) live l v = (Inr ([[], [], []], 0), v)"
proof -
  have "[0..<3] = [0, 1, 2 :: nat]" by (simp add: upt_rec)
  then show ?thesis
    by (simp add: get_object_up_to_layer_def read_channel_def abind_alift_run haar_inverse_def abind_def)
qed

lemma blank_image_png: "encode_png demo_env [[], [], []] w 0 = Inr [ucast w]"
proof -
  have "[0..<3] = [0, 1, 2 :: nat]" by (simp add: upt_rec)
  then show ?thesis by (simp add: encode_png_def to_rgb_def demo_env_def)
qed

definition image_file :: "u32 \<Rightarrow> cached_file" where
  "image_file w = \<lparr>cf_bytes = [ucast w], cf_max_layer = 0, cf_downloaded = 0\<rparr>"

definition image_reply :: "u32 \<Rightarrow> decoded_object" where
  "image_reply w = \<lparr>do_bytes = [ucast w], do_content_type = ''image/png'', do_kind = Image, do_max_layer = Some 0,
     do_downloaded = 0, do_sample_rate = None, do_channels = None, do_chunks_total = None, do_chunks_missing = None, do_filename = None\<rparr>"

lemma decode_fresh:
  assumes "cat_get (gw_catalog g) name = Some (blank_image w)" and "gw_cache g (name, 0) = None"
  shows "decode_object demo_env name None (g, u) = (Inr (image_reply w), (g\<lparr>gw_cache := (gw_cache g)((name, 0) \<mapsto> image_file w)\<rparr>, u))"
proof -
  have "(get_or_decode demo_env name 0 :: (_, gateway_error, _) act) (g, u) =
      (Inr (Some (image_file w)), (g\<lparr>gw_cache := (gw_cache g)((name, 0) \<mapsto> image_file w)\<rparr>, u))"
    by (simp add: get_or_decode_def gw_run assms blank_image_read blank_image_png image_file_def Let_def)
  then show ?thesis
    by (simp add: decode_object_def gw_run assms full_or_def image_reply_def image_file_def abind_def[of "get_or_decode demo_env name 0"])
qed

lemma decode_cached:
  assumes "cat_get (gw_catalog g) name = Some (blank_image w)" and "gw_cache g (name, 0) = Some (image_file w')"
  shows "decode_object demo_env name None (g, u) = (Inr (image_reply w'), (g, u))"
proof -
  have "(get_or_decode demo_env name 0 :: (_, gateway_error, _) act) (g, u) = (Inr (Some (image_file w')), (g, u))"
    by (simp add: get_or_decode_def gw_run assms)
  then show ?thesis
    by (simp add: decode_object_def gw_run assms full_or_def image_reply_def image_file_def abind_def[of "get_or_decode demo_env name 0"])
qed

theorem gateway_serves_catalog_witness:
  "\<exists>live v channels v'. get_object_up_to_layer (ev_call demo_env) (blank_image 5) live 0 v = (Inr (channels, 0), v') \<and>
     encode_png demo_env channels 5 0 = (Inr [5] :: (gateway_error, _) res)"
proof -
  let ?cat = "[(''a'', blank_image 5)]"
  have tree: "tree_ok ?cat" by (simp add: tree_ok_def om_ok_def cat_get_def om_get_def valid_ab parent_ab)
  have cat: "cat_get (gw_catalog (gateway_new ?cat [] demo_cluster)) ''a'' = Some (blank_image 5)"
    by (simp add: gateway_new_def cat_get_def om_get_def)
  have "gw_cache (gateway_new ?cat [] demo_cluster) (''a'', 0) = None" by (simp add: gateway_new_def)
  from gateway_serves_catalog[OF gr_new[OF tree] cat _ decode_fresh[OF cat this, where u = "()"]]
  show ?thesis by (simp add: image_reply_def full_or_def)
qed

section \<open>A stale image\<close>

definition stale0 :: catalog where
  "stale0 = [(''a'', dir_entry ''a''), (''a/x'', blank_image 1), (''y'', blank_image 2)]"

definition stale1 :: catalog where
  "stale1 = [(''b'', dir_entry ''a''), (''b/x'', blank_image 1), (''y'', blank_image 2)]"

definition stale2 :: catalog where "stale2 = (''a'', dir_entry ''a'') # stale1"

definition stale3 :: catalog where
  "stale3 = [(''a'', dir_entry ''a''), (''a/x'', blank_image 2), (''b'', dir_entry ''a''), (''b/x'', blank_image 1)]"

lemma valid_xy: "valid_path ''x''" "valid_path ''y''" "valid_path ''a/x''"
  by (simp_all add: valid_path_def good_segment_def MAX_SEGMENT_def plain_def)

lemma parent_xy: "parent ''y'' = None" "parent ''b'' = None" "parent ''a/x'' = Some ''a''"
proof -
  show "parent ''y'' = None" "parent ''b'' = None" by (simp_all add: parent_None plain_def)
  have "parent ''x'' = None" by (simp add: parent_None plain_def)
  with parent_append[of "''a''" "''x''"] show "parent ''a/x'' = Some ''a''" by simp
qed

lemma stale_get: "cat_get stale0 p = (if p = ''a'' then Some (dir_entry ''a'') else if p = ''a/x'' then Some (blank_image 1)
    else if p = ''y'' then Some (blank_image 2) else None)"
  "cat_get stale1 p = (if p = ''b'' then Some (dir_entry ''a'') else if p = ''b/x'' then Some (blank_image 1)
    else if p = ''y'' then Some (blank_image 2) else None)"
  "cat_get stale2 p = (if p = ''a'' then Some (dir_entry ''a'') else cat_get stale1 p)"
  by (simp_all add: stale0_def stale1_def stale2_def cat_get_def om_get_def)

lemma stale_rename1: "rename ''a'' ''b'' stale0 = (Inr (2, stale1) :: (gateway_error, _) res)"
proof -
  have v: "valid_arg ''a'' = (Inr () :: (gateway_error, _) res)" "valid_arg ''b'' = (Inr () :: (gateway_error, _) res)"
    by (simp_all add: valid_arg_Inr valid_ab)
  have c: "check_parent stale0 ''b'' = (Inr () :: (gateway_error, _) res)" by (simp add: check_parent_Inr parent_xy)
  have r: "range_from ''a/'' stale0 = [(''a/x'', blank_image 1), (''y'', blank_image 2)]" by (simp add: range_from_def stale0_def)
  show ?thesis
    by (simp add: rename_def v c r stale_get starts_with_def move_entry_def)
      (simp add: stale0_def stale1_def cat_remove_def cat_insert_def om_remove_def)
qed

lemma stale_mkdir: "mkdir ''a'' stale1 = (Inr (dir_object_id ''a'', stale2) :: (gateway_error, _) res)"
  by (simp add: mkdir_Inr valid_ab parent_ab stale_get dir_entry_def[symmetric])
    (simp add: stale2_def stale1_def cat_insert_def)

lemma stale_rename2: "rename ''y'' ''a/x'' stale2 = (Inr (1, stale3) :: (gateway_error, _) res)"
proof -
  have v: "valid_arg ''y'' = (Inr () :: (gateway_error, _) res)" "valid_arg ''a/x'' = (Inr () :: (gateway_error, _) res)"
    by (simp_all add: valid_arg_Inr valid_xy)
  have c: "check_parent stale2 ''a/x'' = (Inr () :: (gateway_error, _) res)"
    by (simp add: check_parent_Inr parent_xy is_dir_def stale_get)
  show ?thesis
    by (simp add: rename_def v c stale_get starts_with_def move_entry_def)
      (simp add: stale1_def stale2_def stale3_def cat_remove_def cat_insert_def om_remove_def)
qed

lemma gw_mkdir_run:
  "gw_disk g = None \<Longrightarrow> mkdir path (gw_catalog g) = Inr (oid, cat) \<Longrightarrow> gw_mkdir env path (g, w) = (Inr oid, (g\<lparr>gw_catalog := cat\<rparr>, w))"
  by (simp add: gw_mkdir_def gw_run) (simp add: abind_def persist_catalog_def)

lemma gw_rename_run:
  "gw_disk g = None \<Longrightarrow> old \<noteq> new \<Longrightarrow> rename old new (gw_catalog g) = Inr (n, cat) \<Longrightarrow>
     gw_rename env old new (g, w) = (Inr n, (invalidate_cache old (g\<lparr>gw_catalog := cat\<rparr>), w))"
  by (simp add: gw_rename_def gw_run) (simp add: abind_def persist_catalog_def invalidate_cache_def)

text \<open>C24: renaming a directory leaves the cached images of its contents under their old names. Read \<open>a/x\<close>, rename
  \<open>a\<close> to \<open>b\<close>, make a new directory \<open>a\<close>, rename another image to \<open>a/x\<close>: the gateway answers a read of \<open>a/x\<close> with the
  first image, although the catalog holds the second one there and every request succeeded.\<close>

theorem rename_serves_stale:
  "\<exists>g s1 s2 s3 s4. gw_reachable demo_env (g, ()) \<and>
     decode_object demo_env ''a/x'' None (g, ()) = (Inr (image_reply 1), s1) \<and>
     gw_rename demo_env ''a'' ''b'' s1 = (Inr 2, s2) \<and> gw_mkdir demo_env ''a'' s2 = (Inr (dir_object_id ''a''), s3) \<and>
     gw_rename demo_env ''y'' ''a/x'' s3 = (Inr 1, s4) \<and>
     cat_get (gw_catalog (fst s4)) ''a/x'' = Some (blank_image 2) \<and>
     fst (decode_object demo_env ''a/x'' None s4) = Inr (image_reply 1) \<and>
     fst (decode_object demo_env ''a/x'' None (gateway_new (gw_catalog (fst s4)) [] demo_cluster, ())) = Inr (image_reply 2) \<and>
     image_reply 1 \<noteq> image_reply 2"
proof -
  define g where "g = gateway_new stale0 [] demo_cluster"
  define g1 where "g1 = g\<lparr>gw_cache := (gw_cache g)((''a/x'', 0) \<mapsto> image_file 1)\<rparr>"
  define g2 where "g2 = invalidate_cache ''a'' (g1\<lparr>gw_catalog := stale1\<rparr>)"
  define g3 where "g3 = g2\<lparr>gw_catalog := stale2\<rparr>"
  define g4 where "g4 = invalidate_cache ''y'' (g3\<lparr>gw_catalog := stale3\<rparr>)"
  note gs = g_def g1_def g2_def g3_def g4_def gateway_new_def invalidate_cache_def
  have "tree_ok stale0"
    unfolding tree_ok_def by (simp add: stale_get is_dir_def valid_ab valid_xy parent_ab parent_xy) (simp add: stale0_def om_ok_def)
  then have r: "gw_reachable demo_env (g, ())" unfolding g_def by (rule gr_new)
  have d1: "decode_object demo_env ''a/x'' None (g, ()) = (Inr (image_reply 1), (g1, ()))"
    unfolding g1_def by (rule decode_fresh) (simp_all add: g_def gateway_new_def stale_get)
  have s2: "gw_rename demo_env ''a'' ''b'' (g1, ()) = (Inr 2, (g2, ()))"
    unfolding g2_def by (rule gw_rename_run) (simp_all add: gs stale_rename1)
  have s3: "gw_mkdir demo_env ''a'' (g2, ()) = (Inr (dir_object_id ''a''), (g3, ()))"
    unfolding g3_def by (rule gw_mkdir_run) (simp_all add: gs stale_mkdir)
  have s4: "gw_rename demo_env ''y'' ''a/x'' (g3, ()) = (Inr 1, (g4, ()))"
    unfolding g4_def by (rule gw_rename_run) (simp_all add: gs stale_rename2)
  have c: "gw_catalog g4 = stale3" "cat_get stale3 ''a/x'' = Some (blank_image 2)"
    by (simp_all add: gs) (simp add: stale3_def cat_get_def om_get_def)
  have "decode_object demo_env ''a/x'' None (g4, ()) = (Inr (image_reply 1), (g4, ()))"
    by (rule decode_cached) (simp_all add: c, simp add: gs)
  moreover have "fst (decode_object demo_env ''a/x'' None (gateway_new stale3 [] demo_cluster, ())) = Inr (image_reply 2)"
    by (subst decode_fresh) (simp_all add: gateway_new_def c)
  moreover have "image_reply 1 \<noteq> image_reply 2" by (simp add: image_reply_def)
  ultimately show ?thesis using r d1 s2 s3 s4 c
    by (intro exI[of _ g] exI[of _ "(g1, ())"] exI[of _ "(g2, ())"] exI[of _ "(g3, ())"] exI[of _ "(g4, ())"]) simp
qed

end
