(* ===== verification/Cluster.thy ===== *)
theory Cluster
  imports Store Gateway
begin

text \<open>
  The gateway, the client and the nodes together. The world of the network is a map from addresses to node
  stores, and a request to an address runs \<open>handle_request\<close> of that node; an address without a node
  refuses the connection. (Requests and responses cross the wire unchanged: \<open>wire_roundtrip\<close> and
  \<open>connection_serves\<close>.) Nodes here always manage to write.

  Shown: what is stored through a gateway on a healthy cluster is read back; and what goes wrong when two
  names have the same content.
\<close>

section \<open>A cluster of nodes\<close>

type_synonym cluster = "string \<rightharpoonup> store"

definition cluster_call :: "(bytes \<Rightarrow> bytes) \<Rightarrow> cluster call" where
  "cluster_call sign addr req w = (case w addr of
     None \<Rightarrow> (Inl (Err ConnectionRefused), w)
   | Some st \<Rightarrow> (case handle_request sign True req st of (resp, st') \<Rightarrow> (Inr resp, w(addr \<mapsto> st'))))"

definition stored :: "cluster \<Rightarrow> string \<Rightarrow> shard_key3 \<Rightarrow> bytes \<Rightarrow> shard option" where
  "stored w a k h = (case w a of None \<Rightarrow> None | Some st \<Rightarrow> abs_store st k h)"

definition cluster_ok :: "cluster \<Rightarrow> bool" where
  "cluster_ok w \<longleftrightarrow> (\<forall>a st. w a = Some st \<longrightarrow> store_ok st)"

definition serves :: "cluster \<Rightarrow> string list \<Rightarrow> nat list \<Rightarrow> bool" where
  "serves w nodes live \<longleftrightarrow> cluster_ok w \<and> (\<forall>n \<in> set live. n < length nodes \<and> w (nodes ! n) \<noteq> None)"

lemma stored_hash: "cluster_ok w \<Longrightarrow> stored w a k h = Some t \<Longrightarrow> shard_hash t = h"
  by (auto simp: stored_def cluster_ok_def in_store_abs[symmetric] dest: store_okD split: option.splits)

lemma call_spec:
  assumes "cluster_ok w" and "w a = Some st"
  obtains resp st' where "cluster_call sign a req w = (Inr resp, w(a \<mapsto> st'))"
    and "node_spec sign True req (abs_store st) resp (abs_store st')" and "cluster_ok (w(a \<mapsto> st'))"
proof -
  obtain resp st' where h: "handle_request sign True req st = (resp, st')" by force
  have ok: "store_ok st" using assms by (auto simp: cluster_ok_def)
  note spec = handle_request_spec[OF ok h]
  have "cluster_call sign a req w = (Inr resp, w(a \<mapsto> st'))" using assms h by (simp add: cluster_call_def)
  moreover have "cluster_ok (w(a \<mapsto> st'))" using assms(1) spec by (auto simp: cluster_ok_def)
  ultimately show thesis using spec that by simp
qed

text \<open>How a call changes what is stored: a put adds under a free hash, a get changes nothing, a purge clears.\<close>

lemma call_put:
  assumes "cluster_ok w" and "w a \<noteq> None"
  obtains w' where "cluster_call sign a (Put oid c l s) w = (Inr Ack, w')" and "cluster_ok w'" and "dom w' = dom w"
    and "stored w' a (SKey oid c l) (shard_hash s) \<noteq> None"
    and "\<And>b k h t. stored w b k h = Some t \<Longrightarrow> stored w' b k h = Some t"
    and "\<And>b k h t. stored w' b k h = Some t \<Longrightarrow> stored w b k h = Some t \<or> t = s"
proof -
  obtain st where st: "w a = Some st" using assms(2) by blast
  obtain resp st' where r: "cluster_call sign a (Put oid c l s) w = (Inr resp, w(a \<mapsto> st'))"
    "node_spec sign True (Put oid c l s) (abs_store st) resp (abs_store st')" "cluster_ok (w(a \<mapsto> st'))"
    by (rule call_spec[OF assms(1) st])
  then have resp: "resp = Ack" and abs: "abs_store st' = (if abs_store st (SKey oid c l) (shard_hash s) = None
      then (abs_store st)(SKey oid c l := (abs_store st (SKey oid c l))(shard_hash s \<mapsto> s)) else abs_store st)"
    by (auto simp: node_spec_def)
  show thesis
    by (rule that[of "w(a \<mapsto> st')"]) (use r resp st in \<open>auto simp: stored_def abs split: if_splits\<close>)
qed

lemma call_get:
  assumes "cluster_ok w" and "w a \<noteq> None"
  obtains ss where "cluster_call sign a (Get oid c l) w = (Inr (Shards ss), w)"
    and "\<And>s. s \<in> set ss \<longleftrightarrow> stored w a (SKey oid c l) (shard_hash s) = Some s"
proof -
  obtain st where st: "w a = Some st" using assms(2) by blast
  have ok: "store_ok st" using assms(1) st by (auto simp: cluster_ok_def)
  have h: "handle_request sign True (Get oid c l) st = (Shards (store_get (SKey oid c l) st), st)"
    by (simp add: handle_request_def)
  have "w(a \<mapsto> st) = w" using st by auto
  then have "cluster_call sign a (Get oid c l) w = (Inr (Shards (store_get (SKey oid c l) st)), w)"
    using st h by (simp add: cluster_call_def)
  with handle_request_spec[OF ok h] st that show thesis by (auto simp: node_spec_def stored_def)
qed

lemma call_purge:
  assumes "cluster_ok w" and "w a \<noteq> None"
  obtains w' where "cluster_call sign a (Purge oid) w = (Inr Ack, w')" and "cluster_ok w'" and "dom w' = dom w"
    and "\<And>b k h. stored w' b k h = (if b = a \<and> key_object k = oid then None else stored w b k h)"
proof -
  obtain st where st: "w a = Some st" using assms(2) by blast
  obtain resp st' where r: "cluster_call sign a (Purge oid) w = (Inr resp, w(a \<mapsto> st'))"
    "node_spec sign True (Purge oid) (abs_store st) resp (abs_store st')" "cluster_ok (w(a \<mapsto> st'))"
    by (rule call_spec[OF assms(1) st])
  then have "resp = Ack" "abs_store st' = (\<lambda>k. if key_object k = oid then Map.empty else abs_store st k)"
    by (auto simp: node_spec_def)
  with r st show thesis
    by (intro that[of "w(a \<mapsto> st')"]) (auto simp: stored_def)
qed

section \<open>Storing on the nodes\<close>

lemma rpc_ok: "call a req w = (Inr r, w') \<Longrightarrow> rpc call a req w = (Inr r, w')"
  by (simp add: rpc_def map_err_def)

lemma send_shard_cluster:
  assumes "serves w (m_nodes m) live" and "live \<noteq> []" and "m_placement m = Rendezvous"
  obtains w' n where "send_shard (cluster_call sign) live c l idx s (m, w) = (Inr (), (m, w'))" and "n \<in> set live"
    and "serves w' (m_nodes m) live" and "stored w' (m_nodes m ! n) (SKey (m_object_id m) c l) (shard_hash s) \<noteq> None"
    and "\<And>b k h t. stored w b k h = Some t \<Longrightarrow> stored w' b k h = Some t"
    and "\<And>b k h t. stored w' b k h = Some t \<Longrightarrow> stored w b k h = Some t \<or> t = s"
proof -
  let ?key = "\<lparr>sk_object_id = m_object_id m, sk_channel = c, sk_layer = l, sk_shard_idx = word_of_nat idx\<rparr>"
  define n where "n = hrw_node ?key live"
  have place: "place_shard m c l (word_of_nat idx) live = (Inr n :: (client_error, nat) res)"
    using assms(2,3) by (simp add: place_shard_def place_def rassert_def n_def)
  have n: "n \<in> set live" unfolding n_def by (rule hrw.choose_mem[OF assms(2)])
  then have a: "n < length (m_nodes m)" "w (m_nodes m ! n) \<noteq> None" "cluster_ok w" using assms(1) by (auto simp: serves_def)
  obtain w' where w': "cluster_call sign (m_nodes m ! n) (Put (m_object_id m) c l s) w = (Inr Ack, w')" "cluster_ok w'"
    "dom w' = dom w" "stored w' (m_nodes m ! n) (SKey (m_object_id m) c l) (shard_hash s) \<noteq> None"
    "\<And>b k h t. stored w b k h = Some t \<Longrightarrow> stored w' b k h = Some t"
    "\<And>b k h t. stored w' b k h = Some t \<Longrightarrow> stored w b k h = Some t \<or> t = s"
    by (rule call_put[OF a(3,2)]) blast
  have "send_shard (cluster_call sign) live c l idx s (m, w) = (Inr (), (m, w'))"
    using place a(1) rpc_ok[of "cluster_call sign", OF w'(1)]
    by (simp add: send_shard_def manifest_run expect_ack_def on_world_run)
  moreover have "serves w' (m_nodes m) live" using assms(1) w'(2,3) by (auto simp: serves_def domIff[symmetric] simp del: domIff)
  ultimately show thesis using that n w'(4-) by blast
qed

text \<open>\<open>grown w A w'\<close>: nothing was lost, and what is new are shards of \<open>A\<close>.\<close>

definition grown :: "cluster \<Rightarrow> shard set \<Rightarrow> cluster \<Rightarrow> bool" where
  "grown w A w' \<longleftrightarrow> (\<forall>a k h t. stored w a k h = Some t \<longrightarrow> stored w' a k h = Some t) \<and>
     (\<forall>a k h t. stored w' a k h = Some t \<longrightarrow> stored w a k h = Some t \<or> t \<in> A)"

lemma grown_refl [simp]: "grown w A w"
  by (simp add: grown_def)

lemma grown_trans: "grown w A w' \<Longrightarrow> grown w' B w'' \<Longrightarrow> grown w (A \<union> B) w''"
  unfolding grown_def by blast

definition holds :: "cluster \<Rightarrow> manifest \<Rightarrow> nat list \<Rightarrow> shard set \<Rightarrow> bool" where
  "holds w m live A \<longleftrightarrow> (\<forall>s \<in> A. \<exists>n \<in> set live. stored w (m_nodes m ! n) (SKey (m_object_id m) 0 0) (shard_hash s) \<noteq> None)"

lemma send_loop_cluster:
  assumes "serves w (m_nodes m) live" and "live \<noteq> []" and "m_placement m = Rendezvous"
  shows "\<exists>w'. afold (send_step (cluster_call sign) live) hs (zip [i..<i + length ss] ss) (m, w) =
      (Inr (hs @ map shard_hash ss), (m, w')) \<and> serves w' (m_nodes m) live \<and> grown w (set ss) w' \<and> holds w' m live (set ss)"
  using assms(1)
proof (induction ss arbitrary: hs i w)
  case (Cons s ss)
  define zs where "zs = zip [Suc i..<Suc i + length ss] ss"
  have z: "zip [i..<i + length (s # ss)] (s # ss) = (i, s) # zs"
    by (simp add: zs_def upt_conv_Cons del: upt_Suc)
  obtain w1 n where s1: "send_shard (cluster_call sign) live 0 0 i s (m, w) = (Inr (), (m, w1))" "n \<in> set live"
    "serves w1 (m_nodes m) live" "stored w1 (m_nodes m ! n) (SKey (m_object_id m) 0 0) (shard_hash s) \<noteq> None"
    "grown w {s} w1"
    by (rule send_shard_cluster[OF Cons.prems assms(2,3), of sign 0 0 i s]) (auto simp: grown_def)
  obtain w2 where w2: "afold (send_step (cluster_call sign) live) (hs @ [shard_hash s]) zs (m, w1) =
      (Inr ((hs @ [shard_hash s]) @ map shard_hash ss), (m, w2))" "serves w2 (m_nodes m) live" "grown w1 (set ss) w2"
    "holds w2 m live (set ss)" using Cons.IH[OF s1(3), of "hs @ [shard_hash s]" "Suc i"] unfolding zs_def by blast
  have "afold (send_step (cluster_call sign) live) hs ((i, s) # zs) (m, w) = (Inr (hs @ map shard_hash (s # ss)), (m, w2))"
    using w2(1) by (simp add: abind_def send_step_run s1(1))
  moreover have "holds w2 m live (set (s # ss))"
  proof -
    obtain t where "stored w1 (m_nodes m ! n) (SKey (m_object_id m) 0 0) (shard_hash s) = Some t" using s1(4) by blast
    then have "stored w2 (m_nodes m ! n) (SKey (m_object_id m) 0 0) (shard_hash s) = Some t"
      using w2(3) unfolding grown_def by blast
    with s1(2) w2(4) show ?thesis by (auto simp: holds_def)
  qed
  moreover have "grown w (set (s # ss)) w2" using grown_trans[OF s1(5) w2(3)] by simp
  ultimately show ?case using w2(2) unfolding z by blast
qed (simp add: holds_def)

lemma send_all_cluster:
  assumes "serves w (m_nodes m) live" and "live \<noteq> []" and "m_placement m = Rendezvous"
  obtains w' where "send_all (cluster_call sign) live ss (m, w) =
      (Inr (), (m\<lparr>m_shard_hashes := [[map shard_hash ss]], m_merkle_root := merkle_root (map shard_hash ss)\<rparr>, w'))"
    and "serves w' (m_nodes m) live" and "grown w (set ss) w'" and "holds w' m live (set ss)"
proof -
  obtain w' where w': "afold (send_step (cluster_call sign) live) [] (zip [0..<0 + length ss] ss) (m, w) =
      (Inr ([] @ map shard_hash ss), (m, w'))" "serves w' (m_nodes m) live" "grown w (set ss) w'" "holds w' m live (set ss)"
    using send_loop_cluster[OF assms, of sign "[]" 0 ss] by blast
  then show thesis by (intro that[of w']) (simp_all add: send_all_def abind_def on_manifest_run)
qed

section \<open>Gathering from the nodes\<close>

lemma gather_cluster:
  assumes "serves w (m_nodes m) live"
  shows "\<exists>raw. gather_layer (cluster_call sign) m live c l w = (Inr raw, w) \<and>
     set raw = {s. \<exists>n \<in> set live. stored w (m_nodes m ! n) (SKey (m_object_id m) c l) (shard_hash s) = Some s}"
proof -
  have ok: "cluster_ok w" using assms by (simp add: serves_def)
  have "\<exists>raw. afold (gather_step (cluster_call sign) m c l) acc ns w = (Inr (acc @ raw), w) \<and>
     set raw = {s. \<exists>n \<in> set ns. stored w (m_nodes m ! n) (SKey (m_object_id m) c l) (shard_hash s) = Some s}"
    if "set ns \<subseteq> set live" for acc ns
    using that
  proof (induction ns arbitrary: acc)
    case (Cons n ns)
    then have n: "n < length (m_nodes m)" "w (m_nodes m ! n) \<noteq> None" using assms by (auto simp: serves_def)
    obtain ss where ss: "cluster_call sign (m_nodes m ! n) (Get (m_object_id m) c l) w = (Inr (Shards ss), w)"
      "\<And>s. s \<in> set ss \<longleftrightarrow> stored w (m_nodes m ! n) (SKey (m_object_id m) c l) (shard_hash s) = Some s"
      by (rule call_get[OF ok n(2), of sign "m_object_id m" c l]) blast
    have step: "gather_step (cluster_call sign) m c l acc n w = (Inr (acc @ ss), w)"
      using n(1) by (simp add: gather_step_def abind_step[where m = "rpc (cluster_call sign) a r" for a r, OF rpc_ok[of "cluster_call sign", OF ss(1)]] expect_shards_def)
    obtain raw where "afold (gather_step (cluster_call sign) m c l) (acc @ ss) ns w = (Inr ((acc @ ss) @ raw), w)"
      "set raw = {s. \<exists>n \<in> set ns. stored w (m_nodes m ! n) (SKey (m_object_id m) c l) (shard_hash s) = Some s}"
      using Cons.IH[of "acc @ ss"] Cons.prems by auto
    then show ?case using ss(2)
      by (intro exI[of _ "ss @ raw"]) (auto simp: abind_step[where m = "gather_step (cluster_call sign) m c l acc n", OF step])
  qed simp
  from this[of live "[]"] show ?thesis by (simp add: gather_layer_def)
qed

section \<open>Purging the nodes\<close>

lemma purge_cluster:
  assumes "serves w (m_nodes m) live"
  obtains w' where "purge_object (cluster_call sign) m live w = (Inr (), w')" and "serves w' (m_nodes m) live"
    and "dom w' = dom w"
    and "\<And>a k h. stored w' a k h = (if a \<in> (!) (m_nodes m) ` set live \<and> key_object k = m_object_id m then None else stored w a k h)"
proof -
  have "\<exists>w'. afold (purge_step (cluster_call sign) m) () ns w = (Inr (), w') \<and> cluster_ok w' \<and> dom w' = dom w \<and>
     (\<forall>a k h. stored w' a k h = (if a \<in> (!) (m_nodes m) ` set ns \<and> key_object k = m_object_id m then None else stored w a k h))"
    if "set ns \<subseteq> set live" and "cluster_ok w" and "\<forall>n \<in> set live. n < length (m_nodes m) \<and> w (m_nodes m ! n) \<noteq> None" for ns w
    using that
  proof (induction ns arbitrary: w)
    case (Cons n ns)
    then have n: "n < length (m_nodes m)" "w (m_nodes m ! n) \<noteq> None" by auto
    obtain w1 where w1: "cluster_call sign (m_nodes m ! n) (Purge (m_object_id m)) w = (Inr Ack, w1)" "cluster_ok w1" "dom w1 = dom w"
      "\<And>b k h. stored w1 b k h = (if b = m_nodes m ! n \<and> key_object k = m_object_id m then None else stored w b k h)"
      by (rule call_purge[OF Cons.prems(2) n(2)]) blast
    have "\<forall>n \<in> set live. n < length (m_nodes m) \<and> w1 (m_nodes m ! n) \<noteq> None"
      using Cons.prems(3) w1(3) by (auto simp: domIff[symmetric] simp del: domIff)
    then obtain w2 where w2: "afold (purge_step (cluster_call sign) m) () ns w1 = (Inr (), w2)" "cluster_ok w2" "dom w2 = dom w1"
      "\<forall>a k h. stored w2 a k h = (if a \<in> (!) (m_nodes m) ` set ns \<and> key_object k = m_object_id m then None else stored w1 a k h)"
      using Cons.IH[of w1] Cons.prems(1) w1(2) by auto
    have "purge_step (cluster_call sign) m () n w = (Inr (), w1)"
      using n(1) by (simp add: purge_step_def abind_step[where m = "rpc (cluster_call sign) a r" for a r, OF rpc_ok[of "cluster_call sign", OF w1(1)]] expect_ack_def)
    then show ?case using w2 w1 by (intro exI[of _ w2]) (auto simp: abind_step)
  qed simp
  from this[of live w] assms obtain w' where w': "afold (purge_step (cluster_call sign) m) () live w = (Inr (), w')" "cluster_ok w'" "dom w' = dom w"
    "\<forall>a k h. stored w' a k h = (if a \<in> (!) (m_nodes m) ` set live \<and> key_object k = m_object_id m then None else stored w a k h)"
    by (auto simp: serves_def)
  then show thesis using assms
    by (intro that[of w']) (auto simp: purge_object_def serves_def domIff[symmetric] simp del: domIff)
qed

section \<open>Storing an opaque object\<close>

definition set_opaque :: "bytes \<Rightarrow> manifest \<Rightarrow> manifest" where
  "set_opaque data m = set_cid (opaque_cid data (m_content_type m))
     (m\<lparr>m_sym_len := [word_of_nat (symbol_len_of K (length data))], m_chunk_lens := [word_of_nat (length data)]\<rparr>)"

lemma set_opaque_fields [simp]: "m_nodes (set_opaque data m) = m_nodes m" "m_placement (set_opaque data m) = m_placement m"
  "m_kind (set_opaque data m) = m_kind m" "m_n_per_layer (set_opaque data m) = m_n_per_layer m"
  by (simp_all add: set_opaque_def set_cid_def)

lemma put_opaque_run:
  assumes "m_kind m = Opaque" and "m_channels m = 1" and "m_nlayers m = 1" and "unat (m_k m) = K" and "m_n_per_layer m \<noteq> []"
  shows "put_opaque_object call live data (m, w) = send_all call live (opaque_shards m data) (set_opaque data m, w)"
proof -
  let ?seed = "cid_seed (opaque_cid data (m_content_type m))" and ?n = "unat (m_n_per_layer m ! 0)"
  obtain sl ss rng' where e: "encode_layer gf_new data ?n ?seed = ((sl, ss), rng')" by (metis prod.exhaust)
  then have "encode_layer_with_k gf_new data K ?n ?seed = Inr ((sl, ss), rng')" by (simp add: encode_layer_is_with_k)
  from encode_with_k_props(2)[OF this] have sl: "sl = symbol_len_of K (length data)" .
  have "K \<noteq> 0" by (simp add: K_def)
  then show ?thesis using assms e sl
    by (simp add: put_opaque_object_def abind_manifest abind_alift_run abind_on_manifest Let_def opaque_shards_def set_opaque_def set_cid_def)
qed

definition collides :: "cluster \<Rightarrow> shard set \<Rightarrow> bool" where
  "collides w A \<longleftrightarrow> (\<exists>s t. t \<in> A \<and> s \<noteq> t \<and> shard_hash s = shard_hash t \<and> (s \<in> A \<or> (\<exists>a k h. stored w a k h = Some s)))"

lemma collides_grown: "grown w A w' \<Longrightarrow> collides w' A \<Longrightarrow> collides w A"
  unfolding grown_def collides_def by blast

text \<open>A read looks at the network only through the gathered shards.\<close>

lemma get_opaque_frozen:
  assumes "gather_layer call m live 0 0 w = (Inr raw, w')" and "gather_layer call' m live 0 0 w = (Inr raw, w')"
  shows "get_opaque_object call m live w = get_opaque_object call' m live w"
  unfolding get_opaque_object_def
  by (cases "m_kind m = Opaque")
    (simp_all add: abind_step[where m = "gather_layer call m live 0 0", OF assms(1)]
      abind_step[where m = "gather_layer call' m live 0 0", OF assms(2)])

definition frozen :: "(bytes \<Rightarrow> bytes) \<Rightarrow> cluster \<Rightarrow> cluster call" where
  "frozen sign w addr req v = (fst (cluster_call sign addr req w), v)"

lemma frozen_safe:
  assumes "cluster_ok w" and "\<not> collides w A"
  shows "safe (frozen sign w) A"
  unfolding safe_def
proof (intro allI impI ballI)
  fix addr oid c l and u v w' s t
  assume call: "frozen sign w addr (Get oid c l) u = (Inr (Shards v), w')" and s: "s \<in> set v" and t: "t \<in> A" "shard_hash s = shard_hash t"
  from call have "w addr \<noteq> None" by (auto simp: frozen_def cluster_call_def split: option.splits)
  then obtain ss where ss: "cluster_call sign addr (Get oid c l) w = (Inr (Shards ss), w)"
    "\<And>s. s \<in> set ss \<longleftrightarrow> stored w addr (SKey oid c l) (shard_hash s) = Some s"
    by (rule call_get[OF assms(1), of addr sign oid c l]) blast
  then have "stored w addr (SKey oid c l) (shard_hash s) = Some s" using call s by (simp add: frozen_def)
  with assms(2) t show "s = t" unfolding collides_def by blast
qed

lemma gather_frozen:
  assumes "serves w (m_nodes m) live"
  shows "gather_layer (frozen sign w) m live c l w = gather_layer (cluster_call sign) m live c l w"
proof -
  have ok: "cluster_ok w" using assms by (simp add: serves_def)
  have "afold (gather_step (frozen sign w) m c l) acc ns w = afold (gather_step (cluster_call sign) m c l) acc ns w"
    if "set ns \<subseteq> set live" for acc ns
    using that
  proof (induction ns arbitrary: acc)
    case (Cons n ns)
    then have n: "n < length (m_nodes m)" "w (m_nodes m ! n) \<noteq> None" using assms by (auto simp: serves_def)
    obtain ss where ss: "cluster_call sign (m_nodes m ! n) (Get (m_object_id m) c l) w = (Inr (Shards ss), w)"
      by (rule call_get[OF ok n(2), of sign "m_object_id m" c l]) blast
    then have fr: "frozen sign w (m_nodes m ! n) (Get (m_object_id m) c l) w = (Inr (Shards ss), w)" by (simp add: frozen_def)
    have step: "gather_step call m c l acc n w = (Inr (acc @ ss), w)"
      if "call (m_nodes m ! n) (Get (m_object_id m) c l) w = (Inr (Shards ss), w)" for call :: "cluster call"
      using n(1) by (simp add: gather_step_def abind_step[where m = "rpc call a r" for a r, OF rpc_ok[of call, OF that]] expect_shards_def)
    show ?case using Cons.IH[of "acc @ ss"] Cons.prems
      by (simp add: abind_step[where m = "gather_step (cluster_call sign) m c l acc n", OF step[of "cluster_call sign", OF ss]]
          abind_step[where m = "gather_step (frozen sign w) m c l acc n", OF step[of "frozen sign w", OF fr]])
  qed simp
  then show ?thesis by (simp add: gather_layer_def)
qed

lemma put_get_cluster:
  assumes m: "m_kind m = Opaque" "m_channels m = 1" "m_nlayers m = 1" "unat (m_k m) = K" "m_n_per_layer m = [n]" "K \<le> unat n"
    and net: "serves w (m_nodes m) live" "live \<noteq> []" "m_placement m = Rendezvous"
    and data: "data \<noteq> []" "length data < 2 ^ 32"
  obtains m' w' where "put_opaque_object (cluster_call sign) live data (m, w) = (Inr (), (m', w'))"
    and "serves w' (m_nodes m) live" and "m_nodes m' = m_nodes m" and "m_object_id m' = m_object_id (set_opaque data m)"
    and "m_kind m' = Opaque" and "m_content_type m' = m_content_type m"
    and "m_data_cid m' = opaque_cid data (m_content_type m)" and "m_n_per_layer m' = [n]"
    and "\<exists>sl X A. 0 < sl \<and> represents m' 0 0 sl X A"
    and "get_opaque_object (cluster_call sign) m' live w' = (Inr data, w') \<or> collides w (set (opaque_shards m data))"
proof -
  let ?ss = "opaque_shards m data" and ?m1 = "set_opaque data m"
  define m' where "m' = ?m1\<lparr>m_shard_hashes := [[map shard_hash ?ss]], m_merkle_root := merkle_root (map shard_hash ?ss)\<rparr>"
  have net1: "serves w (m_nodes ?m1) live" "m_placement ?m1 = Rendezvous" using net by simp_all
  obtain w' where w': "send_all (cluster_call sign) live ?ss (?m1, w) = (Inr (), (m', w'))"
    "serves w' (m_nodes ?m1) live" "grown w (set ?ss) w'" "holds w' ?m1 live (set ?ss)"
    unfolding m'_def by (rule send_all_cluster[OF net1(1) net(2) net1(2), of sign ?ss]) blast
  have ne: "m_n_per_layer m \<noteq> []" using m(5) by simp
  have put: "put_opaque_object (cluster_call sign) live data (m, w) = (Inr (), (m', w'))"
    unfolding put_opaque_run[OF m(1-4) ne] by (rule w'(1))
  have f: "m_nodes m' = m_nodes m" "m_object_id m' = m_object_id ?m1" "m_kind m' = Opaque"
    "m_content_type m' = m_content_type m" "m_data_cid m' = opaque_cid data (m_content_type m)" "m_n_per_layer m' = [n]"
    using m by (simp_all add: m'_def set_opaque_def set_cid_def)
  have srv: "serves w' (m_nodes m') live" using w'(2) by (simp add: f)
  have "get_opaque_object (cluster_call sign) m' live w' = (Inr data, w')" if nc: "\<not> collides w (set ?ss)"
  proof -
    have nc': "\<not> collides w' (set ?ss)" using collides_grown[OF w'(3)] nc by blast
    obtain raw where raw: "gather_layer (cluster_call sign) m' live 0 0 w' = (Inr raw, w')"
      "set raw = {s. \<exists>n \<in> set live. stored w' (m_nodes m' ! n) (SKey (m_object_id m') 0 0) (shard_hash s) = Some s}"
      using gather_cluster[OF srv, of sign 0 0] by blast
    have "set ?ss \<subseteq> set raw"
    proof
      fix s assume s: "s \<in> set ?ss"
      then obtain n t where n: "n \<in> set live" "stored w' (m_nodes m' ! n) (SKey (m_object_id m') 0 0) (shard_hash s) = Some t"
        using w'(4) unfolding holds_def f by auto
      have "shard_hash t = shard_hash s" by (rule stored_hash[OF _ n(2)]) (use srv in \<open>simp add: serves_def\<close>)
      then have "s = t" using nc' s n(2) unfolding collides_def by metis
      with n raw(2) show "s \<in> set raw" by blast
    qed
    then have sub: "set (take K ?ss) \<subseteq> set raw" by (auto dest: in_set_takeD)
    have fr: "gather_layer (frozen sign w') m' live 0 0 w' = (Inr raw, w')" using raw(1) gather_frozen[OF srv] by simp
    have "safe (frozen sign w') (set ?ss)" using frozen_safe[OF _ nc'] srv by (simp add: serves_def)
    from opaque_read_spec[OF put data this, where live' = live and v = w']
    have "get_opaque_object (frozen sign w') m' live w' = (Inr data, w')" using fr sub m(5,6) by simp
    with get_opaque_frozen[OF raw(1) fr] show ?thesis by simp
  qed
  moreover have "\<exists>sl X A. 0 < sl \<and> represents m' 0 0 sl X A" using put_opaque_spec(1,2)[OF put data] by blast
  ultimately show thesis using that[OF put _ f] w'(2) by auto
qed

section \<open>Through the gateway\<close>

text \<open>A gateway without a catalog file whose live nodes all answer.\<close>

definition healthy :: "gateway \<times> cluster \<Rightarrow> bool" where
  "healthy = (\<lambda>(g, w). om_ok (gw_catalog g) \<and> gw_disk g = None \<and> cl_placement (gw_cluster g) = Rendezvous \<and>
     effective_live g \<noteq> [] \<and> serves w (cl_addrs (gw_cluster g)) (effective_live g) \<and>
     (\<forall>name m. cat_get (gw_catalog g) name = Some m \<longrightarrow> m_nodes m = cl_addrs (gw_cluster g)))"

definition opaque_body :: "'w env \<Rightarrow> bytes \<Rightarrow> bool" where
  "opaque_body env body \<longleftrightarrow> ev_load env body = None \<and> ev_audio env body = None \<and> \<not> utf8_valid body \<and>
     body \<noteq> [] \<and> length body < 2 ^ 32"

definition opaque_reply :: "string \<Rightarrow> bytes \<Rightarrow> decoded_object" where
  "opaque_reply name body = \<lparr>do_bytes = body, do_content_type = guess_opaque_content_type name, do_kind = Opaque,
     do_max_layer = None, do_downloaded = 0, do_sample_rate = None, do_channels = None, do_chunks_total = None,
     do_chunks_missing = None, do_filename = Some name\<rparr>"

definition body_shards :: "cluster_info \<Rightarrow> string \<Rightarrow> bytes \<Rightarrow> shard list" where
  "body_shards cl name body = opaque_shards (blank_opaque_manifest cl (guess_opaque_content_type name)) body"

lemma effective_live_catalog [simp]: "effective_live (g\<lparr>gw_catalog := cat\<rparr>) = effective_live g"
  "effective_live (invalidate_cache name g) = effective_live g"
  by (simp_all add: effective_live_def invalidate_cache_def)

lemma invalidate_fields [simp]: "gw_catalog (invalidate_cache name g) = gw_catalog g" "gw_disk (invalidate_cache name g) = gw_disk g"
  "gw_cluster (invalidate_cache name g) = gw_cluster g"
  by (simp_all add: invalidate_cache_def)

lemma persist_none: "gw_disk g = None \<Longrightarrow> persist_catalog env (g, w) = (Inr (), (g, w))"
  by (simp add: persist_catalog_def)

lemma purge_previous_cluster:
  assumes "serves w nodes live" and "\<forall>m. prev = Some m \<longrightarrow> m_nodes m = nodes" and "ev_call env = cluster_call sign"
  obtains w' where "purge_previous env prev live (g, w) = (Inr (), (g, w'))" and "serves w' nodes live" and "grown w {} w' \<or> prev \<noteq> None"
    and "\<And>a k h t. stored w' a k h = Some t \<Longrightarrow> stored w a k h = Some t"
proof (cases prev)
  case None
  then show thesis using assms(1) by (intro that[of w]) (simp_all add: purge_previous_def)
next
  case (Some m)
  then have srv: "serves w (m_nodes m) live" "m_nodes m = nodes" using assms(1,2) by auto
  obtain w' where "purge_object (cluster_call sign) m live w = (Inr (), w')" "serves w' (m_nodes m) live"
    "\<And>a k h. stored w' a k h = (if a \<in> (!) (m_nodes m) ` set live \<and> key_object k = m_object_id m then None else stored w a k h)"
    by (rule purge_cluster[OF srv(1), of sign]) blast
  then show thesis using srv(2) Some assms(3)
    by (intro that[of w']) (auto simp: purge_previous_def abind_aok_on_net split: if_splits)
qed

lemma put_any_opaque:
  assumes "opaque_body env body" and "ev_call env = cluster_call sign" and "cl_placement cl = Rendezvous"
    and "serves w (cl_addrs cl) live" and "live \<noteq> []"
  obtains m' w' where "put_any env cl name body live w = (Inr (m', ''opaque'', 24), w')" and "serves w' (cl_addrs cl) live"
    and "m_nodes m' = cl_addrs cl" and "m_kind m' = Opaque" and "m_content_type m' = guess_opaque_content_type name"
    and "m_data_cid m' = opaque_cid body (guess_opaque_content_type name)"
    and "m_object_id m' = word_of_nat (be_val (take 8 (opaque_cid body (guess_opaque_content_type name))))"
    and "\<exists>sl X A. 0 < sl \<and> represents m' 0 0 sl X A"
    and "get_opaque_object (cluster_call sign) m' live w' = (Inr body, w') \<or> collides w (set (body_shards cl name body))"
proof -
  let ?b = "blank_opaque_manifest cl (guess_opaque_content_type name)"
  have b: "m_kind ?b = Opaque" "m_channels ?b = 1" "m_nlayers ?b = 1" "unat (m_k ?b) = K" "m_n_per_layer ?b = [24]"
    "K \<le> unat (24 :: u32)" "m_nodes ?b = cl_addrs cl" "m_placement ?b = cl_placement cl"
    "m_content_type ?b = guess_opaque_content_type name"
    by (simp_all add: blank_opaque_manifest_def blank_flat_manifest_def K_def)
  have load: "load_photo_from_bytes (ev_load env) body x y = Inr None" for x y
    using assms(1) by (simp add: load_photo_from_bytes_def opaque_body_def)
  obtain e where utf: "from_utf8 body = Inl e" using assms(1) by (simp add: opaque_body_def from_utf8_def)
  have net: "serves w (m_nodes ?b) live" "m_placement ?b = Rendezvous" "body \<noteq> []" "length body < 2 ^ 32"
    using assms b by (simp_all add: opaque_body_def)
  obtain m' w' where p: "put_opaque_object (cluster_call sign) live body (?b, w) = (Inr (), (m', w'))"
    "serves w' (m_nodes ?b) live" "m_nodes m' = m_nodes ?b" "m_object_id m' = m_object_id (set_opaque body ?b)"
    "m_kind m' = Opaque" "m_content_type m' = m_content_type ?b"
    "m_data_cid m' = opaque_cid body (m_content_type ?b)" "m_n_per_layer m' = [24]"
    "\<exists>sl X A. 0 < sl \<and> represents m' 0 0 sl X A"
    "get_opaque_object (cluster_call sign) m' live w' = (Inr body, w') \<or> collides w (set (opaque_shards ?b body))"
    by (rule put_get_cluster[OF b(1-6) net(1) assms(5) net(2-4), of sign]) blast
  have run: "run_put PutOpaque (put_opaque_object (cluster_call sign) live body) ?b w = (Inr m', w')"
    using p(1) by (simp add: run_put_def)
  have "put_any env cl name body live w = (Inr (m', ''opaque'', 24), w')"
    using assms(1) p(8) utf by (simp add: put_any_def load opaque_body_def assms(2)
        abind_step[where m = "run_put PutOpaque (put_opaque_object (cluster_call sign) live body) ?b", OF run])
  then show thesis using p(2-) b by (intro that[of m' w']) (simp_all add: body_shards_def set_opaque_def set_cid_def)
qed

lemma ingest_opaque:
  assumes "healthy (g, w)" and "opaque_body env body" and "ev_call env = cluster_call sign"
    and "ingest_check name body (gw_catalog g) = (Inr () :: (gateway_error, unit) res)"
  obtains res m g' w' where "ingest_bytes env name body (g, w) = (Inr res, (g', w'))" and "healthy (g', w')"
    and "gw_catalog g' = cat_insert name m (gw_catalog g)" and "gw_cluster g' = gw_cluster g" and "effective_live g' = effective_live g"
    and "m_kind m = Opaque" and "m_content_type m = guess_opaque_content_type name"
    and "m_object_id m = word_of_nat (be_val (take 8 (opaque_cid body (guess_opaque_content_type name))))"
    and "m_nodes m = cl_addrs (gw_cluster g)" and "\<exists>sl X A. 0 < sl \<and> represents m 0 0 sl X A"
    and "ir_data_cid res = hex (opaque_cid body (guess_opaque_content_type name))"
    and "get_opaque_object (cluster_call sign) m (effective_live g) w' = (Inr body, w') \<or>
      collides w (set (body_shards (gw_cluster g) name body))"
proof -
  let ?cl = "gw_cluster g" and ?live = "effective_live g" and ?prev = "cat_get (gw_catalog g) name"
  have h: "om_ok (gw_catalog g)" "gw_disk g = None" "cl_placement ?cl = Rendezvous" "?live \<noteq> []"
    "serves w (cl_addrs ?cl) ?live" "\<And>n m. cat_get (gw_catalog g) n = Some m \<Longrightarrow> m_nodes m = cl_addrs ?cl"
    using assms(1) by (auto simp: healthy_def)
  have prev: "\<forall>m. ?prev = Some m \<longrightarrow> m_nodes m = cl_addrs ?cl" using h(6) by blast
  obtain w1 where w1: "purge_previous env ?prev ?live (g, w) = (Inr (), (g, w1))" "serves w1 (cl_addrs ?cl) ?live"
    "\<And>a k h t. stored w1 a k h = Some t \<Longrightarrow> stored w a k h = Some t"
    by (rule purge_previous_cluster[OF h(5) prev assms(3), of g]) blast
  obtain m w2 where m: "put_any env ?cl name body ?live w1 = (Inr (m, ''opaque'', 24), w2)" "serves w2 (cl_addrs ?cl) ?live"
    "m_nodes m = cl_addrs ?cl" "m_kind m = Opaque" "m_content_type m = guess_opaque_content_type name"
    "m_data_cid m = opaque_cid body (guess_opaque_content_type name)"
    "m_object_id m = word_of_nat (be_val (take 8 (opaque_cid body (guess_opaque_content_type name))))"
    "\<exists>sl X A. 0 < sl \<and> represents m 0 0 sl X A"
    "get_opaque_object (cluster_call sign) m ?live w2 = (Inr body, w2) \<or> collides w1 (set (body_shards ?cl name body))"
    by (rule put_any_opaque[OF assms(2,3) h(3) w1(2) h(4), of name]) blast
  let ?g' = "invalidate_cache name (g\<lparr>gw_catalog := cat_insert name m (gw_catalog g)\<rparr>)"
  define res where "res = \<lparr>ir_name = name, ir_object_id = m_object_id m, ir_data_cid = hex (m_data_cid m), ir_width = m_width m,
         ir_height = m_height m, ir_kind = m_kind m, ir_total_shards = 24\<rparr>"
  have "ingest_bytes env name body (g, w) = (Inr res, (?g', w2))"
    using h(2)
    by (simp add: ingest_bytes_def abind_the_gw abind_alift_run assms(4) Let_def
        abind_step[where m = "purge_previous env ?prev ?live", OF w1(1)] abind_err_on_net m(1) abind_on_gw
        abind_step[where m = "persist_catalog env", OF persist_none] res_def)
  moreover have "healthy (?g', w2)"
    using h m(2,3) by (auto simp: healthy_def cat.get_ins cat.ok_ins split: if_splits)
  moreover have "collides w1 A \<Longrightarrow> collides w A" for A using w1(3) unfolding collides_def by blast
  ultimately show thesis using m
    by (intro that[of res ?g' w2 m]) (auto simp: res_def)
qed

lemma decode_opaque:
  assumes "cat_get (gw_catalog g) name = Some m" and "m_kind m = Opaque" and "m_content_type m = guess_opaque_content_type name"
    and "get_opaque_object (ev_call env) m (effective_live g) w = (r, w')"
  shows "decode_object env name None (g, w) =
    (case r of Inr body \<Rightarrow> Inr (opaque_reply name body) | Inl e \<Rightarrow> map_err (\<lambda>e. Decode (OpaqueDecode e)) (Inl e), (g, w'))"
  using assms by (simp add: decode_object_def gw_run opaque_reply_def split: sum.split)

lemma get_opaque_nothing:
  assumes "gather_layer call m live 0 0 w = (Inr [], w')" and "m_kind m = Opaque"
    and "represents m 0 0 sl X A" and "0 < sl"
  shows "get_opaque_object call m live w = (Inl (Err (LayerLost 0 0)), w')"
proof -
  have X: "source_ok K sl X" and sl: "unat (m_sym_len m ! 0) = sl" using assms(3) by (simp_all add: represents_def)
  have ex: "explains K sl [] Z" if "source_ok K sl Z" for Z using that by (simp add: explains_def)
  have "\<exists>Z. source_ok K sl Z \<and> Z \<noteq> X"
  proof -
    let ?Z = "\<lambda>b :: u8. replicate K (replicate sl b)"
    have "source_ok K sl (?Z b)" for b by (simp add: source_ok_def)
    moreover have "?Z 0 \<noteq> ?Z 1" using assms(4) by (simp add: replicate_eq_replicate K_def)
    ultimately show ?thesis by metis
  qed
  then have "\<not> (\<forall>Z. explains K sl [] Z \<longrightarrow> Z = X)" using ex by blast
  then have dec: "decode_layer gf_new [] (unat (m_sym_len m ! 0)) = (Inr None :: (client_error, _) res)"
    unfolding sl using decode_layer_spec[OF ex[OF X] assms(4), where 'e = client_error] by simp
  show ?thesis
    using assms(2) by (simp add: get_opaque_object_def abind_step[where m = "gather_layer call m live 0 0", OF assms(1)]
        abind_alift_run represents_expected[OF assms(3)] represents_sym_len[OF assms(3)] verified_def dec)
qed

section \<open>Properties\<close>

lemma stored_decodes:
  assumes "healthy (g, w)" and "opaque_body env body" and "ev_call env = cluster_call sign"
    and "ingest_check name body (gw_catalog g) = (Inr () :: (gateway_error, unit) res)"
  shows "\<exists>res s'. ingest_bytes env name body (g, w) = (Inr res, s') \<and> healthy s' \<and>
    (decode_object env name None s' = (Inr (opaque_reply name body), s') \<or> collides w (set (body_shards (gw_cluster g) name body)))"
proof -
  obtain res m g' w' where i: "ingest_bytes env name body (g, w) = (Inr res, (g', w'))" "healthy (g', w')"
    "gw_catalog g' = cat_insert name m (gw_catalog g)" "effective_live g' = effective_live g"
    "m_kind m = Opaque" "m_content_type m = guess_opaque_content_type name"
    "get_opaque_object (cluster_call sign) m (effective_live g) w' = (Inr body, w') \<or>
      collides w (set (body_shards (gw_cluster g) name body))"
    by (rule ingest_opaque[OF assms]) blast
  have "om_ok (gw_catalog g)" using assms(1) by (simp add: healthy_def)
  then have get: "cat_get (gw_catalog g') name = Some m" using i(3) by (simp add: cat.get_ins)
  have "decode_object env name None (g', w') = (Inr (opaque_reply name body), (g', w'))"
    if "get_opaque_object (cluster_call sign) m (effective_live g) w' = (Inr body, w')"
    using decode_opaque[OF get i(5,6), of env w' "Inr body" w'] that i(4) assms(3) by simp
  with i show ?thesis by blast
qed


text \<open>C26: two names with the same content share their shards, and removing one of them destroys the other. After storing
  the same body under \<open>p\<close> and \<open>q\<close>, whose extensions have the same content type, and removing \<open>p\<close>, all with success
  and on a cluster that is healthy throughout, \<open>q\<close> is still in the catalog, but a read of it reports the layer lost.\<close>

theorem shared_content_purged:
  assumes "healthy (g, w)" and "opaque_body env body" and "ev_call env = cluster_call sign"
    and "ingest_check p body (gw_catalog g) = (Inr () :: (gateway_error, unit) res)"
    and "ingest_check q body (gw_catalog g) = (Inr () :: (gateway_error, unit) res)"
    and "p \<noteq> q" and "guess_opaque_content_type p = guess_opaque_content_type q"
  shows "\<exists>r1 s1 r2 s2 oid s3. ingest_bytes env p body (g, w) = (Inr r1, s1) \<and> ingest_bytes env q body s1 = (Inr r2, s2) \<and>
    remove_object env p s2 = (Inr oid, s3) \<and> healthy s3 \<and> cat_get (gw_catalog (fst s3)) q \<noteq> None \<and>
    decode_object env q None s3 = (Inl (Err (Decode (OpaqueDecode (LayerLost 0 0)))), s3)"
proof -
  let ?oid = "word_of_nat (be_val (take 8 (opaque_cid body (guess_opaque_content_type q)))) :: u64"
  have ok: "om_ok (gw_catalog g)" using assms(1) by (simp add: healthy_def)
  obtain r1 m1 g1 w1 where i1: "ingest_bytes env p body (g, w) = (Inr r1, (g1, w1))" "healthy (g1, w1)"
    "gw_catalog g1 = cat_insert p m1 (gw_catalog g)" "gw_cluster g1 = gw_cluster g" "effective_live g1 = effective_live g"
    "m_kind m1 = Opaque" "m_object_id m1 = ?oid" "m_nodes m1 = cl_addrs (gw_cluster g)"
    by (rule ingest_opaque[OF assms(1-4)]) (use assms(7) in auto)
  have "ingest_check q body (gw_catalog g1) = (Inr () :: (gateway_error, unit) res)"
    using assms(4-6) i1(6) ok unfolding ingest_check_Inr i1(3) is_dir_def by (auto simp: cat.get_ins)
  then obtain r2 m2 g2 w2 where i2: "ingest_bytes env q body (g1, w1) = (Inr r2, (g2, w2))" "healthy (g2, w2)"
    "gw_catalog g2 = cat_insert q m2 (gw_catalog g1)" "gw_cluster g2 = gw_cluster g1" "effective_live g2 = effective_live g1"
    "m_kind m2 = Opaque" "m_content_type m2 = guess_opaque_content_type q" "m_object_id m2 = ?oid" "m_nodes m2 = cl_addrs (gw_cluster g)"
    "\<exists>sl X A. 0 < sl \<and> represents m2 0 0 sl X A"
    by (rule ingest_opaque[OF i1(2) assms(2,3)]) (use i1(4) in auto)
  have ok2: "om_ok (gw_catalog g2)" using i2(2) by (simp add: healthy_def)
  have get: "cat_get (gw_catalog g2) p = Some m1" "cat_get (gw_catalog g2) q = Some m2"
    using ok assms(6) i1(2) unfolding i2(3) i1(3) by (simp_all add: healthy_def cat.get_ins cat.ok_ins)
  let ?cat = "snd (cat_remove p (gw_catalog g2))" and ?live = "effective_live g"
  have "valid_arg p = (Inr () :: (gateway_error, unit) res)" using assms(4) by (simp add: ingest_check_Inr valid_arg_Inr)
  then have rem: "remove_entry p (gw_catalog g2) = (Inr (m1, ?cat) :: (gateway_error, _) res)"
    using get(1) i1(6) by (simp add: remove_entry_def)
  let ?g3 = "invalidate_cache p (g2\<lparr>gw_catalog := ?cat\<rparr>)"
  have h2: "gw_disk g2 = None" "serves w2 (m_nodes m1) ?live" using i2(2,4,5) i1(4,5,8) by (simp_all add: healthy_def)
  obtain w3 where w3: "purge_object (cluster_call sign) m1 ?live w2 = (Inr (), w3)" "serves w3 (m_nodes m1) ?live"
    "\<And>a k h. stored w3 a k h = (if a \<in> (!) (m_nodes m1) ` set ?live \<and> key_object k = m_object_id m1 then None else stored w2 a k h)"
    by (rule purge_cluster[OF h2(2), of sign]) blast
  have "remove_object env p (g2, w2) = (Inr (m_object_id m1), (?g3, w3))"
    using h2(1) i2(5) i1(5) w3(1)
    by (simp add: remove_object_def abind_the_gw abind_alift_run rem abind_on_gw assms(3) abind_err_on_net
        abind_step[where m = "persist_catalog env", OF persist_none])
  moreover have "healthy (?g3, w3)"
    using i2(2,4,5) i1(4,5,8) w3(2) ok2 by (auto simp: healthy_def cat.get_del cat.ok_del split: if_splits)
  moreover have q: "cat_get (gw_catalog ?g3) q = Some m2" using get(2) assms(6) ok2 by (simp add: cat.get_del)
  moreover have "decode_object env q None (?g3, w3) = (Inl (Err (Decode (OpaqueDecode (LayerLost 0 0)))), (?g3, w3))"
  proof -
    have srv: "serves w3 (m_nodes m2) ?live" using w3(2) i1(8) i2(9) by simp
    obtain raw where raw: "gather_layer (cluster_call sign) m2 ?live 0 0 w3 = (Inr raw, w3)"
      "set raw = {s. \<exists>n \<in> set ?live. stored w3 (m_nodes m2 ! n) (SKey (m_object_id m2) 0 0) (shard_hash s) = Some s}"
      using gather_cluster[OF srv, of sign 0 0] by blast
    have "set raw = {}" unfolding raw(2) using w3(3) i1(7,8) i2(8,9) by (auto simp: key_object_def)
    then have "gather_layer (cluster_call sign) m2 ?live 0 0 w3 = (Inr [], w3)" using raw(1) by simp
    moreover obtain sl X A where "represents m2 0 0 sl X A" "0 < sl" using i2(10) by blast
    ultimately have "get_opaque_object (cluster_call sign) m2 ?live w3 = (Inl (Err (LayerLost 0 0)), w3)"
      by (rule get_opaque_nothing[OF _ i2(6)])
    with decode_opaque[OF q i2(6,7), of env w3] i2(5) i1(5) assms(3) show ?thesis by simp
  qed
  ultimately show ?thesis using i1(1) i2(1) by (intro exI conjI) (assumption | simp)+
qed

section \<open>One node\<close>

definition one_cluster :: cluster where
  "one_cluster = [''n'' \<mapsto> store_new]"

definition one_env :: "cluster env" where
  "one_env = \<lparr>ev_call = cluster_call id, ev_load = (\<lambda>_. None), ev_audio = (\<lambda>_. None), ev_png = (\<lambda>w h rgb. None),
     ev_save = (\<lambda>bs w. (True, w))\<rparr>"

lemma one_healthy: "healthy (gateway_new [] [0] demo_cluster, one_cluster)"
  by (simp add: healthy_def gateway_new_def demo_cluster_def effective_live_def serves_def cluster_ok_def one_cluster_def
      om_ok_def cat_get_def om_get_def store_ok_def buckets_ok_def in_store_def store_new_def bucket_of_def)

lemma one_body: "opaque_body one_env [0xFF]"
  by (subst opaque_body_def, subst utf8_valid.simps) (simp add: one_env_def utf8_width_def)


theorem shared_content_purged_witness:
  "\<exists>r1 s1 r2 s2 oid s3. ingest_bytes one_env ''f'' [0xFF] (gateway_new [] [0] demo_cluster, one_cluster) = (Inr r1, s1) \<and>
    ingest_bytes one_env ''g'' [0xFF] s1 = (Inr r2, s2) \<and> remove_object one_env ''f'' s2 = (Inr oid, s3) \<and> healthy s3 \<and>
    cat_get (gw_catalog (fst s3)) ''g'' \<noteq> None \<and>
    decode_object one_env ''g'' None s3 = (Inl (Err (Decode (OpaqueDecode (LayerLost 0 0)))), s3)"
proof -
  have "ingest_check x [0xFF] [] = (Inr () :: (gateway_error, unit) res)" if "x = ''f'' \<or> x = ''g''" for x
    using that by (auto simp: ingest_check_Inr valid_path_def good_segment_def MAX_SEGMENT_def plain_def parent_None is_dir_def cat_get_def om_get_def)
  moreover have "guess_opaque_content_type ''f'' = guess_opaque_content_type ''g''"
    by (simp add: guess_opaque_content_type_def to_lower_def after_last_dot_def opaque_types_def)
  ultimately show ?thesis
    by (intro shared_content_purged[OF one_healthy one_body, of id]) (simp_all add: gateway_new_def one_env_def)
qed

end
