(* ===== verification/Health.thy ===== *)
theory Health
  imports Cluster "HOL-Library.Multiset"
begin

text \<open>
  \<open>holofs-cluster/src/health.rs\<close>: how well an object survives. \<open>collect_layer_stats\<close> asks the nodes, \<open>simulate_loss\<close>
  and \<open>simulate_zone_failures\<close> compute on the placement of the current live set. The normalised distribution
  (\<open>pmf\<close>), which divides by the number of trials, is left out.

  Shown: what the two simulations return, trial by trial; that the zone-aware placement survives the loss of a
  zone; and that the margin counts copies of a shard, so that it can be positive for a layer that is lost.
\<close>

section \<open>Statistics of a layer\<close>

record layer_stats =
  ls_channel :: u8
  ls_layer :: u8
  ls_n_shards :: u32
  ls_n_alive :: u32
  ls_hosting :: u32
  ls_k :: u16
  ls_margin :: u32

text \<open>\<open>margin\<close> is an \<open>i32\<close>.\<close>

definition decodable :: "layer_stats \<Rightarrow> bool" where
  "decodable s \<longleftrightarrow> 0 \<le> sint (ls_margin s)"

definition layer_hosts :: "manifest \<Rightarrow> u8 \<Rightarrow> u8 \<Rightarrow> u32 \<Rightarrow> nat list \<Rightarrow> ('e, nat list) res" where
  "layer_hosts m c l n live = rmap (\<lambda>idx. place_shard m c l (word_of_nat idx) live) [0..<unat n]"

definition layer_stat :: "'w call \<Rightarrow> manifest \<Rightarrow> nat list \<Rightarrow> layer_stats list \<Rightarrow> nat \<times> nat \<Rightarrow> ('w, client_error, layer_stats list) act" where
  "layer_stat call m live out cl = (case cl of (ci, li) \<Rightarrow>
     let c = word_of_nat ci; l = word_of_nat li in
     abind (gather_layer call m live c l) (\<lambda>raw.
     abind (alift (expected_hashes m ci li)) (\<lambda>expected.
     let n_alive = word_of_nat (length (verified expected raw)) in
     abind (alift (at_idx (m_n_per_layer m) li)) (\<lambda>n.
     abind (alift (layer_hosts m c l n (sort live))) (\<lambda>hosts.
       aret (out @ [\<lparr>ls_channel = c, ls_layer = l, ls_n_shards = n, ls_n_alive = n_alive,
         ls_hosting = word_of_nat (length (remdups hosts)), ls_k = m_k m, ls_margin = n_alive - ucast (m_k m)\<rparr>]))))))"

definition collect_layer_stats :: "'w call \<Rightarrow> manifest \<Rightarrow> nat list \<Rightarrow> ('w, client_error, layer_stats list) act" where
  "collect_layer_stats call m live = afold (layer_stat call m live) [] (layer_pairs m)"

section \<open>Resolution\<close>

text \<open>The loop \<open>for l \<dots> { if all_ok { max = Some(l) } else { break } }\<close> that the three functions share.\<close>

fun last_ok :: "('l \<Rightarrow> bool) \<Rightarrow> 'l option \<Rightarrow> 'l list \<Rightarrow> 'l option" where
  "last_ok ok best [] = best"
| "last_ok ok best (l # ls) = (if ok l then last_ok ok (Some l) ls else best)"

definition stat_ok :: "layer_stats list \<Rightarrow> u8 \<Rightarrow> u8 \<Rightarrow> bool" where
  "stat_ok stats l c = (case List.find (\<lambda>s. ls_channel s = c \<and> ls_layer s = l) stats of Some s \<Rightarrow> decodable s | None \<Rightarrow> False)"

definition current_resolution :: "layer_stats list \<Rightarrow> u8 \<Rightarrow> u8 \<Rightarrow> u8 option" where
  "current_resolution stats channels nlayers =
     last_ok (\<lambda>l. list_all (\<lambda>c. stat_ok stats l (word_of_nat c)) [0..<unat channels]) None (map word_of_nat [0..<unat nlayers])"

section \<open>Simulations\<close>

definition build_layout :: "manifest \<Rightarrow> nat list \<Rightarrow> ('e, nat list list list) res" where
  "build_layout m live =
     rmap (\<lambda>c. rmap (\<lambda>l. rbind (at_idx (m_n_per_layer m) l) (\<lambda>n. layer_hosts m (word_of_nat c) (word_of_nat l) n live))
       [0..<unat (m_nlayers m)]) [0..<unat (m_channels m)]"

text \<open>The layers are decided from the layout and the set of dead nodes.\<close>

definition layer_survives :: "manifest \<Rightarrow> nat list list list \<Rightarrow> nat set \<Rightarrow> nat \<Rightarrow> bool" where
  "layer_survives m layout dead l =
     list_all (\<lambda>c. \<not> (word_of_nat (length (filter (\<lambda>n. n \<notin> dead) (layout ! c ! l))) :: u32) < ucast (m_k m)) [0..<unat (m_channels m)]"

definition survivor :: "manifest \<Rightarrow> nat list list list \<Rightarrow> nat set \<Rightarrow> nat option" where
  "survivor m layout dead = last_ok (layer_survives m layout dead) None [0..<unat (m_nlayers m)]"

text \<open>The index into the distribution: 0 when no layer survives.\<close>

definition survivor_slot :: "manifest \<Rightarrow> nat list list list \<Rightarrow> nat set \<Rightarrow> nat" where
  "survivor_slot m layout dead = (case survivor m layout dead of None \<Rightarrow> 0 | Some l \<Rightarrow> l + 1)"

record loss_scenario =
  sc_kill_pct :: u8
  sc_n_trials :: u32
  sc_dist :: "u32 list"

text \<open>One step of the partial Fisher-Yates shuffle; a \<open>usize\<close> has 64 bits.\<close>

definition shuffle_step :: "nat \<Rightarrow> nat list \<times> u64 \<Rightarrow> nat list \<times> u64" where
  "shuffle_step i st = (case st of (perm, rng) \<Rightarrow>
     (case rng_next rng of (x, rng) \<Rightarrow>
        let j = i + unat x mod (length perm - i) in (perm[i := perm ! j, j := perm ! i], rng)))"

definition shuffle :: "nat \<Rightarrow> nat list \<times> u64 \<Rightarrow> nat list \<times> u64" where
  "shuffle n_kill st = fold shuffle_step [0..<n_kill] st"

definition loss_trial :: "manifest \<Rightarrow> nat list list list \<Rightarrow> nat \<Rightarrow> (nat list \<times> u64) \<times> u32 list \<Rightarrow> (nat list \<times> u64) \<times> u32 list" where
  "loss_trial m layout n_kill st = (case st of (pr, tab) \<Rightarrow>
     (case shuffle n_kill pr of (perm, rng) \<Rightarrow>
        let i = survivor_slot m layout (set (take n_kill perm))
        in ((perm, rng), tab[i := tab ! i + 1])))"

definition n_killed :: "nat list \<Rightarrow> u8 \<Rightarrow> nat" where
  "n_killed live kp = min (length live * unat kp div 100) (length live)"

definition loss_scenario :: "manifest \<Rightarrow> nat list list list \<Rightarrow> nat list \<Rightarrow> u32 \<Rightarrow> u64 \<Rightarrow> u8 \<Rightarrow> loss_scenario \<times> u64" where
  "loss_scenario m layout live n_trials rng kp =
     (case (loss_trial m layout (n_killed live kp) ^^ unat n_trials) ((live, rng), replicate (unat (m_nlayers m) + 1) 0) of
        ((_, rng), tab) \<Rightarrow> (\<lparr>sc_kill_pct = kp, sc_n_trials = n_trials, sc_dist = tab\<rparr>, rng))"

definition loss_step :: "manifest \<Rightarrow> nat list list list \<Rightarrow> nat list \<Rightarrow> u32 \<Rightarrow> u8 \<Rightarrow> loss_scenario list \<times> u64 \<Rightarrow> loss_scenario list \<times> u64" where
  "loss_step m layout live n_trials kp st = (case st of (out, rng) \<Rightarrow>
     (case loss_scenario m layout live n_trials rng kp of (sc, rng) \<Rightarrow> (out @ [sc], rng)))"

definition simulate_loss :: "manifest \<Rightarrow> nat list \<Rightarrow> u8 list \<Rightarrow> u32 \<Rightarrow> u64 \<Rightarrow> ('e, loss_scenario list \<times> u64) res" where
  "simulate_loss m live kill_pcts n_trials rng =
     rbind (build_layout m (sort live)) (\<lambda>layout. Inr (fold (loss_step m layout live n_trials) kill_pcts ([], rng)))"

record zone_failure =
  zf_zone :: u8
  zf_nodes :: u32
  zf_resolution :: "u8 option"

definition zone_members :: "u8 list \<Rightarrow> u8 \<Rightarrow> nat list" where
  "zone_members zones z = filter (\<lambda>i. zones ! i = z) [0..<length zones]"

definition zone_failure :: "manifest \<Rightarrow> nat list list list \<Rightarrow> u8 \<Rightarrow> zone_failure" where
  "zone_failure m layout z = (let dead = zone_members (m_zones m) z in
     \<lparr>zf_zone = z, zf_nodes = word_of_nat (length dead), zf_resolution = map_option word_of_nat (survivor m layout (set dead))\<rparr>)"

definition simulate_zone_failures :: "manifest \<Rightarrow> nat list \<Rightarrow> ('e, zone_failure list) res" where
  "simulate_zone_failures m live =
     (let zones = sort (remdups (m_zones m)) in
      if m_zones m = [] then Inr [] else if length zones \<le> 1 then Inr []
      else rbind (build_layout m (sort live)) (\<lambda>layout. Inr (map (zone_failure m layout) zones)))"

section \<open>The whole report\<close>

definition DEFAULT_KILL_PCTS :: "u8 list" where "DEFAULT_KILL_PCTS = [10, 25, 50, 75]"
definition DEFAULT_N_TRIALS :: u32 where "DEFAULT_N_TRIALS = 5000"

record object_health =
  oh_object_id :: u64
  oh_name :: string
  oh_data_cid :: bytes
  oh_n_nodes :: nat
  oh_n_live :: nat
  oh_nlayers :: u8
  oh_channels :: u8
  oh_k :: u16
  oh_layers :: "layer_stats list"
  oh_resolution :: "u8 option"
  oh_scenarios :: "loss_scenario list"
  oh_zone_failures :: "zone_failure list"

definition object_health :: "'w call \<Rightarrow> string \<Rightarrow> manifest \<Rightarrow> nat list \<Rightarrow> ('w, client_error, object_health) act" where
  "object_health call name m live =
     abind (collect_layer_stats call m live) (\<lambda>layers.
     let rng = rng_new (word_of_nat (be_val (take 8 (m_data_cid m)))) in
     abind (alift (simulate_loss m live DEFAULT_KILL_PCTS DEFAULT_N_TRIALS rng)) (\<lambda>(scenarios, _).
     abind (alift (simulate_zone_failures m live)) (\<lambda>zf.
       aret \<lparr>oh_object_id = m_object_id m, oh_name = name, oh_data_cid = m_data_cid m, oh_n_nodes = length (m_nodes m),
         oh_n_live = length live, oh_nlayers = m_nlayers m, oh_channels = m_channels m, oh_k = m_k m, oh_layers = layers,
         oh_resolution = current_resolution layers (m_channels m) (m_nlayers m), oh_scenarios = scenarios, oh_zone_failures = zf\<rparr>)))"

section \<open>The shuffle\<close>

lemma swap_mset: "i < length xs \<Longrightarrow> j < length xs \<Longrightarrow> mset (xs[i := xs ! j, j := xs ! i]) = mset xs"
  by (rule mset_swap)

lemma shuffle_step_perm:
  assumes "i < length perm"
  shows "mset (fst (shuffle_step i (perm, rng))) = mset perm"
proof -
  obtain x r where r: "rng_next rng = (x, r)" by force
  have "i + unat x mod (length perm - i) < length perm" using assms mod_less_divisor[of "length perm - i" "unat x"] by linarith
  with assms show ?thesis by (simp add: shuffle_step_def r Let_def swap_mset)
qed

lemma shuffle_perm:
  assumes "n \<le> length perm"
  shows "mset (fst (shuffle n (perm, rng))) = mset perm"
  using assms
proof (induction n)
  case (Suc n)
  obtain p r where p: "shuffle n (perm, rng) = (p, r)" by force
  with Suc have m: "mset p = mset perm" by simp
  then have "n < length p" using Suc.prems by (metis Suc_le_lessD size_mset)
  from shuffle_step_perm[OF this, of r] m p show ?case by (simp add: shuffle_def)
qed (simp add: shuffle_def)

lemma last_ok_prefix:
  "last_ok ok (if a = 0 then None else Some (a - 1)) [a..<b] =
     (let n = a + length (takeWhile ok [a..<b]) in if n = 0 then None else Some (n - 1))"
proof (induction "b - a" arbitrary: a)
  case (Suc d)
  then have up: "[a..<b] = a # [Suc a..<b]" by (simp add: upt_conv_Cons)
  from Suc(1)[of "Suc a"] Suc(2) show ?case by (cases "ok a") (simp_all add: up Let_def)
qed (simp add: Let_def)

lemma slot_takeWhile: "survivor_slot m layout dead = length (takeWhile (layer_survives m layout dead) [0..<unat (m_nlayers m)])"
  using last_ok_prefix[of "layer_survives m layout dead" 0 "unat (m_nlayers m)"]
  by (simp add: survivor_slot_def survivor_def Let_def split: if_splits)

lemma slot_le: "survivor_slot m layout dead \<le> unat (m_nlayers m)"
  unfolding slot_takeWhile by (metis diff_zero length_takeWhile_le length_upt)

text \<open>\<open>tallied\<close>: the table holds, slot by slot, how many of the dead sets led there.\<close>

definition tallied :: "manifest \<Rightarrow> nat list list list \<Rightarrow> nat set list \<Rightarrow> u32 list \<Rightarrow> bool" where
  "tallied m layout deads tab \<longleftrightarrow> length tab = unat (m_nlayers m) + 1 \<and>
     (\<forall>r \<le> unat (m_nlayers m). unat (tab ! r) = length (filter (\<lambda>D. survivor_slot m layout D = r) deads))"

lemma tallied_add:
  assumes "tallied m layout deads tab" and "length deads + 1 < 2 ^ 32"
  shows "tallied m layout (deads @ [D]) (tab[survivor_slot m layout D := tab ! survivor_slot m layout D + 1])"
proof -
  let ?i = "survivor_slot m layout D"
  have i: "?i \<le> unat (m_nlayers m)" by (rule slot_le)
  have "unat (tab ! ?i) \<le> length deads" using assms(1) i by (simp add: tallied_def)
  then have "unat (tab ! ?i + 1) = unat (tab ! ?i) + 1" using assms(2) by (simp add: unat_word_ariths)
  with assms(1) i show ?thesis by (auto simp: tallied_def nth_list_update)
qed

lemma trials_tallied:
  assumes "distinct live" and "n_kill \<le> length live" and "N < 2 ^ 32"
  shows "\<exists>perm rng' tab deads. (loss_trial m layout n_kill ^^ N) ((live, rng), replicate (unat (m_nlayers m) + 1) 0) = ((perm, rng'), tab) \<and>
    mset perm = mset live \<and> length deads = N \<and> (\<forall>D \<in> set deads. D \<subseteq> set live \<and> card D = n_kill) \<and> tallied m layout deads tab"
  using assms(3)
proof (induction N)
  case 0
  then show ?case by (intro exI[of _ "[]"] exI conjI) (auto simp: tallied_def simp del: replicate_Suc)
next
  case (Suc N)
  then obtain perm r tab deads where IH: "(loss_trial m layout n_kill ^^ N) ((live, rng), replicate (unat (m_nlayers m) + 1) 0) = ((perm, r), tab)"
    "mset perm = mset live" "length deads = N" "\<forall>D \<in> set deads. D \<subseteq> set live \<and> card D = n_kill" "tallied m layout deads tab"
    by auto
  obtain p r' where s: "shuffle n_kill (perm, r) = (p, r')" by force
  have len: "length perm = length live" using IH(2) by (metis size_mset)
  have p: "mset p = mset live" using shuffle_perm[of n_kill perm r] assms(2) len s IH(2) by simp
  then have dp: "distinct p" "set p = set live" "length p = length live"
    using assms(1) by (metis mset_eq_imp_distinct_iff, metis set_mset_mset, metis size_mset)
  let ?D = "set (take n_kill p)"
  have D: "?D \<subseteq> set live \<and> card ?D = n_kill"
    using dp assms(2) by (auto dest: in_set_takeD simp: distinct_card)
  have "(loss_trial m layout n_kill ^^ Suc N) ((live, rng), replicate (unat (m_nlayers m) + 1) 0) =
      ((p, r'), tab[survivor_slot m layout ?D := tab ! survivor_slot m layout ?D + 1])"
    by (simp only: funpow.simps o_apply IH(1)) (simp add: loss_trial_def s Let_def)
  moreover have "tallied m layout (deads @ [?D]) (tab[survivor_slot m layout ?D := tab ! survivor_slot m layout ?D + 1])"
    using Suc.prems IH(3) by (intro tallied_add[OF IH(5)]) simp
  ultimately show ?case using p IH(3,4) D
    by (intro exI[of _ p] exI[of _ r'] exI[of _ "tab[survivor_slot m layout ?D := tab ! survivor_slot m layout ?D + 1]"]
        exI[of _ "deads @ [?D]"]) auto
qed

lemma losses_tallied:
  assumes "distinct live"
  shows "\<exists>scs rng'. fold (loss_step m layout live n_trials) kps (out, rng) = (out @ scs, rng') \<and> map sc_kill_pct scs = kps \<and>
    (\<forall>sc \<in> set scs. sc_n_trials sc = n_trials \<and> (\<exists>deads. length deads = unat n_trials \<and>
      (\<forall>D \<in> set deads. D \<subseteq> set live \<and> card D = n_killed live (sc_kill_pct sc)) \<and> tallied m layout deads (sc_dist sc)))"
proof (induction kps arbitrary: out rng)
  case (Cons kp kps)
  have "n_killed live kp \<le> length live" by (simp add: n_killed_def)
  then obtain perm r tab deads where t: "(loss_trial m layout (n_killed live kp) ^^ unat n_trials) ((live, rng), replicate (unat (m_nlayers m) + 1) 0) = ((perm, r), tab)"
    "length deads = unat n_trials" "\<forall>D \<in> set deads. D \<subseteq> set live \<and> card D = n_killed live kp" "tallied m layout deads tab"
    using trials_tallied[OF assms, of "n_killed live kp" "unat n_trials" m layout rng] unsigned_less[of n_trials, where 'a = nat] by auto
  let ?sc = "\<lparr>sc_kill_pct = kp, sc_n_trials = n_trials, sc_dist = tab\<rparr>"
  have step: "loss_step m layout live n_trials kp (out, rng) = (out @ [?sc], r)"
    using t(1) by (simp add: loss_step_def loss_scenario_def)
  from Cons[of "out @ [?sc]" r] obtain scs rng' where
    "fold (loss_step m layout live n_trials) kps (out @ [?sc], r) = ((out @ [?sc]) @ scs, rng')" "map sc_kill_pct scs = kps"
    "\<forall>sc \<in> set scs. sc_n_trials sc = n_trials \<and> (\<exists>deads. length deads = unat n_trials \<and>
      (\<forall>D \<in> set deads. D \<subseteq> set live \<and> card D = n_killed live (sc_kill_pct sc)) \<and> tallied m layout deads (sc_dist sc))" by blast
  then show ?case using t(2-) step by (intro exI[of _ "?sc # scs"] exI[of _ rng']) auto
qed simp

section \<open>Losing a zone\<close>

lemma zone_hosts:
  assumes "m_placement m = RendezvousZoneAware" and "live \<noteq> []" and "length (m_zones m) = length (m_nodes m)"
    and "\<forall>n \<in> set live. n < length (m_nodes m)" and "unat l < length (m_n_per_layer m)"
    and "n = m_n_per_layer m ! unat l" and "unat n + 255 < 2 ^ 32"
  defines "Z \<equiv> card ((\<lambda>n. m_zones m ! n) ` set live)"
  shows "\<exists>out. (layer_hosts m c l n live :: ('e, _) res) = Inr out \<and> length out = unat n \<and> set out \<subseteq> set live \<and>
    (\<forall>z. in_zone (m_zones m) z out \<le> (unat n + (Z - 1)) div Z)"
proof -
  obtain out where out: "(place_layer_zone_aware (m_object_id m) c l n (length (m_nodes m)) live (m_zones m) :: ('e, _) res) = Inr out"
    "length out = unat n" "set out \<subseteq> set live" "\<forall>z. in_zone (m_zones m) z out \<le> (unat n + (Z - 1)) div Z"
    using place_layer_ok[OF assms(2-4,7), where 'e = 'e, of "m_object_id m" c l] by (auto simp: Z_def)
  have "(layer_hosts m c l n live :: ('e, _) res) = Inr (map (\<lambda>i. out ! i) [0..<unat n])"
    unfolding layer_hosts_def
  proof (rule rmap_Inr)
    fix i assume "i \<in> set [0..<unat n]"
    then have i: "i < unat n" by simp
    then have "unat (word_of_nat i :: u32) = i" using unsigned_less[of n, where 'a = nat]
      by (simp add: unat_of_nat take_bit_nat_eq_self)
    with i show "(place_shard m c l (word_of_nat i) live :: ('e, _) res) = Inr (out ! i)"
      using assms(1,5,6) out(1,2) by (simp add: place_shard_def)
  qed
  moreover have "map (\<lambda>i. out ! i) [0..<unat n] = out" using out(2) by (metis map_nth)
  ultimately show ?thesis using out by auto
qed

lemma rmap_all2: "(\<And>x. x \<in> set xs \<Longrightarrow> \<exists>y. f x = Inr y \<and> P x y) \<Longrightarrow> \<exists>ys. rmap f xs = Inr ys \<and> list_all2 P xs ys"
proof (induction xs)
  case (Cons x xs)
  then obtain y ys where "f x = Inr y" "P x y" "rmap f xs = Inr ys" "list_all2 P xs ys" by fastforce
  then show ?case by simp
qed simp

definition spread :: "manifest \<Rightarrow> nat list \<Rightarrow> nat \<Rightarrow> nat list \<Rightarrow> bool" where
  "spread m live l out \<longleftrightarrow> (let n = unat (m_n_per_layer m ! l); Z = card ((\<lambda>n. m_zones m ! n) ` set live) in
     length out = n \<and> set out \<subseteq> set live \<and> (\<forall>z. in_zone (m_zones m) z out \<le> (n + (Z - 1)) div Z))"

lemma zone_layout:
  assumes "m_placement m = RendezvousZoneAware" and "live \<noteq> []" and "length (m_zones m) = length (m_nodes m)"
    and "\<forall>n \<in> set live. n < length (m_nodes m)" and "length (m_n_per_layer m) = unat (m_nlayers m)"
    and "\<forall>n \<in> set (m_n_per_layer m). unat n + 255 < 2 ^ 32"
  shows "\<exists>layout. (build_layout m live :: ('e, _) res) = Inr layout \<and> length layout = unat (m_channels m) \<and>
    (\<forall>c < unat (m_channels m). \<forall>l < unat (m_nlayers m). spread m live l (layout ! c ! l))"
proof -
  have layer: "\<exists>out. (rbind (at_idx (m_n_per_layer m) l) (\<lambda>n. layer_hosts m (word_of_nat c) (word_of_nat l) n live) :: ('e, _) res) = Inr out \<and>
      spread m live l out" if l: "l < unat (m_nlayers m)" for c l
  proof -
    have "l < 256" using l unsigned_less[of "m_nlayers m", where 'a = nat] by simp
    then have u: "unat (word_of_nat l :: u8) = l" by (simp add: unat_of_nat take_bit_nat_eq_self)
    have il: "l < length (m_n_per_layer m)" using l assms(5) by simp
    then have "unat (m_n_per_layer m ! l) + 255 < 2 ^ 32" using assms(6) nth_mem by blast
    with zone_hosts[OF assms(1-4), of "word_of_nat l" "m_n_per_layer m ! l" "word_of_nat c", where 'e = 'e] u il
    show ?thesis by (simp add: spread_def Let_def)
  qed
  have chan: "\<exists>row. (rmap (\<lambda>l. rbind (at_idx (m_n_per_layer m) l) (\<lambda>n. layer_hosts m (word_of_nat c) (word_of_nat l) n live))
       [0..<unat (m_nlayers m)] :: ('e, _) res) = Inr row \<and> list_all2 (spread m live) [0..<unat (m_nlayers m)] row" for c
    by (rule rmap_all2) (use layer in auto)
  have "\<exists>layout. (build_layout m live :: ('e, _) res) = Inr layout \<and>
      list_all2 (\<lambda>c row. list_all2 (spread m live) [0..<unat (m_nlayers m)] row) [0..<unat (m_channels m)] layout"
    unfolding build_layout_def by (rule rmap_all2) (use chan in auto)
  then show ?thesis by (auto simp: list_all2_conv_all_nth)
qed

lemma unat_up16: "unat (ucast (k :: u16) :: u32) = unat k"
  using unsigned_less[of k, where 'a = nat] by (simp add: unsigned_ucast_eq take_bit_nat_eq_self)

lemma zone_layer_survives:
  assumes "spread m live l (layout ! c ! l)" and "\<forall>n \<in> set live. n < length (m_zones m)"
    and "unat (m_k m) + (unat (m_n_per_layer m ! l) + (Z - 1)) div Z \<le> unat (m_n_per_layer m ! l)"
    and "Z = card ((\<lambda>n. m_zones m ! n) ` set live)"
  shows "\<not> (word_of_nat (length (filter (\<lambda>n. n \<notin> set (zone_members (m_zones m) z)) (layout ! c ! l))) :: u32) < ucast (m_k m)"
proof -
  let ?out = "layout ! c ! l" and ?n = "unat (m_n_per_layer m ! l)"
  have s: "length ?out = ?n" "set ?out \<subseteq> set live" "in_zone (m_zones m) z ?out \<le> (?n + (Z - 1)) div Z"
    using assms(1,4) by (auto simp: spread_def Let_def)
  have "filter (\<lambda>n. n \<notin> set (zone_members (m_zones m) z)) ?out = filter (\<lambda>n. \<not> m_zones m ! n = z) ?out"
    using s(2) assms(2) by (intro filter_cong) (auto simp: zone_members_def)
  then have "length (filter (\<lambda>n. n \<notin> set (zone_members (m_zones m) z)) ?out) + in_zone (m_zones m) z ?out = ?n"
    using sum_length_filter_compl[of "\<lambda>n. m_zones m ! n = z" ?out] s(1) by (simp add: in_zone_def)
  then have "unat (m_k m) \<le> length (filter (\<lambda>n. n \<notin> set (zone_members (m_zones m) z)) ?out)"
    "length (filter (\<lambda>n. n \<notin> set (zone_members (m_zones m) z)) ?out) \<le> ?n" using s(3) assms(3) by linarith+
  moreover have "?n < 2 ^ 32" using unsigned_less[of "m_n_per_layer m ! l", where 'a = nat] by simp
  ultimately show ?thesis
    by (simp add: word_less_nat_alt unat_up16 unat_of_nat take_bit_nat_eq_self)
qed

section \<open>Copies\<close>

text \<open>Fewer than \<open>K\<close> different shards determine nothing.\<close>

lemma few_undetermined:
  assumes "explains K sl ss X" and "0 < sl" and "card (set ss) < K"
  shows "\<exists>Z. explains K sl ss Z \<and> Z \<noteq> X"
proof -
  have same: "explains K sl (remdups ss) Z = explains K sl ss Z" for Z by (simp add: explains_def)
  have "\<forall>s \<in> set (remdups ss). consistent (gf_mul gf_new) sl X s" and X: "source_ok K sl X"
    using assms(1) by (auto simp: explains_def)
  from split_layer[OF X this(1) split_start] obtain known rl where ok: "split_ok K sl X (remdups ss) (known, rl)" by fastforce
  have ex: "explains K sl (remdups ss) X" using assms(1) same by simp
  have "length rl < length (unknown_positions known K)"
    using split_okD(5)[OF ok ex] length_known_unknown[OF split_okD(1)[OF ok ex]] assms(3)
    by (simp add: length_remdups_card_conv)
  from short_undetermined[OF ok ex assms(2) this] show ?thesis by (simp add: same)
qed

section \<open>Properties\<close>

text \<open>C27: the loss simulation does what it says. For a live set without repetitions it returns one scenario per
  percentage, in order; each distribution counts \<open>n_trials\<close> trials, and behind each trial stands a set of exactly
  the announced number of live nodes, filed under the number of layers, from the first one on without a gap,
  that keep at least \<open>k\<close> shards in every channel on the other nodes.\<close>

theorem simulate_loss_exact:
  assumes "(build_layout m (sort live) :: ('e, _) res) = Inr layout" and "distinct live"
  shows "\<exists>scs rng'. (simulate_loss m live pcts n_trials rng :: ('e, _) res) = Inr (scs, rng') \<and> map sc_kill_pct scs = pcts \<and>
    (\<forall>sc \<in> set scs. sc_n_trials sc = n_trials \<and> length (sc_dist sc) = unat (m_nlayers m) + 1 \<and>
      (\<exists>deads. length deads = unat n_trials \<and>
        (\<forall>D \<in> set deads. D \<subseteq> set live \<and> card D = min (length live * unat (sc_kill_pct sc) div 100) (length live)) \<and>
        (\<forall>r \<le> unat (m_nlayers m). unat (sc_dist sc ! r) =
          length (filter (\<lambda>D. length (takeWhile (layer_survives m layout D) [0..<unat (m_nlayers m)]) = r) deads))))"
proof -
  obtain scs rng' where "fold (loss_step m layout live n_trials) pcts ([], rng) = (scs, rng')" "map sc_kill_pct scs = pcts"
    "\<forall>sc \<in> set scs. sc_n_trials sc = n_trials \<and> (\<exists>deads. length deads = unat n_trials \<and>
      (\<forall>D \<in> set deads. D \<subseteq> set live \<and> card D = n_killed live (sc_kill_pct sc)) \<and> tallied m layout deads (sc_dist sc))"
    using losses_tallied[OF assms(2), of m layout n_trials pcts "[]" rng] by auto
  then show ?thesis
    using assms(1) by (intro exI[of _ scs] exI[of _ rng']) (auto simp: simulate_loss_def tallied_def slot_takeWhile n_killed_def)
qed

text \<open>C28: zone-aware placement survives the loss of any zone. When every layer has at least \<open>k\<close> more shards than
  the fair share \<open>ceil(n / z)\<close> of a zone, \<open>z\<close> being the number of live zones, the report on a cluster of several
  zones lists each zone once, in order, and says of each that all layers remain.\<close>

theorem zone_loss_survived:
  assumes "m_placement m = RendezvousZoneAware" and "live \<noteq> []" and "length (m_zones m) = length (m_nodes m)"
    and "\<forall>n \<in> set live. n < length (m_nodes m)" and "length (m_n_per_layer m) = unat (m_nlayers m)" and "0 < m_nlayers m"
    and "\<forall>n \<in> set (m_n_per_layer m). unat n + 255 < 2 ^ 32 \<and> unat (m_k m) + (unat n + (Z - 1)) div Z \<le> unat n"
    and "Z = card ((\<lambda>n. m_zones m ! n) ` set live)" and "1 < card (set (m_zones m))"
  shows "\<exists>zf. (simulate_zone_failures m live :: ('e, _) res) = Inr zf \<and> map zf_zone zf = sorted_list_of_set (set (m_zones m)) \<and>
    (\<forall>f \<in> set zf. zf_resolution f = Some (m_nlayers m - 1))"
proof -
  have live': "sort live \<noteq> []" "\<forall>n \<in> set (sort live). n < length (m_nodes m)" using assms(2,4) by (auto simp flip: set_empty)
  have n255: "\<forall>n \<in> set (m_n_per_layer m). unat n + 255 < 2 ^ 32" using assms(7) by blast
  obtain layout where layout: "(build_layout m (sort live) :: ('e, _) res) = Inr layout"
    "\<forall>c < unat (m_channels m). \<forall>l < unat (m_nlayers m). spread m (sort live) l (layout ! c ! l)"
    using zone_layout[OF assms(1) live'(1) assms(3) live'(2) assms(5) n255, where 'e = 'e] by blast
  have Z: "Z = card ((\<lambda>n. m_zones m ! n) ` set (sort live))" using assms(8) by simp
  have ok: "layer_survives m layout (set (zone_members (m_zones m) z)) l" if l: "l < unat (m_nlayers m)" for z l
    unfolding layer_survives_def list_all_iff
  proof
    fix c assume c: "c \<in> set [0..<unat (m_channels m)]"
    have il: "m_n_per_layer m ! l \<in> set (m_n_per_layer m)" using l assms(5) by simp
    from c l layout(2) have sp: "spread m (sort live) l (layout ! c ! l)" by simp
    show "\<not> (word_of_nat (length (filter (\<lambda>n. n \<notin> set (zone_members (m_zones m) z)) (layout ! c ! l))) :: u32) < ucast (m_k m)"
      by (rule zone_layer_survives[OF sp _ _ Z]) (use live'(2) assms(3,7) il in auto)
  qed
  have "survivor_slot m layout (set (zone_members (m_zones m) z)) = unat (m_nlayers m)" for z
  proof -
    have "takeWhile (layer_survives m layout (set (zone_members (m_zones m) z))) [0..<unat (m_nlayers m)] = [0..<unat (m_nlayers m)]"
      using ok by (intro takeWhile_eq_all_conv[THEN iffD2]) simp
    then show ?thesis unfolding slot_takeWhile by (simp only: length_upt diff_zero)
  qed
  from this[unfolded survivor_slot_def] have "survivor m layout (set (zone_members (m_zones m) z)) = Some (unat (m_nlayers m) - 1)" for z
    using assms(6) by (cases "survivor m layout (set (zone_members (m_zones m) z))") (auto simp: word_less_nat_alt dest!: spec[of _ z] meta_spec[of _ z])
  moreover have "word_of_nat (unat (m_nlayers m) - 1) = m_nlayers m - 1"
    using assms(6) by (simp add: of_nat_diff word_less_nat_alt Suc_le_eq)
  moreover have "sort (remdups (m_zones m)) = sorted_list_of_set (set (m_zones m))" by (simp add: sorted_list_of_set_sort_remdups)
  moreover have "m_zones m \<noteq> []" using assms(9) by auto
  moreover have "\<not> length (sort (remdups (m_zones m))) \<le> 1" using assms(9) by (simp add: length_remdups_card_conv)
  ultimately show ?thesis
    by (intro exI[of _ "map (zone_failure m layout) (sorted_list_of_set (set (m_zones m)))"])
      (auto simp: simulate_zone_failures_def Let_def layout(1) zone_failure_def o_def)
qed

text \<open>the margin counts copies, not shards. When the nodes answer with fewer than \<open>K\<close> different shards of an
  opaque object, but with at least \<open>K\<close> counting copies on several nodes, as after storing the same content again
  under another live set, the report calls the layer decodable while a read of it reports the layer lost.\<close>

theorem margin_counts_copies:
  assumes "put_opaque_object call live data (m, w) = (Inr u, (m', w'))" and "data \<noteq> []" and "length data < 2 ^ 32"
    and "safe call' (set (opaque_shards m data))" and "gather_layer call' m' live' 0 0 v = (Inr raw, v')"
    and "set raw \<subseteq> set (opaque_shards m data)" and "card (set raw) < K" and "K \<le> length raw" and "length raw < 2 ^ 31"
    and "m_channels m' = 1" and "m_nlayers m' = 1" and "unat (m_k m') = K" and "m_placement m' = Rendezvous" and "live' \<noteq> []"
    and "m_n_per_layer m' = [n]"
  shows "\<exists>s. collect_layer_stats call' m' live' v = (Inr [s], v') \<and> decodable s \<and>
    current_resolution [s] (m_channels m') (m_nlayers m') = Some 0 \<and>
    get_opaque_object call' m' live' v = (Inl (Err (LayerLost 0 0)), v')"
proof -
  note p = put_opaque_spec[OF assms(1-3)]
  let ?sl = "symbol_len_of K (length data)" and ?h = "map shard_hash (opaque_shards m data)"
  have h: "m_shard_hashes m' ! 0 ! 0 = ?h" by (simp add: p(6))
  have ver: "verified ?h raw = raw" using assms(6) by (auto simp: verified_def filter_id_conv)
  have ex: "expected_hashes m' 0 0 = (Inr ?h :: (client_error, _) res)" using represents_expected[OF p(1)] h by simp
  have "sort live' \<noteq> []" using assms(14) by (metis set_empty set_sort)
  then have "(place_shard m' 0 0 i (sort live') :: (client_error, _) res) = Inr (hrw_node \<lparr>sk_object_id = m_object_id m',
      sk_channel = 0, sk_layer = 0, sk_shard_idx = i\<rparr> (sort live'))" for i
    using assms(13) by (simp add: place_shard_def place_def)
  then obtain out where out: "(layer_hosts m' 0 0 n (sort live') :: (client_error, _) res) = Inr out"
    unfolding layer_hosts_def by (simp add: rmap_Inr)
  let ?a = "word_of_nat (length raw) :: u32"
  define s where "s = \<lparr>ls_channel = 0, ls_layer = 0, ls_n_shards = n, ls_n_alive = ?a,
     ls_hosting = word_of_nat (length (remdups out)), ls_k = m_k m', ls_margin = ?a - ucast (m_k m')\<rparr>"
  have pairs: "layer_pairs m' = [(0, 0)]" using assms(10,11) by (simp add: layer_pairs_def)
  have stats: "collect_layer_stats call' m' live' v = (Inr [s], v')"
    using out by (simp add: collect_layer_stats_def pairs layer_stat_def Let_def
        abind_step[where m = "gather_layer call' m' live' 0 0", OF assms(5)] abind_alift_run ex ver assms(15) s_def)
      (simp add: abind_def assms(5) ver)
  have "(ucast (m_k m') :: u32) = word_of_nat (unat (ucast (m_k m') :: u32))" by simp
  then have "ucast (m_k m') = (word_of_nat K :: u32)" by (simp only: unat_up16 assms(12))
  then have "?a - ucast (m_k m') = word_of_nat (length raw - K)" using assms(8) by (simp add: of_nat_diff)
  then have "sint (ls_margin s) = int (length raw - K)"
    using assms(9) by (simp add: s_def signed_of_nat signed_take_bit_int_eq_self)
  then have dec: "decodable s" by (simp add: decodable_def)
  moreover have "current_resolution [s] (m_channels m') (m_nlayers m') = Some 0"
    using dec assms(10,11) by (simp add: current_resolution_def stat_ok_def s_def)
  moreover have "get_opaque_object call' m' live' v = (Inl (Err (LayerLost 0 0)), v')"
  proof -
    have "explains K ?sl raw (chunks_of K ?sl (pad_to (K * ?sl) data))" by (rule explains_authentic[OF p(1) assms(6)])
    from few_undetermined[OF this p(2) assms(7)]
    have "\<not> (\<forall>Z. explains K ?sl raw Z \<longrightarrow> Z = chunks_of K ?sl (pad_to (K * ?sl) data))" by blast
    from get_opaque_spec[OF p(1,4,5) assms(3) p(3,2) assms(4,5), unfolded h ver if_not_P[OF this]] show ?thesis .
  qed
  ultimately show ?thesis using stats by blast
qed

section \<open>Examples\<close>

definition health_example :: manifest where
  "health_example = (manifest_directory 1)\<lparr>m_kind := Opaque, m_k := 4, m_channels := 1, m_nlayers := 1, m_n_per_layer := [16],
     m_nodes := [''a'', ''b'', ''c'', ''d''], m_zones := [0, 0, 1, 1], m_placement := RendezvousZoneAware\<rparr>"

lemma health_example_zones: "card ((\<lambda>n. m_zones health_example ! n) ` set [0, 1, 2, 3]) = 2" "card (set (m_zones health_example)) = 2"
  by (simp_all add: health_example_def)

theorem zone_loss_survived_witness:
  "\<exists>zf. (simulate_zone_failures health_example [0, 1, 2, 3] :: (unit, _) res) = Inr zf \<and> map zf_zone zf = [0, 1] \<and>
    (\<forall>f \<in> set zf. zf_resolution f = Some 0)"
proof -
  have "sorted_list_of_set (set (m_zones health_example)) = [0, 1]"
    by (simp add: health_example_def sorted_list_of_set_sort_remdups)
  moreover have "m_nlayers health_example - 1 = 0" by (simp add: health_example_def)
  ultimately show ?thesis
    using zone_loss_survived[of health_example "[0, 1, 2, 3]" 2, where 'e = unit] unfolding health_example_zones
    by (simp add: health_example_def)
qed

theorem simulate_loss_exact_witness:
  "\<exists>scs rng'. (simulate_loss health_example [0, 1, 2, 3] [50, 75] 3 9 :: (unit, _) res) = Inr (scs, rng') \<and>
    map sc_kill_pct scs = [50, 75] \<and> (\<forall>sc \<in> set scs. sc_n_trials sc = 3 \<and> length (sc_dist sc) = 2)"
proof -
  obtain layout where "(build_layout health_example (sort [0, 1, 2, 3]) :: (unit, _) res) = Inr layout"
    using zone_layout[of health_example "[0, 1, 2, 3]", where 'e = unit] by (auto simp: health_example_def)
  from simulate_loss_exact[OF this, of "[50, 75]" 3 9] show ?thesis by (fastforce simp: health_example_def)
qed

definition copied_node :: manifest where
  "copied_node = one_node\<lparr>m_nodes := replicate 16 ''a''\<rparr>"

lemma copied_run:
  "\<exists>m' s. put_opaque_object (echo []) [0] [7] (copied_node, ()) = (Inr (), (m', ())) \<and> opaque_shards copied_node [7] = [s] \<and>
     m_nodes m' = replicate 16 ''a'' \<and> m_channels m' = 1 \<and> m_nlayers m' = 1 \<and> m_k m' = 16 \<and> m_placement m' = Rendezvous \<and> m_n_per_layer m' = [1]"
proof -
  have n: "m_n_per_layer copied_node = [1]" by (simp add: copied_node_def one_node_def)
  obtain sl ss rng' where e: "encode_layer gf_new [7] 1 (cid_seed (opaque_cid [7] (m_content_type copied_node))) = ((sl, ss), rng')"
    by (metis prod.exhaust)
  then have "encode_layer_with_k gf_new [7] K 1 (cid_seed (opaque_cid [7] (m_content_type copied_node))) = Inr ((sl, ss), rng')"
    by (simp add: encode_layer_is_with_k)
  from encode_with_k_props(3)[OF this] obtain s where "ss = [s]" by (cases ss) auto
  with e have s: "opaque_shards copied_node [7] = [s]" by (simp add: opaque_shards_def n)
  define m' where "m' = (set_opaque [7] copied_node)\<lparr>m_shard_hashes := [[[shard_hash s]]], m_merkle_root := merkle_root [shard_hash s]\<rparr>"
  have "put_opaque_object (echo []) [0] [7] (copied_node, ()) = send_all (echo []) [0] [s] (set_opaque [7] copied_node, ())"
    by (subst put_opaque_run) (simp_all add: s, simp_all add: copied_node_def one_node_def K_def)
  then have "put_opaque_object (echo []) [0] [7] (copied_node, ()) = (Inr (), (m', ()))"
    by (simp add: send_all_def send_step_def send_shard_def abind_assoc manifest_run place_one m'_def set_opaque_def set_cid_def
        copied_node_def one_node_def manifest_directory_def rpc_def echo_def map_err_def expect_ack_def on_manifest_run abind_def[of "Pair _"])
  moreover have "m_nodes m' = replicate 16 ''a''" "m_channels m' = 1" "m_nlayers m' = 1" "m_k m' = 16" "m_placement m' = Rendezvous" "m_n_per_layer m' = [1]"
    by (simp_all add: m'_def set_opaque_def set_cid_def copied_node_def one_node_def manifest_directory_def)
  ultimately show ?thesis using s by blast
qed

lemma gather_copies:
  assumes "m_nodes m = replicate 16 ''a''"
  shows "gather_layer (echo [s]) m [0..<16] 0 0 () = (Inr (replicate 16 s), ())"
proof -
  have "afold (gather_step (echo [s]) m 0 0) acc ns () = (Inr (acc @ replicate (length ns) s), ())" if "\<forall>n \<in> set ns. n < 16" for acc ns
    using that
  proof (induction ns arbitrary: acc)
    case (Cons n ns)
    have "gather_step (echo [s]) m 0 0 acc n () = (Inr (acc @ [s]), ())"
      using Cons.prems by (simp add: gather_step_def assms abind_def rpc_def echo_def map_err_def expect_shards_def)
    with Cons show ?case by (simp add: abind_step[where m = "gather_step (echo [s]) m 0 0 acc n"])
  qed simp
  from this[of "[0..<16]" "[]"] show ?thesis by (simp add: gather_layer_def)
qed

theorem margin_counts_copies_witness:
  "\<exists>m' s st. put_opaque_object (echo []) [0] [7] (copied_node, ()) = (Inr (), (m', ())) \<and>
    collect_layer_stats (echo [s]) m' [0..<16] () = (Inr [st], ()) \<and> decodable st \<and>
    get_opaque_object (echo [s]) m' [0..<16] () = (Inl (Err (LayerLost 0 0)), ())"
proof -
  obtain m' s where put: "put_opaque_object (echo []) [0] [7] (copied_node, ()) = (Inr (), (m', ()))"
    and s: "opaque_shards copied_node [7] = [s]" and f: "m_nodes m' = replicate 16 ''a''" "m_channels m' = 1" "m_nlayers m' = 1"
      "m_k m' = 16" "m_placement m' = Rendezvous" "m_n_per_layer m' = [1]" using copied_run by blast
  have "safe (echo [s]) (set (opaque_shards copied_node [7]))" by (simp add: s safe_echo)
  from margin_counts_copies[OF put _ _ this gather_copies[OF f(1)] _ _ _ _ f(2,3) _ f(5) _ f(6)] put
  show ?thesis by (auto simp: s f(4) K_def)
qed

end
