(* ===== verification/Reputation.thy ===== *)
theory Reputation
  imports Media
begin

text \<open>
  \<open>holofs-cluster/src/reputation.rs\<close>: the score of every node, an exponential moving average in \<open>f32\<close> of the
  results of the audits.

  Shown: rounding is monotone, so that with the default factor a score never leaves the interval from 0 to 1, and
  four results in a row decide whether a node is in or out, whatever came before.
\<close>

section \<open>The code\<close>

record reputation =
  rp_scores :: "u32 list"
  rp_alpha :: u32

definition DEFAULT_ALPHA :: u32 where "DEFAULT_ALPHA = 0x3E4CCCCD"
definition DEFAULT_THRESHOLD :: u32 where "DEFAULT_THRESHOLD = 0x3F000000"

definition reputation_new :: "nat \<Rightarrow> u32 \<Rightarrow> reputation" where
  "reputation_new n_nodes initial = \<lparr>rp_scores = replicate n_nodes (f32_clamp 0 f32_ONE initial), rp_alpha = DEFAULT_ALPHA\<rparr>"

definition with_alpha :: "u32 \<Rightarrow> reputation \<Rightarrow> reputation" where
  "with_alpha alpha r = r\<lparr>rp_alpha := f32_clamp 0 f32_ONE alpha\<rparr>"

definition ema :: "u32 \<Rightarrow> u32 \<Rightarrow> u32 \<Rightarrow> u32" where
  "ema alpha outcome s = f32_add (f32_mul alpha outcome) (f32_mul (f32_sub f32_ONE alpha) s)"

definition observe :: "nat \<Rightarrow> bool \<Rightarrow> reputation \<Rightarrow> reputation" where
  "observe node success r =
     (if node \<ge> length (rp_scores r) then r
      else r\<lparr>rp_scores := (rp_scores r)[node := ema (rp_alpha r) (if success then f32_ONE else 0) (rp_scores r ! node)]\<rparr>)"

definition score :: "reputation \<Rightarrow> nat \<Rightarrow> u32" where
  "score r node = (if node < length (rp_scores r) then rp_scores r ! node else 0)"

definition f32_ge :: "u32 \<Rightarrow> u32 \<Rightarrow> bool" where
  "f32_ge x y \<longleftrightarrow> \<not> f32_nan x \<and> \<not> f32_nan y \<and> f32_val y \<le> f32_val x"

definition alive :: "reputation \<Rightarrow> nat \<Rightarrow> u32 \<Rightarrow> bool" where
  "alive r node threshold \<longleftrightarrow> f32_ge (score r node) threshold"

definition filter_live :: "reputation \<Rightarrow> nat list \<Rightarrow> u32 \<Rightarrow> nat list" where
  "filter_live r live threshold = filter (\<lambda>n. alive r n threshold) live"

section \<open>Rounding is monotone\<close>

text \<open>\<open>f32_round num den\<close> is an infinity only beyond the finite values.\<close>

lemma f32_round_finite:
  assumes "0 < den" and "num \<le> den * 2 ^ 150"
  shows "f32_round num den \<noteq> f32_INF" and "\<not> f32_neg (f32_round num den)" and "f32_exp (f32_round num den) < 255"
proof -
  define e where "e = bit_len (num div den) - 24"
  define q where "q = div_even num (den * 2 ^ e)"
  have "num div den \<le> den * 2 ^ 150 div den" by (rule div_le_mono[OF assms(2)])
  also have "\<dots> = 2 ^ 150" using assms(1) by (intro nonzero_mult_div_cancel_left) simp
  finally have le: "num div den \<le> 2 ^ 150" .
  have "bit_len (num div den) \<le> 151"
  proof (rule ccontr)
    assume "\<not> bit_len (num div den) \<le> 151"
    then have "151 \<le> bit_len (num div den) - 1" "num div den \<noteq> 0" by (simp, metis bit_len.simps zero_le)
    then have "(2 :: nat) ^ 151 \<le> num div den" using bit_len_le[of "num div den"] power_increasing[of 151 "bit_len (num div den) - 1" "2 :: nat"] by linarith
    with le show False by simp
  qed
  then have e: "e \<le> 127" by (simp add: e_def)
  have "num < den * 2 ^ e * 2 ^ 24" using bit_len_bound[OF assms(1) e_def] by (simp add: power_add algebra_simps)
  then have "num div (den * 2 ^ e) < 2 ^ 24" using assms(1) by (simp add: div_less_iff_less_mult mult.commute)
  then have q: "q \<le> 2 ^ 24" by (auto simp: q_def div_even_def Let_def)
  have small: "e * 2 ^ 23 + q < 255 * 2 ^ 23" using e q by simp
  then have r: "f32_round num den = word_of_nat (e * 2 ^ 23 + q)"
    by (simp add: f32_round_def Let_def e_def[symmetric] q_def[symmetric])
  have u: "unat (f32_round num den) = e * 2 ^ 23 + q"
    unfolding r unat_of_nat using small by (simp add: take_bit_nat_eq_self del: of_nat_add of_nat_mult)
  have "unat f32_INF = 255 * 2 ^ 23" by (simp add: f32_INF_def)
  with u small show "f32_round num den \<noteq> f32_INF" by auto
  have "unat (f32_round num den) div 2 ^ 23 < 255" unfolding u using small by (simp add: div_less_iff_less_mult)
  then show "f32_exp (f32_round num den) < 255" unfolding f32_exp_alt by simp
  have "\<not> bit (unat (f32_round num den)) 31" unfolding u using small by (simp add: bit_iff_odd)
  then show "\<not> f32_neg (f32_round num den)" by (simp add: f32_neg_def bit_unsigned_iff)
qed

lemma f32_round_le:
  assumes "0 < den" and "f32_round num den \<noteq> f32_INF" and "num \<le> f32_units y * den"
  shows "f32_units (f32_round num den) \<le> f32_units y"
proof (rule ccontr)
  assume "\<not> f32_units (f32_round num den) \<le> f32_units y"
  then have "int (f32_units y * den) < int (f32_units (f32_round num den) * den)" using assms(1) by simp
  with f32_round_spec[OF assms(1,2), of y] assms(3) show False by linarith
qed

lemma f32_round_ge:
  assumes "0 < den" and "f32_round num den \<noteq> f32_INF" and "f32_units y * den \<le> num"
  shows "f32_units y \<le> f32_units (f32_round num den)"
proof (rule ccontr)
  assume "\<not> f32_units y \<le> f32_units (f32_round num den)"
  then have "int (f32_units (f32_round num den) * den) < int (f32_units y * den)" using assms(1) by simp
  with f32_round_spec[OF assms(1,2), of y] assms(3) show False by linarith
qed

lemma f32_round_mono:
  assumes "0 < den" and "num \<le> num'" and "f32_round num den \<noteq> f32_INF" and "f32_round num' den \<noteq> f32_INF"
  shows "f32_units (f32_round num den) \<le> f32_units (f32_round num' den)"
proof (rule ccontr)
  let ?u = "f32_units (f32_round num den)" and ?u' = "f32_units (f32_round num' den)"
  assume "\<not> ?u \<le> ?u'"
  then have "int (?u' * den) < int (?u * den)" using assms(1) by simp
  moreover have "\<bar>int num - int (?u * den)\<bar> \<le> \<bar>int num - int (?u' * den)\<bar>" by (rule f32_round_spec[OF assms(1,3)])
  moreover have "\<bar>int num' - int (?u' * den)\<bar> \<le> \<bar>int num' - int (?u * den)\<bar>" by (rule f32_round_spec[OF assms(1,4)])
  ultimately have "num = num'" using assms(2) by linarith
  with \<open>\<not> ?u \<le> ?u'\<close> show False by simp
qed

lemma bit_len_eq: "2 ^ k \<le> n \<Longrightarrow> n < 2 ^ Suc k \<Longrightarrow> bit_len n = Suc k"
proof (induction k arbitrary: n)
  case 0
  then have "n = 1" by simp
  then show ?case by (simp add: bit_len.simps[of "Suc 0"] bit_len.simps[of 0])
next
  case (Suc k)
  then have "2 ^ k \<le> n div 2" "n div 2 < 2 ^ Suc k" by auto
  moreover have "0 < n" by (rule less_le_trans[OF _ Suc.prems(1)]) simp
  ultimately show ?case using Suc.IH by (subst bit_len.simps) simp
qed

lemma f32_round_eval:
  assumes "2 ^ (23 + e) \<le> num div den" and "num div den < 2 ^ (24 + e)" and "e * 2 ^ 23 + div_even num (den * 2 ^ e) < 255 * 2 ^ 23"
  shows "f32_round num den = word_of_nat (e * 2 ^ 23 + div_even num (den * 2 ^ e))"
proof -
  have "bit_len (num div den) = Suc (23 + e)" by (rule bit_len_eq) (use assms(1,2) in simp_all)
  then have "bit_len (num div den) - 24 = e" by simp
  with assms(3) show ?thesis by (simp add: f32_round_def Let_def)
qed

section \<open>Values between 0 and 1\<close>

definition in01 :: "u32 \<Rightarrow> bool" where
  "in01 x \<longleftrightarrow> f32_exp x < 255 \<and> 0 \<le> f32_val x \<and> f32_val x \<le> 2 ^ 149"

definition finite_nonneg :: "u32 \<Rightarrow> bool" where
  "finite_nonneg x \<longleftrightarrow> f32_exp x < 255 \<and> 0 \<le> f32_val x"

lemma finite_nonneg_val: "finite_nonneg x \<Longrightarrow> f32_val x = int (f32_units x)"
  by (auto simp: finite_nonneg_def f32_val_def split: if_splits)

lemma finite_not: "f32_exp x < 255 \<Longrightarrow> \<not> f32_nan x \<and> \<not> f32_inf x"
  by (auto simp: f32_nan_def f32_inf_def)

lemma signed_simps: "f32_exp (f32_signed b x) = f32_exp x" "f32_units (f32_signed b x) = f32_units x"
proof -
  have e: "(0x80000000 :: u32) = 2 ^ 31" by simp
  have "bit (0x80000000 :: u32) n \<longleftrightarrow> n = 31" for n unfolding e bit_exp_iff by auto
  note bits = this
  have m8: "(0xFF :: u32) = mask 8" and m23: "(0x7FFFFF :: u32) = mask 23" by (simp_all add: mask_eq_exp_minus_1)
  have "drop_bit 23 (x OR 0x80000000) AND 0xFF = drop_bit 23 x AND 0xFF"
    unfolding m8 take_bit_eq_mask[symmetric]
    by (rule bit_word_eqI) (simp only: bit_take_bit_iff bit_drop_bit_eq bit_or_iff bits o_apply, auto)
  moreover have "(x OR 0x80000000) AND 0x7FFFFF = x AND 0x7FFFFF"
    unfolding m23 take_bit_eq_mask[symmetric]
    by (rule bit_word_eqI) (simp only: bit_take_bit_iff bit_or_iff bits, auto)
  ultimately show "f32_exp (f32_signed b x) = f32_exp x" "f32_units (f32_signed b x) = f32_units x"
    by (simp_all add: f32_signed_def f32_exp_def f32_frac_def f32_units_def)
qed

lemma round_01:
  assumes "0 < den" and "num \<le> den * 2 ^ 150"
  defines "r \<equiv> f32_round num den"
  shows "finite_nonneg r \<and> (\<forall>z. num \<le> f32_units z * den \<longrightarrow> f32_units r \<le> f32_units z) \<and>
    (\<forall>z. f32_units z * den \<le> num \<longrightarrow> f32_units z \<le> f32_units r)"
  using f32_round_finite[OF assms(1,2)] f32_round_le[OF assms(1)] f32_round_ge[OF assms(1)]
  by (auto simp: r_def finite_nonneg_def f32_val_def)

lemma round_zero: "0 < den \<Longrightarrow> f32_round 0 den = 0"
  by (simp add: f32_round_def bit_len.simps[of 0] div_even_def Let_def)

lemma mul_01:
  assumes "finite_nonneg x" and "finite_nonneg y" and "f32_units x * f32_units y \<le> 2 ^ 149 * 2 ^ 150"
  shows "finite_nonneg (f32_mul x y) \<and> f32_units (f32_mul x y) = f32_units (f32_round (f32_units x * f32_units y) (2 ^ 149))"
proof -
  let ?r = "f32_round (f32_units x * f32_units y) (2 ^ 149)"
  have m: "f32_mul x y = f32_signed (f32_neg x \<noteq> f32_neg y) ?r"
    using assms(1,2) finite_not[of x] finite_not[of y] by (simp add: f32_mul_def finite_nonneg_def Let_def)
  have r: "finite_nonneg ?r" using round_01[of "2 ^ 149" "f32_units x * f32_units y"] assms(3) by simp
  have zero: "f32_neg z \<Longrightarrow> finite_nonneg z \<Longrightarrow> f32_units z = 0" for z by (auto simp: finite_nonneg_def f32_val_def)
  have "f32_units ?r = 0" if "f32_neg x \<noteq> f32_neg y"
  proof -
    have "f32_units x * f32_units y = 0" using that zero[of x] zero[of y] assms(1,2) by auto
    then have "?r = 0" by (simp only: round_zero[of "2 ^ 149"] zero_less_power zero_less_numeral)
    then show ?thesis by (simp add: f32_units_def f32_exp_def f32_frac_def)
  qed
  then show ?thesis using r unfolding m
    by (cases "f32_neg x = f32_neg y") (auto simp: finite_nonneg_def signed_simps f32_val_def f32_signed_def[of False])
qed

lemma add_01:
  assumes "finite_nonneg x" and "finite_nonneg y" and "f32_units x + f32_units y \<le> 2 ^ 150"
  shows "finite_nonneg (f32_add x y) \<and> f32_units (f32_add x y) = f32_units (f32_round (f32_units x + f32_units y) 1)"
proof (cases "f32_units x + f32_units y = 0")
  case True
  then have "f32_add x y = f32_signed (f32_neg x \<and> f32_neg y) 0"
    using assms(1,2) finite_not[of x] finite_not[of y] by (simp add: f32_add_def finite_nonneg_def Let_def f32_val_def)
  with True show ?thesis
    by (simp add: round_zero finite_nonneg_def signed_simps f32_val_def) (simp add: f32_units_def f32_exp_def f32_frac_def)
next
  case False
  have v: "f32_val x + f32_val y = int (f32_units x + f32_units y)" using assms(1,2) by (simp add: finite_nonneg_val)
  have nz: "int (f32_units x) + int (f32_units y) \<noteq> 0" using False by linarith
  have "f32_add x y = f32_signed False (f32_round (f32_units x + f32_units y) 1)"
    using assms(1,2) finite_not[of x] finite_not[of y] False v nz by (simp add: f32_add_def finite_nonneg_def Let_def nat_int_add)
  then show ?thesis using round_01[of 1 "f32_units x + f32_units y"] assms(3) by (simp add: f32_signed_def)
qed

section \<open>One observation with the default factor\<close>

lemma in01_units: "in01 x \<longleftrightarrow> finite_nonneg x \<and> f32_units x \<le> 2 ^ 149"
proof -
  have "int (f32_units x) \<le> 2 ^ 149 \<longleftrightarrow> f32_units x \<le> 2 ^ 149" by (metis of_nat_le_iff of_nat_numeral of_nat_power)
  then show ?thesis using finite_nonneg_val[of x] by (auto simp only: in01_def finite_nonneg_def)
qed

definition BETA :: u32 where "BETA = 0x3F4CCCCD"

lemma f32_units_numeral:
  "f32_exp x = unat x div 2 ^ 23 mod 256 \<Longrightarrow> f32_units x = (if unat x div 2 ^ 23 mod 256 = 0 then unat x mod 2 ^ 23
     else (unat x mod 2 ^ 23 + 2 ^ 23) * 2 ^ (unat x div 2 ^ 23 mod 256 - 1))"
  by (simp add: f32_units_def f32_frac_alt)

lemmas units_eval = f32_units_numeral[OF f32_exp_alt]

lemmas rep_consts = DEFAULT_ALPHA_def BETA_def f32_ONE_def DEFAULT_THRESHOLD_def

lemma units_consts:
  "f32_units DEFAULT_ALPHA = 13421773 * 2 ^ 123" "f32_units BETA = 13421773 * 2 ^ 125" "f32_units f32_ONE = 2 ^ 149"
  "f32_units 0 = 0" "f32_units DEFAULT_THRESHOLD = 2 ^ 148"
  by (simp_all add: units_eval DEFAULT_ALPHA_def BETA_def f32_ONE_def DEFAULT_THRESHOLD_def)

lemma pos_pattern: "unat x < 255 * 2 ^ 23 \<Longrightarrow> finite_nonneg x"
proof -
  assume x: "unat x < 255 * 2 ^ 23"
  then have "\<not> bit (unat x) 31" by (simp add: bit_iff_odd)
  then have "\<not> f32_neg x" by (simp add: f32_neg_def bit_unsigned_iff)
  moreover have "f32_exp x < 255" using x unfolding f32_exp_alt by (metis div_less_iff_less_mult less_trans mod_less_eq_dividend order_le_less_trans zero_less_numeral zero_less_power)
  ultimately show ?thesis by (simp add: finite_nonneg_def f32_val_def)
qed

lemma finite_consts: "finite_nonneg DEFAULT_ALPHA" "finite_nonneg BETA" "finite_nonneg f32_ONE" "finite_nonneg 0" "finite_nonneg DEFAULT_THRESHOLD"
  by (rule pos_pattern, simp add: DEFAULT_ALPHA_def BETA_def f32_ONE_def DEFAULT_THRESHOLD_def)+

lemma round_beta: "f32_round (2 ^ 149 - 13421773 * 2 ^ 123) 1 = BETA"
  by (subst f32_round_eval[of 125]) (simp_all add: div_even_def Let_def BETA_def)

lemma round_one: "f32_round (13421773 * 2 ^ 123 + 13421773 * 2 ^ 125) 1 = f32_ONE"
  by (subst f32_round_eval[of 126]) (simp_all add: div_even_def Let_def f32_ONE_def)

lemma beta: "f32_sub f32_ONE DEFAULT_ALPHA = BETA"
proof -
  let ?n = "DEFAULT_ALPHA XOR 0x80000000"
  have n: "?n = 0xBE4CCCCD" by (simp add: DEFAULT_ALPHA_def)
  have u: "f32_units ?n = 13421773 * 2 ^ 123" "f32_exp ?n < 255" unfolding n f32_exp_alt by (simp_all add: units_eval)
  have neg: "f32_neg ?n" unfolding n f32_neg_def by simp
  have v: "f32_val f32_ONE = int (2 ^ 149)" "f32_val ?n = - int (13421773 * 2 ^ 123)"
    using neg finite_nonneg_val[OF finite_consts(3)] by (simp_all add: f32_val_def[of ?n] u units_consts)
  have d: "int (2 ^ 149) + - int (13421773 * 2 ^ 123) = int (2 ^ 149 - 13421773 * 2 ^ 123)" by simp
  have "f32_add f32_ONE ?n = f32_signed False (f32_round (2 ^ 149 - 13421773 * 2 ^ 123) 1)"
    using finite_not[OF u(2)] finite_not[of f32_ONE] finite_consts(3)
    unfolding f32_add_def v d finite_nonneg_def by (simp add: Let_def)
  moreover have "\<not> f32_nan DEFAULT_ALPHA" using finite_not[of DEFAULT_ALPHA] finite_consts(1) by (simp add: finite_nonneg_def)
  ultimately show ?thesis by (simp add: f32_sub_def round_beta[simplified] f32_signed_def)
qed

lemma beta_mul:
  assumes "in01 s"
  shows "finite_nonneg (f32_mul BETA s)" and "f32_units (f32_mul BETA s) \<le> f32_units BETA"
    and "f32_units BETA * f32_units s \<le> f32_units z * 2 ^ 149 \<Longrightarrow> f32_units (f32_mul BETA s) \<le> f32_units z"
    and "f32_units z * 2 ^ 149 \<le> f32_units BETA * f32_units s \<Longrightarrow> f32_units z \<le> f32_units (f32_mul BETA s)"
proof -
  let ?p = "f32_units BETA * f32_units s"
  have s: "finite_nonneg s" "f32_units s \<le> 2 ^ 149" using assms by (simp_all add: in01_units)
  have p: "?p \<le> f32_units BETA * 2 ^ 149" using s(2) by simp
  also have "\<dots> \<le> 2 ^ 149 * 2 ^ 150" by (simp add: units_consts)
  finally have le: "?p \<le> 2 ^ 149 * 2 ^ 150" .
  have m: "finite_nonneg (f32_mul BETA s) \<and> f32_units (f32_mul BETA s) = f32_units (f32_round ?p (2 ^ 149))"
    by (rule mul_01[OF finite_consts(2) s(1) le])
  have pos: "(0 :: nat) < 2 ^ 149" by simp
  note r = round_01[OF pos le]
  show "finite_nonneg (f32_mul BETA s)" using m by blast
  show "?p \<le> f32_units z * 2 ^ 149 \<Longrightarrow> f32_units (f32_mul BETA s) \<le> f32_units z"
    "f32_units z * 2 ^ 149 \<le> ?p \<Longrightarrow> f32_units z \<le> f32_units (f32_mul BETA s)" using m r by metis+
  show "f32_units (f32_mul BETA s) \<le> f32_units BETA" using m r p by metis
qed

lemma ema_fail:
  assumes "in01 s"
  shows "in01 (ema DEFAULT_ALPHA 0 s)"
    and "f32_units BETA * f32_units s \<le> f32_units z * 2 ^ 149 \<Longrightarrow> f32_units (ema DEFAULT_ALPHA 0 s) \<le> f32_units z"
proof -
  let ?m = "f32_mul BETA s"
  have a: "finite_nonneg (f32_mul DEFAULT_ALPHA 0) \<and> f32_units (f32_mul DEFAULT_ALPHA 0) = 0"
    using mul_01[OF finite_consts(1,4)] round_zero[of "2 ^ 149"] by (simp add: units_consts)
  have um: "f32_units ?m \<le> 2 ^ 149" using beta_mul(2)[OF assms] by (simp add: units_consts)
  then have "f32_units (f32_mul DEFAULT_ALPHA 0) + f32_units ?m \<le> 2 ^ 150" using a by simp
  from add_01[OF _ beta_mul(1)[OF assms] this] a
  have e: "finite_nonneg (ema DEFAULT_ALPHA 0 s) \<and> f32_units (ema DEFAULT_ALPHA 0 s) = f32_units (f32_round (f32_units ?m) 1)"
    by (simp add: ema_def beta)
  have "f32_units ?m \<le> 1 * 2 ^ 150" using um by simp
  from round_01[OF zero_less_one this] have r: "f32_units (f32_round (f32_units ?m) 1) \<le> f32_units ?m" by simp
  show "in01 (ema DEFAULT_ALPHA 0 s)" using e r um by (simp add: in01_units)
  show "f32_units (ema DEFAULT_ALPHA 0 s) \<le> f32_units z" if "f32_units BETA * f32_units s \<le> f32_units z * 2 ^ 149"
    using beta_mul(3)[OF assms that] e r by linarith
qed

lemma ema_pass:
  assumes "in01 s"
  shows "in01 (ema DEFAULT_ALPHA f32_ONE s)"
    and "f32_units y * 2 ^ 149 \<le> f32_units BETA * f32_units s \<Longrightarrow> f32_units z \<le> f32_units DEFAULT_ALPHA + f32_units y \<Longrightarrow>
      f32_units z \<le> f32_units (ema DEFAULT_ALPHA f32_ONE s)"
proof -
  let ?m = "f32_mul BETA s" and ?a = "f32_mul DEFAULT_ALPHA f32_ONE"
  have pos: "(0 :: nat) < 2 ^ 149" by simp
  have le: "f32_units DEFAULT_ALPHA * f32_units f32_ONE \<le> 2 ^ 149 * 2 ^ 150" by (simp add: units_consts)
  have a: "finite_nonneg ?a \<and> f32_units ?a = f32_units DEFAULT_ALPHA"
    using mul_01[OF finite_consts(1,3) le] round_01[OF pos le] by (metis le_antisym order_refl units_consts(3))
  have sum: "f32_units ?a + f32_units ?m \<le> f32_units DEFAULT_ALPHA + f32_units BETA" using a beta_mul(2)[OF assms] by simp
  then have b: "f32_units ?a + f32_units ?m \<le> 2 ^ 150" by (simp add: units_consts)
  from add_01[OF _ beta_mul(1)[OF assms] b] a
  have e: "finite_nonneg (ema DEFAULT_ALPHA f32_ONE s) \<and>
      f32_units (ema DEFAULT_ALPHA f32_ONE s) = f32_units (f32_round (f32_units ?a + f32_units ?m) 1)"
    by (simp add: ema_def beta)
  have b': "f32_units ?a + f32_units ?m \<le> 1 * 2 ^ 150" using b by simp
  have one: "f32_round (f32_units DEFAULT_ALPHA + f32_units BETA) 1 = f32_ONE" by (simp only: units_consts round_one)
  have "f32_ONE \<noteq> f32_INF" by (simp add: f32_ONE_def f32_INF_def)
  with f32_round_mono[OF zero_less_one sum f32_round_finite(1)[OF zero_less_one b']] one
  have "f32_units (f32_round (f32_units ?a + f32_units ?m) 1) \<le> f32_units f32_ONE" by simp
  then show "in01 (ema DEFAULT_ALPHA f32_ONE s)" using e by (simp add: in01_units units_consts)
  show "f32_units z \<le> f32_units (ema DEFAULT_ALPHA f32_ONE s)"
    if "f32_units y * 2 ^ 149 \<le> f32_units BETA * f32_units s" "f32_units z \<le> f32_units DEFAULT_ALPHA + f32_units y"
  proof -
    have "f32_units z * 1 \<le> f32_units ?a + f32_units ?m" using beta_mul(4)[OF assms that(1)] that(2) a by simp
    with round_01[OF zero_less_one b'] e show ?thesis by metis
  qed
qed

text \<open>Four failures bring any score below one half, four passes to at least one half: step by step over patterns of
  simple values.\<close>

lemma four_fails:
  assumes "in01 s"
  shows "f32_units (((ema DEFAULT_ALPHA 0) ^^ 4) s) \<le> f32_units 0x3EE00000"
proof -
  let ?f = "ema DEFAULT_ALPHA 0"
  have i: "in01 ((?f ^^ n) s)" for n using assms by (induction n) (simp_all add: ema_fail(1))
  have step: "f32_units ((?f ^^ n) s) \<le> f32_units y \<Longrightarrow> f32_units BETA * f32_units y \<le> f32_units z * 2 ^ 149 \<Longrightarrow>
      f32_units ((?f ^^ Suc n) s) \<le> f32_units z" for n y z
    using ema_fail(2)[OF i[of n], of z] mult_le_mono2[of "f32_units ((?f ^^ n) s)" "f32_units y" "f32_units BETA"]
    by (metis comp_apply funpow.simps(2) le_trans)
  have "f32_units ((?f ^^ 0) s) \<le> f32_units f32_ONE" using assms by (simp add: in01_units units_consts)
  then have "f32_units ((?f ^^ Suc 0) s) \<le> f32_units 0x3F500000" by (rule step) (simp add: units_eval rep_consts)
  then have "f32_units ((?f ^^ Suc (Suc 0)) s) \<le> f32_units 0x3F280000" by (rule step) (simp add: units_eval rep_consts)
  then have "f32_units ((?f ^^ Suc (Suc (Suc 0))) s) \<le> f32_units 0x3F080000" by (rule step) (simp add: units_eval rep_consts)
  then have "f32_units ((?f ^^ Suc (Suc (Suc (Suc 0)))) s) \<le> f32_units 0x3EE00000" by (rule step) (simp add: units_eval rep_consts)
  then show ?thesis by (simp only: eval_nat_numeral BitM.simps numeral_One)
qed

lemma four_passes:
  assumes "in01 s"
  shows "f32_units DEFAULT_THRESHOLD \<le> f32_units (((ema DEFAULT_ALPHA f32_ONE) ^^ 4) s)"
proof -
  let ?f = "ema DEFAULT_ALPHA f32_ONE"
  have i: "in01 ((?f ^^ n) s)" for n using assms by (induction n) (simp_all add: ema_pass(1))
  have step: "f32_units x \<le> f32_units ((?f ^^ n) s) \<Longrightarrow> f32_units y * 2 ^ 149 \<le> f32_units BETA * f32_units x \<Longrightarrow>
      f32_units z \<le> f32_units DEFAULT_ALPHA + f32_units y \<Longrightarrow> f32_units z \<le> f32_units ((?f ^^ Suc n) s)" for n x y z
    using ema_pass(2)[OF i[of n], of y z] mult_le_mono2[of "f32_units x" "f32_units ((?f ^^ n) s)" "f32_units BETA"]
    by (metis comp_apply funpow.simps(2) le_trans)
  have "f32_units 0 \<le> f32_units ((?f ^^ 0) s)" by (simp add: units_consts)
  then have "f32_units 0x3E400000 \<le> f32_units ((?f ^^ Suc 0) s)" by (rule step[where y = "0"]) (simp_all add: units_eval rep_consts)
  then have "f32_units 0x3EB00000 \<le> f32_units ((?f ^^ Suc (Suc 0)) s)" by (rule step[where y = "0x3E190000"]) (simp_all add: units_eval rep_consts)
  then have "f32_units 0x3EF00000 \<le> f32_units ((?f ^^ Suc (Suc (Suc 0))) s)" by (rule step[where y = "0x3E8C0000"]) (simp_all add: units_eval rep_consts)
  then have "f32_units DEFAULT_THRESHOLD \<le> f32_units ((?f ^^ Suc (Suc (Suc (Suc 0)))) s)" by (rule step[where y = "0x3EBF0000"]) (simp_all add: units_eval rep_consts)
  then show ?thesis by (simp only: eval_nat_numeral BitM.simps numeral_One)
qed

section \<open>Properties\<close>

lemma observe_score:
  "node < length (rp_scores r) \<Longrightarrow> score (observe node b r) n =
     (if n = node then ema (rp_alpha r) (if b then f32_ONE else 0) (score r n) else score r n)"
  by (auto simp: observe_def score_def)

lemma observe_fields [simp]: "length (rp_scores (observe node b r)) = length (rp_scores r)" "rp_alpha (observe node b r) = rp_alpha r"
  by (simp_all add: observe_def)

lemma observe_01: "rp_alpha r = DEFAULT_ALPHA \<Longrightarrow> in01 (score r n) \<Longrightarrow> in01 (score (observe node b r) n)"
  by (cases "node < length (rp_scores r)") (auto simp: observe_score ema_fail(1) ema_pass(1), simp add: observe_def)

lemma observe_run: "(observe node b ^^ k) r = r' \<Longrightarrow> node < length (rp_scores r) \<Longrightarrow>
    score r' node = (ema (rp_alpha r) (if b then f32_ONE else 0) ^^ k) (score r node) \<and> length (rp_scores r') = length (rp_scores r) \<and>
    rp_alpha r' = rp_alpha r"
  by (induction k arbitrary: r') (auto simp: observe_score)

lemma ge_units: "finite_nonneg x \<Longrightarrow> finite_nonneg y \<Longrightarrow> f32_ge x y \<longleftrightarrow> f32_units y \<le> f32_units x"
  using finite_not[of x] finite_not[of y] by (simp add: f32_ge_def finite_nonneg_val) (simp add: finite_nonneg_def)

lemma in01_funpow: "in01 s \<Longrightarrow> in01 ((ema DEFAULT_ALPHA (if b then f32_ONE else 0) ^^ k) s)"
  by (induction k) (auto simp: ema_fail(1) ema_pass(1))

text \<open>a node's reputation is bounded and forgets. With the default factor, a score that starts between 0 and 1
  stays there through any sequence of observations of any nodes, in \<open>f32\<close> arithmetic with its roundings; and
  whatever the score, four failures in a row take the node out of the live set at the default threshold, and four
  passes bring it back in.\<close>

theorem reputation_decides:
  assumes "rp_alpha r = DEFAULT_ALPHA" and "node < length (rp_scores r)" and "in01 (score r node)"
  shows "in01 (score (fold (\<lambda>(n, b). observe n b) obs r) node) \<and>
    node \<notin> set (filter_live ((observe node False ^^ 4) r) live DEFAULT_THRESHOLD) \<and>
    (node \<in> set live \<longrightarrow> node \<in> set (filter_live ((observe node True ^^ 4) r) live DEFAULT_THRESHOLD))"
proof -
  have "in01 (score (fold (\<lambda>(n, b). observe n b) obs r) node)"
    using assms(1,3) by (induction obs arbitrary: r) (auto simp: observe_01)
  moreover have s: "score ((observe node b ^^ 4) r) node = (ema DEFAULT_ALPHA (if b then f32_ONE else 0) ^^ 4) (score r node)" for b
    using observe_run[where node = node and b = b and k = 4 and r = r] assms(1,2) by simp
  have fin: "finite_nonneg (score ((observe node b ^^ 4) r) node)" for b
    unfolding s using in01_funpow[OF assms(3)] by (simp add: in01_units)
  have "\<not> alive ((observe node False ^^ 4) r) node DEFAULT_THRESHOLD"
  proof -
    have "f32_units (score ((observe node False ^^ 4) r) node) \<le> f32_units 0x3EE00000" unfolding s using four_fails[OF assms(3)] by simp
    also have "\<dots> < f32_units DEFAULT_THRESHOLD" by (simp add: units_eval rep_consts)
    finally show ?thesis unfolding alive_def ge_units[OF fin finite_consts(5)] by linarith
  qed
  moreover have "alive ((observe node True ^^ 4) r) node DEFAULT_THRESHOLD"
    unfolding alive_def ge_units[OF fin finite_consts(5)] unfolding s using four_passes[OF assms(3)] by simp
  ultimately show ?thesis by (simp add: filter_live_def)
qed

theorem reputation_decides_witness:
  "1 \<notin> set (filter_live ((observe 1 False ^^ 4) (reputation_new 3 f32_ONE)) [0, 1, 2] DEFAULT_THRESHOLD)"
proof -
  have "f32_clamp 0 f32_ONE f32_ONE = f32_ONE" using finite_nonneg_val[OF finite_consts(3)]
    by (simp add: f32_clamp_def f32_less_def f32_val_def[of 0] units_consts)
  then have "score (reputation_new 3 f32_ONE) 1 = f32_ONE" by (simp add: reputation_new_def score_def)
  moreover have "in01 f32_ONE" by (simp add: in01_units finite_consts units_consts)
  ultimately show ?thesis
    using reputation_decides[of "reputation_new 3 f32_ONE" 1 _ "[0, 1, 2]"] by (simp add: reputation_new_def)
qed

end
