(* ===== verification/Monitor.thy ===== *)
theory Monitor
  imports Health Reputation
begin

text \<open>
  The background tasks of \<open>holofs-cluster\<close>: the auditor (\<open>audit.rs\<close>), the monitor (\<open>monitor.rs\<close>) and
  \<open>add_node\<close> (\<open>rebalance.rs\<close>). One tick is one action on the shared catalog, the network and the generator;
  the endless loops around them (\<open>run_periodic\<close>) only sleep and print.
\<close>

section \<open>Running on a catalog\<close>

definition the_first :: "('c \<times> 'v, 'e, 'c) act" where
  "the_first = (\<lambda>(c, v). (Inr c, (c, v)))"

definition on_second :: "('v, 'e, 'a) act \<Rightarrow> ('c \<times> 'v, 'e, 'a) act" where
  "on_second m = (\<lambda>(c, v). case m v of (r, v') \<Rightarrow> (r, (c, v')))"

text \<open>Works on the entry through a mutable reference.\<close>

definition on_entry :: "string \<Rightarrow> manifest \<Rightarrow> (manifest \<times> 'v, 'e, 'a) act \<Rightarrow> (catalog \<times> 'v, 'e, 'a) act" where
  "on_entry name m f = (\<lambda>(cat, v). case f (m, v) of (r, (m', v')) \<Rightarrow> (r, (cat_insert name m' cat, v')))"

section \<open>The auditor\<close>

datatype audit_outcome = Pass | MissingShard | HashMismatch | Unreachable | ProtocolError

definition is_success :: "audit_outcome \<Rightarrow> bool" where
  "is_success r \<longleftrightarrow> r = Pass"

datatype audit_event =
    AuditResult nat string u8 u8 audit_outcome u32
  | LowScore nat u32 u32

record audit_config =
  ac_samples :: u32
  ac_threshold :: u32

text \<open>The network as an exchange of one frame each way; a failure to connect, send or receive is an error.\<close>

type_synonym 'w exchange = "string \<Rightarrow> bytes \<Rightarrow> 'w \<Rightarrow> (io_error + bytes) \<times> 'w"

definition audit_shard :: "'w exchange \<Rightarrow> string \<Rightarrow> u64 \<Rightarrow> u8 \<Rightarrow> u8 \<Rightarrow> bytes \<Rightarrow> 'w \<Rightarrow> audit_outcome \<times> 'w" where
  "audit_shard exch addr oid c l h w = (case exch addr (request_encode (Audit oid c l h)) w of
     (Inl _, w) \<Rightarrow> (Unreachable, w)
   | (Inr buf, w) \<Rightarrow> (case response_decode buf of
       Inl _ \<Rightarrow> ProtocolError
     | Inr (AuditResp None) \<Rightarrow> MissingShard
     | Inr (AuditResp (Some s)) \<Rightarrow> if shard_hash s = h then Pass else HashMismatch
     | Inr _ \<Rightarrow> ProtocolError, w))"

definition rrem :: "nat \<Rightarrow> nat \<Rightarrow> ('e, nat) res" where
  "rrem a b = (if b = 0 then Inl Panic else Inr (a mod b))"

definition audit_sample :: "'w exchange \<Rightarrow> audit_config \<Rightarrow> catalog \<Rightarrow> nat list \<Rightarrow> audit_event list \<times> u64 \<Rightarrow> nat \<Rightarrow>
    (reputation \<times> 'w, 'e, audit_event list \<times> u64) act" where
  "audit_sample exch cfg snapshot live_all st i = (case st of (events, rng) \<Rightarrow>
     let (x, rng) = rng_next rng in
     abind (alift (rrem (unat x) (length snapshot))) (\<lambda>obj_idx.
     let (name, m) = snapshot ! obj_idx; (x, rng) = rng_next rng in
     abind (alift (rrem (unat x) (unat (m_channels m)))) (\<lambda>c.
     let (x, rng) = rng_next rng in
     abind (alift (rrem (unat x) (unat (m_nlayers m)))) (\<lambda>l.
     abind (alift (expected_hashes m c l)) (\<lambda>hashes.
     if hashes = [] then aret (events, rng) else
     let (x, rng) = rng_next rng; h_idx = unat x mod length hashes; c = word_of_nat c; l = word_of_nat l in
     abind (alift (place_shard m c l (word_of_nat h_idx) live_all)) (\<lambda>node.
     abind (alift (at_idx (m_nodes m) node)) (\<lambda>addr.
     abind (on_second (\<lambda>w. case audit_shard exch addr (m_object_id m) c l (hashes ! h_idx) w of (r, w) \<Rightarrow> (Inr r, w))) (\<lambda>outcome.
     abind (amodify (\<lambda>(rep, w). (observe node (is_success outcome) rep, w))) (\<lambda>_.
     abind the_first (\<lambda>rep.
     let s = score rep node; events = events @ [AuditResult node name c l outcome s] in
       aret (if f32_less s (ac_threshold cfg) then events @ [LowScore node s (ac_threshold cfg)] else events, rng)))))))))))"

definition audit_tick :: "'w exchange \<Rightarrow> audit_config \<Rightarrow> catalog \<Rightarrow> u64 \<Rightarrow> (reputation \<times> 'w, 'e, audit_event list \<times> u64) act" where
  "audit_tick exch cfg snapshot rng =
     (case snapshot of
        [] \<Rightarrow> aret ([], rng)
      | (_, m) # _ \<Rightarrow> afold (audit_sample exch cfg snapshot [0..<length (m_nodes m)]) ([], rng) [0..<unat (ac_samples cfg)])"

section \<open>The monitor\<close>

datatype monitor_event =
    LivenessChange "nat list" "nat list" nat nat
  | LowMargin string u8 u8 u32
  | RepairOk string nat nat nat
  | RepairFailed string nat client_error
  | ScanFailed string client_error

record monitor_config =
  mc_margin_threshold :: u32
  mc_repair_d :: nat
  mc_reputation_threshold :: u32

record monitor_state =
  ms_prev_live :: "nat set"
  ms_ticks :: u64

definition probe_manifest :: "string list \<Rightarrow> manifest" where
  "probe_manifest nodes =
     \<lparr>m_object_id = 0, m_k = 1, m_nlayers = 1, m_n_per_layer = [1], m_sym_len = [1], m_layer_positions = [[]], m_channels = 1,
      m_width = 1, m_height = 1, m_levels = 0, m_nodes = nodes, m_placement = Rendezvous, m_zones = replicate (length nodes) 0,
      m_data_cid = replicate 32 0, m_merkle_root = replicate 32 0, m_shard_hashes = [[[]]], m_kind = Image,
      m_content_type = ''image/png'', m_chunk_lens = [], m_audio_sample_rate = 0, m_text_minhash = []\<rparr>"

definition low_margins :: "monitor_config \<Rightarrow> string \<Rightarrow> layer_stats list \<Rightarrow> monitor_event list" where
  "low_margins cfg name stats = map (\<lambda>s. LowMargin name (ls_channel s) (ls_layer s) (ls_margin s))
     (filter (\<lambda>s. sint (ls_margin s) \<le> sint (mc_margin_threshold cfg)) stats)"

definition scan_object :: "'v call \<Rightarrow> monitor_config \<Rightarrow> nat list \<Rightarrow> monitor_event list \<Rightarrow> string \<Rightarrow>
    (catalog \<times> 'v, 'e, monitor_event list) act" where
  "scan_object call cfg live events name =
     abind the_first (\<lambda>cat. case cat_get cat name of
       None \<Rightarrow> aret events
     | Some m \<Rightarrow> abind (acatch (on_second (collect_layer_stats call m live))) (\<lambda>r. aret (events @ (case r of
         Inr stats \<Rightarrow> low_margins cfg name stats
       | Inl e \<Rightarrow> [ScanFailed name e]))))"

definition repair_object :: "'w call \<Rightarrow> monitor_config \<Rightarrow> nat list \<Rightarrow> nat \<Rightarrow> monitor_event list \<Rightarrow> string \<Rightarrow>
    (catalog \<times> 'w \<times> u64, 'e, monitor_event list) act" where
  "repair_object call cfg live node events name =
     abind the_first (\<lambda>cat. case cat_get cat name of
       None \<Rightarrow> aret events
     | Some m \<Rightarrow> abind (acatch (on_entry name m (repair_node call live node (mc_repair_d cfg)))) (\<lambda>r. aret (events @ [case r of
         Inr stats \<Rightarrow> RepairOk name node (shards_generated stats) (layers_repaired stats)
       | Inl e \<Rightarrow> RepairFailed name node e])))"

definition repair_revived :: "'w call \<Rightarrow> monitor_config \<Rightarrow> nat list \<Rightarrow> string list \<Rightarrow> monitor_event list \<Rightarrow> nat \<Rightarrow>
    (catalog \<times> 'w \<times> u64, 'e, monitor_event list) act" where
  "repair_revived call cfg live names events node = afold (repair_object call cfg live node) events names"

text \<open>The counter goes up even when the tick returns early on an empty catalog.\<close>

definition monitor_tick :: "'w call \<Rightarrow> monitor_config \<Rightarrow> reputation option \<Rightarrow> monitor_state \<Rightarrow>
    (catalog \<times> 'w \<times> u64, 'e, monitor_event list \<times> monitor_state) act" where
  "monitor_tick call cfg rep st =
     (let first = (ms_ticks st = 0); st = st\<lparr>ms_ticks := ms_ticks st + 1\<rparr> in
     abind the_first (\<lambda>cat. case cat of
       [] \<Rightarrow> aret ([], st)
     | (_, m0) # _ \<Rightarrow>
         abind (on_second (\<lambda>v. case discover_live (with_rng call) (probe_manifest (m_nodes m0)) v of (live, v) \<Rightarrow> (Inr live, v))) (\<lambda>live.
         let live = (case rep of Some r \<Rightarrow> filter_live r live (mc_reputation_threshold cfg) | None \<Rightarrow> live);
             revived = (if first then [] else sorted_list_of_set (set live - ms_prev_live st));
             died = (if first then [] else sorted_list_of_set (ms_prev_live st - set live));
             events = (if first \<or> revived \<noteq> [] \<or> died \<noteq> [] then [LivenessChange revived died (length live) (length (m_nodes m0))] else []);
             names = map fst cat in
         abind (afold (scan_object (with_rng call) cfg live) events names) (\<lambda>events.
         abind (afold (repair_revived call cfg live names) events revived) (\<lambda>events.
           aret (events, st\<lparr>ms_prev_live := set live\<rparr>))))))"

section \<open>Adding a node\<close>

definition add_to_object :: "'w call \<Rightarrow> string \<Rightarrow> u8 \<Rightarrow> nat \<Rightarrow> (string \<times> (client_error + repair_stats)) list \<Rightarrow> string \<Rightarrow>
    (catalog \<times> 'w \<times> u64, 'e, (string \<times> (client_error + repair_stats)) list) act" where
  "add_to_object call addr zone d reports name =
     abind the_first (\<lambda>cat. case cat_get cat name of
       None \<Rightarrow> alift (Inl Panic)
     | Some m \<Rightarrow>
         let m = m\<lparr>m_nodes := m_nodes m @ [addr], m_zones := m_zones m @ [zone]\<rparr>;
             new_idx = length (m_nodes m) - 1; live = [0..<length (m_nodes m)] in
         abind (acatch (on_entry name m (repair_node call live new_idx d))) (\<lambda>r. aret (reports @ [(name, r)])))"

definition add_node :: "'w call \<Rightarrow> string \<Rightarrow> u8 \<Rightarrow> nat \<Rightarrow> (catalog \<times> 'w \<times> u64, 'e, (string \<times> (client_error + repair_stats)) list) act" where
  "add_node call addr zone d = abind the_first (\<lambda>cat. afold (add_to_object call addr zone d) [] (map fst cat))"

section \<open>Repair on a cluster\<close>

abbreviation net :: "(bytes \<Rightarrow> bytes) \<Rightarrow> (cluster \<times> u64) call" where
  "net sign \<equiv> with_rng (cluster_call sign)"

lemma net_call: "cluster_call sign a req w = (r, w') \<Longrightarrow> net sign a req (w, rng) = (r, (w', rng))"
  by (simp add: with_rng_def)

lemma net_rpc: "cluster_call sign a req w = (Inr r, w') \<Longrightarrow> rpc (net sign) a req (w, rng) = (Inr r, (w', rng))"
  by (simp add: rpc_def map_err_def net_call)

lemma take_donors_listed:
  "set (take_donors expected d ds v) \<subseteq> set ds \<union> {s \<in> set v. shard_hash s \<in> set expected}"
  by (rule take_donors_sub)

lemma collect_cluster:
  assumes "cluster_ok w" and "\<forall>n \<in> set ns. n < length (m_nodes m) \<and> w (m_nodes m ! n) \<noteq> None"
  shows "\<exists>donors. collect_donors (net sign) m c l expected d ds ns (w, rng) = (Inr donors, (w, rng)) \<and>
    set donors \<subseteq> set ds \<union> {s. \<exists>n \<in> set ns. stored w (m_nodes m ! n) (SKey (m_object_id m) c l) (shard_hash s) = Some s}"
  using assms(2)
proof (induction ns arbitrary: ds)
  case (Cons n ns)
  then have n: "n < length (m_nodes m)" "w (m_nodes m ! n) \<noteq> None" by simp_all
  obtain ss where ss: "cluster_call sign (m_nodes m ! n) (Get (m_object_id m) c l) w = (Inr (Shards ss), w)"
    "\<And>s. s \<in> set ss \<longleftrightarrow> stored w (m_nodes m ! n) (SKey (m_object_id m) c l) (shard_hash s) = Some s"
    by (rule call_get[OF assms(1) n(2), of sign "m_object_id m" c l]) blast
  let ?ds = "take_donors expected d ds ss"
  have run: "collect_donors (net sign) m c l expected d ds (n # ns) (w, rng) =
      (if length ?ds \<ge> d then (Inr ?ds, (w, rng)) else collect_donors (net sign) m c l expected d ?ds ns (w, rng))"
    using n(1) by (simp add: abind_step[where m = "rpc (net sign) a r" for a r, OF net_rpc[OF ss(1)]] expect_shards_def Let_def)
  have sub: "set ?ds \<subseteq> set ds \<union> {s. stored w (m_nodes m ! n) (SKey (m_object_id m) c l) (shard_hash s) = Some s}"
    using take_donors_sub[of expected d ds ss] ss(2) by blast
  from Cons.IH[of ?ds] Cons.prems obtain donors where
    "collect_donors (net sign) m c l expected d ?ds ns (w, rng) = (Inr donors, (w, rng))"
    "set donors \<subseteq> set ?ds \<union> {s. \<exists>n \<in> set ns. stored w (m_nodes m ! n) (SKey (m_object_id m) c l) (shard_hash s) = Some s}" by auto
  with sub run show ?case by (cases "length ?ds \<ge> d") (auto simp del: collect_donors.simps)
qed simp

lemma send_fresh_cluster:
  assumes "cluster_ok w" and "repl < length (m_nodes m)" and "w (m_nodes m ! repl) \<noteq> None"
  shows "\<exists>w' stats'. afold (send_fresh (net sign) repl 0 0) stats ss (m, (w, rng)) =
      (Inr stats', (fold (\<lambda>s. push_hash 0 0 (shard_hash s)) ss m, (w', rng))) \<and> cluster_ok w' \<and> dom w' = dom w \<and>
    (\<forall>b k h t. stored w' b k h = Some t \<longrightarrow> stored w b k h = Some t \<or> t \<in> set ss)"
  using assms
proof (induction ss arbitrary: m w stats)
  case (Cons s ss)
  let ?m = "push_hash 0 0 (shard_hash s) m"
  have f: "m_nodes ?m = m_nodes m" "m_object_id ?m = m_object_id m" by (simp_all add: push_hash_def)
  obtain w1 where w1: "cluster_call sign (m_nodes m ! repl) (Put (m_object_id m) 0 0 s) w = (Inr Ack, w1)" "cluster_ok w1"
    "dom w1 = dom w" "\<And>b k h t. stored w1 b k h = Some t \<Longrightarrow> stored w b k h = Some t \<or> t = s"
    by (rule call_put[OF Cons.prems(1,3)]) blast
  have run: "send_fresh (net sign) repl 0 0 stats s (m, (w, rng)) =
      (Inr (stats\<lparr>shards_generated := shards_generated stats + 1\<rparr>), (?m, (w1, rng)))"
    using Cons.prems(2) net_rpc[OF w1(1), of rng]
    by (simp add: send_fresh_def manifest_run f expect_ack_def)
  have "w1 (m_nodes ?m ! repl) \<noteq> None" using Cons.prems(3) w1(3) by (auto simp: f domIff[symmetric] simp del: domIff)
  then obtain w' stats' where "afold (send_fresh (net sign) repl 0 0) (stats\<lparr>shards_generated := shards_generated stats + 1\<rparr>) ss (?m, (w1, rng)) =
      (Inr stats', (fold (\<lambda>s. push_hash 0 0 (shard_hash s)) ss ?m, (w', rng)))" "cluster_ok w'" "dom w' = dom w1"
    "\<forall>b k h t. stored w' b k h = Some t \<longrightarrow> stored w1 b k h = Some t \<or> t \<in> set ss"
    using Cons.IH[of w1 ?m "stats\<lparr>shards_generated := shards_generated stats + 1\<rparr>"] Cons.prems(2) w1(2) f(1) by auto
  moreover from this(4) have "\<forall>b k h t. stored w' b k h = Some t \<longrightarrow> stored w b k h = Some t \<or> t \<in> set (s # ss)"
    using w1(4) by (metis list.set_intros)
  ultimately show ?case using w1(3)
    by (intro exI[of _ w'] exI[of _ stats']) (simp add: abind_step[where m = "send_fresh (net sign) repl 0 0 stats s", OF run])
qed auto

text \<open>The shards of an opaque object on some nodes of the cluster.\<close>

definition shards_on :: "cluster \<Rightarrow> manifest \<Rightarrow> nat set \<Rightarrow> shard set" where
  "shards_on w m ns = {s. \<exists>n \<in> ns. stored w (m_nodes m ! n) (SKey (m_object_id m) 0 0) (shard_hash s) = Some s}"

lemma get_opaque_undetermined:
  assumes "gather_layer call m live 0 0 w = (Inr raw, w')" and "m_kind m = Opaque"
    and "0 < length (m_shard_hashes m)" and "0 < length (m_shard_hashes m ! 0)" and "0 < length (m_sym_len m)"
    and "explains K (unat (m_sym_len m ! 0)) raw X" and "explains K (unat (m_sym_len m ! 0)) raw Z" and "Z \<noteq> X"
    and "0 < unat (m_sym_len m ! 0)"
  shows "get_opaque_object call m live w = (Inl (Err (LayerLost 0 0)), w')"
proof -
  let ?v = "verified (m_shard_hashes m ! 0 ! 0) raw" and ?sl = "unat (m_sym_len m ! 0)"
  have ex: "explains K ?sl ?v X" "explains K ?sl ?v Z" using assms(6,7) by (auto simp: explains_def verified_def)
  then have "\<not> (\<forall>Z. explains K ?sl ?v Z \<longrightarrow> Z = X)" using assms(8) by blast
  then have dec: "decode_layer gf_new ?v ?sl = (Inr None :: (client_error, _) res)"
    using decode_layer_spec[OF ex(1) assms(9), where 'e = client_error] by simp
  have e: "expected_hashes m 0 0 = (Inr (m_shard_hashes m ! 0 ! 0) :: (client_error, _) res)" using assms(3,4) by (simp add: expected_hashes_def)
  show ?thesis using assms(2,5)
    by (simp add: get_opaque_object_def abind_step[where m = "gather_layer call m live 0 0", OF assms(1)] abind_alift_run e dec)
qed

lemma fold_push_fields [simp]: "m_nodes (fold (\<lambda>s. push_hash 0 0 (shard_hash s)) ss m) = m_nodes m"
  "m_object_id (fold (\<lambda>s. push_hash 0 0 (shard_hash s)) ss m) = m_object_id m"
  "m_kind (fold (\<lambda>s. push_hash 0 0 (shard_hash s)) ss m) = m_kind m"
  "m_sym_len (fold (\<lambda>s. push_hash 0 0 (shard_hash s)) ss m) = m_sym_len m"
  "length (m_shard_hashes (fold (\<lambda>s. push_hash 0 0 (shard_hash s)) ss m)) = length (m_shard_hashes m)"
  by (induction ss arbitrary: m) (simp_all add: push_hash_def)

lemma fold_push_layers [simp]: "length (m_shard_hashes (fold (\<lambda>s. push_hash 0 0 (shard_hash s)) ss m) ! 0) = length (m_shard_hashes m ! 0)"
proof (induction ss arbitrary: m)
  case (Cons s ss)
  have "length (m_shard_hashes (push_hash 0 0 h m) ! 0) = length (m_shard_hashes m ! 0)" for h
    by (cases "m_shard_hashes m") (simp_all add: push_hash_def)
  with Cons show ?case by simp
qed simp

lemma repair_layer_cluster:
  assumes srv: "serves w (m_nodes m) live" and repl: "repl \<in> set live" and place: "m_placement m = Rendezvous"
    and lists: "0 < length (m_shard_hashes m)" "0 < length (m_shard_hashes m ! 0)" "0 < length (m_sym_len m)" "m_n_per_layer m = [n]"
    and X: "source_ok K (unat (m_sym_len m ! 0)) X" "\<forall>s \<in> shards_on w m (set live - {repl}). consistent (gf_mul gf_new) (unat (m_sym_len m ! 0)) X s"
    and Z: "source_ok K (unat (m_sym_len m ! 0)) Z" "\<forall>s \<in> shards_on w m (set live - {repl}). consistent (gf_mul gf_new) (unat (m_sym_len m ! 0)) Z s"
  shows "\<exists>stats' fresh w' rng'. repair_layer (net sign) live repl d stats (0, 0) (m, (w, rng)) =
      (Inr stats', (fold (\<lambda>s. push_hash 0 0 (shard_hash s)) fresh m, (w', rng'))) \<and> cluster_ok w' \<and> dom w' = dom w \<and>
    (\<forall>b k h t. stored w' b k h = Some t \<longrightarrow> stored w b k h = Some t \<or> t \<in> set fresh) \<and>
    (\<forall>s \<in> set fresh. consistent (gf_mul gf_new) (unat (m_sym_len m ! 0)) X s \<and> consistent (gf_mul gf_new) (unat (m_sym_len m ! 0)) Z s)"
proof -
  let ?others = "filter (\<lambda>n. n \<noteq> repl) live" and ?hs = "m_shard_hashes m ! 0 ! 0" and ?sl = "unat (m_sym_len m ! 0)"
  have ok: "cluster_ok w" and up: "\<And>n. n \<in> set live \<Longrightarrow> n < length (m_nodes m) \<and> w (m_nodes m ! n) \<noteq> None"
    using srv by (auto simp: serves_def)
  have live: "live \<noteq> []" using repl by auto
  have "\<exists>need. (rfold (count_need m 0 0 live repl) 0 [0..<unat n] :: (client_error, nat) res) = Inr need"
  proof -
    have place_ok: "(place_shard m 0 0 i live :: (client_error, nat) res) = Inr (hrw_node \<lparr>sk_object_id = m_object_id m,
        sk_channel = 0, sk_layer = 0, sk_shard_idx = i\<rparr> live)" for i
      using place live by (simp add: place_shard_def place_def)
    show ?thesis by (subst rfold_Inr) (simp_all add: count_need_def place_ok)
  qed
  then obtain need where need: "(rfold (count_need m 0 0 live repl) 0 [0..<unat n] :: (client_error, nat) res) = Inr need" by blast
  have ex: "expected_hashes m 0 0 = (Inr ?hs :: (client_error, _) res)" using lists by (simp add: expected_hashes_def)
  have "\<forall>n \<in> set ?others. n < length (m_nodes m) \<and> w (m_nodes m ! n) \<noteq> None" using up by auto
  from collect_cluster[OF ok this, of sign 0 0 ?hs d "[]" rng] obtain donors where
    donors: "collect_donors (net sign) m 0 0 ?hs d [] ?others (w, rng) = (Inr donors, (w, rng))"
    and sub': "set donors \<subseteq> shards_on w m (set ?others)"
    unfolding shards_on_def by (metis (no_types, lifting) empty_set sup_bot_left)
  have "set ?others = set live - {repl}" by auto
  with sub' have sub: "set donors \<subseteq> shards_on w m (set live - {repl})" by simp
  have cons: "\<forall>s \<in> set (take d donors). consistent (gf_mul gf_new) ?sl X s" "\<forall>s \<in> set (take d donors). consistent (gf_mul gf_new) ?sl Z s"
    using X(2) Z(2) sub by (auto dest!: in_set_takeD)
  obtain fresh rng' where mix: "(mix_donors gf_new (take d donors) need rng :: (client_error, _) res) = Inr (fresh, rng')"
    "\<forall>s \<in> set fresh. consistent (gf_mul gf_new) ?sl X s"
    using mix_donors_ok[OF X(1) cons(1), where 'e = client_error, of need rng] by auto
  have "\<forall>s \<in> set fresh. consistent (gf_mul gf_new) ?sl Z s"
    using mix_donors_ok[OF Z(1) cons(2), where 'e = client_error, of need rng] mix(1) by auto
  note fresh = mix(2) this
  note run = repair_layer_def prod.case Let_def manifest_run
  show ?thesis
  proof (cases "need = 0 \<or> donors = []")
    case True
    then obtain stats' where "repair_layer (net sign) live repl d stats (0, 0) (m, (w, rng)) = (Inr stats', (m, (w, rng)))"
      using need lists by (cases "need = 0") (simp_all add: run ex donors)
    then show ?thesis using ok by (intro exI[of _ stats'] exI[of _ "[]"] exI[of _ w] exI[of _ rng]) simp
  next
    case False
    let ?st = "client_account (unat (m_k m)) (unat (m_sym_len m ! 0)) (min (length donors) d) need stats"
    obtain w' stats' where send: "afold (send_fresh (net sign) repl 0 0) ?st fresh (m, (w, rng')) =
        (Inr stats', (fold (\<lambda>s. push_hash 0 0 (shard_hash s)) fresh m, (w', rng')))" "cluster_ok w'" "dom w' = dom w"
      "\<forall>b k h t. stored w' b k h = Some t \<longrightarrow> stored w b k h = Some t \<or> t \<in> set fresh"
      using send_fresh_cluster[OF ok, of repl m sign ?st fresh rng'] up[OF repl] by blast
    have "repair_layer (net sign) live repl d stats (0, 0) (m, (w, rng)) =
        (Inr (stats'\<lparr>layers_repaired := layers_repaired stats' + 1\<rparr>), (fold (\<lambda>s. push_hash 0 0 (shard_hash s)) fresh m, (w', rng')))"
      using False need lists mix(1)
      by (simp add: run ex donors draw_def abind_step[where m = "afold (send_fresh (net sign) repl 0 0) ?st fresh", OF send(1)])
    with send(2-) fresh show ?thesis by blast
  qed
qed

lemma repair_node_cluster:
  assumes srv: "serves w (m_nodes m) live" and repl: "repl \<in> set live" and place: "m_placement m = Rendezvous"
    and inj: "\<forall>n \<in> set live. n \<noteq> repl \<longrightarrow> m_nodes m ! n \<noteq> m_nodes m ! repl"
    and kind: "m_kind m = Opaque" "m_channels m = 1" "m_nlayers m = 1" "m_n_per_layer m = [n]"
    and lists: "0 < length (m_shard_hashes m)" "0 < length (m_shard_hashes m ! 0)" "0 < length (m_sym_len m)" "0 < m_sym_len m ! 0"
    and X: "source_ok K (unat (m_sym_len m ! 0)) X" "\<forall>s \<in> shards_on w m (set live - {repl}). consistent (gf_mul gf_new) (unat (m_sym_len m ! 0)) X s"
    and few: "card (shards_on w m (set live - {repl})) < K"
  shows "\<exists>stats m' w' rng'. repair_node (cluster_call sign) live repl d (m, (w, rng)) = (Inr stats, (m', (w', rng'))) \<and>
    get_opaque_object (cluster_call sign) m' live w' = (Inl (Err (LayerLost 0 0)), w')"
proof -
  let ?sl = "unat (m_sym_len m ! 0)" and ?O = "shards_on w m (set live - {repl})" and ?others = "filter (\<lambda>n. n \<noteq> repl) live"
  have ok: "cluster_ok w" and up: "repl < length (m_nodes m)" "w (m_nodes m ! repl) \<noteq> None" using srv repl by (auto simp: serves_def)
  have sl: "0 < ?sl" using lists(4) by (simp add: word_less_nat_alt)
  have srvo: "serves w (m_nodes m) ?others" using srv by (auto simp: serves_def)
  obtain raw0 where "set raw0 = {s. \<exists>n \<in> set ?others. stored w (m_nodes m ! n) (SKey (m_object_id m) 0 0) (shard_hash s) = Some s}"
    using gather_cluster[OF srvo, of sign 0 0] by blast
  moreover have "set ?others = set live - {repl}" by auto
  ultimately have raw0: "set raw0 = ?O" by (simp only: shards_on_def)
  have exX: "explains K ?sl raw0 X" using X raw0 by (simp add: explains_def)
  from few_undetermined[OF this sl] few raw0 obtain Z where "explains K ?sl raw0 Z" and ZX: "Z \<noteq> X" by auto
  then have Z: "source_ok K ?sl Z" "\<forall>s \<in> ?O. consistent (gf_mul gf_new) ?sl Z s" using raw0 by (simp_all add: explains_def)
  obtain w1 where w1: "cluster_call sign (m_nodes m ! repl) (Purge (m_object_id m)) w = (Inr Ack, w1)" "cluster_ok w1" "dom w1 = dom w"
    "\<And>b k h. stored w1 b k h = (if b = m_nodes m ! repl \<and> key_object k = m_object_id m then None else stored w b k h)"
    by (rule call_purge[OF ok up(2)]) blast
  have "w1 a \<noteq> None \<longleftrightarrow> w a \<noteq> None" for a using w1(3) by (auto simp: domIff[symmetric] simp del: domIff)
  then have srv1: "serves w1 (m_nodes m) live" using srv w1(2) by (auto simp: serves_def)
  have O1: "shards_on w1 m (set live) \<subseteq> ?O" "shards_on w1 m (set live - {repl}) \<subseteq> ?O"
    using inj by (auto simp: shards_on_def w1(4) key_object_def split: if_splits)
  have c1: "\<forall>s \<in> shards_on w1 m (set live - {repl}). consistent (gf_mul gf_new) ?sl X s"
    "\<forall>s \<in> shards_on w1 m (set live - {repl}). consistent (gf_mul gf_new) ?sl Z s" using O1(2) X(2) Z(2) by auto
  obtain stats fresh w2 rng2 where layer: "repair_layer (net sign) live repl d default_stats (0, 0) (m, (w1, rng)) =
      (Inr stats, (fold (\<lambda>s. push_hash 0 0 (shard_hash s)) fresh m, (w2, rng2)))" "cluster_ok w2" "dom w2 = dom w1"
    "\<forall>b k h t. stored w2 b k h = Some t \<longrightarrow> stored w1 b k h = Some t \<or> t \<in> set fresh"
    "\<forall>s \<in> set fresh. consistent (gf_mul gf_new) ?sl X s \<and> consistent (gf_mul gf_new) ?sl Z s"
    using repair_layer_cluster[OF srv1 repl place lists(1-3) kind(4) X(1) c1(1) Z(1) c1(2), of sign d default_stats rng] by blast
  let ?m2 = "fold (\<lambda>s. push_hash 0 0 (shard_hash s)) fresh m"
  define m' where "m' = ?m2\<lparr>m_merkle_root := merkle_root (concat (concat (m_shard_hashes ?m2)))\<rparr>"
  have pairs: "layer_pairs m = [(0, 0)]" using kind(2,3) by (simp add: layer_pairs_def)
  have loop: "afold (repair_layer (net sign) live repl d) default_stats [(0, 0)] (m, (w1, rng)) = (Inr stats, (?m2, (w2, rng2)))"
    by (simp add: abind_step[where m = "repair_layer (net sign) live repl d default_stats (0, 0)", OF layer(1)])
  have "repair_node (cluster_call sign) live repl d (m, (w, rng)) = (Inr stats, (m', (w2, rng2)))"
    using repl up(1)
    by (simp add: repair_node_def manifest_run net_rpc[OF w1(1)] expect_ack_def pairs m'_def
        abind_step[where m = "afold (repair_layer (net sign) live repl d) default_stats [(0, 0)]", OF loop] del: afold.simps)
  moreover have "get_opaque_object (cluster_call sign) m' live w2 = (Inl (Err (LayerLost 0 0)), w2)"
  proof -
    have f: "m_nodes m' = m_nodes m" "m_object_id m' = m_object_id m" "m_kind m' = Opaque" "m_sym_len m' = m_sym_len m"
      "length (m_shard_hashes m') = length (m_shard_hashes m)" "length (m_shard_hashes m' ! 0) = length (m_shard_hashes m ! 0)"
      using kind(1) by (simp_all add: m'_def)
    have "w2 a \<noteq> None \<longleftrightarrow> w1 a \<noteq> None" for a using layer(3) by (auto simp: domIff[symmetric] simp del: domIff)
    then have srv2: "serves w2 (m_nodes m') live" using srv1 layer(2) by (auto simp: serves_def f)
    obtain raw where raw: "gather_layer (cluster_call sign) m' live 0 0 w2 = (Inr raw, w2)"
      "set raw = {s. \<exists>n \<in> set live. stored w2 (m_nodes m' ! n) (SKey (m_object_id m') 0 0) (shard_hash s) = Some s}"
      using gather_cluster[OF srv2, of sign 0 0] by blast
    have "set raw \<subseteq> ?O \<union> set fresh"
    proof
      fix s assume "s \<in> set raw"
      then obtain n where n: "n \<in> set live" "stored w2 (m_nodes m ! n) (SKey (m_object_id m) 0 0) (shard_hash s) = Some s"
        unfolding raw(2) f by blast
      then consider "stored w1 (m_nodes m ! n) (SKey (m_object_id m) 0 0) (shard_hash s) = Some s" | "s \<in> set fresh" using layer(4) by blast
      then show "s \<in> ?O \<union> set fresh"
      proof cases
        case 1
        with n(1) have "s \<in> shards_on w1 m (set live)" by (auto simp: shards_on_def)
        with O1(1) show ?thesis by blast
      qed simp
    qed
    then have "explains K ?sl raw X" "explains K ?sl raw Z" using X Z layer(5) by (auto simp: explains_def)
    with get_opaque_undetermined[OF raw(1) f(3)] ZX sl lists show ?thesis by (simp add: f)
  qed
  ultimately show ?thesis by blast
qed

section \<open>A tick on a cluster\<close>

lemma abind_the_first: "abind the_first f (c, v) = f c (c, v)"
  by (simp add: abind_def the_first_def)

lemma abind_on_second: "abind (on_second m) f (c, v) = (case m v of (Inl e, v') \<Rightarrow> (Inl e, (c, v')) | (Inr x, v') \<Rightarrow> f x (c, v'))"
  by (simp add: abind_def on_second_def split: prod.split sum.split)

lemma ping_cluster:
  assumes "w a \<noteq> None"
  shows "cluster_call sign a Ping w = (Inr Pong, w)"
proof -
  obtain st where "w a = Some st" using assms by blast
  moreover from this have "w(a \<mapsto> st) = w" by auto
  ultimately show ?thesis by (simp add: cluster_call_def handle_request_def)
qed

lemma discover_cluster:
  assumes "\<forall>a \<in> set nodes. w a \<noteq> None"
  shows "discover_live (net sign) (probe_manifest nodes) (w, rng) = ([0..<length nodes], (w, rng))"
proof -
  have "fold (\<lambda>ia st. discover_step (net sign) st ia) (zip [i..<i + length ns] ns) (live, (w, rng)) = (live @ [i..<i + length ns], (w, rng))"
    if "\<forall>a \<in> set ns. w a \<noteq> None" for i ns live
    using that
  proof (induction ns arbitrary: i live)
    case (Cons a ns)
    have up: "[i..<i + length (a # ns)] = i # [Suc i..<Suc i + length ns]" by (simp add: upt_conv_Cons del: upt_Suc)
    have "discover_step (net sign) (live, (w, rng)) (i, a) = (live @ [i], (w, rng))"
      using Cons.prems by (simp add: discover_step_def net_call[OF ping_cluster])
    with Cons.IH[of "Suc i" "live @ [i]"] Cons.prems show ?case by (simp only: up zip_Cons_Cons fold_simps) simp
  qed simp
  from this[of nodes 0 "[]"] assms show ?thesis by (simp add: discover_live_def probe_manifest_def)
qed

lemma gather_with_rng:
  "gather_layer (with_rng call) m live c l (w, rng) = (case gather_layer call m live c l w of (r, w') \<Rightarrow> (r, (w', rng)))"
proof -
  have step: "gather_step (with_rng call) m c l acc n (w, rng) = (case gather_step call m c l acc n w of (r, w') \<Rightarrow> (r, (w', rng)))" for acc n w
    by (auto simp: gather_step_def abind_def rpc_def with_rng_def alift_def aret_def split: sum.splits prod.splits)
  have "afold (gather_step (with_rng call) m c l) acc live (w, rng) = (case afold (gather_step call m c l) acc live w of (r, w') \<Rightarrow> (r, (w', rng)))" for acc
  proof (induction live arbitrary: acc w)
    case (Cons n live)
    then show ?case by (auto simp: abind_def step split: prod.split sum.split)
  qed simp
  then show ?thesis by (simp add: gather_layer_def)
qed

lemma scan_cluster:
  assumes srv: "serves w (m_nodes m) live" and live: "live \<noteq> []" and place: "m_placement m = Rendezvous"
    and kind: "m_channels m = 1" "m_nlayers m = 1" "m_n_per_layer m = [n]"
    and lists: "0 < length (m_shard_hashes m)" "0 < length (m_shard_hashes m ! 0)" and cat: "cat_get cat name = Some m"
  shows "\<exists>low. (scan_object (net sign) cfg live events name :: (_, 'e, _) act) (cat, (w, rng)) = (Inr (events @ low), (cat, (w, rng))) \<and>
    (\<forall>e \<in> set low. \<exists>c l mg. e = LowMargin name c l mg)"
proof -
  obtain raw where "gather_layer (cluster_call sign) m live 0 0 w = (Inr raw, w)" using gather_cluster[OF srv, of sign 0 0] by blast
  then have g: "gather_layer (net sign) m live 0 0 (w, rng) = (Inr raw, (w, rng))" by (simp add: gather_with_rng)
  have ex: "expected_hashes m 0 0 = (Inr (m_shard_hashes m ! 0 ! 0) :: (client_error, _) res)" using lists by (simp add: expected_hashes_def)
  have "sort live \<noteq> []" using live by (metis set_empty set_sort)
  then have "(place_shard m 0 0 i (sort live) :: (client_error, _) res) = Inr (hrw_node \<lparr>sk_object_id = m_object_id m,
      sk_channel = 0, sk_layer = 0, sk_shard_idx = i\<rparr> (sort live))" for i
    using place by (simp add: place_shard_def place_def)
  then obtain out where out: "(layer_hosts m 0 0 n (sort live) :: (client_error, _) res) = Inr out"
    unfolding layer_hosts_def by (simp add: rmap_Inr)
  have pairs: "layer_pairs m = [(0, 0)]" using kind by (simp add: layer_pairs_def)
  have "\<exists>stats. collect_layer_stats (net sign) m live (w, rng) = (Inr stats, (w, rng))"
    using out by (simp add: collect_layer_stats_def pairs layer_stat_def Let_def kind
        abind_step[where m = "gather_layer (net sign) m live 0 0", OF g] abind_alift_run ex)
      (simp add: abind_def g)
  then obtain stats where "collect_layer_stats (net sign) m live (w, rng) = (Inr stats, (w, rng))" by blast
  then have "(scan_object (net sign) cfg live events name :: (_, 'e, _) act) (cat, (w, rng)) = (Inr (events @ low_margins cfg name stats), (cat, (w, rng)))"
    using cat by (simp add: scan_object_def the_first_def abind_def acatch_def on_second_def)
  then show ?thesis by (intro exI[of _ "low_margins cfg name stats"]) (auto simp: low_margins_def)
qed

section \<open>Properties\<close>


section \<open>Audits of a node\<close>

text \<open>One frame to a node and one back, through its connection loop.\<close>

definition cluster_exchange :: "(bytes \<Rightarrow> bytes) \<Rightarrow> cluster exchange" where
  "cluster_exchange sign addr buf w = (case w addr of
     None \<Rightarrow> (Inl ConnectionRefused, w)
   | Some st \<Rightarrow> (case write_frame buf of
       Inl _ \<Rightarrow> (Inl InvalidInput, w)
     | Inr f \<Rightarrow> (case handle_connection sign True f st of (_, out, st') \<Rightarrow>
         (case read_frame out of Inl _ \<Rightarrow> Inl UnexpectedEof | Inr (resp, _) \<Rightarrow> Inr resp, w(addr \<mapsto> st')))))"

text \<open>C30: an audit tells whether the node still has the shard. Asked for a hash over its connection, a node that is
  down is found unreachable; otherwise the audit passes exactly when a shard is stored under that key and hash, and
  reports it missing when not: an honest node is never blamed for a mismatch or a protocol error. Nothing changes.\<close>

theorem audit_exact:
  assumes "cluster_ok w" and "length h = 32"
    and "\<forall>s. stored w a (SKey oid c l) h = Some s \<longrightarrow> shard_ok s \<and> length (response_encode (AuditResp (Some s))) \<le> MAX_FRAME"
  shows "audit_shard (cluster_exchange sign) a oid c l h w =
    (if w a = None then Unreachable else if stored w a (SKey oid c l) h \<noteq> None then Pass else MissingShard, w)"
proof (cases "w a")
  case None
  then show ?thesis by (simp add: audit_shard_def cluster_exchange_def)
next
  case (Some st)
  let ?req = "Audit oid c l h" and ?found = "stored w a (SKey oid c l) h"
  have st: "store_ok st" using assms(1) Some by (auto simp: cluster_ok_def)
  have hr: "handle_request sign True ?req st = (AuditResp ?found, st)"
    by (simp add: handle_request_def store_get_by_hash_def abs_store_def stored_def Some)
  have small: "length (request_encode ?req) \<le> MAX_FRAME" using assms(2)
    by (simp add: request_encode_def MAX_FRAME_def)
  have reqd: "sendable_req ?req" using assms(2) small by (simp add: sendable_req_def request_ok_def)
  have respd: "length (response_encode (AuditResp ?found)) \<le> MAX_FRAME" "response_ok (AuditResp ?found)"
    using assms(3) by (auto simp: response_encode_def MAX_FRAME_def response_ok_def split: option.split)
  have "handle_connection sign True (concat (map (\<lambda>r. framed (request_encode r)) [?req]) @ []) st =
      (Err UnexpectedEof, concat (map (\<lambda>r. framed (response_encode r)) [AuditResp ?found]), st)"
    by (rule connection_spec) (use reqd respd(1) in \<open>simp_all add: hr read_frame_def c_u32_def c_take_def\<close>)
  then have conn: "handle_connection sign True (framed (request_encode ?req)) st =
      (Err UnexpectedEof, framed (response_encode (AuditResp ?found)), st)" by simp
  have "response_decode (response_encode (AuditResp ?found)) = Inr (AuditResp ?found)"
    using response_codec.dec_enc_end[OF respd(2)] by (simp add: response_decode_def)
  moreover have "read_frame (framed (response_encode (AuditResp ?found))) = Inr (response_encode (AuditResp ?found), [])"
    using read_framed[OF respd(1), of "[]"] by simp
  moreover have "w(a \<mapsto> st) = w" using Some by auto
  moreover have "?found = Some s \<Longrightarrow> shard_hash s = h" for s using stored_hash[OF assms(1)] by blast
  ultimately show ?thesis using Some
    by (auto simp: audit_shard_def cluster_exchange_def write_framed[OF small] conn split: option.split)
qed

theorem audit_exact_witness:
  "audit_shard (cluster_exchange id) ''n'' 7 0 0 (replicate 32 0) one_cluster = (MissingShard, one_cluster)"
proof -
  have "stored one_cluster ''n'' (SKey 7 0 0) (replicate 32 0) = None"
    by (simp add: stored_def one_cluster_def abs_store_def store_new_def bucket_of_def)
  moreover have "cluster_ok one_cluster" using one_healthy by (simp add: healthy_def serves_def)
  ultimately show ?thesis using audit_exact[of one_cluster "replicate 32 0" "''n''" 7 0 0 id] by (simp add: one_cluster_def)
qed

section \<open>When the first entry is a directory\<close>

lemma place_nowhere: "place_shard m c l i [] = Inl Panic"
  by (auto simp: place_shard_def place_def place_layer_zone_aware_def rbind_def at_idx_def split: placement.split)

lemma hosts_nowhere: "0 < unat n \<Longrightarrow> layer_hosts m c l n [] = Inl Panic"
  by (cases "unat n") (simp_all add: layer_hosts_def place_nowhere upt_conv_Cons del: upt_Suc)

lemma collect_nowhere: "\<exists>r. collect_layer_stats call m [] v = (r, v) \<and> (\<forall>e. r \<noteq> Inl (Err e))"
proof -
  have "case fst (collect_layer_stats call m [] v) of Inr b \<Rightarrow> snd (collect_layer_stats call m [] v) = v | Inl e \<Rightarrow> e = Panic \<and> snd (collect_layer_stats call m [] v) = v"
    (is "case fst ?run of Inr b \<Rightarrow> ?same | Inl e \<Rightarrow> ?panic e")
  proof -
    have "case fst ?run of Inr b \<Rightarrow> snd ?run = v | Inl e \<Rightarrow> (e = Panic \<and> snd ?run = v)"
    proof (rule afold_invariant[of "layer_stat call m []" "[]" "layer_pairs m" v _ _ "\<lambda>b s. s = v" "\<lambda>e s. e = Panic \<and> s = v"])
      show "afold (layer_stat call m []) [] (layer_pairs m) v = (fst ?run, snd ?run)" by (simp add: collect_layer_stats_def)
      fix out x s assume "x \<in> set (layer_pairs m)" "s = v"
      obtain ci li where x: "x = (ci, li)" by force
      have e: "expected_hashes m ci li = (Inl y :: (client_error, _) res) \<Longrightarrow> y = Panic" for y
        by (auto simp: expected_hashes_def rbind_def at_idx_def split: sum.splits if_splits)
      have h: "layer_hosts m c l n [] = (Inl y :: (client_error, _) res) \<Longrightarrow> y = Panic" for c l n y
        using hosts_nowhere[of n m c l, where 'a = client_error] by (cases "unat n") (auto simp: layer_hosts_def)
      have "gather_layer call m [] c l v = (Inr [], v)" for c l by (simp add: gather_layer_def)
      then show "case layer_stat call m [] out x s of (Inr b', s1) \<Rightarrow> s1 = v | (Inl e, s1) \<Rightarrow> e = Panic \<and> s1 = v"
        using \<open>s = v\<close> e h
        by (auto simp: x layer_stat_def Let_def abind_step[where m = "gather_layer call m [] c l" for c l] abind_alift_run at_idx_def split: sum.split)
    qed simp
    then show ?thesis .
  qed
  then show ?thesis by (cases "collect_layer_stats call m [] v") (auto split: sum.splits)
qed

lemma scan_nowhere:
  "\<exists>r. (scan_object call cfg [] events name :: (_, 'e, _) act) (cat, v) = (r, (cat, v)) \<and> (\<forall>e. r \<noteq> Inl (Err e)) \<and>
    (cat_get cat name = Some m \<and> (\<forall>v. collect_layer_stats call m [] v = (Inl Panic, v)) \<longrightarrow> r = Inl Panic)"
proof (cases "cat_get cat name")
  case None
  then show ?thesis by (simp add: scan_object_def abind_the_first)
next
  case (Some m1)
  obtain r where r: "collect_layer_stats call m1 [] v = (r, v)" "\<forall>e. r \<noteq> Inl (Err e)" using collect_nowhere[of call m1 v] by blast
  show ?thesis
  proof (cases r)
    case (Inl f)
    with r have "f = Panic" by (cases f) auto
    with r(1) Inl Some show ?thesis by (simp add: scan_object_def abind_the_first) (simp add: acatch_def on_second_def abind_def)
  next
    case (Inr stats)
    with r(1) Some show ?thesis by (simp add: scan_object_def abind_the_first) (auto simp: acatch_def on_second_def abind_def intro!: exI[of _ v])
  qed
qed

lemma collect_panics:
  assumes "0 < m_channels m" and "0 < m_nlayers m" and "0 < m_n_per_layer m ! 0"
  shows "collect_layer_stats call m [] v = (Inl Panic, v)"
proof -
  obtain ps where p: "layer_pairs m = (0, 0) # ps"
    using assms(1,2) by (simp add: layer_pairs_product word_less_nat_alt upt_conv_Cons del: upt_Suc)
  have e: "expected_hashes m 0 0 = (Inl y :: (client_error, _) res) \<Longrightarrow> y = Panic" for y
    by (auto simp: expected_hashes_def rbind_def at_idx_def split: sum.splits if_splits)
  have g: "gather_layer call m [] 0 0 v = (Inr [], v)" by (simp add: gather_layer_def)
  have "layer_stat call m [] [] (0, 0) v = (Inl Panic, v)"
    using e hosts_nowhere[of "m_n_per_layer m ! 0" m 0 0, where 'a = client_error] assms(3)
    by (auto simp: layer_stat_def Let_def abind_step[where m = "gather_layer call m [] 0 0", OF g] abind_alift_run at_idx_def word_less_nat_alt split: sum.split)
  then show ?thesis by (simp add: collect_layer_stats_def p abind_def)
qed

lemma discover_none: "discover_live call (probe_manifest []) v = ([], v)"
  by (simp add: discover_live_def probe_manifest_def)

text \<open>a directory that sorts first blinds the background tasks. The monitor and the auditor take the nodes of the
  cluster from the first catalog entry, and a directory entry lists none. Then the monitor sees no live node
  and panics as soon as any object has shards, so that it never repairs again; and no pass of the auditor that
  returns has asked any node for a shard.\<close>

theorem directory_first_blinds:
  assumes "cat = (d, dir) # rest" and "m_nodes dir = []"
    and "(f, m) \<in> set cat" and "cat_get cat f = Some m" and "0 < m_channels m" and "0 < m_nlayers m" and "0 < m_n_per_layer m ! 0"
  shows "(\<exists>v. (monitor_tick call cfg None st :: (_, 'e, _) act) (cat, (w, rng)) = (Inl Panic, v)) \<and>
    (\<forall>events rng' s. (audit_tick exch acfg cat rng :: (_, 'e, _) act) (rep, w') = (Inr (events, rng'), s) \<longrightarrow> events = [] \<and> s = (rep, w'))"
proof (intro conjI allI impI)
  have scans: "fst ((afold (scan_object (with_rng call) cfg []) ev names :: (_, 'e, _) act) (cat, v)) = Inl Panic"
    if "f \<in> set names" for ev names v
    using that
  proof (induction names arbitrary: ev)
    case (Cons a names)
    obtain r where r: "(scan_object (with_rng call) cfg [] ev a :: (_, 'e, _) act) (cat, v) = (r, (cat, v))" "\<forall>e. r \<noteq> Inl (Err e)"
      "a = f \<Longrightarrow> r = Inl Panic"
      using scan_nowhere[of "with_rng call" cfg ev a cat v m, where 'e = 'e] assms(4) collect_panics[OF assms(5-7), of "with_rng call"] by auto
    show ?case
    proof (cases r)
      case (Inl e)
      with r(2) have "e = Panic" by (cases e) auto
      with r(1) Inl show ?thesis by (simp add: abind_def)
    next
      case (Inr ev')
      with r(3) Cons.prems have "f \<in> set names" by auto
      with Cons.IH r(1) Inr show ?thesis by (simp add: abind_def)
    qed
  qed simp
  have names: "f \<in> set (map fst cat)" using assms(3) by force
  show "\<exists>v. (monitor_tick call cfg None st :: (_, 'e, _) act) (cat, (w, rng)) = (Inl Panic, v)"
  proof -
    have "\<exists>ev rest. (monitor_tick call cfg None st :: (_, 'e, _) act) (cat, (w, rng)) =
        abind (afold (scan_object (with_rng call) cfg []) ev (map fst cat)) rest (cat, (w, rng))"
      unfolding assms(1) monitor_tick_def Let_def abind_the_first
      by (simp only: list.case prod.case option.case abind_on_second assms(2) discover_none sum.case) blast
    then obtain ev rest where t: "(monitor_tick call cfg None st :: (_, 'e, _) act) (cat, (w, rng)) =
        abind (afold (scan_object (with_rng call) cfg []) ev (map fst cat)) rest (cat, (w, rng))" by blast
    from scans[OF names, of ev "(w, rng)"] show ?thesis
      unfolding t by (cases "(afold (scan_object (with_rng call) cfg []) ev (map fst cat) :: (_, 'e, _) act) (cat, (w, rng))") (simp add: abind_def)
  qed
  fix events rng' s
  assume run: "(audit_tick exch acfg cat rng :: (_, 'e, _) act) (rep, w') = (Inr (events, rng'), s)"
  have "case (Inr (events, rng') :: ('e, _) res) of Inr b \<Rightarrow> fst b = [] \<and> s = (rep, w') | Inl e \<Rightarrow> True"
  proof (rule afold_invariant[where P = "\<lambda>b s. fst b = [] \<and> s = (rep, w')" and Q = "\<lambda>_ _. True"])
    show "(afold (audit_sample exch acfg cat []) ([], rng) [0..<unat (ac_samples acfg)] :: (_, 'e, _) act) (rep, w') = (Inr (events, rng'), s)"
      using run by (simp add: audit_tick_def assms(1,2))
    fix b :: "audit_event list \<times> u64" and i s assume "fst b = [] \<and> s = (rep, w')"
    then obtain r where b: "b = ([], r)" "s = (rep, w')" by (cases b) auto
    show "case (audit_sample exch acfg cat [] b i :: (_, 'e, _) act) s of (Inr b', s1) \<Rightarrow> fst b' = [] \<and> s1 = (rep, w') | (Inl e, s1) \<Rightarrow> True"
      by (auto simp: b audit_sample_def Let_def split_beta abind_alift_run place_nowhere split: sum.split)
  qed simp_all
  then show "events = []" "s = (rep, w')" by simp_all
qed

lemma dir_nodes: "m_nodes (dir_entry p) = []"
  by (simp add: dir_entry_def manifest_directory_def)

theorem directory_first_blinds_witness:
  "\<exists>v. (monitor_tick (echo []) \<lparr>mc_margin_threshold = 0, mc_repair_d = 16, mc_reputation_threshold = 0\<rparr> None
     \<lparr>ms_prev_live = {}, ms_ticks = 3\<rparr> :: (_, unit, _) act) ([(''a'', dir_entry ''a''), (''f'', one_node)], ((), 5)) = (Inl Panic, v)"
  by (rule directory_first_blinds[OF refl dir_nodes, where f = "''f''" and m = one_node, THEN conjunct1])
    (simp_all add: dir_nodes one_node_def cat_get_def om_get_def)

section \<open>Two nodes\<close>

definition two_nodes :: manifest where
  "two_nodes = one_node\<lparr>m_nodes := [''a'', ''b''], m_sym_len := [1], m_shard_hashes := [[[shard_hash one_shard]]]\<rparr>"

definition two_stores :: cluster where
  "two_stores = (let st = snd (store_put True (SKey (m_object_id two_nodes) 0 0) one_shard store_new) in [''a'' \<mapsto> st, ''b'' \<mapsto> st])"

lemma store_ok_new: "store_ok store_new"
  by (simp add: store_ok_def buckets_ok_def in_store_def store_new_def bucket_of_def)

lemma two_stored: "stored two_stores a k h = Some s \<Longrightarrow> s = one_shard"
  by (auto simp: stored_def two_stores_def Let_def abs_put split: if_splits option.splits)
    (simp_all add: abs_store_def store_new_def bucket_of_def)

lemma two_ok: "cluster_ok two_stores"
  by (auto simp: cluster_ok_def two_stores_def Let_def store_ok_put store_ok_new split: if_splits)


end
