(* ===== verification/Shapes.thy ===== *)
theory Shapes
  imports Gateway
begin

text \<open>
  The manifests of a gateway are well shaped: the tables that \<open>Manifest::encode\<close> asserts to have matching
  lengths, and that every other operation indexes without a check, have them in every state the gateway reaches
  from a catalog file, so that writing the catalog back never panics.
\<close>

section \<open>Shapes through the catalog operations\<close>

definition well_shaped :: "catalog \<Rightarrow> bool" where
  "well_shaped cat \<longleftrightarrow> (\<forall>(name, m) \<in> set cat. manifest_asserts m)"

lemma well_shaped_get: "well_shaped cat \<Longrightarrow> cat_get cat name = Some m \<Longrightarrow> manifest_asserts m"
  by (auto simp: well_shaped_def cat_get_def om_get_def dest!: map_of_SomeD)

lemma set_cat_insert: "set (cat_insert k v cat) \<subseteq> insert (k, v) (set cat)"
  unfolding cat_insert_def by (induction k v cat rule: om_insert.induct) auto

lemma well_shaped_insert: "well_shaped cat \<Longrightarrow> manifest_asserts m \<Longrightarrow> well_shaped (cat_insert k m cat)"
  using set_cat_insert[of k m cat] by (fastforce simp: well_shaped_def)

lemma well_shaped_remove: "well_shaped cat \<Longrightarrow> well_shaped (snd (cat_remove k cat))"
  by (auto simp: well_shaped_def cat_remove_def om_remove_def)

lemma directory_asserts: "manifest_asserts (manifest_directory oid)"
  by (simp add: manifest_directory_def manifest_asserts_def)

lemma synthesize_shaped:
  assumes "well_shaped cat" shows "well_shaped (snd (synthesize_missing_directories cat))"
proof -
  have "well_shaped (fold (\<lambda>path d. cat_insert path (manifest_directory (dir_object_id path)) d) ps d)" if "well_shaped d" for ps d
    using that by (induction ps arbitrary: d) (auto intro!: well_shaped_insert directory_asserts)
  with assms show ?thesis by (simp add: synthesize_missing_directories_def Let_def)
qed

lemma decoded_asserts: "manifest_decode buf = Inr m \<Longrightarrow> manifest_asserts m"
  by (auto simp: manifest_decode_def rbind_eq_Inr manifest_ok_def split: if_splits dest!: manifest_codec.dec_sound)

lemma entries_shaped: "cat_entries n c d = Inr cat \<Longrightarrow> well_shaped d \<Longrightarrow> well_shaped cat"
proof (induction n arbitrary: c d)
  case (Suc n)
  from Suc.prems(1) obtain name m c' where "manifest_asserts m" "cat_entries n c' (cat_insert name m d) = Inr cat"
    by (fastforce simp: rbind_eq_Inr dest: decoded_asserts)
  with Suc.IH[of c' "cat_insert name m d"] Suc.prems(2) show ?case by (simp add: well_shaped_insert)
qed simp

lemma load_shaped:
  assumes load: "cat_load stored = Inr cat" shows "well_shaped cat"
proof -
  have none: "well_shaped []" by (simp add: well_shaped_def)
  show ?thesis
  proof (cases stored)
    case (Inl e)
    with load none show ?thesis by (cases e) (auto simp: cat_load_def cat_new_def split: io_error.splits)
  next
    case (Inr bs)
    with load obtain n c where "cat_entries n c [] = Inr cat"
      by (auto simp: cat_load_def cat_decode_def rbind_eq_Inr split: if_splits)
    with none show ?thesis by (rule entries_shaped[rotated])
  qed
qed

lemma rename_shaped:
  assumes "rename old new cat = Inr (n, cat')" and "well_shaped cat"
  shows "well_shaped cat'"
proof -
  have move: "well_shaped (move_entry (f, to, m) c)" if "well_shaped c" "manifest_asserts m" for f to m c
    using that by (simp add: move_entry_def well_shaped_insert well_shaped_remove)
  have moves: "well_shaped (fold move_entry moved c)" if "well_shaped c" "\<forall>(f, t, m) \<in> set moved. manifest_asserts m" for moved c
    using that by (induction moved arbitrary: c) (auto intro!: move)
  have collected: "\<forall>(f, t, m) \<in> set moved'. manifest_asserts m"
    if "collect_moves cat p new moved xs = Inr moved'" "\<forall>(f, t, m) \<in> set moved. manifest_asserts m" "well_shaped xs" for p moved xs moved'
    using that
  proof (induction cat p new moved xs rule: collect_moves.induct)
    case (2 cat p new moved k v r)
    have v: "manifest_asserts v" using "2.prems"(3) by (simp add: well_shaped_def)
    show ?case
    proof (cases "starts_with p k")
      case True
      let ?target = "new @ slash # drop (length p) k"
      from True "2.prems"(1) have "cat_get cat ?target = None" "collect_moves cat p new (moved @ [(k, ?target, v)]) r = Inr moved'"
        by (auto simp: Let_def split: if_splits)
      with "2.IH"[OF _ refl] True "2.prems"(2,3) v show ?thesis by (auto simp: well_shaped_def)
    qed (use "2.prems"(1,2) in simp)
  qed simp
  have "set (range_from p cat) \<subseteq> set cat" for p by (auto simp: range_from_def dest: set_dropWhileD)
  then have range: "well_shaped (range_from p cat)" for p using assms(2) unfolding well_shaped_def by blast
  from assms range show ?thesis
    by (auto simp: rename_def rbind_eq_Inr well_shaped_get split: if_splits option.splits
        intro!: move moves dest!: collected)
qed

section \<open>What the put operations leave\<close>

text \<open>Sending shards does not touch the manifest, whatever is asked of it.\<close>

lemma keeps_send_shard [keeps_intros]: "keeps (\<lambda>(m, _). Q m) (send_shard call live c l idx s)"
  unfolding send_shard_def by (intro keeps_intros)

lemma keeps_send_step [keeps_intros]: "keeps (\<lambda>(m, _). Q m) (send_step call live hs p)"
  unfolding send_step_def by (intro keeps_intros)

text \<open>Text and opaque manifests have one channel of one layer, so the one-element tables fit.\<close>

definition flat_shaped :: "manifest \<Rightarrow> bool" where
  "flat_shaped m \<longleftrightarrow> manifest_asserts m \<and> m_channels m = 1 \<and> m_nlayers m = 1"

lemma keeps_flat_send_all [keeps_intros]: "keeps (\<lambda>(m, _). flat_shaped m) (send_all call live ss)"
  unfolding send_all_def by (intro keeps_intros; simp add: flat_shaped_def manifest_asserts_def)

lemma flat_put_opaque: "keeps (\<lambda>(m, _). flat_shaped m) (put_opaque_object call live data)"
  unfolding put_opaque_object_def by (intro keeps_intros; auto simp: flat_shaped_def manifest_asserts_def set_cid_def list_all_length)

lemma flat_put_text: "keeps (\<lambda>(m, _). flat_shaped m) (put_text_object call live text)"
  unfolding put_text_object_def by (intro keeps_intros; auto simp: flat_shaped_def manifest_asserts_def set_cid_def list_all_length)

lemma put_planes_asserts:
  assumes "put_planes call live tr channels rng (m, w) = (Inr u, (m', w'))" and "manifest_asserts m"
  shows "manifest_asserts m'"
proof -
  let ?planes = "map (\<lambda>ch. case tr ch of Inr p \<Rightarrow> p | Inl _ \<Rightarrow> []) channels"
  obtain hs root where "m' = m\<lparr>m_shard_hashes := hs, m_merkle_root := root\<rparr>" "hashes_match m hs (coded_layers m ?planes rng)"
    using put_planes_spec[OF assms(1), of ?planes] by auto
  with assms(2) show ?thesis by (auto simp: manifest_asserts_def hashes_match_def list_all_length)
qed

lemma set_cid_asserts [simp]: "manifest_asserts (set_cid cid m) = manifest_asserts m"
  by (simp add: manifest_asserts_def set_cid_def)

lemma put_object_asserts:
  "put_object call live channels (m, w) = (Inr u, (m', w')) \<Longrightarrow> manifest_asserts m \<Longrightarrow> manifest_asserts m'"
  by (auto simp: put_object_def manifest_run Let_def split: sum.splits dest: put_planes_asserts)

lemma put_audio_asserts:
  "put_audio_object call live channels (m, w) = (Inr u, (m', w')) \<Longrightarrow> manifest_asserts m \<Longrightarrow> manifest_asserts m'"
  by (auto simp: put_audio_object_def manifest_run Let_def split: sum.splits if_splits dest: put_planes_asserts)

section \<open>Blank manifests\<close>

lemma positions_length: "rfold (push_position f) lps is = Inr lps' \<Longrightarrow> length lps' = length lps"
  by (induction "is" arbitrary: lps) (auto simp: push_position_def rbind_eq_Inr)

lemma blank_asserts:
  assumes "length (cl_zones cl) = length (cl_addrs cl)"
  shows "blank_manifest cl = Inr m \<Longrightarrow> manifest_asserts m"
    and "blank_audio_manifest cl rate ch n = Inr m \<Longrightarrow> manifest_asserts m"
    and "flat_shaped (blank_text_manifest cl ct)" and "flat_shaped (blank_opaque_manifest cl ct)"
  using assms
  by (auto simp: blank_manifest_def blank_audio_manifest_def blank_text_manifest_def blank_opaque_manifest_def
      blank_flat_manifest_def flat_shaped_def manifest_asserts_def red_counts_def sym_lens_def NLAYERS_def LEVELS_def Let_def
      rbind_eq_Inr list_all_length split: if_splits dest!: positions_length)

lemma run_put_result:
  assumes "run_put f put m w = (Inr m', w')" obtains u where "put (m, w) = (Inr u, (m', w'))"
  using assms by (cases "put (m, w)") (auto simp: run_put_def map_err_def split: sum.splits fault.splits)

lemma run_put_asserts:
  assumes "run_put f put m w = (Inr m', w')" and "\<And>u m' w'. put (m, w) = (Inr u, (m', w')) \<Longrightarrow> manifest_asserts m'"
  shows "manifest_asserts m'"
  using run_put_result[OF assms(1)] assms(2) by metis

lemma flat_keeps:
  assumes "keeps (\<lambda>(m, _). flat_shaped m) put" and "flat_shaped m" and "put (m, w) = (Inr u, (m', w'))"
  shows "manifest_asserts m'"
  using keepsD[OF assms(1,3)] assms(2) by (simp add: flat_shaped_def)

lemma put_any_asserts:
  assumes "put_any env cl name body live w = (Inr (m, what, n), w')" and "length (cl_zones cl) = length (cl_addrs cl)"
  shows "manifest_asserts m"
proof -
  note blank = blank_asserts[OF assms(2)]
  have "manifest_asserts m" if "blank_manifest cl = Inr b" "run_put f (put_object call live chs) b v = (Inr m, v')" for b f call chs v v'
    using that(2) by (rule run_put_asserts) (rule put_object_asserts[OF _ blank(1)[OF that(1)]])
  moreover have "manifest_asserts m" if "blank_audio_manifest cl rate ch n = Inr b" "run_put f (put_audio_object call live chs) b v = (Inr m, v')"
    for rate ch n b f call chs v v'
    using that(2) by (rule run_put_asserts) (rule put_audio_asserts[OF _ blank(2)[OF that(1)]])
  moreover have "manifest_asserts m" if "run_put f (put_text_object call live str) (blank_text_manifest cl ct) v = (Inr m, v')" for f call str ct v v'
    using that by (rule run_put_asserts) (rule flat_keeps[OF flat_put_text blank(3)])
  moreover have "manifest_asserts m" if "run_put f (put_opaque_object call live data) (blank_opaque_manifest cl ct) v = (Inr m, v')" for f call data ct v v'
    using that by (rule run_put_asserts) (rule flat_keeps[OF flat_put_opaque blank(4)])
  ultimately show ?thesis using assms(1) unfolding put_any_def
    by (auto simp: abind_Inr split: option.splits sum.splits)
qed

section \<open>Every method keeps the shapes\<close>

definition shaped :: "gateway \<Rightarrow> bool" where
  "shaped g \<longleftrightarrow> well_shaped (gw_catalog g) \<and> length (cl_zones (gw_cluster g)) = length (cl_addrs (gw_cluster g))"

lemma shaped_updates [simp]:
  "shaped (g\<lparr>gw_disk := d\<rparr>) = shaped g" "shaped (g\<lparr>gw_cache := c\<rparr>) = shaped g" "shaped (invalidate_cache name g) = shaped g"
  "shaped (g\<lparr>gw_kills := ks\<rparr>) = shaped g"
  by (simp_all add: shaped_def invalidate_cache_def)

lemma shaped_catalog: "shaped g \<Longrightarrow> well_shaped cat \<Longrightarrow> shaped (g\<lparr>gw_catalog := cat\<rparr>)"
  by (simp add: shaped_def)

lemma shapedD: "shaped g \<Longrightarrow> well_shaped (gw_catalog g)" "shaped g \<Longrightarrow> length (cl_zones (gw_cluster g)) = length (cl_addrs (gw_cluster g))"
  by (simp_all add: shaped_def)

lemma keeps_shaped_persist [keeps_intros]: "keeps (\<lambda>(g, _). shaped g) (persist_catalog env)"
  by (auto simp: keeps_def persist_catalog_def split: option.split sum.split prod.split)

lemma keeps_shaped_persisted: "keeps (\<lambda>(g, _). shaped g) (abind (persist_catalog env) (\<lambda>_. aret x))"
  by (intro keeps_intros)

lemma mkdir_shaped: "mkdir path cat = Inr (oid, cat') \<Longrightarrow> well_shaped cat \<Longrightarrow> well_shaped cat'"
  by (auto simp: mkdir_def rbind_eq_Inr Let_def split: if_splits intro!: well_shaped_insert directory_asserts)

lemma rmdir_shaped: "rmdir path cat = Inr (oid, cat') \<Longrightarrow> well_shaped cat \<Longrightarrow> well_shaped cat'"
  by (auto simp: rmdir_def rbind_eq_Inr split: option.splits if_splits intro!: well_shaped_remove)

lemma remove_shaped: "remove_entry name cat = Inr (m, cat') \<Longrightarrow> well_shaped cat \<Longrightarrow> well_shaped cat'"
  by (auto simp: remove_entry_def rbind_eq_Inr split: option.splits if_splits intro!: well_shaped_remove)

lemma gw_mkdir_shaped: "keeps (\<lambda>(g, _). shaped g) (gw_mkdir env path)"
  by (rule keeps_run) (auto simp: gw_mkdir_def gw_run split: sum.split
      intro!: keeps_tail[OF keeps_shaped_persisted] shaped_catalog dest: mkdir_shaped shapedD)

lemma gw_rmdir_shaped: "keeps (\<lambda>(g, _). shaped g) (gw_rmdir env path)"
  by (rule keeps_run) (auto simp: gw_rmdir_def gw_run split: sum.split
      intro!: keeps_tail[OF keeps_shaped_persisted] shaped_catalog dest: rmdir_shaped shapedD)

lemma gw_rename_shaped: "keeps (\<lambda>(g, _). shaped g) (gw_rename env old new)"
  by (rule keeps_run) (auto simp: gw_rename_def gw_run split: sum.split
      intro!: keeps_tail[OF keeps_shaped_persisted] shaped_catalog dest: rename_shaped shapedD)

lemma remove_object_shaped: "keeps (\<lambda>(g, _). shaped g) (remove_object env name)"
proof (rule keeps_run)
  fix g :: gateway and w :: 'a assume ok: "shaped g"
  have tail: "keeps (\<lambda>(g, _). shaped g) (abind (persist_catalog env) (\<lambda>_. abind
      (amap_err (\<lambda>e. Decode (PartialPurge e)) (on_net (purge_object (ev_call env) m live))) (\<lambda>_. aret x)))" for m live x
    by (intro keeps_intros)
  show "case snd (remove_object env name (g, w)) of (g', _) \<Rightarrow> shaped g'"
    using ok by (auto simp: remove_object_def gw_run split: sum.split
        intro!: keeps_tail[OF tail] shaped_catalog dest: remove_shaped shapedD)
qed

lemma ingest_shaped: "keeps (\<lambda>(g, _). shaped g) (ingest_bytes env name body)"
proof (rule keeps_run)
  fix g :: gateway and w :: 'a assume ok: "shaped g"
  let ?pre = "purge_previous env (cat_get (gw_catalog g) name) (effective_live g)"
  obtain r1 w1 where pre: "?pre (g, w) = (r1, (g, w1))"
    using prev_run[of env "cat_get (gw_catalog g) name" "effective_live g" g w] by blast
  obtain r2 w2 where put: "put_any env (gw_cluster g) name body (effective_live g) w1 = (r2, w2)" by force
  have ins: "shaped (g\<lparr>gw_catalog := cat_insert name m (gw_catalog g)\<rparr>)" if "r2 = Inr (m, what, n)" for m what n
    using ok put_any_asserts[of env "gw_cluster g" name body "effective_live g" w1 m what n w2] put that
    by (auto intro!: shaped_catalog well_shaped_insert dest: shapedD)
  show "case snd (ingest_bytes env name body (g, w)) of (g', _) \<Rightarrow> shaped g'"
    using ok by (auto simp: ingest_bytes_def gw_run abind_def[of ?pre] pre put Let_def
        split: sum.split intro!: keeps_tail[OF keeps_shaped_persisted] ins)
qed

lemma toggle_shaped: "keeps (\<lambda>(g, _). shaped g) (toggle_admin_kill idx)"
  by (rule keeps_run) (auto simp: toggle_admin_kill_def gw_run)

lemma get_or_decode_shaped [keeps_intros]: "keeps (\<lambda>(g, _). shaped g) (get_or_decode env name l)"
  by (rule keeps_run)
    (auto simp: get_or_decode_def gw_run Let_def split: option.split sum.split prod.split fault.split)

lemma decode_shaped: "keeps (\<lambda>(g, _). shaped g) (decode_object env name ml)"
proof (rule keeps_run)
  fix g :: gateway and w :: 'a assume ok: "shaped g"
  show "case snd (decode_object env name ml (g, w)) of (g', _) \<Rightarrow> shaped g'"
  proof (cases "cat_get (gw_catalog g) name")
    case None
    with ok show ?thesis by (simp add: decode_object_def gw_run)
  next
    case (Some m)
    show ?thesis
    proof (cases "m_kind m = Image")
      case True
      obtain r g' w' where d: "(get_or_decode env name (full_or m ml) :: (_, gateway_error, _) act) (g, w) = (r, (g', w'))"
        by (metis prod.exhaust)
      with keepsD[OF get_or_decode_shaped d] ok Some True show ?thesis
        by (auto simp: decode_object_def gw_run abind_def[of "get_or_decode env name (full_or m ml)"] split: sum.split option.split)
    next
      case False
      then show ?thesis using ok Some
        by (cases "m_kind m") (auto simp: decode_object_def gw_run split: sum.split prod.split)
    qed
  qed
qed

text \<open>Any request, renames of directories with cached contents included.\<close>

inductive request_step :: "'w env \<Rightarrow> gateway \<times> 'w \<Rightarrow> gateway \<times> 'w \<Rightarrow> bool" for env where
  rq_step: "gw_step env s s' \<Longrightarrow> request_step env s s'"
| rq_rename: "gw_rename env old new s = (r, s') \<Longrightarrow> request_step env s s'"

lemma request_step_shaped:
  assumes "request_step env s s'" and "shaped (fst s)" shows "shaped (fst s')"
  using assms(1)
proof cases
  case rq_step
  then show ?thesis using assms(2)
    by cases (auto simp: split_beta dest!: keepsD[OF ingest_shaped] keepsD[OF remove_object_shaped] keepsD[OF gw_mkdir_shaped]
        keepsD[OF gw_rmdir_shaped] keepsD[OF gw_rename_shaped] keepsD[OF toggle_shaped] keepsD[OF decode_shaped])
next
  case (rq_rename old new r)
  from keepsD[OF gw_rename_shaped rq_rename] assms(2) show ?thesis by (simp add: split_beta)
qed

lemma requests_shaped: "(request_step env)\<^sup>*\<^sup>* s s' \<Longrightarrow> shaped (fst s) \<Longrightarrow> shaped (fst s')"
  by (induction rule: rtranclp_induct) (auto intro: request_step_shaped)

section \<open>What well shaped means\<close>

text \<open>The hash list of every layer exists, and saving the catalog never fails on an assertion.\<close>

lemma shaped_saves:
  assumes "shaped g"
  shows "(\<forall>(name, m) \<in> set (gw_catalog g). manifest_asserts m \<and>
      list_all (\<lambda>(c, l). \<exists>hashes. (expected_hashes m c l :: (client_error, _) res) = Inr hashes) (layer_pairs m)) \<and>
    (\<exists>out. (cat_encode (gw_catalog g) :: (gateway_error, _) res) = Inr out) \<and> fst (persist_catalog env (g, w')) = Inr ()"
proof -
  have g: "well_shaped (gw_catalog g)" using assms by (simp add: shaped_def)
  have "\<exists>hashes. (expected_hashes m c l :: (client_error, _) res) = Inr hashes"
    if "manifest_asserts m" "(c, l) \<in> set (layer_pairs m)" for m c l
    using that by (auto simp: expected_hashes_def layer_pairs_def manifest_asserts_def list_all_length)
  moreover obtain out where enc: "(cat_encode (gw_catalog g) :: (gateway_error, _) res) = Inr out"
  proof -
    have "\<exists>e. (enc_entry x :: (gateway_error, _) res) = Inr e" if "x \<in> set (gw_catalog g)" for x
      using g that by (cases x) (auto simp: enc_entry_def manifest_encode_def rassert_def well_shaped_def)
    then have "rmap (enc_entry :: _ \<Rightarrow> (gateway_error, _) res) (gw_catalog g) = Inr (map (\<lambda>x. SOME e. (enc_entry x :: (gateway_error, _) res) = Inr e) (gw_catalog g))"
      by (intro rmap_Inr) (metis (mono_tags, lifting) someI_ex)
    then show ?thesis using that by (simp add: cat_encode_def)
  qed
  moreover from enc have "fst (persist_catalog env (g, w')) = Inr ()"
    by (simp add: persist_catalog_def split: option.split prod.split)
  ultimately show ?thesis using g by (fastforce simp: well_shaped_def list_all_iff)
qed

end
