(* ===== verification/Range.thy ===== *)
theory Range
  imports Gateway
begin

text \<open>
  \<open>holofs-web/src/range.rs\<close>: the \<open>Range\<close> header of HTTP. The argument is a header value, which is visible ASCII,
  so \<open>trim\<close> removes ASCII white space; \<open>parse_u64\<close> is \<open>str::parse::<u64>\<close>, which allows a leading plus sign.
\<close>

section \<open>Strings\<close>

definition ascii_space :: "char \<Rightarrow> bool" where
  "ascii_space c \<longleftrightarrow> c \<in> {CHR 0x09, CHR 0x0A, CHR 0x0B, CHR 0x0C, CHR 0x0D, CHR 0x20}"

definition trim :: "string \<Rightarrow> string" where
  "trim s = rev (dropWhile ascii_space (rev (dropWhile ascii_space s)))"

definition strip_prefix :: "string \<Rightarrow> string \<Rightarrow> string option" where
  "strip_prefix p s = (if starts_with p s then Some (drop (length p) s) else None)"

fun split_on :: "char \<Rightarrow> string \<Rightarrow> string list" where
  "split_on c [] = [[]]"
| "split_on c (x # xs) = (if x = c then [] # split_on c xs else (case split_on c xs of y # ys \<Rightarrow> (x # y) # ys | [] \<Rightarrow> [[x]]))"

definition split_once :: "char \<Rightarrow> string \<Rightarrow> (string \<times> string) option" where
  "split_once c s = (if c \<in> set s then Some (takeWhile (\<lambda>x. x \<noteq> c) s, drop 1 (dropWhile (\<lambda>x. x \<noteq> c) s)) else None)"

definition digit_val :: "char \<Rightarrow> nat option" where
  "digit_val c = (let v = of_char c :: nat in if 48 \<le> v \<and> v \<le> 57 then Some (v - 48) else None)"

text \<open>Decimal digits to a number below the bound; \<open>None\<close> is a parse error.\<close>

fun digits :: "nat \<Rightarrow> string \<Rightarrow> nat option" where
  "digits acc [] = Some acc"
| "digits acc (c # cs) = (case digit_val c of None \<Rightarrow> None | Some d \<Rightarrow> digits (acc * 10 + d) cs)"

definition parse_below :: "nat \<Rightarrow> string \<Rightarrow> nat option" where
  "parse_below bound s =
     (let ds = (case s of c # r \<Rightarrow> if c = CHR ''+'' then r else s | [] \<Rightarrow> s) in
      if ds = [] then None
      else case digits 0 ds of Some v \<Rightarrow> if v < bound then Some v else None | None \<Rightarrow> None)"

definition parse_u64 :: "string \<Rightarrow> u64 option" where
  "parse_u64 s = map_option word_of_nat (parse_below (2 ^ 64) s)"

section \<open>The header\<close>

record byte_range =
  br_start :: u64
  br_end :: u64

definition range_len :: "byte_range \<Rightarrow> u64" where
  "range_len r = br_end r - br_start r + 1"

datatype range_outcome = NoRange | ByteRange byte_range | Multiple | Unsatisfiable | Malformed

definition parse_one :: "string \<Rightarrow> u64 \<Rightarrow> range_outcome" where
  "parse_one spec full = (case split_once (CHR ''-'') spec of
     None \<Rightarrow> Malformed
   | Some (a, b) \<Rightarrow>
       let a = trim a; b = trim b in
       if a = [] then
         if b = [] then Malformed
         else (case parse_u64 b of
           None \<Rightarrow> Malformed
         | Some suffix \<Rightarrow>
             if suffix = 0 then Unsatisfiable
             else if full = 0 then Unsatisfiable
             else ByteRange \<lparr>br_start = full - min suffix full, br_end = full - 1\<rparr>)
       else (case parse_u64 a of
         None \<Rightarrow> Malformed
       | Some start \<Rightarrow>
           if full = 0 \<or> start \<ge> full then Unsatisfiable
           else if b = [] then ByteRange \<lparr>br_start = start, br_end = full - 1\<rparr>
           else (case parse_u64 b of
             None \<Rightarrow> Malformed
           | Some raw \<Rightarrow>
               if raw < start then Unsatisfiable
               else ByteRange \<lparr>br_start = start, br_end = min raw (full - 1)\<rparr>)))"

definition parse_range :: "string \<Rightarrow> u64 \<Rightarrow> range_outcome" where
  "parse_range header full =
     (let h = trim header in
      if h = [] then NoRange
      else case strip_prefix ''bytes='' h of
        None \<Rightarrow> Malformed
      | Some spec \<Rightarrow> (case filter (\<lambda>s. s \<noteq> []) (map trim (split_on (CHR '','') spec)) of
          [] \<Rightarrow> Malformed
        | first # pieces \<Rightarrow> if pieces \<noteq> [] then Multiple else parse_one first full))"

section \<open>Numbers in a header\<close>

lemma digit_chars: "d < 10 \<Longrightarrow> digit_val (''0123456789'' ! d) = Some d \<and> \<not> ascii_space (''0123456789'' ! d) \<and>
    ''0123456789'' ! d \<notin> {CHR ''-'', CHR '','', CHR ''+''}"
proof -
  have "\<forall>d \<in> set [0..<10]. digit_val (''0123456789'' ! d) = Some d \<and> \<not> ascii_space (''0123456789'' ! d) \<and>
      ''0123456789'' ! d \<notin> {CHR ''-'', CHR '','', CHR ''+''}"
    by (simp add: upt_rec digit_val_def ascii_space_def)
  moreover assume "d < 10"
  ultimately show ?thesis by simp
qed

lemma digits_append: "digits acc (s @ t) = (case digits acc s of None \<Rightarrow> None | Some v \<Rightarrow> digits v t)"
  by (induction s arbitrary: acc) (auto split: option.split)

lemma digits_dec: "digits 0 (dec_string n) = Some n"
proof (induction n rule: dec_string.induct)
  case (1 n)
  show ?case
  proof (cases "n < 10")
    case False
    with 1 digit_chars[of "n mod 10"] show ?thesis by (subst dec_string.simps) (simp add: digits_append)
  qed (use digit_chars[of n] in \<open>simp add: dec_string.simps\<close>)
qed

lemma dec_chars: "c \<in> set (dec_string n) \<Longrightarrow> \<not> ascii_space c \<and> c \<notin> {CHR ''-'', CHR '','', CHR ''+''}"
proof (induction n arbitrary: c rule: dec_string.induct)
  case (1 n)
  then show ?case
    using digit_chars[of n] digit_chars[of "n mod 10"] by (cases "n < 10") (auto simp: dec_string.simps[of n])
qed

lemma dec_nonempty [simp]: "dec_string n \<noteq> []"
  by (subst dec_string.simps) simp

lemma parse_dec: "parse_below bound (dec_string n) = (if n < bound then Some n else None)"
proof -
  obtain c r where s: "dec_string n = c # r" using dec_nonempty by (cases "dec_string n") auto
  with dec_chars[of c n] have "c \<noteq> CHR ''+''" by simp
  with s show ?thesis using digits_dec[of n] by (simp add: parse_below_def)
qed

lemma trim_id:
  assumes "\<forall>c \<in> set s. \<not> ascii_space c" shows "trim s = s"
proof -
  have drop: "dropWhile ascii_space t = t" if "\<forall>c \<in> set t. \<not> ascii_space c" for t
    using that by (cases t) auto
  have "dropWhile ascii_space s = s" "dropWhile ascii_space (rev s) = rev s" by (rule drop, use assms in simp)+
  then show ?thesis by (simp add: trim_def)
qed

lemma split_on_plain: "c \<notin> set s \<Longrightarrow> split_on c s = [s]"
  by (induction s) auto

lemma split_once_dash:
  assumes "CHR ''-'' \<notin> set a" shows "split_once (CHR ''-'') (a @ CHR ''-'' # b) = Some (a, b)"
  using assms by (simp add: split_once_def takeWhile_append dropWhile_append)

section \<open>What a header asks for\<close>

text \<open>Every range that is returned lies inside the body.\<close>

lemma parse_one_bounds:
  assumes "parse_one spec full = ByteRange r"
  shows "br_start r \<le> br_end r \<and> br_end r < full"
proof -
  have one: "1 \<le> full" "unat (full - 1) = unat full - 1" "0 < unat full" if "full \<noteq> 0"
    using that unat_sub[of 1 full] by (simp_all add: word_le_nat_alt unat_gt_0 Suc_le_eq word_neq_0_conv)
  have pos: "full - 1 < full" if "full \<noteq> 0" using one[OF that] by (simp add: word_less_nat_alt)
  have suf: "full - min n full \<le> full - 1" if "n \<noteq> 0" "full \<noteq> 0" for n
  proof -
    have "unat (full - min n full) = unat full - unat (min n full)" by (rule unat_sub) simp
    moreover have "0 < unat (min n full)" using that by (auto simp: min_def unat_gt_0)
    ultimately show ?thesis using one[OF that(2)] by (simp add: word_le_nat_alt)
  qed
  have lt: "min n (full - 1) < full" if "full \<noteq> 0" for n
    using pos[OF that] by (simp add: min.strict_coboundedI2)
  have le: "s \<le> full - 1" if "s < full" for s
  proof -
    from that have "full \<noteq> 0" by auto
    from one[OF this] that show ?thesis by (simp add: word_le_nat_alt word_less_nat_alt)
  qed
  show ?thesis
    using assms pos suf le lt by (auto simp: parse_one_def Let_def not_less split: option.splits if_splits)
qed

lemma parse_range_bounds:
  assumes "parse_range header full = ByteRange r"
  shows "br_start r \<le> br_end r \<and> br_end r < full"
  using assms by (auto simp: parse_range_def Let_def split: if_splits option.splits list.splits dest!: parse_one_bounds)

text \<open>The three forms of a single range.\<close>

lemma parse_canonical:
  assumes "set spec \<subseteq> set (dec_string a) \<union> set (dec_string b) \<union> {CHR ''-''}" and "spec \<noteq> []"
  shows "parse_range (''bytes='' @ spec) full = parse_one spec full"
proof -
  have c: "\<not> ascii_space c \<and> c \<noteq> CHR '',''" if "c \<in> set spec" for c
    using that assms(1) dec_chars[of c a] dec_chars[of c b] by (auto simp: ascii_space_def)
  have ns: "\<not> ascii_space x" if "x \<in> set (''bytes='' @ spec)" for x
  proof -
    from that consider "x \<in> set ''bytes=''" | "x \<in> set spec" by auto
    then show ?thesis
    proof cases
      case 1
      then show ?thesis by (auto simp: ascii_space_def)
    next
      case 2
      then show ?thesis using c[of x] by simp
    qed
  qed
  have t: "trim (''bytes='' @ spec) = ''bytes='' @ spec" by (rule trim_id) (rule ballI, rule ns)
  have t2: "trim spec = spec" by (rule trim_id) (use c in blast)
  have "split_on (CHR '','') spec = [spec]" using c[of "CHR '',''"] by (intro split_on_plain) auto
  moreover have "strip_prefix ''bytes='' (''bytes='' @ spec) = Some spec" by (simp add: strip_prefix_def starts_with_def)
  ultimately show ?thesis using assms(2) unfolding parse_range_def t by (simp add: t2)
qed

lemma trim_dec [simp]: "trim (dec_string n) = dec_string n" "trim [] = []"
  using dec_chars by (auto intro!: trim_id)

lemma dash_dec: "CHR ''-'' \<notin> set (dec_string n)"
  using dec_chars by blast

lemma parse_forms:
  assumes "a < 2 ^ 64" and "b < 2 ^ 64" and "unat full = n" and "0 < n"
  shows "parse_range (''bytes='' @ dec_string a @ ''-'' @ dec_string b) full =
      (if n \<le> a \<or> b < a then Unsatisfiable else ByteRange \<lparr>br_start = word_of_nat a, br_end = word_of_nat (min b (n - 1))\<rparr>)"
    and "parse_range (''bytes='' @ dec_string a @ ''-'') full =
      (if n \<le> a then Unsatisfiable else ByteRange \<lparr>br_start = word_of_nat a, br_end = word_of_nat (n - 1)\<rparr>)"
    and "parse_range (''bytes=-'' @ dec_string b) full =
      (if b = 0 then Unsatisfiable else ByteRange \<lparr>br_start = word_of_nat (n - b), br_end = word_of_nat (n - 1)\<rparr>)"
proof -
  have "unat full < 2 ^ 64" using unsigned_less[of full] by simp
  then have n: "n < 2 ^ 64" using assms(3) by simp
  have full: "full = word_of_nat n" using assms(3) by auto
  have u: "unat (word_of_nat x :: u64) = x" if "x < 2 ^ 64" for x using that by (simp add: unat_of_nat)
  have last: "full - 1 = word_of_nat (n - 1)" using assms(4) by (simp add: full of_nat_diff)
  have p: "parse_u64 (dec_string a) = Some (word_of_nat a)" "parse_u64 (dec_string b) = Some (word_of_nat b)"
    using assms(1,2) by (simp_all add: parse_u64_def parse_dec)
  have zero: "full \<noteq> 0" "\<And>x. x < 2 ^ 64 \<Longrightarrow> (word_of_nat x :: u64) = 0 \<longleftrightarrow> x = 0"
    using assms(3,4) u by (auto simp: unat_eq_0[symmetric])
  have cmp: "full \<le> word_of_nat a \<longleftrightarrow> n \<le> a" "(word_of_nat b :: u64) < word_of_nat a \<longleftrightarrow> b < a"
    using assms(1,2) n by (simp_all add: full word_le_nat_alt word_less_nat_alt u)
  have mins: "min (word_of_nat b) (full - 1) = word_of_nat (min b (n - 1))"
    using assms(2) n unfolding last by (simp add: min_def word_le_nat_alt u)
  have suf: "full - min (word_of_nat b) full = word_of_nat (n - b)"
  proof -
    have "unat (full - min (word_of_nat b) full) = n - b"
      using assms(2) n by (auto simp: full min_def word_le_nat_alt u unat_sub_if')
    from arg_cong[OF this, of "word_of_nat :: nat \<Rightarrow> u64"] show ?thesis by simp
  qed
  show "parse_range (''bytes='' @ dec_string a @ ''-'' @ dec_string b) full =
      (if n \<le> a \<or> b < a then Unsatisfiable else ByteRange \<lparr>br_start = word_of_nat a, br_end = word_of_nat (min b (n - 1))\<rparr>)"
    using split_once_dash[OF dash_dec[of a], of "dec_string b"] p zero(1) cmp mins
    by (subst parse_canonical[of _ a b]) (auto simp: parse_one_def)
  show "parse_range (''bytes='' @ dec_string a @ ''-'') full =
      (if n \<le> a then Unsatisfiable else ByteRange \<lparr>br_start = word_of_nat a, br_end = word_of_nat (n - 1)\<rparr>)"
    using split_once_dash[OF dash_dec[of a], of "[]"] p zero(1) cmp last
    by (subst parse_canonical[of _ a b]) (auto simp: parse_one_def)
  have "parse_range (''bytes='' @ CHR ''-'' # dec_string b) full =
      (if b = 0 then Unsatisfiable else ByteRange \<lparr>br_start = word_of_nat (n - b), br_end = word_of_nat (n - 1)\<rparr>)"
    using split_once_dash[of "[]" "dec_string b"] p zero suf last assms(2)
    by (subst parse_canonical[of _ a b]) (auto simp: parse_one_def)
  then show "parse_range (''bytes=-'' @ dec_string b) full =
      (if b = 0 then Unsatisfiable else ByteRange \<lparr>br_start = word_of_nat (n - b), br_end = word_of_nat (n - 1)\<rparr>)" by simp
qed

end
