(* ===== verification/Fingerprint.thy ===== *)
theory Fingerprint
  imports Cluster
begin

text \<open>
  \<open>holofs-analytics/src/fingerprint.rs\<close> and the end of \<open>jaccard_similarity\<close> (\<open>shingle.rs\<close>): fingerprints of
  images and sounds from their coarsest layer, and the comparisons of manifests by shard hashes. Percentages are
  binary32 patterns. Shown: a fingerprint is a function of the data and of which systematic shards were read;
  a chunk diff tells equal chunks from different ones up to a collision of SHA-256.
\<close>

section \<open>Fingerprints\<close>

definition FP_LEN :: nat where "FP_LEN = 16"

text \<open>The file's own \<open>identity_index\<close> is, line by line, that of \<open>rlnc.rs\<close>.\<close>

definition byte_mean :: "bytes \<Rightarrow> u8" where
  "byte_mean p = (if p = [] then 0 else word_of_nat (min (sum_list (map unat p) div length p) 255))"

definition fp_step :: "nat \<Rightarrow> shard \<Rightarrow> bytes \<Rightarrow> bytes" where
  "fp_step k s fp = (case identity_index (coeffs s) of
     Some i \<Rightarrow> if i < FP_LEN \<and> i < k then fp[i := byte_mean (payload s)] else fp
   | None \<Rightarrow> fp)"

definition perceptual_fingerprint :: "manifest \<Rightarrow> shard list \<Rightarrow> bytes" where
  "perceptual_fingerprint m shards =
     (if m_kind m = Opaque \<or> m_kind m = Text then take FP_LEN (m_data_cid m)
      else fold (fp_step (unat (m_k m))) shards (replicate FP_LEN 0))"

definition fingerprint_distance :: "bytes \<Rightarrow> bytes \<Rightarrow> nat" where
  "fingerprint_distance a b = sum_list (map (\<lambda>(x, y). nat \<bar>int (unat x) - int (unat y)\<bar>) (zip a b))"

definition fingerprint_similarity_pct :: "bytes \<Rightarrow> bytes \<Rightarrow> u32" where
  "fingerprint_similarity_pct a b =
     f32_clamp 0 0x42C80000
       (f32_mul (f32_sub f32_ONE (f32_div (f32_of_nat (fingerprint_distance a b)) (f32_of_nat (FP_LEN * 255)))) 0x42C80000)"

definition fingerprint_hex :: "bytes \<Rightarrow> string" where
  "fingerprint_hex fp = hex fp"

text \<open>The neighbours by increasing distance; \<open>sort_by_key\<close> is stable.\<close>

definition rank_neighbors :: "bytes \<Rightarrow> (string \<times> bytes) list \<Rightarrow> string \<Rightarrow> nat \<Rightarrow> (string \<times> nat \<times> u32) list" where
  "rank_neighbors target fps self limit =
     take limit (sort_key (\<lambda>(_, d, _). d)
       (map (\<lambda>(n, fp). (n, fingerprint_distance target fp, fingerprint_similarity_pct target fp))
         (filter (\<lambda>(n, _). n \<noteq> self) fps)))"

definition jaccard_similarity :: "u32 list \<Rightarrow> u32 list \<Rightarrow> u32" where
  "jaccard_similarity a b = (case jaccard_counts a b of
     None \<Rightarrow> 0 | Some (both, n) \<Rightarrow> f32_div (f32_of_nat both) (f32_of_nat n))"

text \<open>\<open>minhash_hex_preview\<close>: the first eight hashes; the last three bytes are an ellipsis in UTF-8.\<close>

definition minhash_hex_preview :: "u32 list \<Rightarrow> string" where
  "minhash_hex_preview mh =
     concat (map (\<lambda>(i, h). (if 0 < i then '' '' else []) @ hex (u32_be h)) (zip [0..<8] (take 8 mh))) @
     (if 8 < length mh then '' '' @ of_bytes [0xE2, 0x80, 0xA6] else [])"

section \<open>Comparing manifests\<close>

definition all_hashes :: "manifest \<Rightarrow> bytes list" where
  "all_hashes m = concat (concat (m_shard_hashes m))"

text \<open>The hashes of the first manifest are counted as a set, those of the second one by one.\<close>

definition shard_overlap :: "manifest \<Rightarrow> manifest \<Rightarrow> nat \<times> nat \<times> nat" where
  "shard_overlap a b =
     (length (filter (\<lambda>h. h \<in> set (all_hashes a)) (all_hashes b)), length (remdups (all_hashes a)), length (all_hashes b))"

record chunk_diff_entry =
  cd_channel :: u8
  cd_layer :: u8
  cd_idx :: u32
  cd_common :: bool

record chunk_diff_data =
  cd_entries :: "chunk_diff_entry list"
  cd_n_common :: nat
  cd_total :: nat

definition similarity_pct :: "chunk_diff_data \<Rightarrow> u32" where
  "similarity_pct d = (if cd_total d = 0 then 0
     else f32_div (f32_mul (f32_of_nat (cd_n_common d)) 0x42C80000) (f32_of_nat (cd_total d)))"

definition diff_layer :: "manifest \<Rightarrow> manifest \<Rightarrow> nat \<Rightarrow> nat \<times> nat \<Rightarrow> ('e, chunk_diff_entry list) res" where
  "diff_layer a b k cl = (case cl of (c, l) \<Rightarrow>
     rbind (expected_hashes a c l) (\<lambda>ha.
     rbind (expected_hashes b c l) (\<lambda>hb.
       Inr (map (\<lambda>i. \<lparr>cd_channel = word_of_nat c, cd_layer = word_of_nat l, cd_idx = word_of_nat i, cd_common = (ha ! i = hb ! i)\<rparr>)
         [0..<min (min k (length ha)) (length hb)]))))"

definition chunk_diff :: "manifest \<Rightarrow> manifest \<Rightarrow> ('e, chunk_diff_data) res" where
  "chunk_diff a b =
     (let mc = unat (min (m_channels a) (m_channels b)); ml = unat (min (m_nlayers a) (m_nlayers b));
          k = unat (min (m_k a) (m_k b)) in
      rbind (rmap (diff_layer a b k) (concat (map (\<lambda>c. map (\<lambda>l. (c, l)) [0..<ml]) [0..<mc]))) (\<lambda>ls.
      let es = concat ls in
        Inr \<lparr>cd_entries = es, cd_n_common = length (filter cd_common es), cd_total = length es\<rparr>))"

section \<open>The fingerprint is that of the data\<close>

lemma fp_step_length [simp]: "length (fp_step k s fp) = length fp"
  by (simp add: fp_step_def split: option.split)

lemma fp_fold_length [simp]: "length (fold (fp_step k) ss fp) = length fp"
  by (induction ss arbitrary: fp) simp_all

lemma fp_fold:
  assumes "source_ok k sl X" and "\<forall>s \<in> set ss. consistent (gf_mul gf_new) sl X s" and "i < FP_LEN" and "length fp = FP_LEN"
  shows "fold (fp_step k) ss fp ! i =
    (if i < k \<and> (\<exists>s \<in> set ss. identity_index (coeffs s) = Some i) then byte_mean (X ! i) else fp ! i)"
  using assms(2,4)
proof (induction ss arbitrary: fp)
  case (Cons s ss)
  have len: "length (coeffs s) = k" using Cons.prems(1) assms(1) by (simp add: consistent_def source_ok_def)
  have step: "fp_step k s fp ! i = (if i < k \<and> identity_index (coeffs s) = Some i then byte_mean (X ! i) else fp ! i)"
  proof (cases "identity_index (coeffs s) = Some i")
    case True
    then have "payload s = X ! i" using Cons.prems(1) consistent_identity(1)[OF assms(1) True len] by simp
    with True assms(3) Cons.prems(2) show ?thesis by (simp add: fp_step_def)
  qed (auto simp: fp_step_def split: option.split)
  show ?case using Cons.IH[of "fp_step k s fp"] Cons.prems step by auto
qed simp

lemma fingerprint_consistent:
  assumes "m_kind m \<noteq> Text" and "m_kind m \<noteq> Opaque" and "source_ok (unat (m_k m)) sl X"
    and "\<forall>s \<in> set ss. consistent (gf_mul gf_new) sl X s"
  shows "length (perceptual_fingerprint m ss) = FP_LEN"
    and "i < FP_LEN \<Longrightarrow> perceptual_fingerprint m ss ! i =
      (if i < unat (m_k m) \<and> (\<exists>s \<in> set ss. identity_index (coeffs s) = Some i) then byte_mean (X ! i) else 0)"
  using assms(1,2) fp_fold[OF assms(3,4), of i "replicate FP_LEN 0"] by (auto simp: perceptual_fingerprint_def)

section \<open>Properties\<close>

text \<open>a chunk diff of two stored files compares their contents. After both were stored as opaque objects with at least
  \<open>K\<close> shards, the diff has one entry for each of the \<open>K\<close> chunks, marked common exactly when the two files agree on
  that chunk of their padded contents, unless two different systematic shards collide in SHA-256.\<close>

theorem chunk_diff_exact:
  assumes "put_opaque_object call live data (m, w) = (Inr u, (a, w'))" and "put_opaque_object call2 live2 data2 (m2, v) = (Inr u2, (b, v'))"
    and "data \<noteq> []" and "length data < 2 ^ 32" and "data2 \<noteq> []" and "length data2 < 2 ^ 32"
    and "K \<le> unat (m_n_per_layer m ! 0)" and "K \<le> unat (m_n_per_layer m2 ! 0)"
    and "m_channels a = 1" and "m_nlayers a = 1" and "unat (m_k a) = K" and "m_channels b = 1" and "m_nlayers b = 1" and "unat (m_k b) = K"
  defines "piece d i \<equiv> chunk (pad_to (K * symbol_len_of K (length d)) d) (symbol_len_of K (length d)) i"
  shows "\<exists>diff. (chunk_diff a b :: ('e, _) res) = Inr diff \<and> cd_total diff = K \<and>
    (map cd_common (cd_entries diff) = map (\<lambda>i. piece data i = piece data2 i) [0..<K] \<or>
     (\<exists>i < K. piece data i \<noteq> piece data2 i \<and>
       shard_hash \<lparr>coeffs = unit_vec K i, payload = piece data i\<rparr> = shard_hash \<lparr>coeffs = unit_vec K i, payload = piece data2 i\<rparr>))"
proof -
  note pa = put_opaque_spec[OF assms(1,3,4)] and pb = put_opaque_spec[OF assms(2,5,6)]
  let ?A = "opaque_shards m data" and ?B = "opaque_shards m2 data2"
  have la: "K \<le> length ?A" and lb: "K \<le> length ?B" using pa(7) pb(7) assms(7,8) by simp_all
  have A: "?A ! i = \<lparr>coeffs = unit_vec K i, payload = piece data i\<rparr>" if "i < K" for i
    using arg_cong[OF pa(8)[OF assms(7)], of "\<lambda>xs. xs ! i"] that by (simp add: systematic_def piece_def)
  have B: "?B ! i = \<lparr>coeffs = unit_vec K i, payload = piece data2 i\<rparr>" if "i < K" for i
    using arg_cong[OF pb(8)[OF assms(8)], of "\<lambda>xs. xs ! i"] that by (simp add: systematic_def piece_def)
  let ?es = "map (\<lambda>i. \<lparr>cd_channel = 0, cd_layer = 0, cd_idx = word_of_nat i,
      cd_common = (map shard_hash ?A ! i = map shard_hash ?B ! i)\<rparr>) [0..<K]"
  have ex: "(expected_hashes a 0 0 :: ('e, _) res) = Inr (map shard_hash ?A)" "(expected_hashes b 0 0 :: ('e, _) res) = Inr (map shard_hash ?B)"
    by (simp_all add: expected_hashes_def at_idx_def pa(6) pb(6))
  have layer: "(diff_layer a b K (0, 0) :: ('e, _) res) = Inr ?es"
    using la lb by (simp add: diff_layer_def ex)
  have k: "unat (min (m_k a) (m_k b)) = K" using assms(11,14) by (simp add: min_def)
  have run: "(chunk_diff a b :: ('e, _) res) = Inr \<lparr>cd_entries = ?es, cd_n_common = length (filter cd_common ?es), cd_total = K\<rparr>"
    unfolding chunk_diff_def Let_def k using assms(9,10,12,13) layer by simp
  have common: "map cd_common ?es = map (\<lambda>i. shard_hash (?A ! i) = shard_hash (?B ! i)) [0..<K]" using la lb by simp
  show ?thesis
  proof (cases "\<forall>i < K. shard_hash (?A ! i) = shard_hash (?B ! i) \<longrightarrow> piece data i = piece data2 i")
    case True
    then have "map cd_common ?es = map (\<lambda>i. piece data i = piece data2 i) [0..<K]"
      unfolding common by (auto simp: A B)
    with run show ?thesis by auto
  next
    case False
    then show ?thesis using run A B by auto
  qed
qed

lemma put_one_cluster:
  assumes "data \<noteq> []"
  obtains a w' where "put_opaque_object (cluster_call id) [0] data (blank_opaque_manifest demo_cluster ct, one_cluster) = (Inr (), (a, w'))"
    and "m_channels a = 1" and "m_nlayers a = 1" and "unat (m_k a) = K"
proof -
  let ?m = "blank_opaque_manifest demo_cluster ct"
  note blank = blank_opaque_manifest_def blank_flat_manifest_def demo_cluster_def
  have "m_kind ?m = Opaque" "m_channels ?m = 1" "m_nlayers ?m = 1" "unat (m_k ?m) = K" "m_n_per_layer ?m \<noteq> []"
    by (simp_all add: blank K_def)
  note run = put_opaque_run[OF this, of "cluster_call id" "[0]" data one_cluster]
  have "serves one_cluster (m_nodes (set_opaque data ?m)) [0]" "m_placement (set_opaque data ?m) = Rendezvous"
    using one_healthy by (simp_all add: healthy_def gateway_new_def demo_cluster_def effective_live_def blank)
  from send_all_cluster[OF this(1) _ this(2), of id "opaque_shards ?m data"] obtain w' where
    "send_all (cluster_call id) [0] (opaque_shards ?m data) (set_opaque data ?m, one_cluster) = (Inr (), ((set_opaque data ?m)\<lparr>
      m_shard_hashes := [[map shard_hash (opaque_shards ?m data)]], m_merkle_root := merkle_root (map shard_hash (opaque_shards ?m data))\<rparr>, w'))"
    by blast
  from that[OF run[unfolded this]] show ?thesis by (simp add: set_opaque_def set_cid_def blank K_def)
qed

theorem chunk_diff_exact_witness:
  "\<exists>a w1 b w2 diff. put_opaque_object (cluster_call id) [0] [1] (blank_opaque_manifest demo_cluster ''t'', one_cluster) = (Inr (), (a, w1)) \<and>
    put_opaque_object (cluster_call id) [0] [2] (blank_opaque_manifest demo_cluster ''t'', one_cluster) = (Inr (), (b, w2)) \<and>
    (chunk_diff a b :: (unit, _) res) = Inr diff \<and> cd_total diff = 16"
proof -
  obtain a w1 where a: "put_opaque_object (cluster_call id) [0] [1] (blank_opaque_manifest demo_cluster ''t'', one_cluster) = (Inr (), (a, w1))"
    "m_channels a = 1" "m_nlayers a = 1" "unat (m_k a) = K" by (rule put_one_cluster[of "[1]" "''t''"]) simp_all
  obtain b w2 where b: "put_opaque_object (cluster_call id) [0] [2] (blank_opaque_manifest demo_cluster ''t'', one_cluster) = (Inr (), (b, w2))"
    "m_channels b = 1" "m_nlayers b = 1" "unat (m_k b) = K" by (rule put_one_cluster[of "[2]" "''t''"]) simp_all
  have n: "K \<le> unat (m_n_per_layer (blank_opaque_manifest demo_cluster ''t'') ! 0)"
    by (simp add: blank_opaque_manifest_def blank_flat_manifest_def K_def)
  from chunk_diff_exact[OF a(1) b(1) _ _ _ _ n n a(2-4) b(2-4), where 'e = unit] a(1) b(1)
  show ?thesis by (auto simp: K_def)
qed

end
