(* ===== verification/Views.thy ===== *)
theory Views
  imports Fingerprint Health "HOL-Library.Product_Lexorder"
begin

text \<open>
  The read-only and the escrow methods of \<open>http_gateway.rs\<close>: statistics, health, fingerprints, the shard
  inspector with its cache, similarity, chunk diffs, and escrow shares kept in memory. Wall-clock fields and the
  \<open>f64\<close> percentage of \<open>api_stats\<close> are left out.
\<close>

section \<open>Fingerprints\<close>

definition compute_fingerprint :: "'w env \<Rightarrow> manifest \<Rightarrow> (gateway \<times> 'w, 'e, bytes) act" where
  "compute_fingerprint env m =
     (if m_kind m = Opaque \<or> m_kind m = Text then aret (perceptual_fingerprint m [])
      else abind the_gw (\<lambda>g.
        abind (aok (on_net (gather_layer (ev_call env) m (effective_live g) 0 0))) (\<lambda>r.
        let shards = (case r of Some ss \<Rightarrow> ss | None \<Rightarrow> []);
            expected = (case m_shard_hashes m of (hs # _) # _ \<Rightarrow> hs | _ \<Rightarrow> [])
        in aret (perceptual_fingerprint m (verified expected shards)))))"

record fingerprint_info =
  fi_name :: string
  fi_hex :: string
  fi_kind :: object_kind

text \<open>\<open>catalog.get(name).cloned().ok_or(NotFound)?\<close>\<close>

definition lookup :: "string \<Rightarrow> ('w, manifest) gw" where
  "lookup name = abind the_gw (\<lambda>g. case cat_get (gw_catalog g) name of
     Some m \<Rightarrow> aret m | None \<Rightarrow> alift (Inl (Err GwNotFound)))"

definition fingerprint_of :: "'w env \<Rightarrow> string \<Rightarrow> ('w, fingerprint_info) gw" where
  "fingerprint_of env name =
     abind (lookup name) (\<lambda>m.
     abind (compute_fingerprint env m) (\<lambda>fp.
       aret \<lparr>fi_name = name, fi_hex = fingerprint_hex fp, fi_kind = m_kind m\<rparr>))"

section \<open>Statistics\<close>

record kind_counts =
  kc_image :: nat
  kc_audio :: nat
  kc_text :: nat
  kc_opaque :: nat
  kc_directory :: nat

record api_stats_data =
  as_nodes_total :: nat
  as_nodes_live :: nat
  as_objects_total :: nat
  as_by_kind :: kind_counts
  as_shards_total :: u64
  as_shards_unique :: nat
  as_bytes_total :: u64

definition count_kind :: "object_kind \<Rightarrow> kind_counts \<Rightarrow> kind_counts" where
  "count_kind k n = (case k of
     Image \<Rightarrow> n\<lparr>kc_image := kc_image n + 1\<rparr> | Audio \<Rightarrow> n\<lparr>kc_audio := kc_audio n + 1\<rparr>
   | Text \<Rightarrow> n\<lparr>kc_text := kc_text n + 1\<rparr> | Opaque \<Rightarrow> n\<lparr>kc_opaque := kc_opaque n + 1\<rparr>
   | Directory \<Rightarrow> n\<lparr>kc_directory := kc_directory n + 1\<rparr>)"

definition count_layer :: "manifest \<Rightarrow> nat \<times> u32 \<Rightarrow> u64 \<times> u64 \<Rightarrow> u64 \<times> u64" where
  "count_layer m ix tot = (case ix of (l, npl) \<Rightarrow> (case tot of (shards, bytes) \<Rightarrow>
     let per = ucast (if l < length (m_sym_len m) then m_sym_len m ! l else 0) + ucast (m_k m);
         n = ucast npl * ucast (m_channels m)
     in (shards + n, bytes + n * per)))"

definition api_stats :: "gateway \<Rightarrow> api_stats_data" where
  "api_stats g =
     (let ms = map snd (gw_catalog g);
          (shards, bytes) = fold (\<lambda>m. fold (count_layer m) (zip [0..<length (m_n_per_layer m)] (m_n_per_layer m))) ms (0, 0)
      in \<lparr>as_nodes_total = length (gw_kills g), as_nodes_live = length (filter Not (gw_kills g)),
          as_objects_total = length (gw_catalog g),
          as_by_kind = fold (\<lambda>m. count_kind (m_kind m)) ms \<lparr>kc_image = 0, kc_audio = 0, kc_text = 0, kc_opaque = 0, kc_directory = 0\<rparr>,
          as_shards_total = shards, as_shards_unique = card (set (concat (map all_hashes ms))), as_bytes_total = bytes\<rparr>)"

record node_status =
  ns_idx :: nat
  ns_addr :: string
  ns_zone :: u8
  ns_killed :: bool

record health_index =
  hi_nodes :: "node_status list"
  hi_objects :: "string list"
  hi_n_live :: nat
  hi_n_total :: nat

definition health_index_data :: "gateway \<Rightarrow> health_index" where
  "health_index_data g =
     (let cl = gw_cluster g; kills = gw_kills g in
      \<lparr>hi_nodes = map (\<lambda>i. \<lparr>ns_idx = i, ns_addr = cl_addrs cl ! i,
           ns_zone = (if i < length (cl_zones cl) then cl_zones cl ! i else 0),
           ns_killed = (if i < length kills then kills ! i else False)\<rparr>) [0..<length (cl_addrs cl)],
       hi_objects = sort (cat_names (gw_catalog g)),
       hi_n_live = length (filter Not kills), hi_n_total = length kills\<rparr>)"

definition gw_object_health :: "'w env \<Rightarrow> string \<Rightarrow> ('w, object_health) gw" where
  "gw_object_health env name =
     abind (lookup name) (\<lambda>m.
     abind the_gw (\<lambda>g.
       amap_err (\<lambda>e. Decode (HealthDecode e)) (on_net (object_health (ev_call env) name m (effective_live g)))))"

section \<open>The shard inspector\<close>

record shard_info_data =
  si_idx :: u32
  si_node :: nat
  si_addr :: string
  si_systematic :: bool

record layer_layout_data =
  ll_channel :: u8
  ll_layer :: u8
  ll_n_shards :: u32
  ll_k :: u16
  ll_shards :: "shard_info_data list"

record inspect_info =
  ii_name :: string
  ii_kind :: object_kind
  ii_channels :: u8
  ii_nlayers :: u8
  ii_k :: u16
  ii_layers :: "layer_layout_data list"

definition node_addr :: "manifest \<Rightarrow> nat \<Rightarrow> string" where
  "node_addr m i = (if i < length (m_nodes m) then m_nodes m ! i else [])"

definition shard_info :: "manifest \<Rightarrow> nat list \<Rightarrow> u8 \<Rightarrow> u8 \<Rightarrow> nat \<Rightarrow> ('e, shard_info_data) res" where
  "shard_info m live c l idx = rbind (place_shard m c l (word_of_nat idx) live) (\<lambda>node.
     Inr \<lparr>si_idx = word_of_nat idx, si_node = node, si_addr = node_addr m node,
          si_systematic = (word_of_nat idx < (ucast (m_k m) :: u32))\<rparr>)"

definition layer_layout :: "manifest \<Rightarrow> nat list \<Rightarrow> nat \<times> nat \<Rightarrow> ('e, layer_layout_data) res" where
  "layer_layout m live cl = (case cl of (c, l) \<Rightarrow>
     rbind (at_idx (m_n_per_layer m) l) (\<lambda>n.
     rbind (rmap (shard_info m live (word_of_nat c) (word_of_nat l)) [0..<unat n]) (\<lambda>shards.
       Inr \<lparr>ll_channel = word_of_nat c, ll_layer = word_of_nat l, ll_n_shards = n, ll_k = m_k m, ll_shards = shards\<rparr>)))"

definition inspect :: "string \<Rightarrow> ('w, inspect_info) gw" where
  "inspect name =
     abind (lookup name) (\<lambda>m.
     abind the_gw (\<lambda>g.
     abind (alift (rmap (layer_layout m (effective_live g)) (layer_pairs m))) (\<lambda>layers.
       aret \<lparr>ii_name = name, ii_kind = m_kind m, ii_channels = m_channels m, ii_nlayers = m_nlayers m, ii_k = m_k m, ii_layers = layers\<rparr>)))"

record shard_payload_data =
  sp_payload :: bytes
  sp_coeffs :: bytes
  sp_systematic :: bool
  sp_hash_hex :: string
  sp_node :: nat
  sp_addr :: string
  sp_sym_len :: u32

text \<open>The gathered layer is kept once it has been asked for, an empty one after a failed gather as well.\<close>

definition cached_layer :: "'w env \<Rightarrow> string \<Rightarrow> manifest \<Rightarrow> u8 \<Rightarrow> u8 \<Rightarrow> (gateway \<times> 'w, 'e, shard list) act" where
  "cached_layer env name m c l =
     abind the_gw (\<lambda>g. case gw_shards g (name, c, l) of
       Some ss \<Rightarrow> aret ss
     | None \<Rightarrow>
         abind (aok (on_net (gather_layer (ev_call env) m (effective_live g) c l))) (\<lambda>r.
         let ss = (case r of Some ss \<Rightarrow> ss | None \<Rightarrow> []) in
         abind (on_gw (\<lambda>g. g\<lparr>gw_shards := (gw_shards g)((name, c, l) \<mapsto> ss)\<rparr>)) (\<lambda>_. aret ss)))"

definition listed_hash :: "manifest \<Rightarrow> u8 \<Rightarrow> u8 \<Rightarrow> u32 \<Rightarrow> bytes option" where
  "listed_hash m c l idx =
     (if unat c < length (m_shard_hashes m) then
        if unat l < length (m_shard_hashes m ! unat c) then
          if unat idx < length (m_shard_hashes m ! unat c ! unat l) then Some (m_shard_hashes m ! unat c ! unat l ! unat idx)
          else None else None else None)"

definition shard_payload :: "'w env \<Rightarrow> string \<Rightarrow> u8 \<Rightarrow> u8 \<Rightarrow> u32 \<Rightarrow> ('w, shard_payload_data option) gw" where
  "shard_payload env name c l idx =
     abind (lookup name) (\<lambda>m. case listed_hash m c l idx of
       None \<Rightarrow> alift (Inl (Err (BadRequest ShardOutOfRange)))
     | Some hash \<Rightarrow>
         abind the_gw (\<lambda>g.
         abind (alift (place_shard m c l idx (effective_live g))) (\<lambda>node.
         abind (cached_layer env name m c l) (\<lambda>ss.
           aret (map_option (\<lambda>sh. \<lparr>sp_payload = payload sh, sp_coeffs = coeffs sh, sp_systematic = (idx < ucast (m_k m)),
               sp_hash_hex = hex hash, sp_node = node, sp_addr = node_addr m node,
               sp_sym_len = (if unat l < length (m_sym_len m) then m_sym_len m ! unat l else 0)\<rparr>)
             (find (\<lambda>sh. shard_hash sh = hash) ss))))))"

section \<open>Similar objects\<close>

datatype similarity_method = Jaccard | L1

record similar_match =
  sm_name :: string
  sm_pct :: u32
  sm_method :: similarity_method

record overlap_info =
  ov_name :: string
  ov_common :: nat
  ov_pct :: u32

record similar_report =
  sr_name :: string
  sr_kind :: object_kind
  sr_hex :: string
  sr_minhash_k :: nat
  sr_total_shards :: nat
  sr_neighbors :: "similar_match list"
  sr_overlaps :: "overlap_info list"

text \<open>A stable sort by a comparison: each element goes behind those that are not after it.\<close>

fun insert_by :: "('a \<Rightarrow> 'a \<Rightarrow> bool) \<Rightarrow> 'a \<Rightarrow> 'a list \<Rightarrow> 'a list" where
  "insert_by before x [] = [x]"
| "insert_by before x (y # ys) = (if before x y then x # y # ys else y # insert_by before x ys)"

definition sort_by :: "('a \<Rightarrow> 'a \<Rightarrow> bool) \<Rightarrow> 'a list \<Rightarrow> 'a list" where
  "sort_by before xs = fold (insert_by before) xs []"

definition similar_step :: "'w env \<Rightarrow> string \<Rightarrow> manifest \<Rightarrow> bytes \<Rightarrow> similar_match list \<Rightarrow> string \<times> manifest \<Rightarrow>
    (gateway \<times> 'w, 'e, similar_match list) act" where
  "similar_step env name m target out nm = (case nm of (n, o') \<Rightarrow>
     if n = name \<or> m_kind o' \<noteq> m_kind m then aret out
     else if m_kind m = Text then
       aret (out @ [\<lparr>sm_name = n, sm_pct = f32_mul (jaccard_similarity (m_text_minhash m) (m_text_minhash o')) 0x42C80000, sm_method = Jaccard\<rparr>])
     else abind (compute_fingerprint env o') (\<lambda>fp.
       aret (out @ [\<lparr>sm_name = n, sm_pct = fingerprint_similarity_pct target fp, sm_method = L1\<rparr>])))"

definition overlap_with :: "string \<Rightarrow> manifest \<Rightarrow> string \<times> manifest \<Rightarrow> overlap_info list" where
  "overlap_with name m nm = (case nm of (n, o') \<Rightarrow>
     if n = name then [] else
     let common = fst (shard_overlap m o'); full = length (all_hashes m) in
     if common = 0 then []
     else [\<lparr>ov_name = n, ov_common = common,
       ov_pct = (if 0 < full then f32_div (f32_mul (f32_of_nat common) 0x42C80000) (f32_of_nat full) else 0)\<rparr>])"

definition similar_to :: "'w env \<Rightarrow> string \<Rightarrow> ('w, similar_report) gw" where
  "similar_to env name =
     abind the_gw (\<lambda>g.
     abind (lookup name) (\<lambda>m.
     abind (if m_kind m = Text then aret (replicate FP_LEN 0) else compute_fingerprint env m) (\<lambda>target.
     abind (afold (similar_step env name m target) [] (gw_catalog g)) (\<lambda>found.
       aret \<lparr>sr_name = name, sr_kind = m_kind m,
         sr_hex = (if m_kind m = Text then minhash_hex_preview (m_text_minhash m) else fingerprint_hex target),
         sr_minhash_k = MINHASH_K, sr_total_shards = length (all_hashes m),
         sr_neighbors = take 10 (sort_by (\<lambda>a b. f32_less (sm_pct b) (sm_pct a)) found),
         sr_overlaps = sort_by (\<lambda>a b. ov_common b < ov_common a) (concat (map (overlap_with name m) (gw_catalog g)))\<rparr>))))"

section \<open>Chunk diffs\<close>

record diff_layer_view =
  dl_channel :: u8
  dl_layer :: u8
  dl_n_common :: nat
  dl_n_total :: nat
  dl_cells :: "(u32 \<times> bool) list"

record diff_report =
  dr_name_a :: string
  dr_name_b :: string
  dr_kind :: object_kind
  dr_common :: nat
  dr_total :: nat
  dr_pct :: u32
  dr_saved :: u64
  dr_layers :: "diff_layer_view list"

definition cell_key :: "chunk_diff_entry \<Rightarrow> nat \<times> nat" where
  "cell_key e = (unat (cd_channel e), unat (cd_layer e))"

text \<open>The cells by channel and layer, in the order of the keys.\<close>

definition group_cells :: "chunk_diff_entry list \<Rightarrow> diff_layer_view list" where
  "group_cells es = map (\<lambda>(c, l). let cells = filter (\<lambda>e. cell_key e = (c, l)) es in
       \<lparr>dl_channel = word_of_nat c, dl_layer = word_of_nat l, dl_n_common = length (filter cd_common cells),
        dl_n_total = length cells, dl_cells = map (\<lambda>e. (cd_idx e, cd_common e)) cells\<rparr>)
     (sort (remdups (map cell_key es)))"

definition diff_chunks :: "string \<Rightarrow> string \<Rightarrow> ('w, diff_report) gw" where
  "diff_chunks name_a name_b =
     abind (lookup name_a) (\<lambda>a.
     abind (lookup name_b) (\<lambda>b.
     if m_kind a \<noteq> m_kind b then alift (Inl (Err (BadRequest KindsDiffer)))
     else abind (alift (chunk_diff a b)) (\<lambda>diff.
       aret \<lparr>dr_name_a = name_a, dr_name_b = name_b, dr_kind = m_kind a, dr_common = cd_n_common diff, dr_total = cd_total diff,
         dr_pct = similarity_pct diff,
         dr_saved = word_of_nat (cd_n_common diff) * (case m_sym_len a of s # _ \<Rightarrow> ucast s | [] \<Rightarrow> 0),
         dr_layers = group_cells (cd_entries diff)\<rparr>)))"

section \<open>Escrow\<close>

record share_info_data =
  shi_idx :: u16
  shi_path :: string
  shi_filename :: string
  shi_bytes :: nat

record split_result =
  sr_filename :: string
  sr_source_bytes :: nat
  sr_k :: nat
  sr_n :: nat
  sr_escrow_id :: string
  sr_shares :: "share_info_data list"

definition pad2 :: "nat \<Rightarrow> string" where
  "pad2 n = (if n < 10 then CHR ''0'' # dec_string n else dec_string n)"

definition share_info :: "string \<Rightarrow> nat \<Rightarrow> nat \<times> share_file \<Rightarrow> share_info_data" where
  "share_info eid n ish = (case ish of (i, sh) \<Rightarrow>
     \<lparr>shi_idx = word_of_nat i, shi_path = eid @ ''_'' @ dec_string i @ ''.holoshare'',
      shi_filename = ''share_'' @ pad2 i @ ''_of_'' @ dec_string n @ ''.holoshare'', shi_bytes = length (share_encode sh)\<rparr>)"

definition escrow_split :: "bytes \<Rightarrow> string \<Rightarrow> nat \<Rightarrow> nat \<Rightarrow> ('w, split_result) gw" where
  "escrow_split data filename k n =
     (if data = [] then alift (Inl (Err (BadRequest EmptyFile)))
      else if \<not> (1 \<le> k \<and> k \<le> 64) \<or> \<not> (k \<le> n \<and> n \<le> 64) then alift (Inl (Err (BadRequest InvalidKN)))
      else abind (alift (split_into_shares data
          \<lparr>es_k = k, es_n = n, es_content_type = guess_opaque_content_type filename, es_filename = filename\<rparr>)) (\<lambda>shares.
        abind (alift (at_idx shares 0)) (\<lambda>first.
        let eid = hex (sf_escrow_id first) in
        abind (on_gw (\<lambda>g. g\<lparr>gw_escrow := (gw_escrow g)(eid \<mapsto> shares)\<rparr>)) (\<lambda>_.
          aret \<lparr>sr_filename = filename, sr_source_bytes = length data, sr_k = k, sr_n = n, sr_escrow_id = eid,
            sr_shares = map (share_info eid n) (zip [0..<length shares] shares)\<rparr>))))"

record share_bytes =
  shb_idx :: u16
  shb_total_n :: u16
  shb_bytes :: bytes

definition escrow_download :: "string \<Rightarrow> nat \<Rightarrow> ('w, share_bytes) gw" where
  "escrow_download eid idx =
     abind the_gw (\<lambda>g. case gw_escrow g eid of
       None \<Rightarrow> alift (Inl (Err GwNotFound))
     | Some shares \<Rightarrow>
         if idx < length shares then
           aret \<lparr>shb_idx = word_of_nat idx, shb_total_n = sf_total_n (shares ! idx), shb_bytes = share_encode (shares ! idx)\<rparr>
         else alift (Inl (Err (BadRequest (NoShareIndex idx)))))"

record recover_result =
  rr_data :: bytes
  rr_content_type :: string
  rr_filename :: string
  rr_shares_used :: nat

text \<open>The shares that decode, and the errors of the others with their positions; empty blobs are skipped.\<close>

definition decode_blob :: "nat \<times> bytes \<Rightarrow> share_file list \<times> (nat \<times> escrow_error) list \<Rightarrow> (escrow_error, share_file list \<times> (nat \<times> escrow_error) list) res" where
  "decode_blob ib st = (case ib of (i, blob) \<Rightarrow> (case st of (shares, errors) \<Rightarrow>
     if blob = [] then Inr (shares, errors)
     else (case share_decode blob of
       Inr sh \<Rightarrow> Inr (shares @ [sh], errors)
     | Inl (Err e) \<Rightarrow> Inr (shares, errors @ [(i, e)])
     | Inl Panic \<Rightarrow> Inl Panic)))"

definition escrow_recover :: "bytes list \<Rightarrow> (gateway_error, recover_result) res" where
  "escrow_recover blobs =
     rbind (map_err (\<lambda>e. BadRequest (RecoverFailed e)) (rfold (\<lambda>st ib. decode_blob ib st) ([], []) (zip [0..<length blobs] blobs))) (\<lambda>(shares, errors).
     if shares = [] then Inl (Err (BadRequest (NoValidShares errors)))
     else rbind (map_err (\<lambda>e. BadRequest (RecoverFailed e)) (recover_from_shares shares)) (\<lambda>(data, ct, filename).
       Inr \<lparr>rr_data = data, rr_content_type = ct, rr_filename = filename, rr_shares_used = length shares\<rparr>))"

section \<open>Shares over the gateway\<close>

lemma opaque_type_ok: "str8_ok (guess_opaque_content_type name)"
proof -
  have "list_all str8_ok (map snd opaque_types)" "str8_ok ''application/octet-stream''"
    by (simp_all add: opaque_types_def str8_ok_def str_ok_def as_bytes_def)
  then show ?thesis
    by (auto simp: guess_opaque_content_type_def list_all_iff split: option.split dest!: map_of_SomeD)
qed

lemma decode_blobs:
  assumes "\<forall>s \<in> set S. share_ok s"
  shows "rfold (\<lambda>st ib. decode_blob ib st) (acc, errs) (zip [i..<i + length S] (map share_encode S)) = Inr (acc @ S, errs)"
  using assms
proof (induction S arbitrary: acc i)
  case (Cons s S)
  define zs where "zs = zip [Suc i..<Suc i + length S] (map share_encode S)"
  have z: "zip [i..<i + length (s # S)] (map share_encode (s # S)) = (i, share_encode s) # zs"
    by (simp add: zs_def upt_conv_Cons del: upt_Suc)
  have "share_encode s \<noteq> []" by (simp add: share_encode_def SHARE_MAGIC_def as_bytes_def)
  moreover have "share_decode (share_encode s) = Inr s" using share_decode_encode[of s "[]"] Cons.prems by simp
  ultimately have "decode_blob (i, share_encode s) (acc, errs) = Inr (acc @ [s], errs)" by (simp add: decode_blob_def)
  with Cons.IH[of "acc @ [s]" "Suc i", folded zs_def] Cons.prems show ?case unfolding z by simp
qed simp

lemma split_run:
  assumes "escrow_split data filename k n (g, w) = (Inr res, s')"
  obtains shares where "(split_into_shares data \<lparr>es_k = k, es_n = n, es_content_type = guess_opaque_content_type filename, es_filename = filename\<rparr>
      :: (gateway_error, _) res) = Inr shares"
    and "data \<noteq> []" and "1 \<le> k" and "k \<le> n" and "n \<le> 64"
    and "gw_escrow (fst s') (sr_escrow_id res) = Some shares" and "length shares = n"
proof -
  let ?p = "\<lparr>es_k = k, es_n = n, es_content_type = guess_opaque_content_type filename, es_filename = filename\<rparr>"
  from assms have ok: "data \<noteq> []" "1 \<le> k" "k \<le> 64" "k \<le> n" "n \<le> 64"
    by (auto simp: escrow_split_def split: if_splits)
  with assms obtain shares where sh: "(split_into_shares data ?p :: (gateway_error, _) res) = Inr shares"
    by (auto simp: escrow_split_def gw_run split: sum.splits)
  obtain eid sl ss rng rng' where "length ss = n" "shares = map (\<lambda>i. share_of ?p data eid i (ss ! i)) [0..<n]"
    using split_shares_props[OF sh] by (metis escrow_params.select_convs(2))
  then have len: "length shares = n" by simp
  moreover from len ok have "shares \<noteq> []" by auto
  ultimately have "gw_escrow (fst s') (sr_escrow_id res) = Some shares" using assms ok sh
    by (auto simp: escrow_split_def gw_run at_idx_def Let_def)
  with that ok sh len show ?thesis by blast
qed

lemma split_total:
  assumes "data \<noteq> []" and "1 \<le> k" and "k \<le> n" and "n \<le> 64"
  shows "\<exists>res s. escrow_split data filename k n (g, w) = (Inr res, s)"
proof -
  let ?p = "\<lparr>es_k = k, es_n = n, es_content_type = guess_opaque_content_type filename, es_filename = filename\<rparr>"
  obtain shares where sh: "(split_into_shares data ?p :: (gateway_error, _) res) = Inr shares"
  proof -
    have enc: "\<exists>sl ss rng'. (encode_layer_with_k gf_new data k n rng :: (gateway_error, _) res) = Inr ((sl, ss), rng')" for rng
      using assms(2) by (simp add: encode_layer_with_k_def Let_def split: prod.split)
    have "\<exists>shares. (split_into_shares data ?p :: (gateway_error, _) res) = Inr shares"
      using assms(2-4) enc[of "rng_new (word_of_nat (be_val (slice (sha_finalize (sha_updates [as_bytes ''holofs-escrow-v1'', be_bytes 4 k,
        be_bytes 4 n, as_bytes (guess_opaque_content_type filename), data] sha_new)) 16 24)))"]
      by (auto simp: split_into_shares_def Let_def simp del: be_bytes.simps)
    with that show ?thesis by blast
  qed
  obtain eid sl ss rng rng' where "length ss = n" "shares = map (\<lambda>i. share_of ?p data eid i (ss ! i)) [0..<n]"
    using split_shares_props[OF sh] by (metis escrow_params.select_convs(2))
  then have "shares \<noteq> []" using assms(2,3) by auto
  with assms sh show "\<exists>res s. escrow_split data filename k n (g, w) = (Inr res, s)"
    by (simp add: escrow_split_def gw_run at_idx_def Let_def)
qed

lemma downloads_run:
  assumes "gw_escrow g eid = Some shares" and "\<forall>i \<in> set is. i < length shares"
  shows "(afold (\<lambda>bs i. abind (escrow_download eid i) (\<lambda>s. aret (bs @ [shb_bytes s]))) bs is :: ('w, _) gw) (g, w) =
    (Inr (bs @ map (\<lambda>i. share_encode (shares ! i)) is), (g, w))"
  using assms(2)
proof (induction "is" arbitrary: bs)
  case (Cons i "is")
  have "escrow_download eid i (g, w) = (Inr \<lparr>shb_idx = word_of_nat i, shb_total_n = sf_total_n (shares ! i), shb_bytes = share_encode (shares ! i)\<rparr>, (g, w))"
    using assms(1) Cons.prems by (simp add: escrow_download_def gw_run)
  with Cons show ?case by (simp add: abind_step[where m = "escrow_download eid i"] abind_assoc abind_def[of "Pair _"])
qed simp

lemma lookup_run: "abind (lookup name) f (g, w) = (case cat_get (gw_catalog g) name of
    None \<Rightarrow> (Inl (Err GwNotFound), (g, w)) | Some m \<Rightarrow> f m (g, w))"
  by (simp add: lookup_def abind_def the_gw_def split: option.split)

section \<open>Fingerprints over the network\<close>

lemma fingerprint_honest:
  assumes "represents m 0 0 sl X A" and "safe (ev_call env) A" and "m_kind m \<noteq> Text" and "m_kind m \<noteq> Opaque" and "unat (m_k m) = K"
    and "compute_fingerprint env m (g, w) = (Inr fp, s')"
  shows "length fp = FP_LEN \<and> (\<forall>i < FP_LEN. fp ! i = 0 \<or> fp ! i = byte_mean (X ! i))"
proof -
  have X: "source_ok (unat (m_k m)) sl X" "\<forall>s \<in> A. consistent (gf_mul gf_new) sl X s" using assms(1,5) by (auto simp: represents_def)
  obtain ss where fp: "fp = perceptual_fingerprint m ss" "set ss \<subseteq> A"
  proof -
    have hs: "(case m_shard_hashes m of (hs # _) # _ \<Rightarrow> hs | _ \<Rightarrow> []) = m_shard_hashes m ! 0 ! 0"
      using assms(1) by (auto simp: represents_def neq_Nil_conv split: list.split)
    obtain r w1 where g: "gather_layer (ev_call env) m (effective_live g) 0 0 w = (r, w1)" by force
    show ?thesis
    proof (cases r)
      case (Inr raw)
      with g have g': "gather_layer (ev_call env) m (effective_live g) 0 0 w = (Inr raw, w1)" by simp
      have "fp = perceptual_fingerprint m (verified (m_shard_hashes m ! 0 ! 0) raw)"
        using assms(3,4,6) g' hs by (simp add: compute_fingerprint_def gw_run)
      with that verified_authentic[OF assms(1,2) g'] show ?thesis by blast
    next
      case (Inl e)
      then have "fp = perceptual_fingerprint m (verified (m_shard_hashes m ! 0 ! 0) [])"
        using assms(3,4,6) g hs by (cases e) (simp_all add: compute_fingerprint_def gw_run)
      with that show ?thesis by (simp add: verified_def)
    qed
  qed
  have "\<forall>s \<in> set ss. consistent (gf_mul gf_new) sl X s" using fp(2) X(2) by blast
  note f = fingerprint_consistent[OF assms(3,4) X(1) this]
  from f(1) f(2) show ?thesis by (auto simp: fp(1))
qed

text \<open>A directory has no nodes to ask, and is asked all the same.\<close>

lemma fingerprint_directory_panics:
  assumes "cat_get (gw_catalog g) name = Some (manifest_directory oid)" and "effective_live g \<noteq> []"
  shows "fingerprint_of env name (g, w) = (Inl Panic, (g, w)) \<and> similar_to env name (g, w) = (Inl Panic, (g, w))"
proof -
  obtain n ns where live: "effective_live g = n # ns" using assms(2) by (cases "effective_live g") auto
  have panic: "(compute_fingerprint env (manifest_directory oid) :: (_, gateway_error, _) act) (g, w) = (Inl Panic, (g, w))"
    by (simp add: compute_fingerprint_def gw_run gather_layer_def gather_step_def live at_idx_def manifest_directory_def abind_assoc)
  have "m_kind (manifest_directory oid) = Directory" by (simp add: manifest_directory_def)
  with assms(1) show ?thesis
    by (simp add: fingerprint_of_def similar_to_def lookup_run gw_run abind_stop[where m = "compute_fingerprint env (manifest_directory oid)", OF panic])
qed

section \<open>The shard cache\<close>

lemma cached_layer_hit: "gw_shards g (name, c, l) = Some ss \<Longrightarrow> cached_layer env name m c l (g, w) = (Inr ss, (g, w))"
  by (simp add: cached_layer_def gw_run)

lemma cached_layer_failed:
  "gw_shards g (name, c, l) = None \<Longrightarrow> gather_layer (ev_call env) m (effective_live g) c l w = (Inl (Err e), w') \<Longrightarrow>
     cached_layer env name m c l (g, w) = (Inr [], (g\<lparr>gw_shards := (gw_shards g)((name, c, l) \<mapsto> [])\<rparr>, w'))"
  by (simp add: cached_layer_def gw_run)

lemma payload_cached:
  assumes "cat_get (gw_catalog g) name = Some m" and "listed_hash m c l idx = Some h"
    and "(place_shard m c l idx (effective_live g) :: (gateway_error, _) res) = Inr node"
    and "gw_shards g (name, c, l) = Some ss" and "\<forall>s \<in> set ss. shard_hash s \<noteq> h"
  shows "shard_payload env name c l idx (g, w) = (Inr None, (g, w))"
proof -
  have "find (\<lambda>sh. shard_hash sh = h) ss = None" using assms(5) by (simp add: find_None_iff)
  then show ?thesis using assms(1-4) by (simp add: shard_payload_def lookup_run gw_run abind_step[where m = "cached_layer env name m c l", OF cached_layer_hit[OF assms(4)]])
qed

lemma payload_failed:
  assumes "cat_get (gw_catalog g) name = Some m" and "listed_hash m c l idx = Some h"
    and "(place_shard m c l idx (effective_live g) :: (gateway_error, _) res) = Inr node"
    and "gw_shards g (name, c, l) = None" and "gather_layer (ev_call env) m (effective_live g) c l w = (Inl (Err e), w')"
  shows "shard_payload env name c l idx (g, w) = (Inr None, (g\<lparr>gw_shards := (gw_shards g)((name, c, l) \<mapsto> [])\<rparr>, w'))"
  using assms(1-3)
  by (simp add: shard_payload_def lookup_run gw_run abind_step[where m = "cached_layer env name m c l", OF cached_layer_failed[OF assms(4,5)]])

section \<open>Properties\<close>

text \<open>C32: escrow through the gateway. After a split of a file of at most 4 GiB with a name of at most 255 bytes, every share can be
  downloaded, and handing any nonempty selection of the downloads back, in any order and with repetitions, returns
  the file with its name and type, or an error: that fewer than \<open>k\<close> different shares were given, or that the chosen ones are
  dependent, which does not happen when all of them are among the first \<open>k\<close>. No state of the gateway is needed to recover.\<close>

theorem escrow_over_gateway:
  assumes "escrow_split data filename k n (g, w) = (Inr res, (g1, w1))" and "length data < 2 ^ 32" and "str8_ok filename"
    and "is \<noteq> []" and "\<forall>i \<in> set is. i < n"
  shows "\<exists>blobs. (afold (\<lambda>bs i. abind (escrow_download (sr_escrow_id res) i) (\<lambda>s. aret (bs @ [shb_bytes s]))) [] is :: ('w, _) gw) (g1, w1) =
      (Inr blobs, (g1, w1)) \<and> length blobs = length is \<and>
    (case escrow_recover blobs of
       Inr r \<Rightarrow> rr_data r = data \<and> rr_filename r = filename \<and> rr_content_type r = guess_opaque_content_type filename \<and> k \<le> card (set is)
     | Inl Panic \<Rightarrow> False
     | Inl (Err e) \<Rightarrow> card (set is) < k \<or> e = BadRequest (RecoverFailed Dependent) \<and> (\<exists>i \<in> set is. k \<le> i))"
proof -
  let ?p = "\<lparr>es_k = k, es_n = n, es_content_type = guess_opaque_content_type filename, es_filename = filename\<rparr>"
  obtain shares where sh: "(split_into_shares data ?p :: (gateway_error, _) res) = Inr shares" "data \<noteq> []" "1 \<le> k" "k \<le> n" "n \<le> 64"
    "gw_escrow g1 (sr_escrow_id res) = Some shares" "length shares = n"
    by (rule split_run[OF assms(1)]) (simp add: that)
  let ?S = "map (\<lambda>i. shares ! i) is"
  have S: "set ?S \<subseteq> set shares" "?S \<noteq> []" using assms(4,5) sh(7) by auto
  have idx: "unat (sf_shard_idx (shares ! i)) = i" if "i < n" for i
  proof -
    obtain eid sl ss rng rng' where "length ss = n" "shares = map (\<lambda>i. share_of ?p data eid i (ss ! i)) [0..<n]"
      using split_shares_props[OF sh(1)] by (metis escrow_params.select_convs(2))
    then show ?thesis using that sh(5) by (simp add: share_of_def unat_of_nat)
  qed
  have card: "card (sf_shard_idx ` set ?S) = card (set is)"
  proof -
    have "inj_on (\<lambda>i. sf_shard_idx (shares ! i)) (set is)" using idx assms(5) by (intro inj_onI) metis
    from card_image[OF this] show ?thesis by (simp add: image_image)
  qed
  have ok: "\<forall>s \<in> set ?S. share_ok s"
    using split_share_ok[OF sh(1) _ sh(2) assms(2)] S(1) assms(3) opaque_type_ok by auto
  have run: "(afold (\<lambda>bs i. abind (escrow_download (sr_escrow_id res) i) (\<lambda>s. aret (bs @ [shb_bytes s]))) [] is :: ('w, _) gw) (g1, w1) =
      (Inr (map share_encode ?S), (g1, w1))"
    using downloads_run[OF sh(6), of "is" "[]" w1] assms(5) sh(7) by (simp add: comp_def)
  have dec: "rfold (\<lambda>st ib. decode_blob ib st) ([], []) (zip [0..<length (map share_encode ?S)] (map share_encode ?S)) = Inr (?S, [])"
    using decode_blobs[OF ok, of "[]" "[]" 0] by simp
  have len: "length data < 2 ^ 64" "es_n ?p < 2 ^ 16" using assms(2) sh(5) by simp_all
  note spec = recover_spec[OF sh(1) S sh(2) len]
  have rec: "escrow_recover (map share_encode ?S) = rbind (map_err (\<lambda>e. BadRequest (RecoverFailed e)) (recover_from_shares ?S)) (\<lambda>(data, ct, filename).
       Inr \<lparr>rr_data = data, rr_content_type = ct, rr_filename = filename, rr_shares_used = length ?S\<rparr>)"
    using S(2) unfolding escrow_recover_def dec by simp
  have "case escrow_recover (map share_encode ?S) of
       Inr r \<Rightarrow> rr_data r = data \<and> rr_filename r = filename \<and> rr_content_type r = guess_opaque_content_type filename \<and> k \<le> card (set is)
     | Inl Panic \<Rightarrow> False
     | Inl (Err e) \<Rightarrow> card (set is) < k \<or> e = BadRequest (RecoverFailed Dependent) \<and> (\<exists>i \<in> set is. k \<le> i)"
  proof (cases "recover_from_shares ?S")
    case (Inr r)
    with spec card show ?thesis unfolding rec by simp
  next
    case (Inl e)
    have len: "card (set is) \<le> length ?S" using card_length[of "is"] by simp
    show ?thesis
      using spec Inl len idx assms(5) unfolding rec card by (auto simp: map_err_def)
  qed
  with run show ?thesis by (intro exI[of _ "map share_encode ?S"]) simp
qed

text \<open>the shard inspector caches failures. When a node in the way of a gather answers with an error, the request reports
  the shard as not found, and from then on so does every request for that layer, whatever the network does, and
  also after an administrator has changed the set of nodes, until the object is stored again, renamed or removed.\<close>

theorem inspector_caches_failure:
  fixes env :: "'w env"
  assumes "cat_get (gw_catalog g) name = Some m" and "listed_hash m c l idx = Some h" and "m_placement m = Rendezvous"
    and "effective_live g \<noteq> []" and "gw_shards g (name, c, l) = None"
    and "gather_layer (ev_call env) m (effective_live g) c l w = (Inl (Err e), w')"
  shows "\<exists>g'. shard_payload env name c l idx (g, w) = (Inr None, (g', w')) \<and>
    (\<forall>(env2 :: 'w env) v. shard_payload env2 name c l idx (g', v) = (Inr None, (g', v))) \<and>
    (\<forall>i g2 b (v :: 'w) (env2 :: 'w env) v2. toggle_admin_kill i (g', v) = (Inr b, (g2, v)) \<and> effective_live g2 \<noteq> [] \<longrightarrow>
       shard_payload env2 name c l idx (g2, v2) = (Inr None, (g2, v2)))"
proof -
  let ?g = "g\<lparr>gw_shards := (gw_shards g)((name, c, l) \<mapsto> [])\<rparr>"
  have place: "\<exists>node. (place_shard m c l idx live :: (gateway_error, _) res) = Inr node" if "live \<noteq> []" for live
    using that assms(3) by (simp add: place_shard_def place_def)
  obtain node where node: "(place_shard m c l idx (effective_live g) :: (gateway_error, _) res) = Inr node" using place[OF assms(4)] ..
  have "effective_live ?g = effective_live g" by (simp add: effective_live_def)
  with node have again: "shard_payload env2 name c l idx (?g, v) = (Inr None, (?g, v))" for env2 :: "'w env" and v
    using assms(1,2) by (intro payload_cached[where m = m and node = node and ss = "[]"]) simp_all
  have toggled: "shard_payload env2 name c l idx (g2, v2) = (Inr None, (g2, v2))"
    if "toggle_admin_kill i (?g, v) = (Inr b, (g2, v))" "effective_live g2 \<noteq> []" for i g2 b and v :: 'w and env2 :: "'w env" and v2
  proof -
    note live2 = that(2)
    from that(1) have g2: "gw_catalog g2 = gw_catalog g" "gw_shards g2 = gw_shards ?g"
      by (auto simp: toggle_admin_kill_def gw_run split: if_splits)
    obtain node2 where "(place_shard m c l idx (effective_live g2) :: (gateway_error, _) res) = Inr node2" using place[OF live2] ..
    with g2 assms(1,2) show ?thesis by (intro payload_cached[where m = m and node = node2 and ss = "[]"]) simp_all
  qed
  show ?thesis
  proof (intro exI[of _ ?g] conjI allI impI)
    show "shard_payload env name c l idx (g, w) = (Inr None, (?g, w'))" by (rule payload_failed[OF assms(1,2) node assms(5,6)])
  next
    fix env2 :: "'w env" and v
    show "shard_payload env2 name c l idx (?g, v) = (Inr None, (?g, v))" by (rule again)
  next
    fix i g2 b and v :: 'w and env2 :: "'w env" and v2
    assume "toggle_admin_kill i (?g, v) = (Inr b, (g2, v)) \<and> effective_live g2 \<noteq> []"
    then show "shard_payload env2 name c l idx (g2, v2) = (Inr None, (g2, v2))" using toggled by blast
  qed
qed

text \<open>Names of 256 bytes and more do not fit the length byte of a share: a file split under such a name is never recovered
  as what it was.\<close>

lemma recovered_name_short:
  assumes "escrow_recover blobs = Inr r" shows "length (rr_filename r) < 2 ^ 8"
proof -
  have shares: "\<forall>s \<in> set shares. share_ok s"
    if "rfold (\<lambda>st ib. decode_blob ib st) (acc, errs) ibs = Inr (shares, errs')" "\<forall>s \<in> set acc. share_ok s" for acc errs ibs shares errs'
    using that
  proof (induction ibs arbitrary: acc errs)
    case (Cons ib ibs)
    obtain i b where ib: "ib = (i, b)" by force
    from Cons.prems(1) obtain acc1 errs1 where st: "decode_blob ib (acc, errs) = Inr (acc1, errs1)"
      and rest: "rfold (\<lambda>st ib. decode_blob ib st) (acc1, errs1) ibs = Inr (shares, errs')" by (auto simp: rbind_eq_Inr)
    have "share_ok s" if "share_decode b = Inr s" for s
      using that by (auto simp: share_decode_def rbind_eq_Inr split: if_splits dest!: share_codec.dec_sound)
    with st Cons.prems(2) have "\<forall>s \<in> set acc1. share_ok s"
      by (auto simp: decode_blob_def ib split: if_splits sum.splits fault.splits)
    with Cons.IH[OF rest] show ?case .
  qed simp
  from assms obtain shares errors where d: "rfold (\<lambda>st ib. decode_blob ib st) ([], []) (zip [0..<length blobs] blobs) = Inr (shares, errors)"
    and rec: "recover_from_shares shares = Inr (rr_data r, rr_content_type r, rr_filename r)"
    by (auto simp: escrow_recover_def rbind_eq_Inr map_err_def split: if_splits sum.splits fault.splits)
  from rec obtain first where "first \<in> set shares" "sf_filename first = rr_filename r"
    by (cases shares) (auto simp: recover_from_shares_def Let_def rbind_eq_Inr split: if_splits option.splits)
  with shares[OF d] show ?thesis by (fastforce simp: share_ok_def str8_ok_def)
qed

lemma long_name_unrecoverable:
  assumes "data \<noteq> []" and "1 \<le> k" and "k \<le> n" and "n \<le> 64" and "2 ^ 8 \<le> length filename"
  shows "(\<exists>res s. escrow_split data filename k n (g, w) = (Inr res, s)) \<and>
    (\<forall>blobs r. escrow_recover blobs = Inr r \<longrightarrow> rr_filename r \<noteq> filename)"
proof -
  from split_total[OF assms(1-4), where filename = filename and g = g and w = w] obtain res s where "escrow_split data filename k n (g, w) = (Inr res, s)" by blast
  then show ?thesis using assms(5) recovered_name_short by fastforce
qed

theorem escrow_over_gateway_witness:
  "\<exists>res s1 blobs r. escrow_split [1, 2, 3] ''f'' 2 3 (gateway_new [] [0] demo_cluster, ()) = (Inr res, s1) \<and>
    afold (\<lambda>bs i. abind (escrow_download (sr_escrow_id res) i) (\<lambda>s. aret (bs @ [shb_bytes s]))) [] [1, 0, 1] s1 = (Inr blobs, s1) \<and>
    escrow_recover blobs = Inr r \<and> rr_data r = [1, 2, 3] \<and> rr_filename r = ''f''"
proof -
  let ?g = "gateway_new [] [0] demo_cluster"
  have "\<exists>res s. escrow_split [1, 2, 3] ''f'' 2 3 (?g, ()) = (Inr res, s)" by (rule split_total) simp_all
  then obtain res g1 w1 where split: "escrow_split [1, 2, 3] ''f'' 2 3 (?g, ()) = (Inr res, (g1, w1))" by (metis surj_pair)
  have "str8_ok ''f''" by (simp add: str8_ok_def str_ok_def as_bytes_def)
  from escrow_over_gateway[OF split _ this, of "[1, 0, 1]"] obtain blobs where
    run: "afold (\<lambda>bs i. abind (escrow_download (sr_escrow_id res) i) (\<lambda>s. aret (bs @ [shb_bytes s]))) [] [1, 0, 1] (g1, w1) = (Inr blobs, (g1, w1))"
    and rec: "case escrow_recover blobs of
       Inr r \<Rightarrow> rr_data r = [1, 2, 3] \<and> rr_filename r = ''f'' \<and> rr_content_type r = guess_opaque_content_type ''f'' \<and> 2 \<le> card (set [1, 0, 1 :: nat])
     | Inl Panic \<Rightarrow> False
     | Inl (Err e) \<Rightarrow> card (set [1, 0, 1 :: nat]) < 2 \<or> e = BadRequest (RecoverFailed Dependent) \<and> (\<exists>i \<in> set [1, 0, 1 :: nat]. 2 \<le> i)"
    by auto
  have "set [1, 0, 1 :: nat] = {0, 1}" by auto
  then have "card (set [1, 0, 1 :: nat]) = 2" by simp
  moreover have "\<not> (\<exists>i \<in> set [1, 0, 1 :: nat]. 2 \<le> i)" by simp_all
  ultimately obtain r where "escrow_recover blobs = Inr r" "rr_data r = [1, 2, 3]" "rr_filename r = ''f''"
    using rec by (auto split: sum.splits fault.splits)
  with split run show ?thesis by blast
qed

definition failing_env :: "unit env" where
  "failing_env = demo_env\<lparr>ev_call := (\<lambda>addr req w. (Inl (Err ConnectionRefused), w))\<rparr>"

definition listed_node :: manifest where
  "listed_node = one_node\<lparr>m_shard_hashes := [[[replicate 32 0]]]\<rparr>"

theorem inspector_caches_failure_witness:
  "\<exists>g'. shard_payload failing_env ''f'' 0 0 0 (gateway_new [(''f'', listed_node)] [0] demo_cluster, ()) = (Inr None, (g', ())) \<and>
    shard_payload demo_env ''f'' 0 0 0 (g', ()) = (Inr None, (g', ()))"
proof -
  let ?g = "gateway_new [(''f'', listed_node)] [0] demo_cluster"
  have live: "effective_live ?g = [0]" by (simp add: effective_live_def gateway_new_def demo_cluster_def)
  have hyps: "cat_get (gw_catalog ?g) ''f'' = Some listed_node" "listed_hash listed_node 0 0 0 = Some (replicate 32 0)"
    "m_placement listed_node = Rendezvous" "effective_live ?g \<noteq> []" "gw_shards ?g (''f'', 0, 0) = None"
    unfolding live by (simp_all add: gateway_new_def cat_get_def om_get_def)
      (simp_all add: listed_hash_def listed_node_def one_node_def manifest_directory_def)
  have "gather_layer (ev_call failing_env) listed_node (effective_live ?g) 0 0 () = (Inl (Err (CIo ConnectionRefused)), ())"
    unfolding live by (simp add: gather_layer_def gather_step_def listed_node_def one_node_def manifest_directory_def at_idx_def rpc_def
        failing_env_def map_err_def abind_def)
  from inspector_caches_failure[OF hyps this] show ?thesis by blast
qed

end
