(* ===== verification/Http.thy ===== *)
theory Http
  imports Range Views
begin

text \<open>
  The HTTP handlers of \<open>holofs-web/src/handlers.rs\<close> that read, store and administer objects, and their
  response builders. Parameters: \<open>hv\<close>, whether the \<open>http\<close> crate accepts a string as a header value (a builder
  that was given another one fails, and the handlers unwrap its result); the path of the request as the router
  decoded it; the \<open>Range\<close> header when it is present and visible ASCII; the fields of a multipart form; the clock.
  The texts of \<open>GatewayError\<close> stay constructors. Left out are \<open>x-holofs-decode-ms\<close> and the pages and views rendered
  from the methods of \<open>Views\<close>.
\<close>

section \<open>Responses\<close>

datatype http_body = Octets bytes | Words string | Message gateway_error

record http_response =
  hr_status :: nat
  hr_headers :: "(string \<times> string) list"
  hr_body :: http_body

text \<open>\<open>Response::builder() ... .body(..).expect(..)\<close>.\<close>

definition build :: "(string \<Rightarrow> bool) \<Rightarrow> nat \<Rightarrow> (string \<times> string) list \<Rightarrow> http_body \<Rightarrow> ('e, http_response) res" where
  "build hv status headers body = rbind (rassert (list_all (\<lambda>(_, v). hv v) headers)) (\<lambda>_.
     Inr \<lparr>hr_status = status, hr_headers = headers, hr_body = body\<rparr>)"

definition plain_reply :: "nat \<Rightarrow> http_body \<Rightarrow> http_response" where
  "plain_reply status body = \<lparr>hr_status = status, hr_headers = [(''content-type'', ''text/plain'')], hr_body = body\<rparr>"

definition error_status :: "gateway_error \<Rightarrow> nat" where
  "error_status e = (case e of
     GwNotFound \<Rightarrow> 404 | BadRequest _ \<Rightarrow> 400 | Decode _ \<Rightarrow> 503 | PreviewUnsupported \<Rightarrow> 404 | IsDirectory \<Rightarrow> 409
   | AlreadyExists \<Rightarrow> 409 | NotADirectory \<Rightarrow> 409 | DirectoryNotEmpty \<Rightarrow> 409)"

definition error_to_response :: "gateway_error \<Rightarrow> http_response" where
  "error_to_response e = plain_reply (error_status e) (Message e)"

definition not_found :: http_response where
  "not_found = plain_reply 404 (Words ''not found'')"

definition bad_request_reply :: "string \<Rightarrow> http_response" where
  "bad_request_reply msg = plain_reply 400 (Words msg)"

definition kind_label :: "object_kind \<Rightarrow> string" where
  "kind_label k = (case k of
     Image \<Rightarrow> ''image'' | Audio \<Rightarrow> ''audio'' | Text \<Rightarrow> ''text'' | Opaque \<Rightarrow> ''opaque'' | Directory \<Rightarrow> ''directory'')"

definition quote :: char where "quote = CHR 0x22"

definition single :: "string \<Rightarrow> string" where
  "single s = CHR 0x27 # s @ [CHR 0x27]"

definition optional :: "'a option \<Rightarrow> ('a \<Rightarrow> string \<times> string) \<Rightarrow> (string \<times> string) list" where
  "optional x f = (case x of None \<Rightarrow> [] | Some v \<Rightarrow> [f v])"

definition kind_headers :: "decoded_object \<Rightarrow> (string \<times> string) list" where
  "kind_headers obj =
     [(''x-holofs-kind'', kind_label (do_kind obj)), (''x-holofs-bytes-downloaded'', dec_string (unat (do_downloaded obj)))] @
     optional (do_max_layer obj) (\<lambda>l. (''x-holofs-layers'', ''0-'' @ dec_string (unat l))) @
     optional (do_sample_rate obj) (\<lambda>sr. (''x-holofs-sample-rate'', dec_string (unat sr))) @
     optional (do_channels obj) (\<lambda>ch. (''x-holofs-channels'', dec_string (unat ch)))"

definition cache_headers :: "decoded_object \<Rightarrow> (string \<times> string) list" where
  "cache_headers obj =
     (if do_kind obj = Image then [(''cache-control'', ''public, max-age=3600'')] else []) @
     optional (do_filename obj) (\<lambda>f. (''content-disposition'',
       ''attachment; filename='' @ quote # filter (\<lambda>c. c \<noteq> quote) f @ [quote]))"

definition decoded_to_response :: "(string \<Rightarrow> bool) \<Rightarrow> decoded_object \<Rightarrow> ('e, http_response) res" where
  "decoded_to_response hv obj = build hv 200
     ([(''content-type'', do_content_type obj), (''content-length'', dec_string (length (do_bytes obj))), (''accept-ranges'', ''bytes'')] @
      kind_headers obj @
      optional (do_chunks_total obj) (\<lambda>n. (''x-holofs-chunks-total'', dec_string n)) @
      optional (do_chunks_missing obj) (\<lambda>n. (''x-holofs-chunks-missing'', dec_string n)) @
      cache_headers obj) (Octets (do_bytes obj))"

text \<open>\<open>bytes[start..=end]\<close>.\<close>

definition slice_incl :: "bytes \<Rightarrow> nat \<Rightarrow> nat \<Rightarrow> ('e, bytes) res" where
  "slice_incl bs s e = (if s \<le> e + 1 \<and> e < length bs then Inr (slice bs s (e + 1)) else Inl Panic)"

definition content_range :: "nat \<Rightarrow> nat \<Rightarrow> nat \<Rightarrow> string" where
  "content_range s e n = ''bytes '' @ dec_string s @ ''-'' @ dec_string e @ ''/'' @ dec_string n"

definition partial_response :: "(string \<Rightarrow> bool) \<Rightarrow> decoded_object \<Rightarrow> byte_range \<Rightarrow> ('e, http_response) res" where
  "partial_response hv obj r =
     (let s = unat (br_start r); e = unat (br_end r) in
      rbind (slice_incl (do_bytes obj) s e) (\<lambda>part. build hv 206
        ([(''content-type'', do_content_type obj), (''content-length'', dec_string (length part)), (''accept-ranges'', ''bytes''),
          (''content-range'', content_range s e (length (do_bytes obj)))] @ kind_headers obj @ cache_headers obj) (Octets part)))"

definition unsatisfiable_response :: "(string \<Rightarrow> bool) \<Rightarrow> nat \<Rightarrow> ('e, http_response) res" where
  "unsatisfiable_response hv n = build hv 416
     [(''content-type'', ''text/plain''), (''accept-ranges'', ''bytes''), (''content-range'', ''bytes */'' @ dec_string n)]
     (Words ''range not satisfiable'')"

definition serve_with_range :: "(string \<Rightarrow> bool) \<Rightarrow> string option \<Rightarrow> decoded_object \<Rightarrow> ('e, http_response) res" where
  "serve_with_range hv rg obj =
     (case (case rg of Some h \<Rightarrow> parse_range h (word_of_nat (length (do_bytes obj))) | None \<Rightarrow> NoRange) of
        ByteRange r \<Rightarrow> partial_response hv obj r
      | Unsatisfiable \<Rightarrow> unsatisfiable_response hv (length (do_bytes obj))
      | _ \<Rightarrow> decoded_to_response hv obj)"

section \<open>JSON\<close>

definition json_char :: "char \<Rightarrow> string" where
  "json_char c =
     (if c = CHR 0x5C then [CHR 0x5C, CHR 0x5C]
      else if c = quote then [CHR 0x5C, quote]
      else if c = CHR 0x0A then CHR 0x5C # ''n''
      else if c = CHR 0x0D then CHR 0x5C # ''r''
      else if c = CHR 0x09 then CHR 0x5C # ''t''
      else if (of_char c :: nat) < 32 then CHR 0x5C # ''u00'' @ hex [word_of_nat (of_char c)]
      else [c])"

definition json_escape :: "string \<Rightarrow> string" where
  "json_escape s = concat (map json_char s)"

definition jstr :: "string \<Rightarrow> string" where
  "jstr s = quote # json_escape s @ [quote]"

definition jlit :: "string \<Rightarrow> string" where
  "jlit s = quote # s @ [quote]"

fun jfields :: "(string \<times> string) list \<Rightarrow> string" where
  "jfields [] = []"
| "jfields [(k, v)] = jlit k @ CHR '':'' # v"
| "jfields ((k, v) # r) = jlit k @ CHR '':'' # v @ CHR '','' # jfields r"

definition jobject :: "nat \<Rightarrow> (string \<times> string) list \<Rightarrow> http_response" where
  "jobject status fs = \<lparr>hr_status = status, hr_headers = [(''content-type'', ''application/json'')],
     hr_body = Words (''{'' @ jfields fs @ ''}'' @ [CHR 0x0A])\<rparr>"

definition hex_id :: "u64 \<Rightarrow> string" where
  "hex_id oid = hex (u64_be oid)"

definition ingest_to_response :: "nat \<Rightarrow> ingest_result \<Rightarrow> http_response" where
  "ingest_to_response ms r = jobject 201 [(''name'', jstr (ir_name r)), (''object_id'', jlit (hex_id (ir_object_id r))),
     (''data_cid'', jlit (ir_data_cid r)), (''width'', dec_string (unat (ir_width r))), (''height'', dec_string (unat (ir_height r))),
     (''shards'', dec_string (unat (ir_total_shards r))), (''put_ms'', dec_string ms)]"

definition remove_to_response :: "string \<Rightarrow> u64 \<Rightarrow> http_response" where
  "remove_to_response name oid = jobject 200 [(''deleted'', jstr name), (''object_id'', jlit (hex_id oid))]"

definition mkdir_to_response :: "string \<Rightarrow> u64 \<Rightarrow> http_response" where
  "mkdir_to_response path oid = jobject 201 [(''created'', jstr path), (''object_id'', jlit (hex_id oid))]"

definition rmdir_to_response :: "string \<Rightarrow> u64 \<Rightarrow> http_response" where
  "rmdir_to_response path oid = jobject 200 [(''removed'', jstr path), (''object_id'', jlit (hex_id oid))]"

definition rename_to_response :: "string \<Rightarrow> string \<Rightarrow> nat \<Rightarrow> http_response" where
  "rename_to_response old new n = jobject 200 [(''from'', jstr old), (''to'', jstr new), (''moved'', dec_string n)]"

definition fingerprint_to_json :: "fingerprint_info \<Rightarrow> http_response" where
  "fingerprint_to_json i = jobject 200 [(''name'', jstr (fi_name i)), (''fingerprint'', jlit (fi_hex i)), (''kind'', jlit (kind_label (fi_kind i)))]"

section \<open>Forms and names\<close>

definition hex_val :: "char \<Rightarrow> nat option" where
  "hex_val c = (let v = of_char c :: nat in
     if 48 \<le> v \<and> v \<le> 57 then Some (v - 48)
     else if 97 \<le> v \<and> v \<le> 102 then Some (v - 87)
     else if 65 \<le> v \<and> v \<le> 70 then Some (v - 55)
     else None)"

text \<open>\<open>u8::from_str_radix(_, 16)\<close> on two characters; a leading plus sign is allowed.\<close>

definition radix16 :: "char \<Rightarrow> char \<Rightarrow> u8 option" where
  "radix16 a b = (case hex_val b of None \<Rightarrow> None | Some y \<Rightarrow>
     if a = CHR ''+'' then Some (word_of_nat y)
     else (case hex_val a of None \<Rightarrow> None | Some x \<Rightarrow> Some (word_of_nat (x * 16 + y))))"

text \<open>\<open>push(byte as char)\<close>: the byte as a code point, in UTF-8.\<close>

definition latin1 :: "u8 \<Rightarrow> string" where
  "latin1 b = (if unat b < 128 then [char_of (unat b)] else [char_of (0xC0 + unat b div 64), char_of (0x80 + unat b mod 64)])"

fun url_decode_simple :: "string \<Rightarrow> string" where
  "url_decode_simple [] = []"
| "url_decode_simple (c # r) =
     (if c = CHR ''+'' then CHR '' '' # url_decode_simple r
      else if c = CHR ''%'' then
        (case r of
           a # b # r' \<Rightarrow> (case radix16 a b of Some byte \<Rightarrow> latin1 byte | None \<Rightarrow> [CHR ''%'']) @ url_decode_simple r'
         | _ \<Rightarrow> CHR ''%'' # url_decode_simple r)
      else latin1 (of_char c) @ url_decode_simple r)"

definition split_pair :: "string \<Rightarrow> string \<times> string" where
  "split_pair s = (case split_once (CHR ''='') s of Some (k, v) \<Rightarrow> (k, v) | None \<Rightarrow> (s, []))"

definition parse_urlencoded_field :: "string \<Rightarrow> string \<Rightarrow> string option" where
  "parse_urlencoded_field body field =
     map_option (\<lambda>(_, v). url_decode_simple v) (find (\<lambda>(k, _). k = field) (map split_pair (split_on (CHR ''&'') body)))"

text \<open>\<open>url_encode\<close> of \<open>holofs-web/src/lib.rs\<close>, which the pages use for links.\<close>

definition hex_upper :: "nat \<Rightarrow> char" where
  "hex_upper n = ''0123456789ABCDEF'' ! n"

definition url_safe :: "char \<Rightarrow> bool" where
  "url_safe c \<longleftrightarrow> CHR ''A'' \<le> c \<and> c \<le> CHR ''Z'' \<or> CHR ''a'' \<le> c \<and> c \<le> CHR ''z'' \<or> CHR ''0'' \<le> c \<and> c \<le> CHR ''9'' \<or> c \<in> set ''-_.~/''"

definition url_encode :: "string \<Rightarrow> string" where
  "url_encode s = concat (map (\<lambda>c. if url_safe c then [c]
     else [CHR ''%'', hex_upper (of_char c div 16), hex_upper (of_char c mod 16)]) s)"

definition RESERVED_TOP_SEGMENTS :: "string list" where
  "RESERVED_TOP_SEGMENTS = [''health'', ''escrow'', ''preview'', ''inspect'', ''similar'', ''diff'', ''admin'', ''api'',
     ''metrics'', ''pkg'', ''help'', ''inspect-zoom'', ''assets'']"

definition top_segment :: "string \<Rightarrow> string" where
  "top_segment path = (case split_slash path of s # _ \<Rightarrow> s | [] \<Rightarrow> [])"

definition is_reserved_name :: "string \<Rightarrow> bool" where
  "is_reserved_name name \<longleftrightarrow> name = [] \<or> top_segment name \<in> set RESERVED_TOP_SEGMENTS"

definition is_valid_put_name :: "string \<Rightarrow> bool" where
  "is_valid_put_name name \<longleftrightarrow> name \<noteq> [] \<and> top_segment name \<notin> set RESERVED_TOP_SEGMENTS"

definition html_escape :: "string \<Rightarrow> string" where
  "html_escape s = concat (map (\<lambda>c.
     if c = CHR ''<'' then ''&lt;'' else if c = CHR ''>'' then ''&gt;'' else if c = CHR ''&'' then ''&amp;''
     else if c = quote then ''&quot;'' else if c = CHR 0x27 then ''&#39;'' else [c]) s)"

section \<open>Handlers\<close>

type_synonym 'w handler = "(gateway \<times> 'w, unit, http_response) act"

definition answer :: "('a \<Rightarrow> (unit, http_response) res) \<Rightarrow> ('w, 'a) gw \<Rightarrow> 'w handler" where
  "answer f m = abind (acatch m) (\<lambda>r. alift (case r of Inr x \<Rightarrow> f x | Inl e \<Rightarrow> Inr (error_to_response e)))"

definition http_get :: "(string \<Rightarrow> bool) \<Rightarrow> 'w env \<Rightarrow> string \<Rightarrow> string option \<Rightarrow> 'w handler" where
  "http_get hv env name rg =
     (if is_reserved_name name then aret not_found
      else answer (serve_with_range hv rg) (decode_object env name None))"

definition http_preview :: "(string \<Rightarrow> bool) \<Rightarrow> 'w env \<Rightarrow> string \<Rightarrow> string option \<Rightarrow> 'w handler" where
  "http_preview hv env name rg =
     (if is_reserved_name name then aret not_found
      else answer (serve_with_range hv rg) (decode_object env name (Some 0)))"

definition http_put :: "'w env \<Rightarrow> nat \<Rightarrow> string \<Rightarrow> bytes \<Rightarrow> 'w handler" where
  "http_put env ms name body =
     (if \<not> is_valid_put_name name then aret (bad_request_reply ''name must be a single segment, not health-*'')
      else answer (\<lambda>r. Inr (ingest_to_response ms r)) (ingest_bytes env name body))"

definition http_delete :: "'w env \<Rightarrow> string \<Rightarrow> 'w handler" where
  "http_delete env name =
     (if is_reserved_name name then aret not_found
      else answer (\<lambda>oid. Inr (remove_to_response name oid)) (remove_object env name))"

definition http_mkdir :: "'w env \<Rightarrow> string \<Rightarrow> 'w handler" where
  "http_mkdir env path =
     (if \<not> is_valid_put_name path then aret (bad_request_reply ''reserved or empty top segment'')
      else answer (\<lambda>oid. Inr (mkdir_to_response path oid)) (gw_mkdir env path))"

definition http_rmdir :: "'w env \<Rightarrow> string \<Rightarrow> 'w handler" where
  "http_rmdir env path =
     (if \<not> is_valid_put_name path then aret (bad_request_reply ''reserved or empty top segment'')
      else answer (\<lambda>oid. Inr (rmdir_to_response path oid)) (gw_rmdir env path))"

definition redirect :: "(string \<Rightarrow> bool) \<Rightarrow> string \<Rightarrow> (unit, http_response) res" where
  "redirect hv target = build hv 303 [(''location'', target)] (Octets [])"

definition redirect_to_catalog :: "(string \<Rightarrow> bool) \<Rightarrow> string \<Rightarrow> (unit, http_response) res" where
  "redirect_to_catalog hv pfx = redirect hv (if pfx = [] then ''/'' else ''/?p='' @ pfx)"

text \<open>A form body must be UTF-8.\<close>

definition with_form :: "bytes \<Rightarrow> (string \<Rightarrow> 'w handler) \<Rightarrow> 'w handler" where
  "with_form body f = (case from_utf8 body of Inr s \<Rightarrow> f s | Inl _ \<Rightarrow> aret (bad_request_reply ''non-utf8 body''))"

definition with_field :: "string \<Rightarrow> string \<Rightarrow> string \<Rightarrow> (string \<Rightarrow> 'w handler) \<Rightarrow> 'w handler" where
  "with_field body field missing f = (case parse_urlencoded_field body field of
     Some v \<Rightarrow> f v | None \<Rightarrow> aret (bad_request_reply missing))"

definition http_mkdir_form :: "(string \<Rightarrow> bool) \<Rightarrow> 'w env \<Rightarrow> bytes \<Rightarrow> 'w handler" where
  "http_mkdir_form hv env body = with_form body (\<lambda>s.
     let parent = (case parse_urlencoded_field s ''parent'' of Some p \<Rightarrow> p | None \<Rightarrow> []) in
     with_field s ''name'' (''missing '' @ single ''name'') (\<lambda>name.
     let path = (if parent = [] then name else parent @ slash # name) in
     if \<not> is_valid_put_name path then aret (bad_request_reply ''reserved or empty top segment'')
     else answer (\<lambda>_. redirect_to_catalog hv parent) (gw_mkdir env path)))"

definition http_rmdir_form :: "(string \<Rightarrow> bool) \<Rightarrow> 'w env \<Rightarrow> bytes \<Rightarrow> 'w handler" where
  "http_rmdir_form hv env body = with_form body (\<lambda>s.
     with_field s ''path'' (''missing '' @ single ''path'') (\<lambda>path.
     if \<not> is_valid_put_name path then aret (bad_request_reply ''reserved or empty top segment'')
     else answer (\<lambda>_. redirect_to_catalog hv (case parent path of Some p \<Rightarrow> p | None \<Rightarrow> [])) (gw_rmdir env path)))"

definition http_mv :: "'w env \<Rightarrow> bytes \<Rightarrow> 'w handler" where
  "http_mv env body = with_form body (\<lambda>s.
     with_field s ''from'' (''missing '' @ single ''from'') (\<lambda>old.
     with_field s ''to'' (''missing '' @ single ''to'') (\<lambda>new.
     if \<not> is_valid_put_name old \<or> \<not> is_valid_put_name new then aret (bad_request_reply ''reserved or empty top segment'')
     else answer (\<lambda>n. Inr (rename_to_response old new n)) (gw_rename env old new))))"

definition toggle_node :: "(string \<Rightarrow> bool) \<Rightarrow> bytes \<Rightarrow> 'w handler" where
  "toggle_node hv body = with_form body (\<lambda>s.
     case (case parse_urlencoded_field s ''i'' of Some v \<Rightarrow> parse_below (2 ^ 64) v | None \<Rightarrow> None) of
       None \<Rightarrow> aret (bad_request_reply ''missing or bad field i'')
     | Some idx \<Rightarrow> answer (\<lambda>_. redirect hv ''/health'') (toggle_admin_kill idx))"

definition api_fingerprint :: "'w env \<Rightarrow> string \<Rightarrow> 'w handler" where
  "api_fingerprint env name = answer (\<lambda>i. Inr (fingerprint_to_json i)) (fingerprint_of env name)"

section \<open>Header values\<close>

text \<open>Values that the \<open>http\<close> crate documents as accepted, and the control characters it documents as refused.\<close>

definition visible :: "string \<Rightarrow> bool" where
  "visible s \<longleftrightarrow> list_all (\<lambda>c. 0x20 \<le> (of_char c :: nat) \<and> (of_char c :: nat) < 0x7F) s"

definition control_char :: "char \<Rightarrow> bool" where
  "control_char c \<longleftrightarrow> (of_char c :: nat) < 0x20 \<and> c \<noteq> CHR 0x09"

lemma visible_append [simp]: "visible (s @ t) \<longleftrightarrow> visible s \<and> visible t"
  by (simp add: visible_def)

lemma visible_Cons [simp]: "visible (c # s) \<longleftrightarrow> (0x20 \<le> (of_char c :: nat) \<and> (of_char c :: nat) < 0x7F) \<and> visible s"
  by (simp add: visible_def)

lemma visible_Nil [simp]: "visible []"
  by (simp add: visible_def)

lemma visible_filter [simp]: "visible s \<Longrightarrow> visible (filter P s)"
  by (auto simp: visible_def list_all_iff)

lemma visible_digit: "d < 10 \<Longrightarrow> visible [''0123456789'' ! d]"
proof -
  have "\<forall>d \<in> set [0..<10]. visible [''0123456789'' ! d]" by (simp add: upt_rec)
  moreover assume "d < 10"
  ultimately show ?thesis by simp
qed

lemma visible_dec [simp]: "visible (dec_string n)"
proof (induction n rule: dec_string.induct)
  case (1 n)
  then show ?case using visible_digit[of n] visible_digit[of "n mod 10"] by (subst dec_string.simps) simp
qed

lemma visible_kind [simp]: "visible (kind_label k)"
  by (simp add: kind_label_def split: object_kind.split)

lemma build_ok: "\<forall>v. visible v \<longrightarrow> hv v \<Longrightarrow> list_all (\<lambda>(_, v). visible v) headers \<Longrightarrow>
    build hv status headers body = Inr \<lparr>hr_status = status, hr_headers = headers, hr_body = body\<rparr>"
  by (auto simp: build_def rassert_def list_all_iff)

lemma kind_headers_visible: "list_all (\<lambda>(_, v). visible v) (kind_headers obj)"
  by (simp add: kind_headers_def optional_def split: option.split)

lemma cache_headers_visible: "pred_option visible (do_filename obj) \<Longrightarrow> list_all (\<lambda>(_, v). visible v) (cache_headers obj)"
  by (auto simp: cache_headers_def optional_def quote_def split: option.split)

lemma responses_ok:
  assumes "\<forall>v. visible v \<longrightarrow> hv v" and "visible (do_content_type obj)" and "pred_option visible (do_filename obj)"
  shows "\<exists>hs. decoded_to_response hv obj = Inr \<lparr>hr_status = 200, hr_headers = hs, hr_body = Octets (do_bytes obj)\<rparr>"
    and "unat (br_start r) \<le> unat (br_end r) \<and> unat (br_end r) < length (do_bytes obj) \<Longrightarrow>
      \<exists>hs. partial_response hv obj r = Inr \<lparr>hr_status = 206, hr_headers = hs,
          hr_body = Octets (slice (do_bytes obj) (unat (br_start r)) (unat (br_end r) + 1))\<rparr> \<and>
        (''content-range'', content_range (unat (br_start r)) (unat (br_end r)) (length (do_bytes obj))) \<in> set hs"
    and "\<exists>hs. unsatisfiable_response hv n = Inr \<lparr>hr_status = 416, hr_headers = hs, hr_body = Words ''range not satisfiable''\<rparr> \<and>
        (''content-range'', ''bytes */'' @ dec_string n) \<in> set hs"
proof -
  note b = build_ok[OF assms(1)] and hk = kind_headers_visible[of obj] cache_headers_visible[OF assms(3)]
  show "\<exists>hs. decoded_to_response hv obj = Inr \<lparr>hr_status = 200, hr_headers = hs, hr_body = Octets (do_bytes obj)\<rparr>"
    unfolding decoded_to_response_def
    by (subst b) (use hk assms(2) in \<open>auto simp: optional_def split: option.split\<close>)
  show "\<exists>hs. partial_response hv obj r = Inr \<lparr>hr_status = 206, hr_headers = hs,
          hr_body = Octets (slice (do_bytes obj) (unat (br_start r)) (unat (br_end r) + 1))\<rparr> \<and>
        (''content-range'', content_range (unat (br_start r)) (unat (br_end r)) (length (do_bytes obj))) \<in> set hs"
    if r: "unat (br_start r) \<le> unat (br_end r) \<and> unat (br_end r) < length (do_bytes obj)"
  proof -
    have s: "slice_incl (do_bytes obj) (unat (br_start r)) (unat (br_end r)) =
        Inr (slice (do_bytes obj) (unat (br_start r)) (unat (br_end r) + 1))" using r by (simp add: slice_incl_def)
    show ?thesis unfolding partial_response_def Let_def s rbind_def sum.case
      by (subst b) (use hk assms(2) in \<open>auto simp: content_range_def\<close>)
  qed
  show "\<exists>hs. unsatisfiable_response hv n = Inr \<lparr>hr_status = 416, hr_headers = hs, hr_body = Words ''range not satisfiable''\<rparr> \<and>
        (''content-range'', ''bytes */'' @ dec_string n) \<in> set hs"
    unfolding unsatisfiable_response_def by (subst b) auto
qed

section \<open>Content types\<close>

lemma guessed_type_visible [simp]: "visible (guess_opaque_content_type name)"
proof -
  have "list_all visible (map snd opaque_types)" "visible ''application/octet-stream''"
    by (simp_all add: opaque_types_def)
  then show ?thesis by (auto simp: guess_opaque_content_type_def list_all_iff split: option.split dest!: map_of_SomeD)
qed

section \<open>Ranges\<close>

lemma served_cases:
  assumes "\<forall>v. visible v \<longrightarrow> hv v" and "visible (do_content_type obj)" and "pred_option visible (do_filename obj)"
    and "length (do_bytes obj) = n" and "n < 2 ^ 64"
  obtains (full) hs where "(serve_with_range hv rg obj :: ('e, http_response) res) = Inr \<lparr>hr_status = 200, hr_headers = hs, hr_body = Octets (do_bytes obj)\<rparr>"
    and "\<nexists>h r. rg = Some h \<and> parse_range h (word_of_nat n) \<in> {ByteRange r, Unsatisfiable}"
  | (part) h r hs where "rg = Some h" and "parse_range h (word_of_nat n) = ByteRange r"
    and "unat (br_start r) \<le> unat (br_end r)" and "unat (br_end r) < n"
    and "(serve_with_range hv rg obj :: ('e, http_response) res) = Inr \<lparr>hr_status = 206, hr_headers = hs,
      hr_body = Octets (slice (do_bytes obj) (unat (br_start r)) (unat (br_end r) + 1))\<rparr>"
    and "(''content-range'', content_range (unat (br_start r)) (unat (br_end r)) n) \<in> set hs"
  | (none) h hs where "rg = Some h" and "parse_range h (word_of_nat n) = Unsatisfiable"
    and "(serve_with_range hv rg obj :: ('e, http_response) res) = Inr \<lparr>hr_status = 416, hr_headers = hs, hr_body = Words ''range not satisfiable''\<rparr>"
    and "(''content-range'', ''bytes */'' @ dec_string n) \<in> set hs"
proof -
  note ok = responses_ok[OF assms(1-3)]
  let ?o = "case rg of Some h \<Rightarrow> parse_range h (word_of_nat n) | None \<Rightarrow> NoRange"
  have run: "(serve_with_range hv rg obj :: ('e, http_response) res) = (case ?o of ByteRange r \<Rightarrow> partial_response hv obj r
      | Unsatisfiable \<Rightarrow> unsatisfiable_response hv n | _ \<Rightarrow> decoded_to_response hv obj)"
    unfolding serve_with_range_def assms(4) ..
  show thesis
  proof (cases ?o)
    case (ByteRange r)
    then obtain h where h: "rg = Some h" "parse_range h (word_of_nat n) = ByteRange r" by (auto split: option.splits)
    from parse_range_bounds[OF this(2)] assms(5) have b: "unat (br_start r) \<le> unat (br_end r)" "unat (br_end r) < n"
      by (simp_all add: word_le_nat_alt word_less_nat_alt unat_of_nat)
    with ok(2)[of r] assms(4) obtain hs where hs: "(partial_response hv obj r :: ('e, http_response) res) = Inr \<lparr>hr_status = 206, hr_headers = hs,
        hr_body = Octets (slice (do_bytes obj) (unat (br_start r)) (unat (br_end r) + 1))\<rparr>"
      "(''content-range'', content_range (unat (br_start r)) (unat (br_end r)) n) \<in> set hs" by auto
    have "(serve_with_range hv rg obj :: ('e, http_response) res) = Inr \<lparr>hr_status = 206, hr_headers = hs,
        hr_body = Octets (slice (do_bytes obj) (unat (br_start r)) (unat (br_end r) + 1))\<rparr>" unfolding run ByteRange using hs(1) by simp
    from part[OF h b this hs(2)] show thesis .
  next
    case Unsatisfiable
    then obtain h where h: "rg = Some h" "parse_range h (word_of_nat n) = Unsatisfiable" by (auto split: option.splits)
    from ok(3)[of n] obtain hs where hs: "(unsatisfiable_response hv n :: ('e, http_response) res) = Inr \<lparr>hr_status = 416, hr_headers = hs, hr_body = Words ''range not satisfiable''\<rparr>"
      "(''content-range'', ''bytes */'' @ dec_string n) \<in> set hs" by blast
    have "(serve_with_range hv rg obj :: ('e, http_response) res) = Inr \<lparr>hr_status = 416, hr_headers = hs, hr_body = Words ''range not satisfiable''\<rparr>"
      unfolding run Unsatisfiable using hs(1) by simp
    from none[OF h this hs(2)] show thesis .
  qed (use ok(1) run in \<open>force intro: full split: option.splits\<close>)+
qed

lemma unat_word_of_nat: "n < 2 ^ 64 \<Longrightarrow> unat (word_of_nat n :: u64) = n"
  by (simp add: unat_of_nat)

text \<open>The response is the slice from \<open>s\<close> to \<open>e\<close> inclusive, announced as such.\<close>

definition sends_part :: "decoded_object \<Rightarrow> nat \<Rightarrow> nat \<Rightarrow> http_response \<Rightarrow> bool" where
  "sends_part obj s e r \<longleftrightarrow> hr_status r = 206 \<and> hr_body r = Octets (slice (do_bytes obj) s (e + 1)) \<and> s \<le> e \<and> e < length (do_bytes obj) \<and>
     (''content-range'', content_range s e (length (do_bytes obj))) \<in> set (hr_headers r)"

lemma served_pick:
  assumes "\<forall>v. visible v \<longrightarrow> hv v" and "visible (do_content_type obj)" and "pred_option visible (do_filename obj)"
    and "length (do_bytes obj) = n" and "n < 2 ^ 64"
    and "parse_range h (word_of_nat n) = (if c then Unsatisfiable else ByteRange \<lparr>br_start = word_of_nat s, br_end = word_of_nat e\<rparr>)"
    and "s < 2 ^ 64" and "e < 2 ^ 64"
  shows "\<exists>r. (serve_with_range hv (Some h) obj :: ('e, _) res) = Inr r \<and> (if c then hr_status r = 416 else sends_part obj s e r)"
  by (rule served_cases[OF assms(1-5), of "Some h"]) (use assms(4,6-8) in \<open>auto simp: sends_part_def unat_word_of_nat split: if_splits\<close>)

text \<open>C33: partial reads. Whatever the \<open>Range\<close> header, an object whose type and name are visible ASCII is answered, without a panic, with
  its whole body and status 200, with a nonempty slice of it, inside its bounds and announced in \<open>Content-Range\<close>, and status 206,
  or with status 416 and its length; without a header it is the whole body. The headers \<open>bytes=a-b\<close>, \<open>bytes=a-\<close> and
  \<open>bytes=-b\<close> with numbers below \<open>2 ^ 64\<close> select exactly the bytes that RFC 9110 says, clamped to the body.\<close>

theorem range_served:
  assumes "\<forall>v. visible v \<longrightarrow> hv v" and "visible (do_content_type obj)" and "pred_option visible (do_filename obj)"
    and "length (do_bytes obj) = n" and "0 < n" and "n < 2 ^ 64" and "a < 2 ^ 64" and "b < 2 ^ 64"
  shows "(\<exists>r. (serve_with_range hv rg obj :: ('e, _) res) = Inr r \<and>
      (hr_status r = 200 \<and> hr_body r = Octets (do_bytes obj) \<or> (\<exists>s e. sends_part obj s e r) \<or>
       hr_status r = 416 \<and> (''content-range'', ''bytes */'' @ dec_string n) \<in> set (hr_headers r))) \<and>
    (\<exists>r. (serve_with_range hv None obj :: ('e, _) res) = Inr r \<and> hr_status r = 200 \<and> hr_body r = Octets (do_bytes obj)) \<and>
    (\<exists>r. (serve_with_range hv (Some (''bytes='' @ dec_string a @ ''-'' @ dec_string b)) obj :: ('e, _) res) = Inr r \<and>
      (if n \<le> a \<or> b < a then hr_status r = 416 else sends_part obj a (min b (n - 1)) r)) \<and>
    (\<exists>r. (serve_with_range hv (Some (''bytes='' @ dec_string a @ ''-'')) obj :: ('e, _) res) = Inr r \<and>
      (if n \<le> a then hr_status r = 416 else sends_part obj a (n - 1) r)) \<and>
    (\<exists>r. (serve_with_range hv (Some (''bytes=-'' @ dec_string b)) obj :: ('e, _) res) = Inr r \<and>
      (if b = 0 then hr_status r = 416 else sends_part obj (n - b) (n - 1) r))"
proof -
  note served = served_cases[OF assms(1-4,6)] and pick = served_pick[OF assms(1-4,6)]
  note forms = parse_forms[OF assms(7,8) unat_word_of_nat[OF assms(6)] assms(5)]
  have any: "\<exists>r. (serve_with_range hv rg obj :: ('e, _) res) = Inr r \<and>
      (hr_status r = 200 \<and> hr_body r = Octets (do_bytes obj) \<or> (\<exists>s e. sends_part obj s e r) \<or>
       hr_status r = 416 \<and> (''content-range'', ''bytes */'' @ dec_string n) \<in> set (hr_headers r))"
    by (rule served[of rg]) (use assms(4) in \<open>fastforce simp: sends_part_def\<close>)+
  have none: "\<exists>r. (serve_with_range hv None obj :: ('e, _) res) = Inr r \<and> hr_status r = 200 \<and> hr_body r = Octets (do_bytes obj)"
    by (rule served[of None]) auto
  have "n - 1 < 2 ^ 64" "n - b < 2 ^ 64" "min b (n - 1) < 2 ^ 64" using assms(6) by simp_all
  then show ?thesis by (intro conjI any none pick[OF forms(1)] pick[OF forms(2)] pick[OF forms(3)] assms(7))
qed

definition demo_object :: decoded_object where
  "demo_object = opaque_reply ''f'' [1, 2, 3]"

theorem range_served_witness:
  "\<exists>r. (serve_with_range visible (Some (''bytes='' @ dec_string 1 @ ''-'' @ dec_string 9)) demo_object :: (unit, _) res) = Inr r \<and>
    hr_status r = 206 \<and> hr_body r = Octets [2, 3]"
  using range_served[of visible demo_object 3 1 9 None]
  by (auto simp: demo_object_def opaque_reply_def slice_def sends_part_def)

section \<open>Storing and reading over HTTP\<close>

lemma reserved_put: "is_reserved_name name \<longleftrightarrow> \<not> is_valid_put_name name"
  by (auto simp: is_reserved_name_def is_valid_put_name_def)

lemma answer_run: "m s = (Inr x, s') \<Longrightarrow> answer f m s = (f x, s')"
  by (simp add: answer_def abind_def acatch_def)

text \<open>A stored body over HTTP: the \<open>PUT\<close> is confirmed, and a \<open>GET\<close> answers from the reply the gateway decodes.\<close>

lemma put_get_run:
  assumes "healthy (g, w)" and "opaque_body env body" and "ev_call env = cluster_call sign"
    and "ingest_check name body (gw_catalog g) = (Inr () :: (gateway_error, unit) res)" and "is_valid_put_name name"
  obtains r s' where "http_put env ms name body (g, w) = (Inr r, s')" and "hr_status r = 201" and "healthy s'"
    and "(\<forall>rg. http_get hv env name rg s' = (serve_with_range hv rg (opaque_reply name body), s')) \<or>
      collides w (set (body_shards (gw_cluster g) name body))"
proof -
  from stored_decodes[OF assms(1-4)] obtain res s' where st: "ingest_bytes env name body (g, w) = (Inr res, s')" "healthy s'"
    "decode_object env name None s' = (Inr (opaque_reply name body), s') \<or> collides w (set (body_shards (gw_cluster g) name body))"
    by blast
  have "http_put env ms name body (g, w) = (Inr (ingest_to_response ms res), s')"
    using assms(5) by (simp add: http_put_def answer_run[where m = "ingest_bytes env name body", OF st(1)])
  moreover have "hr_status (ingest_to_response ms res) = 201" by (simp add: ingest_to_response_def jobject_def)
  moreover have "http_get hv env name rg s' = (serve_with_range hv rg (opaque_reply name body), s')"
    if "decode_object env name None s' = (Inr (opaque_reply name body), s')" for rg
    using assms(5) by (simp add: http_get_def reserved_put answer_run[where m = "decode_object env name None", OF that])
  ultimately show thesis using st(2,3) that by blast
qed

lemma opaque_reply_fields: "do_bytes (opaque_reply name body) = body" "do_filename (opaque_reply name body) = Some name"
  "do_content_type (opaque_reply name body) = guess_opaque_content_type name"
  by (simp_all add: opaque_reply_def)



section \<open>Instances\<close>

lemma one_file: "ingest_check ''f'' [0xFF] [] = (Inr () :: (gateway_error, unit) res)" "ingest_check [CHR 0x01] [0xFF] [] = (Inr () :: (gateway_error, unit) res)"
  by (simp_all add: ingest_check_Inr valid_path_def good_segment_def MAX_SEGMENT_def plain_def parent_None is_dir_def cat_get_def om_get_def)

lemma one_gateway: "gw_catalog (gateway_new [] [0] demo_cluster) = []" "gw_cluster (gateway_new [] [0] demo_cluster) = demo_cluster"
  "ev_call one_env = cluster_call id"
  by (simp_all add: gateway_new_def one_env_def)



end
