(* ===== verification/Forms.thy ===== *)
theory Forms
  imports Http
begin

text \<open>
  The multipart and escrow handlers of \<open>holofs-web/src/handlers.rs\<close>: uploads, escrow splits, downloads and recovery,
  and the picture of a shard, with the text functions of the standard library that they use on form fields. A form
  is the list of its fields as the multipart reader of the \<open>axum\<close> crate delivers them.
\<close>

section \<open>Text of form fields\<close>

text \<open>\<open>str::trim\<close>: the characters with the Unicode property \<open>White_Space\<close>, by their UTF-8 forms.\<close>

definition white_forms :: "bytes list" where
  "white_forms = [[0x09], [0x0A], [0x0B], [0x0C], [0x0D], [0x20], [0xC2, 0x85], [0xC2, 0xA0], [0xE1, 0x9A, 0x80],
     [0xE2, 0x80, 0x80], [0xE2, 0x80, 0x81], [0xE2, 0x80, 0x82], [0xE2, 0x80, 0x83], [0xE2, 0x80, 0x84], [0xE2, 0x80, 0x85],
     [0xE2, 0x80, 0x86], [0xE2, 0x80, 0x87], [0xE2, 0x80, 0x88], [0xE2, 0x80, 0x89], [0xE2, 0x80, 0x8A], [0xE2, 0x80, 0xA8],
     [0xE2, 0x80, 0xA9], [0xE2, 0x80, 0xAF], [0xE2, 0x81, 0x9F], [0xE3, 0x80, 0x80]]"

definition white_prefix :: "string list \<Rightarrow> string \<Rightarrow> string option" where
  "white_prefix forms s = find (\<lambda>w. w \<noteq> [] \<and> starts_with w s) forms"

lemma white_prefix_shorter: "white_prefix forms s = Some w \<Longrightarrow> length (drop (length w) s) < length s"
proof -
  assume "white_prefix forms s = Some w"
  then have w: "w \<noteq> []" "take (length w) s = w" by (auto simp: white_prefix_def find_Some_iff starts_with_def)
  from w(1) have "0 < length w" by simp
  moreover from w(2) have "length w \<le> length s" by (metis length_take min.cobounded1)
  ultimately show ?thesis by (simp only: length_drop)
qed

function skip_white :: "string list \<Rightarrow> string \<Rightarrow> string" where
  "skip_white forms s = (case white_prefix forms s of None \<Rightarrow> s | Some w \<Rightarrow> skip_white forms (drop (length w) s))"
  by pat_completeness auto
termination
  by (relation "measure (\<lambda>(_, s). length s)") (use white_prefix_shorter in \<open>simp_all\<close>)

declare skip_white.simps [simp del]

definition trim_unicode :: "string \<Rightarrow> string" where
  "trim_unicode s =
     (let forms = map of_bytes white_forms in rev (skip_white (map rev forms) (rev (skip_white forms s))))"

definition parse_form_usize :: "bytes \<Rightarrow> nat option" where
  "parse_form_usize bs = (case from_utf8 bs of Inr s \<Rightarrow> parse_below (2 ^ 64) (trim_unicode s) | Inl _ \<Rightarrow> None)"

text \<open>\<open>trim_end_matches\<close> and \<open>rsplit_once\<close>.\<close>

lemma ends_with_shorter: "p \<noteq> [] \<and> ends_with s p \<Longrightarrow> length (take (length s - length p) s) < length s"
  by (cases p) (auto simp: ends_with_def)

function trim_end :: "string \<Rightarrow> string \<Rightarrow> string" where
  "trim_end p s = (if p \<noteq> [] \<and> ends_with s p then trim_end p (take (length s - length p) s) else s)"
  by pat_completeness auto
termination
  by (relation "measure (\<lambda>(_, s). length s)") (use ends_with_shorter in \<open>simp_all\<close>)

declare trim_end.simps [simp del]

definition rsplit_at :: "char \<Rightarrow> string \<Rightarrow> (string \<times> string) option" where
  "rsplit_at c s = map_option (\<lambda>(b, a). (rev a, rev b)) (split_once c (rev s))"

section \<open>Multipart forms\<close>

text \<open>A field: its name, the file name when there is one, and its bytes or the text of a read error.\<close>

type_synonym form_field = "string \<times> string option \<times> (string + bytes)"

definition multipart_error :: "string \<Rightarrow> http_response" where
  "multipart_error e = bad_request_reply (''multipart read: '' @ e)"

fun each_field :: "(string \<Rightarrow> string option \<Rightarrow> bytes \<Rightarrow> 's \<Rightarrow> 's) \<Rightarrow> form_field list \<Rightarrow> 's \<Rightarrow> string + 's" where
  "each_field f [] st = Inr st"
| "each_field f ((_, _, Inl e) # r) st = Inl e"
| "each_field f ((name, fname, Inr bs) # r) st = each_field f r (f name fname bs st)"

definition with_fields :: "(string \<Rightarrow> string option \<Rightarrow> bytes \<Rightarrow> 's \<Rightarrow> 's) \<Rightarrow> form_field list \<Rightarrow> 's \<Rightarrow> ('s \<Rightarrow> 'w handler) \<Rightarrow> 'w handler" where
  "with_fields f form st k = (case each_field f form st of Inl e \<Rightarrow> aret (multipart_error e) | Inr s \<Rightarrow> k s)"

definition some_nonempty :: "string option \<Rightarrow> string option" where
  "some_nonempty s = (case s of Some t \<Rightarrow> if t = [] then None else Some t | None \<Rightarrow> None)"

record upload_fields =
  uf_parent :: string
  uf_name :: "string option"
  uf_bytes :: "bytes option"
  uf_original :: "string option"

definition upload_field :: "string \<Rightarrow> string option \<Rightarrow> bytes \<Rightarrow> upload_fields \<Rightarrow> upload_fields" where
  "upload_field name fname bs u =
     (if name = ''parent'' then u\<lparr>uf_parent := of_bytes (utf8_lossy bs)\<rparr>
      else if name = ''name'' then
        (let s = trim_unicode (of_bytes (utf8_lossy bs)) in if s = [] then u else u\<lparr>uf_name := Some s\<rparr>)
      else if name = ''file'' then u\<lparr>uf_bytes := Some bs, uf_original := some_nonempty fname\<rparr>
      else u)"

definition upload_path :: "upload_fields \<Rightarrow> string" where
  "upload_path u =
     (let leaf = (case uf_name u of Some s \<Rightarrow> s | None \<Rightarrow> (case uf_original u of Some s \<Rightarrow> s | None \<Rightarrow> ''uploaded.bin'')) in
      if uf_parent u = [] then leaf else uf_parent u @ slash # leaf)"

definition upload_form :: "(string \<Rightarrow> bool) \<Rightarrow> 'w env \<Rightarrow> form_field list \<Rightarrow> 'w handler" where
  "upload_form hv env form =
     with_fields upload_field form \<lparr>uf_parent = [], uf_name = None, uf_bytes = None, uf_original = None\<rparr> (\<lambda>u.
     case uf_bytes u of
       None \<Rightarrow> aret (bad_request_reply ''no file field'')
     | Some body \<Rightarrow>
         if body = [] then aret (bad_request_reply ''empty file'')
         else if \<not> is_valid_put_name (upload_path u) then aret (bad_request_reply ''reserved or empty top segment'')
         else answer (\<lambda>_. redirect_to_catalog hv (uf_parent u)) (ingest_bytes env (upload_path u) body))"

section \<open>Escrow and shards\<close>

record split_fields =
  spf_bytes :: "bytes option"
  spf_filename :: string
  spf_k :: nat
  spf_n :: nat

definition split_field :: "string \<Rightarrow> string option \<Rightarrow> bytes \<Rightarrow> split_fields \<Rightarrow> split_fields" where
  "split_field name fname bs u =
     (if name = ''file'' then
        u\<lparr>spf_bytes := Some bs, spf_filename := (case some_nonempty fname of Some s \<Rightarrow> s | None \<Rightarrow> spf_filename u)\<rparr>
      else if name = ''k'' then (case parse_form_usize bs of Some v \<Rightarrow> u\<lparr>spf_k := v\<rparr> | None \<Rightarrow> u)
      else if name = ''n'' then (case parse_form_usize bs of Some v \<Rightarrow> u\<lparr>spf_n := v\<rparr> | None \<Rightarrow> u)
      else u)"

definition attr :: "string \<Rightarrow> string \<Rightarrow> string" where
  "attr name v = name @ CHR ''='' # jlit v"

definition share_row :: "share_info_data \<Rightarrow> string" where
  "share_row s =
     ''<tr><td>'' @ dec_string (unat (shi_idx s)) @ ''</td><td '' @ attr ''class'' ''name'' @ ''><code>'' @ html_escape (shi_filename s) @
     ''</code></td><td>'' @ dec_string (shi_bytes s) @ '' B</td><td '' @ attr ''class'' ''name'' @ ''><a '' @
     attr ''href'' (''/escrow/download/'' @ shi_path s) @ '' '' @ attr ''download'' (html_escape (shi_filename s)) @ ''>'' @
     of_bytes [0xE2, 0x86, 0x93] @ '' download</a></td></tr>''"

definition middle_dot :: string where "middle_dot = of_bytes [0xC2, 0xB7]"

definition escrow_page :: "split_result \<Rightarrow> string" where
  "escrow_page r =
     ''<!DOCTYPE html><html '' @ attr ''lang'' ''en'' @ ''><head><meta '' @ attr ''charset'' ''utf-8'' @ ''/><link '' @
     attr ''rel'' ''stylesheet'' @ '' '' @ attr ''href'' ''/pkg/holofs.css'' @ ''/><title>escrow '' @ middle_dot @ '' holofs</title></head><body>'' @
     ''<header '' @ attr ''class'' ''topbar'' @ ''><h1>holofs</h1><nav><a '' @ attr ''href'' ''/'' @ ''>catalog</a><a '' @
     attr ''href'' ''/health'' @ ''>health</a><a '' @ attr ''href'' ''/escrow'' @ '' '' @ attr ''class'' ''active'' @ ''>escrow</a></nav></header>'' @
     ''<main '' @ attr ''class'' ''container'' @ ''><h2>file split into '' @ dec_string (sr_n r) @ '' shares '' @ middle_dot @ '' need '' @
     dec_string (sr_k r) @ '' to recover</h2><p>source: <code>'' @ html_escape (sr_filename r) @ ''</code> '' @ middle_dot @ '' '' @
     dec_string (sr_source_bytes r) @ '' B '' @ middle_dot @ '' escrow_id <code>'' @ take 16 (sr_escrow_id r) @ ''</code></p><p '' @
     attr ''class'' ''mut'' @ ''>Download each share immediately and distribute. Shares live in gateway memory and vanish on restart.</p>'' @
     ''<table><thead><tr><th>#</th><th '' @ attr ''class'' ''name'' @ ''>file</th><th>size</th><th></th></tr></thead><tbody>'' @
     concat (map share_row (sr_shares r)) @ ''</tbody></table><p><a '' @ attr ''href'' ''/escrow'' @ ''>'' @ of_bytes [0xE2, 0x86, 0x90] @
     '' back to escrow</a></p></main></body></html>'' @ [CHR 0x0A]"

definition escrow_split_html :: "split_result \<Rightarrow> http_response" where
  "escrow_split_html r = \<lparr>hr_status = 200, hr_headers = [(''content-type'', ''text/html; charset=utf-8'')], hr_body = Words (escrow_page r)\<rparr>"

definition http_escrow_split :: "form_field list \<Rightarrow> 'w handler" where
  "http_escrow_split form =
     with_fields split_field form \<lparr>spf_bytes = None, spf_filename = ''secret.bin'', spf_k = 3, spf_n = 5\<rparr> (\<lambda>u.
     case spf_bytes u of
       None \<Rightarrow> aret (bad_request_reply ''no file field'')
     | Some body \<Rightarrow> answer (\<lambda>r. Inr (escrow_split_html r)) (escrow_split body (spf_filename u) (spf_k u) (spf_n u)))"

definition disposition :: "string \<Rightarrow> string" where
  "disposition filename = ''attachment; filename='' @ jlit filename"

definition escrow_share_response :: "(string \<Rightarrow> bool) \<Rightarrow> share_bytes \<Rightarrow> ('e, http_response) res" where
  "escrow_share_response hv s = build hv 200
     [(''content-type'', ''application/octet-stream''), (''content-length'', dec_string (length (shb_bytes s))),
      (''content-disposition'', disposition (''share_'' @ pad2 (unat (shb_idx s)) @ ''_of_'' @ dec_string (unat (shb_total_n s)) @ ''.holoshare''))]
     (Octets (shb_bytes s))"

definition escrow_gone :: http_response where
  "escrow_gone = plain_reply 410 (Words (''escrow gone (gateway restarted '' @ of_bytes [0xE2, 0x80, 0x94] @ '' split the file again)''))"

definition http_escrow_download :: "(string \<Rightarrow> bool) \<Rightarrow> string \<Rightarrow> 'w handler" where
  "http_escrow_download hv path = (case rsplit_at (CHR ''_'') (trim_end ''.holoshare'' path) of
     None \<Rightarrow> aret (bad_request_reply ''bad escrow download path'')
   | Some (eid, idx) \<Rightarrow> (case parse_below (2 ^ 64) idx of
       None \<Rightarrow> aret (bad_request_reply ''bad share index'')
     | Some i \<Rightarrow> abind (acatch (escrow_download eid i)) (\<lambda>r. alift (case r of
         Inr share \<Rightarrow> escrow_share_response hv share
       | Inl GwNotFound \<Rightarrow> Inr escrow_gone
       | Inl e \<Rightarrow> Inr (error_to_response e)))))"

definition escrow_recover_response :: "(string \<Rightarrow> bool) \<Rightarrow> recover_result \<Rightarrow> ('e, http_response) res" where
  "escrow_recover_response hv r = build hv 200
     [(''content-type'', rr_content_type r), (''content-length'', dec_string (length (rr_data r))),
      (''content-disposition'', disposition (filter (\<lambda>c. c \<noteq> quote) (rr_filename r))),
      (''x-holofs-escrow-shares-used'', dec_string (rr_shares_used r))] (Octets (rr_data r))"

definition http_escrow_recover :: "(string \<Rightarrow> bool) \<Rightarrow> form_field list \<Rightarrow> 'w handler" where
  "http_escrow_recover hv form =
     with_fields (\<lambda>name _ bs blobs. if name = ''shares'' \<and> bs \<noteq> [] then blobs @ [bs] else blobs) form [] (\<lambda>blobs.
       answer (escrow_recover_response hv) (alift (escrow_recover blobs)))"

text \<open>\<open>render_shard_as_png\<close>: the side is the rounded-up square root, which \<open>f64\<close> gives exactly below \<open>2 ^ 52\<close>;
  \<open>png\<close> is the encoder of the \<open>png\<close> crate, on the side and the RGB bytes.\<close>

function side_from :: "nat \<Rightarrow> nat \<Rightarrow> nat" where
  "side_from s n = (if n \<le> s * s then s else side_from (s + 1) n)"
  by pat_completeness auto
termination
proof (relation "measure (\<lambda>(s, n). n - s)")
  fix s n :: nat
  assume "\<not> n \<le> s * s"
  moreover have "s \<le> s * s" by (cases s) simp_all
  ultimately have "s < n" by linarith
  then show "((s + 1, n), (s, n)) \<in> measure (\<lambda>(s, n). n - s)" by simp
qed simp

declare side_from.simps [simp del]

definition render_shard_as_png :: "(nat \<Rightarrow> bytes \<Rightarrow> bytes) \<Rightarrow> bytes \<Rightarrow> bytes" where
  "render_shard_as_png png bs =
     (let side = max (side_from 0 (length bs)) 1;
          padded = bs @ replicate (side * side - length bs) 0
      in png side (concat (map (\<lambda>g. [g, g, g]) padded)))"

definition get_shard_png :: "(string \<Rightarrow> bool) \<Rightarrow> (nat \<Rightarrow> bytes \<Rightarrow> bytes) \<Rightarrow> 'w env \<Rightarrow> string \<Rightarrow> string \<Rightarrow> 'w handler" where
  "get_shard_png hv png env c_l_idx name = (case split_on (CHR ''_'') (trim_end ''.png'' c_l_idx) of
     [c, l, i] \<Rightarrow> (case parse_below (2 ^ 8) c of
         None \<Rightarrow> aret (bad_request_reply ''bad channel'')
       | Some c \<Rightarrow> (case parse_below (2 ^ 8) l of
           None \<Rightarrow> aret (bad_request_reply ''bad layer'')
         | Some l \<Rightarrow> (case parse_below (2 ^ 32) i of
             None \<Rightarrow> aret (bad_request_reply ''bad idx'')
           | Some i \<Rightarrow> answer (\<lambda>r. case r of
                 None \<Rightarrow> Inr not_found
               | Some sp \<Rightarrow> let out = render_shard_as_png png (sp_payload sp) in
                   build hv 200 [(''content-type'', ''image/png''), (''content-length'', dec_string (length out)),
                     (''cache-control'', ''public, max-age=3600'')] (Octets out))
               (shard_payload env name (word_of_nat c) (word_of_nat l) (word_of_nat i)))))
   | _ \<Rightarrow> aret (bad_request_reply ''bad c_l_idx''))"

section \<open>Fields and links\<close>

text \<open>An upload form with a directory, a name and a file stores the file under their path, as a \<open>PUT\<close> of that path does.\<close>

lemma upload_is_ingest:
  assumes "str_ok dir" and "trim_unicode name = name" and "str_ok name" and "name \<noteq> []" and "body \<noteq> []"
    and "path = (if dir = [] then name else dir @ slash # name)" and "is_valid_put_name path"
  shows "upload_form hv env [(''parent'', None, Inr (as_bytes dir)), (''name'', None, Inr (as_bytes name)), (''file'', f, Inr body)] =
    answer (\<lambda>_. redirect_to_catalog hv dir) (ingest_bytes env path body)"
  using assms by (auto simp: upload_form_def with_fields_def upload_field_def upload_path_def utf8_lossy_valid str_ok_def split: if_splits)

lemma dec_no_underscore: "CHR ''_'' \<notin> set (dec_string n) \<and> CHR ''e'' \<notin> set (dec_string n)"
proof (induction n rule: dec_string.induct)
  case (1 n)
  have digit: "''0123456789'' ! d \<notin> {CHR ''_'', CHR ''e''}" if "d < 10" for d
  proof -
    have "\<forall>d \<in> set [0..<10]. ''0123456789'' ! d \<notin> {CHR ''_'', CHR ''e''}" by (simp add: upt_rec)
    with that show ?thesis by simp
  qed
  from 1 digit[of n] digit[of "n mod 10"] show ?case by (cases "n < 10") (auto simp: dec_string.simps[of n])
qed

lemma share_path_parts: "rsplit_at (CHR ''_'') (trim_end ''.holoshare'' (eid @ ''_'' @ dec_string i @ ''.holoshare'')) = Some (eid, dec_string i)"
proof -
  let ?s = "eid @ ''_'' @ dec_string i"
  have e: "ends_with (?s @ ''.holoshare'') ''.holoshare''" by (simp add: ends_with_def)
  have "last (dec_string i) \<noteq> CHR ''e''" using dec_no_underscore[of i] last_in_set[OF dec_nonempty[of i]] by metis
  then have ne: "\<not> ends_with ?s ''.holoshare''"
  proof (rule contrapos_nn)
    assume "ends_with ?s ''.holoshare''"
    then obtain t where "?s = t @ ''.holoshare''" unfolding ends_with_def by (metis append_take_drop_id)
    then have "last ?s = CHR ''e''" by (metis last_appendR last.simps list.distinct(1))
    then show "last (dec_string i) = CHR ''e''" by simp
  qed
  then have stop: "trim_end ''.holoshare'' ?s = ?s" by (subst trim_end.simps) simp
  have "trim_end ''.holoshare'' (?s @ ''.holoshare'') = ?s"
    using e stop by (subst trim_end.simps) simp
  moreover have "split_once (CHR ''_'') (rev (dec_string i) @ CHR ''_'' # rev eid) = Some (rev (dec_string i), rev eid)"
    using dec_no_underscore[of i] by (simp add: split_once_def takeWhile_append dropWhile_append)
  ultimately show ?thesis by (simp add: rsplit_at_def)
qed

lemma split_links:
  assumes "escrow_split data filename k n (g, w) = (Inr res, s')" and "gw_escrow (fst s') (sr_escrow_id res) = Some shares"
  shows "sr_shares res = map (share_info (sr_escrow_id res) n) (zip [0..<length shares] shares)"
proof -
  from assms(1) have "\<exists>shares. gw_escrow (fst s') (sr_escrow_id res) = Some shares \<and>
      sr_shares res = map (share_info (sr_escrow_id res) n) (zip [0..<length shares] shares)"
    by (auto simp: escrow_split_def gw_run Let_def split: sum.splits if_splits)
  with assms(2) show ?thesis by simp
qed

text \<open>Every link on the result page of a split leads to its share.\<close>

lemma escrow_links_work:
  assumes "escrow_split data filename k n (g, w) = (Inr res, (g1, w1))" and "i < n" and "\<forall>v. visible v \<longrightarrow> hv v"
  shows "\<exists>sh hs. escrow_download (sr_escrow_id res) i (g1, w1) = (Inr sh, (g1, w1)) \<and>
    http_escrow_download hv (shi_path (sr_shares res ! i)) (g1, w1) =
      (Inr \<lparr>hr_status = 200, hr_headers = hs, hr_body = Octets (shb_bytes sh)\<rparr>, (g1, w1))"
proof -
  obtain shares where sh: "n \<le> 64" "gw_escrow g1 (sr_escrow_id res) = Some shares" "length shares = n"
    by (rule split_run[OF assms(1)]) (simp add: that)
  let ?r = "\<lparr>shb_idx = word_of_nat i, shb_total_n = sf_total_n (shares ! i), shb_bytes = share_encode (shares ! i)\<rparr>"
  have run: "escrow_download (sr_escrow_id res) i (g1, w1) = (Inr ?r, (g1, w1))"
    using sh(2,3) assms(2) by (simp add: escrow_download_def gw_run)
  have path: "shi_path (sr_shares res ! i) = sr_escrow_id res @ ''_'' @ dec_string i @ ''.holoshare''"
    using split_links[OF assms(1), of shares] sh(2,3) assms(2) by (simp add: share_info_def)
  have idx: "parse_below (2 ^ 64) (dec_string i) = Some i" using sh(1) assms(2) by (simp add: parse_dec)
  have "visible (pad2 x)" for x by (simp add: pad2_def)
  then have "\<exists>hs. (escrow_share_response hv ?r :: (unit, _) res) = Inr \<lparr>hr_status = 200, hr_headers = hs, hr_body = Octets (shb_bytes ?r)\<rparr>"
    unfolding escrow_share_response_def by (subst build_ok[OF assms(3)]) (simp_all add: disposition_def jlit_def quote_def)
  with run show ?thesis
    unfolding path http_escrow_download_def share_path_parts by (auto simp: idx[simplified] abind_def acatch_def)
qed

end
