(* ===== verification/Escaping.thy ===== *)
theory Escaping
  imports Http
begin

text \<open>
  What the readers of the escapes in \<open>handlers.rs\<close> and \<open>lib.rs\<close> get: \<open>json_escape\<close> against a reader of JSON strings after
  RFC 8259, \<open>url_encode\<close> against the form decoder of the handlers, \<open>html_escape\<close> against the characters that leave a text or attribute.
\<close>

section \<open>JSON strings\<close>

text \<open>The rest of a JSON string behind its opening quote, up to the closing one: the value and what follows.\<close>

definition json_simple_escape :: "char \<Rightarrow> char option" where
  "json_simple_escape c = (if c = quote \<or> c = CHR 0x5C \<or> c = CHR ''/'' then Some c
     else if c = CHR ''n'' then Some (CHR 0x0A) else if c = CHR ''r'' then Some (CHR 0x0D) else if c = CHR ''t'' then Some (CHR 0x09)
     else if c = CHR ''b'' then Some (CHR 0x08) else if c = CHR ''f'' then Some (CHR 0x0C) else None)"

definition json_low_escape :: "string \<Rightarrow> (char \<times> string) option" where
  "json_low_escape s = (case s of
     a # b # h # l # r \<Rightarrow> (case (hex_val a, hex_val b, hex_val h, hex_val l) of
        (Some 0, Some 0, Some x, Some y) \<Rightarrow> if x * 16 + y < 128 then Some (char_of (x * 16 + y), r) else None
      | _ \<Rightarrow> None)
   | _ \<Rightarrow> None)"

definition json_item :: "string \<Rightarrow> (char \<times> string) option" where
  "json_item s = (case s of
     c # r \<Rightarrow>
       if c \<noteq> CHR 0x5C then (if 32 \<le> (of_char c :: nat) then Some (c, r) else None)
       else (case r of
         e # r' \<Rightarrow> if e = CHR ''u'' then json_low_escape r' else map_option (\<lambda>x. (x, r')) (json_simple_escape e)
       | [] \<Rightarrow> None)
   | [] \<Rightarrow> None)"

lemma json_item_shorter: "json_item s = Some (c, r) \<Longrightarrow> length r < length s"
  by (auto simp: json_item_def json_low_escape_def split: list.splits if_splits option.splits nat.splits)

function json_read :: "string \<Rightarrow> (string \<times> string) option" where
  "json_read s = (case s of
     [] \<Rightarrow> None
   | c # r \<Rightarrow> if c = quote then Some ([], r)
       else (case json_item s of None \<Rightarrow> None | Some (x, r') \<Rightarrow> map_option (\<lambda>(v, q). (x # v, q)) (json_read r')))"
  by pat_completeness auto
termination
  by (relation "measure length") (auto dest: json_item_shorter)

declare json_read.simps [simp del]

lemma hex_digit_val: "n < 16 \<Longrightarrow> hex_val (hex_digit n) = Some n"
proof -
  have "\<forall>n \<in> set [0..<16]. hex_val (hex_digit n) = Some n" by (simp add: upt_rec hex_digit_def hex_val_def)
  moreover assume "n < 16"
  ultimately show ?thesis by simp
qed

lemma json_low: "n < 32 \<Longrightarrow> json_low_escape (''00'' @ hex [word_of_nat n] @ t) = Some (char_of n, t)"
proof -
  assume n: "n < 32"
  then have "unat (word_of_nat n :: u8) = n" by (simp add: unat_of_nat)
  then have h: "hex [word_of_nat n] = [hex_digit (n div 16), hex_digit (n mod 16)]" by (simp add: hex_def)
  have z: "hex_val CHR ''0'' = Some 0" by (simp add: hex_val_def)
  have "n div 16 < 16" "n mod 16 < 16" "n div 16 * 16 + n mod 16 = n" using n by simp_all
  with n show ?thesis using hex_digit_val[of "n div 16"] hex_digit_val[of "n mod 16"]
    by (simp add: json_low_escape_def h z)
qed

lemma json_item_char: "json_item (json_char c @ t) = Some (c, t) \<and> json_char c \<noteq> [] \<and> hd (json_char c) \<noteq> quote"
proof (cases "(of_char c :: nat) < 32 \<and> c \<notin> {CHR 0x0A, CHR 0x0D, CHR 0x09}")
  case True
  then have "json_char c = CHR 0x5C # CHR ''u'' # ''00'' @ hex [word_of_nat (of_char c)]"
    by (auto simp: json_char_def quote_def)
  with json_low[of "of_char c" t] True show ?thesis by (simp add: json_item_def quote_def)
next
  case False
  then show ?thesis by (auto simp: json_char_def json_item_def json_simple_escape_def quote_def)
qed

lemma json_read_char: "json_read (json_char c @ t) = map_option (\<lambda>(v, q). (c # v, q)) (json_read t)"
proof -
  obtain a l where j: "json_char c = a # l" "a \<noteq> quote" using json_item_char[of c t] by (cases "json_char c") auto
  with json_item_char[of c t] show ?thesis by (simp add: json_read.simps[of "a # l @ t"])
qed

text \<open>Every string that a handler puts into a JSON reply is read back from it, and the string ends where the handler ended it.\<close>

lemma json_escape_reads_back: "jstr s = quote # json_escape s @ [quote] \<and> json_read (json_escape s @ quote # rest) = Some (s, rest)"
proof (induction s)
  case Nil
  then show ?case by (simp add: json_escape_def jstr_def json_read.simps[of "quote # rest"])
next
  case (Cons c s)
  then show ?case by (simp add: json_escape_def jstr_def json_read_char)
qed

section \<open>Form fields\<close>

lemma hex_upper_val: "n < 16 \<Longrightarrow> hex_val (hex_upper n) = Some n \<and> hex_upper n \<notin> {CHR ''+'', CHR ''&'', CHR ''='', CHR ''%''}"
proof -
  have "\<forall>n \<in> set [0..<16]. hex_val (hex_upper n) = Some n \<and> hex_upper n \<notin> {CHR ''+'', CHR ''&'', CHR ''='', CHR ''%''}"
    by (simp add: upt_rec hex_upper_def hex_val_def)
  moreover assume "n < 16"
  ultimately show ?thesis by simp
qed

lemma radix16_upper: "h < 16 \<Longrightarrow> l < 16 \<Longrightarrow> radix16 (hex_upper h) (hex_upper l) = Some (word_of_nat (h * 16 + l))"
  using hex_upper_val[of h] hex_upper_val[of l] by (simp add: radix16_def)

definition url_char :: "char \<Rightarrow> string" where
  "url_char c = (if url_safe c then [c] else [CHR ''%'', hex_upper (of_char c div 16), hex_upper (of_char c mod 16)])"

lemma url_encode_chars: "url_encode s = concat (map url_char s)"
  by (simp add: url_encode_def url_char_def[abs_def])

lemma safe_plain: "url_safe c \<Longrightarrow> c \<notin> {CHR ''+'', CHR ''%'', CHR ''&'', CHR ''=''} \<and> (of_char c :: nat) < 128"
  by (auto simp: url_safe_def less_eq_char_def)

lemma of_char_nibbles: "(of_char c :: nat) div 16 < 16" "(of_char c :: nat) mod 16 < 16"
proof -
  have "(of_char c :: nat) < 256" by simp
  then show "(of_char c :: nat) div 16 < 16" by (simp add: less_mult_imp_div_less)
qed simp

lemma of_char_word: "(of_char c :: u8) = word_of_nat (of_char c)"
  by (simp add: of_nat_of_char)

lemma latin1_ascii: "(of_char c :: nat) < 128 \<longleftrightarrow> latin1 (word_of_nat (of_char c)) = [c]"
  by (auto simp: latin1_def of_char_byte)

lemma decode_url_char: "url_decode_simple (url_char c @ t) = latin1 (word_of_nat (of_char c)) @ url_decode_simple t"
proof (cases "url_safe c")
  case True
  from safe_plain[OF this] show ?thesis using True by (simp add: url_char_def of_char_word latin1_ascii)
next
  case False
  note half = of_char_nibbles[of c]
  from radix16_upper[OF half] False show ?thesis by (simp add: url_char_def)
qed

lemma decode_encode: "url_decode_simple (url_encode s) = concat (map (\<lambda>c. latin1 (word_of_nat (of_char c))) s)"
  by (induction s) (simp_all add: url_encode_chars decode_url_char)

lemma latin1_length: "length (latin1 b) = (if unat b < 128 then 1 else 2)"
  by (simp add: latin1_def)

lemma latin1_all: "concat (map (\<lambda>c. latin1 (word_of_nat (of_char c))) s) = s \<longleftrightarrow> list_all (\<lambda>c. (of_char c :: nat) < 128) s"
proof
  let ?L = "\<lambda>c. latin1 (word_of_nat (of_char c))"
  have len: "length s + length (filter (\<lambda>c. \<not> (of_char c :: nat) < 128) s) = length (concat (map ?L s))"
    by (induction s) (simp_all add: latin1_length of_char_byte)
  show "concat (map ?L s) = s \<Longrightarrow> list_all (\<lambda>c. (of_char c :: nat) < 128) s"
    using len by (simp add: filter_empty_conv list_all_iff)
  show "list_all (\<lambda>c. (of_char c :: nat) < 128) s \<Longrightarrow> concat (map ?L s) = s"
    by (induction s) (simp_all add: latin1_ascii)
qed

lemma encode_plain: "CHR ''&'' \<notin> set (url_encode s)" "CHR ''='' \<notin> set (url_encode s)"
proof -
  have "CHR ''&'' \<notin> set (url_char c) \<and> CHR ''='' \<notin> set (url_char c)" for c
  proof (cases "url_safe c")
    case False
    note half = of_char_nibbles[of c]
    from hex_upper_val[OF half(1)] hex_upper_val[OF half(2)] False show ?thesis by (auto simp: url_char_def)
  qed (use safe_plain[of c] in \<open>auto simp: url_char_def\<close>)
  then show "CHR ''&'' \<notin> set (url_encode s)" "CHR ''='' \<notin> set (url_encode s)" by (auto simp: url_encode_chars)
qed

lemma split_on_at: "c \<notin> set a \<Longrightarrow> split_on c (a @ c # b) = a # split_on c b"
  by (induction a) auto

lemma split_pair_at: "CHR ''='' \<notin> set k \<Longrightarrow> split_pair (k @ CHR ''='' # v) = (k, v)"
  by (simp add: split_pair_def split_once_def takeWhile_append dropWhile_append)

text \<open>what a form handler gets of an encoded field. Of a body \<open>from=A&to=B\<close> with both values encoded as the pages encode names,
  the decoder takes each byte of a value as a code point of its own; so it gets back exactly the values that are ASCII, and never
  another one: a name with a letter outside ASCII names a different entry for \<open>mkdir\<close>, \<open>rmdir\<close> and \<open>mv\<close>.\<close>

theorem form_fields_decoded:
  "parse_urlencoded_field (''from='' @ url_encode a @ ''&to='' @ url_encode b) ''from'' =
      Some (concat (map (\<lambda>c. latin1 (word_of_nat (of_char c))) a)) \<and>
   parse_urlencoded_field (''from='' @ url_encode a @ ''&to='' @ url_encode b) ''to'' =
      Some (concat (map (\<lambda>c. latin1 (word_of_nat (of_char c))) b)) \<and>
   (parse_urlencoded_field (''from='' @ url_encode a @ ''&to='' @ url_encode b) ''from'' = Some a \<longleftrightarrow>
      list_all (\<lambda>c. (of_char c :: nat) < 128) a) \<and>
   (parse_urlencoded_field (''from='' @ url_encode a @ ''&to='' @ url_encode b) ''to'' = Some b \<longleftrightarrow>
      list_all (\<lambda>c. (of_char c :: nat) < 128) b)"
proof -
  let ?f = "''from='' @ url_encode a" and ?t = "''to='' @ url_encode b"
  have no: "CHR ''&'' \<notin> set ?f" "CHR ''&'' \<notin> set ?t" using encode_plain by auto
  have "split_on (CHR ''&'') ?t = [?t]" by (rule split_on_plain[OF no(2)])
  with split_on_at[OF no(1), of ?t] have "split_on (CHR ''&'') (''from='' @ url_encode a @ ''&to='' @ url_encode b) = [?f, ?t]" by simp
  moreover have "split_pair ?f = (''from'', url_encode a)" "split_pair ?t = (''to'', url_encode b)"
    using split_pair_at[of "''from''" "url_encode a"] split_pair_at[of "''to''" "url_encode b"] by simp_all
  ultimately have "parse_urlencoded_field (''from='' @ url_encode a @ ''&to='' @ url_encode b) ''from'' = Some (url_decode_simple (url_encode a))"
    "parse_urlencoded_field (''from='' @ url_encode a @ ''&to='' @ url_encode b) ''to'' = Some (url_decode_simple (url_encode b))"
    by (simp_all add: parse_urlencoded_field_def)
  then show ?thesis by (simp add: decode_encode latin1_all)
qed

section \<open>HTML\<close>

text \<open>What \<open>html_escape\<close> returns has no character that ends a text node or a quoted attribute.\<close>

lemma html_escape_inert: "set (html_escape s) \<inter> {CHR ''<'', CHR ''>'', quote, CHR 0x27} = {}"
  by (auto simp: html_escape_def quote_def split: if_splits)

end
