(* ===== verification/Boot.thy ===== *)
theory Boot
  imports Shapes Http
begin

text \<open>
  \<open>holofs-web/src/bootstrap.rs\<close>: from the configuration to a running gateway: TLS material, the list of nodes (embedded ones or
  those of a whitelist), the catalog with its migration, demo objects, the gateway. Parameters: the environment variables, the files
  (whitelist, catalog) as they are read, binding a node to a port, rustls, and the demo pictures. A missing catalog file counts as
  an empty one for the file the gateway keeps. The clock-driven tasks that it starts, \<open>run_periodic\<close> of the monitor and the
  auditor, call the ticks of \<open>Monitor\<close> and \<open>Reputation\<close>; log output is left out.
\<close>

section \<open>Configuration\<close>

record tls_options =
  to_enabled :: bool
  to_mtls :: bool
  to_cert :: "string option"
  to_key :: "string option"
  to_ca :: "string option"

record boot_config =
  bc_whitelist :: "(io_error, bytes) res option"
  bc_admin :: "bytes option"
  bc_no_seed :: bool
  bc_tls :: tls_options

text \<open>What \<open>cli.rs\<close> makes of its flags.\<close>

definition cli_tls :: "bool \<Rightarrow> bool \<Rightarrow> string option \<Rightarrow> string option \<Rightarrow> string option \<Rightarrow> tls_options" where
  "cli_tls tls mtls cert key ca =
     \<lparr>to_enabled = (tls \<or> mtls), to_mtls = mtls, to_cert = cert, to_key = key, to_ca = ca\<rparr>"

text \<open>\<open>std::env::var(..).ok().and_then(|s| s.parse().ok()).unwrap_or(default)\<close>.\<close>

definition env_number :: "nat \<Rightarrow> nat \<Rightarrow> string option \<Rightarrow> nat" where
  "env_number top_n n0 v = (case v of None \<Rightarrow> n0 | Some s \<Rightarrow> (case parse_below top_n s of Some n \<Rightarrow> n | None \<Rightarrow> n0))"

definition DEFAULT_W :: nat where "DEFAULT_W = 512"
definition DEFAULT_H :: nat where "DEFAULT_H = 512"
definition N_NODES :: nat where "N_NODES = 40"

definition dims_from_env :: "string option \<Rightarrow> string option \<Rightarrow> ('e, nat \<times> nat) res" where
  "dims_from_env vw vh =
     (let w = env_number (2 ^ 64) DEFAULT_W vw; h = env_number (2 ^ 64) DEFAULT_H vh; step = 2 ^ LEVELS in
      rbind (rassert (step \<le> w \<and> w mod step = 0)) (\<lambda>_.
      rbind (rassert (step \<le> h \<and> h mod step = 0)) (\<lambda>_. Inr (w, h))))"

text \<open>\<open>parse_pubkey_hex\<close>: two bytes at a time; slicing inside a character panics.\<close>

definition inside_char :: "string \<Rightarrow> bool" where
  "inside_char s \<longleftrightarrow> (case s of [] \<Rightarrow> False | c # _ \<Rightarrow> cont_byte (of_char c))"

fun key_bytes :: "string \<Rightarrow> ('e, bytes option) res" where
  "key_bytes (a # b # r) =
     (if inside_char (a # b # r) \<or> inside_char r then Inl Panic
      else case radix16 a b of
        None \<Rightarrow> Inr None
      | Some x \<Rightarrow> rbind (key_bytes r) (\<lambda>t. Inr (map_option ((#) x) t)))"
| "key_bytes _ = Inr (Some [])"

definition parse_pubkey_hex :: "string \<Rightarrow> ('e, bytes option) res" where
  "parse_pubkey_hex s = (if length s \<noteq> PUBKEY_LEN * 2 then Inr None else key_bytes s)"

section \<open>TLS\<close>

datatype tls_source = OperatorPem string string string | SelfSigned bool

datatype boot_error = TlsPartial | TlsFailed | BadWhitelistSignature | BootIo io_error | BindFailed nat | SaveFailed

definition build_tls :: "(tls_source \<Rightarrow> bool \<Rightarrow> bool) \<Rightarrow> tls_options \<Rightarrow> (boot_error, tls_source option) res" where
  "build_tls mk tls =
     (if \<not> to_enabled tls then Inr None
      else rbind (case (to_cert tls, to_key tls, to_ca tls) of
          (Some c, Some k, Some ca) \<Rightarrow> Inr (OperatorPem c k ca)
        | (None, None, None) \<Rightarrow> Inr (SelfSigned (to_mtls tls))
        | _ \<Rightarrow> Inl (Err TlsPartial)) (\<lambda>src.
      if mk src (to_mtls tls) then Inr (Some src) else Inl (Err TlsFailed)))"

section \<open>Nodes and demo objects\<close>

text \<open>Everything outside: environment variables, ports, rustls, the catalog file, the demo pictures (\<open>None\<close> when loading panics).\<close>

record 'w boot_env =
  be_width :: "string option"
  be_height :: "string option"
  be_base_port :: "string option"
  be_make_tls :: "tls_source \<Rightarrow> bool \<Rightarrow> bool"
  be_bind :: "nat \<Rightarrow> u16 \<Rightarrow> 'w \<Rightarrow> string option \<times> 'w"
  be_catalog :: "(io_error, bytes) res"
  be_photo :: "nat \<Rightarrow> nat \<Rightarrow> u32 list list option"
  be_synth :: "nat \<Rightarrow> nat \<Rightarrow> u32 list list"

definition bind_node :: "'w boot_env \<Rightarrow> string list \<Rightarrow> nat \<Rightarrow> ('w, boot_error, string list) act" where
  "bind_node be addrs i = (\<lambda>w.
     let port = word_of_nat (env_number (2 ^ 16) 9100 (be_base_port be)) + word_of_nat i in
     (case be_bind be i port w of
        (Some addr, w') \<Rightarrow> (Inr (addrs @ [addr]), w') | (None, w') \<Rightarrow> (Inl (Err (BindFailed i)), w')))"

definition embedded_zones :: "u8 list" where
  "embedded_zones = map (\<lambda>i. word_of_nat (i div (N_NODES div 4))) [0..<N_NODES]"

definition read_whitelist :: "ed25519 \<Rightarrow> bytes option \<Rightarrow> (io_error, bytes) res \<Rightarrow> (boot_error, string list \<times> u8 list) res" where
  "read_whitelist ed admin file =
     rbind (map_err BootIo file) (\<lambda>bs.
     rbind (map_err BootIo (wl_decode bs)) (\<lambda>wl.
     if \<not> wl_verify ed admin wl then Inl (Err BadWhitelistSignature)
     else Inr (map wl_addr (wl_entries wl), map wl_zone (wl_entries wl))))"

definition boot_nodes :: "ed25519 \<Rightarrow> 'w boot_env \<Rightarrow> boot_config \<Rightarrow> ('w, boot_error, string list \<times> u8 list) act" where
  "boot_nodes ed be cfg = (case bc_whitelist cfg of
     Some file \<Rightarrow> alift (read_whitelist ed (bc_admin cfg) file)
   | None \<Rightarrow> abind (afold (bind_node be) [] [0..<N_NODES]) (\<lambda>addrs. aret (addrs, embedded_zones)))"

text \<open>\<open>save_atomic\<close>; the content of the file is returned.\<close>

definition boot_save :: "'w env \<Rightarrow> catalog \<Rightarrow> ('w, boot_error, bytes) act" where
  "boot_save env cat = (\<lambda>w. case cat_encode cat of
     Inl e \<Rightarrow> (Inl e, w)
   | Inr bs \<Rightarrow> (case ev_save env bs w of (ok, w') \<Rightarrow> (if ok then Inr bs else Inl (Err SaveFailed), w')))"

definition aexpect :: "('s, 'e, 'a) act \<Rightarrow> ('s, 'f, 'a) act" where
  "aexpect m = (\<lambda>s. case m s of (Inr x, s') \<Rightarrow> (Inr x, s') | (Inl _, s') \<Rightarrow> (Inl Panic, s'))"

definition put_named :: "'w env \<Rightarrow> cluster_info \<Rightarrow> nat list \<Rightarrow> u32 list list \<Rightarrow> ('w, boot_error, manifest) act" where
  "put_named env cl live channels =
     abind (alift (blank_manifest cl)) (\<lambda>m.
       aexpect (run_put PutImage (put_object (ev_call env) live channels) m))"

definition seed_catalog :: "'w env \<Rightarrow> 'w boot_env \<Rightarrow> cluster_info \<Rightarrow> nat list \<Rightarrow> catalog \<Rightarrow> ('w, boot_error, catalog \<times> bytes) act" where
  "seed_catalog env be cl live cat =
     (let w = cl_width cl; h = cl_height cl in
      abind (alift (case be_photo be w h of Some planes \<Rightarrow> Inr planes | None \<Rightarrow> Inl Panic)) (\<lambda>photo.
      abind (put_named env cl live photo) (\<lambda>m1.
      abind (put_named env cl live (be_synth be w h)) (\<lambda>m2.
      let cat' = cat_insert ''mandala.png'' m2 (cat_insert ''photo.png'' m1 cat) in
      abind (boot_save env cat') (\<lambda>bs. aret (cat', bs))))))"

section \<open>The boot sequence\<close>

definition bootstrap_cluster :: "ed25519 \<Rightarrow> 'w env \<Rightarrow> 'w boot_env \<Rightarrow> boot_config \<Rightarrow> ('w, boot_error, gateway) act" where
  "bootstrap_cluster ed env be cfg =
     abind (alift (dims_from_env (be_width be) (be_height be))) (\<lambda>(w, h).
     abind (alift (build_tls (be_make_tls be) (bc_tls cfg))) (\<lambda>_.
     abind (boot_nodes ed be cfg) (\<lambda>(addrs, zones).
     let live = [0..<length addrs];
         cl = \<lparr>cl_addrs = addrs, cl_zones = zones, cl_placement = RendezvousZoneAware, cl_width = w, cl_height = h\<rparr>;
         raw = (case be_catalog be of Inr bs \<Rightarrow> bs | Inl _ \<Rightarrow> [])
     in abind (alift (map_err BootIo (cat_load (be_catalog be)))) (\<lambda>loaded.
        case synthesize_missing_directories loaded of (n, cat) \<Rightarrow>
        abind (if 0 < n then boot_save env cat else aret raw) (\<lambda>file.
        abind (if bc_whitelist cfg = None \<and> \<not> bc_no_seed cfg \<and> cat = [] then seed_catalog env be cl live cat else aret (cat, file))
          (\<lambda>(cat, file). aret (gateway_new_persistent cat live cl file)))))))"

section \<open>What a boot leaves\<close>

lemma bind_node_run: "bind_node be addrs i w = (r, w') \<Longrightarrow> (\<exists>a. r = Inr (addrs @ [a])) \<or> (\<exists>e. r = Inl e)"
  by (auto simp: bind_node_def Let_def split: prod.splits option.splits)

lemma bound_length: "afold (bind_node be) addrs is w = (Inr addrs', w') \<Longrightarrow> length addrs' = length addrs + length is"
  by (induction "is" arbitrary: addrs w) (auto simp: abind_Inr dest!: bind_node_run)

lemma boot_nodes_lengths:
  assumes "boot_nodes ed be cfg w = (Inr (addrs, zones), w')" shows "length zones = length addrs"
  using assms by (auto simp: boot_nodes_def read_whitelist_def rbind_eq_Inr abind_Inr embedded_zones_def split: option.splits if_splits dest!: bound_length)

lemma boot_nodes_trusted:
  assumes "boot_nodes ed be cfg w = (Inr (addrs, zones), w')" and "bc_whitelist cfg = Some raw"
  obtains bs wl where "raw = Inr bs" and "wl_decode bs = Inr wl" and "wl_verify ed (bc_admin cfg) wl"
    and "addrs = map wl_addr (wl_entries wl)" and "zones = map wl_zone (wl_entries wl)" and "w' = w"
proof -
  from assms have r: "read_whitelist ed (bc_admin cfg) raw = Inr (addrs, zones)" "w' = w" by (simp_all add: boot_nodes_def)
  then obtain bs wl where "map_err BootIo raw = Inr bs" "map_err BootIo (wl_decode bs) = Inr wl"
    "wl_verify ed (bc_admin cfg) wl" "addrs = map wl_addr (wl_entries wl)" "zones = map wl_zone (wl_entries wl)"
    by (auto simp: read_whitelist_def rbind_eq_Inr split: if_splits)
  with r(2) that show thesis by (auto simp: map_err_def split: sum.splits fault.splits)
qed

lemma aexpect_Inr: "aexpect m s = (Inr x, s') \<longleftrightarrow> m s = (Inr x, s')"
  by (auto simp: aexpect_def split: prod.split sum.split)

lemma seed_shaped:
  assumes "seed_catalog env be cl live cat w = (Inr (cat', bs), w')" and "well_shaped cat" and "length (cl_zones cl) = length (cl_addrs cl)"
  shows "well_shaped cat'"
proof -
  have named: "manifest_asserts m" if "put_named env cl live planes v = (Inr m, v')" for planes m v v'
  proof -
    from that obtain m0 where "(blank_manifest cl :: (boot_error, _) res) = Inr m0" and
      "run_put PutImage (put_object (ev_call env) live planes) m0 v = (Inr m, v')"
      by (auto simp: put_named_def aexpect_Inr abind_Inr)
    with blank_asserts(1)[OF assms(3)] show ?thesis by (auto elim!: run_put_asserts dest: put_object_asserts)
  qed
  from assms(1,2) show ?thesis
    by (auto simp: seed_catalog_def abind_Inr Let_def intro!: well_shaped_insert dest!: named)
qed

text \<open>A boot that succeeds, taken apart.\<close>

lemma boot_parts:
  assumes "bootstrap_cluster ed env be cfg w = (Inr g, w')"
  obtains addrs zones ww hh disk cat loaded v where "boot_nodes ed be cfg w = (Inr (addrs, zones), v)"
    and "cat_load (be_catalog be) = Inr loaded"
    and "g = gateway_new_persistent cat [0..<length addrs]
        \<lparr>cl_addrs = addrs, cl_zones = zones, cl_placement = RendezvousZoneAware, cl_width = ww, cl_height = hh\<rparr> disk"
    and "cat = snd (synthesize_missing_directories loaded) \<or>
      snd (synthesize_missing_directories loaded) = [] \<and> (\<exists>u. seed_catalog env be \<lparr>cl_addrs = addrs, cl_zones = zones,
        cl_placement = RendezvousZoneAware, cl_width = ww, cl_height = hh\<rparr> [0..<length addrs] [] u = (Inr (cat, disk), w'))"
proof -
  from assms obtain dims nodes v loaded raw u seeded where
    nodes: "boot_nodes ed be cfg w = (Inr nodes, v)"
    and load: "map_err BootIo (cat_load (be_catalog be)) = Inr loaded"
    and seed: "(if bc_whitelist cfg = None \<and> \<not> bc_no_seed cfg \<and> snd (synthesize_missing_directories loaded) = [] then seed_catalog env be
        \<lparr>cl_addrs = fst nodes, cl_zones = snd nodes, cl_placement = RendezvousZoneAware, cl_width = fst dims, cl_height = snd dims\<rparr>
          [0..<length (fst nodes)] (snd (synthesize_missing_directories loaded))
        else aret (snd (synthesize_missing_directories loaded), raw)) u = (Inr seeded, w')"
    and g: "g = gateway_new_persistent (fst seeded) [0..<length (fst nodes)]
        \<lparr>cl_addrs = fst nodes, cl_zones = snd nodes, cl_placement = RendezvousZoneAware, cl_width = fst dims, cl_height = snd dims\<rparr> (snd seeded)"
    unfolding bootstrap_cluster_def case_prod_beta Let_def by (auto simp: abind_Inr)
  from load have "cat_load (be_catalog be) = Inr loaded" by (auto simp: map_err_def split: sum.splits fault.splits)
  from that[of "fst nodes" "snd nodes", OF _ this g] nodes seed show thesis
    by (cases seeded) (auto split: if_splits)
qed

lemma boot_shaped:
  assumes "bootstrap_cluster ed env be cfg w = (Inr g, w')" shows "shaped g"
proof -
  from assms obtain addrs zones ww hh disk cat loaded v where b: "boot_nodes ed be cfg w = (Inr (addrs, zones), v)"
    "cat_load (be_catalog be) = Inr loaded"
    "g = gateway_new_persistent cat [0..<length addrs]
        \<lparr>cl_addrs = addrs, cl_zones = zones, cl_placement = RendezvousZoneAware, cl_width = ww, cl_height = hh\<rparr> disk"
    "cat = snd (synthesize_missing_directories loaded) \<or>
      snd (synthesize_missing_directories loaded) = [] \<and> (\<exists>u. seed_catalog env be \<lparr>cl_addrs = addrs, cl_zones = zones,
        cl_placement = RendezvousZoneAware, cl_width = ww, cl_height = hh\<rparr> [0..<length addrs] [] u = (Inr (cat, disk), w'))"
    by (rule boot_parts)
  note len = boot_nodes_lengths[OF b(1)]
  have "well_shaped cat" using b(4) synthesize_shaped[OF load_shaped[OF b(2)]] len
    by (auto simp: well_shaped_def[of "[]"] dest!: seed_shaped)
  with len b(3) show ?thesis by (simp add: shaped_def gateway_new_persistent_def gateway_new_def)
qed

section \<open>Distributed boots\<close>

text \<open>The nodes of a distributed boot. With a whitelist, a boot succeeds only if the file is readable, decodes, and
  carries a signature that verifies under the key it names, which is the configured admin key when one is configured; then the gateway
  talks to exactly the addresses of its entries, in order, with their zones, all of them live.\<close>

lemma boot_nodes_exact:
  assumes "bootstrap_cluster ed env be cfg w = (Inr g, w')" and "bc_whitelist cfg = Some raw"
  shows "\<exists>bs wl. raw = Inr bs \<and> wl_decode bs = Inr wl \<and> wl_verify ed (bc_admin cfg) wl \<and>
    cl_addrs (gw_cluster g) = map wl_addr (wl_entries wl) \<and> cl_zones (gw_cluster g) = map wl_zone (wl_entries wl) \<and>
    effective_live g = [0..<length (wl_entries wl)]"
proof -
  from assms(1) obtain addrs zones ww hh disk cat loaded v where b: "boot_nodes ed be cfg w = (Inr (addrs, zones), v)"
    "g = gateway_new_persistent cat [0..<length addrs]
        \<lparr>cl_addrs = addrs, cl_zones = zones, cl_placement = RendezvousZoneAware, cl_width = ww, cl_height = hh\<rparr> disk"
    by (rule boot_parts)
  from boot_nodes_trusted[OF b(1) assms(2)] obtain bs wl where wl: "raw = Inr bs" "wl_decode bs = Inr wl" "wl_verify ed (bc_admin cfg) wl"
    "addrs = map wl_addr (wl_entries wl)" "zones = map wl_zone (wl_entries wl)" by blast
  have "effective_live g = [0..<length addrs]"
    by (auto simp: b(2) effective_live_def gateway_new_persistent_def gateway_new_def intro!: filter_True)
  with wl b(2) show ?thesis by (intro exI[of _ bs] exI[of _ wl]) (simp add: gateway_new_persistent_def gateway_new_def)
qed

lemma boot_any_key:
  assumes "ed_correct ed mallory" and "list_all wl_entry_ok es" and "length es < 2 ^ 32"
    and "bc_whitelist cfg = Some (Inr (wl_encode (wl_sign ed es mallory)))" and "bc_admin cfg = None"
    and "to_enabled (bc_tls cfg) = False" and "be_catalog be = Inl (Err NotFound)" and "be_width be = None" and "be_height be = None"
  shows "\<exists>g. bootstrap_cluster ed env be cfg w = (Inr g, w) \<and> cl_addrs (gw_cluster g) = map wl_addr es"
proof -
  let ?wl = "wl_sign ed es mallory"
  have "wl_ok ?wl" using assms(1-3) by (simp add: wl_ok_def wl_sign_def ed_correct_def pubkey_def sign_blob_def Let_def)
  then have "wl_decode (wl_encode ?wl) = Inr ?wl" by (rule wl_decode_encode)
  moreover have "wl_verify ed None ?wl"
    using assms(1) by (simp add: wl_verify_def wl_sign_def verify_blob_def pubkey_def sign_blob_def ed_correct_def Let_def)
  ultimately have nodes: "boot_nodes ed be cfg w = (Inr (map wl_addr es, map wl_zone es), w)"
    using assms(4,5) by (simp add: boot_nodes_def read_whitelist_def wl_sign_def Let_def)
  have dims: "dims_from_env (be_width be) (be_height be) = Inr (512, 512)"
    using assms(8,9) by (simp add: dims_from_env_def env_number_def DEFAULT_W_def DEFAULT_H_def LEVELS_def)
  have load: "cat_load (be_catalog be) = Inr cat_new" using assms(7) by (simp add: cat_load_def)
  have syn: "synthesize_missing_directories cat_new = (0, [])"
    by (simp add: synthesize_missing_directories_def wanted_dirs_def cat_new_def)
  show ?thesis unfolding bootstrap_cluster_def
    using assms(4,6) by (simp add: dims build_tls_def load syn nodes abind_step[where m = "boot_nodes ed be cfg", OF nodes] Let_def
        abind_alift_run gateway_new_persistent_def gateway_new_def)
qed

section \<open>Properties\<close>

text \<open>C36: the catalog is well shaped from the boot on. Whatever the configuration, the environment, the whitelist and the catalog
  file hold, a boot either fails or yields a gateway that reaches, through any requests, only states in which the tables of every
  manifest have the lengths that its \<open>nlayers\<close>, \<open>channels\<close> and \<open>nodes\<close> announce: the hash list of every layer exists, and the
  catalog can be encoded, so that none of the assertions in \<open>encode\<close> ever fires when it is saved.\<close>

theorem boot_well_typed:
  assumes "bootstrap_cluster ed env be cfg w = (Inr g, w1)" and "(request_step env)\<^sup>*\<^sup>* (g, w1) (g', w')"
  shows "(\<forall>(name, m) \<in> set (gw_catalog g'). manifest_asserts m \<and>
      list_all (\<lambda>(c, l). \<exists>hashes. (expected_hashes m c l :: (client_error, _) res) = Inr hashes) (layer_pairs m)) \<and>
    (\<exists>out. (cat_encode (gw_catalog g') :: (gateway_error, _) res) = Inr out) \<and> fst (persist_catalog env (g', w')) = Inr ()"
  using shaped_saves requests_shaped[OF assms(2)] boot_shaped[OF assms(1)] by simp

text \<open>no trust anchor. When no admin key is configured, as also when the environment variable for it is malformed, a whitelist
  that anybody signed with a key of his own is accepted, and the gateway stores and reads its shards at the nodes it names.\<close>

theorem boot_without_anchor:
  assumes "ed_correct ed mallory" and "list_all wl_entry_ok es" and "length es < 2 ^ 32"
    and "bc_whitelist cfg = Some (Inr (wl_encode (wl_sign ed es mallory)))" and "bc_admin cfg = None"
    and "to_enabled (bc_tls cfg) = False" and "be_catalog be = Inl (Err NotFound)" and "be_width be = None" and "be_height be = None"
  shows "\<exists>g. bootstrap_cluster ed env be cfg w = (Inr g, w) \<and> cl_addrs (gw_cluster g) = map wl_addr es"
  by (rule boot_any_key[OF assms])

section \<open>Instances\<close>

text \<open>An embedded boot without demo objects, on free ports; and a boot from a whitelist that names one node.\<close>

definition demo_boot_env :: "unit boot_env" where
  "demo_boot_env = \<lparr>be_width = None, be_height = None, be_base_port = None, be_make_tls = (\<lambda>_ _. False),
     be_bind = (\<lambda>i _ w. (Some ''n'', w)), be_catalog = Inl (Err NotFound), be_photo = (\<lambda>_ _. None), be_synth = (\<lambda>_ _. [])\<rparr>"

definition demo_config :: "(io_error, bytes) res option \<Rightarrow> boot_config" where
  "demo_config wl = \<lparr>bc_whitelist = wl, bc_admin = None, bc_no_seed = True,
     bc_tls = \<lparr>to_enabled = False, to_mtls = False, to_cert = None, to_key = None, to_ca = None\<rparr>\<rparr>"

lemma demo_binds: "\<exists>addrs'. afold (bind_node demo_boot_env) addrs is w = (Inr addrs', w)"
  by (induction "is" arbitrary: addrs) (auto simp: abind_def bind_node_def demo_boot_env_def Let_def)

lemma demo_embedded: "\<exists>g. bootstrap_cluster ed demo_env demo_boot_env (demo_config None) () = (Inr g, ())"
proof -
  obtain addrs where a: "afold (bind_node demo_boot_env) [] [0..<N_NODES] () = (Inr addrs, ())" using demo_binds by blast
  have "boot_nodes ed demo_boot_env (demo_config None) () = (Inr (addrs, embedded_zones), ())"
    by (simp add: boot_nodes_def demo_config_def abind_step[where m = "afold (bind_node demo_boot_env) [] [0..<N_NODES]", OF a])
  moreover have "dims_from_env None None = (Inr (512, 512) :: (boot_error, _) res)"
    by (simp add: dims_from_env_def env_number_def DEFAULT_W_def DEFAULT_H_def LEVELS_def)
  moreover have "synthesize_missing_directories cat_new = (0, [])"
    by (simp add: synthesize_missing_directories_def wanted_dirs_def cat_new_def)
  ultimately show ?thesis
    by (simp add: bootstrap_cluster_def abind_step[where m = "boot_nodes ed demo_boot_env (demo_config None)"] Let_def)
      (simp add: demo_boot_env_def demo_config_def build_tls_def cat_load_def abind_def)
qed

theorem boot_well_typed_witness:
  "\<exists>g. bootstrap_cluster (toy_ed (\<lambda>_. True)) demo_env demo_boot_env (demo_config None) () = (Inr g, ()) \<and>
    (\<exists>out. (cat_encode (gw_catalog g) :: (gateway_error, _) res) = Inr out)"
proof -
  obtain g where g: "bootstrap_cluster (toy_ed (\<lambda>_. True)) demo_env demo_boot_env (demo_config None) () = (Inr g, ())" using demo_embedded by blast
  from boot_well_typed[OF g] g show ?thesis by blast
qed

theorem boot_without_anchor_witness:
  "\<exists>g. bootstrap_cluster (toy_ed (\<lambda>_. True)) demo_env demo_boot_env
      (demo_config (Some (Inr (wl_encode (wl_sign (toy_ed (\<lambda>_. True)) [\<lparr>wl_addr = ''a'', wl_pubkey = replicate 32 7, wl_zone = 3\<rparr>] [5]))))) () =
      (Inr g, ()) \<and> cl_addrs (gw_cluster g) = [''a'']"
proof -
  have "ed_correct (toy_ed (\<lambda>_. True)) [5]" by (simp add: ed_correct_def)
  moreover have "list_all wl_entry_ok [\<lparr>wl_addr = ''a'', wl_pubkey = replicate 32 7, wl_zone = 3\<rparr>]"
    by (simp add: wl_entry_ok_def str16_ok_def str_ok_def as_bytes_def)
  ultimately show ?thesis
    using boot_without_anchor[of "toy_ed (\<lambda>_. True)" "[5]" "[\<lparr>wl_addr = ''a'', wl_pubkey = replicate 32 7, wl_zone = 3\<rparr>]"
        "demo_config (Some (Inr (wl_encode (wl_sign (toy_ed (\<lambda>_. True)) [\<lparr>wl_addr = ''a'', wl_pubkey = replicate 32 7, wl_zone = 3\<rparr>] [5]))))"
        demo_boot_env demo_env "()"]
    by (simp add: demo_config_def demo_boot_env_def)
qed

end
