(* ===== verification/Trigger.thy ===== *)
theory Trigger
  imports Repair Media
begin

text \<open>
  \<open>needs_repair\<close> of \<open>holofs-core/src/repair.rs\<close>, the trigger policy of the regeneration: a layer that has fewer than a given
  fraction of its surplus shards left asks for a repair. Counts are cast to \<open>i32\<close>, surpluses compared as \<open>f32\<close>.

  Shown: at the threshold of one half the rounding never shows, and the trigger is the comparison of whole numbers.
\<close>

definition live_counts :: "shard_rec list \<Rightarrow> ('e, nat list list) res" where
  "live_counts all = rfold count_step (replicate 3 (replicate NLAYERS 0)) all"

text \<open>\<open>n as i32 - K as i32\<close>; a debug build panics where this wraps.\<close>

definition surplus :: "nat \<Rightarrow> int" where
  "surplus n = sint (word_of_nat n - word_of_nat K :: u32)"

definition f32_of_int :: "int \<Rightarrow> u32" where
  "f32_of_int i = f32_signed (i < 0) (f32_of_nat (nat \<bar>i\<bar>))"

definition layer_low :: "u32 \<Rightarrow> nat \<Rightarrow> nat \<Rightarrow> bool" where
  "layer_low threshold n live =
     (if surplus n \<le> 0 then False
      else f32_less (f32_of_int (surplus live)) (f32_mul threshold (f32_of_int (surplus n))))"

definition needs_repair :: "shard_rec list \<Rightarrow> nat list \<Rightarrow> u32 \<Rightarrow> ('e, bool) res" where
  "needs_repair all n_per_layer threshold =
     rbind (live_counts all) (\<lambda>live.
       Inr (list_ex (\<lambda>(c, l). layer_low threshold (n_per_layer ! l) (live ! c ! l)) (List.product [0..<3] [0..<NLAYERS])))"

section \<open>The trigger at one half\<close>

lemma f32_half: "f32_units 0x3F000000 = 2 ^ 148" "\<not> f32_nan 0x3F000000" "\<not> f32_inf 0x3F000000" "\<not> f32_neg 0x3F000000"
  by (simp_all add: f32_units_def f32_nan_def f32_inf_def f32_neg_def f32_exp_def f32_frac_def)

lemma f32_half_of:
  assumes "n < 2 ^ 24"
  shows "f32_val (f32_mul 0x3F000000 (f32_of_nat n)) = int n * 2 ^ 148" and "\<not> f32_nan (f32_mul 0x3F000000 (f32_of_nat n))"
proof -
  note v = f32_of_nat_val[OF assms] f32_of_nat_exact[OF assms]
  have "f32_round (2 ^ 148 * (n * 2 ^ 149)) (2 ^ 149) = f32_round (n * 2 ^ 148) 1"
    using f32_round_scale[of "2 ^ 149" "n * 2 ^ 148" 1] by (simp add: ac_simps)
  then have m: "f32_mul 0x3F000000 (f32_of_nat n) = f32_round (n * 2 ^ 148) 1"
    using v f32_half by (simp add: f32_mul_def f32_signed_def)
  note r = f32_round_exact[OF assms, of 148, simplified]
  show "f32_val (f32_mul 0x3F000000 (f32_of_nat n)) = int n * 2 ^ 148" "\<not> f32_nan (f32_mul 0x3F000000 (f32_of_nat n))"
    unfolding m using r f32_round_fields[OF r(2)] by (simp_all add: f32_val_def)
qed

lemma surplus_small: "n < 2 ^ 24 \<Longrightarrow> surplus n = int n - int K"
proof -
  assume "n < 2 ^ 24"
  then have r: "- (2 ^ 31) \<le> int n - int K" "int n - int K < 2 ^ 31" by (simp_all add: K_def)
  have "(word_of_nat n - word_of_nat K :: u32) = word_of_int (int n - int K)" by simp
  then show ?thesis unfolding surplus_def using r by (simp add: signed_of_int signed_take_bit_int_eq_self del: of_int_diff of_int_of_nat_eq)
qed

lemma f32_signed_fields:
  "f32_neg (f32_signed True x)" "f32_exp (f32_signed True x) = f32_exp x" "f32_frac (f32_signed True x) = f32_frac x"
proof -
  show "f32_neg (f32_signed True x)" by (simp add: f32_neg_def f32_signed_def bit_or_iff bit_numeral_rec)
  have "drop_bit 23 (x OR 0x80000000) AND 0xFF = drop_bit 23 x AND 0xFF"
    by (simp add: drop_bit_or bit.conj_disj_distrib2)
  then show "f32_exp (f32_signed True x) = f32_exp x" by (simp add: f32_exp_def f32_signed_def)
  have "(x OR 0x80000000) AND 0x7FFFFF = x AND 0x7FFFFF"
    by (simp add: bit.conj_disj_distrib2)
  then show "f32_frac (f32_signed True x) = f32_frac x" by (simp add: f32_frac_def f32_signed_def)
qed

lemma f32_below_zero:
  assumes "i < 0" and "- int K \<le> i"
  shows "f32_val (f32_of_int i) \<le> 0" and "\<not> f32_nan (f32_of_int i)"
proof -
  have "nat \<bar>i\<bar> < 2 ^ 24" using assms by (simp add: K_def)
  from f32_of_nat_val(2)[OF this] f32_signed_fields[of "f32_of_nat (nat \<bar>i\<bar>)"] assms(1)
  have "f32_neg (f32_of_int i)" "\<not> f32_nan (f32_of_int i)" by (simp_all add: f32_of_int_def f32_nan_def)
  then show "f32_val (f32_of_int i) \<le> 0" "\<not> f32_nan (f32_of_int i)" by (simp_all add: f32_val_def)
qed

lemma layer_low_half:
  assumes "n < 2 ^ 24" and "live < 2 ^ 24"
  shows "layer_low 0x3F000000 n live \<longleftrightarrow> K < n \<and> 2 * live < n + K"
proof (cases "K < n")
  case True
  then have full: "f32_of_int (surplus n) = f32_of_nat (n - K)" and lt: "n - K < 2 ^ 24" and pos: "0 < surplus n"
    using assms(1) by (simp_all add: surplus_small f32_of_int_def f32_signed_def nat_diff_distrib)
  note half = f32_half_of[OF lt, folded full]
  show ?thesis
  proof (cases "K \<le> live")
    case le: True
    then have l: "f32_of_int (surplus live) = f32_of_nat (live - K)" and l2: "live - K < 2 ^ 24"
      using assms(2) by (simp_all add: surplus_small f32_of_int_def f32_signed_def nat_diff_distrib)
    have "f32_less (f32_of_nat (live - K)) (f32_mul 0x3F000000 (f32_of_int (surplus n))) \<longleftrightarrow>
        int (live - K) * 2 ^ 149 < int (n - K) * 2 ^ 148"
      using f32_of_nat_val[OF l2] half by (simp add: f32_less_def)
    also have "\<dots> \<longleftrightarrow> 2 * live < n + K" using le True by (simp add: of_nat_diff) linarith
    finally show ?thesis using True pos l by (simp add: layer_low_def)
  next
    case False
    then have neg: "surplus live < 0" "- int K \<le> surplus live" using assms(2) by (simp_all add: surplus_small)
    have "0 < int (n - K) * 2 ^ 148" using True by simp
    then have "f32_less (f32_of_int (surplus live)) (f32_mul 0x3F000000 (f32_of_int (surplus n)))"
      using f32_below_zero[OF neg] half by (simp add: f32_less_def)
    then show ?thesis using True False pos by (simp add: layer_low_def)
  qed
next
  case False
  then show ?thesis using assms(1) by (simp add: layer_low_def surplus_small)
qed

text \<open>The trigger at one half, as the demonstration runs it: a repair is asked for exactly when some layer with a surplus has
  less than half of it left; records outside the three channels or the layers would panic.\<close>

theorem half_trigger_exact:
  assumes "\<forall>r \<in> set all. sr_channel r < 3 \<and> sr_layer r < NLAYERS" and "length ns = NLAYERS"
    and "\<forall>n \<in> set ns. n < 2 ^ 24" and "length all < 2 ^ 24"
  shows "(needs_repair all ns 0x3F000000 :: ('e, _) res) =
    Inr (list_ex (\<lambda>(c, l). K < ns ! l \<and> 2 * count_in c l all < ns ! l + K) (List.product [0..<3] [0..<NLAYERS]))"
proof -
  obtain live where live: "(live_counts all :: ('e, _) res) = Inr live"
    and cnt: "\<forall>c < 3. \<forall>l < NLAYERS. live ! c ! l = replicate 3 (replicate NLAYERS 0) ! c ! l + count_in c l all"
    using count_loop[OF assms(1), of "replicate 3 (replicate NLAYERS 0)", where 'e = 'e] unfolding live_counts_def by auto
  have low: "layer_low 0x3F000000 (ns ! l) (live ! c ! l) \<longleftrightarrow> K < ns ! l \<and> 2 * count_in c l all < ns ! l + K"
    if "c < 3" "l < NLAYERS" for c l
  proof -
    have "count_in c l all \<le> length all" by (simp add: count_in_def)
    moreover have "live ! c ! l = count_in c l all" using cnt that by simp
    ultimately show ?thesis using layer_low_half[of "ns ! l" "count_in c l all"] that assms(2-4) by simp
  qed
  show ?thesis using low by (simp add: needs_repair_def live list_ex_iff)
qed

theorem half_trigger_exact_witness:
  "(needs_repair [] [20, 16, 18, 17] 0x3F000000 :: (unit, _) res) = Inr True"
proof -
  have "NLAYERS = 4" by (simp add: NLAYERS_def LEVELS_def)
  then show ?thesis
    using half_trigger_exact[of "[]" "[20, 16, 18, 17]", where 'e = unit]
    by (simp add: count_in_def K_def upt_rec)
qed

end
