(* ===== verification/Admin.thy ===== *)
theory Admin
  imports Boot Forms
begin

text \<open>
  \<open>holofs-cli/src/bin/holofs-admin.rs\<close>, the tool that makes admin keys and signs the whitelist of a cluster, and the
  argument loop of \<open>holofs-node.rs\<close>. The world of a run is what reading each path gives and what was printed to
  standard output; messages on standard error are left out. \<open>Exit n\<close> is \<open>process::exit(n)\<close>; every \<open>expect\<close> is a panic.
  The tool's own \<open>parse_pubkey_hex\<close> is, line by line, that of \<open>bootstrap.rs\<close>.

  Parameters: Ed25519, the random seed of a new key, and whether a path can be written.
\<close>

section \<open>A run of the tool\<close>

datatype tool_exit = Exit nat

datatype tool_line = Line string | Written string

record tool_env =
  te_ed :: ed25519
  te_fresh :: bytes
  te_write :: "string \<Rightarrow> (io_error, unit) res"

record tool_world =
  tw_files :: "string \<Rightarrow> (io_error, bytes) res"
  tw_out :: "tool_line list"

type_synonym 'a tool = "(tool_world, tool_exit, 'a) act"

definition exits :: "nat \<Rightarrow> 'a tool" where
  "exits n = alift (Inl (Err (Exit n)))"

definition println :: "tool_line \<Rightarrow> unit tool" where
  "println l = amodify (\<lambda>w. w\<lparr>tw_out := tw_out w @ [l]\<rparr>)"

text \<open>\<open>path.exists()\<close>: a file that is there but cannot be read counts.\<close>

definition path_exists :: "string \<Rightarrow> tool_world \<Rightarrow> bool" where
  "path_exists p w \<longleftrightarrow> tw_files w p \<noteq> Inl (Err NotFound)"

text \<open>\<open>NodeIdentity::load_or_create(path).expect(..)\<close>.\<close>

definition open_identity :: "tool_env \<Rightarrow> string \<Rightarrow> bytes tool" where
  "open_identity env p = (\<lambda>w. case load_or_create (tw_files w p) (te_fresh env) (te_write env p) of
     Inl _ \<Rightarrow> (Inl Panic, w)
   | Inr (sk, None) \<Rightarrow> (Inr sk, w)
   | Inr (sk, Some bs) \<Rightarrow> (Inr sk, w\<lparr>tw_files := (tw_files w)(p := Inr bs)\<rparr>))"

definition read_file :: "string \<Rightarrow> bytes tool" where
  "read_file p = (\<lambda>w. case tw_files w p of Inr bs \<Rightarrow> (Inr bs, w) | Inl _ \<Rightarrow> (Inl Panic, w))"

definition write_file :: "tool_env \<Rightarrow> string \<Rightarrow> bytes \<Rightarrow> unit tool" where
  "write_file env p bs = (\<lambda>w. case te_write env p of
     Inr _ \<Rightarrow> (Inr (), w\<lparr>tw_files := (tw_files w)(p := Inr bs)\<rparr>) | Inl _ \<Rightarrow> (Inl Panic, w))"

definition expect_decoded :: "bytes \<Rightarrow> whitelist tool" where
  "expect_decoded bs = alift (case wl_decode bs of Inr wl \<Rightarrow> Inr wl | Inl _ \<Rightarrow> Inl Panic)"

section \<open>Arguments\<close>

text \<open>\<open>args.get(i + 1).cloned().unwrap_or_default()\<close>.\<close>

definition operand :: "string list \<Rightarrow> string" where
  "operand r = (case r of v # _ \<Rightarrow> v | [] \<Rightarrow> [])"

definition parse_node_spec :: "string \<Rightarrow> ('e, wl_entry option) res" where
  "parse_node_spec spec = (case split_once (CHR ''='') spec of
     None \<Rightarrow> Inr None
   | Some (addr, rest) \<Rightarrow> (case rsplit_at (CHR '':'') rest of
       None \<Rightarrow> Inr None
     | Some (key, zone) \<Rightarrow> (case parse_below 256 zone of
         None \<Rightarrow> Inr None
       | Some z \<Rightarrow> rbind (parse_pubkey_hex key) (\<lambda>k.
           Inr (map_option (\<lambda>pk. \<lparr>wl_addr = addr, wl_pubkey = pk, wl_zone = word_of_nat z\<rparr>) k)))))"

record sign_options =
  so_admin :: "string option"
  so_out :: "string option"
  so_nodes :: "wl_entry list"

fun sign_arguments :: "string list \<Rightarrow> sign_options \<Rightarrow> (tool_exit, sign_options) res" where
  "sign_arguments [] so = Inr so"
| "sign_arguments (a # r) so =
     (if a = ''--admin'' then sign_arguments (drop 1 r) (so\<lparr>so_admin := Some (operand r)\<rparr>)
      else if a = ''--out'' then sign_arguments (drop 1 r) (so\<lparr>so_out := Some (operand r)\<rparr>)
      else if a = ''--node'' then rbind (parse_node_spec (operand r)) (\<lambda>e. case e of
          Some e \<Rightarrow> sign_arguments (drop 1 r) (so\<lparr>so_nodes := so_nodes so @ [e]\<rparr>)
        | None \<Rightarrow> Inl (Err (Exit 2)))
      else Inl (Err (Exit 2)))"

fun verify_arguments :: "string list \<Rightarrow> bytes option \<Rightarrow> (tool_exit, bytes option) res" where
  "verify_arguments [] expected = Inr expected"
| "verify_arguments (a # r) expected =
     (if a = ''--admin-pubkey'' then
        (case (parse_pubkey_hex (operand r) :: (tool_exit, bytes option) res) of
           Inr (Some k) \<Rightarrow> verify_arguments (drop 1 r) (Some k) | _ \<Rightarrow> Inl Panic)
      else verify_arguments r expected)"

section \<open>Commands\<close>

definition cmd_gen_key :: "tool_env \<Rightarrow> string list \<Rightarrow> unit tool" where
  "cmd_gen_key env args = (case args of
     [p] \<Rightarrow> abind aget (\<lambda>w.
       if path_exists p w then exits 1
       else abind (open_identity env p) (\<lambda>sk.
            abind (println (Written p)) (\<lambda>_. println (Line (''pubkey '' @ hex (pubkey (te_ed env) sk))))))
   | _ \<Rightarrow> exits 2)"

definition cmd_pubkey :: "tool_env \<Rightarrow> string list \<Rightarrow> unit tool" where
  "cmd_pubkey env args = (case args of
     [p] \<Rightarrow> abind (open_identity env p) (\<lambda>sk. println (Line (hex (pubkey (te_ed env) sk))))
   | _ \<Rightarrow> exits 2)"

definition cmd_sign_whitelist :: "tool_env \<Rightarrow> string list \<Rightarrow> unit tool" where
  "cmd_sign_whitelist env args =
     abind (alift (sign_arguments args \<lparr>so_admin = None, so_out = None, so_nodes = []\<rparr>)) (\<lambda>so.
     case so_admin so of None \<Rightarrow> exits 2 | Some admin_path \<Rightarrow>
     (case so_out so of None \<Rightarrow> exits 2 | Some out_path \<Rightarrow>
     if so_nodes so = [] then exits 2
     else abind (open_identity env admin_path) (\<lambda>sk.
       let wl = wl_sign (te_ed env) (so_nodes so) sk in
       abind (write_file env out_path (wl_encode wl)) (\<lambda>_.
       abind (println (Line (''wrote '' @ out_path))) (\<lambda>_.
       abind (println (Line (''admin pubkey: '' @ hex (wl_admin_pubkey wl)))) (\<lambda>_.
       println (Line (dec_string (length (wl_entries wl)) @ '' nodes signed''))))))))"

definition cmd_verify_whitelist :: "tool_env \<Rightarrow> string list \<Rightarrow> unit tool" where
  "cmd_verify_whitelist env args = (case args of
     [] \<Rightarrow> exits 2
   | p # r \<Rightarrow> abind (read_file p) (\<lambda>bs. abind (expect_decoded bs) (\<lambda>wl.
       abind (alift (verify_arguments r None)) (\<lambda>expected.
       if wl_verify (te_ed env) expected wl then println (Line ''ok'') else exits 1))))"

text \<open>\<open>{:<22}\<close> pads to 22 characters, which are the bytes that do not continue one.\<close>

definition pad_left_aligned :: "nat \<Rightarrow> string \<Rightarrow> string" where
  "pad_left_aligned n s = s @ replicate (n - length (filter (\<lambda>c. \<not> cont_byte (of_char c)) s)) (CHR '' '')"

definition show_entry :: "wl_entry \<Rightarrow> tool_line" where
  "show_entry e = Line (''  '' @ pad_left_aligned 22 (wl_addr e) @ '' zone='' @ dec_string (unat (wl_zone e)) @
     '' pubkey='' @ hex (wl_pubkey e))"

definition cmd_show_whitelist :: "tool_env \<Rightarrow> string list \<Rightarrow> unit tool" where
  "cmd_show_whitelist env args = (case args of
     [p] \<Rightarrow> abind (read_file p) (\<lambda>bs. abind (expect_decoded bs) (\<lambda>wl.
       abind (println (Line (''admin pubkey: '' @ hex (wl_admin_pubkey wl)))) (\<lambda>_.
       abind (println (Line (''entries: '' @ dec_string (length (wl_entries wl))))) (\<lambda>_.
       abind (afold (\<lambda>_ e. println (show_entry e)) () (wl_entries wl)) (\<lambda>_.
       println (Line (''signature valid: '' @ (if wl_verify (te_ed env) None wl then ''yes'' else ''NO''))))))))
   | _ \<Rightarrow> exits 2)"

definition admin_main :: "tool_env \<Rightarrow> string list \<Rightarrow> unit tool" where
  "admin_main env args = (case args of
     [] \<Rightarrow> exits 2
   | c # r \<Rightarrow>
       if c = ''gen-key'' then cmd_gen_key env r
       else if c = ''pubkey'' then cmd_pubkey env r
       else if c = ''sign-whitelist'' then cmd_sign_whitelist env r
       else if c = ''verify-whitelist'' then cmd_verify_whitelist env r
       else if c = ''show-whitelist'' then cmd_show_whitelist env r
       else if c \<in> {''--help'', ''-h'', ''help''} then aret ()
       else exits 2)"

section \<open>The node daemon\<close>

text \<open>The loop over the arguments of \<open>holofs-node\<close>: the address and the storage directory, or \<open>None\<close> for the usage text.\<close>

fun node_arguments :: "string list \<Rightarrow> string option \<Rightarrow> string option \<Rightarrow> (tool_exit, (string \<times> string option) option) res" where
  "node_arguments [] addr storage = Inr (Some (case addr of Some a \<Rightarrow> a | None \<Rightarrow> ''127.0.0.1:5000'', storage))"
| "node_arguments (a # r) addr storage =
     (if a = ''--storage'' then (case r of [] \<Rightarrow> Inl (Err (Exit 2)) | d # r' \<Rightarrow> node_arguments r' addr (Some d))
      else if a = ''--help'' \<or> a = ''-h'' then Inr None
      else if addr = None then node_arguments r (Some a) storage
      else Inl (Err (Exit 2)))"

section \<open>Specifications of nodes\<close>

lemma hex_digit_reads: "n < 16 \<Longrightarrow> hex_val (hex_digit n) = Some n \<and> hex_digit n \<notin> {CHR ''+'', CHR ''='', CHR '':''} \<and>
    \<not> cont_byte (of_char (hex_digit n))"
proof -
  have "\<forall>n \<in> set [0..<16]. hex_val (hex_digit n) = Some n \<and> hex_digit n \<notin> {CHR ''+'', CHR ''='', CHR '':''} \<and>
      \<not> cont_byte (of_char (hex_digit n))"
    by (simp add: upt_rec hex_digit_def hex_val_def cont_byte_def)
  moreover assume "n < 16"
  ultimately show ?thesis by simp
qed

lemma hex_Cons: "hex (b # bs) = hex_digit (unat b div 16) # hex_digit (unat b mod 16) # hex bs"
  by (simp add: hex_def)

lemma not_inside_hex: "\<not> inside_char (hex bs)"
proof (cases bs)
  case (Cons b r)
  have "unat b div 16 < 16" using unat_byte_less[of b] by simp
  from hex_digit_reads[OF this] show ?thesis by (simp add: Cons hex_Cons inside_char_def)
qed (simp add: hex_def inside_char_def)

lemma key_bytes_hex: "key_bytes (hex bs) = Inr (Some bs)"
proof (induction bs)
  case (Cons b bs)
  have lt: "unat b div 16 < 16" "unat b mod 16 < 16" using unat_byte_less[of b] by simp_all
  have "radix16 (hex_digit (unat b div 16)) (hex_digit (unat b mod 16)) = Some (word_of_nat (unat b div 16 * 16 + unat b mod 16))"
    using hex_digit_reads[OF lt(1)] hex_digit_reads[OF lt(2)] by (simp add: radix16_def)
  moreover have "unat b div 16 * 16 + unat b mod 16 = unat b" by simp
  ultimately show ?case
    using not_inside_hex[of "b # bs"] not_inside_hex[of bs] Cons.IH by (simp add: hex_Cons)
qed (simp add: hex_def)

lemma parse_hex: "length pk = 32 \<Longrightarrow> parse_pubkey_hex (hex pk) = Inr (Some pk)"
  by (simp add: parse_pubkey_hex_def PUBKEY_LEN_def length_hex key_bytes_hex)

text \<open>The text \<open>ADDR=PUBKEY_HEX:ZONE\<close> that the tool documents.\<close>

definition entry_spec :: "wl_entry \<Rightarrow> string" where
  "entry_spec e = wl_addr e @ ''='' @ hex (wl_pubkey e) @ '':'' @ dec_string (unat (wl_zone e))"

lemma split_once_first: "c \<notin> set a \<Longrightarrow> split_once c (a @ c # b) = Some (a, b)"
  by (simp add: split_once_def takeWhile_append dropWhile_append)

lemma rsplit_at_last: "c \<notin> set b \<Longrightarrow> rsplit_at c (a @ c # b) = Some (a, b)"
  using split_once_first[of c "rev b" "rev a"] by (simp add: rsplit_at_def)

lemma dec_no_colon: "CHR '':'' \<notin> set (dec_string n)"
proof (induction n rule: dec_string.induct)
  case (1 n)
  have digit: "''0123456789'' ! d \<noteq> CHR '':''" if "d < 10" for d
  proof -
    have "\<forall>d \<in> set [0..<10]. ''0123456789'' ! d \<noteq> CHR '':''" by (simp add: upt_rec)
    with that show ?thesis by simp
  qed
  from 1 digit[of n] digit[of "n mod 10"] show ?case by (cases "n < 10") (auto simp: dec_string.simps[of n])
qed

lemma parse_spec: "CHR ''='' \<notin> set (wl_addr e) \<Longrightarrow> length (wl_pubkey e) = 32 \<Longrightarrow> parse_node_spec (entry_spec e) = Inr (Some e)"
  using split_once_first[of "CHR ''=''" "wl_addr e" "hex (wl_pubkey e) @ CHR '':'' # dec_string (unat (wl_zone e))"]
    rsplit_at_last[OF dec_no_colon, of "hex (wl_pubkey e)" "unat (wl_zone e)"] unat_byte_less[of "wl_zone e"]
  by (simp add: parse_node_spec_def entry_spec_def parse_hex parse_dec)

lemma sign_arguments_nodes:
  assumes "\<forall>e \<in> set es. CHR ''='' \<notin> set (wl_addr e) \<and> length (wl_pubkey e) = 32"
  shows "sign_arguments (concat (map (\<lambda>e. [''--node'', entry_spec e]) es)) so = Inr (so\<lparr>so_nodes := so_nodes so @ es\<rparr>)"
  using assms by (induction es arbitrary: so) (simp_all add: operand_def parse_spec)

section \<open>Signing and verifying\<close>

text \<open>\<open>sign-whitelist\<close> on arguments as documented, once the key is there or made.\<close>

definition sign_command :: "string \<Rightarrow> string \<Rightarrow> wl_entry list \<Rightarrow> string list" where
  "sign_command adm out es =
     [''sign-whitelist'', ''--admin'', adm, ''--out'', out] @ concat (map (\<lambda>e. [''--node'', entry_spec e]) es)"

lemma sign_command_run:
  assumes "\<forall>e \<in> set es. CHR ''='' \<notin> set (wl_addr e) \<and> length (wl_pubkey e) = 32" and "es \<noteq> []"
    and "open_identity env adm w = (Inr sk, w1)" and "te_write env out = Inr ()"
  shows "admin_main env (sign_command adm out es) w =
    (Inr (), w1\<lparr>tw_files := (tw_files w1)(out := Inr (wl_encode (wl_sign (te_ed env) es sk))),
      tw_out := tw_out w1 @ [Line (''wrote '' @ out), Line (''admin pubkey: '' @ hex (ed_pub (te_ed env) sk)),
        Line (dec_string (length es) @ '' nodes signed'')]\<rparr>)"
  using assms sign_arguments_nodes[OF assms(1), of "\<lparr>so_admin = Some adm, so_out = Some out, so_nodes = []\<rparr>"]
  by (simp add: admin_main_def sign_command_def cmd_sign_whitelist_def operand_def abind_step write_file_def println_def
    abind_amodify abind_def wl_sign_def Let_def pubkey_def)

lemma open_identity_present: "tw_files w p = Inr sk \<Longrightarrow> length sk = 32 \<Longrightarrow> open_identity env p w = (Inr sk, w)"
  by (simp add: open_identity_def load_or_create_def)

lemma open_identity_absent:
  "tw_files w p = Inl (Err NotFound) \<Longrightarrow> te_write env p = Inr () \<Longrightarrow>
   open_identity env p w = (Inr (te_fresh env), w\<lparr>tw_files := (tw_files w)(p := Inr (te_fresh env))\<rparr>)"
  by (simp add: open_identity_def load_or_create_def)

lemma verify_command_run:
  assumes "tw_files w out = Inr (wl_encode wl)" and "wl_ok wl" and "length pk = 32"
  shows "admin_main env [''verify-whitelist'', out, ''--admin-pubkey'', hex pk] w =
    (if wl_verify (te_ed env) (Some pk) wl then (Inr (), w\<lparr>tw_out := tw_out w @ [Line ''ok'']\<rparr>) else (Inl (Err (Exit 1)), w))"
  using assms by (simp add: admin_main_def cmd_verify_whitelist_def abind_def read_file_def expect_decoded_def wl_decode_encode
    operand_def parse_hex println_def exits_def)

theorem signed_whitelist_verifies:
  assumes "ed_correct (te_ed env) sk" and "tw_files w adm = Inr sk" and "length sk = 32" and "te_write env out = Inr ()"
    and "es \<noteq> []" and "length es < 2 ^ 32" and "\<forall>e \<in> set es. wl_entry_ok e \<and> CHR ''='' \<notin> set (wl_addr e)"
    and "admin_main env (sign_command adm out es) w = (r, w')" and "length pk = 32"
  shows "r = Inr () \<and> tw_files w' = (tw_files w)(out := Inr (wl_encode (wl_sign (te_ed env) es sk))) \<and>
    admin_main env [''verify-whitelist'', out, ''--admin-pubkey'', hex pk] w' =
      (if pk = ed_pub (te_ed env) sk then (Inr (), w'\<lparr>tw_out := tw_out w' @ [Line ''ok'']\<rparr>) else (Inl (Err (Exit 1)), w'))"
proof -
  have specs: "\<forall>e \<in> set es. CHR ''='' \<notin> set (wl_addr e) \<and> length (wl_pubkey e) = 32"
    using assms(7) by (simp add: wl_entry_ok_def)
  note run = sign_command_run[OF specs assms(5) open_identity_present[OF assms(2,3)] assms(4)]
  then have fin: "r = Inr ()" "tw_files w' = (tw_files w)(out := Inr (wl_encode (wl_sign (te_ed env) es sk)))"
    using assms(8) by auto
  have "wl_ok (wl_sign (te_ed env) es sk)"
    using assms(1,6,7) by (simp add: wl_ok_def wl_sign_def Let_def ed_correct_def pubkey_def sign_blob_def list_all_iff)
  from verify_command_run[OF _ this assms(9), of w' out env] fin(2)
  have "admin_main env [''verify-whitelist'', out, ''--admin-pubkey'', hex pk] w' =
    (if wl_verify (te_ed env) (Some pk) (wl_sign (te_ed env) es sk) then (Inr (), w'\<lparr>tw_out := tw_out w' @ [Line ''ok'']\<rparr>)
     else (Inl (Err (Exit 1)), w'))" by simp
  moreover have "wl_verify (te_ed env) (Some pk) (wl_sign (te_ed env) es sk) \<longleftrightarrow> pk = ed_pub (te_ed env) sk"
    using assms(1) by (auto simp: wl_verify_def wl_sign_def Let_def verify_blob_def sign_blob_def pubkey_def ed_correct_def)
  ultimately show ?thesis using fin by simp
qed

text \<open>A mistyped \<open>--admin\<close> path: instead of an error, a new key is made and the cluster signed with it.\<close>

theorem absent_admin_key_invented:
  assumes "tw_files w adm = Inl (Err NotFound)" and "te_write env adm = Inr ()" and "te_write env out = Inr ()" and "out \<noteq> adm"
    and "es \<noteq> []" and "\<forall>e \<in> set es. wl_entry_ok e \<and> CHR ''='' \<notin> set (wl_addr e)"
    and "admin_main env (sign_command adm out es) w = (r, w')"
  shows "r = Inr () \<and> tw_files w' adm = Inr (te_fresh env) \<and>
    tw_files w' out = Inr (wl_encode (wl_sign (te_ed env) es (te_fresh env))) \<and>
    admin_main env [''gen-key'', adm] w' = (Inl (Err (Exit 1)), w')"
proof -
  have specs: "\<forall>e \<in> set es. CHR ''='' \<notin> set (wl_addr e) \<and> length (wl_pubkey e) = 32"
    using assms(6) by (simp add: wl_entry_ok_def)
  from sign_command_run[OF specs assms(5) open_identity_absent[OF assms(1,2)] assms(3)] assms(4,7)
  have "r = Inr ()" "tw_files w' adm = Inr (te_fresh env)"
    "tw_files w' out = Inr (wl_encode (wl_sign (te_ed env) es (te_fresh env)))" by auto
  then show ?thesis
    by (simp add: admin_main_def cmd_gen_key_def abind_aget path_exists_def exits_def)
qed

text \<open>A run for the witnesses: one node, a toy signature scheme, everything writable.\<close>

definition demo_tool :: tool_env where
  "demo_tool = \<lparr>te_ed = toy_ed (\<lambda>_. True), te_fresh = replicate 32 7, te_write = (\<lambda>_. Inr ())\<rparr>"

definition demo_nodes :: "wl_entry list" where
  "demo_nodes = [\<lparr>wl_addr = ''n1:5000'', wl_pubkey = replicate 32 9, wl_zone = 3\<rparr>]"

definition demo_files :: "(io_error, bytes) res \<Rightarrow> tool_world" where
  "demo_files key = \<lparr>tw_files = (\<lambda>_. Inl (Err NotFound))(''admin.key'' := key), tw_out = []\<rparr>"

lemma demo_nodes_ok: "\<forall>e \<in> set demo_nodes. wl_entry_ok e \<and> CHR ''='' \<notin> set (wl_addr e)" "demo_nodes \<noteq> []" "length demo_nodes < 2 ^ 32"
  by (simp_all add: demo_nodes_def wl_entry_ok_def str16_ok_def str_ok_def as_bytes_def)

theorem signed_whitelist_verifies_witness:
  "let w' = snd (admin_main demo_tool (sign_command ''admin.key'' ''c.wl'' demo_nodes) (demo_files (Inr (replicate 32 5)))) in
     fst (admin_main demo_tool [''verify-whitelist'', ''c.wl'', ''--admin-pubkey'', hex (replicate 32 1)] w') = Inr () \<and>
     fst (admin_main demo_tool [''verify-whitelist'', ''c.wl'', ''--admin-pubkey'', hex (replicate 32 2)] w') = Inl (Err (Exit 1))"
proof -
  obtain r w' where run: "admin_main demo_tool (sign_command ''admin.key'' ''c.wl'' demo_nodes) (demo_files (Inr (replicate 32 5))) = (r, w')"
    by force
  have h: "ed_correct (te_ed demo_tool) (replicate 32 5)" "tw_files (demo_files (Inr (replicate 32 5))) ''admin.key'' = Inr (replicate 32 5)"
    "te_write demo_tool ''c.wl'' = Inr ()" "length (replicate 32 (5 :: u8)) = 32" "ed_pub (te_ed demo_tool) (replicate 32 5) = replicate 32 1"
    by (simp_all add: demo_tool_def demo_files_def ed_correct_def)
  note app = signed_whitelist_verifies[OF h(1,2,4,3) demo_nodes_ok(2,3,1) run]
  from app[of "replicate 32 1"] app[of "replicate 32 2"] h(5) show ?thesis by (simp add: run Let_def)
qed

theorem absent_admin_key_invented_witness:
  "tw_files (snd (admin_main demo_tool (sign_command ''admni.key'' ''c.wl'' demo_nodes) (demo_files (Inr (replicate 32 5))))) ''admni.key'' =
     Inr (replicate 32 7)"
proof -
  obtain r w' where run: "admin_main demo_tool (sign_command ''admni.key'' ''c.wl'' demo_nodes) (demo_files (Inr (replicate 32 5))) = (r, w')"
    by force
  have h: "tw_files (demo_files (Inr (replicate 32 5))) ''admni.key'' = Inl (Err NotFound)" "te_write demo_tool ''admni.key'' = Inr ()"
    "te_write demo_tool ''c.wl'' = Inr ()" "''c.wl'' \<noteq> ''admni.key''" "te_fresh demo_tool = replicate 32 7"
    by (simp_all add: demo_tool_def demo_files_def)
  from absent_admin_key_invented[OF h(1-4) demo_nodes_ok(2,1) run] h(5) show ?thesis by (simp add: run)
qed

end
