(* ===== verification/Pages.thy ===== *)
theory Pages
  imports Http
begin

text \<open>
  The server functions of the web pages (\<open>lib.rs\<close>, \<open>health.rs\<close>, \<open>inspect.rs\<close>, \<open>similar.rs\<close> and \<open>diff.rs\<close> of \<open>holofs-web\<close>),
  which turn results of the gateway into what a page shows, the paths and links of the catalog page, and
  \<open>LossScenario::pmf\<close> of \<open>holofs-cluster/src/health.rs\<close>. A server function fails with the text of the gateway's error,
  which stays a constructor here. The HTML around the values is left out.

  Shown: the page of a directory lists exactly its children, directories first, each under its last segment, and
  the trail above it leads through exactly its ancestors.
\<close>

section \<open>The catalog page\<close>

record page_entry =
  pe_name :: string
  pe_kind :: string
  pe_content_type :: string
  pe_width :: u32
  pe_height :: u32
  pe_n_shards :: u32
  pe_cid_short :: string
  pe_rate :: u32
  pe_channels :: u8

definition from_manifest :: "string \<Rightarrow> manifest \<Rightarrow> page_entry" where
  "from_manifest name m =
     \<lparr>pe_name = name, pe_kind = kind_label (m_kind m), pe_content_type = m_content_type m, pe_width = m_width m,
      pe_height = m_height m, pe_n_shards = sum_list (m_n_per_layer m) * ucast (m_channels m),
      pe_cid_short = take 12 (hex (m_data_cid m)), pe_rate = m_audio_sample_rate m, pe_channels = m_channels m\<rparr>"

definition get_catalog :: "gateway \<Rightarrow> page_entry list" where
  "get_catalog g = sort_key pe_name (map (\<lambda>(name, m). from_manifest name m) (gw_catalog g))"

text \<open>The order of a listing: directories before objects, both by name.\<close>

datatype list_rank = ListRank bool string

instantiation list_rank :: linorder
begin

fun less_eq_list_rank :: "list_rank \<Rightarrow> list_rank \<Rightarrow> bool" where
  "less_eq_list_rank (ListRank d n) (ListRank d' n') \<longleftrightarrow> (if d = d' then n \<le> n' else d)"

definition less_list_rank :: "list_rank \<Rightarrow> list_rank \<Rightarrow> bool" where
  "less_list_rank a b \<longleftrightarrow> a \<le> b \<and> \<not> b \<le> a"

instance
proof
  fix x y z :: list_rank
  show "x < y \<longleftrightarrow> x \<le> y \<and> \<not> y \<le> x" by (rule less_list_rank_def)
  show "x \<le> x" by (cases x) simp
  show "x \<le> z" if "x \<le> y" "y \<le> z" using that by (cases x; cases y; cases z) (auto split: if_splits)
  show "x = y" if "x \<le> y" "y \<le> x" using that by (cases x; cases y) (auto split: if_splits)
  show "x \<le> y \<or> y \<le> x" by (cases x; cases y) auto
qed

end

definition entry_rank :: "page_entry \<Rightarrow> list_rank" where
  "entry_rank e = ListRank (pe_kind e = ''directory'') (pe_name e)"

definition page_list_dir :: "string \<Rightarrow> gateway \<Rightarrow> (gateway_error, page_entry list) res" where
  "page_list_dir dir g = rbind (list_dir dir (gw_catalog g)) (\<lambda>children.
     Inr (sort_key entry_rank (map (\<lambda>(name, m). from_manifest name m) children)))"

text \<open>The name on a card: \<open>name.get(cut..)\<close> is \<open>None\<close> outside the string or inside a character.\<close>

definition card_basename :: "string \<Rightarrow> string \<Rightarrow> string" where
  "card_basename parent_path name =
     (if parent_path = [] then name
      else let cut_at = length parent_path + 1 in
        if cut_at \<le> length name \<and> is_char_boundary (as_bytes name) cut_at then drop cut_at name else name)"

definition crumb_step :: "string \<Rightarrow> string \<times> (string \<times> string) list \<Rightarrow> string \<times> (string \<times> string) list" where
  "crumb_step s st = (case st of (so_far, trail) \<Rightarrow>
     let so_far = (if so_far = [] then [] else so_far @ [slash]) @ s in (so_far, trail @ [(s, so_far)]))"

definition breadcrumb_trail :: "string \<Rightarrow> (string \<times> string) list" where
  "breadcrumb_trail dir = (if dir = [] then [] else snd (fold crumb_step (split_slash dir) ([], [])))"

text \<open>The links of the trail; its last segment is plain text.\<close>

definition breadcrumb :: "string \<Rightarrow> (string \<times> string option) list" where
  "breadcrumb dir = (let trail = breadcrumb_trail dir in
     map (\<lambda>(i, seg, full). (seg, if i = length trail - 1 then None else Some (''/?p='' @ url_encode full))) (enumerate 0 trail))"

section \<open>The health pages\<close>

text \<open>\<open>LossScenario::pmf\<close>, as binary32 patterns.\<close>

definition pmf :: "loss_scenario \<Rightarrow> u32 list" where
  "pmf sc = (let n = f32_of_nat (max (unat (sc_n_trials sc)) 1) in map (\<lambda>c. f32_div (f32_of_nat (unat c)) n) (sc_dist sc))"

record loss_row =
  lr_kill_pct :: u8
  lr_n_trials :: u32
  lr_pmf :: "u32 list"

record object_health_view =
  ohv_name :: string
  ohv_object_id :: u64
  ohv_cid_hex :: string
  ohv_k :: u16
  ohv_channels :: u8
  ohv_nlayers :: u8
  ohv_n_live :: nat
  ohv_n_total :: nat
  ohv_resolution :: "u8 option"
  ohv_layers :: "layer_stats list"
  ohv_scenarios :: "loss_row list"
  ohv_zones :: "zone_failure list"

definition object_health_page :: "object_health \<Rightarrow> object_health_view" where
  "object_health_page h =
     \<lparr>ohv_name = oh_name h, ohv_object_id = oh_object_id h, ohv_cid_hex = hex (oh_data_cid h), ohv_k = oh_k h,
      ohv_channels = oh_channels h, ohv_nlayers = oh_nlayers h, ohv_n_live = oh_n_live h, ohv_n_total = oh_n_nodes h,
      ohv_resolution = oh_resolution h, ohv_layers = oh_layers h,
      ohv_scenarios = map (\<lambda>s. \<lparr>lr_kill_pct = sc_kill_pct s, lr_n_trials = sc_n_trials s, lr_pmf = pmf s\<rparr>) (oh_scenarios h),
      ohv_zones = oh_zone_failures h\<rparr>"

definition get_object_health :: "'w env \<Rightarrow> string \<Rightarrow> ('w, object_health_view) gw" where
  "get_object_health env name = abind (gw_object_health env name) (\<lambda>h. aret (object_health_page h))"

section \<open>The inspector\<close>

record inspect_view =
  iv_name :: string
  iv_kind :: string
  iv_channels :: u8
  iv_nlayers :: u8
  iv_k :: u16
  iv_layers :: "layer_layout_data list"

definition inspect_to_view :: "inspect_info \<Rightarrow> inspect_view" where
  "inspect_to_view i = \<lparr>iv_name = ii_name i, iv_kind = kind_label (ii_kind i), iv_channels = ii_channels i,
     iv_nlayers = ii_nlayers i, iv_k = ii_k i, iv_layers = ii_layers i\<rparr>"

definition get_inspect :: "string \<Rightarrow> ('w, inspect_view) gw" where
  "get_inspect name = abind (inspect name) (\<lambda>i. aret (inspect_to_view i))"

text \<open>Only ever called for lines of 16.\<close>

definition hex_block :: "bytes \<Rightarrow> nat \<Rightarrow> string" where
  "hex_block bs per_line = concat (map (\<lambda>(i, b).
     (if 0 < i \<and> i mod per_line = 0 then [CHR 0x0A] else []) @ hex [b] @ '' '') (enumerate 0 bs))"

record zoom_shard =
  zs_coeffs_hex :: string
  zs_payload_len :: nat
  zs_preview_hex :: string

record zoom_view =
  zv_name :: string
  zv_channel :: u8
  zv_layer :: u8
  zv_idx :: u32
  zv_systematic :: bool
  zv_node :: nat
  zv_addr :: string
  zv_sym_len :: u32
  zv_hash_hex :: string
  zv_shard :: "zoom_shard option"

text \<open>What is shown of a shard that could not be fetched: its place in the layout.\<close>

definition layout_place :: "inspect_info \<Rightarrow> u8 \<Rightarrow> u8 \<Rightarrow> u32 \<Rightarrow> nat \<times> string \<times> u32 \<times> bool \<times> string" where
  "layout_place i c l idx =
     (let shard = (case find (\<lambda>ly. ll_channel ly = c \<and> ll_layer ly = l) (ii_layers i) of
            None \<Rightarrow> None | Some ly \<Rightarrow> find (\<lambda>s. si_idx s = idx) (ll_shards ly))
      in (case shard of
            Some s \<Rightarrow> (si_node s, si_addr s, 0, si_systematic s, [])
          | None \<Rightarrow> (0, [], 0, idx < ucast (ii_k i), [])))"

definition zoom_place :: "shard_payload_data option \<Rightarrow> inspect_info \<Rightarrow> u8 \<Rightarrow> u8 \<Rightarrow> u32 \<Rightarrow> nat \<times> string \<times> u32 \<times> bool \<times> string" where
  "zoom_place p i c l idx = (case p of
     Some p \<Rightarrow> (sp_node p, sp_addr p, sp_sym_len p, sp_systematic p, sp_hash_hex p)
   | None \<Rightarrow> layout_place i c l idx)"

definition get_inspect_zoom :: "'w env \<Rightarrow> string \<Rightarrow> u8 \<Rightarrow> u8 \<Rightarrow> u32 \<Rightarrow> ('w, zoom_view) gw" where
  "get_inspect_zoom env name c l idx =
     abind (shard_payload env name c l idx) (\<lambda>p.
     abind (inspect name) (\<lambda>i. case zoom_place p i c l idx of (node, addr, symbols, is_sys, hash) \<Rightarrow>
       aret \<lparr>zv_name = name, zv_channel = c, zv_layer = l, zv_idx = idx, zv_systematic = is_sys, zv_node = node,
         zv_addr = addr, zv_sym_len = symbols, zv_hash_hex = hash,
         zv_shard = map_option (\<lambda>p. \<lparr>zs_coeffs_hex = hex_block (sp_coeffs p) 16, zs_payload_len = length (sp_payload p),
           zs_preview_hex = hex_block (take 64 (sp_payload p)) 16\<rparr>) p\<rparr>))"

section \<open>Similar objects and differences\<close>

record similar_view =
  siv_name :: string
  siv_kind :: string
  siv_fingerprint_hex :: string
  siv_minhash_k :: nat
  siv_total_shards :: nat
  siv_neighbors :: "similar_match list"
  siv_overlaps :: "overlap_info list"

definition get_similar :: "'w env \<Rightarrow> string \<Rightarrow> ('w, similar_view) gw" where
  "get_similar env name = abind (similar_to env name) (\<lambda>r. aret
     \<lparr>siv_name = similar_report.sr_name r, siv_kind = kind_label (sr_kind r), siv_fingerprint_hex = sr_hex r, siv_minhash_k = sr_minhash_k r,
      siv_total_shards = sr_total_shards r, siv_neighbors = sr_neighbors r, siv_overlaps = sr_overlaps r\<rparr>)"

record diff_view =
  dv_name_a :: string
  dv_name_b :: string
  dv_kind :: string
  dv_common :: nat
  dv_total :: nat
  dv_pct :: u32
  dv_saved_kb :: u64
  dv_layers :: "diff_layer_view list"

definition get_diff :: "string \<Rightarrow> string \<Rightarrow> ('w, diff_view) gw" where
  "get_diff a b = abind (diff_chunks a b) (\<lambda>r. aret
     \<lparr>dv_name_a = dr_name_a r, dv_name_b = dr_name_b r, dv_kind = kind_label (dr_kind r), dv_common = dr_common r,
      dv_total = dr_total r, dv_pct = dr_pct r, dv_saved_kb = dr_saved r div 1024, dv_layers = dr_layers r\<rparr>)"

section \<open>Trails and cards\<close>

lemma crumb_fold:
  assumes "segs \<noteq> []" and "[] \<notin> set segs"
  shows "fold crumb_step segs ([], []) = (path_of segs, map (\<lambda>i. (segs ! i, path_of (take (Suc i) segs))) [0..<length segs])"
  using assms
proof (induction segs rule: rev_induct)
  case (snoc s segs)
  show ?case
  proof (cases "segs = []")
    case True
    with snoc.prems show ?thesis by (simp add: crumb_step_def Let_def)
  next
    case False
    then have ne: "path_of segs \<noteq> []" using snoc.prems by (cases segs; cases "tl segs") auto
    have "fold crumb_step (segs @ [s]) ([], []) = crumb_step s (path_of segs, map (\<lambda>i. (segs ! i, path_of (take (Suc i) segs))) [0..<length segs])"
      using snoc False by simp
    also have "\<dots> = (path_of (segs @ [s]), map (\<lambda>i. ((segs @ [s]) ! i, path_of (take (Suc i) (segs @ [s])))) [0..<length segs] @ [(s, path_of (segs @ [s]))])"
      using ne False by (auto simp: crumb_step_def Let_def path_of_snoc nth_append)
    finally show ?thesis by simp
  qed
qed simp

lemma trail_ancestors:
  assumes "valid_path p" shows "breadcrumb_trail p = map (\<lambda>q. (basename q, q)) (ancestors p @ [p])"
proof -
  let ?s = "split_slash p"
  have good: "list_all good_segment ?s" using assms by (simp add: valid_path_def validate_Inr)
  then have segs: "?s \<noteq> []" "[] \<notin> set ?s" and plain: "list_all plain ?s"
    by (auto simp: list_all_iff good_segment_def)
  have p: "p \<noteq> []" using assms valid_not_Nil by blast
  have base: "basename (path_of (take (Suc i) ?s)) = ?s ! i" if "i < length ?s" for i
  proof -
    have t: "take (Suc i) ?s \<noteq> []" "list_all plain (take (Suc i) ?s)" using that plain by (auto simp: list_all_iff dest: in_set_takeD)
    show ?thesis
      using rsplit_path_of[OF t] that by (auto simp: basename_def take_Suc_conv_app_nth split: if_splits)
  qed
  have "breadcrumb_trail p = map (\<lambda>i. (?s ! i, path_of (take (Suc i) ?s))) [0..<length ?s]"
    using crumb_fold[OF segs] p by (simp add: breadcrumb_trail_def)
  also have "\<dots> = map (\<lambda>i. (basename (path_of (take (Suc i) ?s)), path_of (take (Suc i) ?s))) [0..<length ?s]"
    using base by simp
  also have "\<dots> = map (\<lambda>q. (basename q, q)) (map (\<lambda>i. path_of (take i ?s)) (map Suc [0..<length ?s]))"
    by simp
  also have "map Suc [0..<length ?s] = [1..<length ?s] @ [length ?s]"
    using segs(1) by (simp add: map_Suc_upt Suc_le_eq)
  finally show ?thesis using segs(1) by (simp add: ancestors_split Suc_le_eq)
qed

lemma utf8_valid_start: "utf8_valid (b # bs) \<Longrightarrow> \<not> cont_byte b"
proof
  assume "utf8_valid (b # bs)" and c: "cont_byte b"
  then have "utf8_width (b # bs) \<noteq> None" by (subst (asm) utf8_valid.simps) (auto split: option.splits)
  moreover have "\<not> b < 0x80" "\<not> 0xC2 \<le> b" "\<not> 0xE0 \<le> b" "\<not> 0xF0 \<le> b"
    using c by (simp_all add: cont_byte_def word_le_nat_alt word_less_nat_alt)
  ultimately show False by (simp add: utf8_width_def)
qed

lemma str_ok_after_slash:
  assumes "str_ok (p @ slash # s)" shows "is_char_boundary (as_bytes (p @ slash # s)) (Suc (length p))"
proof -
  let ?b = "as_bytes (p @ slash # s)"
  have b: "?b = as_bytes p @ 0x2F # as_bytes s" by (simp add: as_bytes_def)
  have "is_char_boundary ?b (length p)" unfolding b by (simp add: is_char_boundary_def nth_append cont_byte_def)
  then have "utf8_valid (drop (length p) ?b)"
    using assms[unfolded str_ok_def] utf8_split[of ?b "length p"] by blast
  then have "utf8_valid (as_bytes s)" unfolding b by simp
  then have "\<not> cont_byte (hd (as_bytes s))" if "s \<noteq> []"
    using that by (cases "as_bytes s") (auto dest: utf8_valid_start)
  then show ?thesis unfolding b by (cases s) (auto simp: is_char_boundary_def nth_append as_bytes_def)
qed

lemma card_shows_basename:
  assumes "valid_path k" and "str_ok k" and "parent k = (if dir = [] then None else Some dir)"
  shows "card_basename dir k = basename k"
proof (cases "dir = []")
  case True
  with assms(3) show ?thesis by (simp add: card_basename_def basename_def parent_def)
next
  case False
  with assms(3) obtain s where k: "plain s" "k = dir @ slash # s" using parent_Some[of k dir] by auto
  with str_ok_after_slash[of dir s] assms(2) False show ?thesis
    by (simp add: card_basename_def basename_def rsplit_append)
qed

section \<open>The page of a directory\<close>

text \<open>the catalog page shows the tree. For the root or a directory of a catalog that is a tree, as every
  reachable one is, the page lists exactly the children, directories before objects and both by name, each card under the last segment
  of its path; and the trail above the list leads through exactly the ancestors of the directory.\<close>

theorem directory_page_exact:
  assumes "tree_ok (gw_catalog g)" and "\<forall>(k, m) \<in> set (gw_catalog g). str_ok k" and "dir = [] \<or> is_dir (gw_catalog g) dir"
  shows "(case page_list_dir dir g of
     Inl _ \<Rightarrow> False
   | Inr page \<Rightarrow> sorted (map entry_rank page) \<and>
       mset page = image_mset (\<lambda>(k, m). from_manifest k m)
         (filter_mset (\<lambda>(k, _). parent k = (if dir = [] then None else Some dir)) (mset (gw_catalog g))) \<and>
       (\<forall>e \<in> set page. card_basename dir (pe_name e) = basename (pe_name e))) \<and>
    breadcrumb_trail dir = (if dir = [] then [] else map (\<lambda>q. (basename q, q)) (ancestors dir @ [dir]))"
proof -
  note tree = assms(1)
  let ?children = "filter (\<lambda>(k, _). parent k = (if dir = [] then None else Some dir)) (gw_catalog g)"
  let ?page = "sort_key entry_rank (map (\<lambda>(name, m). from_manifest name m) ?children)"
  have page: "page_list_dir dir g = Inr ?page"
    using list_dir_spec[OF tree assms(3)] by (simp add: page_list_dir_def)
  have "card_basename dir (pe_name e) = basename (pe_name e)" if "e \<in> set ?page" for e
  proof -
    from that obtain k m where km: "(k, m) \<in> set (gw_catalog g)" "pe_name e = k"
      "parent k = (if dir = [] then None else Some dir)" by (auto simp: from_manifest_def)
    then have "valid_path k" using tree cat.items_get by (fastforce simp: tree_ok_def)
    with km assms(2) show ?thesis using card_shows_basename by auto
  qed
  moreover have "breadcrumb_trail dir = (if dir = [] then [] else map (\<lambda>q. (basename q, q)) (ancestors dir @ [dir]))"
  proof (cases "dir = []")
    case False
    then have "valid_path dir" using assms(3) tree by (auto simp: is_dir_def tree_ok_def)
    with False trail_ancestors show ?thesis by simp
  qed (simp add: breadcrumb_trail_def)
  ultimately show ?thesis by (simp add: page mset_filter)
qed

text \<open>A gateway with the directories \<open>a\<close> and \<open>a/b\<close>.\<close>

definition tree_gateway :: gateway where
  "tree_gateway = gateway_new tree_ab [] demo_cluster"

theorem directory_page_exact_witness:
  "(case page_list_dir ''a'' tree_gateway of Inl _ \<Rightarrow> False | Inr page \<Rightarrow> mset (map pe_name page) = {#''a/b''#}) \<and>
   breadcrumb_trail ''a'' = [(''a'', ''a'')]"
proof -
  have g: "gw_catalog tree_gateway = tree_ab" by (simp add: tree_gateway_def gateway_new_def)
  have h: "tree_ok (gw_catalog tree_gateway)" "\<forall>(k, m) \<in> set (gw_catalog tree_gateway). str_ok k"
    "''a'' = [] \<or> is_dir (gw_catalog tree_gateway) ''a''"
    unfolding g using tree_ab_ok
    by (simp_all add: is_dir_def get_ab dir_entry_def manifest_directory_def) (simp add: tree_ab_def str_ok_def as_bytes_def)
  note page = directory_page_exact[OF h, unfolded g]
  have "image_mset (\<lambda>(k, m). from_manifest k m) (filter_mset (\<lambda>(k, _). parent k = Some ''a'') (mset tree_ab)) =
      {#from_manifest ''a/b'' (dir_entry ''a/b'')#}"
    by (simp add: tree_ab_def parent_ab)
  with page[THEN conjunct1] have "case page_list_dir ''a'' tree_gateway of Inl _ \<Rightarrow> False
    | Inr page \<Rightarrow> mset page = {#from_manifest ''a/b'' (dir_entry ''a/b'')#}"
    by (simp split: sum.splits)
  then have "case page_list_dir ''a'' tree_gateway of Inl _ \<Rightarrow> False | Inr page \<Rightarrow> mset (map pe_name page) = {#''a/b''#}"
    by (auto simp: from_manifest_def split: sum.splits)
  moreover have "ancestors ''a'' = []" "basename ''a'' = ''a''" by (simp_all add: ancestors_split basename_def rsplit_once_def)
  ultimately show ?thesis using page[THEN conjunct2] by simp
qed

end
