(* ===== verification/Docs.thy ===== *)
theory Docs
  imports Forms
begin

text \<open>
  Languages and documentation of the web pages: \<open>i18n.rs\<close>, \<open>help.rs\<close> and \<open>help/renderer.rs\<close> of \<open>holofs-web\<close>. The rows of the
  translation table are an argument of the lookup. The files under \<open>docs\<close> are a function from paths to contents; the markdown parser and
  the HTML writer of the \<open>pulldown-cmark\<close> crate are parameters, and of its events those the renderer looks at have constructors.

  Shown: switching the language changes the \<open>lang\<close> parameter of an address and nothing else; whatever a client asks
  for, the documentation reads no file outside its inventory; what is drawn or typeset on the client is escaped.
\<close>

section \<open>Locales\<close>

definition is_known_locale :: "string \<Rightarrow> bool" where
  "is_known_locale l \<longleftrightarrow> l \<in> {''en'', ''ru'', ''de'', ''fr'', ''es''}"

definition primary_subtag :: "string \<Rightarrow> string" where
  "primary_subtag piece = to_lower (hd (split_on (CHR ''-'') (trim_unicode (hd (split_on (CHR '';'') piece)))))"

text \<open>One source of a locale: kept when it is known.\<close>

definition known_of :: "string option \<Rightarrow> string option" where
  "known_of l = (case l of Some c \<Rightarrow> if is_known_locale c then Some c else None | None \<Rightarrow> None)"

definition accepted_locale :: "string \<Rightarrow> string option" where
  "accepted_locale al = find is_known_locale (map primary_subtag (split_on (CHR '','') al))"

definition resolve_locale :: "string option \<Rightarrow> string option \<Rightarrow> string option \<Rightarrow> string" where
  "resolve_locale query_lang cookie_lang accept_language =
     (case known_of query_lang of Some q \<Rightarrow> q
      | None \<Rightarrow> (case known_of cookie_lang of Some c \<Rightarrow> c
      | None \<Rightarrow> (case Option.bind accept_language accepted_locale of Some l \<Rightarrow> l | None \<Rightarrow> ''en'')))"

definition locale_idx :: "string \<Rightarrow> nat" where
  "locale_idx code = (if code = ''en'' then 0 else if code = ''ru'' then 1 else if code = ''de'' then 2
     else if code = ''fr'' then 3 else if code = ''es'' then 4 else 0)"

text \<open>A row has one text per locale; the first match in the table counts.\<close>

definition translate :: "(string \<times> string list) list \<Rightarrow> string \<Rightarrow> string \<Rightarrow> ('e, string) res" where
  "translate translations key locale_code = (case map_of translations key of
     Some vals \<Rightarrow> rbind (at_idx vals (locale_idx locale_code)) (\<lambda>v. if v \<noteq> [] then Inr v else at_idx vals 0)
   | None \<Rightarrow> Inr key)"

fun join_with :: "string \<Rightarrow> string list \<Rightarrow> string" where
  "join_with sep [] = []"
| "join_with sep [s] = s"
| "join_with sep (s # r) = s @ sep @ join_with sep r"

definition is_lang :: "string \<Rightarrow> bool" where
  "is_lang piece \<longleftrightarrow> hd (split_on (CHR ''='') piece) = ''lang''"

definition query_pieces :: "string \<Rightarrow> string list" where
  "query_pieces query = (let q = dropWhile (\<lambda>c. c = CHR ''?'') query in if q = [] then [] else split_on (CHR ''&'') q)"

definition rewrite_lang :: "string \<Rightarrow> string \<Rightarrow> string \<Rightarrow> string" where
  "rewrite_lang path query_str new_lang =
     (let pieces = query_pieces query_str;
          rewritten = map (\<lambda>p. if is_lang p then ''lang='' @ new_lang else p) pieces;
          new_pieces = (if list_ex is_lang pieces then rewritten else rewritten @ [''lang='' @ new_lang]);
          new_q = join_with ''&'' new_pieces
      in if new_q = [] then path else path @ ''?'' @ new_q)"

section \<open>The documents\<close>

definition SUPPORTED_LOCALES :: "string list" where
  "SUPPORTED_LOCALES = [''en'', ''ru'', ''de'', ''fr'', ''es'']"

definition is_supported_locale :: "string \<Rightarrow> bool" where
  "is_supported_locale l \<longleftrightarrow> l \<in> set SUPPORTED_LOCALES"

definition doc_slugs :: "(string \<times> string) list" where
  "doc_slugs = [(''README'', ''Documentation index''), (''architecture'', ''Architecture''), (''api'', ''API reference''),
     (''operations'', ''Operations guide''), (''theory'', ''Theory''), (''threat-model'', ''Threat model''),
     (''test-scenarios'', ''Test scenarios'')]"

text \<open>\<open>PathBuf::join\<close> on Unix: an absolute path replaces what it is joined to.\<close>

definition path_join :: "string \<Rightarrow> string \<Rightarrow> string" where
  "path_join a b = (if starts_with ''/'' b then b else a @ slash # b)"

definition doc_candidates :: "string \<Rightarrow> string \<Rightarrow> (string \<times> string) list" where
  "doc_candidates loc slug =
     [(loc, path_join (path_join ''docs'' loc) (slug @ ''.md'')),
      (''en'', path_join (path_join ''docs'' ''en'') (slug @ ''.md'')),
      (''en'', path_join ''docs'' (slug @ ''.md''))]"

type_synonym doc_tree = "string \<Rightarrow> string option"

fun first_readable :: "doc_tree \<Rightarrow> (string \<times> string) list \<Rightarrow> (string \<times> string) option" where
  "first_readable docs [] = None"
| "first_readable docs ((loc, p) # r) = (case docs p of Some s \<Rightarrow> Some (loc, s) | None \<Rightarrow> first_readable docs r)"

definition read_doc :: "doc_tree \<Rightarrow> string \<Rightarrow> string \<Rightarrow> (string \<times> string) option" where
  "read_doc docs loc slug = first_readable docs (doc_candidates loc slug)"

text \<open>\<open>str::lines\<close>: a carriage return before the line feed goes with it.\<close>

definition strip_cr :: "string \<Rightarrow> string" where
  "strip_cr s = (if s \<noteq> [] \<and> last s = CHR 0x0D then butlast s else s)"

definition text_lines :: "string \<Rightarrow> string list" where
  "text_lines s = (let pieces = split_on (CHR 0x0A) s in
     map strip_cr (butlast pieces) @ (if last pieces = [] then [] else [last pieces]))"

fun first_heading :: "string list \<Rightarrow> string option" where
  "first_heading [] = None"
| "first_heading (md_row # r) = (case strip_prefix ''# '' (skip_white (map of_bytes white_forms) md_row) of
     Some rest \<Rightarrow> Some (trim_unicode rest) | None \<Rightarrow> first_heading r)"

definition extract_h1 :: "string \<Rightarrow> string option" where
  "extract_h1 md = first_heading (text_lines md)"

definition read_h1 :: "doc_tree \<Rightarrow> string \<Rightarrow> string \<Rightarrow> string option" where
  "read_h1 docs loc slug = Option.bind (read_doc docs loc slug) (\<lambda>(_, md). extract_h1 md)"

section \<open>Rendering\<close>

datatype 'e md_event =
    StartFenced string | EndCodeBlock | TextEvent string | InlineMath string | DisplayMath string | HtmlEvent string | OtherEvent 'e

definition mermaid_block :: "string \<Rightarrow> string" where
  "mermaid_block src = ''<div '' @ attr ''class'' ''mermaid'' @ ''>'' @ html_escape src @ ''</div>''"

definition inline_math :: "string \<Rightarrow> string" where
  "inline_math e = ''<span '' @ attr ''class'' ''math math-inline'' @ ''>'' @ [CHR 0x5C] @ ''('' @ html_escape e @ [CHR 0x5C] @ '')</span>''"

definition display_math :: "string \<Rightarrow> string" where
  "display_math e = ''<div '' @ attr ''class'' ''math math-display'' @ ''>'' @ [CHR 0x5C] @ ''['' @ html_escape e @ [CHR 0x5C] @ '']</div>''"

record 'e render_state =
  re_in_mermaid :: bool
  re_src :: string
  re_out :: "'e md_event list"

definition emit :: "'e md_event \<Rightarrow> 'e render_state \<Rightarrow> 'e render_state" where
  "emit ev st = st\<lparr>re_out := re_out st @ [ev]\<rparr>"

definition render_step :: "'e md_event \<Rightarrow> 'e render_state \<Rightarrow> 'e render_state" where
  "render_step ev st = (case ev of
     StartFenced lang \<Rightarrow> if lang = ''mermaid'' then st\<lparr>re_in_mermaid := True, re_src := []\<rparr> else emit ev st
   | EndCodeBlock \<Rightarrow> if re_in_mermaid st then emit (HtmlEvent (mermaid_block (re_src st))) (st\<lparr>re_in_mermaid := False\<rparr>) else emit ev st
   | TextEvent t \<Rightarrow> if re_in_mermaid st then st\<lparr>re_src := re_src st @ t\<rparr> else emit ev st
   | InlineMath e \<Rightarrow> emit (HtmlEvent (inline_math e)) st
   | DisplayMath e \<Rightarrow> emit (HtmlEvent (display_math e)) st
   | _ \<Rightarrow> emit ev st)"

definition render_events :: "'e md_event list \<Rightarrow> 'e md_event list" where
  "render_events evs = re_out (fold render_step evs \<lparr>re_in_mermaid = False, re_src = [], re_out = []\<rparr>)"

definition render_markdown :: "(string \<Rightarrow> 'e md_event list) \<Rightarrow> ('e md_event list \<Rightarrow> string) \<Rightarrow> string \<Rightarrow> string" where
  "render_markdown parse_md push_html md = push_html (render_events (parse_md md))"

section \<open>Server functions\<close>

datatype doc_error = UnsupportedLocale | UnknownSlug | DocNotFound

record rendered_doc =
  rd_slug :: string
  rd_title :: string
  rd_html :: string
  rd_locale :: string

definition list_docs :: "doc_tree \<Rightarrow> string \<Rightarrow> (doc_error, (string \<times> string) list) res" where
  "list_docs docs loc =
     (if \<not> is_supported_locale loc then Inl (Err UnsupportedLocale)
      else Inr (map (\<lambda>(slug, fallback). (slug, case read_h1 docs loc slug of Some t \<Rightarrow> t | None \<Rightarrow> fallback)) doc_slugs))"

definition get_doc :: "(string \<Rightarrow> string) \<Rightarrow> doc_tree \<Rightarrow> string \<Rightarrow> string \<Rightarrow> (doc_error, rendered_doc) res" where
  "get_doc render docs loc slug =
     (if \<not> is_supported_locale loc then Inl (Err UnsupportedLocale)
      else if slug \<notin> set (map fst doc_slugs) then Inl (Err UnknownSlug)
      else case read_doc docs loc slug of
        None \<Rightarrow> Inl (Err DocNotFound)
      | Some (served, md) \<Rightarrow> Inr \<lparr>rd_slug = slug, rd_title = (case extract_h1 md of Some t \<Rightarrow> t | None \<Rightarrow> slug),
          rd_html = render md, rd_locale = served\<rparr>)"

section \<open>Addresses\<close>

lemma split_on_ne [simp]: "split_on c s \<noteq> []"
  by (induction s) (auto split: list.splits)

lemma split_on_append: "c \<notin> set a \<Longrightarrow> split_on c (a @ c # b) = a # split_on c b"
  by (induction a) auto

lemma split_on_pieces: "p \<in> set (split_on c s) \<Longrightarrow> c \<notin> set p"
  by (induction s arbitrary: p) (force split: list.splits if_splits)+

lemma split_join:
  assumes "ps \<noteq> []" and "\<forall>p \<in> set ps. c \<notin> set p" shows "split_on c (join_with [c] ps) = ps"
  using assms by (induction "[c]" ps rule: join_with.induct) (simp_all add: split_on_plain split_on_append)

text \<open>What \<open>rewrite_lang\<close> does to the pieces of a query.\<close>

definition relang :: "string \<Rightarrow> string list \<Rightarrow> string list" where
  "relang l pieces = (let rewritten = map (\<lambda>p. if is_lang p then ''lang='' @ l else p) pieces in
     if list_ex is_lang pieces then rewritten else rewritten @ [''lang='' @ l])"

lemma is_lang_new: "is_lang (''lang='' @ l)"
  using split_on_append[of "CHR ''=''" "''lang''" l] by (simp add: is_lang_def)

definition set_lang :: "string \<Rightarrow> string \<Rightarrow> string" where
  "set_lang l p = (if is_lang p then ''lang='' @ l else p)"

lemma relang_alt: "relang l ps = map (set_lang l) ps @ (if list_ex is_lang ps then [] else [''lang='' @ l])"
  by (simp add: relang_def Let_def set_lang_def[abs_def])

lemma set_lang_simps [simp]: "is_lang (set_lang l p) = is_lang p" "set_lang l (set_lang k p) = set_lang l p"
    "set_lang l (''lang='' @ k) = ''lang='' @ l"
  using is_lang_new[of l] is_lang_new[of k] by (simp_all add: set_lang_def)

lemma list_ex_set_lang [simp]: "list_ex is_lang (map (set_lang l) ps) = list_ex is_lang ps"
  by (induction ps) simp_all

lemma relang_twice: "relang l (relang k ps) = relang l ps"
  unfolding relang_alt using set_lang_simps(3)[of l k] is_lang_new[of k] by (cases "list_ex is_lang ps") (simp_all add: comp_def)

lemma relang_others: "filter (\<lambda>p. \<not> is_lang p) (relang l ps) = filter (\<lambda>p. \<not> is_lang p) ps"
proof -
  have "filter (\<lambda>p. \<not> is_lang p) (map (set_lang l) ps) = filter (\<lambda>p. \<not> is_lang p) ps"
    using is_lang_new[of l] by (induction ps) (simp_all add: set_lang_def)
  then show ?thesis unfolding relang_alt using is_lang_new[of l] by simp
qed

lemma relang_langs: "p \<in> set (relang l ps) \<Longrightarrow> is_lang p \<Longrightarrow> p = ''lang='' @ l"
  by (auto simp: relang_def Let_def split: if_splits)

lemma relang_has: "\<exists>p \<in> set (relang l ps). is_lang p"
  using is_lang_new[of l] by (auto simp: relang_def Let_def list_ex_iff)

lemma dropWhile_hd: "dropWhile P s = [] \<or> \<not> P (hd (dropWhile P s))"
  by (induction s) auto

lemma query_pieces_chars: "p \<in> set (query_pieces q) \<Longrightarrow> CHR ''&'' \<notin> set p"
  by (auto simp: query_pieces_def Let_def split: if_splits dest: split_on_pieces)

lemma join_hd: "join_with sep ps \<noteq> [] \<Longrightarrow> ps \<noteq> [] \<Longrightarrow> hd ps \<noteq> [] \<Longrightarrow> hd (join_with sep ps) = hd (hd ps)"
  by (induction sep ps rule: join_with.induct) auto

lemma query_pieces_join:
  assumes "ps \<noteq> []" and "\<forall>p \<in> set ps. CHR ''&'' \<notin> set p" and "hd ps = [] \<or> hd (hd ps) \<noteq> CHR ''?''" and "join_with ''&'' ps \<noteq> []"
  shows "query_pieces (join_with ''&'' ps) = ps"
proof -
  have "hd (join_with ''&'' ps) \<noteq> CHR ''?''"
  proof (cases "hd ps = []")
    case True
    with assms(1,4) show ?thesis by (cases ps; cases "tl ps") auto
  next
    case False
    with assms show ?thesis by (simp add: join_hd)
  qed
  then have "dropWhile (\<lambda>c. c = CHR ''?'') (join_with ''&'' ps) = join_with ''&'' ps"
    using assms(4) by (cases "join_with ''&'' ps") auto
  then show ?thesis using assms(4) split_join[OF assms(1,2)] by (simp add: query_pieces_def)
qed

lemma query_pieces_hd: "query_pieces q \<noteq> [] \<Longrightarrow> hd (query_pieces q) = [] \<or> hd (hd (query_pieces q)) \<noteq> CHR ''?''"
proof -
  let ?s = "dropWhile (\<lambda>c. c = CHR ''?'') q"
  assume "query_pieces q \<noteq> []"
  then have s: "?s \<noteq> []" "query_pieces q = split_on (CHR ''&'') ?s" by (auto simp: query_pieces_def Let_def split: if_splits)
  then obtain a r where ar: "?s = a # r" by (cases ?s) auto
  then have "a \<noteq> CHR ''?''" using dropWhile_hd[of "\<lambda>c. c = CHR ''?''" q] by auto
  then show ?thesis unfolding s(2) ar by (auto split: list.splits)
qed

lemma relang_ne: "relang l ps \<noteq> []"
  using relang_has[of l ps] by auto

lemma relang_hd: "ps \<noteq> [] \<Longrightarrow> hd (relang l ps) = (if is_lang (hd ps) then ''lang='' @ l else hd ps)"
  by (cases ps) (auto simp: relang_def Let_def)

lemma relang_join_ne: "join_with ''&'' (relang l ps) \<noteq> []"
proof -
  obtain p where p: "p \<in> set (relang l ps)" "p \<noteq> []" using relang_has[of l ps] relang_langs[of _ l ps] by force
  have "join_with sep qs \<noteq> []" if "p \<in> set qs" "p \<noteq> []" for sep :: string and qs
    using that by (induction sep qs rule: join_with.induct) auto
  with p show ?thesis by blast
qed

lemma rewrite_lang_eq: "rewrite_lang path q l = path @ ''?'' @ join_with ''&'' (relang l (query_pieces q))"
proof -
  have "(if list_ex is_lang (query_pieces q) then map (\<lambda>p. if is_lang p then ''lang='' @ l else p) (query_pieces q)
      else map (\<lambda>p. if is_lang p then ''lang='' @ l else p) (query_pieces q) @ [''lang='' @ l]) = relang l (query_pieces q)"
    by (simp add: relang_def)
  then show ?thesis using relang_join_ne[of l "query_pieces q"] unfolding rewrite_lang_def Let_def by simp
qed

lemma rewritten_pieces:
  assumes "CHR ''&'' \<notin> set l"
  shows "query_pieces (''?'' @ join_with ''&'' (relang l (query_pieces q))) = relang l (query_pieces q)"
proof -
  let ?ps = "relang l (query_pieces q)"
  have "query_pieces (''?'' @ s) = query_pieces s" for s by (simp add: query_pieces_def)
  moreover have "\<forall>p \<in> set ?ps. CHR ''&'' \<notin> set p"
    using assms query_pieces_chars[of _ q] by (auto simp: relang_def Let_def split: if_splits)
  moreover have "hd ?ps = [] \<or> hd (hd ?ps) \<noteq> CHR ''?''"
  proof (cases "query_pieces q = []")
    case False
    with query_pieces_hd[OF False] show ?thesis by (simp add: relang_hd)
  qed (simp add: relang_def)
  ultimately show ?thesis using query_pieces_join[OF relang_ne _ _ relang_join_ne] by simp
qed

lemma resolved_locale_known: "is_known_locale (resolve_locale query_lang cookie_lang accept_language)"
  by (auto simp: resolve_locale_def known_of_def accepted_locale_def is_known_locale_def[of "''en''"] find_Some_iff
    split: option.splits if_splits bind_splits)

text \<open>a language switch keeps the address. The link to another language leaves the path and every other
  parameter as they are, in their order; every \<open>lang\<close> parameter of the new address, and there is one, names the new
  language; and switching again gives what switching to the last language at once would.\<close>

theorem language_switch_exact:
  assumes "CHR ''&'' \<notin> set l"
  shows "\<exists>s. rewrite_lang path q l = path @ ''?'' @ s \<and>
    filter (\<lambda>p. \<not> is_lang p) (query_pieces (''?'' @ s)) = filter (\<lambda>p. \<not> is_lang p) (query_pieces q) \<and>
    set (filter is_lang (query_pieces (''?'' @ s))) = {''lang='' @ l} \<and>
    (\<forall>l'. rewrite_lang path (''?'' @ s) l' = rewrite_lang path q l')"
proof (intro exI conjI allI)
  let ?s = "join_with ''&'' (relang l (query_pieces q))"
  note ps = rewritten_pieces[OF assms, of q]
  show "rewrite_lang path q l = path @ ''?'' @ ?s" by (rule rewrite_lang_eq)
  show "filter (\<lambda>p. \<not> is_lang p) (query_pieces (''?'' @ ?s)) = filter (\<lambda>p. \<not> is_lang p) (query_pieces q)"
    unfolding ps by (rule relang_others)
  show "set (filter is_lang (query_pieces (''?'' @ ?s))) = {''lang='' @ l}"
    unfolding ps using relang_has[of l "query_pieces q"] relang_langs[of _ l "query_pieces q"] by auto
  show "rewrite_lang path (''?'' @ ?s) l' = rewrite_lang path q l'" for l'
    unfolding rewrite_lang_eq ps relang_twice ..
qed

theorem language_switch_exact_witness:
  "rewrite_lang ''/'' ''?p=photos&lang=en&zoom=2'' ''es'' = ''/?p=photos&lang=es&zoom=2'' \<and>
   (\<exists>s. rewrite_lang ''/'' ''?p=photos&lang=en&zoom=2'' ''es'' = ''/'' @ ''?'' @ s \<and>
     (\<forall>l'. rewrite_lang ''/'' (''?'' @ s) l' = rewrite_lang ''/'' ''?p=photos&lang=en&zoom=2'' l'))"
proof
  show "rewrite_lang ''/'' ''?p=photos&lang=en&zoom=2'' ''es'' = ''/?p=photos&lang=es&zoom=2''"
    by (simp add: rewrite_lang_def query_pieces_def is_lang_def)
  have "CHR ''&'' \<notin> set ''es''" by simp
  from language_switch_exact[OF this, of "''/''" "''?p=photos&lang=en&zoom=2''"]
  show "\<exists>s. rewrite_lang ''/'' ''?p=photos&lang=en&zoom=2'' ''es'' = ''/'' @ ''?'' @ s \<and>
     (\<forall>l'. rewrite_lang ''/'' (''?'' @ s) l' = rewrite_lang ''/'' ''?p=photos&lang=en&zoom=2'' l')" by blast
qed

section \<open>What the documentation reads and shows\<close>

text \<open>The inventory: every document in every locale, and the ones of the old layout.\<close>

definition doc_inventory :: "string list" where
  "doc_inventory =
     concat (map (\<lambda>slug. map (\<lambda>loc. ''docs/'' @ loc @ ''/'' @ slug @ ''.md'') SUPPORTED_LOCALES @ [''docs/'' @ slug @ ''.md'']) (map fst doc_slugs))"

lemma doc_paths:
  assumes "is_supported_locale loc" and "slug \<in> set (map fst doc_slugs)"
  shows "doc_candidates loc slug = [(loc, ''docs/'' @ loc @ ''/'' @ slug @ ''.md''), (''en'', ''docs/en/'' @ slug @ ''.md''), (''en'', ''docs/'' @ slug @ ''.md'')]"
proof -
  have "path_join ''docs'' loc = ''docs/'' @ loc"
    using assms(1) by (auto simp: path_join_def starts_with_def is_supported_locale_def SUPPORTED_LOCALES_def)
  moreover have "\<not> starts_with ''/'' (slug @ ''.md'')" using assms(2) by (auto simp: starts_with_def doc_slugs_def)
  ultimately show ?thesis by (simp add: doc_candidates_def path_join_def) (simp add: starts_with_def)
qed

lemma candidates_inventory:
  assumes "is_supported_locale loc" and "slug \<in> set (map fst doc_slugs)"
  shows "snd ` set (doc_candidates loc slug) \<subseteq> set doc_inventory"
proof -
  have files: "''docs/'' @ loc' @ ''/'' @ slug @ ''.md'' \<in> set doc_inventory" if "loc' \<in> set SUPPORTED_LOCALES" for loc'
    using assms(2) that unfolding doc_inventory_def by (auto intro!: bexI[of _ slug])
  have "''docs/'' @ slug @ ''.md'' \<in> set doc_inventory"
    using assms(2) unfolding doc_inventory_def by (auto intro!: bexI[of _ slug])
  with files[of loc] files[of "''en''"] assms(1) show ?thesis
    by (simp add: doc_paths[OF assms] is_supported_locale_def) (simp add: SUPPORTED_LOCALES_def)
qed

lemma first_readable_cong: "(\<And>p. p \<in> snd ` set cs \<Longrightarrow> docs p = docs' p) \<Longrightarrow> first_readable docs cs = first_readable docs' cs"
  by (induction docs cs rule: first_readable.induct) (auto split: option.splits)

lemma read_doc_cong:
  assumes "\<forall>p \<in> set doc_inventory. docs p = docs' p" and "is_supported_locale loc" and "slug \<in> set (map fst doc_slugs)"
  shows "read_doc docs loc slug = read_doc docs' loc slug"
  unfolding read_doc_def by (rule first_readable_cong) (use assms(1) candidates_inventory[OF assms(2,3)] in blast)

text \<open>the documentation stays in its directory. Whatever locale and slug a client sends, listing and fetching documents
  depend on the 42 files of the inventory only, none of which leaves \<open>docs\<close>; and what is served for a known document is the
  localized file if there is one, else the English one of the new layout, else that of the old.\<close>

theorem docs_confined:
  "(if \<forall>p \<in> set doc_inventory. docs p = docs' p
    then get_doc render docs loc slug = get_doc render docs' loc slug \<and> list_docs docs loc = list_docs docs' loc else True) \<and>
   list_all (\<lambda>p. starts_with ''docs/'' p \<and> ''..'' \<notin> set (split_slash p)) doc_inventory \<and>
   (if is_supported_locale loc \<and> slug \<in> set (map fst doc_slugs)
    then rbind (get_doc render docs loc slug) (\<lambda>d. Inr (rd_locale d, rd_html d)) =
      (case (docs (''docs/'' @ loc @ ''/'' @ slug @ ''.md''), docs (''docs/en/'' @ slug @ ''.md''), docs (''docs/'' @ slug @ ''.md'')) of
         (Some md, _, _) \<Rightarrow> Inr (loc, render md) | (None, Some md, _) \<Rightarrow> Inr (''en'', render md)
       | (None, None, Some md) \<Rightarrow> Inr (''en'', render md) | _ \<Rightarrow> Inl (Err DocNotFound))
    else True)"
proof (intro conjI)
  have "get_doc render docs loc slug = get_doc render docs' loc slug" "list_docs docs loc = list_docs docs' loc"
    if same: "\<forall>p \<in> set doc_inventory. docs p = docs' p"
  proof -
    note cong = read_doc_cong[OF same]
    show "get_doc render docs loc slug = get_doc render docs' loc slug"
      by (auto simp: get_doc_def cong split: if_splits)
    have "read_h1 docs loc s = read_h1 docs' loc s" if "is_supported_locale loc" "s \<in> set (map fst doc_slugs)" for s
      using cong[OF that] by (simp add: read_h1_def)
    then have "map (\<lambda>(slug, fallback). (slug, case read_h1 docs loc slug of Some t \<Rightarrow> t | None \<Rightarrow> fallback)) doc_slugs =
        map (\<lambda>(slug, fallback). (slug, case read_h1 docs' loc slug of Some t \<Rightarrow> t | None \<Rightarrow> fallback)) doc_slugs"
      if "is_supported_locale loc" using that by (intro map_cong refl) force
    then show "list_docs docs loc = list_docs docs' loc" by (simp add: list_docs_def)
  qed
  then show "if \<forall>p \<in> set doc_inventory. docs p = docs' p
    then get_doc render docs loc slug = get_doc render docs' loc slug \<and> list_docs docs loc = list_docs docs' loc else True" by simp
  show "list_all (\<lambda>p. starts_with ''docs/'' p \<and> ''..'' \<notin> set (split_slash p)) doc_inventory" by code_simp
  have "rbind (get_doc render docs loc slug) (\<lambda>d. Inr (rd_locale d, rd_html d)) =
      (case (docs (''docs/'' @ loc @ ''/'' @ slug @ ''.md''), docs (''docs/en/'' @ slug @ ''.md''), docs (''docs/'' @ slug @ ''.md'')) of
         (Some md, _, _) \<Rightarrow> Inr (loc, render md) | (None, Some md, _) \<Rightarrow> Inr (''en'', render md)
       | (None, None, Some md) \<Rightarrow> Inr (''en'', render md) | _ \<Rightarrow> Inl (Err DocNotFound))"
    if known: "is_supported_locale loc" "slug \<in> set (map fst doc_slugs)"
  proof -
    note doc_paths[OF known]
    with known show ?thesis by (simp add: get_doc_def read_doc_def split: option.split)
  qed
  then show "if is_supported_locale loc \<and> slug \<in> set (map fst doc_slugs)
    then rbind (get_doc render docs loc slug) (\<lambda>d. Inr (rd_locale d, rd_html d)) =
      (case (docs (''docs/'' @ loc @ ''/'' @ slug @ ''.md''), docs (''docs/en/'' @ slug @ ''.md''), docs (''docs/'' @ slug @ ''.md'')) of
         (Some md, _, _) \<Rightarrow> Inr (loc, render md) | (None, Some md, _) \<Rightarrow> Inr (''en'', render md)
       | (None, None, Some md) \<Rightarrow> Inr (''en'', render md) | _ \<Rightarrow> Inl (Err DocNotFound))
    else True" by simp
qed

theorem docs_confined_witness:
  "get_doc id (\<lambda>p. if p = ''docs/api.md'' then Some ''text'' else None) ''fr'' ''api'' =
   get_doc id (\<lambda>p. if p \<in> {''docs/api.md'', ''/etc/passwd''} then Some ''text'' else None) ''fr'' ''api''"
proof -
  let ?d = "\<lambda>p. if p = ''docs/api.md'' then Some ''text'' else None"
  let ?d' = "\<lambda>p. if p \<in> {''docs/api.md'', ''/etc/passwd''} then Some ''text'' else None"
  note confined = docs_confined[of ?d ?d' id "''fr''" "''api''"]
  have "''/etc/passwd'' \<notin> set doc_inventory"
    using confined[THEN conjunct2, THEN conjunct1] by (auto simp: list_all_iff starts_with_def)
  then have "\<forall>p \<in> set doc_inventory. ?d p = ?d' p" by auto
  with confined[THEN conjunct1] show ?thesis by (simp only: if_True)
qed

text \<open>A diagram between the events that open and close it becomes one piece of HTML; raw HTML elsewhere passes unchanged.\<close>

lemma render_texts:
  "fold render_step (map TextEvent ts) \<lparr>re_in_mermaid = True, re_src = src, re_out = out\<rparr> =
     \<lparr>re_in_mermaid = True, re_src = src @ concat ts, re_out = out\<rparr>"
  by (induction ts arbitrary: src) (simp_all add: render_step_def)

lemma diagram_inert:
  "fold render_step (StartFenced ''mermaid'' # map TextEvent ts @ [EndCodeBlock]) \<lparr>re_in_mermaid = False, re_src = src, re_out = out\<rparr> =
     \<lparr>re_in_mermaid = False, re_src = concat ts, re_out = out @ [HtmlEvent (mermaid_block (concat ts))]\<rparr>"
  using render_texts[of ts "[]" out] by (simp add: render_step_def emit_def)

lemma raw_html_passes: "render_events [HtmlEvent h] = [HtmlEvent h]"
  by (simp add: render_events_def render_step_def emit_def)

end
