(* ===== verification/Transport.thy ===== *)
theory Transport
  imports Forms
begin

text \<open>
  \<open>holofs-client/src/transport.rs\<close> and the configuration half of \<open>holofs-storage/src/tls.rs\<close>: the process-wide TLS setting, how a
  connection is opened, the name a server is expected to have, and the configurations built from PEM material. Parameters: the
  TCP connection, the parsers, checks and handshake of rustls. A configuration behind an \<open>Arc\<close> is known by its identity, so
  \<open>Arc::ptr_eq\<close> is equality. Making certificates (\<open>rcgen\<close>) and moving bytes through a stream are left out.

  \<open>std::net::IpAddr::from_str\<close> is written out. Shown: a second, different TLS setting is ignored in silence; the host of an IPv4
  address is recognised, that of an IPv6 address never is.
\<close>

section \<open>The setting\<close>

record 'c transport =
  tr_config :: "'c option option"
  tr_current :: "'c option"

definition transport_start :: "'c transport" where
  "transport_start = \<lparr>tr_config = None, tr_current = None\<rparr>"

text \<open>\<open>CONFIG\<close> is a \<open>OnceLock\<close>: \<open>set\<close> fails when it holds a value, and the argument is then gone.\<close>

definition set_tls_config :: "'c option \<Rightarrow> ('c transport, unit, unit) act" where
  "set_tls_config cfg = abind aget (\<lambda>st. case tr_config st of
     Some existing \<Rightarrow> (case (existing, tr_current st) of
         (None, None) \<Rightarrow> aret ()
       | (Some a, Some b) \<Rightarrow> if a = b then aret () else alift (Inl Panic)
       | _ \<Rightarrow> alift (Inl Panic))
   | None \<Rightarrow> amodify (\<lambda>st. st\<lparr>tr_config := Some cfg, tr_current := cfg\<rparr>))"

section \<open>IP addresses\<close>

datatype ip_addr = V4 "nat list" | V6 "nat list"

definition read_number :: "(char \<Rightarrow> nat option) \<Rightarrow> nat \<Rightarrow> nat \<Rightarrow> bool \<Rightarrow> nat \<Rightarrow> string \<Rightarrow> (nat \<times> string) option" where
  "read_number digit radix max_digits allow_zero_prefix limit s =
     (let ds = takeWhile (\<lambda>c. digit c \<noteq> None) s;
          v = foldl (\<lambda>acc c. acc * radix + the (digit c)) 0 ds
      in if max_digits < length ds \<or> ds = [] then None
         else if \<not> allow_zero_prefix \<and> hd ds = CHR ''0'' \<and> 1 < length ds then None
         else if v < limit then Some (v, drop (length ds) s) else None)"

definition read_separator :: "char \<Rightarrow> nat \<Rightarrow> (string \<Rightarrow> 'a option) \<Rightarrow> string \<Rightarrow> 'a option" where
  "read_separator sep i f s = (if i = 0 then f s else case s of c # r \<Rightarrow> if c = sep then f r else None | [] \<Rightarrow> None)"

fun read_octets :: "nat \<Rightarrow> nat \<Rightarrow> string \<Rightarrow> (nat list \<times> string) option" where
  "read_octets 0 i s = Some ([], s)"
| "read_octets (Suc n) i s = (case read_separator (CHR ''.'') i (read_number digit_val 10 3 False 256) s of
     None \<Rightarrow> None | Some (v, r) \<Rightarrow> map_option (\<lambda>(vs, r). (v # vs, r)) (read_octets n (Suc i) r))"

definition read_ipv4 :: "string \<Rightarrow> (nat list \<times> string) option" where
  "read_ipv4 s = read_octets 4 0 s"

text \<open>The groups, whether the last two came from a dotted quad, and the rest; the first argument counts the places left.\<close>

fun read_groups :: "nat \<Rightarrow> nat \<Rightarrow> string \<Rightarrow> nat list \<times> bool \<times> string" where
  "read_groups 0 i s = ([], False, s)"
| "read_groups (Suc n) i s =
     (case (if n = 0 then None else read_separator (CHR '':'') i read_ipv4 s) of
        Some (q, r) \<Rightarrow> ([q ! 0 * 256 + q ! 1, q ! 2 * 256 + q ! 3], True, r)
      | None \<Rightarrow> (case read_separator (CHR '':'') i (read_number hex_val 16 4 True 65536) s of
          None \<Rightarrow> ([], False, s)
        | Some (g, r) \<Rightarrow> (case read_groups n (Suc i) r of (gs, v4, r) \<Rightarrow> (g # gs, v4, r))))"

definition read_ipv6 :: "string \<Rightarrow> (nat list \<times> string) option" where
  "read_ipv6 s = (case read_groups 8 0 s of (groups, v4, r) \<Rightarrow>
     if length groups = 8 then Some (groups, r)
     else if v4 then None
     else if \<not> starts_with ''::'' r then None
     else case read_groups (8 - (length groups + 1)) 0 (drop 2 r) of (last_groups, _, r) \<Rightarrow>
       Some (groups @ replicate (8 - length groups - length last_groups) 0 @ last_groups, r))"

definition parse_ip :: "string \<Rightarrow> ip_addr option" where
  "parse_ip s = (case read_ipv4 s of
     Some (q, r) \<Rightarrow> if r = [] then Some (V4 q) else None
   | None \<Rightarrow> (case read_ipv6 s of Some (gs, r) \<Rightarrow> if r = [] then Some (V6 gs) else None | None \<Rightarrow> None))"

section \<open>Connecting\<close>

datatype tls_build_error = Pem string | OtherTls string

datatype server_name = IpAddress ip_addr | DnsName string

text \<open>\<open>dns_ok\<close>: whether rustls takes a string as a DNS name, with its message otherwise.\<close>

definition server_name_for :: "(string \<Rightarrow> string option) \<Rightarrow> string \<Rightarrow> (tls_build_error, server_name) res" where
  "server_name_for dns_error host_port =
     (let host = (case rsplit_at (CHR '':'') host_port of Some (h, _) \<Rightarrow> h | None \<Rightarrow> host_port)
      in case parse_ip host of
           Some ip \<Rightarrow> Inr (IpAddress ip)
         | None \<Rightarrow> (case dns_error host of None \<Rightarrow> Inr (DnsName host) | Some e \<Rightarrow> Inl (Err (OtherTls e))))"

datatype ('t, 's) transport_stream = Plain 't | Tls 's

definition connect_to ::
  "(string \<Rightarrow> (io_error, 't) res) \<Rightarrow> (string \<Rightarrow> string option) \<Rightarrow> ('c \<Rightarrow> server_name \<Rightarrow> 't \<Rightarrow> 's option) \<Rightarrow> string \<Rightarrow> 'c transport \<Rightarrow>
    (io_error, ('t, 's) transport_stream) res" where
  "connect_to tcp_connect dns_error handshake addr st =
     rbind (tcp_connect addr) (\<lambda>tcp. case tr_current st of
       None \<Rightarrow> Inr (Plain tcp)
     | Some cfg \<Rightarrow> rbind (map_err (\<lambda>_. InvalidInput) (server_name_for dns_error addr)) (\<lambda>sni.
         case handshake cfg sni tcp of Some s \<Rightarrow> Inr (Tls s) | None \<Rightarrow> Inl (Err ConnectionAborted)))"

section \<open>Configurations from PEM texts\<close>

record tls_material =
  tm_ca_cert :: string
  tm_ca_key :: string
  tm_leaf_cert :: string
  tm_leaf_key :: string

definition load_material :: "(string \<Rightarrow> (io_error, string) res) \<Rightarrow> string \<Rightarrow> string \<Rightarrow> string \<Rightarrow> string option \<Rightarrow> (io_error, tls_material) res" where
  "load_material read_text leaf_cert leaf_key ca_cert ca_key =
     rbind (read_text leaf_cert) (\<lambda>cert.
     rbind (read_text leaf_key) (\<lambda>key.
     rbind (read_text ca_cert) (\<lambda>ca.
     rbind (case ca_key of Some p \<Rightarrow> read_text p | None \<Rightarrow> Inr []) (\<lambda>cak.
       Inr \<lparr>tm_ca_cert = ca, tm_ca_key = cak, tm_leaf_cert = cert, tm_leaf_key = key\<rparr>))))"

text \<open>The calls of rustls: PEM parsers, adding a trust root, building a client verifier, checking a certificate against its key.\<close>

record ('crt, 'key) rustls_calls =
  rc_certs :: "string \<Rightarrow> string + 'crt list"
  rc_key :: "string \<Rightarrow> string + 'key"
  rc_add_root :: "'crt \<Rightarrow> string option"
  rc_verifier :: "'crt list \<Rightarrow> string option"
  rc_own_cert :: "'crt list \<Rightarrow> 'key \<Rightarrow> string option"

record ('crt, 'key) server_config =
  sc_chain :: "'crt list"
  sc_key :: 'key
  sc_client_roots :: "'crt list option"

record ('crt, 'key) client_config =
  cc_roots :: "'crt list"
  cc_identity :: "('crt list \<times> 'key) option"

definition parse_certs :: "('crt, 'key) rustls_calls \<Rightarrow> string \<Rightarrow> (tls_build_error, 'crt list) res" where
  "parse_certs rc pem = (case rc_certs rc pem of Inr cs \<Rightarrow> Inr cs | Inl e \<Rightarrow> Inl (Err (Pem e)))"

definition parse_private_key :: "('crt, 'key) rustls_calls \<Rightarrow> string \<Rightarrow> (tls_build_error, 'key) res" where
  "parse_private_key rc pem = (case rc_key rc pem of Inr k \<Rightarrow> Inr k | Inl e \<Rightarrow> Inl (Err (Pem e)))"

definition other_error :: "string option \<Rightarrow> (tls_build_error, unit) res" where
  "other_error e = (case e of None \<Rightarrow> Inr () | Some e \<Rightarrow> Inl (Err (OtherTls e)))"

definition add_roots :: "('crt, 'key) rustls_calls \<Rightarrow> string \<Rightarrow> (tls_build_error, 'crt list) res" where
  "add_roots rc pem = rbind (parse_certs rc pem) (\<lambda>cs.
     rfold (\<lambda>roots c. rbind (other_error (rc_add_root rc c)) (\<lambda>_. Inr (roots @ [c]))) [] cs)"

definition server_config_for :: "('crt, 'key) rustls_calls \<Rightarrow> tls_material \<Rightarrow> bool \<Rightarrow> (tls_build_error, ('crt, 'key) server_config) res" where
  "server_config_for rc tm mtls =
     rbind (parse_certs rc (tm_leaf_cert tm)) (\<lambda>certs.
     rbind (parse_private_key rc (tm_leaf_key tm)) (\<lambda>key.
     rbind (if mtls then rbind (add_roots rc (tm_ca_cert tm)) (\<lambda>roots.
              rbind (other_error (rc_verifier rc roots)) (\<lambda>_. Inr (Some roots))) else Inr None) (\<lambda>roots.
     rbind (other_error (rc_own_cert rc certs key)) (\<lambda>_.
       Inr \<lparr>sc_chain = certs, sc_key = key, sc_client_roots = roots\<rparr>))))"

definition client_config_for :: "('crt, 'key) rustls_calls \<Rightarrow> tls_material \<Rightarrow> bool \<Rightarrow> (tls_build_error, ('crt, 'key) client_config) res" where
  "client_config_for rc tm mtls =
     rbind (add_roots rc (tm_ca_cert tm)) (\<lambda>roots.
     rbind (if mtls then rbind (parse_certs rc (tm_leaf_cert tm)) (\<lambda>certs. rbind (parse_private_key rc (tm_leaf_key tm)) (\<lambda>key.
              rbind (other_error (rc_own_cert rc certs key)) (\<lambda>_. Inr (Some (certs, key))))) else Inr None) (\<lambda>own.
       Inr \<lparr>cc_roots = roots, cc_identity = own\<rparr>))"

section \<open>The setting never conflicts\<close>

text \<open>The states a process reaches: the two places agree.\<close>

definition in_step :: "'c transport \<Rightarrow> bool" where
  "in_step st \<longleftrightarrow> (case tr_config st of None \<Rightarrow> tr_current st = None | Some cfg \<Rightarrow> tr_current st = cfg)"

lemma set_in_step: "in_step st \<Longrightarrow> \<exists>st'. set_tls_config cfg st = (Inr (), st') \<and> in_step st' \<and>
    (case tr_config st of None \<Rightarrow> tr_current st' = cfg | Some _ \<Rightarrow> st' = st)"
  by (auto simp: in_step_def set_tls_config_def abind_aget split: option.splits)

lemma sets_in_step:
  "in_step st \<Longrightarrow> \<exists>st'. afold (\<lambda>_. set_tls_config) () cfgs st = (Inr (), st') \<and> in_step st' \<and>
     tr_current st' = (if tr_config st = None \<and> cfgs \<noteq> [] then hd cfgs else tr_current st)"
proof (induction cfgs arbitrary: st)
  case (Cons c cfgs)
  from set_in_step[OF Cons.prems, of c] obtain st1 where
    st1: "set_tls_config c st = (Inr (), st1)" "in_step st1" "case tr_config st of None \<Rightarrow> tr_current st1 = c | Some _ \<Rightarrow> st1 = st" by blast
  moreover have "tr_config st1 \<noteq> None"
    using st1(1) by (auto simp: set_tls_config_def abind_aget split: option.splits if_splits)
  ultimately show ?case using Cons.IH[OF st1(2)] abind_step[where m = "set_tls_config c" and f = "\<lambda>b'. afold (\<lambda>_. set_tls_config) b' cfgs", OF st1(1)]
    by (auto split: option.splits)
qed simp

text \<open>TLS settings do not fail loudly. However often the transport is configured, and with whatever values, no call panics, and
  every connection uses the first value: the comparison that should detect a conflict looks at the first value twice, never at the
  new one.\<close>

theorem tls_conflict_ignored:
  "fst (afold (\<lambda>_. set_tls_config) () (cfg # cfgs) transport_start) = Inr () \<and>
   connect_to tcp_connect dns_error handshake addr (snd (afold (\<lambda>_. set_tls_config) () (cfg # cfgs) transport_start)) =
     connect_to tcp_connect dns_error handshake addr \<lparr>tr_config = Some cfg, tr_current = cfg\<rparr>"
proof -
  have "in_step transport_start" by (simp add: in_step_def transport_start_def)
  from sets_in_step[OF this, of "cfg # cfgs"] obtain st' where
    run: "afold (\<lambda>_. set_tls_config) () (cfg # cfgs) transport_start = (Inr (), st')" and cur: "tr_current st' = cfg"
    by (auto simp: transport_start_def)
  show ?thesis unfolding run fst_conv snd_conv connect_to_def cur by simp
qed

section \<open>Names of servers\<close>

lemma host_part: "CHR '':'' \<notin> set port \<Longrightarrow> rsplit_at (CHR '':'') (host @ '':'' @ port) = Some (host, port)"
  by (simp add: rsplit_at_def split_once_def takeWhile_append dropWhile_append)

lemma no_number: "digit c = None \<Longrightarrow> read_number digit radix max_digits z limit (c # s) = None"
  by (simp add: read_number_def)

lemma bracket_no_ip: "parse_ip (CHR ''['' # s) = None"
proof -
  have d: "digit_val (CHR ''['') = None" "hex_val (CHR ''['') = None" by (simp_all add: digit_val_def hex_val_def)
  then have v4: "read_ipv4 (CHR ''['' # s) = None"
    by (simp add: read_ipv4_def read_separator_def no_number numeral_eq_Suc)
  have "read_groups (Suc n) 0 (CHR ''['' # s) = ([], False, CHR ''['' # s)" for n
    using v4 d(2) by (simp add: read_separator_def no_number)
  from this[of 7] v4 show ?thesis by (simp add: parse_ip_def read_ipv6_def starts_with_def)
qed

text \<open>A byte in decimal, as an octet is printed.\<close>

definition octet_fine :: "nat \<Rightarrow> bool" where
  "octet_fine n \<longleftrightarrow> (let ds = dec_string n in list_all (\<lambda>c. digit_val c \<noteq> None) ds \<and> length ds \<le> 3 \<and>
     \<not> (hd ds = CHR ''0'' \<and> 1 < length ds) \<and> foldl (\<lambda>acc c. acc * 10 + the (digit_val c)) 0 ds = n)"

lemma octets_fine: "n < 256 \<Longrightarrow> octet_fine n"
proof -
  have "list_all octet_fine [0..<256]" by code_simp
  moreover assume "n < 256"
  ultimately show ?thesis by (simp add: list_all_iff)
qed

lemma read_octet:
  assumes "n < 256" and "r = [] \<or> digit_val (hd r) = None"
  shows "read_number digit_val 10 3 False 256 (dec_string n @ r) = Some (n, r)"
proof -
  have "takeWhile (\<lambda>c. digit_val c \<noteq> None) r = []" using assms(2) by (cases r) auto
  then have "takeWhile (\<lambda>c. digit_val c \<noteq> None) (dec_string n @ r) = dec_string n"
    using octets_fine[OF assms(1)] by (simp add: octet_fine_def Let_def list_all_iff takeWhile_append2 del: not_None_eq)
  then show ?thesis using octets_fine[OF assms(1)] assms(1) by (simp add: read_number_def octet_fine_def Let_def del: not_None_eq)
qed

lemma ipv4_host_recognised:
  assumes "a < 256" and "b < 256" and "c < 256" and "d < 256" and "CHR '':'' \<notin> set port"
  shows "server_name_for dns_error (dec_string a @ ''.'' @ dec_string b @ ''.'' @ dec_string c @ ''.'' @ dec_string d @ '':'' @ port) =
    Inr (IpAddress (V4 [a, b, c, d]))"
proof -
  let ?host = "dec_string a @ ''.'' @ dec_string b @ ''.'' @ dec_string c @ ''.'' @ dec_string d"
  have dot: "digit_val (CHR ''.'') = None" by (simp add: digit_val_def)
  have "read_ipv4 ?host = Some ([a, b, c, d], [])"
    using read_octet[OF assms(1), of "CHR ''.'' # dec_string b @ CHR ''.'' # dec_string c @ CHR ''.'' # dec_string d"]
      read_octet[OF assms(2), of "CHR ''.'' # dec_string c @ CHR ''.'' # dec_string d"]
      read_octet[OF assms(3), of "CHR ''.'' # dec_string d"] read_octet[OF assms(4), of "[]"] dot
    by (simp add: read_ipv4_def numeral_eq_Suc read_separator_def)
  then have "parse_ip ?host = Some (V4 [a, b, c, d])" by (simp add: parse_ip_def)
  with host_part[OF assms(5), of ?host] show ?thesis by (simp add: server_name_for_def)
qed

text \<open>TLS cannot be used over IPv6. The text of an IPv6 socket address has its host in brackets; the brackets stay on
  the host, which is then neither an IP address nor, since DNS names have no brackets, a DNS name: every connection
  with a TLS setting fails, whatever answers at the address, while the same connection without TLS goes through.\<close>

theorem ipv6_tls_refused:
  assumes "CHR '':'' \<notin> set port" and "\<forall>h. CHR ''['' \<in> set h \<longrightarrow> dns_error h \<noteq> None" and "tcp_connect (CHR ''['' # host @ '']:'' @ port) = Inr tcp"
  shows "connect_to tcp_connect dns_error handshake (CHR ''['' # host @ '']:'' @ port) st =
    (case tr_current st of None \<Rightarrow> Inr (Plain tcp) | Some _ \<Rightarrow> Inl (Err InvalidInput))"
proof -
  have "rsplit_at (CHR '':'') (CHR ''['' # host @ '']:'' @ port) = Some (CHR ''['' # host @ '']'', port)"
    using host_part[OF assms(1), of "CHR ''['' # host @ '']''"] by simp
  moreover obtain e where "dns_error (CHR ''['' # host @ '']'') = Some e" using assms(2) by force
  ultimately show ?thesis using assms(3) by (simp add: connect_to_def server_name_for_def bracket_no_ip split: option.split)
qed

theorem ipv6_tls_refused_witness:
  "connect_to (\<lambda>_. Inr ()) (\<lambda>h. if CHR ''['' \<in> set h then Some ''invalid dns name'' else None) (\<lambda>_ _ _. Some ()) ''[::1]:5000''
     \<lparr>tr_config = Some (Some ()), tr_current = Some ()\<rparr> = Inl (Err InvalidInput)"
proof -
  have h: "CHR '':'' \<notin> set ''5000''" "\<forall>h. CHR ''['' \<in> set h \<longrightarrow> (if CHR ''['' \<in> set h then Some ''invalid dns name'' else None) \<noteq> None"
    "(\<lambda>_. Inr () :: (io_error, unit) res) (CHR ''['' # ''::1'' @ '']:'' @ ''5000'') = Inr ()" by simp_all
  from ipv6_tls_refused[where host = "''::1''", OF h, where handshake = "\<lambda>_ _ _. Some ()" and st = "\<lparr>tr_config = Some (Some ()), tr_current = Some ()\<rparr>"] show ?thesis by simp
qed

end
