(* ===== verification/Durable.thy ===== *)
theory Durable
  imports Boot
begin

text \<open>
  How the files of the system are written: \<open>save_atomic\<close> of \<open>holofs-model/src/fs.rs\<close> with its caller \<open>persist_catalog\<close>
  (\<open>http_gateway.rs\<close>), \<open>load_or_create\<close> of \<open>identity.rs\<close> and \<open>write_shard_file\<close> of \<open>node_service.rs\<close>. All three write a
  temporary file and rename it; they differ in whether the content is flushed before. The other theories treat such a write
  as one step that succeeds or fails; here it is the sequence of its system calls on a file system with inodes, every call
  may fail, a write may be partial, and other writers may run between two calls.

  A process may stop between any two calls; a loss of power also loses what was not flushed. Of the file system, the
  documented behaviour is used: \<open>create\<close> truncates an existing file, \<open>rename\<close> replaces its target in one step, flushed
  content survives, and a directory found after a loss of power is one that existed at some time.

  Shown: one writer leaves the old content or the new, whatever stops it; two savers of the catalog at once break this.
\<close>

section \<open>Paths\<close>

text \<open>A directory and the name of a file in it.\<close>

datatype fpath = FPath (in_dir: string) (file_name: string)

definition file_stem :: "string \<Rightarrow> string" where
  "file_stem n =
     (let rest = dropWhile (\<lambda>c. c \<noteq> CHR ''.'') (rev n) in if n = ''..'' \<or> rest = [] \<or> tl rest = [] then n else rev (tl rest))"

definition with_extension :: "string \<Rightarrow> fpath \<Rightarrow> fpath" where
  "with_extension ext p = FPath (in_dir p) (file_stem (file_name p) @ ''.'' @ ext)"

section \<open>The file system\<close>

text \<open>Names of inodes, their content, which of it is on the medium, the earlier versions of the directory.\<close>

record disk =
  dk_names :: "fpath \<Rightarrow> nat option"
  dk_data :: "nat \<Rightarrow> bytes"
  dk_safe :: "nat \<Rightarrow> bool"
  dk_fresh :: nat
  dk_log :: "(fpath \<Rightarrow> nat option) list"

definition dk_read :: "disk \<Rightarrow> fpath \<Rightarrow> bytes option" where
  "dk_read d p = map_option (dk_data d) (dk_names d p)"

definition dk_file :: "disk \<Rightarrow> fpath \<Rightarrow> (io_error, bytes) res" where
  "dk_file d p = (case dk_read d p of Some bs \<Rightarrow> Inr bs | None \<Rightarrow> Inl (Err NotFound))"

definition dk_relink :: "(fpath \<Rightarrow> nat option) \<Rightarrow> disk \<Rightarrow> disk" where
  "dk_relink nm d = d\<lparr>dk_names := nm, dk_log := dk_names d # dk_log d\<rparr>"

definition dk_set :: "nat \<Rightarrow> bytes \<Rightarrow> disk \<Rightarrow> disk" where
  "dk_set i bs d = d\<lparr>dk_data := (dk_data d)(i := bs), dk_safe := (dk_safe d)(i := False)\<rparr>"

definition dk_create :: "fpath \<Rightarrow> disk \<Rightarrow> nat \<times> disk" where
  "dk_create p d = (case dk_names d p of
     Some i \<Rightarrow> (i, dk_set i [] d)
   | None \<Rightarrow> (dk_fresh d, dk_set (dk_fresh d) [] (dk_relink ((dk_names d)(p \<mapsto> dk_fresh d)) (d\<lparr>dk_fresh := dk_fresh d + 1\<rparr>))))"

text \<open>A descriptor keeps its own position; past the end of a file that was truncated meanwhile the gap reads as zeros.\<close>

definition dk_write :: "nat \<Rightarrow> nat \<Rightarrow> bytes \<Rightarrow> disk \<Rightarrow> disk" where
  "dk_write i off bs d =
     (let old = dk_data d i in
      dk_set i (take off (old @ replicate (off - length old) 0) @ bs @ drop (off + length bs) old) d)"

definition dk_flush :: "nat \<Rightarrow> disk \<Rightarrow> disk" where
  "dk_flush i d = d\<lparr>dk_safe := (dk_safe d)(i := True)\<rparr>"

definition dk_rename :: "fpath \<Rightarrow> fpath \<Rightarrow> disk \<Rightarrow> disk option" where
  "dk_rename p q d = map_option (\<lambda>i. dk_relink ((dk_names d)(p := None, q \<mapsto> i)) d) (dk_names d p)"

inductive power_loss :: "disk \<Rightarrow> disk \<Rightarrow> bool" where
  "nm \<in> set (dk_names d # dk_log d) \<Longrightarrow> (\<And>i. dk_safe d i \<Longrightarrow> data' i = dk_data d i) \<Longrightarrow>
   power_loss d (d\<lparr>dk_names := nm, dk_data := data', dk_safe := (\<lambda>_. True), dk_log := []\<rparr>)"

section \<open>One writer\<close>

datatype flush = NoFlush | TryFlush | MustFlush

record file_writer =
  fw_path :: fpath
  fw_tmp :: fpath
  fw_bytes :: bytes
  fw_flush :: flush

text \<open>\<open>File::open(&tmp)\<close> with \<open>sync_all\<close>, both results dropped.\<close>

definition catalog_writer :: "fpath \<Rightarrow> bytes \<Rightarrow> file_writer" where
  "catalog_writer p bs = \<lparr>fw_path = p, fw_tmp = with_extension ''tmp'' p, fw_bytes = bs, fw_flush = TryFlush\<rparr>"

definition identity_writer :: "fpath \<Rightarrow> bytes \<Rightarrow> file_writer" where
  "identity_writer p seed = \<lparr>fw_path = p, fw_tmp = with_extension ''key.tmp'' p, fw_bytes = seed, fw_flush = NoFlush\<rparr>"

definition shard_writer :: "string \<Rightarrow> shard_key3 \<Rightarrow> bytes \<Rightarrow> shard \<Rightarrow> file_writer" where
  "shard_writer dir k h s =
     (let p = FPath (dir @ ''/'' @ take 2 (hex h)) (drop 2 (hex h) @ ''.shard'')
      in \<lparr>fw_path = p, fw_tmp = with_extension ''shard.tmp'' p, fw_bytes = shard_file k s, fw_flush = MustFlush\<rparr>)"

datatype save_pc = SaveDirs | SaveCreate | SaveWrite nat nat bytes | SaveOpen | SaveSync nat | SaveRename | SaveOk | SaveErr

definition after_write :: "file_writer \<Rightarrow> nat \<Rightarrow> save_pc" where
  "after_write wr i = (case fw_flush wr of NoFlush \<Rightarrow> SaveRename | TryFlush \<Rightarrow> SaveOpen | MustFlush \<Rightarrow> SaveSync i)"

text \<open>The system calls in their order. \<open>save_fails\<close> is the \<open>?\<close> behind every call but the two of the catalog's flush.\<close>

inductive save_step :: "file_writer \<Rightarrow> save_pc \<times> disk \<Rightarrow> save_pc \<times> disk \<Rightarrow> bool" for wr where
  save_dirs: "save_step wr (SaveDirs, d) (SaveCreate, d)"
| save_create: "dk_create (fw_tmp wr) d = (i, d') \<Longrightarrow> save_step wr (SaveCreate, d) (SaveWrite i 0 (fw_bytes wr), d')"
| save_write: "0 < n \<Longrightarrow> n \<le> length rest \<Longrightarrow>
    save_step wr (SaveWrite i off rest, d) (SaveWrite i (off + n) (drop n rest), dk_write i off (take n rest) d)"
| save_written: "save_step wr (SaveWrite i off [], d) (after_write wr i, d)"
| save_open: "dk_names d (fw_tmp wr) = Some i \<Longrightarrow> save_step wr (SaveOpen, d) (SaveSync i, d)"
| save_open_fails: "save_step wr (SaveOpen, d) (SaveRename, d)"
| save_sync: "save_step wr (SaveSync i, d) (SaveRename, dk_flush i d)"
| save_sync_fails: "fw_flush wr = TryFlush \<Longrightarrow> save_step wr (SaveSync i, d) (SaveRename, d)"
| save_rename: "dk_rename (fw_tmp wr) (fw_path wr) d = Some d' \<Longrightarrow> save_step wr (SaveRename, d) (SaveOk, d')"
| save_fails: "pc \<notin> {SaveOpen, SaveOk, SaveErr} \<Longrightarrow> \<not> (fw_flush wr = TryFlush \<and> (\<exists>i. pc = SaveSync i)) \<Longrightarrow>
    save_step wr (pc, d) (SaveErr, d)"

inductive_cases save_stepE: "save_step wr (pc, d) (pc', d')"

abbreviation save_run :: "file_writer \<Rightarrow> save_pc \<times> disk \<Rightarrow> save_pc \<times> disk \<Rightarrow> bool" where
  "save_run wr \<equiv> (save_step wr)\<^sup>*\<^sup>*"

text \<open>Every call takes the writer forward: a run has no more steps than the content has bytes, and eight.\<close>

fun save_rank :: "file_writer \<Rightarrow> save_pc \<Rightarrow> nat" where
  "save_rank wr SaveDirs = length (fw_bytes wr) + 6"
| "save_rank wr SaveCreate = length (fw_bytes wr) + 5"
| "save_rank wr (SaveWrite i off rest) = length rest + 4"
| "save_rank wr SaveOpen = 3"
| "save_rank wr (SaveSync i) = 2"
| "save_rank wr SaveRename = 1"
| "save_rank wr _ = 0"

lemma save_step_rank: "save_step wr (pc, d) (pc', d') \<Longrightarrow> save_rank wr pc' < save_rank wr pc"
  by (erule save_stepE) (cases pc, auto simp: after_write_def split: flush.splits)+

section \<open>What one writer keeps\<close>

text \<open>No two names for one inode, and new inodes are new.\<close>

definition disk_ok :: "disk \<Rightarrow> bool" where
  "disk_ok d \<longleftrightarrow> (\<forall>p q i. dk_names d p = Some i \<longrightarrow> dk_names d q = Some i \<longrightarrow> p = q) \<and> (\<forall>p i. dk_names d p = Some i \<longrightarrow> i < dk_fresh d)"

lemma disk_okD: "disk_ok d \<Longrightarrow> dk_names d p = Some i \<Longrightarrow> dk_names d q = Some i \<Longrightarrow> p = q"
  by (simp add: disk_ok_def)

text \<open>What a writer has done when it stands at a program counter.\<close>

fun written :: "file_writer \<Rightarrow> save_pc \<Rightarrow> disk \<Rightarrow> bool" where
  "written wr (SaveWrite i off rest) d \<longleftrightarrow>
     dk_names d (fw_tmp wr) = Some i \<and> off \<le> length (fw_bytes wr) \<and> dk_data d i = take off (fw_bytes wr) \<and> rest = drop off (fw_bytes wr)"
| "written wr SaveOpen d \<longleftrightarrow> dk_read d (fw_tmp wr) = Some (fw_bytes wr) \<and> fw_flush wr = TryFlush"
| "written wr (SaveSync i) d \<longleftrightarrow> dk_names d (fw_tmp wr) = Some i \<and> dk_data d i = fw_bytes wr"
| "written wr SaveRename d \<longleftrightarrow>
     (\<exists>i. dk_names d (fw_tmp wr) = Some i \<and> dk_data d i = fw_bytes wr \<and> (fw_flush wr = MustFlush \<longrightarrow> dk_safe d i))"
| "written wr SaveOk d \<longleftrightarrow>
     (\<exists>i. dk_names d (fw_path wr) = Some i \<and> dk_data d i = fw_bytes wr \<and> (fw_flush wr = MustFlush \<longrightarrow> dk_safe d i))"
| "written wr _ d \<longleftrightarrow> True"

text \<open>What it leaves alone: every name but the two it works with, and the content behind it.\<close>

definition others_kept :: "file_writer \<Rightarrow> disk \<Rightarrow> save_pc \<Rightarrow> disk \<Rightarrow> bool" where
  "others_kept wr d0 pc d \<longleftrightarrow>
     (\<forall>q. q \<noteq> fw_tmp wr \<longrightarrow> (q = fw_path wr \<longrightarrow> pc \<noteq> SaveOk) \<longrightarrow> dk_names d q = dk_names d0 q) \<and>
     (\<forall>q i. q \<noteq> fw_tmp wr \<longrightarrow> dk_names d0 q = Some i \<longrightarrow> dk_data d i = dk_data d0 i \<and> dk_safe d i = dk_safe d0 i \<and> i < dk_fresh d) \<and>
     (\<forall>nm \<in> set (dk_log d). \<forall>q. q \<noteq> fw_tmp wr \<longrightarrow> nm q = dk_names d0 q)"

definition save_inv :: "file_writer \<Rightarrow> disk \<Rightarrow> save_pc \<times> disk \<Rightarrow> bool" where
  "save_inv wr d0 = (\<lambda>(pc, d). disk_ok d \<and> written wr pc d \<and> others_kept wr d0 pc d)"

lemma save_inv_iff: "save_inv wr d0 (pc, d) \<longleftrightarrow> disk_ok d \<and> written wr pc d \<and> others_kept wr d0 pc d"
  by (simp add: save_inv_def)

text \<open>The inode behind the temporary name is nobody else's.\<close>

lemma others_inode:
  assumes "disk_ok d" and "others_kept wr d0 pc d" and "pc \<noteq> SaveOk" and "dk_names d (fw_tmp wr) = Some i"
    and "q \<noteq> fw_tmp wr" and "dk_names d0 q = Some j"
  shows "j \<noteq> i"
proof -
  have "dk_names d q = Some j" using assms(2,3,5,6) unfolding others_kept_def by metis
  then show ?thesis using disk_okD[OF assms(1,4)] assms(5) by blast
qed

lemma others_kept_pc: "others_kept wr d0 pc d \<Longrightarrow> pc \<noteq> SaveOk \<Longrightarrow> others_kept wr d0 pc' d"
  by (simp add: others_kept_def)

lemma others_kept_touch:
  assumes "disk_ok d" and "others_kept wr d0 pc d" and "pc \<noteq> SaveOk" and "dk_names d (fw_tmp wr) = Some i"
  shows "others_kept wr d0 pc' (dk_set i bs d)" and "others_kept wr d0 pc' (dk_flush i d)"
  using others_kept_pc[OF assms(2,3), of pc'] others_inode[OF assms]
  unfolding others_kept_def dk_set_def dk_flush_def by simp_all

lemma disk_ok_touch: "disk_ok (dk_set i bs d) = disk_ok d" "disk_ok (dk_flush i d) = disk_ok d"
  by (simp_all add: disk_ok_def dk_set_def dk_flush_def)

lemma written_tmp: "written wr (SaveWrite i off rest) d \<Longrightarrow> dk_write i off (take n rest) d =
    dk_set i (take (off + min n (length rest)) (fw_bytes wr)) d"
  by (auto simp: dk_write_def Let_def min_def take_add)

lemma save_inv_set:
  assumes "save_inv wr d0 (pc, d)" and "dk_names d (fw_tmp wr) = Some i" and "pc \<noteq> SaveOk"
    and "written wr pc' (dk_set i bs d)"
  shows "save_inv wr d0 (pc', dk_set i bs d)"
  using assms others_kept_touch(1) by (auto simp: save_inv_iff disk_ok_touch)

lemma save_inv_move: "save_inv wr d0 (pc, d) \<Longrightarrow> pc \<noteq> SaveOk \<Longrightarrow> written wr pc' d \<Longrightarrow> save_inv wr d0 (pc', d)"
  by (auto simp: save_inv_iff intro: others_kept_pc)

lemma save_inv_create:
  assumes inv: "save_inv wr d0 (SaveCreate, d)" and c: "dk_create (fw_tmp wr) d = (i, d')"
  shows "save_inv wr d0 (SaveWrite i 0 (fw_bytes wr), d')"
proof (cases "dk_names d (fw_tmp wr)")
  case (Some j)
  then have "i = j" "d' = dk_set j [] d" using c by (auto simp: dk_create_def)
  then show ?thesis using save_inv_set[OF inv Some] Some by (simp add: dk_set_def)
next
  case None
  let ?e = "dk_relink ((dk_names d)(fw_tmp wr \<mapsto> dk_fresh d)) (d\<lparr>dk_fresh := dk_fresh d + 1\<rparr>)"
  have d': "i = dk_fresh d" "d' = dk_set i [] ?e" using c None by (auto simp: dk_create_def)
  have ok: "disk_ok d" "others_kept wr d0 SaveCreate d" using inv by (simp_all add: save_inv_iff)
  have nf: "dk_names d q \<noteq> Some (dk_fresh d)" for q using ok(1) by (auto simp: disk_ok_def)
  have "disk_ok ?e"
    using ok(1) nf by (auto simp: disk_ok_def dk_relink_def less_Suc_eq)
  moreover have "others_kept wr d0 SaveCreate ?e"
    using ok(2) by (simp add: others_kept_def dk_relink_def less_SucI)
  ultimately show ?thesis unfolding d' by (intro save_inv_set[of _ _ SaveCreate]) (simp_all add: save_inv_iff dk_relink_def dk_set_def)
qed

lemma save_inv_rename:
  assumes inv: "save_inv wr d0 (SaveRename, d)" and r: "dk_rename (fw_tmp wr) (fw_path wr) d = Some d'"
    and ne: "fw_tmp wr \<noteq> fw_path wr"
  shows "save_inv wr d0 (SaveOk, d')"
proof -
  obtain i where i: "dk_names d (fw_tmp wr) = Some i" and
    d': "d' = dk_relink ((dk_names d)(fw_tmp wr := None, fw_path wr \<mapsto> i)) d"
    using r by (auto simp: dk_rename_def)
  have ok: "disk_ok d" "others_kept wr d0 SaveRename d" "written wr SaveRename d" using inv by (simp_all add: save_inv_iff)
  have "q = fw_tmp wr" if "dk_names d q = Some i" for q using disk_okD[OF ok(1) that i] .
  then have "disk_ok d'" using ok(1) i unfolding d' by (auto simp: disk_ok_def dk_relink_def)
  moreover have "others_kept wr d0 SaveOk d'" using ok(2) ne unfolding d' by (simp add: others_kept_def dk_relink_def)
  moreover have "written wr SaveOk d'" using ok(3) i ne unfolding d' by (simp add: dk_relink_def)
  ultimately show ?thesis by (simp add: save_inv_iff)
qed

lemma save_inv_flush:
  assumes "save_inv wr d0 (SaveSync i, d)" shows "save_inv wr d0 (SaveRename, dk_flush i d)"
proof -
  have w: "disk_ok d" "others_kept wr d0 (SaveSync i) d" "dk_names d (fw_tmp wr) = Some i" "dk_data d i = fw_bytes wr"
    using assms by (simp_all add: save_inv_iff)
  then show ?thesis using others_kept_touch(2)[OF w(1,2) _ w(3)]
    by (simp add: save_inv_iff disk_ok_touch) (simp add: dk_flush_def)
qed

lemma save_step_inv:
  assumes "save_step wr s s'" and "save_inv wr d0 s" and "fw_tmp wr \<noteq> fw_path wr"
  shows "save_inv wr d0 s'"
  using assms(1,2)
proof cases
  case (save_write n rest i off d)
  then have w: "written wr (SaveWrite i off rest) d" using assms(2) by (simp add: save_inv_iff)
  show ?thesis unfolding save_write written_tmp[OF w]
  proof (rule save_inv_set[OF assms(2)[unfolded save_write]])
    show "written wr (SaveWrite i (off + n) (drop n rest)) (dk_set i (take (off + min n (length rest)) (fw_bytes wr)) d)"
      using w save_write by (auto simp: dk_set_def min_absorb1 add.commute)
  qed (use w in simp_all)
next
  case (save_written i off d)
  then have w: "written wr (after_write wr i) d"
    using assms(2) by (cases "fw_flush wr") (simp_all add: after_write_def save_inv_iff dk_read_def)
  show ?thesis unfolding save_written
    by (rule save_inv_move[OF assms(2)[unfolded save_written] _ w]) simp
next
  case (save_open d i)
  then show ?thesis using assms(2) by (auto simp: dk_read_def save_inv_iff intro: others_kept_pc)
next
  case (save_open_fails d)
  then show ?thesis using assms(2) by (auto simp: dk_read_def save_inv_iff intro: others_kept_pc)
next
  case (save_sync_fails i d)
  then show ?thesis using assms(2) by (auto simp: save_inv_iff intro: others_kept_pc)
next
  case (save_fails pc d)
  then show ?thesis using save_inv_move[OF assms(2)[unfolded save_fails(1)]] by simp
next
  case (save_dirs d)
  then show ?thesis using save_inv_move[OF assms(2)[unfolded save_dirs(1)]] by simp
qed (use assms(2,3) save_inv_create save_inv_rename save_inv_flush in simp_all)

text \<open>The file system a writer starts on: nothing is behind but what was flushed.\<close>

definition disk_clean :: "disk \<Rightarrow> bool" where
  "disk_clean d \<longleftrightarrow> disk_ok d \<and> dk_log d = [] \<and> (\<forall>i. dk_safe d i)"

lemma save_run_inv:
  assumes "save_run wr (SaveDirs, d0) s" and "disk_clean d0" and "fw_tmp wr \<noteq> fw_path wr"
  shows "save_inv wr d0 s"
  using assms(1)
proof induction
  case base
  show ?case using assms(2) by (simp add: save_inv_iff disk_clean_def disk_ok_def others_kept_def)
next
  case (step s s')
  then show ?case using save_step_inv[OF _ _ assms(3)] by blast
qed

lemma others_read: "others_kept wr d0 pc d \<Longrightarrow> q \<noteq> fw_tmp wr \<Longrightarrow> (q = fw_path wr \<Longrightarrow> pc \<noteq> SaveOk) \<Longrightarrow> dk_read d q = dk_read d0 q"
  by (cases "dk_names d0 q") (auto simp: others_kept_def dk_read_def)

lemma save_run_read:
  assumes "save_run wr (SaveDirs, d0) (pc, d)" and "disk_clean d0" and "fw_tmp wr \<noteq> fw_path wr"
  shows "dk_read d (fw_path wr) = (if pc = SaveOk then Some (fw_bytes wr) else dk_read d0 (fw_path wr))"
    and "q \<noteq> fw_tmp wr \<Longrightarrow> q \<noteq> fw_path wr \<Longrightarrow> dk_read d q = dk_read d0 q"
proof -
  have i: "written wr pc d" "others_kept wr d0 pc d" using save_run_inv[OF assms] by (simp_all add: save_inv_iff)
  show "dk_read d (fw_path wr) = (if pc = SaveOk then Some (fw_bytes wr) else dk_read d0 (fw_path wr))"
    using i(1) others_read[OF i(2), of "fw_path wr"] assms(3) by (auto simp: dk_read_def)
  show "dk_read d q = dk_read d0 q" if "q \<noteq> fw_tmp wr" "q \<noteq> fw_path wr"
    using others_read[OF i(2)] that by blast
qed

text \<open>A loss of power in the middle, or any time after: with a flush that must succeed the content is the old or the new one.\<close>

lemma save_power_loss:
  assumes "save_run wr (SaveDirs, d0) (pc, d)" and clean: "disk_clean d0" and ne: "fw_tmp wr \<noteq> fw_path wr"
    and "power_loss d d'" and must: "fw_flush wr = MustFlush"
  shows "dk_read d' (fw_path wr) \<in> {dk_read d0 (fw_path wr), Some (fw_bytes wr)}"
    and "q \<noteq> fw_tmp wr \<Longrightarrow> q \<noteq> fw_path wr \<Longrightarrow> dk_read d' q = dk_read d0 q"
proof -
  have i: "written wr pc d" "others_kept wr d0 pc d" using save_run_inv[OF assms(1-3)] by (simp_all add: save_inv_iff)
  from assms(4) obtain nm content where nm: "nm \<in> set (dk_names d # dk_log d)" and
    kept: "\<And>i. dk_safe d i \<Longrightarrow> content i = dk_data d i" and
    d': "d' = d\<lparr>dk_names := nm, dk_data := content, dk_safe := (\<lambda>_. True), dk_log := []\<rparr>" by (rule power_loss.cases) blast
  have same: "map_option content (dk_names d0 q) = dk_read d0 q" if "q \<noteq> fw_tmp wr" for q
  proof (cases "dk_names d0 q")
    case (Some j)
    then have "dk_data d j = dk_data d0 j" "dk_safe d j"
      using i(2) clean that by (auto simp: others_kept_def disk_clean_def)
    then show ?thesis using Some kept by (simp add: dk_read_def)
  qed (simp add: dk_read_def)
  show "dk_read d' q = dk_read d0 q" if "q \<noteq> fw_tmp wr" "q \<noteq> fw_path wr"
  proof -
    have "nm q = dk_names d0 q" using nm i(2) that by (auto simp: others_kept_def)
    then show ?thesis using same[OF that(1)] d' by (simp add: dk_read_def)
  qed
  show "dk_read d' (fw_path wr) \<in> {dk_read d0 (fw_path wr), Some (fw_bytes wr)}"
  proof (cases "nm (fw_path wr) = dk_names d0 (fw_path wr)")
    case True
    then show ?thesis using same[OF ne[symmetric]] d' by (simp add: dk_read_def)
  next
    case False
    then have "nm = dk_names d" using nm i(2) ne by (auto simp: others_kept_def)
    moreover from this have "pc = SaveOk" using False i(2) ne unfolding others_kept_def by metis
    ultimately have "nm = dk_names d" "pc = SaveOk" .
    then show ?thesis using i(1) must kept d' by (auto simp: dk_read_def)
  qed
qed

section \<open>A run without a failure\<close>

lemma fill_run:
  assumes "dk_create (fw_tmp wr) d = (i, d1)"
  shows "save_run wr (SaveDirs, d) (after_write wr i, dk_set i (fw_bytes wr) d1)"
proof -
  have new: "dk_data d1 i = []" "dk_safe d1 i = False" using assms by (auto simp: dk_create_def dk_set_def split: option.splits)
  have "save_run wr (SaveDirs, d) (SaveWrite i 0 (fw_bytes wr), d1)"
    using save_dirs save_create[OF assms] by (meson converse_rtranclp_into_rtranclp r_into_rtranclp)
  also have "save_run wr (SaveWrite i 0 (fw_bytes wr), d1) (SaveWrite i (length (fw_bytes wr)) [], dk_set i (fw_bytes wr) d1)"
  proof (cases "fw_bytes wr = []")
    case True
    have "dk_set i [] d1 = d1" unfolding dk_set_def using new by (simp add: fun_upd_idem)
    then show ?thesis using True by simp
  next
    case False
    have "dk_write i 0 (fw_bytes wr) d1 = dk_set i (fw_bytes wr) d1" using new by (simp add: dk_write_def)
    then show ?thesis using save_write[of "length (fw_bytes wr)" "fw_bytes wr" wr i 0 d1] False by auto
  qed
  also have "save_run wr (SaveWrite i (length (fw_bytes wr)) [], dk_set i (fw_bytes wr) d1) (after_write wr i, dk_set i (fw_bytes wr) d1)"
    by (simp add: r_into_rtranclp save_written)
  finally show ?thesis .
qed

lemma create_name: "dk_create p d = (i, d1) \<Longrightarrow> dk_names d1 p = Some i"
  by (auto simp: dk_create_def dk_set_def dk_relink_def split: option.splits)

text \<open>Up to the rename, with the flush left out where its failure is ignored.\<close>

lemma unflushed_run:
  assumes "fw_flush wr \<noteq> MustFlush" and "dk_create (fw_tmp wr) d = (i, d1)"
  shows "save_run wr (SaveDirs, d) (SaveRename, dk_set i (fw_bytes wr) d1)"
proof -
  have "save_run wr (after_write wr i, dk_set i (fw_bytes wr) d1) (SaveRename, dk_set i (fw_bytes wr) d1)"
    using assms(1) by (cases "fw_flush wr") (auto simp: after_write_def intro: save_open_fails)
  then show ?thesis using fill_run[OF assms(2)] by (rule rtranclp_trans[rotated])
qed

lemma save_completes: "\<exists>d'. save_run wr (SaveDirs, d) (SaveOk, d') \<and> dk_read d' (fw_path wr) = Some (fw_bytes wr)"
proof -
  obtain i d1 where c: "dk_create (fw_tmp wr) d = (i, d1)" by fastforce
  let ?e = "dk_set i (fw_bytes wr) d1"
  have n: "dk_names ?e (fw_tmp wr) = Some i" using create_name[OF c] by (simp add: dk_set_def)
  have "\<exists>e. save_run wr (after_write wr i, ?e) (SaveRename, e) \<and> dk_names e (fw_tmp wr) = Some i \<and> dk_data e i = fw_bytes wr"
  proof (cases "fw_flush wr")
    case MustFlush
    have "save_step wr (SaveSync i, ?e) (SaveRename, dk_flush i ?e)" by (rule save_sync)
    then show ?thesis using MustFlush n
      by (intro exI[of _ "dk_flush i ?e"]) (auto simp: after_write_def dk_flush_def dk_set_def)
  qed (use n in \<open>auto simp: after_write_def dk_set_def intro!: exI[of _ ?e] save_open_fails\<close>)
  then obtain e where e: "save_run wr (after_write wr i, ?e) (SaveRename, e)" "dk_names e (fw_tmp wr) = Some i" "dk_data e i = fw_bytes wr"
    by blast
  let ?d = "dk_relink ((dk_names e)(fw_tmp wr := None, fw_path wr \<mapsto> i)) e"
  have "save_step wr (SaveRename, e) (SaveOk, ?d)" using e(2) by (intro save_rename) (simp add: dk_rename_def)
  then have "save_run wr (SaveDirs, d) (SaveOk, ?d)"
    using fill_run[OF c] e(1) by (meson rtranclp.rtrancl_into_rtrancl rtranclp_trans)
  moreover have "dk_read ?d (fw_path wr) = Some (fw_bytes wr)" using e(3) by (simp add: dk_read_def dk_relink_def)
  ultimately show ?thesis by blast
qed

text \<open>Without the flush a loss of power after the return of the writer may leave anything under the name.\<close>

lemma unflushed_lost:
  assumes "fw_flush wr \<noteq> MustFlush"
  shows "\<exists>d d'. save_run wr (SaveDirs, d0) (SaveOk, d) \<and> power_loss d d' \<and> dk_read d' (fw_path wr) = Some rubbish"
proof -
  obtain i d1 where c: "dk_create (fw_tmp wr) d0 = (i, d1)" by fastforce
  let ?e = "dk_set i (fw_bytes wr) d1"
  let ?d = "dk_relink ((dk_names ?e)(fw_tmp wr := None, fw_path wr \<mapsto> i)) ?e"
  let ?l = "?d\<lparr>dk_names := dk_names ?d, dk_data := (dk_data ?d)(i := rubbish), dk_safe := (\<lambda>_. True), dk_log := []\<rparr>"
  have n: "dk_names ?e (fw_tmp wr) = Some i" using create_name[OF c] by (simp add: dk_set_def)
  then have "save_step wr (SaveRename, ?e) (SaveOk, ?d)" by (intro save_rename) (simp add: dk_rename_def)
  then have "save_run wr (SaveDirs, d0) (SaveOk, ?d)" using unflushed_run[OF assms c] by (rule rtranclp.rtrancl_into_rtrancl[rotated])
  moreover have "power_loss ?d ?l"
    by (rule power_loss.intros) (auto simp: dk_relink_def dk_set_def split: if_splits)
  moreover have "dk_read ?l (fw_path wr) = Some rubbish" by (simp add: dk_read_def dk_relink_def)
  ultimately show ?thesis by blast
qed

section \<open>Two requests save the catalog\<close>

text \<open>A request that changes the catalog: the change under the lock, then \<open>persist_catalog\<close>, which takes its snapshot under
  the lock again and saves it without.\<close>

datatype handler = Editing | Snapshotting | Saving bytes save_pc

record saving_sys =
  sy_catalog :: catalog
  sy_disk :: disk
  sy_handlers :: "nat \<Rightarrow> handler"

inductive persist_step :: "fpath \<Rightarrow> (nat \<Rightarrow> catalog \<Rightarrow> catalog) \<Rightarrow> saving_sys \<Rightarrow> saving_sys \<Rightarrow> bool" for p edit where
  persist_edit: "sy_handlers s i = Editing \<Longrightarrow>
    persist_step p edit s (s\<lparr>sy_catalog := edit i (sy_catalog s), sy_handlers := (sy_handlers s)(i := Snapshotting)\<rparr>)"
| persist_snapshot: "sy_handlers s i = Snapshotting \<Longrightarrow> (cat_encode (sy_catalog s) :: (unit, _) res) = Inr bs \<Longrightarrow>
    persist_step p edit s (s\<lparr>sy_handlers := (sy_handlers s)(i := Saving bs SaveDirs)\<rparr>)"
| persist_save: "sy_handlers s i = Saving bs pc \<Longrightarrow> save_step (catalog_writer p bs) (pc, sy_disk s) (pc', d') \<Longrightarrow>
    persist_step p edit s (s\<lparr>sy_disk := d', sy_handlers := (sy_handlers s)(i := Saving bs pc')\<rparr>)"

abbreviation persist_run :: "fpath \<Rightarrow> (nat \<Rightarrow> catalog \<Rightarrow> catalog) \<Rightarrow> saving_sys \<Rightarrow> saving_sys \<Rightarrow> bool" where
  "persist_run p edit \<equiv> (persist_step p edit)\<^sup>*\<^sup>*"

lemma persist_lift:
  assumes "save_run (catalog_writer p bs) (pc, d) (pc', d')"
  shows "persist_run p edit \<lparr>sy_catalog = c, sy_disk = d, sy_handlers = h(i := Saving bs pc)\<rparr>
    \<lparr>sy_catalog = c, sy_disk = d', sy_handlers = h(i := Saving bs pc')\<rparr>"
  using assms
proof (induction rule: rtranclp_induct2)
  case (step pc1 d1 pc2 d2)
  have "persist_step p edit \<lparr>sy_catalog = c, sy_disk = d1, sy_handlers = h(i := Saving bs pc1)\<rparr>
      \<lparr>sy_catalog = c, sy_disk = d2, sy_handlers = h(i := Saving bs pc2)\<rparr>"
    using persist_save[of "\<lparr>sy_catalog = c, sy_disk = d1, sy_handlers = h(i := Saving bs pc1)\<rparr>" i bs pc1 p pc2 d2 edit] step.hyps(2)
    by simp
  with step.IH show ?case by (rule rtranclp.rtrancl_into_rtrancl)
qed simp

lemma persist_edited:
  assumes "(cat_encode (edit i c) :: (unit, _) res) = Inr bs" and "h i = Editing"
  shows "persist_run p edit \<lparr>sy_catalog = c, sy_disk = d, sy_handlers = h\<rparr>
    \<lparr>sy_catalog = edit i c, sy_disk = d, sy_handlers = h(i := Saving bs SaveDirs)\<rparr>"
proof -
  let ?s = "\<lparr>sy_catalog = c, sy_disk = d, sy_handlers = h\<rparr>"
  let ?t = "\<lparr>sy_catalog = edit i c, sy_disk = d, sy_handlers = h(i := Snapshotting)\<rparr>"
  have "persist_step p edit ?s ?t" using persist_edit[of ?s i p edit] assms(2) by simp
  moreover have "persist_step p edit ?t \<lparr>sy_catalog = edit i c, sy_disk = d, sy_handlers = h(i := Saving bs SaveDirs)\<rparr>"
    using persist_snapshot[of ?t i bs p edit] assms(1) by simp
  ultimately show ?thesis by (meson converse_rtranclp_into_rtranclp r_into_rtranclp)
qed

text \<open>Two requests, the second on the result of the first, each somewhere in its save.\<close>

definition two_saving :: "catalog \<Rightarrow> disk \<Rightarrow> bytes \<Rightarrow> save_pc \<Rightarrow> bytes \<Rightarrow> save_pc \<Rightarrow> saving_sys" where
  "two_saving c d bs1 pc1 bs2 pc2 =
     \<lparr>sy_catalog = c, sy_disk = d, sy_handlers = (\<lambda>_. Editing)(0 := Saving bs1 pc1, 1 := Saving bs2 pc2)\<rparr>"

definition saving_start :: "catalog \<Rightarrow> disk \<Rightarrow> saving_sys" where
  "saving_start c d = \<lparr>sy_catalog = c, sy_disk = d, sy_handlers = (\<lambda>_. Editing)\<rparr>"

lemma persist_both:
  assumes "(cat_encode (edit 0 c) :: (unit, _) res) = Inr bs1" and "(cat_encode (edit 1 (edit 0 c)) :: (unit, _) res) = Inr bs2"
  shows "persist_run p edit (saving_start c d) (two_saving (edit 1 (edit 0 c)) d bs1 SaveDirs bs2 SaveDirs)"
proof -
  have "persist_run p edit (saving_start c d)
      \<lparr>sy_catalog = edit 0 c, sy_disk = d, sy_handlers = (\<lambda>_. Editing)(0 := Saving bs1 SaveDirs)\<rparr>"
    unfolding saving_start_def using persist_edited[where edit = edit and i = 0 and c = c, OF assms(1)] by simp
  also have "persist_run p edit \<dots> (two_saving (edit 1 (edit 0 c)) d bs1 SaveDirs bs2 SaveDirs)"
    unfolding two_saving_def using persist_edited[where edit = edit and i = 1 and c = "edit 0 c", OF assms(2)] by simp
  finally show ?thesis .
qed

lemma persist_first:
  assumes "save_run (catalog_writer p bs1) (pc1, d) (pc1', d')"
  shows "persist_run p edit (two_saving c d bs1 pc1 bs2 pc2) (two_saving c d' bs1 pc1' bs2 pc2)"
  using persist_lift[OF assms, of edit c "(\<lambda>_. Editing)(1 := Saving bs2 pc2)" 0] by (simp add: two_saving_def fun_upd_twist)

lemma persist_second:
  assumes "save_run (catalog_writer p bs2) (pc2, d) (pc2', d')"
  shows "persist_run p edit (two_saving c d bs1 pc1 bs2 pc2) (two_saving c d' bs1 pc1 bs2 pc2')"
  using persist_lift[OF assms, of edit c "(\<lambda>_. Editing)(0 := Saving bs1 pc1)" 1] by (simp add: two_saving_def)

lemma writer_sel [simp]:
  "fw_path (catalog_writer p bs) = p" "fw_tmp (catalog_writer p bs) = with_extension ''tmp'' p"
  "fw_bytes (catalog_writer p bs) = bs" "fw_flush (catalog_writer p bs) = TryFlush"
  "fw_path (identity_writer p bs) = p" "fw_tmp (identity_writer p bs) = with_extension ''key.tmp'' p"
  "fw_bytes (identity_writer p bs) = bs" "fw_flush (identity_writer p bs) = NoFlush"
  by (simp_all add: catalog_writer_def identity_writer_def)

text \<open>The snapshots are written in the other order.\<close>

lemma older_written_last:
  "\<exists>d'. persist_run p edit (two_saving c d bs1 SaveDirs bs2 SaveDirs) (two_saving c d' bs1 SaveOk bs2 SaveOk) \<and> dk_file d' p = Inr bs1"
proof -
  obtain d1 where d1: "save_run (catalog_writer p bs2) (SaveDirs, d) (SaveOk, d1)" using save_completes by blast
  obtain d2 where d2: "save_run (catalog_writer p bs1) (SaveDirs, d1) (SaveOk, d2)" "dk_read d2 p = Some bs1"
    using save_completes[of "catalog_writer p bs1" d1] by auto
  have "persist_run p edit (two_saving c d bs1 SaveDirs bs2 SaveDirs) (two_saving c d2 bs1 SaveOk bs2 SaveOk)"
    using persist_second[OF d1] persist_first[OF d2(1)] by (rule rtranclp_trans)
  then show ?thesis using d2(2) by (auto simp: dk_file_def)
qed

text \<open>The second saver renames the file the first one has just truncated.\<close>

lemma truncated_renamed:
  "\<exists>i d'. persist_run p edit (two_saving c d bs1 SaveDirs bs2 SaveDirs) (two_saving c d' bs1 (SaveWrite i 0 bs1) bs2 SaveOk) \<and>
    dk_file d' p = Inr []"
proof -
  let ?t = "with_extension ''tmp'' p"
  obtain i e1 where c1: "dk_create ?t d = (i, e1)" by fastforce
  let ?e2 = "dk_set i bs2 e1"
  let ?e3 = "dk_set i [] ?e2"
  let ?e4 = "dk_relink ((dk_names ?e3)(?t := None, p \<mapsto> i)) ?e3"
  have full: "save_run (catalog_writer p bs2) (SaveDirs, d) (SaveRename, ?e2)"
    using unflushed_run[of "catalog_writer p bs2"] c1 by simp
  have n: "dk_names ?e2 ?t = Some i" using create_name[OF c1] by (simp add: dk_set_def)
  have "save_step (catalog_writer p bs1) (SaveCreate, ?e2) (SaveWrite i 0 bs1, ?e3)"
    using save_create[of "catalog_writer p bs1" ?e2 i ?e3] n by (simp add: dk_create_def)
  then have trunc: "save_run (catalog_writer p bs1) (SaveDirs, ?e2) (SaveWrite i 0 bs1, ?e3)"
    using save_dirs by (meson converse_rtranclp_into_rtranclp r_into_rtranclp)
  have "save_step (catalog_writer p bs2) (SaveRename, ?e3) (SaveOk, ?e4)"
    using n by (intro save_rename) (simp add: dk_rename_def dk_set_def)
  then have "persist_run p edit (two_saving c d bs1 SaveDirs bs2 SaveDirs) (two_saving c ?e4 bs1 (SaveWrite i 0 bs1) bs2 SaveOk)"
    using persist_second[OF full] persist_first[OF trunc] persist_second[OF r_into_rtranclp] by (meson rtranclp_trans)
  moreover have "dk_file ?e4 p = Inr []" by (simp add: dk_file_def dk_read_def dk_relink_def dk_set_def)
  ultimately show ?thesis by blast
qed

section \<open>Properties\<close>

text \<open>C38: the promise of \<open>save_atomic\<close> for one saver. Whenever the saver is stopped, after any of its system calls and whatever
  failed before, loading the catalog gives exactly what it gave before or, once the rename is done, the new catalog; no other
  file has changed, but the temporary one. The name of the catalog must not itself end in \<open>.tmp\<close>.\<close>

theorem catalog_save_atomic:
  assumes "catalog_ok cat" and "(cat_encode cat :: (unit, _) res) = Inr bs" and "disk_clean d0" and "with_extension ''tmp'' p \<noteq> p"
    and "save_run (catalog_writer p bs) (SaveDirs, d0) (pc, d)"
  shows "cat_load (dk_file d p) = (if pc = SaveOk then Inr cat else cat_load (dk_file d0 p)) \<and>
    (\<forall>q. q \<noteq> p \<and> q \<noteq> with_extension ''tmp'' p \<longrightarrow> dk_read d q = dk_read d0 q)"
proof -
  have "cat_decode bs = Inr cat" using cat_roundtrip[OF assms(1), of "[]", where 'e = unit] assms(2) by simp
  then show ?thesis using save_run_read[OF assms(5,3)] assms(4) by (auto simp: dk_file_def cat_load_def)
qed

text \<open>C39: what two savers do to each other. \<open>persist_catalog\<close> takes its snapshot under the lock and writes it without, and all
  savers share one temporary file. When two requests have changed the catalog, the first snapshot may be written last: both
  requests report success, and the file lacks the change of the second. Or the first saver truncates the temporary file just
  before the second one renames it: the second request reports success, and a server that stops now finds a catalog that does
  not decode, and does not start again.\<close>

theorem concurrent_saves_lose:
  assumes "catalog_ok (edit 0 c)" and "catalog_ok (edit 1 (edit 0 c))"
  shows "(\<exists>bs1 bs2 d. persist_run p edit (saving_start c d0) (two_saving (edit 1 (edit 0 c)) d bs1 SaveOk bs2 SaveOk) \<and>
      cat_load (dk_file d p) = Inr (edit 0 c)) \<and>
    (\<exists>bs1 bs2 i d. persist_run p edit (saving_start c d0) (two_saving (edit 1 (edit 0 c)) d bs1 (SaveWrite i 0 bs1) bs2 SaveOk) \<and>
      cat_load (dk_file d p) = Inl (Err InvalidData))"
proof -
  obtain bs1 where b1: "(cat_encode (edit 0 c) :: (unit, _) res) = Inr bs1" "cat_decode bs1 = Inr (edit 0 c)"
    using cat_roundtrip[OF assms(1), of "[]", where 'e = unit] by auto
  obtain bs2 where b2: "(cat_encode (edit 1 (edit 0 c)) :: (unit, _) res) = Inr bs2"
    using cat_roundtrip[OF assms(2), of "[]", where 'e = unit] by auto
  note both = persist_both[OF b1(1) b2]
  have empty: "cat_load (Inr []) = Inl (Err InvalidData)" by (simp add: cat_load_def cat_decode_def)
  have whole: "cat_load (Inr bs1) = Inr (edit 0 c)" using b1(2) by (simp add: cat_load_def)
  show ?thesis
    using both older_written_last[of p edit "edit 1 (edit 0 c)" d0 bs1 bs2] truncated_renamed[of p edit "edit 1 (edit 0 c)" d0 bs1 bs2]
      empty whole by (metis (no_types) rtranclp_trans)
qed

text \<open>The identity of a node: it is not flushed before the rename. After a start that created it and returned, a loss of power
  may leave the file empty, and the node refuses to start from then on.\<close>

theorem identity_may_be_lost:
  "\<exists>d d'. save_run (identity_writer p seed) (SaveDirs, d0) (SaveOk, d) \<and> power_loss d d' \<and>
    load_or_create (dk_file d' p) fresh out = Inl (Err InvalidData)"
proof -
  obtain d d' where "save_run (identity_writer p seed) (SaveDirs, d0) (SaveOk, d)" "power_loss d d'" "dk_read d' p = Some []"
    using unflushed_lost[of "identity_writer p seed" d0 "[]"] by auto
  then have "save_run (identity_writer p seed) (SaveDirs, d0) (SaveOk, d) \<and> power_loss d d' \<and>
      load_or_create (dk_file d' p) fresh out = Inl (Err InvalidData)"
    by (simp add: load_or_create_def dk_file_def)
  then show ?thesis by blast
qed

text \<open>The shards of a node: \<open>write_shard_file\<close> flushes and checks it. Whatever stops the node, a loss of power included, the file
  of the shard reads as before or as exactly this shard, and what may be left of the temporary file is not read at a start.\<close>

theorem shard_save_atomic:
  assumes "shard_fits s" and "length h = 32" and "disk_clean d0"
    and "save_run (shard_writer dir k h s) (SaveDirs, d0) (pc, d)" and "d' = d \<or> power_loss d d'"
  shows "let p = fw_path (shard_writer dir k h s); t = fw_tmp (shard_writer dir k h s) in
    in_dir p @ ''/'' @ file_name p = dir @ ''/'' @ shard_path h \<and> \<not> suffix ''.shard'' (file_name t) \<and>
    map_option read_shard_file (dk_read d' p) \<in> {map_option read_shard_file (dk_read d0 p), Some (Inr (k, shard_hash s, s))} \<and>
    (\<forall>q. q \<noteq> p \<and> q \<noteq> t \<longrightarrow> dk_read d' q = dk_read d0 q)"
proof -
  let ?w = "shard_writer dir k h s"
  have sel: "fw_bytes ?w = shard_file k s" "fw_flush ?w = MustFlush" by (simp_all add: shard_writer_def Let_def)
  have t: "suffix ''.tmp'' (file_name (fw_tmp ?w))"
    by (simp add: shard_writer_def Let_def with_extension_def suffix_def)
  have p: "suffix ''.shard'' (file_name (fw_path ?w))" by (simp add: shard_writer_def Let_def suffix_def)
  have nt: "\<not> suffix ''.shard'' (file_name (fw_tmp ?w))" using t by (auto simp: suffix_def)
  then have ne: "fw_tmp ?w \<noteq> fw_path ?w" using p by auto
  have "dk_read d' (fw_path ?w) \<in> {dk_read d0 (fw_path ?w), Some (shard_file k s)} \<and>
      (\<forall>q. q \<noteq> fw_path ?w \<and> q \<noteq> fw_tmp ?w \<longrightarrow> dk_read d' q = dk_read d0 q)"
    using assms(5) save_run_read[OF assms(4,3) ne] save_power_loss[OF assms(4,3) ne _ sel(2), of d'] sel(1) by auto
  moreover have "in_dir (fw_path ?w) @ ''/'' @ file_name (fw_path ?w) = dir @ ''/'' @ shard_path h"
    by (simp add: shard_writer_def shard_path_def Let_def)
  ultimately show ?thesis using nt read_shard_file_ok[OF assms(1)] by (auto simp: Let_def)
qed

section \<open>The properties at concrete inputs\<close>

definition catalog_place :: fpath where "catalog_place = FPath ''data'' ''catalog.bin''"

text \<open>A medium with one unreadable catalog.\<close>

definition disk_example :: disk where
  "disk_example = \<lparr>dk_names = [catalog_place \<mapsto> 0], dk_data = (\<lambda>_. [1, 2, 3]), dk_safe = (\<lambda>_. True), dk_fresh = 1, dk_log = []\<rparr>"

lemma disk_example_clean: "disk_clean disk_example"
  by (auto simp: disk_clean_def disk_ok_def disk_example_def split: if_splits)

lemma catalog_place_tmp: "with_extension ''tmp'' catalog_place = FPath ''data'' ''catalog.tmp''"
  by (simp add: with_extension_def catalog_place_def file_stem_def Let_def)

theorem catalog_save_atomic_witness:
  "\<exists>bs d. save_run (catalog_writer catalog_place bs) (SaveDirs, disk_example) (SaveOk, d) \<and>
    cat_load (dk_file d catalog_place) = Inr cat_example \<and> cat_load (dk_file disk_example catalog_place) = Inl (Err InvalidData)"
proof -
  obtain bs where bs: "(cat_encode cat_example :: (unit, _) res) = Inr bs"
    using cat_roundtrip[OF cat_example_ok, of "[]", where 'e = unit] by auto
  obtain d where d: "save_run (catalog_writer catalog_place bs) (SaveDirs, disk_example) (SaveOk, d)"
    using save_completes by blast
  have ne: "with_extension ''tmp'' catalog_place \<noteq> catalog_place" unfolding catalog_place_tmp by (simp add: catalog_place_def)
  have "cat_load (dk_file disk_example catalog_place) = Inl (Err InvalidData)"
    by (simp add: dk_file_def dk_read_def disk_example_def cat_load_def cat_decode_def)
  with d catalog_save_atomic[OF cat_example_ok bs disk_example_clean ne d] show ?thesis by auto
qed

definition edit_example :: "nat \<Rightarrow> catalog \<Rightarrow> catalog" where
  "edit_example i = cat_insert (if i = 0 then ''a'' else ''b'') (manifest_directory 1)"

lemma edit_example_ok: "catalog_ok (edit_example 0 [])" "catalog_ok (edit_example 1 (edit_example 0 []))"
  by (simp_all add: edit_example_def cat_insert_def catalog_ok_def om_ok_def manifest_ok_def manifest_asserts_def
      manifest_directory_def str16_ok_def str_ok_def as_bytes_def manifest_body_def enc_head_def
      enc_layers_def enc_integrity_def enc_kind_def str16_be_def vec_u32_be_def)

theorem concurrent_saves_lose_witness:
  "\<exists>bs1 bs2 d. persist_run catalog_place edit_example (saving_start [] disk_example)
      (two_saving (edit_example 1 (edit_example 0 [])) d bs1 SaveOk bs2 SaveOk) \<and>
    cat_load (dk_file d catalog_place) = Inr [(''a'', manifest_directory 1)]"
proof -
  have e: "edit_example 0 [] = [(''a'', manifest_directory 1)]" by (simp add: edit_example_def cat_insert_def)
  show ?thesis using conjunct1[OF concurrent_saves_lose[OF edit_example_ok, of catalog_place disk_example]] by (simp only: e)
qed

end
