(* ===== verification/Demo.thy ===== *)
theory Demo
  imports Trigger Boot
begin

text \<open>
  \<open>holofs-cli/src/bin/holofs.rs\<close>, the core demonstration: a picture is transformed and coded, its shards are dealt out to the
  nodes, some nodes stop or die one after another with regenerations in between, and the picture is decoded from what is left.
  Three planes of coefficients stand for the picture; loading it, its quality in decibels, the images and texts that are
  written are left out. The three decoding loops of the file differ in how they record the layers they could not decode; here
  it is the list of those layers. The threshold of the repairs, one half in the program, is a parameter.

  Shown: whatever dies in whatever order, the decoded planes have the right coefficients in every layer that the remaining
  shards determine, and zeros in the others.
\<close>

section \<open>Coding a picture\<close>

definition layer_of :: "nat \<Rightarrow> nat \<Rightarrow> nat \<Rightarrow> nat" where
  "layer_of w h i = coeff_layer (i mod w) (i div w) w h"

definition demo_push :: "nat \<Rightarrow> nat \<Rightarrow> nat list list \<Rightarrow> nat \<times> nat \<Rightarrow> ('e, nat list list) res" where
  "demo_push w h lps xy = (case xy of (x, y) \<Rightarrow>
     rbind (at_idx lps (coeff_layer x y w h)) (\<lambda>ps. Inr (lps[coeff_layer x y w h := ps @ [y * w + x]])))"

definition demo_positions :: "nat \<Rightarrow> nat \<Rightarrow> ('e, nat list list) res" where
  "demo_positions w h = rfold (demo_push w h) (replicate NLAYERS []) (pixel_grid w h)"

definition demo_counts :: "nat list" where
  "demo_counts = map unat red_counts"

text \<open>The records, the symbol length of each layer, the next place of the round robin, the random source.\<close>

type_synonym demo_state = "shard_rec list \<times> nat list \<times> nat \<times> u64"

definition deal_shards :: "nat \<Rightarrow> nat \<Rightarrow> nat \<Rightarrow> shard list \<Rightarrow> shard_rec list" where
  "deal_shards c l rr ss = map (\<lambda>(i, s). \<lparr>sr_node = (rr + i) mod N_NODES, sr_channel = c, sr_layer = l, sr_shard = s\<rparr>)
     (zip [0..<length ss] ss)"

definition demo_put_layer :: "nat list list \<Rightarrow> u32 list \<Rightarrow> nat \<Rightarrow> demo_state \<Rightarrow> nat \<Rightarrow> ('e, demo_state) res" where
  "demo_put_layer lps plane c st l = (case st of (all, syms, rr, rng) \<Rightarrow>
     rbind (at_idx lps l) (\<lambda>ps.
     rbind (rmap (at_idx plane) ps) (\<lambda>vs.
     case encode_layer gf_new (concat (map f32_le vs)) (demo_counts ! l) rng of ((sl, shards), rng) \<Rightarrow>
       Inr (all @ deal_shards c l rr shards, syms[l := sl], rr + length shards, rng))))"

definition demo_put_channel :: "nat \<Rightarrow> nat \<Rightarrow> nat list list \<Rightarrow> u32 list list \<Rightarrow> demo_state \<Rightarrow> nat \<Rightarrow> ('e, demo_state) res" where
  "demo_put_channel w h lps original st c =
     rbind (at_idx original c) (\<lambda>pixels.
     rbind (haar_forward f32_wave pixels w h LEVELS) (\<lambda>plane.
       rfold (demo_put_layer lps plane c) st [0..<NLAYERS]))"

definition demo_encode :: "nat \<Rightarrow> nat \<Rightarrow> u32 list list \<Rightarrow> ('e, nat list list \<times> demo_state) res" where
  "demo_encode w h original =
     rbind (demo_positions w h) (\<lambda>lps.
     rbind (rfold (demo_put_channel w h lps original) ([], replicate NLAYERS 0, 0, rng_new 0xC0FFEE) [0..<3]) (\<lambda>st.
       Inr (lps, st)))"

section \<open>Losing nodes\<close>

text \<open>The first nodes stay alive.\<close>

definition demo_survivors :: "nat \<Rightarrow> shard_rec list \<Rightarrow> shard_rec list" where
  "demo_survivors surv all = filter (\<lambda>r. sr_node r < (N_NODES * surv + 99) div 100) all"

text \<open>One death of the series, with a regeneration where the trigger asks for it; the statistics of the repairs are collected.\<close>

definition demo_death :: "u32 \<Rightarrow> nat list \<Rightarrow> shard_rec list \<times> repair_stats list \<times> u64 \<Rightarrow> nat \<Rightarrow>
    ('e, shard_rec list \<times> repair_stats list \<times> u64) res" where
  "demo_death threshold syms st i = (case st of (all, stats, rng) \<Rightarrow>
     let dead = i mod N_NODES; all = filter (\<lambda>r. sr_node r \<noteq> dead) all in
     rbind (needs_repair all demo_counts threshold) (\<lambda>needed.
       if needed then
         rbind (regenerate_node gf_new dead all syms demo_counts K rng) (\<lambda>(all, st, rng). Inr (all, stats @ [st], rng))
       else Inr (all, stats, rng)))"

definition demo_series :: "u32 \<Rightarrow> nat list \<Rightarrow> shard_rec list \<Rightarrow> u64 \<Rightarrow> nat list \<Rightarrow>
    ('e, shard_rec list \<times> repair_stats list \<times> u64) res" where
  "demo_series threshold syms all rng deaths = rfold (demo_death threshold syms) (all, [], rng) deaths"

definition kill_count :: nat where "kill_count = N_NODES * 60 div 100"

text \<open>The control: the same deaths, no repair.\<close>

definition demo_noheal :: "nat list \<Rightarrow> shard_rec list \<Rightarrow> shard_rec list" where
  "demo_noheal deaths all = fold (\<lambda>i. filter (\<lambda>r. sr_node r \<noteq> i mod N_NODES)) deaths all"

section \<open>Decoding what is left\<close>

definition layer_shards :: "nat \<Rightarrow> nat \<Rightarrow> shard_rec list \<Rightarrow> shard list" where
  "layer_shards c l all = map sr_shard (filter (in_layer c l) all)"

definition demo_coeff :: "bytes \<Rightarrow> u32 list \<Rightarrow> nat \<times> nat \<Rightarrow> ('e, u32 list) res" where
  "demo_coeff bytes plane ip = (case ip of (idx, p) \<Rightarrow>
     rbind (rassert (idx * 4 + 4 \<le> length bytes)) (\<lambda>_. set_idx plane (p, f32_of_le (slice bytes (idx * 4) (idx * 4 + 4)))))"

definition demo_read_layer :: "nat list list \<Rightarrow> nat list \<Rightarrow> shard_rec list \<Rightarrow> nat \<Rightarrow> u32 list \<times> (nat \<times> nat) list \<Rightarrow> nat \<Rightarrow>
    ('e, u32 list \<times> (nat \<times> nat) list) res" where
  "demo_read_layer lps syms all c st l = (case st of (plane, lost) \<Rightarrow>
     rbind (at_idx syms l) (\<lambda>sl.
     rbind (decode_layer gf_new (layer_shards c l all) sl) (\<lambda>decoded. case decoded of
         None \<Rightarrow> Inr (plane, lost @ [(c, l)])
       | Some bytes \<Rightarrow>
           rbind (at_idx lps l) (\<lambda>ps.
           rbind (rfold (demo_coeff bytes) plane (zip [0..<length ps] ps)) (\<lambda>plane. Inr (plane, lost))))))"

definition demo_read_channel :: "nat \<Rightarrow> nat \<Rightarrow> nat list list \<Rightarrow> nat list \<Rightarrow> shard_rec list \<Rightarrow> u32 list list \<times> (nat \<times> nat) list \<Rightarrow> nat \<Rightarrow>
    ('e, u32 list list \<times> (nat \<times> nat) list) res" where
  "demo_read_channel w h lps syms all st c = (case st of (recon, lost) \<Rightarrow>
     rbind (rfold (demo_read_layer lps syms all c) (replicate (w * h) 0, lost) [0..<NLAYERS]) (\<lambda>(plane, lost).
     rbind (haar_inverse f32_wave plane w h LEVELS) (\<lambda>plane. Inr (recon @ [plane], lost))))"

definition demo_decode :: "nat \<Rightarrow> nat \<Rightarrow> nat list list \<Rightarrow> nat list \<Rightarrow> shard_rec list \<Rightarrow> ('e, u32 list list \<times> (nat \<times> nat) list) res" where
  "demo_decode w h lps syms all = rfold (demo_read_channel w h lps syms all) ([], []) [0..<3]"

section \<open>Positions\<close>

lemma demo_push_loop:
  "length lps = NLAYERS \<Longrightarrow> rfold (demo_push w h) lps (map (\<lambda>i. (i mod w, i div w)) js) =
    (Inr (map (\<lambda>l. lps ! l @ filter (\<lambda>i. layer_of w h i = l) js) [0..<NLAYERS]) :: ('e, _) res)"
proof (induction js arbitrary: lps)
  case Nil
  then show ?case using map_nth[of lps] by simp
next
  case (Cons j js)
  let ?l = "layer_of w h j"
  have l: "?l < NLAYERS" by (simp add: layer_of_def coeff_layer_less)
  have "demo_push w h lps (j mod w, j div w) = (Inr (lps[?l := lps ! ?l @ [j]]) :: ('e, _) res)"
    using l Cons.prems by (simp add: demo_push_def layer_of_def)
  moreover have "map (\<lambda>l. lps[?l := lps ! ?l @ [j]] ! l @ filter (\<lambda>i. layer_of w h i = l) js) [0..<NLAYERS] =
      map (\<lambda>l. lps ! l @ filter (\<lambda>i. layer_of w h i = l) (j # js)) [0..<NLAYERS]"
    using Cons.prems by (intro map_cong) (auto simp: nth_list_update)
  ultimately show ?case using Cons.IH[of "lps[?l := lps ! ?l @ [j]]"] Cons.prems by simp
qed

definition layer_places :: "nat \<Rightarrow> nat \<Rightarrow> nat list list" where
  "layer_places w h = map (\<lambda>l. filter (\<lambda>i. layer_of w h i = l) [0..<w * h]) [0..<NLAYERS]"

lemma demo_positions_eq: "demo_positions w h = (Inr (layer_places w h) :: ('e, _) res)"
  unfolding demo_positions_def pixel_grid_eq by (simp add: demo_push_loop layer_places_def)

lemma layer_places_at: "l < NLAYERS \<Longrightarrow> layer_places w h ! l = filter (\<lambda>i. layer_of w h i = l) [0..<w * h]"
  by (simp add: layer_places_def)

lemma length_layer_places [simp]: "length (layer_places w h) = NLAYERS"
  by (simp add: layer_places_def)

text \<open>Every layer has a place, the first of its corner.\<close>

lemma layer_nonempty:
  assumes "8 \<le> w" and "8 \<le> h" and "l < NLAYERS" shows "layer_places w h ! l \<noteq> []"
proof -
  have "\<exists>x < w. coeff_layer x 0 w h = l"
  proof -
    have l: "l \<in> {0, 1, 2, 3}" using assms(3) by (auto simp: NLAYERS_def LEVELS_def)
    then have "coeff_layer (if l = 0 then 0 else w div 2 ^ (4 - l)) 0 w h = l"
      using assms(1,2) by (auto simp: coeff_layer_def LEVELS_def upt_rec)
    moreover have "(if l = 0 then 0 else w div 2 ^ (4 - l)) < w" using assms(1) l by auto
    ultimately show ?thesis by blast
  qed
  then obtain x where x: "x < w" "coeff_layer x 0 w h = l" by blast
  have "w * 1 \<le> w * h" using assms(2) by (intro mult_le_mono2) simp
  then have "x < w * h" using x(1) by linarith
  moreover have "layer_of w h x = l" using x by (simp add: layer_of_def)
  ultimately show ?thesis by (auto simp: layer_places_at[OF assms(3)] filter_empty_conv)
qed

section \<open>What the coding leaves on the nodes\<close>

text \<open>The coefficients of a layer, the symbol length of a layer and the chunks that its shards combine.\<close>

definition layer_coeffs :: "nat \<Rightarrow> nat \<Rightarrow> u32 list list \<Rightarrow> nat \<Rightarrow> nat \<Rightarrow> u32 list" where
  "layer_coeffs w h planes c l = map ((!) (planes ! c)) (layer_places w h ! l)"

definition demo_lens :: "nat \<Rightarrow> nat \<Rightarrow> nat list" where
  "demo_lens w h = map (\<lambda>l. symbol_len_of K (4 * length (layer_places w h ! l))) [0..<NLAYERS]"

definition demo_chunks :: "nat \<Rightarrow> nat \<Rightarrow> u32 list list \<Rightarrow> nat \<Rightarrow> nat \<Rightarrow> bytes list" where
  "demo_chunks w h planes c l = chunks_of K (demo_lens w h ! l)
     (pad_to (K * demo_lens w h ! l) (concat (map f32_le (layer_coeffs w h planes c l))))"

abbreviation demo_ok :: "nat \<Rightarrow> nat \<Rightarrow> u32 list list \<Rightarrow> shard_rec list \<Rightarrow> bool" where
  "demo_ok w h planes all \<equiv> \<forall>r \<in> set all. rec_ok (demo_chunks w h planes) (demo_lens w h) r"

definition planes_ok :: "nat \<Rightarrow> nat \<Rightarrow> u32 list list \<Rightarrow> bool" where
  "planes_ok w h planes \<longleftrightarrow> length planes = 3 \<and> (\<forall>plane \<in> set planes. length plane = w * h)"

lemma demo_lens_at: "l < NLAYERS \<Longrightarrow> demo_lens w h ! l = symbol_len_of K (4 * length (layer_places w h ! l))"
  by (simp add: demo_lens_def)

lemma length_layer_coeffs [simp]: "length (layer_coeffs w h planes c l) = length (layer_places w h ! l)"
  by (simp add: layer_coeffs_def)

lemma place_in_plane: "l < NLAYERS \<Longrightarrow> p \<in> set (layer_places w h ! l) \<Longrightarrow> p < w * h"
  by (simp add: layer_places_at)

lemma demo_put_layer_ok:
  assumes "planes_ok w h planes" and "c < 3" and "l < NLAYERS"
  shows "\<exists>new rr' rng'. demo_put_layer (layer_places w h) (planes ! c) c (all, syms, rr, rng) l =
      (Inr (all @ new, syms[l := demo_lens w h ! l], rr', rng') :: ('e, _) res) \<and> demo_ok w h planes new"
proof -
  have len: "length (planes ! c) = w * h" using assms(1,2) by (simp add: planes_ok_def)
  have vs: "rmap (at_idx (planes ! c)) (layer_places w h ! l) = (Inr (layer_coeffs w h planes c l) :: ('e, _) res)"
    unfolding layer_coeffs_def using place_in_plane[OF assms(3)] len by (intro rmap_Inr) simp
  obtain sl shards rng' where
    e: "encode_layer gf_new (concat (map f32_le (layer_coeffs w h planes c l))) (demo_counts ! l) rng = ((sl, shards), rng')"
    by (metis prod.exhaust)
  then have k: "encode_layer_with_k gf_new (concat (map f32_le (layer_coeffs w h planes c l))) K (demo_counts ! l) rng = Inr ((sl, shards), rng')"
    by (simp add: encode_layer_is_with_k)
  have sl: "sl = demo_lens w h ! l" using encode_with_k_props(2)[OF k] assms(3) by (simp add: demo_lens_at)
  have "demo_ok w h planes (deal_shards c l rr shards)"
    using encode_with_k_props(4)[OF k] assms(2,3) sl
    by (auto simp: deal_shards_def rec_ok_def demo_chunks_def dest: set_zip_rightD)
  with vs e sl assms(3) show ?thesis by (simp add: demo_put_layer_def)
qed

text \<open>Whatever a layer or a channel adds is coded from the planes, and the symbol lengths come out the same for every channel.\<close>

definition syms_done :: "nat \<Rightarrow> nat \<Rightarrow> nat set \<Rightarrow> nat list \<Rightarrow> bool" where
  "syms_done w h ls syms \<longleftrightarrow> length syms = NLAYERS \<and> (\<forall>l \<in> ls. syms ! l = demo_lens w h ! l)"

lemma demo_put_layers_ok:
  assumes "planes_ok w h planes" and "c < 3" and "set ls \<subseteq> {..<NLAYERS}" and "syms_done w h done_ls syms" and "demo_ok w h planes all"
  shows "\<exists>all' syms' rr' rng'. rfold (demo_put_layer (layer_places w h) (planes ! c) c) (all, syms, rr, rng) ls =
      (Inr (all', syms', rr', rng') :: ('e, _) res) \<and> demo_ok w h planes all' \<and> syms_done w h (done_ls \<union> set ls) syms'"
  using assms(3-5)
proof (induction ls arbitrary: all syms rr rng done_ls)
  case (Cons l ls)
  then have l: "l < NLAYERS" by simp
  obtain new rr1 rng1 where
    1: "demo_put_layer (layer_places w h) (planes ! c) c (all, syms, rr, rng) l =
      (Inr (all @ new, syms[l := demo_lens w h ! l], rr1, rng1) :: ('e, _) res)" "demo_ok w h planes new"
    using demo_put_layer_ok[OF assms(1,2) l] by blast
  have "syms_done w h (insert l done_ls) (syms[l := demo_lens w h ! l])"
    using Cons.prems(2) l by (auto simp: syms_done_def nth_list_update)
  moreover have "demo_ok w h planes (all @ new)" using Cons.prems(3) 1(2) by auto
  moreover have "set ls \<subseteq> {..<NLAYERS}" using Cons.prems(1) by simp
  ultimately show ?case using Cons.IH[of "insert l done_ls" "syms[l := demo_lens w h ! l]" "all @ new" rr1 rng1] 1(1) by simp
qed auto

lemma demo_put_channels_ok:
  assumes "planes_ok w h planes"
    and "\<forall>c \<in> set cs. c < 3 \<and> c < length original \<and> haar_forward f32_wave (original ! c) w h LEVELS = (Inr (planes ! c) :: ('e, _) res)"
    and "demo_ok w h planes all" and "length syms = NLAYERS"
  shows "\<exists>all' syms' rr' rng'. rfold (demo_put_channel w h (layer_places w h) original) (all, syms, rr, rng) cs =
      (Inr (all', syms', rr', rng') :: ('e, _) res) \<and> demo_ok w h planes all' \<and> length syms' = NLAYERS \<and>
      (cs \<noteq> [] \<longrightarrow> syms' = demo_lens w h)"
  using assms(2-4)
proof (induction cs arbitrary: all syms rr rng)
  case (Cons c cs)
  have "syms_done w h {} syms" using Cons.prems(3) by (simp add: syms_done_def)
  moreover have "set [0..<NLAYERS] \<subseteq> {..<NLAYERS}" by auto
  ultimately have "\<exists>all' syms' rr' rng'. rfold (demo_put_layer (layer_places w h) (planes ! c) c) (all, syms, rr, rng) [0..<NLAYERS] =
      (Inr (all', syms', rr', rng') :: ('e, _) res) \<and> demo_ok w h planes all' \<and> syms_done w h ({} \<union> set [0..<NLAYERS]) syms'"
    using Cons.prems(1,2) by (intro demo_put_layers_ok[OF assms(1)]) auto
  then  obtain all1 syms1 rr1 rng1 where
    1: "rfold (demo_put_layer (layer_places w h) (planes ! c) c) (all, syms, rr, rng) [0..<NLAYERS] = (Inr (all1, syms1, rr1, rng1) :: ('e, _) res)"
      "demo_ok w h planes all1" "syms_done w h {0..<NLAYERS} syms1"
    unfolding Un_empty_left set_upt by blast
  have s1: "syms1 = demo_lens w h"
    using 1(3) by (intro nth_equalityI) (auto simp: syms_done_def demo_lens_def)
  have ch: "demo_put_channel w h (layer_places w h) original (all, syms, rr, rng) c = (Inr (all1, syms1, rr1, rng1) :: ('e, _) res)"
    using 1(1) Cons.prems(1) by (simp add: demo_put_channel_def)
  have "length syms1 = NLAYERS" using 1(3) by (simp add: syms_done_def)
  from Cons.IH[OF _ 1(2) this, of rr1 rng1] Cons.prems(1) ch s1 show ?case by (cases "cs = []") auto
qed simp

text \<open>The coding of a whole picture: it returns, with the symbol lengths of the layers and shards of the transformed planes.\<close>

lemma demo_encode_ok:
  assumes "planes_ok w h original"
  obtains planes all rr rng where "planes_ok w h planes"
    and "\<forall>c < 3. haar_forward f32_wave (original ! c) w h LEVELS = (Inr (planes ! c) :: ('e, _) res)"
    and "demo_encode w h original = (Inr (layer_places w h, all, demo_lens w h, rr, rng) :: ('e, _) res)"
    and "demo_ok w h planes all"
proof -
  have "\<exists>plane. haar_forward f32_wave (original ! c) w h LEVELS = (Inr plane :: ('e, _) res) \<and> length plane = w * h" if "c < 3" for c
    using assms that haar_total(1)[of "original ! c" w h f32_wave LEVELS] by (simp add: planes_ok_def)
  then obtain f where f: "c < 3 \<Longrightarrow> haar_forward f32_wave (original ! c) w h LEVELS = (Inr (f c) :: ('e, _) res)"
    "c < 3 \<Longrightarrow> length (f c) = w * h" for c by metis
  let ?planes = "map f [0..<3]"
  have p: "planes_ok w h ?planes" using f(2) by (auto simp: planes_ok_def)
  have fw: "\<forall>c < 3. haar_forward f32_wave (original ! c) w h LEVELS = (Inr (?planes ! c) :: ('e, _) res)" using f(1) by simp
  from demo_put_channels_ok[OF p, of "[0..<3]" original "[]" "replicate NLAYERS 0" 0 "rng_new 0xC0FFEE", where 'e = 'e] assms fw
  obtain all rr rng where "rfold (demo_put_channel w h (layer_places w h) original) ([], replicate NLAYERS 0, 0, rng_new 0xC0FFEE) [0..<3] =
      (Inr (all, demo_lens w h, rr, rng) :: ('e, _) res)" "demo_ok w h ?planes all" by (auto simp: planes_ok_def)
  then show ?thesis using that[OF p fw] by (simp add: demo_encode_def demo_positions_eq)
qed

section \<open>What the deaths leave\<close>

lemma demo_chunks_source: "source_ok K (demo_lens w h ! l) (demo_chunks w h planes c l)"
  unfolding demo_chunks_def by (rule source_ok_chunks_of) simp

lemma demo_death_ok:
  assumes "demo_ok w h planes all"
  shows "\<exists>all' stats' rng'. demo_death thr (demo_lens w h) (all, stats, rng) i = (Inr (all', stats', rng') :: ('e, _) res) \<and>
    demo_ok w h planes all'"
proof -
  let ?all = "filter (\<lambda>r. sr_node r \<noteq> i mod N_NODES) all"
  have ok: "demo_ok w h planes ?all" using assms by simp
  then have "\<forall>r \<in> set ?all. sr_channel r < 3 \<and> sr_layer r < NLAYERS" by (auto simp: rec_ok_def)
  from count_loop[OF this, of "replicate 3 (replicate NLAYERS 0)", where 'e = 'e]
  obtain b where b: "needs_repair ?all demo_counts thr = (Inr b :: ('e, _) res)"
    by (auto simp: needs_repair_def live_counts_def)
  obtain new st rng' where
    "regenerate_node gf_new (i mod N_NODES) ?all (demo_lens w h) demo_counts K rng = (Inr (?all @ new, st, rng') :: ('e, _) res)"
    "demo_ok w h planes new"
    using regenerate_spec[of "demo_lens w h" "demo_chunks w h planes" ?all ?all "i mod N_NODES" demo_counts K rng, where 'e = 'e] ok
      demo_chunks_source by auto
  with b ok show ?thesis by (cases b) (auto simp: demo_death_def Let_def)
qed

lemma demo_series_ok:
  assumes "demo_ok w h planes all"
  shows "\<exists>all' stats rng'. demo_series thr (demo_lens w h) all rng deaths = (Inr (all', stats, rng') :: ('e, _) res) \<and>
    demo_ok w h planes all'"
proof -
  have "\<exists>all' stats' rng'. rfold (demo_death thr (demo_lens w h)) (all, stats, rng) deaths = (Inr (all', stats', rng') :: ('e, _) res) \<and>
      demo_ok w h planes all'" for stats
    using assms
  proof (induction deaths arbitrary: all stats rng)
    case (Cons i deaths)
    then show ?case using demo_death_ok[of all w h planes thr stats rng i, where 'e = 'e] by fastforce
  qed simp
  then show ?thesis by (simp add: demo_series_def)
qed

lemma demo_filter_ok:
  "demo_ok w h planes all \<Longrightarrow> demo_ok w h planes (demo_survivors surv all)"
  "demo_ok w h planes all \<Longrightarrow> demo_ok w h planes (demo_noheal deaths all)"
proof -
  show "demo_ok w h planes all \<Longrightarrow> demo_ok w h planes (demo_survivors surv all)" by (simp add: demo_survivors_def)
  show "demo_ok w h planes all \<Longrightarrow> demo_ok w h planes (demo_noheal deaths all)"
    unfolding demo_noheal_def
  proof (induction deaths arbitrary: all)
    case (Cons i deaths)
    have "demo_ok w h planes (filter (\<lambda>r. sr_node r \<noteq> i mod N_NODES) all)" using Cons.prems by simp
    from Cons.IH[OF this] show ?case by simp
  qed simp
qed

section \<open>What is decoded\<close>

text \<open>The shards at hand leave more than one possibility for the chunks of a layer.\<close>

definition undetermined :: "nat \<Rightarrow> shard list \<Rightarrow> bool" where
  "undetermined sl ss \<longleftrightarrow> (\<exists>Z Z'. explains K sl ss Z \<and> explains K sl ss Z' \<and> Z \<noteq> Z')"

text \<open>A plane with the coefficients of some layers, zeros elsewhere.\<close>

definition masked :: "nat \<Rightarrow> nat \<Rightarrow> (nat \<Rightarrow> bool) \<Rightarrow> u32 list \<Rightarrow> u32 list" where
  "masked w h keep plane = map (\<lambda>i. if keep (layer_of w h i) then plane ! i else 0) [0..<w * h]"

lemma length_masked [simp]: "length (masked w h keep plane) = w * h"
  by (simp add: masked_def)

lemma demo_explains:
  assumes "demo_ok w h planes all"
  shows "explains K (demo_lens w h ! l) (layer_shards c l all) (demo_chunks w h planes c l)"
  using assms demo_chunks_source by (fastforce simp: explains_def layer_shards_def rec_ok_def in_layer_def)

lemma demo_decode_layer:
  assumes "demo_ok w h planes all" and "8 \<le> w" and "8 \<le> h" and "l < NLAYERS"
  shows "\<exists>rest. decode_layer gf_new (layer_shards c l all) (demo_lens w h ! l) =
    (Inr (if undetermined (demo_lens w h ! l) (layer_shards c l all) then None
      else Some (concat (map f32_le (layer_coeffs w h planes c l)) @ rest)) :: ('e, _) res)"
proof -
  let ?sl = "demo_lens w h ! l" and ?data = "concat (map f32_le (layer_coeffs w h planes c l))"
  have ex: "explains K ?sl (layer_shards c l all) (demo_chunks w h planes c l)" by (rule demo_explains[OF assms(1)])
  have fits: "length ?data \<le> K * ?sl" using symbol_len_covers[of K] by (simp add: demo_lens_at[OF assms(4)] K_def)
  moreover have "0 < length ?data" using layer_nonempty[OF assms(2-4)] by simp
  ultimately have pos: "0 < ?sl" by (cases ?sl) auto
  have "concat (demo_chunks w h planes c l) = pad_to (K * ?sl) ?data"
    unfolding demo_chunks_def by (rule concat_chunks_of) simp
  also have "\<dots> = ?data @ replicate (K * ?sl - length ?data) 0" using fits by (simp add: pad_to_def)
  finally have c: "concat (demo_chunks w h planes c l) = ?data @ replicate (K * ?sl - length ?data) 0" .
  have "undetermined ?sl (layer_shards c l all) \<longleftrightarrow> \<not> (\<forall>Z. explains K ?sl (layer_shards c l all) Z \<longrightarrow> Z = demo_chunks w h planes c l)"
    using ex unfolding undetermined_def by metis
  with decode_layer_spec[OF ex pos, where 'e = 'e] c show ?thesis by (intro exI[of _ "replicate (K * ?sl - length ?data) 0"]) simp
qed

lemma demo_coeffs_ok:
  assumes "\<forall>p \<in> set ps. p < length plane" and "length vs = length ps"
  shows "rfold (demo_coeff (concat (map f32_le vs) @ rest)) plane (zip [0..<length ps] ps) = (Inr (put_line ps vs plane) :: ('e, _) res)"
proof -
  have "demo_coeff (concat (map f32_le vs) @ rest) plane (i, p) = (set_idx plane (p, vs ! i) :: ('e, _) res)" if "i < length vs" for i p plane
    using that slice_f32s[OF that, of rest] by (simp add: demo_coeff_def)
  from coeffs_loop[where loc = "\<lambda>p. p", OF this assms(2), of plane] assms(1) show ?thesis by simp
qed

text \<open>One layer: its places are filled, unless it is undetermined.\<close>

definition layer_lost :: "nat \<Rightarrow> nat \<Rightarrow> shard_rec list \<Rightarrow> nat \<Rightarrow> nat \<Rightarrow> bool" where
  "layer_lost w h all c l \<longleftrightarrow> undetermined (demo_lens w h ! l) (layer_shards c l all)"

lemma demo_read_layer_ok:
  assumes "demo_ok w h planes all" and "8 \<le> w" and "8 \<le> h" and "l < NLAYERS" and "l \<notin> ls" and "length (planes ! c) = w * h"
  defines "u \<equiv> layer_lost w h all c"
  shows "demo_read_layer (layer_places w h) (demo_lens w h) all c (masked w h (\<lambda>l. l \<in> ls \<and> \<not> u l) (planes ! c), lost) l =
    (Inr (masked w h (\<lambda>l'. l' \<in> insert l ls \<and> \<not> u l') (planes ! c), lost @ (if u l then [(c, l)] else [])) :: ('e, _) res)"
proof -
  obtain rest where d: "decode_layer gf_new (layer_shards c l all) (demo_lens w h ! l) =
      (Inr (if u l then None else Some (concat (map f32_le (layer_coeffs w h planes c l)) @ rest)) :: ('e, _) res)"
    using demo_decode_layer[OF assms(1-4), of c, where 'e = 'e] unfolding u_def layer_lost_def by blast
  let ?plane = "masked w h (\<lambda>l. l \<in> ls \<and> \<not> u l) (planes ! c)" and ?ps = "layer_places w h ! l"
  have sl: "at_idx (demo_lens w h) l = (Inr (demo_lens w h ! l) :: ('e, _) res)" using assms(4) by (simp add: demo_lens_def)
  show ?thesis
  proof (cases "u l")
    case True
    then have "masked w h (\<lambda>l'. l' \<in> insert l ls \<and> \<not> u l') (planes ! c) = ?plane"
      using assms(5) by (auto simp: masked_def)
    with True d sl show ?thesis by (simp add: demo_read_layer_def)
  next
    case False
    have ps: "\<forall>p \<in> set ?ps. p < length ?plane" using place_in_plane[OF assms(4)] by simp
    have "put_line ?ps (layer_coeffs w h planes c l) ?plane = masked w h (\<lambda>l'. l' \<in> insert l ls \<and> \<not> u l') (planes ! c)"
    proof (rule nth_equalityI)
      fix j assume "j < length (put_line ?ps (layer_coeffs w h planes c l) ?plane)"
      then have j: "j < w * h" by simp
      show "put_line ?ps (layer_coeffs w h planes c l) ?plane ! j = masked w h (\<lambda>l'. l' \<in> insert l ls \<and> \<not> u l') (planes ! c) ! j"
        using put_line_fun[OF ps, of j "(!) (planes ! c)"] j False assms(5)
        by (auto simp: layer_coeffs_def masked_def layer_places_at[OF assms(4)])
    qed simp
    with False d sl ps assms(4) show ?thesis by (simp add: demo_read_layer_def demo_coeffs_ok)
  qed
qed

text \<open>The layers of one channel, and the three channels.\<close>

definition lost_layers :: "nat \<Rightarrow> nat \<Rightarrow> shard_rec list \<Rightarrow> nat \<Rightarrow> nat list" where
  "lost_layers w h all c = filter (layer_lost w h all c) [0..<NLAYERS]"

lemma demo_read_layers_ok:
  assumes "demo_ok w h planes all" and "8 \<le> w" and "8 \<le> h" and "length (planes ! c) = w * h"
    and "set ls \<subseteq> {..<NLAYERS}" and "distinct ls" and "set ls \<inter> seen = {}"
  defines "u \<equiv> layer_lost w h all c"
  shows "rfold (demo_read_layer (layer_places w h) (demo_lens w h) all c) (masked w h (\<lambda>l. l \<in> seen \<and> \<not> u l) (planes ! c), lost) ls =
    (Inr (masked w h (\<lambda>l. l \<in> seen \<union> set ls \<and> \<not> u l) (planes ! c), lost @ map (Pair c) (filter u ls)) :: ('e, _) res)"
  using assms(5-7)
proof (induction ls arbitrary: seen lost)
  case (Cons l ls)
  have l: "l < NLAYERS" "l \<notin> seen" using Cons.prems by auto
  note step = demo_read_layer_ok[where planes = planes and c = c, OF assms(1-3) l assms(4), folded u_def, where 'e = 'e]
  have "set ls \<subseteq> {..<NLAYERS}" "distinct ls" "set ls \<inter> insert l seen = {}" using Cons.prems by auto
  from Cons.IH[OF this, of "lost @ (if u l then [(c, l)] else [])"] show ?case by (simp add: step)
qed simp

lemma rmap_same: "(\<And>x. x \<in> set xs \<Longrightarrow> f x = g x) \<Longrightarrow> rmap f xs = rmap g xs"
  by (induction xs) auto

lemma masked_none: "masked w h (\<lambda>l. False) plane = replicate (w * h) 0"
  by (simp add: masked_def map_replicate_trivial)

lemma demo_read_channel_ok:
  assumes "demo_ok w h planes all" and "planes_ok w h planes" and "8 \<le> w" and "8 \<le> h" and "c < 3"
  shows "\<exists>plane. haar_inverse f32_wave (masked w h (\<lambda>l. l \<notin> set (lost_layers w h all c)) (planes ! c)) w h LEVELS = (Inr plane :: ('e, _) res) \<and>
    demo_read_channel w h (layer_places w h) (demo_lens w h) all (recon, lost) c =
      (Inr (recon @ [plane], lost @ map (Pair c) (lost_layers w h all c)) :: ('e, _) res)"
proof -
  let ?u = "layer_lost w h all c"
  let ?kept = "masked w h (\<lambda>l. l \<notin> set (lost_layers w h all c)) (planes ! c)"
  have len: "length (planes ! c) = w * h" using assms(2,5) by (simp add: planes_ok_def)
  have sub: "set [0..<NLAYERS] \<subseteq> {..<NLAYERS}" by auto
  have "layer_of w h i < NLAYERS" for i by (simp add: layer_of_def coeff_layer_less)
  then have m: "masked w h (\<lambda>l. l \<in> {} \<union> set [0..<NLAYERS] \<and> \<not> ?u l) (planes ! c) = ?kept"
    by (simp add: masked_def lost_layers_def)
  have r: "rfold (demo_read_layer (layer_places w h) (demo_lens w h) all c) (replicate (w * h) 0, lost) [0..<NLAYERS] =
      (Inr (?kept, lost @ map (Pair c) (lost_layers w h all c)) :: ('e, _) res)"
    using demo_read_layers_ok[where planes = planes and c = c and seen = "{}" and lost = lost, OF assms(1,3,4) len sub distinct_upt,
        where 'e = 'e]
    unfolding m by (simp add: masked_none lost_layers_def)
  obtain plane where "haar_inverse f32_wave ?kept w h LEVELS = (Inr plane :: ('e, _) res)"
    using haar_total(2)[of ?kept w h f32_wave LEVELS] by auto
  then show ?thesis by (simp add: demo_read_channel_def r)
qed

lemma demo_decode_ok:
  assumes "demo_ok w h planes all" and "planes_ok w h planes" and "8 \<le> w" and "8 \<le> h"
  shows "\<exists>recon. rmap (\<lambda>c. haar_inverse f32_wave (masked w h (\<lambda>l. l \<notin> set (lost_layers w h all c)) (planes ! c)) w h LEVELS) [0..<3] =
      (Inr recon :: ('e, _) res) \<and>
    demo_decode w h (layer_places w h) (demo_lens w h) all =
      (Inr (recon, concat (map (\<lambda>c. map (Pair c) (lost_layers w h all c)) [0..<3])) :: ('e, _) res)"
proof -
  have "\<exists>out. rmap (\<lambda>c. haar_inverse f32_wave (masked w h (\<lambda>l. l \<notin> set (lost_layers w h all c)) (planes ! c)) w h LEVELS) cs =
      (Inr out :: ('e, _) res) \<and>
    rfold (demo_read_channel w h (layer_places w h) (demo_lens w h) all) (recon, lost) cs =
      (Inr (recon @ out, lost @ concat (map (\<lambda>c. map (Pair c) (lost_layers w h all c)) cs)) :: ('e, _) res)"
    if "set cs \<subseteq> {..<3}" for cs recon lost
    using that
  proof (induction cs arbitrary: recon lost)
    case (Cons c cs)
    then have c: "c < 3" and cs: "set cs \<subseteq> {..<3}" by auto
    obtain plane where p: "haar_inverse f32_wave (masked w h (\<lambda>l. l \<notin> set (lost_layers w h all c)) (planes ! c)) w h LEVELS = (Inr plane :: ('e, _) res)"
      "demo_read_channel w h (layer_places w h) (demo_lens w h) all (recon, lost) c =
        (Inr (recon @ [plane], lost @ map (Pair c) (lost_layers w h all c)) :: ('e, _) res)"
      using demo_read_channel_ok[OF assms c, where 'e = 'e] by blast
    from Cons.IH[OF cs, of "recon @ [plane]" "lost @ map (Pair c) (lost_layers w h all c)"] p show ?case by auto
  qed simp
  from this[of "[0..<3]" "[]" "[]"] show ?thesis by (auto simp: demo_decode_def lessThan_atLeast0)
qed

lemma demo_held_ok:
  assumes "demo_ok w h planes held" and "planes_ok w h planes" and "8 \<le> w" and "8 \<le> h"
  shows "\<exists>recon lost. demo_decode w h (layer_places w h) (demo_lens w h) held = (Inr (recon, lost) :: ('e, _) res) \<and>
    set lost = {(c, l). c < 3 \<and> l < NLAYERS \<and> undetermined (demo_lens w h ! l) (layer_shards c l held)} \<and>
    rmap (\<lambda>c. haar_inverse f32_wave (masked w h (\<lambda>l. (c, l) \<notin> set lost) (planes ! c)) w h LEVELS) [0..<3] = (Inr recon :: ('e, _) res)"
proof -
  let ?lost = "concat (map (\<lambda>c. map (Pair c) (lost_layers w h held c)) [0..<3])"
  have s: "set ?lost = {(c, l). c < 3 \<and> l < NLAYERS \<and> undetermined (demo_lens w h ! l) (layer_shards c l held)}"
    by (auto simp: lost_layers_def layer_lost_def)
  have "masked w h (\<lambda>l. (c, l) \<notin> set ?lost) (planes ! c) = masked w h (\<lambda>l. l \<notin> set (lost_layers w h held c)) (planes ! c)" if "c < 3" for c
    using that unfolding s by (simp add: masked_def lost_layers_def layer_lost_def layer_of_def coeff_layer_less)
  then have m: "rmap (\<lambda>c. haar_inverse f32_wave (masked w h (\<lambda>l. (c, l) \<notin> set ?lost) (planes ! c)) w h LEVELS) [0..<3] =
      (rmap (\<lambda>c. haar_inverse f32_wave (masked w h (\<lambda>l. l \<notin> set (lost_layers w h held c)) (planes ! c)) w h LEVELS) [0..<3] :: ('e, _) res)"
    by (intro rmap_same) auto
  obtain recon where
    "rmap (\<lambda>c. haar_inverse f32_wave (masked w h (\<lambda>l. l \<notin> set (lost_layers w h held c)) (planes ! c)) w h LEVELS) [0..<3] = (Inr recon :: ('e, _) res)"
    "demo_decode w h (layer_places w h) (demo_lens w h) held = (Inr (recon, ?lost) :: ('e, _) res)"
    using demo_decode_ok[OF assms, where 'e = 'e] by blast
  with s m show ?thesis by (intro exI[of _ recon] exI[of _ ?lost] conjI) simp_all
qed

section \<open>Properties\<close>

text \<open>C40: the life of a picture. For a picture of at least eight by eight, the coding returns, any series of deaths with
  repairs at any threshold returns, and so does decoding what is then left, or what a part of the nodes or the deaths without
  repairs leave. In each case the list of lost layers names exactly those the remaining shards do not determine, and every
  decoded plane is the inverse transform of the transformed plane with zeros in the lost layers: never a wrong coefficient.\<close>

theorem demo_never_wrong:
  assumes "planes_ok w h original" and "8 \<le> w" and "8 \<le> h"
  shows "\<exists>planes lps all syms rr rng. rmap (\<lambda>c. haar_forward f32_wave (original ! c) w h LEVELS) [0..<3] = (Inr planes :: ('e, _) res) \<and>
    demo_encode w h original = (Inr (lps, all, syms, rr, rng) :: ('e, _) res) \<and>
    (\<exists>left stats rng'. demo_series threshold syms all rng deaths = (Inr (left, stats, rng') :: ('e, _) res) \<and>
      (\<forall>held \<in> {left, demo_survivors surv all, demo_noheal deaths all}.
        \<exists>recon lost. demo_decode w h lps syms held = (Inr (recon, lost) :: ('e, _) res) \<and>
          set lost = {(c, l). c < 3 \<and> l < NLAYERS \<and> undetermined (syms ! l) (layer_shards c l held)} \<and>
          rmap (\<lambda>c. haar_inverse f32_wave (masked w h (\<lambda>l. (c, l) \<notin> set lost) (planes ! c)) w h LEVELS) [0..<3] = (Inr recon :: ('e, _) res)))"
proof -
  obtain planes all rr rng where p: "planes_ok w h planes"
    "\<forall>c < 3. haar_forward f32_wave (original ! c) w h LEVELS = (Inr (planes ! c) :: ('e, _) res)"
    and enc: "demo_encode w h original = (Inr (layer_places w h, all, demo_lens w h, rr, rng) :: ('e, _) res)"
    and ok: "demo_ok w h planes all"
    using demo_encode_ok[OF assms(1), where 'e = 'e] by blast
  have fw: "rmap (\<lambda>c. haar_forward f32_wave (original ! c) w h LEVELS) [0..<3] = (Inr (map ((!) planes) [0..<3]) :: ('e, _) res)"
    using p(2) by (intro rmap_Inr) simp
  have pl: "map ((!) planes) [0..<3] = planes" using p(1) map_nth[of planes] by (simp add: planes_ok_def)
  obtain left stats rng' where series: "demo_series threshold (demo_lens w h) all rng deaths = (Inr (left, stats, rng') :: ('e, _) res)"
    and ok': "demo_ok w h planes left" using demo_series_ok[OF ok, where 'e = 'e] by blast
  have all_held: "\<forall>held \<in> {left, demo_survivors surv all, demo_noheal deaths all}.
      \<exists>recon lost. demo_decode w h (layer_places w h) (demo_lens w h) held = (Inr (recon, lost) :: ('e, _) res) \<and>
        set lost = {(c, l). c < 3 \<and> l < NLAYERS \<and> undetermined (demo_lens w h ! l) (layer_shards c l held)} \<and>
        rmap (\<lambda>c. haar_inverse f32_wave (masked w h (\<lambda>l. (c, l) \<notin> set lost) (planes ! c)) w h LEVELS) [0..<3] = (Inr recon :: ('e, _) res)"
  proof
    fix held assume "held \<in> {left, demo_survivors surv all, demo_noheal deaths all}"
    then have "demo_ok w h planes held" using ok' demo_filter_ok[OF ok] by blast
    from demo_held_ok[OF this p(1) assms(2,3), where 'e = 'e]
    show "\<exists>recon lost. demo_decode w h (layer_places w h) (demo_lens w h) held = (Inr (recon, lost) :: ('e, _) res) \<and>
        set lost = {(c, l). c < 3 \<and> l < NLAYERS \<and> undetermined (demo_lens w h ! l) (layer_shards c l held)} \<and>
        rmap (\<lambda>c. haar_inverse f32_wave (masked w h (\<lambda>l. (c, l) \<notin> set lost) (planes ! c)) w h LEVELS) [0..<3] = (Inr recon :: ('e, _) res)" .
  qed
  show ?thesis
    by (intro exI conjI) (rule fw[unfolded pl], rule enc, rule series, rule all_held)
qed

text \<open>A grey picture of eight by eight, the deaths of the program, and the witness of the theorem.\<close>

definition grey :: "u32 list list" where "grey = replicate 3 (replicate 64 0x43000000)"

theorem demo_never_wrong_witness:
  "\<exists>lps all syms rr rng left stats rng'. demo_encode 8 8 grey = (Inr (lps, all, syms, rr, rng) :: (unit, _) res) \<and>
    demo_series 0x3F000000 syms all rng [0..<kill_count] = (Inr (left, stats, rng') :: (unit, _) res) \<and>
    (\<exists>recon lost. demo_decode 8 8 lps syms left = (Inr (recon, lost) :: (unit, _) res) \<and>
      set lost = {(c, l). c < 3 \<and> l < NLAYERS \<and> undetermined (syms ! l) (layer_shards c l left)})"
proof -
  have "planes_ok 8 8 grey" by (simp add: planes_ok_def grey_def)
  from demo_never_wrong[where 'e = unit and threshold = "0x3F000000" and deaths = "[0..<kill_count]" and surv = 100, OF this]
  show ?thesis by (simp only: ball_simps order_refl simp_thms) blast
qed

end
